(* ===== verification/Prelude.thy ===== *)
theory Prelude
  imports Main "HOL-Library.Word" "HOL-Library.Monad_Syntax"
begin

unbundle bit_operations_syntax

text \<open>
  Shared vocabulary of the development: machine types, byte memory with checked access,
  C strings as seen through a pointer, and the generic lemmas the components use.

  The model follows the conventions of the 64-bit little-endian targets (\<open>long\<close> is 64 bits,
  plain \<open>char\<close> is signed as on x86\_64).  An object in memory is a list of bytes.  A pointer
  that the code only reads through and advances is the list of the bytes from there to the end
  of the object (\<open>*p\<close> is the head, \<open>p + 1\<close> the tail, and reading through the empty list is an
  overrun); a pointer the code writes through is an offset into the object.  An access outside
  the object is the value \<open>None\<close>, never an unspecified byte.
\<close>

section \<open>Machine types\<close>

type_synonym byte = "8 word"
type_synonym u16 = "16 word"
type_synonym u32 = "32 word"
type_synonym u64 = "64 word"
type_synonym mem = "byte list"

named_theorems bytes_simps "facts that evaluate byte and word layouts"

text \<open>A byte read as a plain (signed) \<open>char\<close> and as an \<open>unsigned char\<close>.\<close>

abbreviation schar :: "byte \<Rightarrow> int" where "schar c \<equiv> sint c"
abbreviation uchar :: "byte \<Rightarrow> int" where "uchar c \<equiv> uint c"

text \<open>The \<open>int\<close> that results from storing an integer in a 32-bit signed variable.\<close>

definition int32 :: "int \<Rightarrow> int" where
  "int32 x = sint (word_of_int x :: 32 word)"

text \<open>Character constants of the source are bytes here.\<close>

definition ch :: "char \<Rightarrow> byte" where
  "ch c = of_nat (of_char c)"

definition bstr :: "string \<Rightarrow> byte list" where
  "bstr s = map ch s"

section \<open>Checked memory access\<close>

definition rd :: "mem \<Rightarrow> nat \<Rightarrow> byte option" where
  "rd m p = (if p < length m then Some (m ! p) else None)"

definition wr :: "mem \<Rightarrow> nat \<Rightarrow> byte \<Rightarrow> mem option" where
  "wr m p b = (if p < length m then Some (m[p := b]) else None)"

text \<open>A run of bytes, as \<open>memcpy\<close> reads and writes it.\<close>

definition rds :: "mem \<Rightarrow> nat \<Rightarrow> nat \<Rightarrow> byte list option" where
  "rds m p n = (if p + n \<le> length m then Some (take n (drop p m)) else None)"

definition wrs :: "mem \<Rightarrow> nat \<Rightarrow> byte list \<Rightarrow> mem option" where
  "wrs m p bs = (if p + length bs \<le> length m
                 then Some (take p m @ bs @ drop (p + length bs) m) else None)"

lemma rd_Some_iff [simp]: "rd m p = Some b \<longleftrightarrow> p < length m \<and> b = m ! p"
  by (auto simp: rd_def)

lemma rd_None_iff [simp]: "rd m p = None \<longleftrightarrow> length m \<le> p"
  by (auto simp: rd_def)

lemma wr_Some_iff: "wr m p b = Some m' \<longleftrightarrow> p < length m \<and> m' = m[p := b]"
  by (auto simp: wr_def)

lemma wrs_length: "wrs m p bs = Some m' \<Longrightarrow> length m' = length m"
  by (auto simp: wrs_def split: if_splits)

lemma wr_length: "wr m p b = Some m' \<Longrightarrow> length m' = length m"
  by (auto simp: wr_def split: if_splits)

lemma wrs_Nil [simp]: "p \<le> length m \<Longrightarrow> wrs m p [] = Some m"
  by (simp add: wrs_def)

lemma wrs_frame:
  assumes "wrs m p bs = Some m'" and "i < p \<or> p + length bs \<le> i"
  shows "m' ! i = m ! i"
proof -
  from assms(1) have fit: "p + length bs \<le> length m"
    and m': "m' = take p m @ bs @ drop (p + length bs) m"
    by (auto simp: wrs_def split: if_splits)
  have "\<not> i - p < length bs" if "p + length bs \<le> i" using that by simp
  then show ?thesis using assms(2) fit by (auto simp: m' nth_append)
qed

lemma wrs_rds: "wrs m p bs = Some m' \<Longrightarrow> rds m' p (length bs) = Some bs"
  by (auto simp: wrs_def rds_def split: if_splits)

lemma rds_wrs_other:
  assumes "wrs m p bs = Some m'" and "q + n \<le> p \<or> p + length bs \<le> q"
  shows "rds m' q n = rds m q n"
  using assms wrs_length[OF assms(1)] wrs_frame[OF assms(1)]
  by (auto simp: rds_def intro!: nth_equalityI)

lemma wrs_fits: "p + length bs \<le> length m \<Longrightarrow> \<exists>m'. wrs m p bs = Some m' \<and> length m' = length m"
  by (auto simp: wrs_def)

lemma wr_wrs: "wr m p b = wrs m p [b]"
  by (auto simp: wr_def wrs_def upd_conv_take_nth_drop)

section \<open>Shared lemmas on words and lists\<close>

lemma uint_eq_iff [simp]: "uint a = uint b \<longleftrightarrow> a = b"
  by (simp add: word_uint_eq_iff)

lemma sint_eq_iff [simp]: "sint a = sint b \<longleftrightarrow> a = b"
  by (metis signed_word_eqI)

lemma uint_eq_0_iff [simp]: "uint a = 0 \<longleftrightarrow> a = 0"
  by (rule unsigned_eq_0_iff)

lemma sint_eq_0_iff [simp]: "sint a = 0 \<longleftrightarrow> a = 0"
  by (rule signed_eq_0_iff)

lemma uint_neq_less: "a \<noteq> b \<Longrightarrow> uint a < uint b \<longleftrightarrow> \<not> uint b < uint a"
  by (metis linorder_neqE_linordered_idom not_less_iff_gr_or_eq uint_eq_iff)

lemma unat_ucast_32_64 [simp]: "unat (ucast (n :: u32) :: u64) = unat n"
  using unsigned_less[of n, where ?'a = nat] by (simp add: unsigned_ucast_eq take_bit_nat_eq_self)

lemma unat_ucast_8_32 [simp]: "unat (ucast (n :: byte) :: u32) = unat n"
  using unsigned_less[of n, where ?'a = nat] by (simp add: unsigned_ucast_eq take_bit_nat_eq_self)

lemma unat_word_of_int_nonneg:
  "0 \<le> k \<Longrightarrow> k < 2 ^ LENGTH('a) \<Longrightarrow> unat (word_of_int k :: 'a::len word) = nat k"
  by (simp add: unsigned_of_int take_bit_int_eq_self)

lemma sint_bounds:
  fixes w :: "'a::len word"
  shows "- (2 ^ LENGTH('a)) < sint w" and "sint w < 2 ^ LENGTH('a)"
proof -
  have "(2::int) ^ (LENGTH('a) - 1) < 2 ^ LENGTH('a)" by (rule power_strict_increasing) auto
  note * = this sint_greater_eq[of w] sint_less[of w]
  show "- (2 ^ LENGTH('a)) < sint w" using * unfolding One_nat_def by linarith
  show "sint w < 2 ^ LENGTH('a)" using * unfolding One_nat_def by linarith
qed

lemma unat_sint_nonneg: "0 \<le> sint w \<Longrightarrow> unat w = nat (sint w)"
  for w :: "'a::len word"
  using unat_word_of_int_nonneg[of "sint w", where 'a = 'a] sint_bounds[of w] by simp

lemma unat_sint_neg: "sint w < 0 \<Longrightarrow> unat (- w) = nat (- sint w)"
  for w :: "'a::len word"
  using unat_word_of_int_nonneg[of "- sint w", where 'a = 'a] sint_bounds[of w] by simp

lemma take_Suc_update [simp]: "p < length m \<Longrightarrow> take (Suc p) (m[p := v]) = take p m @ [v]"
  by (simp add: take_Suc_conv_app_nth)

section \<open>C strings\<close>

text \<open>
  The NUL-terminated string a pointer designates: the bytes before the first zero byte, or
  \<open>None\<close> when the object ends before one.
\<close>

fun cstr :: "byte list \<Rightarrow> byte list option" where
  "cstr [] = None"
| "cstr (c # p) = (if c = 0 then Some [] else map_option (Cons c) (cstr p))"

lemma cstr_append [simp]: "0 \<notin> set s \<Longrightarrow> cstr (s @ 0 # r) = Some s"
  by (induction s) auto

lemma cstr_SomeD: "cstr p = Some s \<Longrightarrow> 0 \<notin> set s \<and> (\<exists>r. p = s @ 0 # r)"
  by (induction p arbitrary: s) (auto split: if_splits)

lemma cstr_Some_iff: "cstr p = Some s \<longleftrightarrow> 0 \<notin> set s \<and> (\<exists>r. p = s @ 0 # r)"
  using cstr_SomeD cstr_append by blast

lemma cstrE:
  assumes "cstr p = Some s"
  obtains r where "p = s @ 0 # r" and "0 \<notin> set s"
  using cstr_SomeD[OF assms] by blast

section \<open>Integers in memory\<close>

text \<open>
  The \<open>n\<close> low bytes of a word, least significant first, and the word a run of bytes encodes.
\<close>

fun le_bytes :: "nat \<Rightarrow> 'a::len word \<Rightarrow> byte list" where
  "le_bytes 0 w = []"
| "le_bytes (Suc n) w = ucast w # le_bytes n (drop_bit 8 w)"

fun unle :: "byte list \<Rightarrow> 'a::len word" where
  "unle [] = 0"
| "unle (b # bs) = ucast b OR push_bit 8 (unle bs)"

lemma le_length [simp]: "length (le_bytes n w) = n"
  by (induction n arbitrary: w) auto

lemma unle_le_take: "unle (le_bytes n w) = take_bit (8 * n) w"
proof (induction n arbitrary: w)
  case (Suc n)
  have "ucast (ucast w :: byte) OR push_bit 8 (take_bit (8 * n) (drop_bit 8 w)) =
      take_bit (8 * Suc n) w"
    by (rule bit_word_eqI) (auto simp: bit_simps)
  then show ?case using Suc by simp
qed simp

lemma unle_le [simp]: "LENGTH('a) \<le> 8 * n \<Longrightarrow> unle (le_bytes n w) = (w :: 'a::len word)"
  by (simp add: unle_le_take take_bit_word_eq_self)

lemma unle_bits:
  "bit (unle bs :: 'a::len word) i \<longleftrightarrow> i < LENGTH('a) \<and> i < 8 * length bs \<and> bit (bs ! (i div 8)) (i mod 8)"
proof (induction bs arbitrary: i)
  case (Cons b bs)
  show ?case
  proof (cases "i < 8")
    case True
    then show ?thesis by (auto simp: bit_simps)
  next
    case False
    then have "i div 8 = Suc ((i - 8) div 8)" and "i mod 8 = (i - 8) mod 8"
      by (auto simp: div_if mod_if)
    then show ?thesis using False Cons[of "i - 8"]
      by (auto simp: bit_simps dest: bit_imp_le_length)
  qed
qed simp

lemma le_nth_bit:
  "k < n \<Longrightarrow> j < 8 \<Longrightarrow> bit (le_bytes n w ! k) j = bit w (8 * k + j)"
proof (induction n arbitrary: w k)
  case (Suc n)
  then show ?case by (cases k) (auto simp: bit_simps algebra_simps)
qed simp

lemma le_unle: "8 * length bs \<le> LENGTH('a) \<Longrightarrow> le_bytes (length bs) (unle bs :: 'a::len word) = bs"
proof (rule nth_equalityI)
  fix i
  assume *: "8 * length bs \<le> LENGTH('a)" "i < length (le_bytes (length bs) (unle bs :: 'a word))"
  have "(8 * i + j) div 8 = i" "(8 * i + j) mod 8 = j" if "j < 8" for j :: nat
    using that by auto
  then show "le_bytes (length bs) (unle bs :: 'a word) ! i = bs ! i"
    using * by (intro bit_word_eqI) (auto simp: le_nth_bit unle_bits)
qed simp

definition rd16 :: "mem \<Rightarrow> nat \<Rightarrow> u16 option" where
  "rd16 m p = map_option unle (rds m p 2)"

definition wr16 :: "mem \<Rightarrow> nat \<Rightarrow> u16 \<Rightarrow> mem option" where
  "wr16 m p w = wrs m p (le_bytes 2 w)"

definition rd32 :: "mem \<Rightarrow> nat \<Rightarrow> u32 option" where
  "rd32 m p = map_option unle (rds m p 4)"

definition wr32 :: "mem \<Rightarrow> nat \<Rightarrow> u32 \<Rightarrow> mem option" where
  "wr32 m p w = wrs m p (le_bytes 4 w)"

definition rd64 :: "mem \<Rightarrow> nat \<Rightarrow> u64 option" where
  "rd64 m p = map_option unle (rds m p 8)"

definition wr64 :: "mem \<Rightarrow> nat \<Rightarrow> u64 \<Rightarrow> mem option" where
  "wr64 m p w = wrs m p (le_bytes 8 w)"

text \<open>Runs of bytes addressed through the parts of a concatenation.\<close>

lemma rds_append: "length a = p \<Longrightarrow> length b = n \<Longrightarrow> rds (a @ b @ c) p n = Some b"
  by (auto simp: rds_def)

lemma wrs_append: "length a = p \<Longrightarrow> length b = length bs \<Longrightarrow> wrs (a @ b @ c) p bs = Some (a @ bs @ c)"
  by (auto simp: wrs_def)

lemma rd16_append: "length a = p \<Longrightarrow> rd16 (a @ le_bytes 2 w @ c) p = Some w"
  by (simp add: rd16_def rds_append)

lemma int32_id [simp]: "- 2147483648 \<le> x \<Longrightarrow> x < 2147483648 \<Longrightarrow> int32 x = x"
  by (simp add: int32_def signed_of_int signed_take_bit_int_eq_self_iff)

text \<open>\<open>(x + 3) & ~3\<close>\<close>

definition align4 :: "int \<Rightarrow> int" where
  "align4 x = (x + 3) AND (NOT 3)"

lemma align4_eq: "align4 x = 4 * ((x + 3) div 4)"
proof -
  have "Suc (Suc (n - 2)) = n" if "2 \<le> n" for n
    using that by arith
  then have "y AND NOT (mask 2) = push_bit 2 (drop_bit 2 y)" for y :: int
    by (intro bit_eqI) (auto simp: bit_simps not_less)
  then have "y AND NOT 3 = push_bit 2 (drop_bit 2 y)" for y :: int
    by (simp add: mask_eq_exp_minus_1)
  then show ?thesis by (simp add: align4_def push_bit_eq_mult drop_bit_eq_div)
qed

end
