(* ===== verification/Cstring.thy ===== *)
theory Cstring
  imports Prelude "HOL-Library.Sublist"
begin

text \<open>
  The string and memory primitives of \<^verbatim>\<open>lib/string\<close>, one definition per source function.
  Functions that only read take the bytes from the pointer to the end of its object; functions
  that write take the memory and offsets into it.  The outer \<open>None\<close> of every result is an
  access outside the object; a \<open>NULL\<close> result or argument is the inner \<open>None\<close>.
\<close>

section \<open>Definitions\<close>

subsection \<open>Memory blocks\<close>

fun memcmp :: "byte list \<Rightarrow> byte list \<Rightarrow> nat \<Rightarrow> int option" where
  "memcmp a b 0 = Some 0"
| "memcmp (x # a) (y # b) (Suc len) =
     (let d = uchar x - uchar y in if d \<noteq> 0 then Some d else memcmp a b len)"
| "memcmp _ _ (Suc len) = None"

fun memcpy :: "mem \<Rightarrow> nat \<Rightarrow> nat \<Rightarrow> nat \<Rightarrow> mem option" where
  "memcpy m d s 0 = Some m"
| "memcpy m d s (Suc n) = do { b \<leftarrow> rd m s; m \<leftarrow> wr m d b; memcpy m (d + 1) (s + 1) n }"

text \<open>The backward loop of \<open>memmove\<close>: \<open>d\<close> and \<open>s\<close> start at the last byte.\<close>

fun memmove_back :: "mem \<Rightarrow> nat \<Rightarrow> nat \<Rightarrow> nat \<Rightarrow> mem option" where
  "memmove_back m d s 0 = Some m"
| "memmove_back m d s (Suc n) =
     do { b \<leftarrow> rd m s; m \<leftarrow> wr m d b; memmove_back m (d - 1) (s - 1) n }"

definition memmove :: "mem \<Rightarrow> nat \<Rightarrow> nat \<Rightarrow> nat \<Rightarrow> mem option" where
  "memmove m dst src n =
     (if dst < src then memcpy m dst src n
      else if dst = src then Some m
      else memmove_back m (dst + n - 1) (src + n - 1) n)"

fun memset :: "mem \<Rightarrow> nat \<Rightarrow> byte \<Rightarrow> nat \<Rightarrow> mem option" where
  "memset m p c 0 = Some m"
| "memset m p c (Suc n) = do { m \<leftarrow> wr m p c; memset m (p + 1) c n }"

fun memzero :: "mem \<Rightarrow> nat \<Rightarrow> nat \<Rightarrow> mem option" where
  "memzero m p 0 = Some m"
| "memzero m p (Suc n) = do { m \<leftarrow> wr m p 0; memzero m (p + 1) n }"

fun memxcmp_loop :: "byte list \<Rightarrow> byte list \<Rightarrow> nat \<Rightarrow> int \<Rightarrow> int option" where
  "memxcmp_loop a b 0 ret = Some ret"
| "memxcmp_loop (x # a) (y # b) (Suc len) ret =
     memxcmp_loop a b len (ret OR (uchar x - uchar y))"
| "memxcmp_loop _ _ (Suc len) ret = None"

definition memxcmp :: "byte list \<Rightarrow> byte list \<Rightarrow> nat \<Rightarrow> int option" where
  "memxcmp a b len = memxcmp_loop a b len 0"

fun nonzero :: "byte list \<Rightarrow> nat \<Rightarrow> int option" where
  "nonzero p 0 = Some 0"
| "nonzero [] (Suc n) = None"
| "nonzero (c # p) (Suc n) = (if c \<noteq> 0 then Some 1 else nonzero p n)"

subsection \<open>Lengths\<close>

fun strlen :: "byte list \<Rightarrow> nat option" where
  "strlen [] = None"
| "strlen (c # p) = (if c \<noteq> 0 then map_option Suc (strlen p) else Some 0)"

fun strnlen_loop :: "byte list \<Rightarrow> nat \<Rightarrow> nat option" where
  "strnlen_loop p 0 = Some 0"
| "strnlen_loop [] (Suc n) = None"
| "strnlen_loop (c # p) (Suc n) = (if c \<noteq> 0 then map_option Suc (strnlen_loop p n) else Some 0)"

definition strnlen :: "byte list option \<Rightarrow> nat \<Rightarrow> nat option" where
  "strnlen str mx = (case str of None \<Rightarrow> Some 0 | Some p \<Rightarrow> strnlen_loop p mx)"

text \<open>\<open>strelen\<close> is given the two pointers as offsets, \<open>None\<close> for \<open>NULL\<close>.\<close>

definition strelen :: "nat option \<Rightarrow> nat option \<Rightarrow> nat" where
  "strelen p e = (case (p, e) of (Some p, Some e) \<Rightarrow> (if p \<ge> e then 0 else e - p) | _ \<Rightarrow> 0)"

text \<open>\<open>strpend\<close> looks at no more than 4096 bytes; it gives the distance to the terminator.\<close>

fun strpend_loop :: "byte list \<Rightarrow> nat \<Rightarrow> nat \<Rightarrow> nat option option" where
  "strpend_loop p i 0 = Some None"
| "strpend_loop [] i (Suc n) = None"
| "strpend_loop (c # p) i (Suc n) = (if c = 0 then Some (Some i) else strpend_loop p (i + 1) n)"

definition strpend :: "byte list option \<Rightarrow> nat option option" where
  "strpend str = (case str of None \<Rightarrow> Some None | Some p \<Rightarrow> strpend_loop p 0 4096)"

subsection \<open>Searching\<close>

fun strcbrk :: "byte list \<Rightarrow> byte \<Rightarrow> byte list option" where
  "strcbrk [] c = None"
| "strcbrk (x # p) c = (if x \<noteq> 0 \<and> x \<noteq> c then strcbrk p c else Some (x # p))"

fun strchr :: "byte list \<Rightarrow> int \<Rightarrow> byte list option option" where
  "strchr [] c = None"
| "strchr (x # p) c = (if x \<noteq> 0 then (if schar x = c then Some (Some (x # p)) else strchr p c)
                       else Some None)"

text \<open>\<open>strecbrk\<close> and \<open>strerev\<close> scan \<open>[p, e)\<close>; \<open>n\<close> is \<open>e - p\<close> and the result an offset from \<open>p\<close>.\<close>

fun strecbrk :: "byte list \<Rightarrow> nat \<Rightarrow> byte \<Rightarrow> nat option" where
  "strecbrk p 0 k = Some 0"
| "strecbrk [] (Suc n) k = None"
| "strecbrk (x # p) (Suc n) k = (if x = k then Some 0 else map_option Suc (strecbrk p n k))"

fun strerev :: "byte list \<Rightarrow> nat \<Rightarrow> byte \<Rightarrow> nat option" where
  "strerev p 0 c = Some 0"
| "strerev p (Suc z) c = (case rd p z of None \<Rightarrow> None
                          | Some x \<Rightarrow> if x \<noteq> c then strerev p z c else Some (Suc z))"

text \<open>The inner loop of \<open>strstr\<close> and \<open>strnstr\<close>: does the string at \<open>q\<close> occur at \<open>r\<close>?\<close>

fun str_at :: "byte list \<Rightarrow> byte list \<Rightarrow> bool option" where
  "str_at r [] = None"
| "str_at r (c # q) = (if c = 0 then Some True
     else (case r of [] \<Rightarrow> None | d # r' \<Rightarrow> if c = d then str_at r' q else Some False))"

fun strstr :: "byte list \<Rightarrow> byte list \<Rightarrow> byte list option option" where
  "strstr [] sub = None"
| "strstr (x # p) sub =
     (if x = 0 then Some None
      else (case str_at (x # p) sub of
              None \<Rightarrow> None
            | Some True \<Rightarrow> Some (Some (x # p))
            | Some False \<Rightarrow> strstr p sub))"

text \<open>The loop of \<open>strnstr\<close> runs while \<open>pos \<le> end\<close>; \<open>k\<close> counts the positions left.\<close>

fun strnstr_loop :: "byte list \<Rightarrow> byte list \<Rightarrow> nat \<Rightarrow> byte list option option" where
  "strnstr_loop p sub 0 = Some None"
| "strnstr_loop p sub (Suc k) =
     (case str_at p sub of
        None \<Rightarrow> None
      | Some True \<Rightarrow> Some (Some p)
      | Some False \<Rightarrow> strnstr_loop (drop 1 p) sub k)"

definition strnstr :: "byte list \<Rightarrow> byte list \<Rightarrow> nat \<Rightarrow> byte list option option" where
  "strnstr str sub len = do {
     sublen \<leftarrow> strlen sub;
     strnstr_loop str sub (nat (int len - int sublen + 1)) }"

subsection \<open>Comparison\<close>

fun strcmp_loop :: "byte list \<Rightarrow> byte list \<Rightarrow> int option" where
  "strcmp_loop (x # a) (y # b) =
     (if x \<noteq> 0 \<and> x = y then strcmp_loop a b else Some (uchar x - uchar y))"
| "strcmp_loop _ _ = None"

definition strcmp :: "byte list option \<Rightarrow> byte list option \<Rightarrow> int option" where
  "strcmp sa sb = (case (sa, sb) of
       (None, None) \<Rightarrow> Some 0
     | (None, Some b) \<Rightarrow> map_option (\<lambda>y. - uchar y) (rd b 0)
     | (Some a, None) \<Rightarrow> map_option uchar (rd a 0)
     | (Some a, Some b) \<Rightarrow> strcmp_loop a b)"

text \<open>\<open>while(*a \<and> --n > 0 \<and> *a = *b)\<close>: \<open>n\<close> is the counter before the decrement.\<close>

fun strncmp_loop :: "byte list \<Rightarrow> byte list \<Rightarrow> nat \<Rightarrow> int option" where
  "strncmp_loop (x # a) (y # b) n =
     (if x \<noteq> 0 \<and> n - 1 > 0 \<and> x = y then strncmp_loop a b (n - 1)
      else Some (schar x - schar y))"
| "strncmp_loop _ _ n = None"

definition strncmp :: "byte list \<Rightarrow> byte list \<Rightarrow> nat \<Rightarrow> int option" where
  "strncmp a b n = (if n = 0 then Some 0 else strncmp_loop a b n)"

text \<open>\<open>strcmpn\<close> compares a padded field \<open>char[n]\<close> with a terminated string.\<close>

fun strcmpn :: "byte list \<Rightarrow> byte list \<Rightarrow> nat \<Rightarrow> int option" where
  "strcmpn a [] n = None"
| "strcmpn a (bc # b) 0 = Some (- schar bc)"
| "strcmpn [] (bc # b) (Suc n) = None"
| "strcmpn (ac # a) (bc # b) (Suc n) =
     (let d = schar ac - schar bc in if d \<noteq> 0 \<or> ac = 0 then Some d else strcmpn a b n)"

definition isnumeric :: "byte \<Rightarrow> bool" where
  "isnumeric c \<longleftrightarrow> uchar c \<ge> 48 \<and> uchar c \<le> 57"

fun numrun :: "byte list \<Rightarrow> nat option" where
  "numrun [] = None"
| "numrun (c # q) = (if c \<noteq> 0 \<and> isnumeric c then map_option Suc (numrun q) else Some 0)"

fun natcmp_skip :: "byte list \<Rightarrow> byte list \<Rightarrow> (byte list \<times> byte list) option" where
  "natcmp_skip (x # pa) (y # pb) =
     (if x \<noteq> 0 \<and> y \<noteq> 0 \<and> x = y then natcmp_skip pa pb else Some (x # pa, y # pb))"
| "natcmp_skip _ _ = None"

definition natcmp :: "byte list \<Rightarrow> byte list \<Rightarrow> int option" where
  "natcmp a b = do {
     (pa, pb) \<leftarrow> natcmp_skip a b;
     na \<leftarrow> numrun pa;
     nb \<leftarrow> numrun pb;
     if na \<noteq> 0 \<and> nb \<noteq> 0 \<and> na \<noteq> nb then Some (int32 (int na - int nb))
     else do { x \<leftarrow> rd pa 0; y \<leftarrow> rd pb 0; Some (uchar x - uchar y) } }"

section \<open>Memory blocks\<close>

lemma take_drop_update_outside:
  "i < s \<or> s + n \<le> i \<Longrightarrow> take n (drop s (xs[i := v])) = take n (drop s xs)"
  by (rule nth_equalityI) auto

lemma memcpy_wrs:
  assumes "d \<le> s \<or> s + n \<le> d" and "d + n \<le> length m" and "s + n \<le> length m"
  shows "memcpy m d s n = wrs m d (take n (drop s m))"
  using assms
proof (induction n arbitrary: m d s)
  case 0
  then show ?case by simp
next
  case (Suc n)
  let ?m = "m[d := m ! s]"
  from Suc.prems have out: "take n (drop (s + 1) ?m) = take n (drop (s + 1) m)"
    by (intro take_drop_update_outside) auto
  from Suc.prems have "memcpy m d s (Suc n) = memcpy ?m (d + 1) (s + 1) n"
    by (simp add: rd_def wr_def)
  also have "\<dots> = wrs ?m (d + 1) (take n (drop (s + 1) m))"
    using Suc.IH[of "d + 1" "s + 1" ?m] Suc.prems out by auto
  also have "\<dots> = wrs m d (take (Suc n) (drop s m))"
    using Suc.prems
    by (auto simp: wrs_def Cons_nth_drop_Suc[of s m, symmetric])
  finally show ?case .
qed

lemma memmove_back_wrs:
  assumes "s < d" and "d + n \<le> length m"
  shows "memmove_back m (d + n - 1) (s + n - 1) n = wrs m d (take n (drop s m))"
  using assms
proof (induction n arbitrary: m)
  case 0
  then show ?case by simp
next
  case (Suc n)
  let ?m = "m[d + n := m ! (s + n)]"
  from Suc.prems have out: "take n (drop s ?m) = take n (drop s m)"
    by (intro take_drop_update_outside) auto
  from Suc.prems have "memmove_back m (d + Suc n - 1) (s + Suc n - 1) (Suc n)
      = memmove_back ?m (d + n - 1) (s + n - 1) n"
    by (simp add: rd_def wr_def)
  also have "\<dots> = wrs ?m d (take n (drop s m))"
    using Suc.IH[of ?m] Suc.prems out by simp
  also have "\<dots> = wrs m d (take (Suc n) (drop s m))"
    using Suc.prems
    by (auto simp: wrs_def take_Suc_conv_app_nth[of n "drop s m"] drop_update_swap
          Cons_nth_drop_Suc[of "d + n" m, symmetric])
  finally show ?case .
qed

lemma memmove_wrs:
  assumes "dst + n \<le> length m" and "src + n \<le> length m"
  shows "memmove m dst src n = wrs m dst (take n (drop src m))"
proof (cases "dst < src \<or> dst = src")
  case True
  then show ?thesis
    using assms memcpy_wrs[of dst src n m]
    by (auto simp: memmove_def wrs_def take_add[symmetric] min_def)
       (metis append.assoc append_take_drop_id take_add)
next
  case False
  then show ?thesis using assms memmove_back_wrs[of src dst n m] by (simp add: memmove_def)
qed

text \<open>
  \<open>memmove\<close> moves a block as if through a temporary buffer, whatever the overlap of source
  and destination: the \<open>n\<close> bytes at \<open>dst\<close> become the bytes that were at \<open>src\<close>, nothing else in
  the object changes, and no byte outside the two blocks is read or written.
\<close>

theorem memmove_correct:
  assumes "dst + n \<le> length m" and "src + n \<le> length m"
  shows "memmove m dst src n = wrs m dst (take n (drop src m))"
  using assms by (rule memmove_wrs)

theorem memmove_correct_witness:
  "memmove [1, 2, 3, 4, 5] 1 0 3 = Some [1, 1, 2, 3, 5 :: byte]"
  using memmove_correct[of 1 3 "[1, 2, 3, 4, 5]" 0] by (simp add: wrs_def)

lemma memset_wrs: "p + n \<le> length m \<Longrightarrow> memset m p c n = wrs m p (replicate n c)"
proof (induction n arbitrary: m p)
  case (Suc n)
  then show ?case
    by (auto simp: wr_def wrs_def)
qed simp

lemma memzero_memset: "memzero m p n = memset m p 0 n"
  by (induction n arbitrary: m p) (auto split: bind_splits)

lemma memcmp_zero_iff:
  "n \<le> length a \<Longrightarrow> n \<le> length b \<Longrightarrow>
   \<exists>d. memcmp a b n = Some d \<and> (d = 0 \<longleftrightarrow> take n a = take n b)"
  by (induction a b n rule: memcmp.induct) (auto simp: Let_def)

lemma memcmp_same: "n \<le> length a \<Longrightarrow> n \<le> length b \<Longrightarrow> take n a = take n b \<Longrightarrow> memcmp a b n = Some 0"
  using memcmp_zero_iff[of n a b] by auto

lemma memxcmp_loop_zero_iff:
  "n \<le> length a \<Longrightarrow> n \<le> length b \<Longrightarrow>
   \<exists>d. memxcmp_loop a b n r = Some d \<and> (d = 0 \<longleftrightarrow> r = 0 \<and> take n a = take n b)"
  by (induction a b n r rule: memxcmp_loop.induct) (auto simp: or_eq_0_iff)

lemma memxcmp_zero_iff:
  "n \<le> length a \<Longrightarrow> n \<le> length b \<Longrightarrow>
   \<exists>d. memxcmp a b n = Some d \<and> (d = 0 \<longleftrightarrow> take n a = take n b)"
  unfolding memxcmp_def using memxcmp_loop_zero_iff[of n a b 0] by simp

section \<open>Strings\<close>

lemma strlen_cstr: "strlen p = map_option length (cstr p)"
  by (induction p) (auto simp: option.map_comp comp_def)

lemma strnlen_loop_cstr: "cstr p = Some s \<Longrightarrow> strnlen_loop p n = Some (min n (length s))"
  by (induction p n arbitrary: s rule: strnlen_loop.induct) (auto split: if_splits)

lemma strnlen_loop_field:
  "n \<le> length p \<Longrightarrow> strnlen_loop p n = Some (length (takeWhile (\<lambda>c. c \<noteq> 0) (take n p)))"
  by (induction p n rule: strnlen_loop.induct) auto

lemma strpend_loop_cstr:
  "cstr p = Some s \<Longrightarrow> strpend_loop p i n = Some (if length s < n then Some (i + length s) else None)"
  by (induction p i n arbitrary: s rule: strpend_loop.induct) (auto split: if_splits)

lemma strpend_cstr:
  "cstr p = Some s \<Longrightarrow> strpend (Some p) = Some (if length s < 4096 then Some (length s) else None)"
  by (simp add: strpend_def strpend_loop_cstr)

lemma strcmp_loop_lex:
  assumes "cstr a = Some s" and "cstr b = Some t"
  shows "\<exists>d. strcmp_loop a b = Some d \<and> (d = 0 \<longleftrightarrow> s = t) \<and> (d < 0 \<longleftrightarrow> ord_class.lexordp s t)"
  using assms
proof (induction a b arbitrary: s t rule: strcmp_loop.induct)
  case (1 x a y b)
  show ?case
  proof (cases "x \<noteq> 0 \<and> x = y")
    case True
    with "1.prems" obtain s' t' where st: "s = x # s'" "t = x # t'"
      and "cstr a = Some s'" "cstr b = Some t'"
      by auto
    with True "1.IH" show ?thesis by auto
  next
    case False
    with "1.prems" show ?thesis
      by (auto simp: word_less_def uint_neq_less uint_lt_0 order_less_le split: if_splits)
  qed
qed auto

text \<open>
  \<open>strcmp\<close> on two terminated strings is total and decides the lexicographic order of their
  bytes taken as unsigned: the result is zero exactly for equal strings and negative exactly when
  the first string comes before the second.  It never reads past either terminator.
\<close>

theorem strcmp_order:
  assumes "cstr a = Some s" and "cstr b = Some t"
  shows "\<exists>d. strcmp (Some a) (Some b) = Some d \<and> (d = 0 \<longleftrightarrow> s = t) \<and> (d < 0 \<longleftrightarrow> ord_class.lexordp s t)"
  using strcmp_loop_lex[OF assms] by (simp add: strcmp_def)

theorem strcmp_order_witness:
  "\<exists>d. strcmp (Some [97, 98, 0, 7]) (Some [97, 200, 0]) = Some d \<and>
       (d = 0 \<longleftrightarrow> [97, 98] = [97, 200 :: byte]) \<and> (d < 0 \<longleftrightarrow> ord_class.lexordp [97, 98] [97, 200 :: byte])"
  by (rule strcmp_order) simp_all

definition field :: "nat \<Rightarrow> byte list \<Rightarrow> byte list" where
  "field n a = takeWhile (\<lambda>c. c \<noteq> 0) (take n a)"

lemma strcmpn_zero_iff:
  "n \<le> length a \<Longrightarrow> cstr b = Some t \<Longrightarrow>
   \<exists>d. strcmpn a b n = Some d \<and> (d = 0 \<longleftrightarrow> field n a = t)"
  by (induction a b n arbitrary: t rule: strcmpn.induct)
     (auto simp: field_def Let_def split: if_splits)

lemma str_at_prefix:
  "cstr r = Some s \<Longrightarrow> cstr q = Some t \<Longrightarrow> str_at r q = Some (prefix t s)"
  by (induction r q arbitrary: s t rule: str_at.induct) (auto split: if_splits list.splits)

lemma find_upt_Suc: "find P [0..<Suc n] = (if P 0 then Some 0 else map_option Suc (find (\<lambda>i. P (Suc i)) [0..<n]))"
proof -
  have "[0..<Suc n] = 0 # map Suc [0..<n]" by (simp add: upt_conv_Cons map_Suc_upt del: upt_Suc)
  moreover have "find P (map Suc xs) = map_option Suc (find (\<lambda>i. P (Suc i)) xs)" for xs
    by (induction xs) auto
  ultimately show ?thesis by simp
qed

text \<open>
  \<open>strstr\<close> returns the first position of the string (before its terminator) at which the
  pattern occurs, and \<open>NULL\<close> exactly when there is none.
\<close>

theorem strstr_first:
  assumes "cstr p = Some s" and "cstr sub = Some t"
  shows "strstr p sub = Some (map_option (\<lambda>i. drop i p) (find (\<lambda>i. prefix t (drop i s)) [0..<length s]))"
  using assms(1)
proof (induction p arbitrary: s)
  case (Cons x p)
  show ?case
  proof (cases "x = 0")
    case False
    with Cons.prems obtain s' where s: "s = x # s'" and s': "cstr p = Some s'" by auto
    with False assms(2) have "str_at (x # p) sub = Some (prefix t s)"
      by (intro str_at_prefix) simp_all
    with Cons.IH[OF s'] False show ?thesis
      by (auto simp: s find_upt_Suc option.map_comp comp_def simp del: upt_Suc split: bool.splits)
  qed (use Cons.prems in auto)
qed simp

theorem strstr_first_witness:
  "strstr [97, 98, 99, 98, 99, 0] [98, 99, 0] = Some (Some [98, 99, 98, 99, 0 :: byte])"
  using strstr_first[of "[97, 98, 99, 98, 99, 0]" "[97, 98, 99, 98, 99]" "[98, 99, 0]" "[98, 99]"]
  by (simp add: upt_rec)

text \<open>
  \<open>natcmp\<close> is not transitive: \<open>2 < 10\<close>, \<open>10 < 1a\<close> and \<open>1a < 2\<close> all hold at once, so it is not
  an ordering that a sort may rely on.
\<close>

theorem natcmp_cyclic:
  "natcmp (bstr ''2'' @ [0]) (bstr ''10'' @ [0]) = Some (-1) \<and>
   natcmp (bstr ''10'' @ [0]) (bstr ''1a'' @ [0]) = Some (-49) \<and>
   natcmp (bstr ''1a'' @ [0]) (bstr ''2'' @ [0]) = Some (-1)"
  by (simp add: natcmp_def bstr_def ch_def isnumeric_def int32_def rd_def)

end
