(* ===== verification/Qsort.thy ===== *)
theory Qsort
  imports Cstring "HOL-Library.Multiset"
begin

text \<open>
  The in-place pointer sort of \<^verbatim>\<open>lib/util/qsort.c\<close>.  The array of pointers is a list and a
  \<open>void**\<close> is an index into it.  The pointer \<open>lp\<close> may end one element before \<open>S\<close>; it is then only
  compared with \<open>S\<close>, so that for \<open>S = 0\<close> the truncated difference gives the same answers.
  The comparison function is a parameter; what it must satisfy is the locale \<open>qcmp\<close>.
\<close>

section \<open>Definitions\<close>

definition exch :: "'a list \<Rightarrow> nat \<Rightarrow> nat \<Rightarrow> 'a list" where
  "exch xs a b = xs[a := xs ! b, b := xs ! a]"

definition pick_pivot :: "nat \<Rightarrow> nat \<Rightarrow> nat" where
  "pick_pivot S E = S + (E - S) div 2"

text \<open>The two scanning loops inside \<open>while(1)\<close>.\<close>

function part_l :: "('a \<Rightarrow> 'a \<Rightarrow> int) \<Rightarrow> 'a list \<Rightarrow> nat \<Rightarrow> nat \<Rightarrow> nat \<Rightarrow> nat \<Rightarrow> 'a list \<times> nat \<times> nat" where
  "part_l cmp xs pv le lp rp =
     (if lp < rp \<and> cmp (xs ! lp) (xs ! pv) \<le> 0
      then (if cmp (xs ! lp) (xs ! pv) = 0
            then part_l cmp (exch xs le lp) pv (le + 1) (lp + 1) rp
            else part_l cmp xs pv le (lp + 1) rp)
      else (xs, le, lp))"
  by pat_completeness auto
termination
  by (relation "measure (\<lambda>(cmp, xs, pv, le, lp, rp). rp - lp)") auto

function part_r :: "('a \<Rightarrow> 'a \<Rightarrow> int) \<Rightarrow> 'a list \<Rightarrow> nat \<Rightarrow> nat \<Rightarrow> nat \<Rightarrow> nat \<Rightarrow> 'a list \<times> nat \<times> nat" where
  "part_r cmp xs pv lp rp re =
     (if rp > lp \<and> cmp (xs ! rp) (xs ! pv) \<ge> 0
      then (if cmp (xs ! rp) (xs ! pv) = 0
            then part_r cmp (exch xs re rp) pv lp (rp - 1) (re - 1)
            else part_r cmp xs pv lp (rp - 1) re)
      else (xs, rp, re))"
  by pat_completeness auto
termination
  by (relation "measure (\<lambda>(cmp, xs, pv, lp, rp, re). rp - lp)") auto

declare part_l.simps [simp del] part_r.simps [simp del]

lemma part_l_range: "part_l cmp xs pv le lp rp = (xs', le', lp') \<Longrightarrow> lp \<le> lp' \<and> (lp \<le> rp \<longrightarrow> lp' \<le> rp)"
  by (induction cmp xs pv le lp rp rule: part_l.induct)
     (subst (asm) (3) part_l.simps, auto split: if_splits)

lemma part_r_range: "part_r cmp xs pv lp rp re = (xs', rp', re') \<Longrightarrow> rp' \<le> rp \<and> (lp \<le> rp \<longrightarrow> lp \<le> rp')"
  by (induction cmp xs pv lp rp re rule: part_r.induct)
     (subst (asm) (3) part_r.simps, auto split: if_splits)

text \<open>
  The \<open>while(1)\<close> loop.  The scans keep \<open>lp \<le> rp\<close>, so its exit test \<open>lp == rp\<close> is written as
  \<open>\<not> lp < rp\<close>, which also bounds the recursion for arguments the code never has.
\<close>

function part_loop :: "('a \<Rightarrow> 'a \<Rightarrow> int) \<Rightarrow> 'a list \<Rightarrow> nat \<Rightarrow> nat \<Rightarrow> nat \<Rightarrow> nat \<Rightarrow> nat \<Rightarrow>
    'a list \<times> nat \<times> nat \<times> nat \<times> nat" where
  "part_loop cmp xs pv le lp rp re =
     (case part_l cmp xs pv le lp rp of (xs1, le1, lp1) \<Rightarrow>
      case part_r cmp xs1 pv lp1 rp re of (xs2, rp1, re1) \<Rightarrow>
        if \<not> lp1 < rp1 then (xs2, le1, lp1, rp1, re1)
        else part_loop cmp (exch xs2 lp1 rp1) pv le1 (lp1 + 1)
               (if rp1 > lp1 + 1 then rp1 - 1 else rp1) re1)"
  by pat_completeness auto
termination
  by (relation "measure (\<lambda>(cmp, xs, pv, le, lp, rp, re). rp - lp)")
     (auto dest!: part_l_range[OF sym] part_r_range[OF sym])

declare part_loop.simps [simp del]

text \<open>The two loops that move the pivot-equal elements to the middle.\<close>

function swap_l :: "'a list \<Rightarrow> nat \<Rightarrow> nat \<Rightarrow> nat \<Rightarrow> 'a list \<times> nat" where
  "swap_l xs pv le lp = (if pv < le then swap_l (exch xs pv lp) (pv + 1) le (lp - 1) else (xs, lp))"
  by pat_completeness auto
termination by (relation "measure (\<lambda>(xs, pv, le, lp). le - pv)") auto

function swap_r :: "'a list \<Rightarrow> nat \<Rightarrow> nat \<Rightarrow> nat \<Rightarrow> 'a list \<times> nat" where
  "swap_r xs pv re rp = (if pv > re then swap_r (exch xs pv rp) (pv - 1) re (rp + 1) else (xs, rp))"
  by pat_completeness auto
termination by (relation "measure (\<lambda>(xs, pv, re, rp). pv - re)") auto

declare swap_l.simps [simp del] swap_r.simps [simp del]

text \<open>The body of \<open>sort\<close> up to the two recursive calls.\<close>

definition sort_part :: "('a \<Rightarrow> 'a \<Rightarrow> int) \<Rightarrow> 'a list \<Rightarrow> nat \<Rightarrow> nat \<Rightarrow> 'a list \<times> nat \<times> nat" where
  "sort_part cmp xs S E =
     (let rr = E - 1; pv = rr;
          xs = exch xs rr (pick_pivot S E);
          (xs, le, lp, rp, re) = part_loop cmp xs pv S S (rr - 1) (rr - 1);
          (gt, lt) = (cmp (xs ! lp) (xs ! pv) > 0, cmp (xs ! rp) (xs ! pv) < 0);
          lp = (if gt then lp - 1 else lp);
          rp = (if lt then rp + 1 else rp);
          (xs, lp) = swap_l xs S le lp;
          (xs, rp) = swap_r xs rr re rp
      in (xs, lp, rp))"

definition sort2 :: "('a \<Rightarrow> 'a \<Rightarrow> int) \<Rightarrow> 'a list \<Rightarrow> nat \<Rightarrow> 'a list" where
  "sort2 cmp xs S = (if cmp (xs ! S) (xs ! (S + 1)) > 0 then exch xs S (S + 1) else xs)"

definition sort3 :: "('a \<Rightarrow> 'a \<Rightarrow> int) \<Rightarrow> 'a list \<Rightarrow> nat \<Rightarrow> 'a list" where
  "sort3 cmp xs S =
     (let xs = (if cmp (xs ! S) (xs ! (S + 1)) > 0 then exch xs S (S + 1) else xs);
          xs = (if cmp (xs ! (S + 1)) (xs ! (S + 2)) > 0 then exch xs (S + 1) (S + 2) else xs)
      in if cmp (xs ! S) (xs ! (S + 1)) > 0 then exch xs S (S + 1) else xs)"

lemma part_l_le: "part_l cmp xs pv le lp rp = (xs', le', lp') \<Longrightarrow> le \<le> lp \<Longrightarrow> le \<le> le' \<and> le' \<le> lp'"
  by (induction cmp xs pv le lp rp rule: part_l.induct)
     (subst (asm) (3) part_l.simps, auto split: if_splits)

lemma part_r_re: "part_r cmp xs pv lp rp re = (xs', rp', re') \<Longrightarrow> rp \<le> re \<Longrightarrow> re' \<le> re \<and> rp' \<le> re'"
  by (induction cmp xs pv lp rp re rule: part_r.induct)
     (subst (asm) (3) part_r.simps, auto simp: diff_le_mono split: if_splits)

lemma part_loop_range:
  assumes "part_loop cmp xs pv le lp rp re = (xs', le', lp', rp', re')"
    and "le \<le> lp" and "lp \<le> rp" and "rp \<le> re"
  shows "le \<le> le' \<and> le' \<le> lp' \<and> lp' = rp' \<and> rp' \<le> re' \<and> re' \<le> re \<and> lp \<le> lp' \<and> rp' \<le> rp"
  using assms
proof (induction cmp xs pv le lp rp re rule: part_loop.induct)
  case (1 cmp xs pv le lp rp re)
  obtain xs1 le1 lp1 where l: "part_l cmp xs pv le lp rp = (xs1, le1, lp1)"
    by (cases "part_l cmp xs pv le lp rp") auto
  obtain xs2 rp1 re1 where r: "part_r cmp xs1 pv lp1 rp re = (xs2, rp1, re1)"
    by (cases "part_r cmp xs1 pv lp1 rp re") auto
  have rng: "le \<le> le1" "le1 \<le> lp1" "lp \<le> lp1" "lp1 \<le> rp1" "rp1 \<le> re1" "re1 \<le> re" "rp1 \<le> rp"
    using part_l_range[OF l] part_l_le[OF l] part_r_range[OF r] part_r_re[OF r] "1.prems"
    by auto
  show ?case
  proof (cases "lp1 < rp1")
    case True
    then have "part_loop cmp (exch xs2 lp1 rp1) pv le1 (lp1 + 1)
        (if rp1 > lp1 + 1 then rp1 - 1 else rp1) re1 = (xs', le', lp', rp', re')"
      using "1.prems"(1) by (simp add: part_loop.simps[of cmp xs] l r)
    moreover have "\<not> \<not> lp1 < rp1" using True by simp
    moreover have "le1 \<le> lp1 + 1" "lp1 + 1 \<le> (if rp1 > lp1 + 1 then rp1 - 1 else rp1)"
      "(if rp1 > lp1 + 1 then rp1 - 1 else rp1) \<le> re1"
      using True rng by auto
    ultimately have "le1 \<le> le' \<and> le' \<le> lp' \<and> lp' = rp' \<and> rp' \<le> re' \<and> re' \<le> re1 \<and>
        lp1 + 1 \<le> lp' \<and> rp' \<le> (if rp1 > lp1 + 1 then rp1 - 1 else rp1)"
      using "1.IH"[OF l[symmetric] refl r[symmetric] refl] by blast
    then show ?thesis using rng by (auto split: if_splits)
  next
    case False
    with "1.prems"(1) rng show ?thesis by (simp add: part_loop.simps[of cmp xs] l r)
  qed
qed

lemma swap_l_lp: "swap_l xs pv le lp = (xs', lp') \<Longrightarrow> lp' = lp - (le - pv)"
  by (induction xs pv le lp rule: swap_l.induct)
     (subst (asm) (2) swap_l.simps, auto split: if_splits)

lemma swap_r_rp: "swap_r xs pv re rp = (xs', rp') \<Longrightarrow> rp' = rp + (pv - re)"
  by (induction xs pv re rp rule: swap_r.induct)
     (subst (asm) (2) swap_r.simps, auto split: if_splits)

lemma sort_part_range:
  assumes "sort_part cmp xs S E = (xs', lp, rp)" and "S + 3 < E"
  shows "lp + 1 < E \<and> S < rp"
proof -
  obtain ys le l r re where
    loop: "part_loop cmp (exch xs (E - 1) (pick_pivot S E)) (E - 1) S S (E - 1 - 1) (E - 1 - 1)
             = (ys, le, l, r, re)"
    by (cases "part_loop cmp (exch xs (E - 1) (pick_pivot S E)) (E - 1) S S (E - 1 - 1) (E - 1 - 1)") auto
  have "S \<le> E - 1 - 1" using assms(2) by simp
  from part_loop_range[OF loop order.refl this order.refl] assms(2)
  have rng: "S \<le> le" "le \<le> l" "l = r" "r \<le> re" "re < E - 1" "S \<le> l"
    by auto
  from assms(1) loop show ?thesis
    using rng assms(2)
    by (auto simp: sort_part_def Let_def split: prod.splits if_splits
          dest!: swap_l_lp swap_r_rp)
qed

text \<open>\<open>srec\<close>, with the recursive calls \<open>sort\<close> makes at its end.\<close>

function srec :: "('a \<Rightarrow> 'a \<Rightarrow> int) \<Rightarrow> 'a list \<Rightarrow> nat \<Rightarrow> nat \<Rightarrow> 'a list" where
  "srec cmp xs S E =
     (if E - S \<le> 1 then xs
      else if E - S = 2 then sort2 cmp xs S
      else if E - S = 3 then sort3 cmp xs S
      else (case sort_part cmp xs S E of (ys, lp, rp) \<Rightarrow>
             let zs = (if lp > S then srec cmp ys S (lp + 1) else ys)
             in if rp < E - 1 then srec cmp zs rp E else zs))"
  by pat_completeness auto
termination
  by (relation "measure (\<lambda>(cmp, xs, S, E). E - S)")
     (auto dest: sort_part_range[OF sym, simplified])

declare srec.simps [simp del]

definition qsortx :: "('a \<Rightarrow> 'a \<Rightarrow> 'o \<Rightarrow> int) \<Rightarrow> 'a list \<Rightarrow> 'o \<Rightarrow> 'a list" where
  "qsortx cmp ptrs opts = srec (\<lambda>a b. cmp a b opts) ptrs 0 (length ptrs)"

definition cmp2to3 :: "'a \<Rightarrow> 'a \<Rightarrow> ('a \<Rightarrow> 'a \<Rightarrow> int) \<Rightarrow> int" where
  "cmp2to3 a b cmp = cmp a b"

definition qsortp :: "'a list \<Rightarrow> ('a \<Rightarrow> 'a \<Rightarrow> int) \<Rightarrow> 'a list" where
  "qsortp base cmp = qsortx cmp2to3 base cmp"

section \<open>Rearrangements of a range\<close>

definition rearr :: "'a list \<Rightarrow> 'a list \<Rightarrow> nat \<Rightarrow> nat \<Rightarrow> bool" where
  "rearr xs ys S E \<longleftrightarrow> mset ys = mset xs \<and> take S ys = take S xs \<and> drop E ys = drop E xs"

definition all_in :: "('a \<Rightarrow> bool) \<Rightarrow> 'a list \<Rightarrow> nat \<Rightarrow> nat \<Rightarrow> bool" where
  "all_in P xs a b \<longleftrightarrow> (\<forall>k. a \<le> k \<longrightarrow> k < b \<longrightarrow> P (xs ! k))"

lemma rearr_refl [simp]: "rearr xs xs S E"
  by (simp add: rearr_def)

lemma rearr_trans: "rearr xs ys S E \<Longrightarrow> rearr ys zs S E \<Longrightarrow> rearr xs zs S E"
  by (simp add: rearr_def)

lemma rearr_length: "rearr xs ys S E \<Longrightarrow> length ys = length xs"
  unfolding rearr_def by (metis size_mset)

lemma rearr_set: "rearr xs ys S E \<Longrightarrow> set ys = set xs"
  unfolding rearr_def by (metis set_mset_mset)

lemma rearr_exch:
  "S \<le> a \<Longrightarrow> a < E \<Longrightarrow> S \<le> b \<Longrightarrow> b < E \<Longrightarrow> E \<le> length xs \<Longrightarrow> rearr xs (exch xs a b) S E"
  by (auto simp: rearr_def exch_def mset_swap)

lemma rearr_widen:
  assumes "rearr xs ys a b" and "S \<le> a" and "b \<le> E"
  shows "rearr xs ys S E"
proof -
  have "take S (take a ys) = take S (take a xs)" "drop (E - b) (drop b ys) = drop (E - b) (drop b xs)"
    using assms(1) by (simp_all add: rearr_def)
  then show ?thesis using assms by (simp add: rearr_def min_absorb1)
qed

lemma rearr_outside:
  assumes "rearr xs ys S E" and "k < S \<or> E \<le> k" and "k < length xs"
  shows "ys ! k = xs ! k"
proof -
  have len: "length ys = length xs" using assms(1) by (rule rearr_length)
  show ?thesis
  proof (cases "k < S")
    case True
    then have "ys ! k = take S ys ! k" "xs ! k = take S xs ! k" by simp_all
    then show ?thesis using assms(1) by (simp add: rearr_def)
  next
    case False
    then have "ys ! k = drop E ys ! (k - E)" "xs ! k = drop E xs ! (k - E)"
      using assms(2,3) len by simp_all
    then show ?thesis using assms(1) by (simp add: rearr_def)
  qed
qed

lemma slice_map_nth: "E \<le> length zs \<Longrightarrow> take (E - S) (drop S zs) = map ((!) zs) [S..<E]"
  by (rule nth_equalityI) auto

lemma rearr_all_in:
  assumes r: "rearr xs ys S E" and "E \<le> length xs" and P: "all_in P xs S E"
  shows "all_in P ys S E"
proof (cases "S \<le> E")
  case True
  have split: "zs = take S zs @ take (E - S) (drop S zs) @ drop E zs" for zs :: "'a list"
    using True by (metis append.assoc append_take_drop_id le_add_diff_inverse take_add)
  have "mset (take (E - S) (drop S ys)) = mset (take (E - S) (drop S xs))"
    using r split[of ys] split[of xs] unfolding rearr_def
    by (metis add_left_cancel add_right_cancel mset_append)
  then have "set (take (E - S) (drop S ys)) = set (take (E - S) (drop S xs))"
    by (metis set_mset_mset)
  moreover have "all_in P zs S E \<longleftrightarrow> (\<forall>x\<in>set (take (E - S) (drop S zs)). P x)"
    if "E \<le> length zs" for zs
    using that True by (auto simp: all_in_def slice_map_nth)
  ultimately show ?thesis using P assms(2) rearr_length[OF r] by simp
qed (simp add: all_in_def)

lemma all_inD: "all_in P xs a b \<Longrightarrow> a \<le> k \<Longrightarrow> k < b \<Longrightarrow> P (xs ! k)"
  by (simp add: all_in_def)

lemma all_in_empty [simp]: "b \<le> a \<Longrightarrow> all_in P xs a b"
  by (simp add: all_in_def)

lemma all_in_mono: "all_in P xs a b \<Longrightarrow> a \<le> a' \<Longrightarrow> b' \<le> b \<Longrightarrow> (\<And>x. P x \<Longrightarrow> Q x) \<Longrightarrow> all_in Q xs a' b'"
  by (auto simp: all_in_def)

lemma all_in_join: "all_in P xs a b \<Longrightarrow> all_in P xs b c \<Longrightarrow> all_in P xs a c"
  by (auto simp: all_in_def not_less[symmetric])

lemma exch_nth:
  "a < length xs \<Longrightarrow> b < length xs \<Longrightarrow> k < length xs \<Longrightarrow>
   exch xs a b ! k = (if k = b then xs ! a else if k = a then xs ! b else xs ! k)"
  by (simp add: exch_def nth_list_update)

lemma length_exch [simp]: "length (exch xs a b) = length xs"
  by (simp add: exch_def)

section \<open>Partitioning\<close>

text \<open>
  The picture in the comments of \<open>sort\<close>: equal, less, unknown, greater, equal, pivot.
\<close>

definition part_inv :: "('a \<Rightarrow> 'a \<Rightarrow> int) \<Rightarrow> 'a list \<Rightarrow> nat \<Rightarrow> nat \<Rightarrow> nat \<Rightarrow> nat \<Rightarrow> nat \<Rightarrow> nat \<Rightarrow> bool" where
  "part_inv cmp xs pv S le lp rp re \<longleftrightarrow>
     S \<le> le \<and> le \<le> lp \<and> lp \<le> rp \<and> rp \<le> re \<and> re < pv \<and> pv < length xs \<and>
     all_in (\<lambda>x. cmp x (xs ! pv) = 0) xs S le \<and> all_in (\<lambda>x. cmp x (xs ! pv) < 0) xs le lp \<and>
     all_in (\<lambda>x. cmp x (xs ! pv) > 0) xs (rp + 1) (re + 1) \<and>
     all_in (\<lambda>x. cmp x (xs ! pv) = 0) xs (re + 1) pv"

lemma part_inv_rangeD:
  "part_inv cmp xs pv S le lp rp re \<Longrightarrow>
     S \<le> le \<and> le \<le> lp \<and> lp \<le> rp \<and> rp \<le> re \<and> re < pv \<and> pv < length xs"
  by (simp add: part_inv_def)

lemma part_inv_l_eq:
  assumes "part_inv cmp xs pv S le lp rp re" and "lp < rp" and "cmp (xs ! lp) (xs ! pv) = 0"
  shows "part_inv cmp (exch xs le lp) pv S (le + 1) (lp + 1) rp re"
  using assms by (auto simp: part_inv_def all_in_def exch_nth less_Suc_eq)

lemma part_inv_l_less:
  assumes "part_inv cmp xs pv S le lp rp re" and "lp < rp" and "cmp (xs ! lp) (xs ! pv) < 0"
  shows "part_inv cmp xs pv S le (lp + 1) rp re"
  using assms by (auto simp: part_inv_def all_in_def less_Suc_eq)

lemma part_inv_r_eq:
  assumes "part_inv cmp xs pv S le lp rp re" and "lp < rp" and "cmp (xs ! rp) (xs ! pv) = 0"
  shows "part_inv cmp (exch xs re rp) pv S le lp (rp - 1) (re - 1)"
proof -
  from assms(2) obtain rp' where rp': "rp = Suc rp'" by (cases rp) auto
  with assms(1) obtain re' where "re = Suc re'" by (cases re) (auto simp: part_inv_def)
  then show ?thesis using assms rp'
    by (auto simp: part_inv_def all_in_def exch_nth Suc_le_eq)
qed

lemma part_inv_r_greater:
  assumes "part_inv cmp xs pv S le lp rp re" and "lp < rp" and "cmp (xs ! rp) (xs ! pv) > 0"
  shows "part_inv cmp xs pv S le lp (rp - 1) re"
proof -
  from assms(2) obtain rp' where "rp = Suc rp'" by (cases rp) auto
  then show ?thesis using assms
    by (auto simp: part_inv_def all_in_def) (metis Suc_leI le_neq_implies_less)
qed

lemma part_inv_swap:
  assumes "part_inv cmp xs pv S le lp rp re" and "lp < rp"
    and "cmp (xs ! lp) (xs ! pv) > 0" and "cmp (xs ! rp) (xs ! pv) < 0"
  shows "part_inv cmp (exch xs lp rp) pv S le (lp + 1) (if rp > lp + 1 then rp - 1 else rp) re"
  using assms
  by (auto simp: part_inv_def all_in_def exch_nth less_Suc_eq)
     (metis Suc_leI le_neq_implies_less)

lemma part_l_inv:
  assumes "part_l cmp xs pv le lp rp = (xs', le', lp')" and "part_inv cmp xs pv S le lp rp re"
  shows "part_inv cmp xs' pv S le' lp' rp re \<and> rearr xs xs' S pv \<and>
         (lp' < rp \<longrightarrow> cmp (xs' ! lp') (xs' ! pv) > 0)"
  using assms
proof (induction cmp xs pv le lp rp rule: part_l.induct)
  case (1 cmp xs pv le lp rp)
  note rng = part_inv_rangeD[OF "1.prems"(2)]
  consider (eq) "lp < rp" "cmp (xs ! lp) (xs ! pv) = 0" | (less) "lp < rp" "cmp (xs ! lp) (xs ! pv) < 0"
    | (stop) "\<not> (lp < rp \<and> cmp (xs ! lp) (xs ! pv) \<le> 0)" by linarith
  then show ?case
  proof cases
    case eq
    then have "part_l cmp (exch xs le lp) pv (le + 1) (lp + 1) rp = (xs', le', lp')"
      using "1.prems"(1) by (simp add: part_l.simps[of cmp xs])
    moreover have "rearr xs (exch xs le lp) S pv" using rng eq by (intro rearr_exch) auto
    ultimately show ?thesis
      using "1.IH"(1) eq part_inv_l_eq[OF "1.prems"(2) eq] by (auto intro: rearr_trans)
  next
    case less
    then have "part_l cmp xs pv le (lp + 1) rp = (xs', le', lp')"
      using "1.prems"(1) by (simp add: part_l.simps[of cmp xs pv le lp])
    then show ?thesis using "1.IH"(2) less part_inv_l_less[OF "1.prems"(2) less] by auto
  next
    case stop
    then have "xs' = xs" "le' = le" "lp' = lp"
      using "1.prems"(1) by (auto simp: part_l.simps[of cmp xs] split: if_splits)
    then show ?thesis using stop "1.prems"(2) by auto
  qed
qed

lemma part_r_inv:
  assumes "part_r cmp xs pv lp rp re = (xs', rp', re')" and "part_inv cmp xs pv S le lp rp re"
  shows "part_inv cmp xs' pv S le lp rp' re' \<and> rearr xs xs' (lp + 1) pv \<and>
         (lp < rp' \<longrightarrow> cmp (xs' ! rp') (xs' ! pv) < 0)"
  using assms
proof (induction cmp xs pv lp rp re rule: part_r.induct)
  case (1 cmp xs pv lp rp re)
  note rng = part_inv_rangeD[OF "1.prems"(2)]
  consider (eq) "lp < rp" "cmp (xs ! rp) (xs ! pv) = 0" | (greater) "lp < rp" "cmp (xs ! rp) (xs ! pv) > 0"
    | (stop) "\<not> (lp < rp \<and> cmp (xs ! rp) (xs ! pv) \<ge> 0)" by linarith
  then show ?case
  proof cases
    case eq
    then have "part_r cmp (exch xs re rp) pv lp (rp - 1) (re - 1) = (xs', rp', re')"
      using "1.prems"(1) by (simp add: part_r.simps[of cmp xs])
    moreover have "rearr xs (exch xs re rp) (lp + 1) pv" using rng eq by (intro rearr_exch) auto
    ultimately show ?thesis
      using "1.IH"(1) eq part_inv_r_eq[OF "1.prems"(2) eq] by (auto intro: rearr_trans)
  next
    case greater
    then have "part_r cmp xs pv lp (rp - 1) re = (xs', rp', re')"
      using "1.prems"(1) by (simp add: part_r.simps[of cmp xs pv lp rp])
    then show ?thesis using "1.IH"(2) greater part_inv_r_greater[OF "1.prems"(2) greater] by auto
  next
    case stop
    then have "xs' = xs" "rp' = rp" "re' = re"
      using "1.prems"(1) by (auto simp: part_r.simps[of cmp xs] split: if_splits)
    then show ?thesis using stop "1.prems"(2) by auto
  qed
qed

lemma part_loop_inv:
  assumes "part_loop cmp xs pv le lp rp re = (xs', le', lp', rp', re')"
    and "part_inv cmp xs pv S le lp rp re"
  shows "part_inv cmp xs' pv S le' lp' rp' re' \<and> rearr xs xs' S pv"
  using assms
proof (induction cmp xs pv le lp rp re rule: part_loop.induct)
  case (1 cmp xs pv le lp rp re)
  obtain xs1 le1 lp1 where l: "part_l cmp xs pv le lp rp = (xs1, le1, lp1)"
    by (cases "part_l cmp xs pv le lp rp") auto
  obtain xs2 rp1 re1 where r: "part_r cmp xs1 pv lp1 rp re = (xs2, rp1, re1)"
    by (cases "part_r cmp xs1 pv lp1 rp re") auto
  note L = part_l_inv[OF l "1.prems"(2)]
  note R = part_r_inv[OF r, of S le1] 
  from L have L1: "part_inv cmp xs1 pv S le1 lp1 rp re" by simp
  with R have R1: "part_inv cmp xs2 pv S le1 lp1 rp1 re1" and R2: "rearr xs1 xs2 (lp1 + 1) pv"
    by simp_all
  have rng: "lp1 \<le> rp1" "rp1 \<le> rp" "S \<le> lp1" "lp1 \<le> rp" "rp < pv" "pv < length xs1"
    using part_r_range[OF r] part_inv_rangeD[OF L1] by auto
  have xs12: "rearr xs xs2 S pv"
    using L rearr_widen[OF R2, of S pv] rng by (auto intro: rearr_trans[of xs xs1])
  show ?case
  proof (cases "lp1 < rp1")
    case True
    then have "xs2 ! lp1 = xs1 ! lp1" "xs2 ! pv = xs1 ! pv"
      using rearr_outside[OF R2] rng by auto
    then have "cmp (xs2 ! lp1) (xs2 ! pv) > 0" "cmp (xs2 ! rp1) (xs2 ! pv) < 0"
      using L R L1 True rng by auto
    note step = part_inv_swap[OF R1 True this]
    have "rearr xs2 (exch xs2 lp1 rp1) S pv"
      using rng True part_inv_rangeD[OF R1] by (intro rearr_exch) auto
    with xs12 have "rearr xs (exch xs2 lp1 rp1) S pv" by (rule rearr_trans)
    moreover have "part_loop cmp (exch xs2 lp1 rp1) pv le1 (lp1 + 1)
        (if rp1 > lp1 + 1 then rp1 - 1 else rp1) re1 = (xs', le', lp', rp', re')"
      using "1.prems"(1) True by (simp add: part_loop.simps[of cmp xs] l r)
    moreover have "\<not> \<not> lp1 < rp1" using True by simp
    ultimately show ?thesis
      using "1.IH"[OF l[symmetric] refl r[symmetric] refl] step by (blast intro: rearr_trans)
  next
    case False
    with "1.prems"(1) R1 xs12 show ?thesis by (simp add: part_loop.simps[of cmp xs] l r)
  qed
qed

section \<open>Moving the equal elements to the middle\<close>

lemma swap_l_all_in:
  assumes "swap_l xs pv le lp = (ys, lp')"
    and "S \<le> pv" and "pv \<le> le" and "le \<le> lq" and "lq \<le> length xs"
    and "pv < le \<Longrightarrow> lp + pv + 1 = lq + S"
    and "all_in Q xs pv le" and "all_in Q xs (lq + S - pv) lq" and "all_in Q xs (lq + S - le) le"
  shows "rearr xs ys S lq \<and> all_in Q ys (lq + S - le) lq"
  using assms
proof (induction xs pv le lp rule: swap_l.induct)
  case (1 xs pv le lp)
  show ?case
  proof (cases "pv < le")
    case True
    from "1.prems"(6)[OF True] have lp: "lp + pv + 1 = lq + S" .
    have rng: "lp < length xs" "pv < length xs" "S \<le> lp" "lp < lq" "lq + S - le \<le> lp"
      using lp True "1.prems"(2-5) by auto
    have Qlp: "Q (xs ! lp)" if "lq + S - le \<le> pv"
      using that lp True by (intro all_inD[OF "1.prems"(9)]) auto
    have Qpv: "Q (xs ! pv)" using True by (intro all_inD[OF "1.prems"(7)]) auto
    have "swap_l (exch xs pv lp) (pv + 1) le (lp - 1) = (ys, lp')"
      using "1.prems"(1) True by (simp add: swap_l.simps[of xs pv])
    moreover have "lp - 1 + (pv + 1) + 1 = lq + S" if "pv + 1 < le"
      using that lp "1.prems"(4) by arith
    moreover have "all_in Q (exch xs pv lp) (pv + 1) le"
      using "1.prems"(4,5,7) rng Qpv by (auto simp: all_in_def exch_nth)
    moreover have "all_in Q (exch xs pv lp) (lq + S - (pv + 1)) lq"
    proof -
      have "lq + S - (pv + 1) = lp" using lp by arith
      moreover have "Q (xs ! k)" if "lp < k" "k < lq" for k
        using that lp by (intro all_inD[OF "1.prems"(8)]) auto
      moreover have "lq + S - le \<le> pv" if "lp \<le> pv" using that lp "1.prems"(3,4) True by arith
      ultimately show ?thesis using "1.prems"(5) rng Qpv Qlp
        by (auto simp: all_in_def exch_nth)
    qed
    moreover have "all_in Q (exch xs pv lp) (lq + S - le) le"
      using "1.prems"(4,5,9) rng Qpv Qlp by (auto simp: all_in_def exch_nth)
    ultimately have "rearr (exch xs pv lp) ys S lq \<and> all_in Q ys (lq + S - le) lq"
      using "1.IH"[OF True] "1.prems"(2-5) True by simp
    moreover have "rearr xs (exch xs pv lp) S lq"
      using rng True "1.prems"(2-5) by (intro rearr_exch) auto
    ultimately show ?thesis by (auto intro: rearr_trans)
  next
    case False
    with "1.prems" show ?thesis by (auto simp: swap_l.simps[of xs pv])
  qed
qed

lemma swap_r_all_in:
  assumes "swap_r xs pv re rp = (ys, rp')"
    and "pv \<le> rr" and "re \<le> pv" and "rq \<le> re + 1" and "rr < length xs"
    and "rp + pv = rq + rr"
    and "all_in Q xs (re + 1) (pv + 1)" and "all_in Q xs rq rp" and "all_in Q xs (re + 1) (rq + (rr - re))"
  shows "rearr xs ys rq (rr + 1) \<and> all_in Q ys rq (rq + (rr - re))"
  using assms
proof (induction xs pv re rp rule: swap_r.induct)
  case (1 xs pv re rp)
  show ?case
  proof (cases "pv > re")
    case True
    note rp = "1.prems"(6)
    have rng: "rp < length xs" "pv < length xs" "rp \<le> rr" "rq \<le> rp" "rp < rq + (rr - re)"
      using rp True "1.prems"(2-5) by auto
    have Qrp: "Q (xs ! rp)" if "pv < rq + (rr - re)"
      using that rp True "1.prems"(2) by (intro all_inD[OF "1.prems"(9)]) arith+
    have Qpv: "Q (xs ! pv)" using True by (intro all_inD[OF "1.prems"(7)]) auto
    have "swap_r (exch xs pv rp) (pv - 1) re (rp + 1) = (ys, rp')"
      using "1.prems"(1) True by (simp add: swap_r.simps[of xs pv])
    moreover have "all_in Q (exch xs pv rp) (re + 1) (pv - 1 + 1)"
      using "1.prems"(2,5,7) rng Qpv True by (auto simp: all_in_def exch_nth)
    moreover have "all_in Q (exch xs pv rp) rq (rp + 1)"
    proof -
      have "pv < rq + (rr - re)" if "pv \<le> rp" using that rp "1.prems"(2,3) True by arith
      then show ?thesis using "1.prems"(5,8) rng Qpv Qrp
        by (auto simp: all_in_def exch_nth less_Suc_eq)
    qed
    moreover have "all_in Q (exch xs pv rp) (re + 1) (rq + (rr - re))"
      using "1.prems"(2-5,9) rng Qpv Qrp by (auto simp: all_in_def exch_nth)
    moreover have "rp + 1 + (pv - 1) = rq + rr" using rp True by arith
    ultimately have "rearr (exch xs pv rp) ys rq (rr + 1) \<and> all_in Q ys rq (rq + (rr - re))"
      using "1.IH"[OF True] "1.prems"(2-5) True by simp
    moreover have "rearr xs (exch xs pv rp) rq (rr + 1)"
      using rng True "1.prems"(2-5) by (intro rearr_exch) auto
    ultimately show ?thesis by (auto intro: rearr_trans)
  next
    case False
    then have "rp = rq + (rr - re)" using "1.prems"(2,3,6) by arith
    with "1.prems" False show ?thesis by (auto simp: swap_r.simps[of xs pv])
  qed
qed

section \<open>The contract of a comparison function\<close>

text \<open>
  What \<open>qsortx\<close> needs of \<open>cmp\<close> on the elements it is given: reversing the arguments reverses the
  sign, and \<open>cmp a b \<le> 0\<close> is transitive.
\<close>

locale qcmp =
  fixes cmp :: "'a \<Rightarrow> 'a \<Rightarrow> int" and valid :: "'a \<Rightarrow> bool"
  assumes cmp_sym: "valid x \<Longrightarrow> valid y \<Longrightarrow> cmp x y < 0 \<longleftrightarrow> cmp y x > 0"
    and cmp_trans: "valid x \<Longrightarrow> valid y \<Longrightarrow> valid z \<Longrightarrow> cmp x y \<le> 0 \<Longrightarrow> cmp y z \<le> 0 \<Longrightarrow> cmp x z \<le> 0"
begin

lemma cmp_self: "valid x \<Longrightarrow> cmp x x = 0"
  using cmp_sym[of x x] by linarith

lemma cmp_ge: "valid x \<Longrightarrow> valid y \<Longrightarrow> 0 \<le> cmp x y \<longleftrightarrow> cmp y x \<le> 0"
  using cmp_sym[of x y] cmp_sym[of y x] by linarith

lemma swap_l_phase:
  assumes inv: "part_inv cmp xs pv S le l l re"
    and lq: "lq = (if cmp (xs ! l) (xs ! pv) > 0 then l else l + 1)"
    and rq: "rq = (if cmp (xs ! l) (xs ! pv) < 0 then l + 1 else l)"
    and sw: "swap_l xs S le (if cmp (xs ! l) (xs ! pv) > 0 then l - 1 else l) = (zs, lp)"
    and v: "valid (xs ! pv)"
  shows "rearr xs zs S pv \<and> zs ! pv = xs ! pv \<and> all_in (\<lambda>x. cmp x (xs ! pv) \<le> 0) zs S lq \<and>
         all_in (\<lambda>x. cmp x (xs ! pv) = 0) zs (lq + S - le) lq \<and>
         all_in (\<lambda>x. cmp x (xs ! pv) \<ge> 0) zs rq (pv + 1) \<and>
         all_in (\<lambda>x. cmp x (xs ! pv) = 0) zs (re + 1) (pv + 1)"
proof -
  let ?p = "xs ! pv"
  note rng = part_inv_rangeD[OF inv]
  have eqs: "all_in (\<lambda>x. cmp x ?p = 0) xs S le" "all_in (\<lambda>x. cmp x ?p < 0) xs le l"
    "all_in (\<lambda>x. cmp x ?p > 0) xs (l + 1) (re + 1)" "all_in (\<lambda>x. cmp x ?p = 0) xs (re + 1) pv"
    using inv by (simp_all add: part_inv_def)
  have z: "rearr xs zs S lq \<and> all_in (\<lambda>x. cmp x ?p = 0) zs (lq + S - le) lq"
  proof (rule swap_l_all_in[OF sw])
    show "all_in (\<lambda>x. cmp x ?p = 0) xs (lq + S - le) le"
      using rng by (intro all_in_mono[OF eqs(1)]) (auto simp: lq)
  qed (use rng eqs(1) in \<open>auto simp: lq\<close>)
  have "all_in (\<lambda>x. cmp x ?p \<le> 0) xs S le" "all_in (\<lambda>x. cmp x ?p \<le> 0) xs le lq"
    using eqs(1,2) by (auto simp: all_in_def lq less_Suc_eq)
  then have "all_in (\<lambda>x. cmp x ?p \<le> 0) xs S lq" by (rule all_in_join)
  then have le0: "all_in (\<lambda>x. cmp x ?p \<le> 0) zs S lq"
    using z rng by (intro rearr_all_in[OF conjunct1[OF z]]) (auto simp: lq)
  have out: "zs ! k = xs ! k" if "lq \<le> k" "k < length xs" for k
    using rearr_outside[OF conjunct1[OF z]] that by simp
  have pz: "zs ! pv = ?p" using rng by (intro out) (auto simp: lq)
  have high: "cmp (zs ! k) ?p = 0" if "re + 1 \<le> k" "k < pv + 1" for k
  proof -
    have "zs ! k = xs ! k" using that rng by (intro out) (auto simp: lq)
    then show ?thesis
      using that all_inD[OF eqs(4), of k] cmp_self[OF v] by (cases "k = pv") auto
  qed
  have mid: "cmp (zs ! l) ?p = 0" if "rq < lq"
  proof (cases "le = S")
    case True
    then have "zs = xs" using sw by (simp add: swap_l.simps)
    then show ?thesis using that by (auto simp: lq rq split: if_splits)
  next
    case False
    then show ?thesis using that rng by (intro all_inD[OF conjunct2[OF z]]) (auto simp: lq rq split: if_splits)
  qed
  have "cmp (zs ! k) ?p \<ge> 0" if "rq \<le> k" "k < pv + 1" for k
  proof (cases "lq \<le> k")
    case True
    then have "zs ! k = xs ! k" using that rng by (intro out) auto
    moreover have "cmp (xs ! k) ?p \<ge> 0" if "k \<le> re"
      using that True all_inD[OF eqs(3), of k] by (cases "k = l") (auto simp: lq split: if_splits)
    ultimately show ?thesis using high[of k] that by fastforce
  next
    case False
    with that have "k = l" "rq < lq" by (auto simp: lq rq split: if_splits)
    with mid show ?thesis by simp
  qed
  with high le0 z pz show ?thesis
    using rearr_widen[of xs zs S lq S pv] rng by (auto simp: all_in_def lq)
qed

lemma sort_part_correct:
  assumes part: "sort_part cmp xs S E = (ys, lp, rp)"
    and E: "S + 3 < E" "E \<le> length xs" and v: "\<forall>x\<in>set xs. valid x"
  shows "\<exists>p L. valid p \<and> rearr xs ys S E \<and> S \<le> L \<and> L \<le> rp \<and> rp \<le> E \<and>
    all_in (\<lambda>x. cmp x p \<le> 0) ys S L \<and> all_in (\<lambda>x. cmp x p = 0) ys L rp \<and>
    all_in (\<lambda>x. cmp x p \<ge> 0) ys rp E \<and> (if S < lp then L = lp + 1 else L \<le> S + 1)"
proof -
  let ?pv = "E - 1"
  let ?xs0 = "exch xs ?pv (pick_pivot S E)"
  have pick: "S \<le> pick_pivot S E" "pick_pivot S E < E" using E(1) by (auto simp: pick_pivot_def)
  have r0: "rearr xs ?xs0 S E" using pick E by (intro rearr_exch) auto
  obtain x1 le l r re where loop: "part_loop cmp ?xs0 ?pv S S (?pv - 1) (?pv - 1) = (x1, le, l, r, re)"
    by (cases "part_loop cmp ?xs0 ?pv S S (?pv - 1) (?pv - 1)") auto
  have "part_inv cmp ?xs0 ?pv S S S (?pv - 1) (?pv - 1)"
    using E by (auto simp: part_inv_def)
  note L = part_loop_inv[OF loop this]
  have "l = r" using part_loop_range[OF loop] E by simp
  with L have inv: "part_inv cmp x1 ?pv S le l l re" by simp
  have r1: "rearr xs x1 S E"
    using rearr_trans[OF r0 rearr_widen[OF conjunct2[OF L], of S E]] by simp
  note rng = part_inv_rangeD[OF inv]
  define p where "p = x1 ! ?pv"
  have vp: "valid p"
    using v rearr_set[OF r1] rearr_length[OF r1] E nth_mem[of ?pv x1] by (auto simp: p_def)
  define lq where "lq = (if cmp (x1 ! l) p > 0 then l else l + 1)"
  define rq where "rq = (if cmp (x1 ! l) p < 0 then l + 1 else l)"
  obtain zs lp' where sl: "swap_l x1 S le (if cmp (x1 ! l) p > 0 then l - 1 else l) = (zs, lp')"
    by (cases "swap_l x1 S le (if cmp (x1 ! l) p > 0 then l - 1 else l)") auto
  obtain ys' rp' where sr: "swap_r zs ?pv re rq = (ys', rp')" by (cases "swap_r zs ?pv re rq") auto
  from part have eq: "ys = ys'" "lp = lp'" "rp = rp'"
    using loop sl sr \<open>l = r\<close> by (simp_all add: sort_part_def Let_def p_def rq_def split: if_splits)
  have Z: "rearr x1 zs S ?pv" "all_in (\<lambda>x. cmp x p \<le> 0) zs S lq"
    "all_in (\<lambda>x. cmp x p = 0) zs (lq + S - le) lq" "all_in (\<lambda>x. cmp x p \<ge> 0) zs rq E"
    "all_in (\<lambda>x. cmp x p = 0) zs (re + 1) E"
    using swap_l_phase[OF inv _ _ sl[unfolded p_def], of lq rq] vp E
    by (simp_all add: p_def lq_def rq_def)
  have lenz: "length zs = length x1" using rearr_length[OF Z(1)] .
  have q: "rq \<le> lq" "lq \<le> rq + 1" "rq \<le> l + 1" "l \<le> rq" by (auto simp: lq_def rq_def)
  have R: "rearr zs ys rq E \<and> all_in (\<lambda>x. cmp x p = 0) ys rq (rq + (?pv - re))"
    using swap_r_all_in[OF sr, of ?pv rq "\<lambda>x. cmp x p = 0"] rng q E Z(5) lenz
      all_in_mono[OF Z(5), of "re + 1" "rq + (?pv - re)" "\<lambda>x. cmp x p = 0"]
    by (auto simp: eq)
  have rp: "rp = rq + (?pv - re)" using swap_r_rp[OF sr] by (simp add: eq)
  have out: "ys ! k = zs ! k" if "k < rq" for k
    using rearr_outside[OF conjunct1[OF R]] that rng q lenz by auto
  have ge: "all_in (\<lambda>x. cmp x p \<ge> 0) ys rq E"
    using rearr_all_in[OF conjunct1[OF R] _ Z(4)] lenz rearr_length[OF r1] E by simp
  have eq0: "cmp (ys ! k) p = 0" if "rq \<le> k" "k < rp" for k
    using that R by (auto simp: rp all_in_def)
  have "cmp (ys ! k) p \<le> 0" if "S \<le> k" "k < lq" for k
    using that all_inD[OF Z(2), of k] out[of k] eq0[of k] q rng rp by (cases "k < rq") auto
  moreover have "cmp (ys ! k) p = 0" if "lq + S - le \<le> k" "k < rp" for k
    using that all_inD[OF Z(3), of k] out[of k] eq0[of k] q rng by (cases "k < rq") auto
  moreover have "rearr xs ys S E"
    using r1 rearr_trans[OF rearr_widen[OF Z(1), of S E] rearr_widen[OF conjunct1[OF R], of S E]]
      rng q rearr_trans[of xs x1 S E ys] by auto
  moreover have "if S < lp then lq + S - le = lp + 1 else lq + S - le \<le> S + 1"
    using swap_l_lp[OF sl] rng by (auto simp: eq lq_def)
  ultimately show ?thesis
    using vp rp rng q E ge
    by (intro exI[of _ p] exI[of _ "lq + S - le"]) (auto simp: all_in_def)
qed

definition sorted_in :: "'a list \<Rightarrow> nat \<Rightarrow> nat \<Rightarrow> bool" where
  "sorted_in xs a b \<longleftrightarrow> (\<forall>i j. a \<le> i \<longrightarrow> i < j \<longrightarrow> j < b \<longrightarrow> cmp (xs ! i) (xs ! j) \<le> 0)"

lemma sorted_in_small: "b \<le> a + 1 \<Longrightarrow> sorted_in xs a b"
  by (auto simp: sorted_in_def)

lemma sorted_in_join:
  assumes "sorted_in ys a L" and "sorted_in ys R b" and "L \<le> R" and "b \<le> length ys"
    and v: "valid p" "\<forall>x\<in>set ys. valid x"
    and "all_in (\<lambda>x. cmp x p \<le> 0) ys a L" and "all_in (\<lambda>x. cmp x p = 0) ys L R"
    and "all_in (\<lambda>x. cmp x p \<ge> 0) ys R b"
  shows "sorted_in ys a b"
  unfolding sorted_in_def
proof (intro allI impI)
  fix i j assume ij: "a \<le> i" "i < j" "j < b"
  then have vij: "valid (ys ! i)" "valid (ys ! j)" using v(2) assms(4) by auto
  have "cmp (ys ! i) p \<le> 0" if "i < R"
    using that ij all_inD[OF assms(7), of i] all_inD[OF assms(8), of i] by (cases "i < L") auto
  moreover have "cmp p (ys ! j) \<le> 0" if "L \<le> j"
    using that ij all_inD[OF assms(8), of j] all_inD[OF assms(9), of j] cmp_ge[OF vij(2) v(1)]
    by (cases "j < R") auto
  moreover have "cmp (ys ! i) (ys ! j) \<le> 0" if "j < L \<or> R \<le> i"
    using that ij assms(1,2) by (auto simp: sorted_in_def)
  ultimately show "cmp (ys ! i) (ys ! j) \<le> 0"
    using cmp_trans[OF vij(1) v(1) vij(2)] ij assms(3) by (meson le_less_trans not_less order.trans)
qed

lemma sorted_in_cong:
  "sorted_in xs a b \<Longrightarrow> (\<And>k. a \<le> k \<Longrightarrow> k < b \<Longrightarrow> ys ! k = xs ! k) \<Longrightarrow> sorted_in ys a b"
  by (simp add: sorted_in_def)

lemma sort2_correct:
  assumes "S + 2 \<le> length xs" and "\<forall>x\<in>set xs. valid x"
  shows "rearr xs (sort2 cmp xs S) S (S + 2) \<and> sorted_in (sort2 cmp xs S) S (S + 2)"
proof -
  have v: "valid (xs ! S)" "valid (xs ! (S + 1))" using assms by auto
  have ij: "i = S \<and> j = S + 1" if "S \<le> i" "i < j" "j < S + 2" for i j using that by arith
  have "rearr xs (exch xs S (S + 1)) S (S + 2)" using assms(1) by (intro rearr_exch) auto
  then show ?thesis
    using assms(1) cmp_sym[OF v(2,1)] v
    by (auto simp: sort2_def sorted_in_def exch_nth dest!: ij)
qed

lemma sorted_in_3I:
  assumes "cmp (ys ! S) (ys ! (S + 1)) \<le> 0" and "cmp (ys ! (S + 1)) (ys ! (S + 2)) \<le> 0"
    and "S + 3 \<le> length ys" and "\<forall>x\<in>set ys. valid x"
  shows "sorted_in ys S (S + 3)"
proof -
  have v: "valid (ys ! S)" "valid (ys ! (S + 1))" "valid (ys ! (S + 2))" using assms(3,4) by auto
  have "cmp (ys ! S) (ys ! (S + 2)) \<le> 0" using cmp_trans[OF v] assms(1,2) .
  moreover have "i = S \<and> j = S + 1 \<or> i = S \<and> j = S + 2 \<or> i = S + 1 \<and> j = S + 2"
    if "S \<le> i" "i < j" "j < S + 3" for i j using that by arith
  ultimately show ?thesis using assms(1,2) by (fastforce simp: sorted_in_def)
qed

lemma sort3_correct:
  assumes "S + 3 \<le> length xs" and "\<forall>x\<in>set xs. valid x"
  shows "rearr xs (sort3 cmp xs S) S (S + 3) \<and> sorted_in (sort3 cmp xs S) S (S + 3)"
proof -
  define c where "c a ys = (if cmp (ys ! a) (ys ! (a + 1)) > 0 then exch ys a (a + 1) else ys)" for a ys
  have ok: "rearr ys (c a ys) S (S + 3) \<and> cmp (c a ys ! a) (c a ys ! (a + 1)) \<le> 0"
    if "rearr xs ys S (S + 3)" "S \<le> a" "a \<le> S + 1" for a ys
  proof -
    have "length ys = length xs" "\<forall>x\<in>set ys. valid x"
      using that(1) rearr_length rearr_set assms(2) by fastforce+
    then have "valid (ys ! a)" "valid (ys ! (a + 1))" and len: "S + 3 \<le> length ys"
      using that assms(1) by auto
    then show ?thesis
      using that cmp_sym[of "ys ! (a + 1)" "ys ! a"] rearr_exch[of S a "S + 3" "a + 1" ys]
      by (auto simp: c_def exch_nth)
  qed
  define x1 where "x1 = c S xs"
  define x2 where "x2 = c (S + 1) x1"
  define x3 where "x3 = c S x2"
  have s3: "sort3 cmp xs S = x3" by (simp add: sort3_def Let_def c_def x1_def x2_def x3_def)
  have r1: "rearr xs x1 S (S + 3)" and c1: "cmp (x1 ! S) (x1 ! (S + 1)) \<le> 0"
    using ok[of xs S] by (simp_all add: x1_def)
  have r2: "rearr xs x2 S (S + 3)" and c2: "cmp (x2 ! (S + 1)) (x2 ! (S + 2)) \<le> 0"
    using ok[OF r1, of "S + 1"] rearr_trans[OF r1] by (simp_all add: x2_def)
  have r3: "rearr xs x3 S (S + 3)" and c3: "cmp (x3 ! S) (x3 ! (S + 1)) \<le> 0"
    using ok[OF r2, of S] rearr_trans[OF r2] by (simp_all add: x3_def)
  have val: "\<forall>x\<in>set ys. valid x" "length ys = length xs" if "rearr xs ys S (S + 3)" for ys
    using that rearr_set rearr_length assms(2) by fastforce+
  have v1: "valid (x1 ! S)" "valid (x1 ! (S + 1))" "valid (x1 ! (S + 2))"
    using val[OF r1] assms(1) by auto
  have "cmp (x2 ! S) (x2 ! (S + 2)) \<le> 0"
    using c1 cmp_trans[OF v1 c1] val(2)[OF r1] assms(1)
    by (auto simp: x2_def c_def exch_nth)
  with c2 have "cmp (x3 ! (S + 1)) (x3 ! (S + 2)) \<le> 0"
    using val(2)[OF r2] assms(1) by (auto simp: x3_def c_def exch_nth)
  with c3 show ?thesis using sorted_in_3I[of x3 S] val[OF r3] assms(1) r3 by (simp add: s3)
qed

lemma parts_join:
  assumes p: "valid p" and v: "\<forall>x\<in>set ys. valid x" and L: "S \<le> L" "L \<le> R" "R \<le> E" "E \<le> length ys"
    and ineq: "all_in (\<lambda>x. cmp x p \<le> 0) ys S L" "all_in (\<lambda>x. cmp x p = 0) ys L R"
      "all_in (\<lambda>x. cmp x p \<ge> 0) ys R E"
    and z: "rearr ys zs S L" "sorted_in zs S L" and w: "rearr zs ws R E" "sorted_in ws R E"
  shows "rearr ys ws S E \<and> sorted_in ws S E"
proof -
  have len: "length zs = length ys" "length ws = length ys" and vw: "\<forall>x\<in>set ws. valid x"
    using rearr_length[OF z(1)] rearr_length[OF w(1)] rearr_set[OF z(1)] rearr_set[OF w(1)] v by auto
  have wz: "ws ! k = zs ! k" if "k < R" for k
    using rearr_outside[OF w(1)] that L len by simp
  have zy: "zs ! k = ys ! k" if "L \<le> k" "k < E" for k
    using rearr_outside[OF z(1)] that L by simp
  have "all_in (\<lambda>x. cmp x p \<le> 0) zs S L"
    using rearr_all_in[OF z(1) _ ineq(1)] L by simp
  moreover have "all_in (\<lambda>x. cmp x p \<ge> 0) ws R E"
    using rearr_all_in[OF w(1), of "\<lambda>x. cmp x p \<ge> 0"] ineq(3) zy L len by (simp add: all_in_def)
  moreover have "sorted_in ws S L"
    by (rule sorted_in_cong[OF z(2)]) (use wz L in simp)
  ultimately have "sorted_in ws S E"
    using w(2) wz zy ineq(2) p vw L len
    by (intro sorted_in_join[of ws S L R E p]) (auto simp: all_in_def)
  moreover have "rearr ys ws S E"
    by (rule rearr_trans[OF rearr_widen[OF z(1)] rearr_widen[OF w(1)]]) (use L in auto)
  ultimately show ?thesis by simp
qed

lemma srec_correct:
  assumes "E \<le> length xs" and "\<forall>x\<in>set xs. valid x"
  shows "rearr xs (srec cmp xs S E) S E \<and> sorted_in (srec cmp xs S E) S E"
  using assms
proof (induction "E - S" arbitrary: xs S E rule: less_induct)
  case less
  note E = less.prems(1) and v = less.prems(2)
  consider "E - S \<le> 1" | "E = S + 2" | "E = S + 3" | (big) "S + 3 < E" by linarith
  then show ?case
  proof cases
    case big
    then have far: "\<not> E - S \<le> 1" "E - S \<noteq> 2" "E - S \<noteq> 3" by linarith+
    obtain ys lp rp where part: "sort_part cmp xs S E = (ys, lp, rp)"
      by (cases "sort_part cmp xs S E") auto
    from sort_part_correct[OF part big E v] obtain p L where p: "valid p" and ry: "rearr xs ys S E"
      and L: "S \<le> L" "L \<le> rp" "rp \<le> E" and lp: "if S < lp then L = lp + 1 else L \<le> S + 1"
      and ineq: "all_in (\<lambda>x. cmp x p \<le> 0) ys S L" "all_in (\<lambda>x. cmp x p = 0) ys L rp"
        "all_in (\<lambda>x. cmp x p \<ge> 0) ys rp E"
      by blast
    note rng = sort_part_range[OF part big]
    define zs where "zs = (if lp > S then srec cmp ys S (lp + 1) else ys)"
    define ws where "ws = (if rp < E - 1 then srec cmp zs rp E else zs)"
    have vy: "\<forall>x\<in>set ys. valid x" "length ys = length xs"
      using rearr_set[OF ry] rearr_length[OF ry] v by auto
    have z: "rearr ys zs S L \<and> sorted_in zs S L"
      using less.hyps[of "lp + 1" S ys] vy lp rng E by (auto simp: zs_def sorted_in_small)
    then have vz: "\<forall>x\<in>set zs. valid x" "length zs = length xs"
      using rearr_set[of ys zs] rearr_length[of ys zs] vy by auto
    have w: "rearr zs ws rp E \<and> sorted_in ws rp E"
      using less.hyps[of E rp zs] vz L rng E by (auto simp: ws_def sorted_in_small)
    have "rearr ys ws S E \<and> sorted_in ws S E"
      using parts_join[OF p vy(1) L _ ineq, of zs ws] z w E vy(2) by simp
    moreover have "srec cmp xs S E = ws"
      using far by (simp add: srec.simps[of cmp xs] part zs_def ws_def Let_def)
    ultimately show ?thesis using rearr_trans[OF ry] by simp
  qed (use E v sort2_correct[of S xs] sort3_correct[of S xs] sorted_in_small[of E S]
        in \<open>auto simp: srec.simps[of cmp xs]\<close>)
qed

lemma qsortp_sorts:
  assumes "\<forall>x\<in>set xs. valid x"
  shows "mset (qsortp xs cmp) = mset xs \<and> sorted_wrt (\<lambda>x y. cmp x y \<le> 0) (qsortp xs cmp)"
proof -
  have "qsortp xs cmp = srec cmp xs 0 (length xs)"
    by (simp add: qsortp_def qsortx_def cmp2to3_def)
  moreover have "rearr xs (srec cmp xs 0 (length xs)) 0 (length xs)"
    and sorted: "sorted_in (srec cmp xs 0 (length xs)) 0 (length xs)"
    using srec_correct[OF order.refl assms, of 0] by simp_all
  moreover from this(1) have "length (srec cmp xs 0 (length xs)) = length xs"
    by (rule rearr_length)
  ultimately show ?thesis
    by (simp add: rearr_def sorted_in_def sorted_wrt_iff_nth_less)
qed

end

section \<open>Termination and safety without any contract\<close>

text \<open>
  Whatever the comparison function answers, the loops stay inside the range and only exchange
  elements: the result is a rearrangement of the input.
\<close>

lemma sort_part_rearr:
  assumes part: "sort_part cmp xs S E = (ys, lp, rp)" and E: "S + 3 < E" "E \<le> length xs"
  shows "rearr xs ys S E \<and> rp \<le> E"
proof -
  let ?pv = "E - 1"
  let ?xs0 = "exch xs ?pv (pick_pivot S E)"
  have pick: "S \<le> pick_pivot S E" "pick_pivot S E < E" using E(1) by (auto simp: pick_pivot_def)
  have r0: "rearr xs ?xs0 S E" using pick E by (intro rearr_exch) auto
  obtain x1 le l r re where loop: "part_loop cmp ?xs0 ?pv S S (?pv - 1) (?pv - 1) = (x1, le, l, r, re)"
    by (cases "part_loop cmp ?xs0 ?pv S S (?pv - 1) (?pv - 1)") auto
  have "part_inv cmp ?xs0 ?pv S S S (?pv - 1) (?pv - 1)"
    using E by (auto simp: part_inv_def)
  note L = part_loop_inv[OF loop this]
  have "l = r" using part_loop_range[OF loop] E by simp
  with L have rng: "S \<le> le" "le \<le> l" "l \<le> re" "re < ?pv" "?pv < length x1"
    using part_inv_rangeD[of cmp x1 ?pv S le l r re] by auto
  have r1: "rearr xs x1 S E"
    using rearr_trans[OF r0 rearr_widen[OF conjunct2[OF L], of S E]] by simp
  define gt lt where "gt = (cmp (x1 ! l) (x1 ! ?pv) > 0)" and "lt = (cmp (x1 ! l) (x1 ! ?pv) < 0)"
  obtain zs lp' where sl: "swap_l x1 S le (if gt then l - 1 else l) = (zs, lp')"
    by (cases "swap_l x1 S le (if gt then l - 1 else l)") auto
  obtain ys' rp' where sr: "swap_r zs ?pv re (if lt then l + 1 else l) = (ys', rp')"
    by (cases "swap_r zs ?pv re (if lt then l + 1 else l)") auto
  have z: "rearr x1 zs S (if gt then l else l + 1)"
    using swap_l_all_in[OF sl, of S "if gt then l else l + 1" "\<lambda>_. True"] rng
    by (auto simp: all_in_def)
  have y: "rearr zs ys' (if lt then l + 1 else l) E"
    using swap_r_all_in[OF sr, of ?pv "if lt then l + 1 else l" "\<lambda>_. True"] rng rearr_length[OF z]
    by (auto simp: all_in_def)
  have "rearr x1 ys' S E"
    by (rule rearr_trans[OF rearr_widen[OF z] rearr_widen[OF y]]) (use rng in auto)
  moreover from part have "ys = ys'" "rp = rp'"
    using loop sl sr \<open>l = r\<close>
    by (simp_all add: sort_part_def Let_def gt_def lt_def split: if_splits)
  ultimately show ?thesis
    using rearr_trans[OF r1] swap_r_rp[OF sr] rng by auto
qed

lemma rearr_if_exch:
  "rearr xs ys S E \<Longrightarrow> S \<le> a \<Longrightarrow> a < E \<Longrightarrow> S \<le> b \<Longrightarrow> b < E \<Longrightarrow> E \<le> length xs \<Longrightarrow>
   rearr xs (if c then exch ys a b else ys) S E"
  using rearr_exch[of S a E b ys] rearr_trans[of xs ys S E "exch ys a b"] rearr_length[of xs ys S E]
  by simp

lemma srec_rearr: "E \<le> length xs \<Longrightarrow> rearr xs (srec cmp xs S E) S E"
proof (induction "E - S" arbitrary: xs S E rule: less_induct)
  case less
  note E = less.prems
  consider "E - S \<le> 1" | (two) "E = S + 2" | (three) "E = S + 3" | (big) "S + 3 < E" by linarith
  then show ?case
  proof cases
    case two
    then show ?thesis using E by (auto simp: srec.simps[of cmp xs] sort2_def intro!: rearr_exch)
  next
    case three
    then have "srec cmp xs S E = sort3 cmp xs S" by (simp add: srec.simps[of cmp xs])
    moreover have "rearr xs (sort3 cmp xs S) S E"
      unfolding sort3_def Let_def using E three
      by (intro rearr_if_exch rearr_refl) auto
    ultimately show ?thesis by simp
  next
    case big
    then have far: "\<not> E - S \<le> 1" "E - S \<noteq> 2" "E - S \<noteq> 3" by linarith+
    obtain ys lp rp where part: "sort_part cmp xs S E = (ys, lp, rp)"
      by (cases "sort_part cmp xs S E") auto
    note ry = sort_part_rearr[OF part big E] and rng = sort_part_range[OF part big]
    define zs where "zs = (if lp > S then srec cmp ys S (lp + 1) else ys)"
    define ws where "ws = (if rp < E - 1 then srec cmp zs rp E else zs)"
    have len: "length ys = length xs" using ry rearr_length by blast
    have z: "rearr ys zs S E"
      using less.hyps[of "lp + 1" S ys] rng E len rearr_widen[of ys zs S "lp + 1" S E]
      by (auto simp: zs_def)
    then have "length zs = length xs" using rearr_length[OF z] len by simp
    then have "rearr zs ws S E"
      using less.hyps[of E rp zs] rng E rearr_widen[of zs ws rp E S E] by (auto simp: ws_def)
    moreover have "srec cmp xs S E = ws"
      using far by (simp add: srec.simps[of cmp xs] part zs_def ws_def Let_def)
    ultimately show ?thesis using ry z rearr_trans by metis
  qed (simp add: srec.simps[of cmp xs])
qed

text \<open>
  \<open>qsortx\<close> terminates and permutes its array for every comparison function and every option
  argument, consistent or not: no element is lost, duplicated or invented.
\<close>

theorem qsortx_permutes: "mset (qsortx cmp ptrs opts) = mset ptrs"
  using srec_rearr[of "length ptrs" ptrs "\<lambda>a b. cmp a b opts" 0]
  by (simp add: qsortx_def rearr_def)

section \<open>Sorting strings\<close>

text \<open>
  The name comparisons of the tools compare terminated strings with \<open>strcmp\<close>, which satisfies the
  contract: an array of names is sorted.
\<close>

definition name_cmp :: "byte list \<Rightarrow> byte list \<Rightarrow> int" where
  "name_cmp a b = (case strcmp (Some a) (Some b) of Some d \<Rightarrow> d | None \<Rightarrow> 0)"

definition is_cstr :: "byte list \<Rightarrow> bool" where
  "is_cstr p \<longleftrightarrow> cstr p \<noteq> None"

lemma name_cmp_order:
  assumes "is_cstr a" and "is_cstr b"
  shows "name_cmp a b < 0 \<longleftrightarrow> ord_class.lexordp (the (cstr a)) (the (cstr b))"
    and "name_cmp a b = 0 \<longleftrightarrow> the (cstr a) = the (cstr b)"
  using assms strcmp_loop_lex[of a _ b]
  by (fastforce simp: name_cmp_def is_cstr_def strcmp_def)+

interpretation names: qcmp name_cmp is_cstr
proof
  fix x y assume v: "is_cstr x" "is_cstr y"
  show "name_cmp x y < 0 \<longleftrightarrow> name_cmp y x > 0"
    using name_cmp_order[OF v] name_cmp_order[OF v(2,1)]
      lexordp_linear[of "the (cstr x)" "the (cstr y)"] lexordp_antisym[of "the (cstr x)" "the (cstr y)"]
    by (metis lexordp_irreflexive' linorder_neqE_linordered_idom not_less_iff_gr_or_eq)
next
  fix x y z assume v: "is_cstr x" "is_cstr y" "is_cstr z"
    and le: "name_cmp x y \<le> 0" "name_cmp y z \<le> 0"
  show "name_cmp x z \<le> 0"
    using le name_cmp_order[OF v(1,2)] name_cmp_order[OF v(2,3)] name_cmp_order[OF v(1,3)]
      lexordp_trans[of "the (cstr x)" "the (cstr y)" "the (cstr z)"]
    by (metis order_le_less)
qed

text \<open>
  C30.  \<open>qsortp\<close> with the string comparison sorts: given terminated strings, it returns a permutation
  in which every string is lexicographically at most each later one.
\<close>

theorem qsortp_sorts_names:
  assumes "\<forall>x\<in>set xs. is_cstr x"
  shows "mset (qsortp xs name_cmp) = mset xs \<and>
         sorted_wrt (\<lambda>x y. name_cmp x y \<le> 0) (qsortp xs name_cmp)"
  using assms by (rule names.qsortp_sorts)

theorem qsortp_sorts_names_witness:
  "mset (qsortp [[98, 0], [97, 99, 0], [97, 0], [100, 0], [97, 0]] name_cmp)
     = mset [[98, 0], [97, 99, 0], [97, 0], [100, 0], [97, 0 :: byte]] \<and>
   sorted_wrt (\<lambda>x y. name_cmp x y \<le> 0) (qsortp [[98, 0], [97, 99, 0], [97, 0], [100, 0], [97, 0]] name_cmp)"
  by (rule qsortp_sorts_names) (simp add: is_cstr_def)

end
