(* ===== verification/Nlusctl.thy ===== *)
theory Nlusctl
  imports Cstring
begin

text \<open>
  The userspace control protocol of \<^verbatim>\<open>lib/nlusctl\<close>, which the services and their control tools speak
  over sequenced-packet sockets.  A message is a 16-bit length, a 16-bit command and a sequence
  of attributes; an attribute is a 16-bit length (header included), a 16-bit key and a payload
  padded to four bytes.  Senders build a message in place in a caller's buffer, receivers walk it
  in place.  The model keeps the byte layout: a message buffer is a list of bytes, pointers are
  offsets, and each access is checked.
\<close>

section \<open>Building a message\<close>

record ucbuf =
  uc_buf :: mem
  uc_len :: int

definition ENOBUFS :: int where "ENOBUFS = 105"

definition uc_buf_set :: "mem \<Rightarrow> int \<Rightarrow> ucbuf" where
  "uc_buf_set buf len = \<lparr> uc_buf = buf, uc_len = len \<rparr>"

definition set_buf :: "ucbuf \<Rightarrow> mem \<Rightarrow> ucbuf" where
  "set_buf uc m = uc \<lparr> uc_buf := m \<rparr>"

text \<open>The fields \<open>len\<close> and \<open>key\<close> of the \<open>struct ucattr\<close> at an offset.\<close>

definition at_len :: "mem \<Rightarrow> nat \<Rightarrow> int option" where
  "at_len m at = map_option uint (rd16 m at)"

definition at_key :: "mem \<Rightarrow> nat \<Rightarrow> int option" where
  "at_key m at = map_option uint (rd16 m (at + 2))"

definition set_len :: "mem \<Rightarrow> nat \<Rightarrow> int \<Rightarrow> mem option" where
  "set_len m at v = wr16 m at (word_of_int v)"

definition set_key :: "mem \<Rightarrow> nat \<Rightarrow> int \<Rightarrow> mem option" where
  "set_key m at v = wr16 m (at + 2) (word_of_int v)"

definition uc_put_hdr :: "ucbuf \<Rightarrow> int \<Rightarrow> ucbuf option" where
  "uc_put_hdr uc cmd = do {
     m \<leftarrow> set_key (uc_buf uc) 0 cmd;
     m \<leftarrow> set_len m 0 4;
     Some (set_buf uc m) }"

text \<open>\<open>uc_put\<close> returns the offset of the new attribute, or null once the buffer is full.\<close>

definition uc_put :: "ucbuf \<Rightarrow> int \<Rightarrow> int \<Rightarrow> int \<Rightarrow> (ucbuf \<times> nat option) option" where
  "uc_put uc key len alloc = do {
     ptr \<leftarrow> at_len (uc_buf uc) 0;
     let cap = uc_len uc;
     let full = int32 (4 + alloc);
     let new = int32 (ptr + full);
     if ptr = 0 then Some (uc, None)
     else if full > cap \<or> new \<le> 0 \<or> new > 0xFFFF \<or> new > cap then do {
       m \<leftarrow> set_len (uc_buf uc) 0 0;
       Some (set_buf uc m, None) }
     else do {
       m \<leftarrow> set_len (uc_buf uc) 0 new;
       m \<leftarrow> set_key m (nat ptr) key;
       m \<leftarrow> set_len m (nat ptr) (len + 4);
       Some (set_buf uc m, Some (nat ptr)) } }"

definition uc_put_flag :: "ucbuf \<Rightarrow> int \<Rightarrow> ucbuf option" where
  "uc_put_flag uc key = map_option fst (uc_put uc key 0 0)"

definition uc_put_tail :: "ucbuf \<Rightarrow> int \<Rightarrow> int \<Rightarrow> ucbuf option" where
  "uc_put_tail uc key paylen = map_option fst (uc_put uc key paylen 0)"

definition uc_put_int :: "ucbuf \<Rightarrow> int \<Rightarrow> u32 \<Rightarrow> ucbuf option" where
  "uc_put_int uc key v = do {
     (uc, at) \<leftarrow> uc_put uc key 4 4;
     (case at of
        None \<Rightarrow> Some uc
      | Some at \<Rightarrow> do { m \<leftarrow> wr32 (uc_buf uc) (at + 4) v; Some (set_buf uc m) }) }"

definition uc_put_i64 :: "ucbuf \<Rightarrow> int \<Rightarrow> u64 \<Rightarrow> ucbuf option" where
  "uc_put_i64 uc key v = do {
     (uc, at) \<leftarrow> uc_put uc key 8 8;
     (case at of
        None \<Rightarrow> Some uc
      | Some at \<Rightarrow> do { m \<leftarrow> wr64 (uc_buf uc) (at + 4) v; Some (set_buf uc m) }) }"

definition uc_space_left :: "ucbuf \<Rightarrow> int option" where
  "uc_space_left uc = do {
     ptr \<leftarrow> at_len (uc_buf uc) 0;
     if ptr = 0 then Some 0 else Some (uc_len uc - ptr) }"

text \<open>\<open>src\<close> is what the source pointer designates; \<open>len\<close> bytes of it are copied.\<close>

definition uc_put_bin :: "ucbuf \<Rightarrow> int \<Rightarrow> byte list \<Rightarrow> int \<Rightarrow> ucbuf option" where
  "uc_put_bin uc key src len = do {
     let alloc = align4 len;
     (uc, at) \<leftarrow> uc_put uc key len alloc;
     (case at of
        None \<Rightarrow> Some uc
      | Some at \<Rightarrow> do {
          let dst = at + 4;
          m \<leftarrow> (if alloc > len then wr32 (uc_buf uc) (dst + nat (len AND (NOT 3))) 0 else Some (uc_buf uc));
          s \<leftarrow> rds src 0 (nat len);
          m \<leftarrow> wrs m dst s;
          Some (set_buf uc m) }) }"

definition uc_put_str :: "ucbuf \<Rightarrow> int \<Rightarrow> byte list option \<Rightarrow> ucbuf option" where
  "uc_put_str uc key str = do {
     len \<leftarrow> strnlen str 1024;
     uc_put_bin uc key (case str of None \<Rightarrow> [] | Some s \<Rightarrow> s)
       (int (if len < 1024 then len + 1 else len)) }"

definition uc_put_strn :: "ucbuf \<Rightarrow> int \<Rightarrow> byte list option \<Rightarrow> nat \<Rightarrow> ucbuf option" where
  "uc_put_strn uc key src n = do {
     len \<leftarrow> strnlen src n;
     let lenz = int len + 1;
     let alloc = align4 lenz;
     (uc, at) \<leftarrow> uc_put uc key lenz alloc;
     (case at of
        None \<Rightarrow> Some uc
      | Some at \<Rightarrow> do {
          let dst = at + 4;
          m \<leftarrow> (if alloc > int len then wr32 (uc_buf uc) (dst + nat (int len AND (NOT 3))) 0 else Some (uc_buf uc));
          s \<leftarrow> rds (case src of None \<Rightarrow> [] | Some s \<Rightarrow> s) 0 len;
          m \<leftarrow> wrs m dst s;
          m \<leftarrow> wr m (dst + len) 0;
          Some (set_buf uc m) }) }"

definition uc_put_nest :: "ucbuf \<Rightarrow> int \<Rightarrow> (ucbuf \<times> nat option) option" where
  "uc_put_nest uc key = uc_put uc key 0 0"

definition uc_end_nest :: "ucbuf \<Rightarrow> nat option \<Rightarrow> ucbuf option" where
  "uc_end_nest uc at =
     (case at of
        None \<Rightarrow> Some uc
      | Some off \<Rightarrow>
          if int off \<ge> uc_len uc then Some uc
          else do {
            ptr \<leftarrow> at_len (uc_buf uc) 0;
            if int off \<ge> ptr then Some uc
            else do { m \<leftarrow> set_len (uc_buf uc) off (ptr - int off); Some (set_buf uc m) } })"

definition uc_put_strs :: "ucbuf \<Rightarrow> int \<Rightarrow> (ucbuf \<times> nat option) option" where
  "uc_put_strs uc key = uc_put uc key 0 0"

definition uc_add_str :: "ucbuf \<Rightarrow> byte list option \<Rightarrow> ucbuf option" where
  "uc_add_str uc str = do {
     ptr \<leftarrow> at_len (uc_buf uc) 0;
     n \<leftarrow> strnlen str 1024;
     let len = int n + 1;
     if ptr + len > uc_len uc then do { m \<leftarrow> set_len (uc_buf uc) 0 0; Some (set_buf uc m) }
     else do {
       s \<leftarrow> rds (case str of None \<Rightarrow> [] | Some s \<Rightarrow> s) 0 (nat len);
       m \<leftarrow> wrs (uc_buf uc) (nat ptr) s;
       m \<leftarrow> set_len m 0 (ptr + len);
       Some (set_buf uc m) } }"

definition uc_end_strs :: "ucbuf \<Rightarrow> nat option \<Rightarrow> ucbuf option" where
  "uc_end_strs uc at =
     (case at of
        None \<Rightarrow> Some uc
      | Some ats \<Rightarrow> do {
          ptr \<leftarrow> at_len (uc_buf uc) 0;
          let len = ptr - int ats;
          if len < 4 then Some uc
          else do {
            m \<leftarrow> set_len (uc_buf uc) ats len;
            let ptr = align4 ptr;
            m \<leftarrow> set_len m 0 (if ptr > uc_len uc then 0 else ptr);
            Some (set_buf uc m) } })"

section \<open>Reading a message\<close>

definition attr_in :: "mem \<Rightarrow> nat \<Rightarrow> nat \<Rightarrow> nat option option" where
  "attr_in m ptr en =
     (if ptr + 4 > en then Some None
      else do {
        len \<leftarrow> at_len m ptr;
        if ptr + nat len > en then Some None else Some (Some ptr) })"

definition uc_get_0 :: "mem \<Rightarrow> nat \<Rightarrow> nat option option" where
  "uc_get_0 m msg = do { len \<leftarrow> at_len m msg; attr_in m (msg + 4) (msg + nat len) }"

definition uc_get_n :: "mem \<Rightarrow> nat \<Rightarrow> nat \<Rightarrow> nat option option" where
  "uc_get_n m msg at = do {
     mlen \<leftarrow> at_len m msg;
     len \<leftarrow> at_len m at;
     if len \<le> 0 then Some None
     else attr_in m (at + nat (align4 len)) (msg + nat mlen) }"

lemma attr_in_SomeD: "attr_in m ptr en = Some (Some p) \<Longrightarrow> p = ptr \<and> ptr + 2 \<le> length m \<and> ptr + 4 \<le> en"
  by (auto simp: attr_in_def at_len_def rd16_def rds_def split: if_splits option.splits bind_splits)

lemma uc_get_n_progress:
  assumes "uc_get_n m msg at = Some (Some q)"
  shows "at < q" and "q + 2 \<le> length m"
proof -
  obtain mlen len where *: "at_len m at = Some len" "0 < len"
      "attr_in m (at + nat (align4 len)) (msg + nat mlen) = Some (Some q)"
    using assms by (auto simp: uc_get_n_def split: if_splits bind_splits)
  moreover have "align4 len > 0" using *(2) by (simp add: align4_eq)
  ultimately show "at < q" and "q + 2 \<le> length m" using attr_in_SomeD[OF *(3)] by auto
qed

lemma uc_get_n_measure: "uc_get_n m msg at = Some (Some q) \<Longrightarrow> length m - q < length m - at"
  using uc_get_n_progress[of m msg at q] by simp

function uc_get_from :: "mem \<Rightarrow> nat \<Rightarrow> int \<Rightarrow> nat option \<Rightarrow> nat option option" where
  "uc_get_from m msg key at =
     (case at of
        None \<Rightarrow> Some None
      | Some p \<Rightarrow>
         (case at_key m p of
            None \<Rightarrow> None
          | Some k \<Rightarrow>
             if k = key then Some (Some p)
             else (case uc_get_n m msg p of None \<Rightarrow> None | Some at \<Rightarrow> uc_get_from m msg key at)))"
  by pat_completeness auto
termination
  by (relation "measure (\<lambda>(m, msg, key, at). case at of None \<Rightarrow> 0 | Some p \<Rightarrow> Suc (length m - p))")
    (auto dest: uc_get_n_measure split: option.splits)

declare uc_get_from.simps [simp del]

definition uc_get :: "mem \<Rightarrow> nat \<Rightarrow> int \<Rightarrow> nat option option" where
  "uc_get m msg key = do { at \<leftarrow> uc_get_0 m msg; uc_get_from m msg key at }"

definition uc_is_keyed :: "mem \<Rightarrow> nat \<Rightarrow> int \<Rightarrow> bool option" where
  "uc_is_keyed m at key = map_option (\<lambda>k. k = key) (at_key m at)"

definition uc_payload :: "nat \<Rightarrow> nat" where
  "uc_payload at = at + 4"

definition uc_paylen :: "mem \<Rightarrow> nat \<Rightarrow> int option" where
  "uc_paylen m at = map_option (\<lambda>l. l - 4) (at_len m at)"

definition uc_repcode :: "mem \<Rightarrow> nat \<Rightarrow> int option" where
  "uc_repcode m msg = map_option sint (rd16 m (msg + 2))"

definition uc_is_bin :: "mem \<Rightarrow> nat option \<Rightarrow> int \<Rightarrow> int \<Rightarrow> nat option option" where
  "uc_is_bin m at key len =
     (case at of
        None \<Rightarrow> Some None
      | Some at \<Rightarrow> do {
          k \<leftarrow> at_key m at;
          if k \<noteq> key then Some None
          else do {
            l \<leftarrow> uc_paylen m at;
            if l \<noteq> len then Some None else Some (Some (uc_payload at)) } })"

definition uc_get_bin :: "mem \<Rightarrow> nat \<Rightarrow> int \<Rightarrow> int \<Rightarrow> nat option option" where
  "uc_get_bin m msg key len = do { at \<leftarrow> uc_get m msg key; uc_is_bin m at key len }"

definition uc_is_int :: "mem \<Rightarrow> nat option \<Rightarrow> int \<Rightarrow> nat option option" where
  "uc_is_int m at key = uc_is_bin m at key 4"

definition uc_get_int :: "mem \<Rightarrow> nat \<Rightarrow> int \<Rightarrow> nat option option" where
  "uc_get_int m msg key = do { at \<leftarrow> uc_get m msg key; uc_is_bin m at key 4 }"

definition uc_get_i64 :: "mem \<Rightarrow> nat \<Rightarrow> int \<Rightarrow> nat option option" where
  "uc_get_i64 m msg key = do { at \<leftarrow> uc_get m msg key; uc_is_bin m at key 8 }"

definition uc_get_u64 :: "mem \<Rightarrow> nat \<Rightarrow> int \<Rightarrow> nat option option" where
  "uc_get_u64 m msg key = do { at \<leftarrow> uc_get m msg key; uc_is_bin m at key 8 }"

text \<open>\<open>is_zstr\<close>: no zero before the last byte, and a zero there.\<close>

fun zstr_loop :: "mem \<Rightarrow> nat \<Rightarrow> nat \<Rightarrow> bool option" where
  "zstr_loop m p 0 = do { c \<leftarrow> rd m p; Some (c = 0) }"
| "zstr_loop m p (Suc k) = do {
     c \<leftarrow> rd m p;
     if c = 0 then Some False else zstr_loop m (p + 1) k }"

definition is_zstr :: "mem \<Rightarrow> nat \<Rightarrow> int \<Rightarrow> bool option" where
  "is_zstr m buf len = zstr_loop m buf (nat (len - 1))"

definition uc_is_str :: "mem \<Rightarrow> nat option \<Rightarrow> int \<Rightarrow> nat option option" where
  "uc_is_str m at key =
     (case at of
        None \<Rightarrow> Some None
      | Some at \<Rightarrow> do {
          k \<leftarrow> at_key m at;
          if k \<noteq> key then Some None
          else do {
            l \<leftarrow> uc_paylen m at;
            z \<leftarrow> is_zstr m (uc_payload at) l;
            if \<not> z then Some None else Some (Some (uc_payload at)) } })"

definition uc_get_str :: "mem \<Rightarrow> nat \<Rightarrow> int \<Rightarrow> nat option option" where
  "uc_get_str m msg key = do { at \<leftarrow> uc_get m msg key; uc_is_str m at key }"

section \<open>Transport\<close>

text \<open>
  The system calls are parameters: a \<open>socksys\<close> gives each one as a function of its arguments and
  the state \<open>'w\<close> of the world.  The 16-bit length at the front of a message is not sent: the
  packet boundary stands for it, and \<open>uc_msg\<close> puts it back.
\<close>

record 'w socksys =
  sys_bind :: "int \<Rightarrow> mem \<Rightarrow> 'w \<Rightarrow> int \<times> 'w"
  sys_connect :: "int \<Rightarrow> mem \<Rightarrow> 'w \<Rightarrow> int \<times> 'w"
  sys_unlink :: "byte list \<Rightarrow> 'w \<Rightarrow> int \<times> 'w"
  sys_listen :: "int \<Rightarrow> int \<Rightarrow> 'w \<Rightarrow> int \<times> 'w"
  sys_sendmsg :: "int \<Rightarrow> byte list list \<Rightarrow> byte list \<Rightarrow> 'w \<Rightarrow> int \<times> 'w"
  sys_recvmsg :: "int \<Rightarrow> nat \<Rightarrow> nat \<Rightarrow> 'w \<Rightarrow> int \<times> byte list \<times> byte list \<times> 'w"
  sys_ppoll1 :: "int \<Rightarrow> int \<Rightarrow> 'w \<Rightarrow> int \<times> 'w"

record ucaux =
  ux_ptr :: int
  ux_buf :: mem

definition uc_iov_hdr :: "ucbuf \<Rightarrow> (int + byte list) option" where
  "uc_iov_hdr uc =
     (if uc_len uc < 4 then Some (Inl (- ENOBUFS))
      else do {
        len \<leftarrow> at_len (uc_buf uc) 0;
        if len < 4 then Some (Inl (- ENOBUFS))
        else do { bs \<leftarrow> rds (uc_buf uc) 2 (nat (len - 2)); Some (Inr bs) } })"

definition uc_send :: "'w socksys \<Rightarrow> int \<Rightarrow> ucbuf \<Rightarrow> 'w \<Rightarrow> (int \<times> 'w) option" where
  "uc_send sys fd uc w = do {
     h \<leftarrow> uc_iov_hdr uc;
     (case h of Inl ret \<Rightarrow> Some (ret, w) | Inr bs \<Rightarrow> Some (sys_sendmsg sys fd [bs] [] w)) }"

definition uc_send_aux :: "'w socksys \<Rightarrow> int \<Rightarrow> ucbuf \<Rightarrow> ucaux \<Rightarrow> 'w \<Rightarrow> (int \<times> 'w) option" where
  "uc_send_aux sys fd uc ux w = do {
     h \<leftarrow> uc_iov_hdr uc;
     (case h of
        Inl ret \<Rightarrow> Some (ret, w)
      | Inr bs \<Rightarrow>
          if ux_ptr ux < 0 then Some (- ENOBUFS, w)
          else do {
            control \<leftarrow> rds (ux_buf ux) 0 (nat (ux_ptr ux));
            Some (sys_sendmsg sys fd [bs] control w) }) }"

definition uc_send_iov :: "'w socksys \<Rightarrow> int \<Rightarrow> byte list list \<Rightarrow> 'w \<Rightarrow> int \<times> 'w" where
  "uc_send_iov sys fd iov w = sys_sendmsg sys fd iov [] w"

text \<open>Reception stores the packet at \<open>buf + 2\<close>; the kernel never stores more than it was given room for.\<close>

definition uc_recv :: "'w socksys \<Rightarrow> int \<Rightarrow> mem \<Rightarrow> nat \<Rightarrow> 'w \<Rightarrow> (int \<times> mem \<times> 'w) option" where
  "uc_recv sys fd buf len w =
     (case sys_recvmsg sys fd (len - 2) 0 w of
        (ret, data, _, w) \<Rightarrow> do { buf \<leftarrow> wrs buf 2 (take (len - 2) data); Some (ret, buf, w) })"

definition uc_recv_aux :: "'w socksys \<Rightarrow> int \<Rightarrow> mem \<Rightarrow> nat \<Rightarrow> ucaux \<Rightarrow> 'w \<Rightarrow> (int \<times> mem \<times> ucaux \<times> 'w) option" where
  "uc_recv_aux sys fd buf len ux w =
     (case sys_recvmsg sys fd (len - 2) 64 w of
        (ret, data, control, w) \<Rightarrow> do {
          buf \<leftarrow> wrs buf 2 (take (len - 2) data);
          ub \<leftarrow> wrs (ux_buf ux) 0 (take 64 control);
          if ret < 0 then Some (ret, buf, ux \<lparr> ux_buf := ub \<rparr>, w)
          else Some (ret, buf, \<lparr> ux_ptr = int (length (take 64 control)), ux_buf = ub \<rparr>, w) })"

definition uc_msg :: "mem \<Rightarrow> int \<Rightarrow> (mem \<times> nat option) option" where
  "uc_msg buf len =
     (let full = 2 + len
      in if full < 4 then Some (buf, None)
         else do { m \<leftarrow> set_len buf 0 full; Some (m, Some 0) })"

definition ETIMEDOUT :: int where "ETIMEDOUT = 110"

definition uc_wait_writable :: "'w socksys \<Rightarrow> int \<Rightarrow> 'w \<Rightarrow> int \<times> 'w" where
  "uc_wait_writable sys fd w =
     (case sys_ppoll1 sys fd 1 w of
        (ret, w) \<Rightarrow> if ret < 0 then (ret, w) else if ret = 0 then (- ETIMEDOUT, w) else (0, w))"

text \<open>A file descriptor in the control buffer: \<open>struct cmsg\<close> with length, level, type and data.\<close>

definition ux_putf1 :: "ucaux \<Rightarrow> u32 \<Rightarrow> ucaux option" where
  "ux_putf1 ux fd = do {
     m \<leftarrow> wr64 (ux_buf ux) 0 20;
     m \<leftarrow> wr32 m 8 1;
     m \<leftarrow> wr32 m 12 1;
     m \<leftarrow> wr32 m 16 fd;
     Some \<lparr> ux_ptr = 24, ux_buf = m \<rparr> }"

definition ux_getf1 :: "ucaux \<Rightarrow> (u32 \<times> ucaux) option" where
  "ux_getf1 ux =
     (if ux_ptr ux < 20 \<or> ux_ptr ux > 24 then Some (- 1, ux)
      else do {
        len \<leftarrow> rd64 (ux_buf ux) 0;
        level \<leftarrow> rd32 (ux_buf ux) 8;
        typ \<leftarrow> rd32 (ux_buf ux) 12;
        if len \<noteq> 20 \<or> level \<noteq> 1 \<or> typ \<noteq> 1 then Some (- 1, ux)
        else do {
          fd \<leftarrow> rd32 (ux_buf ux) 16;
          m \<leftarrow> wr32 (ux_buf ux) 16 (- 1);
          Some (fd, ux \<lparr> ux_buf := m \<rparr>) } })"

subsection \<open>Addresses\<close>

definition ENAMETOOLONG :: int where "ENAMETOOLONG = 36"
definition EADDRINUSE :: int where "EADDRINUSE = 98"
definition ECONNREFUSED :: int where "ECONNREFUSED = 111"

text \<open>
  The \<open>while(p < e)\<close> loop over the 108 bytes of \<open>addr->path\<close>; an address is its family followed by
  its path.
\<close>

fun address_loop :: "mem \<Rightarrow> nat \<Rightarrow> nat \<Rightarrow> byte list \<Rightarrow> (mem \<times> nat) option" where
  "address_loop a p 0 q = Some (a, p)"
| "address_loop a p (Suc k) [] = None"
| "address_loop a p (Suc k) (c # q) =
     (if c \<noteq> 0 then do { a \<leftarrow> wr a p c; address_loop a (p + 1) k q } else Some (a, p))"

definition uc_address :: "mem \<Rightarrow> byte list \<Rightarrow> (int \<times> mem) option" where
  "uc_address addr path = do {
     a \<leftarrow> wr16 addr 0 1;
     (a, p) \<leftarrow> address_loop a 2 108 path;
     if p \<ge> 110 then Some (- ENAMETOOLONG, a)
     else do { a \<leftarrow> wr a p 0; Some (0, a) } }"

definition uc_connect :: "'w socksys \<Rightarrow> mem \<Rightarrow> int \<Rightarrow> byte list \<Rightarrow> 'w \<Rightarrow> (int \<times> 'w) option" where
  "uc_connect sys addr fd path w = do {
     (ret, addr) \<leftarrow> uc_address addr path;
     if ret < 0 then Some (ret, w) else Some (sys_connect sys fd addr w) }"

definition uc_listen :: "'w socksys \<Rightarrow> mem \<Rightarrow> int \<Rightarrow> byte list \<Rightarrow> int \<Rightarrow> 'w \<Rightarrow> (int \<times> 'w) option" where
  "uc_listen sys addr fd path backlog w = do {
     (ret, addr) \<leftarrow> uc_address addr path;
     if ret < 0 then Some (ret, w)
     else
       (case sys_bind sys fd addr w of (ret, w) \<Rightarrow>
          if ret \<ge> 0 then Some (sys_listen sys fd backlog w)
          else if ret \<noteq> - EADDRINUSE then Some (ret, w)
          else (case sys_connect sys fd addr w of (cret, w) \<Rightarrow>
            if cret \<noteq> - ECONNREFUSED then Some (ret, w)
            else (case sys_unlink sys (drop 2 addr) w of (ret, w) \<Rightarrow>
              if ret < 0 then Some (ret, w)
              else (case sys_bind sys fd addr w of (ret, w) \<Rightarrow>
                if ret < 0 then Some (ret, w) else Some (sys_listen sys fd backlog w))))) }"

section \<open>What the builder promises\<close>

text \<open>
  \<open>ucraw uc cmd b\<close>: the buffer holds a message with the command \<open>cmd\<close> and the body \<open>b\<close>.
  \<open>overflowed uc\<close>: an attribute did not fit, and the length field is zero.
\<close>

definition w16 :: "int \<Rightarrow> byte list" where
  "w16 v = le_bytes 2 (word_of_int v :: u16)"

definition ucraw :: "ucbuf \<Rightarrow> int \<Rightarrow> byte list \<Rightarrow> bool" where
  "ucraw uc cmd b \<longleftrightarrow>
     (\<exists>rest. uc_buf uc = w16 (4 + int (length b)) @ w16 cmd @ b @ rest) \<and>
     4 + length b \<le> 65535 \<and> int (4 + length b) \<le> uc_len uc \<and>
     uc_len uc \<le> int (length (uc_buf uc)) \<and> uc_len uc < 2147418107"

definition overflowed :: "ucbuf \<Rightarrow> bool" where
  "overflowed uc \<longleftrightarrow> at_len (uc_buf uc) 0 = Some 0"

lemma w16_length [simp]: "length (w16 v) = 2"
  by (simp add: w16_def)

lemma ucrawE:
  assumes "ucraw uc cmd b"
  obtains rest where "uc_buf uc = w16 (4 + int (length b)) @ w16 cmd @ b @ rest"
    and "4 + length b \<le> 65535" and "int (4 + length b) \<le> uc_len uc"
    and "uc_len uc \<le> int (4 + length b + length rest)" and "uc_len uc < 2147418107"
  using assms by (auto simp: ucraw_def)

lemma rd16_w16: "length a = p \<Longrightarrow> rd16 (a @ w16 v @ c) p = Some (word_of_int v)"
  by (simp add: rd16_append w16_def)

lemma at_len_w16: "length a = p \<Longrightarrow> 0 \<le> v \<Longrightarrow> v \<le> 65535 \<Longrightarrow> at_len (a @ w16 v @ c) p = Some v"
  by (simp add: at_len_def rd16_w16 unsigned_of_int take_bit_int_eq_self)

lemma at_key_w16: "length a = p + 2 \<Longrightarrow> 0 \<le> v \<Longrightarrow> v \<le> 65535 \<Longrightarrow> at_key (a @ w16 v @ c) p = Some v"
  by (simp add: at_key_def rd16_w16 unsigned_of_int take_bit_int_eq_self)

lemma ucraw_len: "ucraw uc cmd b \<Longrightarrow> at_len (uc_buf uc) 0 = Some (4 + int (length b))"
  by (erule ucrawE) (use at_len_w16[of "[]" 0] in simp)

lemma set_len_append:
  "length a = p \<Longrightarrow> length b = 2 \<Longrightarrow> set_len (a @ b @ c) p v = Some (a @ w16 v @ c)"
  by (simp add: set_len_def wr16_def wrs_append w16_def)

lemma set_key_append:
  "length a = p + 2 \<Longrightarrow> length b = 2 \<Longrightarrow> set_key (a @ b @ c) p v = Some (a @ w16 v @ c)"
  by (simp add: set_key_def wr16_def wrs_append w16_def)

lemma split_at:
  assumes "n \<le> length r"
  obtains a b where "r = a @ b" and "length a = n" and "length b = length r - n"
  using assms by (metis append_take_drop_id length_drop length_take min.absorb2)

text \<open>Room for one more attribute.\<close>

definition room :: "ucbuf \<Rightarrow> byte list \<Rightarrow> int \<Rightarrow> bool" where
  "room uc b alloc \<longleftrightarrow> 8 + int (length b) + alloc \<le> 65535 \<and> 8 + int (length b) + alloc \<le> uc_len uc"

lemma uc_put_ok:
  assumes raw: "ucraw uc cmd b" and "0 \<le> alloc" and "room uc b alloc"
  obtains uc' t where "uc_put uc key len alloc = Some (uc', Some (4 + length b))"
    and "ucraw uc' cmd (b @ w16 (len + 4) @ w16 key @ t)"
    and "length t = nat alloc" and "uc_len uc' = uc_len uc"
proof -
  obtain rest where buf: "uc_buf uc = w16 (4 + int (length b)) @ w16 cmd @ b @ rest"
    and rest: "uc_len uc \<le> int (4 + length b + length rest)" and cap: "uc_len uc < 2147418107"
    by (rule ucrawE[OF raw])
  have fits: "8 + int (length b) + alloc \<le> 65535" "8 + int (length b) + alloc \<le> uc_len uc"
    using assms(3) by (auto simp: room_def)
  then have *: "4 + nat alloc \<le> length rest" using rest \<open>0 \<le> alloc\<close> by linarith
  then obtain h1 x where x: "rest = h1 @ x" "length h1 = 2" "length x = length rest - 2"
    using split_at[of 2 rest] by auto
  then obtain h2 y where y: "x = h2 @ y" "length h2 = 2" "length y = length rest - 4"
    using split_at[of 2 x] * by auto
  then have "nat alloc \<le> length y" using * by simp
  then obtain t r where t: "y = t @ r" "length t = nat alloc" by (rule split_at)
  have buf: "uc_buf uc = w16 (4 + int (length b)) @ w16 cmd @ b @ h1 @ h2 @ t @ r"
    using buf x(1) y(1) t(1) by simp
  have rest: "uc_len uc \<le> int (8 + length b + length t + length r)"
    using rest x(1,2) y(1,2) t(1) by simp
  let ?new = "4 + int (length b) + (4 + alloc)"
  let ?L = "w16 ?new" and ?C = "w16 cmd" and ?l = "w16 (len + 4)" and ?k = "w16 key"
  let ?m = "?L @ ?C @ b @ ?l @ ?k @ t @ r"
  have 1: "set_len (uc_buf uc) 0 ?new = Some (?L @ ?C @ b @ h1 @ h2 @ t @ r)"
    using set_len_append[of "[]" 0 "w16 (4 + int (length b))" "w16 cmd @ b @ h1 @ h2 @ t @ r" ?new]
    by (simp add: buf)
  have 2: "set_key (?L @ ?C @ b @ h1 @ h2 @ t @ r) (4 + length b) key = Some (?L @ ?C @ b @ h1 @ ?k @ t @ r)"
    using set_key_append[of "?L @ ?C @ b @ h1" "4 + length b" h2 "t @ r" key] x(2) y(2) by simp
  have 3: "set_len (?L @ ?C @ b @ h1 @ ?k @ t @ r) (4 + length b) (len + 4) = Some ?m"
    using set_len_append[of "?L @ ?C @ b" "4 + length b" h1 "?k @ t @ r" "len + 4"] x(2) by simp
  have ids: "int32 (4 + alloc) = 4 + alloc" "int32 ?new = ?new"
    using fits \<open>0 \<le> alloc\<close> by simp_all
  have at: "nat (4 + int (length b)) = 4 + length b" by simp
  have "uc_put uc key len alloc = Some (set_buf uc ?m, Some (4 + length b))"
    using fits \<open>0 \<le> alloc\<close> 1 2 3 unfolding uc_put_def Let_def
    by (simp only: ucraw_len[OF raw] ids at bind.bind_lunit) simp
  moreover have "ucraw (set_buf uc ?m) cmd (b @ ?l @ ?k @ t)"
    using fits cap rest t(2) \<open>0 \<le> alloc\<close> unfolding ucraw_def set_buf_def
    by (simp add: algebra_simps)
  ultimately show ?thesis using t(2) that by (simp add: set_buf_def)
qed

lemma uc_put_over:
  assumes raw: "ucraw uc cmd b" and "0 \<le> alloc" and "alloc < 2147418108" and "\<not> room uc b alloc"
  obtains uc' where "uc_put uc key len alloc = Some (uc', None)"
    and "overflowed uc'" and "uc_len uc' = uc_len uc"
proof -
  obtain rest where buf: "uc_buf uc = w16 (4 + int (length b)) @ w16 cmd @ b @ rest"
    and small: "4 + length b \<le> 65535"
    by (rule ucrawE[OF raw])
  let ?m = "w16 0 @ w16 cmd @ b @ rest"
  have 1: "set_len (uc_buf uc) 0 0 = Some ?m"
    using set_len_append[of "[]" 0 "w16 (4 + int (length b))" "w16 cmd @ b @ rest" 0]
    by (simp add: buf)
  have ids: "int32 (4 + alloc) = 4 + alloc" "int32 (4 + int (length b) + (4 + alloc)) = 8 + int (length b) + alloc"
    using assms small by (simp_all add: algebra_simps)
  have "uc_put uc key len alloc = Some (set_buf uc ?m, None)"
    using assms(2,4) 1 small unfolding uc_put_def Let_def room_def
    by (simp only: ucraw_len[OF raw] ids bind.bind_lunit) auto
  moreover have "overflowed (set_buf uc ?m)"
    using at_len_w16[of "[]" 0 0] by (simp add: overflowed_def set_buf_def)
  ultimately show ?thesis using that by (simp add: set_buf_def)
qed

lemma uc_put_sticky: "overflowed uc \<Longrightarrow> uc_put uc key len alloc = Some (uc, None)"
  by (simp add: uc_put_def overflowed_def)

lemma ucraw_wrs:
  assumes "ucraw uc cmd (b @ x @ y)" and "length z = length x" and "p = 4 + length b"
  obtains m where "wrs (uc_buf uc) p z = Some m" and "ucraw (set_buf uc m) cmd (b @ z @ y)"
proof -
  obtain rest where buf: "uc_buf uc = w16 (4 + int (length (b @ x @ y))) @ w16 cmd @ (b @ x @ y) @ rest"
    and *: "4 + length (b @ x @ y) \<le> 65535" "int (4 + length (b @ x @ y)) \<le> uc_len uc"
      "uc_len uc \<le> int (4 + length (b @ x @ y) + length rest)" "uc_len uc < 2147418107"
    by (rule ucrawE[OF assms(1)])
  let ?a = "w16 (4 + int (length (b @ x @ y))) @ w16 cmd @ b"
  have "wrs (uc_buf uc) p z = Some (?a @ z @ y @ rest)"
    using wrs_append[OF _ assms(2)[symmetric], of ?a p "y @ rest"] assms(3) by (simp add: buf)
  moreover have "ucraw (set_buf uc (?a @ z @ y @ rest)) cmd (b @ z @ y)"
    using * assms(2) by (simp add: ucraw_def set_buf_def)
  ultimately show ?thesis by (rule that)
qed

section \<open>Writers\<close>

text \<open>
  The contract every \<open>uc_put_*\<close> function offers to the code that builds messages: with room for
  the encoding \<open>e\<close> it appends \<open>e\<close>; without, it marks the buffer as overflowed; once overflowed, the
  buffer stays so.  \<open>fits\<close> is the condition on the room.
\<close>

definition fits :: "ucbuf \<Rightarrow> byte list \<Rightarrow> byte list \<Rightarrow> bool" where
  "fits uc b e \<longleftrightarrow> 4 + length b + length e \<le> 65535 \<and> int (4 + length b + length e) \<le> uc_len uc"

locale uc_writer =
  fixes put :: "ucbuf \<Rightarrow> ucbuf option" and e :: "byte list"
  assumes ok: "ucraw uc cmd b \<Longrightarrow> fits uc b e \<Longrightarrow>
      \<exists>uc'. put uc = Some uc' \<and> ucraw uc' cmd (b @ e) \<and> uc_len uc' = uc_len uc"
    and over: "ucraw uc cmd b \<Longrightarrow> \<not> fits uc b e \<Longrightarrow>
      \<exists>uc'. put uc = Some uc' \<and> overflowed uc' \<and> uc_len uc' = uc_len uc"
    and sticky: "overflowed uc \<Longrightarrow> put uc = Some uc"
begin

lemma total: "ucraw uc cmd b \<or> overflowed uc \<Longrightarrow>
    \<exists>uc'. put uc = Some uc' \<and> ((\<exists>b'. ucraw uc' cmd b') \<or> overflowed uc') \<and> uc_len uc' = uc_len uc"
  using ok over sticky by blast

end

definition uc_seq :: "(ucbuf \<Rightarrow> ucbuf option) \<Rightarrow> (ucbuf \<Rightarrow> ucbuf option) \<Rightarrow> ucbuf \<Rightarrow> ucbuf option" where
  "uc_seq f g uc = do { uc \<leftarrow> f uc; g uc }"

text \<open>The idiom \<open>at = uc_put_nest(uc, key); \<dots> uc_end_nest(uc, at);\<close>\<close>

definition uc_nest :: "int \<Rightarrow> (ucbuf \<Rightarrow> ucbuf option) \<Rightarrow> ucbuf \<Rightarrow> ucbuf option" where
  "uc_nest key f uc = do { (uc, at) \<leftarrow> uc_put_nest uc key; uc \<leftarrow> f uc; uc_end_nest uc at }"

lemma fits_append: "fits uc b (e @ f) \<longleftrightarrow> fits uc b e \<and> fits uc (b @ e) f"
  by (auto simp: fits_def)

lemma uc_seq_writer:
  assumes "uc_writer p e" and "uc_writer q f"
  shows "uc_writer (uc_seq p q) (e @ f)"
proof
  fix uc cmd b
  assume raw: "ucraw uc cmd b" and "fits uc b (e @ f)"
  then have fit: "fits uc b e" "fits uc (b @ e) f" by (simp_all add: fits_append)
  obtain uc1 where 1: "p uc = Some uc1" "ucraw uc1 cmd (b @ e)" "uc_len uc1 = uc_len uc"
    using uc_writer.ok[OF assms(1) raw fit(1)] by blast
  then show "\<exists>uc'. uc_seq p q uc = Some uc' \<and> ucraw uc' cmd (b @ e @ f) \<and> uc_len uc' = uc_len uc"
    using uc_writer.ok[OF assms(2) 1(2)] fit(2) by (auto simp: uc_seq_def fits_def)
next
  fix uc cmd b
  assume raw: "ucraw uc cmd b" and nofit: "\<not> fits uc b (e @ f)"
  show "\<exists>uc'. uc_seq p q uc = Some uc' \<and> overflowed uc' \<and> uc_len uc' = uc_len uc"
  proof (cases "fits uc b e")
    case True
    obtain uc1 where 1: "p uc = Some uc1" "ucraw uc1 cmd (b @ e)" "uc_len uc1 = uc_len uc"
      using uc_writer.ok[OF assms(1) raw True] by blast
    then show ?thesis
      using uc_writer.over[OF assms(2) 1(2)] nofit True by (auto simp: uc_seq_def fits_def)
  next
    case False
    then show ?thesis
      using uc_writer.over[OF assms(1) raw] uc_writer.sticky[OF assms(2)] by (auto simp: uc_seq_def)
  qed
next
  fix uc
  assume "overflowed uc"
  then show "uc_seq p q uc = Some uc"
    using assms by (simp add: uc_seq_def uc_writer.sticky)
qed

text \<open>A writer made of \<open>uc_put\<close> followed by a step that fills the payload it allocated.\<close>

lemma put_fill_writer:
  assumes small: "0 \<le> alloc" "alloc < 2147418108"
    and put: "\<And>uc. put uc = do { (uc, at) \<leftarrow> uc_put uc key len alloc;
        (case at of None \<Rightarrow> Some uc | Some at \<Rightarrow> fill uc at) }"
    and fill: "\<And>uc cmd b t. ucraw uc cmd (b @ h @ t) \<Longrightarrow> length t = nat alloc \<Longrightarrow>
        \<exists>uc'. fill uc (4 + length b) = Some uc' \<and> ucraw uc' cmd (b @ h @ pl) \<and> uc_len uc' = uc_len uc"
    and h: "h = w16 (len + 4) @ w16 key" and pl: "length pl = nat alloc"
  shows "uc_writer put (h @ pl)"
proof
  fix uc cmd b
  assume raw: "ucraw uc cmd b" and "fits uc b (h @ pl)"
  then have "room uc b alloc" using small by (auto simp: fits_def room_def h pl)
  then obtain uc1 t where 1: "uc_put uc key len alloc = Some (uc1, Some (4 + length b))"
    and "ucraw uc1 cmd (b @ w16 (len + 4) @ w16 key @ t)" and t: "length t = nat alloc"
    and len: "uc_len uc1 = uc_len uc"
    by (rule uc_put_ok[OF raw small(1)])
  then have "ucraw uc1 cmd (b @ h @ t)" by (simp add: h)
  from fill[OF this t] show "\<exists>uc'. put uc = Some uc' \<and> ucraw uc' cmd (b @ h @ pl) \<and> uc_len uc' = uc_len uc"
    using 1 len by (auto simp: put)
next
  fix uc cmd b
  assume raw: "ucraw uc cmd b" and "\<not> fits uc b (h @ pl)"
  then have "\<not> room uc b alloc" using small by (auto simp: fits_def room_def h pl)
  from uc_put_over[OF raw small this] show "\<exists>uc'. put uc = Some uc' \<and> overflowed uc' \<and> uc_len uc' = uc_len uc"
    by (metis (mono_tags, lifting) put bind.bind_lunit case_prod_conv option.simps(4))
next
  fix uc
  assume "overflowed uc"
  then show "put uc = Some uc" by (simp add: put uc_put_sticky)
qed

text \<open>The encoding of an attribute: header, payload and zero padding.\<close>

definition pad4 :: "nat \<Rightarrow> nat" where
  "pad4 n = (4 - n mod 4) mod 4"

definition enc_attr :: "int \<Rightarrow> byte list \<Rightarrow> byte list" where
  "enc_attr key pl = (w16 (int (length pl) + 4) @ w16 key) @ pl @ replicate (pad4 (length pl)) 0"

lemma align4_pad4: "align4 (int n) = int (n + pad4 n)"
proof -
  have "n mod 4 = 0 \<or> n mod 4 = 1 \<or> n mod 4 = 2 \<or> n mod 4 = 3" by arith
  then have "int (n + pad4 n) = 4 * ((int n + 3) div 4)" by (elim disjE) (simp_all add: pad4_def, presburger+)
  then show ?thesis by (simp add: align4_eq)
qed

lemma and_not_3: "int n AND - 4 = int (n - n mod 4)"
proof -
  have "(int n - 3 + 3) AND NOT 3 = 4 * ((int n - 3 + 3) div 4)"
    using align4_eq[of "int n - 3"] by (simp only: align4_def)
  then have "int n AND NOT 3 = int (4 * (n div 4))" by (simp add: zdiv_int)
  then have "int n AND NOT 3 = int (n - n mod 4)" by (simp only: minus_mod_eq_mult_div)
  then show ?thesis by simp
qed

lemma nat_and_not_3: "nat (int n AND - 4) = n - n mod 4"
  by (simp only: and_not_3 nat_int)

lemma enc_attr_length: "length (enc_attr key pl) = 4 + length pl + pad4 (length pl)"
  by (simp add: enc_attr_def)

lemma pad4_aligned [simp]: "n mod 4 = 0 \<Longrightarrow> pad4 n = 0"
  by (simp add: pad4_def)

interpretation uc_put_flag: uc_writer "\<lambda>uc. uc_put_flag uc key" "enc_attr key []" for key
proof -
  have "uc_writer (\<lambda>uc. uc_put_flag uc key) ((w16 (0 + 4) @ w16 key) @ [])"
  proof (rule put_fill_writer[where alloc = 0 and len = 0 and key = key and fill = "\<lambda>uc _. Some uc"])
    show "uc_put_flag uc key = (do { (uc, at) \<leftarrow> uc_put uc key 0 0;
        (case at of None \<Rightarrow> Some uc | Some at \<Rightarrow> Some uc) })" for uc
      by (cases "uc_put uc key 0 0") (auto simp: uc_put_flag_def split: option.splits)
  qed simp_all
  then show "uc_writer (\<lambda>uc. uc_put_flag uc key) (enc_attr key [])" by (simp add: enc_attr_def)
qed

lemma fill_wrs:
  assumes "length h = 4" and raw: "ucraw uc cmd (b @ h @ t)" and "length t = length bs"
  shows "\<exists>uc'. (do { m \<leftarrow> wrs (uc_buf uc) (4 + length b + 4) bs; Some (set_buf uc m) }) = Some uc' \<and>
    ucraw uc' cmd (b @ h @ bs) \<and> uc_len uc' = uc_len uc"
proof -
  have "ucraw uc cmd ((b @ h) @ t @ [])" using raw by simp
  moreover have "length bs = length t" "4 + length b + 4 = 4 + length (b @ h)"
    using assms by simp_all
  ultimately obtain m where "wrs (uc_buf uc) (4 + length b + 4) bs = Some m"
      "ucraw (set_buf uc m) cmd ((b @ h) @ bs @ [])"
    by (rule ucraw_wrs)
  then show ?thesis by (simp add: set_buf_def)
qed

lemma wrs_writer:
  assumes "\<And>uc. put uc = do { (uc, at) \<leftarrow> uc_put uc key (int (length bs)) (int (length bs));
      (case at of None \<Rightarrow> Some uc
       | Some at \<Rightarrow> do { m \<leftarrow> wrs (uc_buf uc) (at + 4) bs; Some (set_buf uc m) }) }"
    and "length bs mod 4 = 0" and "length bs < 65536"
  shows "uc_writer put (enc_attr key bs)"
proof -
  have "uc_writer put ((w16 (int (length bs) + 4) @ w16 key) @ bs)"
  proof (rule put_fill_writer[OF _ _ assms(1)])
    fix uc cmd b t
    assume "ucraw uc cmd (b @ (w16 (int (length bs) + 4) @ w16 key) @ t)" "length t = nat (int (length bs))"
    then show "\<exists>uc'. (do { m \<leftarrow> wrs (uc_buf uc) (4 + length b + 4) bs; Some (set_buf uc m) }) = Some uc' \<and>
        ucraw uc' cmd (b @ (w16 (int (length bs) + 4) @ w16 key) @ bs) \<and> uc_len uc' = uc_len uc"
      by (intro fill_wrs[where t = t]) simp_all
  qed (use assms in simp_all)
  then show ?thesis using assms(2) by (simp add: enc_attr_def)
qed

interpretation uc_put_int: uc_writer "\<lambda>uc. uc_put_int uc key v" "enc_attr key (le_bytes 4 v)" for key v
  unfolding uc_put_int_def wr32_def by (rule wrs_writer) simp_all

interpretation uc_put_i64: uc_writer "\<lambda>uc. uc_put_i64 uc key v" "enc_attr key (le_bytes 8 v)" for key v
  unfolding uc_put_i64_def wr64_def by (rule wrs_writer) simp_all

lemma le_zero: "le_bytes n (0 :: 'a::len word) = replicate n 0"
  by (induction n) auto

lemma zero_tail_fill:
  assumes "length h = 4" and raw: "ucraw uc cmd (b @ h @ t)" and "length t = n - n mod 4 + 4" and "length s = n"
  obtains m1 m2 where "wrs (uc_buf uc) (4 + length b + 4 + (n - n mod 4)) (le_bytes 4 (0 :: u32)) = Some m1"
    and "wrs m1 (4 + length b + 4) s = Some m2"
    and "ucraw (set_buf uc m2) cmd (b @ h @ s @ replicate (4 - n mod 4) 0)"
proof -
  have "n - n mod 4 \<le> length t" using assms(3) by simp
  then obtain t1 t2 where "t = t1 @ t2" "length t1 = n - n mod 4" "length t2 = length t - (n - n mod 4)"
    by (rule split_at)
  then have t: "t = t1 @ t2" "length t1 = n - n mod 4" "length t2 = 4"
    using assms(3) by simp_all
  have "ucraw uc cmd ((b @ h @ t1) @ t2 @ [])" using raw t(1) by simp
  moreover have "length (le_bytes 4 (0 :: u32)) = length t2"
    "4 + length b + 4 + (n - n mod 4) = 4 + length (b @ h @ t1)"
    using t(2,3) assms(1) by simp_all
  ultimately obtain m1 where 1: "wrs (uc_buf uc) (4 + length b + 4 + (n - n mod 4)) (le_bytes 4 (0 :: u32)) = Some m1"
    and r1: "ucraw (set_buf uc m1) cmd ((b @ h @ t1) @ le_bytes 4 (0 :: u32) @ [])"
    by (rule ucraw_wrs)
  have "replicate 4 (0 :: byte) = replicate (n mod 4) 0 @ replicate (4 - n mod 4) 0"
    by (simp flip: replicate_add)
  then have "ucraw (set_buf uc m1) cmd ((b @ h) @ (t1 @ replicate (n mod 4) 0) @ replicate (4 - n mod 4) 0)"
    using r1 by (simp add: le_zero)
  moreover have "length s = length (t1 @ replicate (n mod 4) (0 :: byte))"
    "4 + length b + 4 = 4 + length (b @ h)"
    using t(2) assms(1,4) by simp_all
  ultimately obtain m2 where "wrs (uc_buf (set_buf uc m1)) (4 + length b + 4) s = Some m2"
    "ucraw (set_buf (set_buf uc m1) m2) cmd ((b @ h) @ s @ replicate (4 - n mod 4) 0)"
    by (rule ucraw_wrs)
  then show ?thesis using 1 that by (simp add: set_buf_def)
qed

lemma pad4_Suc: "pad4 (Suc n) = 3 - n mod 4"
proof -
  have "n mod 4 = 0 \<or> n mod 4 = 1 \<or> n mod 4 = 2 \<or> n mod 4 = 3" by arith
  then show ?thesis by (auto simp: pad4_def mod_Suc)
qed

lemma pad4_pos: "n mod 4 \<noteq> 0 \<Longrightarrow> pad4 n = 4 - n mod 4"
  by (simp add: pad4_def)

lemma uc_put_bin_writer:
  assumes src: "src = pl @ x" and len: "length pl < 65536"
  shows "uc_writer (\<lambda>uc. uc_put_bin uc key src (int (length pl))) (enc_attr key pl)"
proof -
  let ?n = "length pl" and ?al = "align4 (int (length pl))"
  let ?h = "w16 (int (length pl) + 4) @ w16 key"
  let ?fill = "\<lambda>uc at. do {
     let dst = at + 4;
     m \<leftarrow> (if ?al > int ?n then wr32 (uc_buf uc) (dst + nat (int ?n AND (NOT 3))) 0 else Some (uc_buf uc));
     s \<leftarrow> rds src 0 (nat (int ?n));
     m \<leftarrow> wrs m dst s;
     Some (set_buf uc m) }"
  have pad: "pad4 ?n < 4" by (simp add: pad4_def)
  have rd: "rds src 0 ?n = Some pl" using rds_append[of "[]" 0 pl ?n x] src by simp
  have "uc_writer (\<lambda>uc. uc_put_bin uc key src (int ?n)) (?h @ pl @ replicate (pad4 ?n) 0)"
  proof (rule put_fill_writer[where alloc = ?al and fill = ?fill])
    fix uc cmd b t
    assume raw: "ucraw uc cmd (b @ ?h @ t)" and t: "length t = nat ?al"
    show "\<exists>uc'. ?fill uc (4 + length b) = Some uc' \<and>
        ucraw uc' cmd (b @ ?h @ pl @ replicate (pad4 ?n) 0) \<and> uc_len uc' = uc_len uc"
    proof (cases "?n mod 4 = 0")
      case True
      then have "length t = length pl" "?al = int ?n" using t by (simp_all add: align4_pad4)
      then show ?thesis using fill_wrs[OF _ raw, of pl] True rd by (simp add: Let_def)
    next
      case False
      then have "length t = ?n - ?n mod 4 + 4" "?al > int ?n"
        using t pad4_pos[OF False] by (simp_all add: align4_pad4)
      moreover obtain m1 m2 where "wrs (uc_buf uc) (4 + length b + 4 + (?n - ?n mod 4)) (le_bytes 4 (0 :: u32)) = Some m1"
        "wrs m1 (4 + length b + 4) pl = Some m2"
        "ucraw (set_buf uc m2) cmd (b @ ?h @ pl @ replicate (4 - ?n mod 4) 0)"
        using zero_tail_fill[OF _ raw \<open>length t = ?n - ?n mod 4 + 4\<close> refl] by auto
      ultimately show ?thesis
        using pad4_pos[OF False] rd by (simp add: Let_def nat_and_not_3 wr32_def set_buf_def)
    qed
  next
    show "uc_put_bin uc key src (int ?n) = (do { (uc, at) \<leftarrow> uc_put uc key (int ?n) ?al;
        (case at of None \<Rightarrow> Some uc | Some at \<Rightarrow> ?fill uc at) })" for uc
      by (simp only: uc_put_bin_def Let_def)
  qed (use pad len in \<open>simp_all add: align4_pad4\<close>)
  then show ?thesis by (simp add: enc_attr_def)
qed

lemma strnlen_text:
  assumes "0 \<notin> set s"
  shows "strnlen (Some (s @ 0 # r)) n = Some (min n (length s))"
  using assms by (simp add: strnlen_def strnlen_loop_cstr)

text \<open>\<open>uc_put_str\<close> sends a string with its terminator, or its first 1024 bytes without one.\<close>

lemma uc_put_str_writer:
  assumes "0 \<notin> set s"
  shows "uc_writer (\<lambda>uc. uc_put_str uc key (Some (s @ 0 # r))) (enc_attr key (take 1024 (s @ [0])))"
proof (cases "length s < 1024")
  case True
  then have "uc_put_str uc key (Some (s @ 0 # r)) = uc_put_bin uc key (s @ 0 # r) (int (length (s @ [0])))" for uc
    using assms by (simp add: uc_put_str_def strnlen_text)
  then show ?thesis using True uc_put_bin_writer[of "s @ 0 # r" "s @ [0]" r key] by simp
next
  case False
  let ?pl = "take 1024 s"
  have len: "length ?pl = 1024" using False by simp
  have "uc_put_str uc key (Some (s @ 0 # r)) = uc_put_bin uc key (s @ 0 # r) (int (length ?pl))" for uc
    using assms False len by (simp add: uc_put_str_def strnlen_text min_def)
  moreover have "uc_writer (\<lambda>uc. uc_put_bin uc key (s @ 0 # r) (int (length ?pl))) (enc_attr key ?pl)"
    by (rule uc_put_bin_writer[of _ _ "drop 1024 s @ 0 # r"]) (simp_all add: len flip: append.assoc)
  ultimately show ?thesis using False by simp
qed

lemma uc_put_strn_writer:
  assumes "0 \<notin> set s" and "s = fld \<or> (\<exists>r. fld = s @ 0 # r)" and "length s \<le> n" and "s = fld \<Longrightarrow> length s = n"
    and "length s < 65535"
  shows "uc_writer (\<lambda>uc. uc_put_strn uc key (Some fld) n) (enc_attr key (s @ [0]))"
proof -
  let ?n = "length s" and ?al = "align4 (int (length s) + 1)"
  let ?h = "w16 (int (length s) + 1 + 4) @ w16 key" and ?z = "replicate (4 - length s mod 4) (0 :: byte)"
  let ?fill = "\<lambda>uc at. do {
     let dst = at + 4;
     m \<leftarrow> (if ?al > int ?n then wr32 (uc_buf uc) (dst + nat (int ?n AND (NOT 3))) 0 else Some (uc_buf uc));
     s \<leftarrow> rds fld 0 ?n;
     m \<leftarrow> wrs m dst s;
     m \<leftarrow> wr m (dst + ?n) 0;
     Some (set_buf uc m) }"
  have al: "?al = int (?n - ?n mod 4 + 4)"
  proof -
    have "?al = 4 * ((int ?n + 4) div 4)" by (simp add: align4_eq)
    also have "\<dots> = int (4 * (?n div 4) + 4)" by presburger
    finally show ?thesis by (simp only: minus_mod_eq_mult_div)
  qed
  have gt: "?al > int ?n" unfolding al by presburger
  have z: "?z = 0 # replicate (3 - ?n mod 4) 0"
  proof -
    have "4 - ?n mod 4 = Suc (3 - ?n mod 4)" by presburger
    then show ?thesis by simp
  qed
  have rd: "rds fld 0 ?n = Some s"
    using assms(2) rds_append[of "[]" 0 s ?n] by (auto simp: rds_def)
  have sl: "strnlen (Some fld) n = Some ?n"
    using assms(1-4) strnlen_text[of s _ n] strnlen_loop_field[of n fld]
    by (auto simp: strnlen_def intro!: arg_cong[of _ _ length] takeWhile_eq_all_conv[THEN iffD2])
  have "uc_writer (\<lambda>uc. uc_put_strn uc key (Some fld) n) (?h @ s @ ?z)"
  proof (rule put_fill_writer[where alloc = ?al and fill = ?fill])
    fix uc cmd b t
    assume raw: "ucraw uc cmd (b @ ?h @ t)" and t: "length t = nat ?al"
    have t': "length t = ?n - ?n mod 4 + 4" using t unfolding al by (simp only: nat_int)
    obtain m1 m2 where m: "wrs (uc_buf uc) (4 + length b + 4 + (?n - ?n mod 4)) (le_bytes 4 (0 :: u32)) = Some m1"
        "wrs m1 (4 + length b + 4) s = Some m2" and r2: "ucraw (set_buf uc m2) cmd (b @ ?h @ s @ ?z)"
      using zero_tail_fill[OF _ raw t' refl] by auto
    have "ucraw (set_buf uc m2) cmd ((b @ ?h @ s) @ [0] @ replicate (3 - ?n mod 4) 0)"
      using r2 z by simp
    then obtain m3 where "wrs m2 (4 + length (b @ ?h @ s)) [0] = Some m3"
        "ucraw (set_buf uc m3) cmd ((b @ ?h @ s) @ [0] @ replicate (3 - ?n mod 4) 0)"
      by (rule ucraw_wrs[where z = "[0]"]) (auto simp: set_buf_def)
    then show "\<exists>uc'. ?fill uc (4 + length b) = Some uc' \<and>
        ucraw uc' cmd (b @ ?h @ s @ ?z) \<and> uc_len uc' = uc_len uc"
      using m rd gt z by (simp add: Let_def nat_and_not_3 wr32_def set_buf_def wr_wrs algebra_simps)
  next
    show "uc_put_strn uc key (Some fld) n = (do { (uc, at) \<leftarrow> uc_put uc key (int ?n + 1) ?al;
        (case at of None \<Rightarrow> Some uc | Some at \<Rightarrow> ?fill uc at) })" for uc
      by (simp only: uc_put_strn_def Let_def sl bind.bind_lunit option.case)
  qed (use assms(5) al in simp_all)
  then show ?thesis by (simp add: enc_attr_def z pad4_Suc add.commute)
qed

end
