(* ===== verification/Ucproto.thy ===== *)
theory Ucproto
  imports Nlusctl
begin

text \<open>
  The control protocol end to end: nested attributes, what the reader finds in a message the
  builder made, and that a message survives the trip from one buffer to another.
\<close>

section \<open>Nested attributes\<close>

definition enc_nest :: "int \<Rightarrow> byte list \<Rightarrow> byte list" where
  "enc_nest key e = w16 (int (length e) + 4) @ w16 key @ e"

lemma end_nest:
  assumes raw: "ucraw uc cmd (b @ w16 x @ w16 key @ e)"
  obtains uc' where "uc_end_nest uc (Some (4 + length b)) = Some uc'"
    and "ucraw uc' cmd (b @ enc_nest key e)" and "uc_len uc' = uc_len uc"
proof -
  have len: "at_len (uc_buf uc) 0 = Some (8 + int (length b) + int (length e))"
    using ucraw_len[OF raw] by simp
  have cap: "8 + int (length b) + int (length e) \<le> uc_len uc" using raw by (simp add: ucraw_def)
  let ?v = "8 + int (length b) + int (length e) - int (4 + length b)"
  obtain m where "wrs (uc_buf uc) (4 + length b) (w16 (int (length e) + 4)) = Some m"
    and raw': "ucraw (set_buf uc m) cmd (b @ w16 (int (length e) + 4) @ w16 key @ e)"
    by (rule ucraw_wrs[OF raw, of "w16 (int (length e) + 4)"]) auto
  moreover have "?v = int (length e) + 4" by simp
  ultimately have "set_len (uc_buf uc) (4 + length b) ?v = Some m"
    by (simp only: set_len_def wr16_def w16_def)
  then have "uc_end_nest uc (Some (4 + length b)) = Some (set_buf uc m)"
    using cap by (simp add: uc_end_nest_def len)
  then show ?thesis using raw' that by (simp add: enc_nest_def set_buf_def)
qed

lemma end_nest_overflowed: "overflowed uc \<Longrightarrow> uc_end_nest uc at = Some uc"
  by (auto simp: uc_end_nest_def overflowed_def split: option.splits)

text \<open>A nest around a writer is again a writer.\<close>

lemma uc_nest_writer:
  assumes "uc_writer f e"
  shows "uc_writer (uc_nest key f) (enc_nest key e)"
proof
  fix uc cmd b
  assume raw: "ucraw uc cmd b" and fit: "fits uc b (enc_nest key e)"
  then have "room uc b 0" by (simp add: fits_def room_def enc_nest_def)
  then obtain uc1 t where 1: "uc_put uc key 0 0 = Some (uc1, Some (4 + length b))"
    and raw1: "ucraw uc1 cmd (b @ w16 (0 + 4) @ w16 key @ t)" "length t = nat 0" "uc_len uc1 = uc_len uc"
    by (rule uc_put_ok[OF raw order.refl])
  have "ucraw uc1 cmd (b @ w16 4 @ w16 key)" using raw1 by simp
  from uc_writer.ok[OF assms this] obtain uc2 where 2: "f uc1 = Some uc2"
      "ucraw uc2 cmd (b @ w16 4 @ w16 key @ e)" "uc_len uc2 = uc_len uc"
    using fit raw1 by (auto simp: fits_def enc_nest_def)
  obtain uc' where "uc_end_nest uc2 (Some (4 + length b)) = Some uc'"
      "ucraw uc' cmd (b @ enc_nest key e)" "uc_len uc' = uc_len uc2"
    by (rule end_nest[OF 2(2)])
  then show "\<exists>uc'. uc_nest key f uc = Some uc' \<and> ucraw uc' cmd (b @ enc_nest key e) \<and> uc_len uc' = uc_len uc"
    using 1 2 by (simp add: uc_nest_def uc_put_nest_def)
next
  fix uc cmd b
  assume raw: "ucraw uc cmd b" and nofit: "\<not> fits uc b (enc_nest key e)"
  show "\<exists>uc'. uc_nest key f uc = Some uc' \<and> overflowed uc' \<and> uc_len uc' = uc_len uc"
  proof (cases "room uc b 0")
    case True
    obtain uc1 t where 1: "uc_put uc key 0 0 = Some (uc1, Some (4 + length b))"
      and raw1: "ucraw uc1 cmd (b @ w16 (0 + 4) @ w16 key @ t)" "length t = nat 0" "uc_len uc1 = uc_len uc"
      by (rule uc_put_ok[OF raw order.refl True])
    have "ucraw uc1 cmd (b @ w16 4 @ w16 key)" using raw1 by simp
    from uc_writer.over[OF assms this] obtain uc2 where "f uc1 = Some uc2"
        "overflowed uc2" "uc_len uc2 = uc_len uc"
      using nofit raw1 by (auto simp: fits_def enc_nest_def)
    then show ?thesis using 1 end_nest_overflowed by (auto simp: uc_nest_def uc_put_nest_def)
  next
    case False
    obtain uc1 where "uc_put uc key 0 0 = Some (uc1, None)" "overflowed uc1" "uc_len uc1 = uc_len uc"
      using uc_put_over[OF raw _ _ False] by auto
    then show ?thesis using uc_writer.sticky[OF assms] end_nest_overflowed
      by (auto simp: uc_nest_def uc_put_nest_def)
  qed
next
  fix uc
  assume "overflowed uc"
  then show "uc_nest key f uc = Some uc"
    using uc_put_sticky uc_writer.sticky[OF assms] end_nest_overflowed
    by (auto simp: uc_nest_def uc_put_nest_def)
qed

section \<open>The reader finds what the builder wrote\<close>

definition body :: "(int \<times> byte list) list \<Rightarrow> byte list" where
  "body as = concat (map (\<lambda>(k, pl). enc_attr k pl) as)"

definition keys_ok :: "(int \<times> byte list) list \<Rightarrow> bool" where
  "keys_ok as \<longleftrightarrow> (\<forall>k \<in> fst ` set as. 0 \<le> k \<and> k \<le> 65535)"

fun attr_off :: "(int \<times> byte list) list \<Rightarrow> int \<Rightarrow> nat option" where
  "attr_off [] key = None"
| "attr_off ((k, pl) # as) key =
     (if k = key then Some 0 else map_option (\<lambda>n. length (enc_attr k pl) + n) (attr_off as key))"

lemma body_simps [simp]: "body [] = []" "body ((k, pl) # as) = enc_attr k pl @ body as"
  by (simp_all add: body_def)

lemma attr_here:
  assumes "m = pre @ enc_attr k pl @ rest" and "length pl \<le> 65531" and "0 \<le> k" and "k \<le> 65535"
  shows "at_len m (length pre) = Some (int (length pl) + 4)" and "at_key m (length pre) = Some k"
    and "rds m (length pre + 4) (length pl) = Some pl"
  using assms at_len_w16[of pre "length pre" "int (length pl) + 4" "w16 k @ pl @ replicate (pad4 (length pl)) 0 @ rest"]
    at_key_w16[of "pre @ w16 (int (length pl) + 4)" "length pre" k "pl @ replicate (pad4 (length pl)) 0 @ rest"]
    rds_append[of "pre @ w16 (int (length pl) + 4) @ w16 k" "length pre + 4" pl "length pl"
      "replicate (pad4 (length pl)) 0 @ rest"]
  by (simp_all add: enc_attr_def)

lemma attr_in_body:
  assumes "m = pre @ body as @ rest" and "length (body as) \<le> 65531" and "keys_ok as"
  shows "attr_in m (length pre) (length pre + length (body as)) =
    Some (if as = [] then None else Some (length pre))"
proof (cases as)
  case (Cons a as')
  obtain k pl where "a = (k, pl)" by (cases a)
  then have "at_len m (length pre) = Some (int (length pl) + 4)"
    using assms Cons by (intro attr_here(1)[of _ _ k _ "body as' @ rest"]) (auto simp: keys_ok_def enc_attr_length)
  then show ?thesis using Cons \<open>a = (k, pl)\<close> by (simp add: attr_in_def enc_attr_length)
qed (simp add: attr_in_def)

lemma uc_get_from_body:
  assumes "m = pre @ body as @ rest" and "length (body as) \<le> 65531" and "keys_ok as"
    and "at_len m msg = Some mlen" and "msg + nat mlen = length pre + length (body as)"
  shows "uc_get_from m msg key (if as = [] then None else Some (length pre)) =
    Some (map_option (\<lambda>n. length pre + n) (attr_off as key))"
  using assms
proof (induction as arbitrary: pre)
  case Nil
  then show ?case by (simp add: uc_get_from.simps)
next
  case (Cons a as)
  obtain k pl where a: "a = (k, pl)" by (cases a)
  have k: "0 \<le> k" "k \<le> 65535" "keys_ok as" using Cons.prems(3) a by (auto simp: keys_ok_def)
  have pl: "length pl \<le> 65531" using Cons.prems(2) a by (simp add: enc_attr_length)
  have m: "m = pre @ enc_attr k pl @ body as @ rest" using Cons.prems(1) a by simp
  note here = attr_here[OF m pl k(1,2)]
  let ?pre = "pre @ enc_attr k pl"
  have next_at: "length pre + nat (align4 (int (length pl) + 4)) = length ?pre"
  proof -
    have "pad4 (length pl + 4) = pad4 (length pl)" by (simp add: pad4_def)
    then have "align4 (int (length pl) + 4) = int (length pl + 4 + pad4 (length pl))"
      using align4_pad4[of "length pl + 4"] by simp
    then have "nat (align4 (int (length pl) + 4)) = length pl + 4 + pad4 (length pl)"
      by (simp only: nat_int)
    then show ?thesis by (simp add: enc_attr_length)
  qed
  have "uc_get_n m msg (length pre) = Some (if as = [] then None else Some (length ?pre))"
    using attr_in_body[of m ?pre as rest] Cons.prems k(3) m a here(1) next_at
    by (auto simp: uc_get_n_def add.assoc)
  moreover have "uc_get_from m msg key (if as = [] then None else Some (length ?pre)) =
      Some (map_option (\<lambda>n. length ?pre + n) (attr_off as key))"
    using Cons.IH[of ?pre] Cons.prems k(3) a by simp
  ultimately show ?case using here(2) a
    by (subst uc_get_from.simps) (auto simp: option.map_comp comp_def add.assoc)
qed

text \<open>\<open>msg_at m msg cmd as\<close>: a well-formed message with the attributes \<open>as\<close> lies at \<open>msg\<close>.\<close>

definition msg_at :: "mem \<Rightarrow> nat \<Rightarrow> int \<Rightarrow> (int \<times> byte list) list \<Rightarrow> bool" where
  "msg_at m msg cmd as \<longleftrightarrow> (\<exists>pre rest. length pre = msg \<and>
     m = pre @ w16 (4 + int (length (body as))) @ w16 cmd @ body as @ rest) \<and>
     length (body as) \<le> 65531 \<and> keys_ok as"

lemma uc_get_off:
  assumes "msg_at m msg cmd as"
  shows "uc_get m msg key = Some (map_option (\<lambda>n. msg + 4 + n) (attr_off as key))"
proof -
  obtain pre rest where pre: "length pre = msg"
    and m: "m = pre @ w16 (4 + int (length (body as))) @ w16 cmd @ body as @ rest"
    and len: "length (body as) \<le> 65531" and keys: "keys_ok as"
    using assms by (auto simp: msg_at_def)
  let ?pre = "pre @ w16 (4 + int (length (body as))) @ w16 cmd"
  have l: "at_len m msg = Some (4 + int (length (body as)))"
    using at_len_w16[OF pre] m len by simp
  have m': "m = ?pre @ body as @ rest" using m by simp
  have "uc_get_0 m msg = Some (if as = [] then None else Some (length ?pre))"
    using attr_in_body[OF m' len keys] by (simp add: uc_get_0_def l pre nat_add_distrib add.assoc)
  moreover have "uc_get_from m msg key (if as = [] then None else Some (length ?pre)) =
      Some (map_option (\<lambda>n. length ?pre + n) (attr_off as key))"
    by (rule uc_get_from_body[OF m' len keys l]) (simp add: pre nat_add_distrib)
  ultimately show ?thesis by (simp add: uc_get_def pre)
qed

lemma attr_off_split:
  assumes "attr_off as key = Some n"
  obtains as1 pl as2 where "as = as1 @ (key, pl) # as2" and "n = length (body as1)" and "map_of as key = Some pl"
proof -
  have "\<exists>as1 pl as2. as = as1 @ (key, pl) # as2 \<and> n = length (body as1) \<and> map_of as key = Some pl"
    using assms
  proof (induction as arbitrary: n)
    case (Cons a as)
    obtain k pl where a: "a = (k, pl)" by (cases a)
    show ?case
    proof (cases "k = key")
      case True
      then have "a # as = [] @ (key, pl) # as \<and> n = length (body []) \<and> map_of (a # as) key = Some pl"
        using Cons.prems a by simp
      then show ?thesis by blast
    next
      case False
      then obtain n' where "attr_off as key = Some n'" "n = length (enc_attr k pl) + n'"
        using Cons.prems a by auto
      with Cons.IH obtain as1 pl' as2 where
        "as = as1 @ (key, pl') # as2" "n' = length (body as1)" "map_of as key = Some pl'"
        by blast
      then show ?thesis using False a \<open>n = length (enc_attr k pl) + n'\<close>
        by (intro exI[of _ "(k, pl) # as1"]) auto
    qed
  qed simp
  then show ?thesis using that by blast
qed

lemma attr_off_None: "attr_off as key = None \<longleftrightarrow> map_of as key = None"
  by (induction as) auto

lemma body_append [simp]: "body (as @ bs) = body as @ body bs"
  by (simp add: body_def)


text \<open>What \<open>uc_get\<close> finds is the first attribute with the key, and its payload can be read.\<close>

lemma uc_get_payload:
  assumes msg: "msg_at m msg cmd as" and "map_of as key = Some pl"
  obtains at where "uc_get m msg key = Some (Some at)" and "at_key m at = Some key"
    and "uc_paylen m at = Some (int (length pl))" and "rds m (uc_payload at) (length pl) = Some pl"
proof -
  obtain n where n: "attr_off as key = Some n" using assms(2) attr_off_None[of as key] by auto
  obtain as1 pl' as2 where as: "as = as1 @ (key, pl') # as2" "n = length (body as1)" and "map_of as key = Some pl'"
    using n by (rule attr_off_split)
  then have pl': "pl' = pl" using assms(2) by simp
  obtain pre rest where pre: "length pre = msg"
    and m: "m = pre @ w16 (4 + int (length (body as))) @ w16 cmd @ body as @ rest"
    and len: "length (body as) \<le> 65531" and keys: "keys_ok as"
    using msg by (auto simp: msg_at_def)
  let ?pre = "pre @ w16 (4 + int (length (body as))) @ w16 cmd @ body as1"
  have m': "m = ?pre @ enc_attr key pl @ body as2 @ rest" using m as(1) pl' by simp
  have "length pl \<le> 65531" "0 \<le> key" "key \<le> 65535"
    using len keys as(1) pl' by (auto simp: enc_attr_length keys_ok_def)
  note here = attr_here[OF m' this]
  have at: "msg + 4 + n = length ?pre" using pre as(2) by simp
  show ?thesis
  proof (rule that)
    show "uc_get m msg key = Some (Some (length ?pre))" using uc_get_off[OF msg] n at by simp
    show "at_key m (length ?pre) = Some key" by (rule here(2))
    show "uc_paylen m (length ?pre) = Some (int (length pl))" using here(1) by (simp add: uc_paylen_def)
    show "rds m (uc_payload (length ?pre)) (length pl) = Some pl"
      unfolding uc_payload_def by (rule here(3))
  qed
qed

lemma ucraw_msg_at: "ucraw uc cmd (body as) \<Longrightarrow> keys_ok as \<Longrightarrow> msg_at (uc_buf uc) 0 cmd as"
  by (auto simp: ucraw_def msg_at_def)

text \<open>A sequence of attributes put one after the other with \<open>uc_put_bin\<close>.\<close>

fun put_all :: "(int \<times> byte list) list \<Rightarrow> ucbuf \<Rightarrow> ucbuf option" where
  "put_all [] uc = Some uc"
| "put_all ((k, pl) # as) uc = do { uc \<leftarrow> uc_put_bin uc k pl (int (length pl)); put_all as uc }"

lemma put_all_writer:
  assumes "\<forall>(k, pl) \<in> set as. length pl < 65536"
  shows "uc_writer (put_all as) (body as)"
  using assms
proof (induction as)
  case Nil
  have "uc_writer Some []" by unfold_locales (auto simp: fits_def ucraw_def)
  moreover have "put_all [] = Some" by (rule ext) simp
  ultimately show ?case by simp
next
  case (Cons a as)
  obtain k pl where a: "a = (k, pl)" by (cases a)
  have "put_all (a # as) = uc_seq (\<lambda>uc. uc_put_bin uc k pl (int (length pl))) (put_all as)"
    by (rule ext) (simp add: uc_seq_def a)
  then show ?case
    using uc_seq_writer[OF uc_put_bin_writer[of pl pl "[]" k] Cons.IH] Cons.prems a by simp
qed

lemma uc_put_hdr_raw:
  assumes "4 \<le> len" and "len \<le> int (length buf)" and "len < 2147418107"
  obtains uc where "uc_put_hdr (uc_buf_set buf len) cmd = Some uc" and "ucraw uc cmd []" and "uc_len uc = len"
proof -
  have "2 \<le> length buf" using assms by simp
  then obtain h1 r where h1: "buf = h1 @ r" "length h1 = 2" "length r = length buf - 2"
    by (rule split_at)
  then have "2 \<le> length r" using assms by simp
  then obtain h2 rest where h2: "r = h2 @ rest" "length h2 = 2" by (rule split_at)
  have buf: "buf = h1 @ h2 @ rest" "length h1 = 2" "length h2 = 2" using h1(1,2) h2 by auto
  have "set_key buf 0 cmd = Some (h1 @ w16 cmd @ rest)"
    using set_key_append[of h1 0 h2 rest cmd] buf by simp
  moreover have "set_len (h1 @ w16 cmd @ rest) 0 4 = Some (w16 4 @ w16 cmd @ rest)"
    using set_len_append[of "[]" 0 h1 "w16 cmd @ rest" 4] buf by simp
  ultimately have "uc_put_hdr (uc_buf_set buf len) cmd =
      Some (set_buf (uc_buf_set buf len) (w16 4 @ w16 cmd @ rest))"
    by (simp add: uc_put_hdr_def uc_buf_set_def)
  then show ?thesis
    using assms buf that by (auto simp: ucraw_def set_buf_def uc_buf_set_def)
qed

section \<open>Properties\<close>

text \<open>A message built from scratch, and a packet delivered into a receiver's buffer.\<close>

definition uc_build :: "mem \<Rightarrow> int \<Rightarrow> int \<Rightarrow> (int \<times> byte list) list \<Rightarrow> ucbuf option" where
  "uc_build buf len cmd as = do { uc \<leftarrow> uc_put_hdr (uc_buf_set buf len) cmd; put_all as uc }"

definition uc_deliver :: "byte list \<Rightarrow> mem \<Rightarrow> (mem \<times> nat option) option" where
  "uc_deliver bs rb = do { m \<leftarrow> wrs rb 2 bs; uc_msg m (int (length bs)) }"

lemma build_cases:
  assumes "4 \<le> len" and "len \<le> int (length buf)" and "len < 2147418107"
    and "\<forall>(k, pl) \<in> set as. length pl < 65536"
  obtains uc where "uc_build buf len cmd as = Some uc" and "uc_len uc = len"
    and "if 4 + length (body as) \<le> 65535 \<and> int (4 + length (body as)) \<le> len
         then ucraw uc cmd (body as) else overflowed uc"
proof -
  obtain uc0 where uc0: "uc_put_hdr (uc_buf_set buf len) cmd = Some uc0" "ucraw uc0 cmd []" "uc_len uc0 = len"
    by (rule uc_put_hdr_raw[OF assms(1-3)])
  note w = put_all_writer[OF assms(4)]
  show ?thesis
  proof (cases "fits uc0 [] (body as)")
    case True
    then show ?thesis using uc_writer.ok[OF w uc0(2) True] uc0 that
      by (auto simp: uc_build_def fits_def)
  next
    case False
    then show ?thesis using uc_writer.over[OF w uc0(2) False] uc0 that
      by (auto simp: uc_build_def fits_def)
  qed
qed

lemma deliver_raw:
  assumes raw: "ucraw uc cmd (body as)" and "keys_ok as" and rb: "4 + length (body as) \<le> length rb"
  obtains bs m where "uc_iov_hdr uc = Some (Inr bs)" and "uc_deliver bs rb = Some (m, Some 0)"
    and "msg_at m 0 cmd as"
proof -
  obtain rest where buf: "uc_buf uc = w16 (4 + int (length (body as))) @ w16 cmd @ body as @ rest"
    and len: "4 + length (body as) \<le> 65535" and cap: "int (4 + length (body as)) \<le> uc_len uc"
    by (rule ucrawE[OF raw])
  let ?bs = "w16 cmd @ body as"
  have hdr: "uc_iov_hdr uc = Some (Inr ?bs)"
    using cap rds_append[of "w16 (4 + int (length (body as)))" 2 ?bs _ rest] ucraw_len[OF raw] buf
    by (simp add: uc_iov_hdr_def nat_diff_distrib nat_add_distrib)
  have "2 \<le> length rb" using rb by simp
  then obtain h x where h: "rb = h @ x" "length h = 2" "length x = length rb - 2" by (rule split_at)
  then have "2 + length (body as) \<le> length x" using rb by simp
  then obtain y z where y: "x = y @ z" "length y = 2 + length (body as)" by (rule split_at)
  have "wrs rb 2 ?bs = Some (h @ ?bs @ z)"
    using wrs_append[of h 2 y ?bs z] h(1,2) y by simp
  moreover have "set_len (h @ ?bs @ z) 0 (4 + int (length (body as))) =
      Some (w16 (4 + int (length (body as))) @ ?bs @ z)"
    using set_len_append[of "[]" 0 h] h(2) by simp
  ultimately have "uc_deliver ?bs rb = Some (w16 (4 + int (length (body as))) @ ?bs @ z, Some 0)"
    by (simp add: uc_deliver_def uc_msg_def)
  moreover have "msg_at (w16 (4 + int (length (body as))) @ ?bs @ z) 0 cmd as"
    using len assms(2) by (auto simp: msg_at_def)
  ultimately show ?thesis using hdr that by blast
qed

text \<open>
  C15.  A message survives the protocol: attributes that fit the sender's buffer are built,
  packed, sent without the length field, received into another buffer and given their length
  back; there, a lookup finds the first attribute with the key, with the payload as it was put,
  and finds nothing for a key that was not put.
\<close>

theorem uc_message_roundtrip:
  assumes "len \<le> int (length buf)" and "len < 2147418107" and "4 + int (length (body as)) \<le> len"
    and "length (body as) \<le> 65531" and "keys_ok as" and "4 + length (body as) \<le> length rb"
  shows "\<exists>uc bs m. uc_build buf len cmd as = Some uc \<and> uc_iov_hdr uc = Some (Inr bs) \<and>
    uc_deliver bs rb = Some (m, Some 0) \<and>
    (\<forall>key. case map_of as key of
       None \<Rightarrow> uc_get m 0 key = Some None
     | Some pl \<Rightarrow> \<exists>p. uc_get_bin m 0 key (int (length pl)) = Some (Some p) \<and> rds m p (length pl) = Some pl)"
proof -
  have small: "\<forall>(k, pl) \<in> set as. length pl < 65536"
  proof (clarsimp)
    fix k pl assume "(k, pl) \<in> set as"
    then obtain as1 as2 where "as = as1 @ (k, pl) # as2" by (auto dest: split_list)
    then show "length pl < 65536" using assms(4) by (simp add: enc_attr_length)
  qed
  have "4 \<le> len" using assms(3) by simp
  then obtain uc where "uc_build buf len cmd as = Some uc" "uc_len uc = len"
    "if 4 + length (body as) \<le> 65535 \<and> int (4 + length (body as)) \<le> len
     then ucraw uc cmd (body as) else overflowed uc"
    by (rule build_cases[OF _ assms(1,2) small])
  moreover have "4 + length (body as) \<le> 65535 \<and> int (4 + length (body as)) \<le> len"
    using assms(3,4) by simp
  ultimately have uc: "uc_build buf len cmd as = Some uc" "ucraw uc cmd (body as)" by auto
  obtain bs m where m: "uc_iov_hdr uc = Some (Inr bs)" "uc_deliver bs rb = Some (m, Some 0)" "msg_at m 0 cmd as"
    by (rule deliver_raw[OF uc(2) assms(5,6)])
  have "case map_of as key of None \<Rightarrow> uc_get m 0 key = Some None
      | Some pl \<Rightarrow> \<exists>p. uc_get_bin m 0 key (int (length pl)) = Some (Some p) \<and> rds m p (length pl) = Some pl" for key
  proof (cases "map_of as key")
    case None
    then show ?thesis using uc_get_off[OF m(3)] attr_off_None[of as key] by simp
  next
    case (Some pl)
    then obtain at where "uc_get m 0 key = Some (Some at)" "at_key m at = Some key"
        "uc_paylen m at = Some (int (length pl))" "rds m (uc_payload at) (length pl) = Some pl"
      by (rule uc_get_payload[OF m(3)])
    then show ?thesis using Some by (simp add: uc_get_bin_def uc_is_bin_def)
  qed
  then show ?thesis using uc m by blast
qed

theorem uc_message_roundtrip_witness:
  "\<exists>uc bs m. uc_build (replicate 40 7) 40 5 [(1, [9, 8, 7]), (2, [])] = Some uc \<and>
    uc_iov_hdr uc = Some (Inr bs) \<and> uc_deliver bs (replicate 64 3) = Some (m, Some 0) \<and>
    (\<forall>key. case map_of [(1, [9, 8, 7]), (2, [])] key of
       None \<Rightarrow> uc_get m 0 key = Some None
     | Some pl \<Rightarrow> \<exists>p. uc_get_bin m 0 key (int (length pl)) = Some (Some p) \<and> rds m p (length pl) = Some pl)"
  by (rule uc_message_roundtrip) (simp_all add: enc_attr_length pad4_def keys_ok_def)



text \<open>Lookups in a message from an untrusted peer: every step stays inside the message.\<close>

lemma at_len_total: "p + 2 \<le> length m \<Longrightarrow> \<exists>l. at_len m p = Some l \<and> 0 \<le> l"
  by (simp add: at_len_def rd16_def rds_def)

lemma at_key_total: "p + 4 \<le> length m \<Longrightarrow> \<exists>k. at_key m p = Some k"
  by (simp add: at_key_def rd16_def rds_def)

definition attr_ok :: "mem \<Rightarrow> nat \<Rightarrow> nat \<Rightarrow> bool" where
  "attr_ok m en p \<longleftrightarrow> p + 4 \<le> en \<and> (\<exists>l. at_len m p = Some l \<and> 0 \<le> l \<and> p + nat l \<le> en)"

lemma attr_in_safe:
  assumes "en \<le> length m"
  shows "\<exists>r. attr_in m ptr en = Some r \<and> (\<forall>p. r = Some p \<longrightarrow> attr_ok m en p)"
  using assms at_len_total[of ptr m] by (auto simp: attr_in_def attr_ok_def)

lemma uc_get_from_safe:
  assumes "at_len m msg = Some L" and "msg + nat L \<le> length m"
    and "\<forall>p. at = Some p \<longrightarrow> attr_ok m (msg + nat L) p"
  shows "\<exists>r. uc_get_from m msg key at = Some r \<and>
    (\<forall>p. r = Some p \<longrightarrow> attr_ok m (msg + nat L) p \<and> at_key m p = Some key)"
  using assms
proof (induction m msg key at rule: uc_get_from.induct)
  case (1 m msg key at)
  show ?case
  proof (cases at)
    case None
    then show ?thesis by (simp add: uc_get_from.simps)
  next
    case (Some p)
    with "1.prems" have ok: "attr_ok m (msg + nat L) p" by simp
    then obtain l where l: "at_len m p = Some l" by (auto simp: attr_ok_def)
    obtain k where k: "at_key m p = Some k"
      using at_key_total[of p m] ok "1.prems"(2) by (auto simp: attr_ok_def)
    obtain at' where at': "uc_get_n m msg p = Some at'" "\<forall>q. at' = Some q \<longrightarrow> attr_ok m (msg + nat L) q"
      using attr_in_safe[OF "1.prems"(2), of "p + nat (align4 l)"] "1.prems"(1) l
      by (cases "l \<le> 0") (auto simp: uc_get_n_def)
    show ?thesis
    proof (cases "k = key")
      case True
      then show ?thesis using Some k ok by (subst uc_get_from.simps) simp
    next
      case False
      then show ?thesis
        using "1.IH"[OF Some k False at'(1) "1.prems"(1,2) at'(2)] Some k at'(1)
        by (subst uc_get_from.simps) simp
    qed
  qed
qed

text \<open>
  C16.  Looking up a key in any received message, however malformed, terminates and reads nothing
  outside the message; the attribute it returns has the key and lies wholly inside the message.
\<close>

theorem uc_get_safe:
  assumes "at_len m msg = Some L" and "msg + nat L \<le> length m"
  shows "\<exists>r. uc_get m msg key = Some r \<and>
    (\<forall>p. r = Some p \<longrightarrow> attr_ok m (msg + nat L) p \<and> at_key m p = Some key)"
proof -
  obtain at where "uc_get_0 m msg = Some at" "\<forall>p. at = Some p \<longrightarrow> attr_ok m (msg + nat L) p"
    using attr_in_safe[OF assms(2)] assms(1) by (auto simp: uc_get_0_def)
  then show ?thesis using uc_get_from_safe[OF assms] by (simp add: uc_get_def)
qed

theorem uc_get_safe_witness:
  "\<exists>r. uc_get [12, 0, 1, 0, 1, 0, 7, 0, 200, 0, 9, 0] 0 9 = Some r \<and>
    (\<forall>p. r = Some p \<longrightarrow> attr_ok [12, 0, 1, 0, 1, 0, 7, 0, 200, 0, 9, 0] (0 + nat 12) p \<and>
      at_key [12, 0, 1, 0, 1, 0, 7, 0, 200, 0, 9, 0] p = Some 9)"
  by (rule uc_get_safe) (simp_all add: at_len_def rd16_def rds_def)

text \<open>
  A descriptor put into the control data of a message by \<open>ux_putf1\<close> is what \<open>ux_getf1\<close> takes
  out, and it can be taken out once: afterwards its place holds \<open>-1\<close>.
\<close>

theorem ux_fd_once:
  assumes "length (ux_buf ux) = 64"
  shows "\<exists>ux1 ux2 ux3. ux_putf1 ux fd = Some ux1 \<and> ux_getf1 ux1 = Some (fd, ux2) \<and> ux_getf1 ux2 = Some (- 1, ux3)"
proof -
  let ?b = "ux_buf ux"
  obtain m1 where 1: "wrs ?b 0 (le_bytes 8 (20 :: u64)) = Some m1" "length m1 = 64"
    using wrs_fits[of 0 "le_bytes 8 (20 :: u64)" ?b] assms by auto
  obtain m2 where 2: "wrs m1 8 (le_bytes 4 (1 :: u32)) = Some m2" "length m2 = 64"
    using wrs_fits[of 8 "le_bytes 4 (1 :: u32)" m1] 1(2) by auto
  obtain m3 where 3: "wrs m2 12 (le_bytes 4 (1 :: u32)) = Some m3" "length m3 = 64"
    using wrs_fits[of 12 "le_bytes 4 (1 :: u32)" m2] 2(2) by auto
  obtain m4 where 4: "wrs m3 16 (le_bytes 4 fd) = Some m4" "length m4 = 64"
    using wrs_fits[of 16 "le_bytes 4 fd" m3] 3(2) by auto
  obtain m5 where 5: "wrs m4 16 (le_bytes 4 (- 1 :: u32)) = Some m5" "length m5 = 64"
    using wrs_fits[of 16 "le_bytes 4 (- 1 :: u32)" m4] 4(2) by auto
  obtain m6 where 6: "wrs m5 16 (le_bytes 4 (- 1 :: u32)) = Some m6"
    using wrs_fits[of 16 "le_bytes 4 (- 1 :: u32)" m5] 5(2) by auto
  have hdr: "rds m3 0 8 = Some (le_bytes 8 (20 :: u64))" "rds m3 8 4 = Some (le_bytes 4 (1 :: u32))"
      "rds m3 12 4 = Some (le_bytes 4 (1 :: u32))"
    using wrs_rds[OF 1(1)] wrs_rds[OF 2(1)] wrs_rds[OF 3(1)]
    by (simp_all add: rds_wrs_other[OF 2(1)] rds_wrs_other[OF 3(1)])
  have hdr4: "rds m4 p n = rds m3 p n" and hdr5: "rds m5 p n = rds m3 p n" if "p + n \<le> 16" for p n
    using that by (simp_all add: rds_wrs_other[OF 4(1)] rds_wrs_other[OF 5(1)])
  have fds: "rds m4 16 4 = Some (le_bytes 4 fd)" "rds m5 16 4 = Some (le_bytes 4 (- 1 :: u32))"
    using wrs_rds[OF 4(1)] wrs_rds[OF 5(1)] by simp_all
  show ?thesis
    by (simp add: ux_putf1_def ux_getf1_def wr64_def wr32_def rd64_def rd32_def 1 2 3 4 5 6
        hdr hdr4 hdr5 fds)
qed

theorem ux_fd_once_witness:
  "\<exists>ux1 ux2 ux3. ux_putf1 \<lparr> ux_ptr = 0, ux_buf = replicate 64 0 \<rparr> 5 = Some ux1 \<and>
    ux_getf1 ux1 = Some (5, ux2) \<and> ux_getf1 ux2 = Some (- 1, ux3)"
  by (rule ux_fd_once) simp

text \<open>
  \<open>uc_add_str\<close> does not respect the overflow mark: on a buffer that has already overflowed it
  writes the string over the message header and leaves a nonzero length, so a message that should
  have been dropped passes \<open>uc_iov_hdr\<close> and is sent.
\<close>

theorem uc_add_str_revives:
  "(do { uc1 \<leftarrow> uc_build (replicate 8 0) 8 1 [(2, [1])];
         uc2 \<leftarrow> uc_add_str uc1 (Some (bstr ''abcd'' @ [0]));
         Some (uc_iov_hdr uc1, uc_iov_hdr uc2) }) =
   Some (Some (Inl (- ENOBUFS)), Some (Inr (bstr ''cd'' @ [0])))"
  by code_simp

end
