(* ===== verification/Fmt.thy ===== *)
theory Fmt
  imports Cstring
begin

text \<open>
  The formatters of \<^verbatim>\<open>lib/format\<close>: functions \<open>p = fmtX(p, e, value)\<close> that append text to a
  buffer at \<open>p\<close>, never at or beyond \<open>e\<close>.  A formatter maps the buffer and the offsets \<open>p\<close>, \<open>e\<close> to
  the new buffer and offset, or to \<open>None\<close> when it writes outside the buffer.
\<close>

type_synonym fmt = "mem \<Rightarrow> nat \<Rightarrow> nat \<Rightarrow> (mem \<times> nat) option"

section \<open>Definitions\<close>

subsection \<open>Characters and raw data\<close>

definition fmtchar :: "byte \<Rightarrow> fmt" where
  "fmtchar c m p e = (if p < e then map_option (\<lambda>m. (m, p + 1)) (wr m p c) else Some (m, p))"

definition hexdig :: "nat \<Rightarrow> byte" where
  "hexdig n = bstr ''0123456789ABCDEF'' ! n"

definition fmtbyte :: "byte \<Rightarrow> fmt" where
  "fmtbyte c m p e = do {
     (m, p) \<leftarrow> (if p < e then map_option (\<lambda>m. (m, p + 1)) (wr m p (hexdig (unat (drop_bit 4 c AND 15))))
                 else Some (m, p));
     (if p < e then map_option (\<lambda>m. (m, p + 1)) (wr m p (hexdig (unat (drop_bit 0 c AND 15))))
      else Some (m, p)) }"

fun fmtbytes :: "byte list \<Rightarrow> fmt" where
  "fmtbytes [] m p e = Some (m, p)"
| "fmtbytes (b # val) m p e = do { (m, p) \<leftarrow> fmtbyte b m p e; fmtbytes val m p e }"

definition fmtraw :: "byte list \<Rightarrow> int \<Rightarrow> fmt" where
  "fmtraw data len m p e =
     (let len = (if len > int e - int p then int e - int p else len)
      in if len \<le> 0 then Some (m, p)
         else if nat len \<le> length data
         then map_option (\<lambda>m. (m, p + nat len)) (wrs m p (take (nat len) data))
         else None)"

definition fmtstr :: "byte list option \<Rightarrow> fmt" where
  "fmtstr str m p e =
     (if p \<ge> e then Some (m, p)
      else do {
        len \<leftarrow> strnlen str (e - p);
        fmtraw (case str of None \<Rightarrow> [] | Some s \<Rightarrow> s) (int len) m p e })"

definition fmtstrn :: "byte list option \<Rightarrow> nat \<Rightarrow> fmt" where
  "fmtstrn src n m p e = do {
     len \<leftarrow> strnlen src n;
     fmtraw (case src of None \<Rightarrow> [] | Some s \<Rightarrow> s) (int len) m p e }"

text \<open>\<open>fmtstre\<close> takes the string and its end as offsets into one object \<open>str\<close>.\<close>

definition fmtstre :: "byte list \<Rightarrow> nat option \<Rightarrow> nat option \<Rightarrow> fmt" where
  "fmtstre obj str en m p e =
     fmtraw (case str of None \<Rightarrow> [] | Some s \<Rightarrow> drop s obj) (int (strelen str en)) m p e"

subsection \<open>Numbers\<close>

text \<open>
  \<open>for(len = 1, n = num; n >= base; len++) n /= base\<close>, and the loop that stores the digits from the
  last one down.  The quantities are unsigned, so their division is that of the naturals.
\<close>

fun numlen :: "nat \<Rightarrow> nat \<Rightarrow> nat" where
  "numlen b n = (if b \<ge> 2 \<and> n \<ge> b then numlen b (n div b) + 1 else 1)"

declare numlen.simps [simp del]

fun put_digits :: "nat \<Rightarrow> mem \<Rightarrow> nat \<Rightarrow> nat \<Rightarrow> nat \<Rightarrow> nat \<Rightarrow> mem option" where
  "put_digits b m p en 0 num = Some m"
| "put_digits b m p en (Suc i) num = do {
     m \<leftarrow> (if p < en then wr m p (hexdig (num mod b)) else Some m);
     put_digits b m (p - 1) en i (num div b) }"

definition fmtint64 :: "bool \<Rightarrow> u64 \<Rightarrow> fmt" where
  "fmtint64 neg num m buf en =
     (let len = numlen 10 (unat num);
          e = buf + len + (if neg then 1 else 0)
      in do {
        m \<leftarrow> put_digits 10 m (e - 1) en len (unat num);
        m \<leftarrow> (if neg then wr m (e - 1 - len) (ch CHR ''-'') else Some m);
        Some (m, if e > en then en else e) })"

definition fmti64 :: "u64 \<Rightarrow> fmt" where
  "fmti64 num m buf en = fmtint64 (sint num < 0) (if sint num < 0 then - num else num) m buf en"

definition fmtu64 :: "u64 \<Rightarrow> fmt" where
  "fmtu64 num m buf en = fmtint64 False num m buf en"

text \<open>
  On a 64-bit target the negation of \<open>fmti32\<close> happens in 32 bits and its result is sign-extended
  to the 64-bit argument.
\<close>

definition fmti32 :: "u32 \<Rightarrow> fmt" where
  "fmti32 num m buf en =
     fmtint64 (sint num < 0) (if sint num < 0 then signed (- num) else signed num) m buf en"

definition fmtu32 :: "u32 \<Rightarrow> fmt" where
  "fmtu32 num m buf en = fmtint64 False (unsigned num) m buf en"

abbreviation fmtint :: "u32 \<Rightarrow> fmt" where "fmtint \<equiv> fmti32"
abbreviation fmtuint :: "u32 \<Rightarrow> fmt" where "fmtuint \<equiv> fmtu32"
abbreviation fmtlong :: "u64 \<Rightarrow> fmt" where "fmtlong \<equiv> fmti64"
abbreviation fmtulong :: "u64 \<Rightarrow> fmt" where "fmtulong \<equiv> fmtu64"

definition fmtulp :: "u64 \<Rightarrow> nat \<Rightarrow> fmt" where
  "fmtulp num pad m buf en =
     (let len = max (numlen 10 (unat num)) pad
      in do {
        m \<leftarrow> put_digits 10 m (buf + len - 1) en len (unat num);
        Some (m, buf + len) })"

definition fmthex :: "u32 \<Rightarrow> fmt" where
  "fmthex num m buf en =
     (let len = numlen 16 (unat num)
      in do {
        m \<leftarrow> put_digits 16 m (buf + len - 1) en len (unat num);
        Some (m, buf + len) })"

definition fmtx64 :: "u64 \<Rightarrow> fmt" where
  "fmtx64 num m buf en =
     (let len = numlen 16 (unat num); e = buf + len
      in do {
        m \<leftarrow> put_digits 16 m (e - 1) en len (unat num);
        Some (m, if e < en then e else en) })"

definition fmtx32 :: "u32 \<Rightarrow> fmt" where
  "fmtx32 num m buf en =
     (let len = numlen 16 (unat num); e = buf + len
      in do {
        m \<leftarrow> put_digits 16 m (e - 1) en len (unat num);
        Some (m, if e < en then e else en) })"

abbreviation fmtxlong :: "u64 \<Rightarrow> fmt" where "fmtxlong \<equiv> fmtx64"

definition fmtxint :: "u32 \<Rightarrow> fmt" where
  "fmtxint num = fmtx64 (unsigned num)"

subsection \<open>Composite formatters\<close>

text \<open>\<open>p = f(p, e, \<dots>); p = g(p, e, \<dots>);\<close>\<close>

definition fseq :: "fmt \<Rightarrow> fmt \<Rightarrow> fmt" where
  "fseq f g m p e = do { (m, p) \<leftarrow> f m p e; g m p e }"

definition fnop :: fmt where
  "fnop m p e = Some (m, p)"

definition fmtip :: "byte list \<Rightarrow> fmt" where
  "fmtip ip =
     fseq (fmtint (unsigned (ip ! 0))) (fseq (fmtchar (ch CHR ''.''))
     (fseq (fmtint (unsigned (ip ! 1))) (fseq (fmtchar (ch CHR ''.''))
     (fseq (fmtint (unsigned (ip ! 2))) (fseq (fmtchar (ch CHR ''.''))
      (fmtint (unsigned (ip ! 3))))))))"

fun fmtmac_loop :: "byte list \<Rightarrow> nat \<Rightarrow> nat \<Rightarrow> fmt" where
  "fmtmac_loop mac i 0 = fnop"
| "fmtmac_loop mac i (Suc k) =
     fseq (fmtchar (ch CHR '':'')) (fseq (fmtbyte (mac ! i)) (fmtmac_loop mac (i + 1) k))"

definition fmtmac :: "byte list \<Rightarrow> fmt" where
  "fmtmac mac = fseq (fmtbyte (mac ! 0)) (fmtmac_loop mac 1 5)"

record tm =
  tm_sec :: int
  tm_min :: int
  tm_hour :: int
  tm_mday :: int
  tm_mon :: int
  tm_year :: int
  tm_wday :: int
  tm_yday :: int
  tm_isdst :: int

definition fmttm :: "tm \<Rightarrow> fmt" where
  "fmttm tm =
     fseq (fmtulp (word_of_int (tm_year tm + 1900)) 4) (fseq (fmtchar (ch CHR ''-''))
     (fseq (fmtulp (word_of_int (tm_mon tm + 1)) 2) (fseq (fmtchar (ch CHR ''-''))
     (fseq (fmtulp (word_of_int (tm_mday tm)) 2) (fseq (fmtchar (ch CHR '' ''))
     (fseq (fmtulp (word_of_int (tm_hour tm)) 2) (fseq (fmtchar (ch CHR '':''))
     (fseq (fmtulp (word_of_int (tm_min tm)) 2) (fseq (fmtchar (ch CHR '':''))
      (fmtulp (word_of_int (tm_sec tm)) 2))))))))))"

text \<open>The scaling loop of \<open>fmtsize\<close>: the mantissa, the last remainder and the suffix index.\<close>

fun size_scale :: "nat \<Rightarrow> nat \<Rightarrow> nat \<Rightarrow> nat \<times> nat \<times> nat" where
  "size_scale n fr sfi =
     (if n \<ge> 1024 \<and> sfi < 5 then size_scale (n div 1024) (n mod 1024) (sfi + 1) else (n, fr, sfi))"

declare size_scale.simps [simp del]

definition size_sfx :: "nat \<Rightarrow> byte" where
  "size_sfx i = bstr '' KMGTP'' ! i"

definition fmtsize :: "u64 \<Rightarrow> fmt" where
  "fmtsize num =
     (let (n, fr, sfi) = size_scale (unat num) 0 0
      in if sfi < 1 then fmtu64 (of_nat n)
         else if sfi = 1 then
           (let n = (if fr \<ge> 512 then n + 1 else n)
            in fseq (fmtu64 (of_nat n)) (fmtchar (size_sfx sfi)))
         else if n < 1024 then
           fseq
             (if n \<ge> 10 then fmti64 (of_nat (if fr \<ge> 512 then n + 1 else n))
              else (let fr = ((fr * 100) div 1024 + 5) div 10;
                        (n, fr) = (if fr \<ge> 10 then (n + 1, 0) else (n, fr))
                    in fseq (fmti64 (of_nat n)) (fseq (fmtchar (ch CHR ''.''))
                         (fmtchar (of_nat (48 + fr))))))
             (fmtchar (size_sfx sfi))
         else
           (let n = (if fr \<ge> 512 then n + 1 else n)
            in fseq (fmtu64 (of_nat n)) (fmtchar (size_sfx 5))))"

subsection \<open>Padding\<close>

text \<open>
  \<open>fmtpad\<close> and \<open>fmtpad0\<close> right-align the text \<open>[p, q)\<close> in a field: a loop moves the text up by
  \<open>shift\<close>, from its last byte down and only below \<open>e\<close>; a second loop fills the gap.
\<close>

fun pad_move :: "mem \<Rightarrow> nat \<Rightarrow> nat \<Rightarrow> nat \<Rightarrow> nat \<Rightarrow> mem option" where
  "pad_move m p e shift 0 = Some m"
| "pad_move m p e shift (Suc k) = do {
     m \<leftarrow> (if p + shift + k < e then do { c \<leftarrow> rd m (p + k); wr m (p + shift + k) c } else Some m);
     pad_move m p e shift k }"

fun pad_fill :: "mem \<Rightarrow> nat \<Rightarrow> byte \<Rightarrow> nat \<Rightarrow> mem option" where
  "pad_fill m p c 0 = Some m"
| "pad_fill m p c (Suc k) = do { m \<leftarrow> wr m (p + k) c; pad_fill m p c k }"

definition fmtpad :: "int \<Rightarrow> nat \<Rightarrow> fmt" where
  "fmtpad width q m p e =
     (if q < p \<or> q > e then Some (m, q)
      else (let shift = width - (int q - int p)
            in if shift < 0 then Some (m, q)
               else do {
                 m \<leftarrow> pad_move m p e (nat shift) (q - p);
                 m \<leftarrow> pad_fill m p (ch CHR '' '') (nat shift);
                 Some (m, q + nat shift) }))"

definition fmtpad0 :: "int \<Rightarrow> nat \<Rightarrow> fmt" where
  "fmtpad0 width q m p e =
     (let shift = width - (int q - int p)
      in if shift \<le> 0 then Some (m, q)
         else do {
           m \<leftarrow> pad_move m p e (nat shift) (q - p);
           m \<leftarrow> pad_fill m p (ch CHR ''0'') (nat shift);
           Some (m, q + nat shift) })"

fun padr_loop :: "mem \<Rightarrow> nat \<Rightarrow> nat \<Rightarrow> (mem \<times> nat) option" where
  "padr_loop m q 0 = Some (m, q)"
| "padr_loop m q (Suc k) = do { m \<leftarrow> wr m q (ch CHR '' ''); padr_loop m (q + 1) k }"

definition fmtpadr :: "int \<Rightarrow> nat \<Rightarrow> fmt" where
  "fmtpadr width q m p e =
     (if q < p \<or> q > e then Some (m, q)
      else padr_loop m q (nat (min (int p + width) (int e) - int q)))"

subsection \<open>Error names\<close>

text \<open>
  \<open>errlist\<close> is a sequence of entries: the error number as one byte, then the terminated name; a
  zero number ends it.
\<close>

function errlist_find :: "byte list \<Rightarrow> int \<Rightarrow> byte list option option" where
  "errlist_find lst err =
     (case lst of
        [] \<Rightarrow> None
      | code # msg \<Rightarrow>
         (case strpend (Some msg) of
            None \<Rightarrow> None
          | Some en \<Rightarrow>
              (case en of
                 None \<Rightarrow> Some None
               | Some n \<Rightarrow>
                   if code = 0 then Some None
                   else if uchar code \<noteq> - err then errlist_find (drop (n + 1) msg) err
                   else Some (Some (take n msg)))))"
  by pat_completeness auto
termination by (relation "measure (\<lambda>(l, e). length l)") auto

declare errlist_find.simps [simp del]

definition fmterr :: "byte list \<Rightarrow> u32 \<Rightarrow> fmt" where
  "fmterr errlist err m p e = do {
     f \<leftarrow> errlist_find errlist (sint err);
     (case f of Some msg \<Rightarrow> fmtraw msg (int (length msg)) m p e
              | None \<Rightarrow> fmtint err m p e) }"

section \<open>What a formatter writes\<close>

text \<open>
  \<open>emit m p e s\<close> is the buffer with the text \<open>s\<close> written at \<open>p\<close> and cut off at \<open>e\<close>;
  \<open>digs b n num\<close> the last \<open>n\<close> digits of a number.
\<close>

definition emit :: "mem \<Rightarrow> nat \<Rightarrow> nat \<Rightarrow> byte list \<Rightarrow> mem" where
  "emit m p e s = take p m @ take (e - p) s @ drop (p + min (e - p) (length s)) m"

fun digs :: "nat \<Rightarrow> nat \<Rightarrow> nat \<Rightarrow> byte list" where
  "digs b 0 num = []"
| "digs b (Suc i) num = digs b i (num div b) @ [hexdig (num mod b)]"

definition dec :: "nat \<Rightarrow> byte list" where
  "dec n = digs 10 (numlen 10 n) n"

definition hex2 :: "byte \<Rightarrow> byte list" where
  "hex2 c = [hexdig (unat c div 16), hexdig (unat c mod 16)]"

lemma digs_length [simp]: "length (digs b i n) = i"
  by (induction i arbitrary: n) auto

lemma emit_length [simp]: "p \<le> e \<Longrightarrow> e \<le> length m \<Longrightarrow> length (emit m p e s) = length m"
  by (auto simp: emit_def min_def)

lemma emit_nth:
  assumes "p \<le> e" and "e \<le> length m" and "i < length m"
  shows "emit m p e s ! i = (if p \<le> i \<and> i < e \<and> i < p + length s then s ! (i - p) else m ! i)"
  using assms by (auto simp: emit_def nth_append min_def)

lemma emit_Nil [simp]: "emit m p e [] = m"
  by (simp add: emit_def)

lemma emit_full: "emit m e e s = m"
  by (simp add: emit_def)

lemma emit_update:
  assumes "p \<le> e" and "e < length m"
  shows "emit (m[e := x]) p e s = (emit m p e s)[e := x]"
  using assms by (intro nth_equalityI) (auto simp: emit_nth nth_list_update)

lemma emit_emit:
  assumes "p \<le> e" and "e \<le> length m"
  shows "emit (emit m p e s) (min e (p + length s)) e t = emit m p e (s @ t)"
proof (cases "p + length s \<le> e")
  case True
  then have "min e (p + length s) = p + length s" by simp
  then show ?thesis using assms True
    by (intro nth_equalityI) (simp_all add: emit_nth nth_append less_diff_conv2)
next
  case False
  then have "min e (p + length s) = e" by simp
  then show ?thesis using False by (simp add: emit_full) (simp add: emit_def)
qed

lemma emit_snoc:
  assumes "buf + length ds < e" and "e \<le> length m"
  shows "emit (m[buf + length ds := d]) buf e ds = emit m buf e (ds @ [d])"
  using assms by (intro nth_equalityI) (auto simp: emit_nth nth_append nth_list_update)

lemma emit_snoc_cut:
  assumes "e \<le> buf + length ds"
  shows "emit m buf e (ds @ [d]) = emit m buf e ds"
  using assms by (auto simp: emit_def min_def)

lemma emit_fits:
  "p + length s \<le> e \<Longrightarrow> emit m p e s = take p m @ s @ drop (p + length s) m"
  by (simp add: emit_def)

lemma put_digits_emit:
  assumes "e \<le> length m"
  shows "put_digits b m (buf + n - 1) e n num = Some (emit m buf e (digs b n num))"
  using assms
proof (induction n arbitrary: m num)
  case (Suc i)
  then show ?case
    using emit_snoc[of buf "digs b i (num div b)" e m] emit_snoc_cut[of e buf "digs b i (num div b)" m]
    by (simp add: wr_def)
qed simp

section \<open>Contracts of formatters\<close>

text \<open>
  The contract of a formatter for the text \<open>s\<close>: it writes \<open>s\<close> cut off at \<open>e\<close> and returns the
  new position, clipped to \<open>e\<close>.  A negative number may also clobber the byte at \<open>e\<close> itself (the
  sign is stored without a bound check), so the general contract leaves that byte open, and asks
  for it to exist; a strict formatter leaves it alone; a fitting one is only good when there is
  room for the whole text.
\<close>

locale fitting_formatter =
  fixes f :: fmt and s :: "byte list"
  assumes fits: "p + length s \<le> e \<Longrightarrow> e \<le> length m \<Longrightarrow>
    f m p e = Some (emit m p e s, p + length s)"

locale formatter =
  fixes f :: fmt and s :: "byte list"
  assumes clips: "p \<le> e \<Longrightarrow> e < length m \<Longrightarrow>
    \<exists>x. f m p e = Some ((emit m p e s)[e := x], min e (p + length s))"
begin

lemma frame:
  assumes "p \<le> e" and "e < length m" and "f m p e = Some (m', p')"
  shows "length m' = length m" and "take p m' = take p m" and "drop (e + 1) m' = drop (e + 1) m"
    and "p \<le> p'" and "p' \<le> e"
proof -
  obtain x where *: "m' = (emit m p e s)[e := x]" "p' = min e (p + length s)"
    using clips[OF assms(1,2)] assms(3) by auto
  show "length m' = length m" "p \<le> p'" "p' \<le> e" using assms * by auto
  show "take p m' = take p m" "drop (e + 1) m' = drop (e + 1) m"
    using assms * by (auto simp: emit_nth nth_list_update intro!: nth_equalityI)
qed

lemma writes:
  assumes "p + length s \<le> e" and "e < length m"
  obtains m' where "f m p e = Some (m', p + length s)" and "take (length s) (drop p m') = s"
proof -
  obtain x where "f m p e = Some ((emit m p e s)[e := x], p + length s)"
    using clips[of p e m] assms by auto
  moreover have "take (length s) (drop p ((emit m p e s)[e := x])) = s"
    using assms by (auto simp: emit_nth nth_list_update intro!: nth_equalityI)
  ultimately show ?thesis by (rule that)
qed

end

locale strict_formatter =
  fixes f :: fmt and s :: "byte list"
  assumes strict: "p \<le> e \<Longrightarrow> e \<le> length m \<Longrightarrow>
    f m p e = Some (emit m p e s, min e (p + length s))"

sublocale strict_formatter \<subseteq> formatter f s
proof unfold_locales
  fix p e and m :: mem
  assume "p \<le> e" and "e < length m"
  then have "f m p e = Some ((emit m p e s)[e := emit m p e s ! e], min e (p + length s))"
    using strict by simp
  then show "\<exists>x. f m p e = Some ((emit m p e s)[e := x], min e (p + length s))" by blast
qed

sublocale strict_formatter \<subseteq> fitting_formatter f s
  by unfold_locales (simp add: strict min_def)

context strict_formatter
begin

lemma terminated:
  assumes "p + length s < e" and "e \<le> length m" and "f m p e = Some (m', p')"
  shows "drop p (m'[p' := 0]) = s @ 0 # drop (p' + 1) m'" and "p' = p + length s"
proof -
  have m': "m' = take p m @ s @ drop (p + length s) m" and p': "p' = p + length s"
    using strict[of p e m] assms by (auto simp: emit_fits)
  have "drop p (m'[p' := 0]) = s @ (drop (p + length s) m)[0 := 0]"
    using assms by (simp add: m' p' list_update_append)
  moreover have "drop (p + length s) m = m ! (p + length s) # drop (p + length s + 1) m"
    using assms by (simp add: Cons_nth_drop_Suc)
  ultimately show "drop p (m'[p' := 0]) = s @ 0 # drop (p' + 1) m'"
    using assms by (simp add: m' p')
  show "p' = p + length s" by (rule p')
qed

text \<open>A parser that reads \<open>s\<close> before a terminator reads back what the formatter wrote.\<close>

lemma parse_back:
  assumes "p + length s < e" and "e \<le> length m" and "\<And>r. parse (s @ 0 # r) = result r"
  shows "\<exists>m' p'. f m p e = Some (m', p') \<and> parse (drop p (m'[p' := 0])) = result (drop (p' + 1) m')"
proof -
  have f: "f m p e = Some (emit m p e s, p + length s)" using strict[of p e m] assms by simp
  then show ?thesis using terminated(1)[OF assms(1,2) f] assms(3) by metis
qed

lemma is_formatter: "formatter f s"
  by (rule formatter_axioms)

lemma is_fitting: "fitting_formatter f s"
  by (rule fitting_formatter_axioms)

end

text \<open>Contracts compose as the code composes its formatters.\<close>

named_theorems formats "contracts of the formatters"

lemma fseq_fitting [formats]:
  assumes "fitting_formatter f s" and "fitting_formatter g t"
  shows "fitting_formatter (fseq f g) (s @ t)"
proof
  fix p e and m :: mem
  assume "p + length (s @ t) \<le> e" and "e \<le> length m"
  then show "fseq f g m p e = Some (emit m p e (s @ t), p + length (s @ t))"
    using fitting_formatter.fits[OF assms(1), of p e m]
      fitting_formatter.fits[OF assms(2), of "p + length s" e "emit m p e s"]
      emit_emit[of p e m s t]
    by (simp add: fseq_def)
qed

lemma fseq_formatter [formats]:
  assumes "formatter f s" and "formatter g t"
  shows "formatter (fseq f g) (s @ t)"
proof
  fix p e and m :: mem
  assume pe: "p \<le> e" "e < length m"
  obtain x where x: "f m p e = Some ((emit m p e s)[e := x], min e (p + length s))"
    using formatter.clips[OF assms(1) pe] by blast
  let ?p = "min e (p + length s)"
  obtain y where y: "g ((emit m p e s)[e := x]) ?p e =
      Some ((emit ((emit m p e s)[e := x]) ?p e t)[e := y], min e (?p + length t))"
    using formatter.clips[OF assms(2), of ?p e "(emit m p e s)[e := x]"] pe by auto
  have "(emit ((emit m p e s)[e := x]) ?p e t)[e := y] = (emit m p e (s @ t))[e := y]"
    using pe by (simp add: emit_update emit_emit)
  moreover have "min e (?p + length t) = min e (p + length (s @ t))" by auto
  ultimately show "\<exists>x. fseq f g m p e = Some ((emit m p e (s @ t))[e := x], min e (p + length (s @ t)))"
    using x y by (auto simp: fseq_def)
qed

lemma fseq_strict [formats]:
  assumes "strict_formatter f s" and "strict_formatter g t"
  shows "strict_formatter (fseq f g) (s @ t)"
proof
  fix p e and m :: mem
  assume "p \<le> e" and "e \<le> length m"
  then show "fseq f g m p e = Some (emit m p e (s @ t), min e (p + length (s @ t)))"
    using strict_formatter.strict[OF assms(1), of p e m]
      strict_formatter.strict[OF assms(2), of "min e (p + length s)" e "emit m p e s"]
    by (auto simp: fseq_def emit_emit)
qed

section \<open>The formatters meet their contracts\<close>

lemma emit_one: "p < e \<Longrightarrow> e \<le> length m \<Longrightarrow> emit m p e [c] = m[p := c]"
  by (intro nth_equalityI) (auto simp: emit_nth nth_list_update)

interpretation fnop: strict_formatter fnop "[]"
  by unfold_locales (simp add: fnop_def)

interpretation fmtchar: strict_formatter "fmtchar c" "[c]" for c
  by unfold_locales (auto simp: fmtchar_def wr_def emit_one emit_full min_def)

lemma fmtbyte_fseq:
  "fmtbyte c = fseq (fmtchar (hexdig (unat c div 16))) (fmtchar (hexdig (unat c mod 16)))"
proof -
  have lo: "unat (drop_bit 0 c AND 15) = unat c mod 16" for c :: byte
  proof -
    have "drop_bit 0 c AND 15 = take_bit 4 c"
      by (simp add: take_bit_eq_mask mask_eq_exp_minus_1)
    then show ?thesis by (simp add: unsigned_take_bit_eq) (simp add: take_bit_eq_mod)
  qed
  have hi: "unat (drop_bit 4 c AND 15) = unat c div 16"
    using lo[of "drop_bit 4 c"] unsigned_less[of c, where ?'a = nat]
    by (simp add: drop_bit_eq_div) (simp add: unat_div_distrib)
  show ?thesis
    unfolding fun_eq_iff fmtbyte_def fseq_def fmtchar_def hi lo by simp
qed

interpretation fmtbyte: strict_formatter "fmtbyte c" "hex2 c" for c
  unfolding fmtbyte_fseq hex2_def
  using fseq_strict[OF fmtchar.strict_formatter_axioms fmtchar.strict_formatter_axioms] by simp

lemma fmtbytes_strict: "strict_formatter (fmtbytes bs) (concat (map hex2 bs))"
proof (induction bs)
  case Nil
  then show ?case using fnop.strict_formatter_axioms by (simp add: fnop_def[abs_def] fun_eq_iff)
next
  case (Cons b bs)
  have "fmtbytes (b # bs) = fseq (fmtbyte b) (fmtbytes bs)"
    by (simp add: fun_eq_iff fseq_def)
  then show ?case using fseq_strict[OF fmtbyte.strict_formatter_axioms Cons.IH] by simp
qed

lemma fmtraw_strict: "strict_formatter (fmtraw data (int (length s))) s" if "\<exists>r. data = s @ r"
proof
  fix p e and m :: mem
  assume "p \<le> e" and "e \<le> length m"
  with that show "fmtraw data (int (length s)) m p e = Some (emit m p e s, min e (p + length s))"
    by (cases "length s > e - p") (auto simp: fmtraw_def wrs_def emit_def Let_def nat_diff_distrib)
qed

lemma fmtstr_strict: "strict_formatter (fmtstr (Some (s @ 0 # r))) s" if "0 \<notin> set s"
proof
  fix p e and m :: mem
  assume *: "p \<le> e" "e \<le> length m"
  let ?n = "min (length s) (e - p)"
  have "strict_formatter (fmtraw (s @ 0 # r) (int ?n)) (take ?n s)"
  proof -
    have "\<exists>r'. s @ 0 # r = take ?n s @ r'"
      by (rule exI[of _ "drop ?n s @ 0 # r"]) (simp flip: append.assoc)
    then show ?thesis using fmtraw_strict[of "s @ 0 # r" "take ?n s"] by simp
  qed
  then have "fmtraw (s @ 0 # r) (int ?n) m p e = Some (emit m p e (take ?n s), min e (p + ?n))"
    using * strict_formatter.strict by fastforce
  moreover have "emit m p e (take ?n s) = emit m p e s" by (auto simp: emit_def min_def)
  moreover have "strnlen (Some (s @ 0 # r)) (e - p) = Some ?n"
    using that by (simp add: strnlen_def strnlen_loop_cstr)
  ultimately show "fmtstr (Some (s @ 0 # r)) m p e = Some (emit m p e s, min e (p + length s))"
    using * by (auto simp: fmtstr_def emit_full min_def)
qed

lemma fmtint64_strict: "strict_formatter (fmtint64 False num) (dec (unat num))"
proof
  fix p e and m :: mem
  assume "p \<le> e" and "e \<le> length m"
  then show "fmtint64 False num m p e =
      Some (emit m p e (dec (unat num)), min e (p + length (dec (unat num))))"
    using put_digits_emit[of e m 10 p] by (simp add: fmtint64_def Let_def dec_def min_def)
qed

lemma emit_Cons:
  assumes "p < e" and "e \<le> length m"
  shows "(emit m (p + 1) e s)[p := c] = emit m p e (c # s)"
  using assms by (intro nth_equalityI) (auto simp: emit_nth nth_list_update nth_Cons')

lemma fmtint64_neg: "formatter (fmtint64 True num) (ch CHR ''-'' # dec (unat num))"
proof
  fix p e and m :: mem
  assume *: "p \<le> e" "e < length m"
  let ?d = "dec (unat num)" and ?c = "ch CHR ''-''"
  let ?m = "emit m (p + 1) e ?d"
  have dig: "put_digits 10 m (p + numlen 10 (unat num)) e (numlen 10 (unat num)) (unat num) = Some ?m"
    using put_digits_emit[of e m 10 "p + 1"] * by (simp add: dec_def)
  have len: "length ?m = length m" using * by (auto simp: emit_def min_def)
  have wr: "wr ?m p ?c = Some (?m[p := ?c])" using * len by (simp add: wr_def)
  have res: "fmtint64 True num m p e = Some (?m[p := ?c], min e (p + Suc (length ?d)))"
    using dig wr by (auto simp: fmtint64_def Let_def dec_def min_def)
  show "\<exists>x. fmtint64 True num m p e = Some ((emit m p e (?c # ?d))[e := x], min e (p + length (?c # ?d)))"
  proof (cases "p < e")
    case True
    then have "emit m p e (?c # ?d) = ?m[p := ?c]" using * emit_Cons[of p e m ?d ?c] by simp
    moreover have "(?m[p := ?c])[e := ?m[p := ?c] ! e] = ?m[p := ?c]" by (rule list_update_id)
    ultimately show ?thesis using res by (metis length_Cons)
  next
    case False
    then have "p = e" using * by simp
    moreover have "emit m (e + 1) e ?d = m" by (simp add: emit_def)
    ultimately show ?thesis using res by (auto simp: emit_full)
  qed
qed

definition sdec :: "int \<Rightarrow> byte list" where
  "sdec n = (if n < 0 then ch CHR ''-'' # dec (nat (- n)) else dec (nat n))"

interpretation fmtu64: strict_formatter "fmtu64 n" "dec (unat n)" for n
  unfolding fmtu64_def[abs_def] by (rule fmtint64_strict)

interpretation fmtu32: strict_formatter "fmtu32 n" "dec (unat n)" for n
  using fmtint64_strict[of "unsigned n"] by (simp add: fmtu32_def[abs_def])

interpretation fmti64: formatter "fmti64 n" "sdec (sint n)" for n
proof (cases "sint n < 0")
  case True
  then show "formatter (fmti64 n) (sdec (sint n))"
    using fmtint64_neg[of "- n"] by (simp add: fmti64_def[abs_def] sdec_def unat_sint_neg)
next
  case False
  then show "formatter (fmti64 n) (sdec (sint n))"
    using strict_formatter.is_formatter[OF fmtint64_strict[of n]]
    by (simp add: fmti64_def[abs_def] sdec_def unat_sint_nonneg)
qed

lemma uint_signed_32_64: "0 \<le> sint n \<Longrightarrow> unat (signed n :: u64) = nat (sint n)"
  for n :: u32
proof -
  assume "0 \<le> sint n"
  moreover have "(signed n :: u64) = word_of_int (sint n)" by simp
  ultimately show ?thesis
    using sint_bounds(2)[of n] unat_word_of_int_nonneg[of "sint n", where 'a = 64] by simp
qed

text \<open>\<open>fmti32\<close> renders every number but \<open>INT_MIN\<close>, whose negation overflows.\<close>

lemma fmti32_formatter: "formatter (fmti32 n) (sdec (sint n))" if "sint n \<noteq> - (2 ^ 31)"
proof (cases "sint n < 0")
  case True
  have "sint (- n) = - sint n"
    using that True sint_greater_eq[of n]
    by (simp add: sint_word_ariths signed_take_bit_int_eq_self_iff)
  then have "unat (signed (- n) :: u64) = nat (- sint n)"
    using True uint_signed_32_64[of "- n"] by simp
  then show ?thesis
    using True fmtint64_neg[of "signed (- n)"] by (simp add: fmti32_def[abs_def] sdec_def)
next
  case False
  then show ?thesis
    using strict_formatter.is_formatter[OF fmtint64_strict[of "signed n"]] uint_signed_32_64[of n]
    by (simp add: fmti32_def[abs_def] sdec_def)
qed

interpretation fmtint_byte: strict_formatter "fmtint (unsigned (b :: byte))" "dec (unat b)" for b
proof -
  have "sint (unsigned b :: u32) = uint b"
    using unsigned_less[of b, where ?'a = int] order_trans[of "- 2147483648" 0 "uint b"]
    by (simp add: signed_ucast_eq signed_take_bit_int_eq_self_iff)
  then show "strict_formatter (fmtint (unsigned b)) (dec (unat b))"
    using fmtint64_strict[of "signed (unsigned b :: u32)"] uint_signed_32_64[of "unsigned b"]
    by (simp add: fmti32_def[abs_def])
qed

interpretation fmtx64: strict_formatter "fmtx64 n" "digs 16 (numlen 16 (unat n)) (unat n)" for n
proof
  fix p e and m :: mem
  assume "p \<le> e" and "e \<le> length m"
  then show "fmtx64 n m p e = Some (emit m p e (digs 16 (numlen 16 (unat n)) (unat n)),
      min e (p + length (digs 16 (numlen 16 (unat n)) (unat n))))"
    using put_digits_emit[of e m 16 p] by (auto simp: fmtx64_def Let_def)
qed

interpretation fmtulp: fitting_formatter "fmtulp n w"
    "digs 10 (max (numlen 10 (unat n)) w) (unat n)" for n w
proof
  fix p e and m :: mem
  assume "p + length (digs 10 (max (numlen 10 (unat n)) w) (unat n)) \<le> e" and "e \<le> length m"
  then show "fmtulp n w m p e = Some (emit m p e (digs 10 (max (numlen 10 (unat n)) w) (unat n)),
      p + length (digs 10 (max (numlen 10 (unat n)) w) (unat n)))"
    using put_digits_emit[of e m 10 p] by (simp add: fmtulp_def Let_def)
qed


subsection \<open>Composite formatters\<close>

definition ip_text :: "byte list \<Rightarrow> byte list" where
  "ip_text ip = dec (unat (ip ! 0)) @ [ch CHR ''.''] @ dec (unat (ip ! 1)) @ [ch CHR ''.''] @
     dec (unat (ip ! 2)) @ [ch CHR ''.''] @ dec (unat (ip ! 3))"

fun mac_tail :: "byte list \<Rightarrow> byte list" where
  "mac_tail [] = []"
| "mac_tail (b # bs) = ch CHR '':'' # hex2 b @ mac_tail bs"

definition mac_text :: "byte list \<Rightarrow> byte list" where
  "mac_text mac = hex2 (mac ! 0) @ mac_tail (drop 1 mac)"

interpretation fmtip: strict_formatter "fmtip ip" "ip_text ip" for ip
  unfolding fmtip_def ip_text_def
  by (intro fseq_strict fmtint_byte.strict_formatter_axioms fmtchar.strict_formatter_axioms)

lemma fmtmac_loop_strict:
  assumes "i + k = length mac"
  shows "strict_formatter (fmtmac_loop mac i k) (mac_tail (drop i mac))"
  using assms
proof (induction k arbitrary: i)
  case 0
  then show ?case using fnop.strict_formatter_axioms by simp
next
  case (Suc k)
  then have "drop i mac = mac ! i # drop (i + 1) mac" by (simp add: Cons_nth_drop_Suc)
  moreover have "strict_formatter (fseq (fmtchar (ch CHR '':'')) (fseq (fmtbyte (mac ! i))
      (fmtmac_loop mac (i + 1) k))) ([ch CHR '':''] @ hex2 (mac ! i) @ mac_tail (drop (i + 1) mac))"
    using Suc by (intro fseq_strict fmtchar.strict_formatter_axioms fmtbyte.strict_formatter_axioms) simp
  ultimately show ?case by simp
qed

lemma fmtmac_strict: "length mac = 6 \<Longrightarrow> strict_formatter (fmtmac mac) (mac_text mac)"
  unfolding fmtmac_def mac_text_def
  using fmtmac_loop_strict[of 1 5 mac]
  by (intro fseq_strict fmtbyte.strict_formatter_axioms) simp

definition tm_text :: "tm \<Rightarrow> byte list" where
  "tm_text t =
     (let fld = (\<lambda>v w. let n = unat (word_of_int v :: u64) in digs 10 (max (numlen 10 n) w) n)
      in fld (tm_year t + 1900) 4 @ [ch CHR ''-''] @ fld (tm_mon t + 1) 2 @ [ch CHR ''-''] @
         fld (tm_mday t) 2 @ [ch CHR '' ''] @ fld (tm_hour t) 2 @ [ch CHR '':''] @
         fld (tm_min t) 2 @ [ch CHR '':''] @ fld (tm_sec t) 2)"

interpretation fmttm: fitting_formatter "fmttm t" "tm_text t" for t
  unfolding fmttm_def tm_text_def Let_def
  by (intro fseq_fitting fmtulp.fitting_formatter_axioms fmtchar.is_fitting)

end
