(* ===== verification/Parse.thy ===== *)
theory Parse
  imports Fmt
begin

text \<open>
  The parsers of \<^verbatim>\<open>lib/format\<close>: functions \<open>p = parseX(p, &value)\<close> that read a value off the front of
  a terminated string.  The model returns \<open>None\<close> on an overrun, \<open>Some None\<close> for the null pointer
  and otherwise the rest of the string with the value.  Signed accumulators wrap around.
\<close>

type_synonym 'v parsed = "(byte list \<times> 'v) option option"

section \<open>Definitions\<close>

definition dig10 :: "byte \<Rightarrow> nat option" where
  "dig10 c = (if schar c \<ge> 48 \<and> schar c - 48 < 10 then Some (nat (schar c - 48)) else None)"

definition dig8 :: "byte \<Rightarrow> nat option" where
  "dig8 c = (if schar c \<ge> 48 \<and> schar c - 48 < 8 then Some (nat (schar c - 48)) else None)"

definition dig16 :: "byte \<Rightarrow> nat option" where
  "dig16 c =
     (if schar c \<ge> 48 \<and> schar c - 48 < 10 then Some (nat (schar c - 48))
      else if schar c \<ge> 97 \<and> schar c - 97 < 6 then Some (10 + nat (schar c - 97))
      else if schar c \<ge> 65 \<and> schar c - 65 < 6 then Some (10 + nat (schar c - 65))
      else None)"

text \<open>The loop every number parser has: \<open>for(p = buf; *p; p++)\<close> with a digit or a break.\<close>

fun digits_loop :: "(byte \<Rightarrow> nat option) \<Rightarrow> 'a::len word \<Rightarrow> byte list \<Rightarrow> 'a word \<Rightarrow>
    (byte list \<times> 'a word) option" where
  "digits_loop dig base [] n = None"
| "digits_loop dig base (c # p) n =
     (if c = 0 then Some (c # p, n)
      else (case dig c of
              Some d \<Rightarrow> digits_loop dig base p (n * base + of_nat d)
            | None \<Rightarrow> Some (c # p, n)))"

definition parse_number :: "(byte \<Rightarrow> nat option) \<Rightarrow> 'a::len word \<Rightarrow> byte list \<Rightarrow> 'a word parsed" where
  "parse_number dig base buf = do {
     (p, n) \<leftarrow> digits_loop dig base buf 0;
     if length p = length buf then Some None else Some (Some (p, n)) }"

definition parseint :: "byte list \<Rightarrow> u32 parsed" where
  "parseint buf = parse_number dig10 10 buf"

definition parseuint :: "byte list \<Rightarrow> u32 parsed" where
  "parseuint buf = parse_number dig10 10 buf"

definition parselong :: "byte list \<Rightarrow> u64 parsed" where
  "parselong buf = parse_number dig10 10 buf"

definition parseulong :: "byte list \<Rightarrow> u64 parsed" where
  "parseulong buf = parse_number dig10 10 buf"

definition parseu64 :: "byte list \<Rightarrow> u64 parsed" where
  "parseu64 buf = parse_number dig10 10 buf"

definition parseoct :: "byte list \<Rightarrow> u32 parsed" where
  "parseoct buf = parse_number dig8 8 buf"

definition parsehex :: "byte list \<Rightarrow> u32 parsed" where
  "parsehex buf = parse_number dig16 16 buf"

definition parsexlong :: "byte list \<Rightarrow> u64 parsed" where
  "parsexlong buf = parse_number dig16 16 buf"

definition hexdigit :: "byte \<Rightarrow> int" where
  "hexdigit c =
     (if schar c \<ge> 48 \<and> schar c \<le> 57 then schar c - 48
      else if schar c \<ge> 97 \<and> schar c \<le> 102 then schar c - 97 + 10
      else if schar c \<ge> 65 \<and> schar c \<le> 70 then schar c - 65 + 10
      else - 1)"

definition parsebyte :: "byte list \<Rightarrow> byte parsed" where
  "parsebyte p =
     (case p of
        [] \<Rightarrow> None
      | c # p \<Rightarrow>
         if hexdigit c < 0 then Some None
         else (case p of
                 [] \<Rightarrow> None
               | d # p \<Rightarrow>
                  if hexdigit d < 0 then Some None
                  else Some (Some (p, word_of_int (push_bit 4 (hexdigit c)) OR word_of_int (hexdigit d)))))"

text \<open>
  The parsers of byte arrays also return the array as they leave it: the part before the first
  error is stored even when the result is null.
\<close>

fun parsebytes :: "byte list option \<Rightarrow> mem \<Rightarrow> nat \<Rightarrow> nat \<Rightarrow> (byte list option \<times> mem) option" where
  "parsebytes p dst q 0 = Some (p, dst)"
| "parsebytes None dst q (Suc len) = Some (None, dst)"
| "parsebytes (Some p) dst q (Suc len) = do {
     r \<leftarrow> parsebyte p;
     (case r of
        None \<Rightarrow> parsebytes None dst (q + 1) len
      | Some (p, v) \<Rightarrow> do { dst \<leftarrow> wr dst q v; parsebytes (Some p) dst (q + 1) len }) }"

text \<open>The \<open>for\<close> loop of \<open>parsemac\<close> from index \<open>i\<close> on, with \<open>k = 6 - i\<close> rounds left.\<close>

fun parsemac_loop :: "nat \<Rightarrow> nat \<Rightarrow> byte list \<Rightarrow> mem \<Rightarrow> (byte list option \<times> mem) option" where
  "parsemac_loop i 0 p mac = Some (Some p, mac)"
| "parsemac_loop i (Suc k) p mac = do {
     r \<leftarrow> parsebyte p;
     (case r of
        None \<Rightarrow> Some (None, mac)
      | Some (p, v) \<Rightarrow> do {
          mac \<leftarrow> wr mac i v;
          if i = 5 then Some (Some p, mac)
          else (case p of
                  [] \<Rightarrow> None
                | c # p \<Rightarrow> if c \<noteq> ch CHR '':'' then Some (None, mac)
                           else parsemac_loop (i + 1) k p mac) }) }"

definition parsemac :: "byte list \<Rightarrow> mem \<Rightarrow> (byte list option \<times> mem) option" where
  "parsemac p mac = parsemac_loop 0 6 p mac"

definition skip_dot :: "nat \<Rightarrow> byte list \<Rightarrow> byte list option option" where
  "skip_dot i p =
     (if i = 0 then Some (Some p)
      else (case p of [] \<Rightarrow> None | c # p \<Rightarrow> if c \<noteq> ch CHR ''.'' then Some None else Some (Some p)))"

fun parseip_loop :: "nat \<Rightarrow> nat \<Rightarrow> byte list \<Rightarrow> mem \<Rightarrow> (byte list option \<times> mem) option" where
  "parseip_loop i 0 p ip = Some (Some p, ip)"
| "parseip_loop i (Suc k) p ip = do {
     s \<leftarrow> skip_dot i p;
     (case s of
        None \<Rightarrow> Some (None, ip)
      | Some p \<Rightarrow> do {
          r \<leftarrow> parseint p;
          (case r of
             None \<Rightarrow> Some (None, ip)
           | Some (p, n) \<Rightarrow>
               if sint n < 0 \<or> sint n > 255 then Some (None, ip)
               else do { ip \<leftarrow> wr ip i (unsigned n); parseip_loop (i + 1) k p ip }) }) }"

definition parseip :: "byte list \<Rightarrow> mem \<Rightarrow> (byte list option \<times> mem) option" where
  "parseip p ip = parseip_loop 0 4 p ip"

text \<open>
  After a slash the result of \<open>parseint\<close> is not checked: when it fails, \<open>n\<close> still holds whatever
  it held before, here the argument \<open>n0\<close>, and the returned pointer is null.
\<close>

definition parseipmask :: "u32 \<Rightarrow> byte list \<Rightarrow> mem \<Rightarrow> byte \<Rightarrow> (byte list option \<times> mem \<times> byte) option" where
  "parseipmask n0 p ip msk = do {
     (r, ip) \<leftarrow> parseip p ip;
     (case r of
        None \<Rightarrow> Some (None, ip, msk)
      | Some [] \<Rightarrow> None
      | Some (c # p) \<Rightarrow>
         if c = ch CHR ''/'' then do {
           q \<leftarrow> parseint p;
           let (p', n) = (case q of None \<Rightarrow> (None, n0) | Some (p', n) \<Rightarrow> (Some p', n));
           if sint n < 0 \<or> sint n > 32 then Some (None, ip, msk)
           else Some (p', ip, unsigned n) }
         else Some (Some (c # p), ip, 32)) }"

section \<open>Round trips\<close>

lemma numlen_bound: "b \<ge> 2 \<Longrightarrow> n < b ^ numlen b n"
proof (induction b n rule: numlen.induct)
  case (1 b n)
  show ?case
  proof (cases "n \<ge> b")
    case True
    then have "n div b < b ^ numlen b (n div b)" using 1 by simp
    then show ?thesis using True 1(2)
      by (subst numlen.simps) (simp add: div_less_iff_less_mult mult.commute)
  next
    case False
    then show ?thesis by (subst numlen.simps) simp
  qed
qed

lemma numlen_pos: "numlen b n > 0"
  by (subst numlen.simps) simp

text \<open>Ten and sixteen digits are few enough to check one by one.\<close>

lemma less_16_cases: "d < (16::nat) \<Longrightarrow> d = 0 \<or> d = 1 \<or> d = 2 \<or> d = 3 \<or> d = 4 \<or> d = 5 \<or> d = 6 \<or>
    d = 7 \<or> d = 8 \<or> d = 9 \<or> d = 10 \<or> d = 11 \<or> d = 12 \<or> d = 13 \<or> d = 14 \<or> d = 15"
  by arith

lemma hexdig_dig10 [simp]: "d < 10 \<Longrightarrow> dig10 (hexdig d) = Some d \<and> hexdig d \<noteq> 0"
  using less_16_cases[of d] by (auto simp: hexdig_def bstr_def ch_def dig10_def)

lemma hexdigit_hexdig [simp]: "d < 16 \<Longrightarrow> hexdigit (hexdig d) = int d"
  by (drule less_16_cases) (auto simp: hexdig_def bstr_def ch_def hexdigit_def)

lemma digits_loop_digs:
  "digits_loop dig10 10 (digs 10 k n @ r) a =
     digits_loop dig10 10 r (a * 10 ^ k + of_nat (n mod 10 ^ k))"
proof (induction k arbitrary: n r)
  case (Suc k)
  have "n mod 10 ^ Suc k = 10 * (n div 10 mod 10 ^ k) + n mod 10"
    by (simp add: mod_mult2_eq)
  then have "(a * 10 ^ k + of_nat (n div 10 mod 10 ^ k)) * 10 + of_nat (n mod 10) =
      a * 10 ^ Suc k + (of_nat (n mod 10 ^ Suc k) :: 'a word)"
    by (simp add: algebra_simps)
  moreover have "digits_loop dig10 10 (digs 10 (Suc k) n @ r) a =
      digits_loop dig10 10 r ((a * 10 ^ k + of_nat (n div 10 mod 10 ^ k)) * 10 + of_nat (n mod 10))"
    using Suc[of "n div 10" "hexdig (n mod 10) # r"] by simp
  ultimately show ?case by (simp only:)
qed simp

lemma parse_number_dec:
  assumes "c = 0 \<or> dig10 c = None"
  shows "parse_number dig10 (10 :: 'a::len word) (dec n @ c # r) = Some (Some (c # r, of_nat n))"
proof -
  have "n mod 10 ^ numlen 10 n = n" using numlen_bound[of 10 n] by simp
  then show ?thesis
    using digits_loop_digs[of "numlen 10 n" n "c # r" "0 :: 'a word"] assms numlen_pos[of 10 n]
    by (auto simp: parse_number_def dec_def)
qed

lemma parsebyte_hex2: "parsebyte (hex2 b @ r) = Some (Some (r, b))"
proof -
  have *: "unat b div 16 < 16" using unsigned_less[of b, where ?'a = nat] by auto
  have "word_of_int (push_bit 4 (int (unat b div 16))) OR word_of_int (int (unat b mod 16)) = b"
  proof -
    have "(push_bit 4 (drop_bit 4 b)) OR take_bit 4 b = b"
      by (rule bit_word_eqI) (auto simp: bit_simps)
    moreover have "word_of_int (push_bit 4 (int (unat b div 16))) = push_bit 4 (drop_bit 4 b)"
    proof -
      have "(word_of_int (int (unat b div 16)) :: byte) = drop_bit 4 b"
        using * by (simp add: drop_bit_eq_div word_unat_eq_iff unat_div unsigned_of_nat
            take_bit_nat_eq_self)
      then show ?thesis by (simp only: push_bit_eq_mult of_int_mult of_int_power of_int_numeral)
    qed
    moreover have "word_of_int (int (unat b mod 16)) = take_bit 4 b"
      by (simp add: take_bit_eq_mod word_unat_eq_iff unat_mod unsigned_of_nat take_bit_nat_eq_self)
    ultimately show ?thesis by simp
  qed
  then show ?thesis using * by (simp add: hex2_def parsebyte_def)
qed

lemma wr_snoc: "wr (xs @ y # ys) (length xs) b = Some (xs @ b # ys)"
  by (simp add: wr_def)

lemma parsemac_loop_text:
  assumes "length done + length bs = 6" and "length rest = length bs" and "bs \<noteq> []"
  shows "parsemac_loop (length done) (length bs) (hex2 (hd bs) @ mac_tail (tl bs) @ r) (done @ rest) =
    Some (Some r, done @ bs)"
  using assms
proof (induction bs arbitrary: "done" rest)
  case (Cons b bs)
  obtain y ys where rest: "rest = y # ys" using Cons.prems(2) by (cases rest) auto
  show ?case
  proof (cases bs)
    case Nil
    then show ?thesis using Cons.prems rest wr_snoc[of "done" y ys b] by (simp add: parsebyte_hex2)
  next
    case (Cons c cs)
    then have "parsemac_loop (length (done @ [b])) (length bs) (hex2 (hd bs) @ mac_tail (tl bs) @ r)
        ((done @ [b]) @ ys) = Some (Some r, (done @ [b]) @ bs)"
      using Cons.IH[of "done @ [b]" ys] Cons.prems rest by simp
    then show ?thesis using Cons Cons.prems rest by (simp add: parsebyte_hex2 wr_snoc)
  qed
qed simp

lemma parsemac_text:
  assumes "length mac = 6" and "length old = 6"
  shows "parsemac (mac_text mac @ r) old = Some (Some r, mac)"
proof -
  have "mac \<noteq> []" using assms by auto
  then have "mac_text mac = hex2 (hd mac) @ mac_tail (tl mac)"
    by (simp add: mac_text_def hd_conv_nth drop_Suc)
  then show ?thesis
    using parsemac_loop_text[of "[]" mac old r] assms \<open>mac \<noteq> []\<close> by (simp add: parsemac_def)
qed

lemma parseint_byte:
  assumes "c = 0 \<or> dig10 c = None"
  shows "parseint (dec (unat (b :: byte)) @ c # r) = Some (Some (c # r, ucast b))"
  using parse_number_dec[OF assms, of "unat b" r, where 'a = 32] by (simp add: parseint_def)

lemma dig10_dot [simp]: "dig10 (ch CHR ''.'') = None"
  by (simp add: dig10_def ch_def)

lemma sint_ucast_byte [simp]: "sint (ucast (b :: byte) :: u32) = uint b"
  using unsigned_less[of b, where ?'a = int] order_trans[of "- 2147483648" 0 "uint b"]
  by (simp add: signed_ucast_eq signed_take_bit_int_eq_self_iff)

lemma byte_range: "\<not> uint (b :: byte) < 0" "\<not> 255 < uint (b :: byte)"
  using unsigned_less[of b, where ?'a = int] by auto

lemma ucast_ucast_byte [simp]: "ucast (ucast (b :: byte) :: u32) = b"
  by (rule bit_word_eqI) (simp add: bit_simps)

lemma parseip_text:
  assumes "length ip = 4" and "length old = 4" and "c = 0 \<or> dig10 c = None"
  shows "parseip (ip_text ip @ c # r) old = Some (Some (c # r), ip)"
proof -
  obtain a0 a1 a2 a3 where ip: "ip = [a0, a1, a2, a3]"
    using assms(1) by (auto simp: length_Suc_conv numeral_eq_Suc)
  obtain b0 b1 b2 b3 where old: "old = [b0, b1, b2, b3]"
    using assms(2) by (auto simp: length_Suc_conv numeral_eq_Suc)
  show ?thesis using assms(3)
    by (simp add: parseip_def ip old ip_text_def eval_nat_numeral skip_dot_def parseint_byte byte_range wr_def)
qed

text \<open>
  C31.  A number formatted by \<open>fmtu64\<close> into a buffer with room for it, and terminated, is read back
  by \<open>parseu64\<close>: the formatter succeeds, and the parser returns the number and the pointer to the
  terminator.
\<close>

theorem parse_fmt_u64:
  assumes "p + length (dec (unat n)) < e" and "e \<le> length m"
  shows "\<exists>m' p'. fmtu64 n m p e = Some (m', p') \<and>
    parseu64 (drop p (m'[p' := 0])) = Some (Some (0 # drop (p' + 1) m', n))"
  by (rule fmtu64.parse_back[OF assms]) (simp add: parseu64_def parse_number_dec)

theorem parse_fmt_u64_witness:
  "\<exists>m' p'. fmtu64 1234 (replicate 8 7) 1 6 = Some (m', p') \<and>
    parseu64 (drop 1 (m'[p' := 0])) = Some (Some (0 # drop (p' + 1) m', 1234))"
  by (rule parse_fmt_u64) (simp_all add: dec_def numlen.simps)

text \<open>
  An IPv4 address formatted by \<open>fmtip\<close> with room for it, and terminated, is read back by
  \<open>parseip\<close>, whatever the destination array held before.
\<close>

theorem parse_fmt_ip:
  assumes "p + length (ip_text ip) < e" and "e \<le> length m" and "length ip = 4" and "length old = 4"
  shows "\<exists>m' p'. fmtip ip m p e = Some (m', p') \<and>
    parseip (drop p (m'[p' := 0])) old = Some (Some (0 # drop (p' + 1) m'), ip)"
  by (rule fmtip.parse_back[where parse = "\<lambda>q. parseip q old", OF assms(1,2)])
    (simp add: parseip_text assms)

theorem parse_fmt_ip_witness:
  "\<exists>m' p'. fmtip [192, 168, 0, 7] (replicate 16 7) 1 15 = Some (m', p') \<and>
    parseip (drop 1 (m'[p' := 0])) [1, 2, 3, 4] =
      Some (Some (0 # drop (p' + 1) m'), [192, 168, 0, 7])"
  by (rule parse_fmt_ip) (simp_all add: ip_text_def dec_def numlen.simps)

text \<open>
  A MAC address formatted by \<open>fmtmac\<close> with room for it, and terminated, is read back by
  \<open>parsemac\<close>, whatever the destination array held before.
\<close>

theorem parse_fmt_mac:
  assumes "p + 17 < e" and "e \<le> length m" and "length mac = 6" and "length old = 6"
  shows "\<exists>m' p'. fmtmac mac m p e = Some (m', p') \<and>
    parsemac (drop p (m'[p' := 0])) old = Some (Some (0 # drop (p' + 1) m'), mac)"
proof -
  have "length (mac_tail bs) = 3 * length bs" for bs
    by (induction bs) (auto simp: hex2_def)
  then have "length (mac_text mac) = 17" using assms(3) by (simp add: mac_text_def hex2_def)
  then show ?thesis
    using strict_formatter.parse_back[OF fmtmac_strict, of mac p e m "\<lambda>q. parsemac q old"
        "\<lambda>r. Some (Some (0 # r), mac)"] assms parsemac_text
    by simp
qed

theorem parse_fmt_mac_witness:
  "\<exists>m' p'. fmtmac [1, 2, 0xA0, 4, 5, 0xFF] (replicate 20 7) 0 19 = Some (m', p') \<and>
    parsemac (drop 0 (m'[p' := 0])) [0, 0, 0, 0, 0, 0] =
      Some (Some (0 # drop (p' + 1) m'), [1, 2, 0xA0, 4, 5, 0xFF])"
  by (rule parse_fmt_mac) simp_all

text \<open>
  \<open>fmti64\<close> renders every 64-bit integer, the smallest one included: the decimal text with
  its sign, cut off at the end pointer, which the returned pointer never passes.  Only the byte at
  the end pointer itself may be clobbered besides.
\<close>

theorem fmti64_renders:
  assumes "p \<le> e" and "e < length m"
  shows "\<exists>x. fmti64 n m p e =
    Some ((emit m p e (sdec (sint n)))[e := x], min e (p + length (sdec (sint n))))"
  by (rule fmti64.clips[OF assms])

theorem fmti64_renders_witness:
  "\<exists>x. fmti64 (0x8000000000000000) (replicate 30 7) 2 29 =
    Some ((emit (replicate 30 7) 2 29 (sdec (sint (0x8000000000000000 :: u64))))[29 := x],
      min 29 (2 + length (sdec (sint (0x8000000000000000 :: u64)))))"
  by (rule fmti64_renders) simp_all

end
