(* ===== verification/Util.thy ===== *)
theory Util
  imports Parse
begin

text \<open>
  Utilities the programs share: \<open>writeall\<close> and the buffered output of \<^verbatim>\<open>lib/output.c\<close>, diagnostics
  (\<open>warn\<close>, \<open>fail\<close>), option letters, environment lookup, the bump allocator of \<^verbatim>\<open>lib/heap.c\<close>.
  System calls are arguments: a function of the call's arguments and of the state \<open>'w\<close> of the world.
\<close>

type_synonym 'w writesys = "int \<Rightarrow> byte list \<Rightarrow> 'w \<Rightarrow> int \<times> 'w"

section \<open>Definitions\<close>

definition EPIPE :: int where "EPIPE = 32"

text \<open>The loop of \<open>writeall\<close>; \<open>got\<close> is the variable it returns, \<open>bs\<close> the \<open>len\<close> bytes still to go.\<close>

function writeall_loop :: "'w writesys \<Rightarrow> int \<Rightarrow> byte list \<Rightarrow> int \<Rightarrow> 'w \<Rightarrow> int \<times> 'w" where
  "writeall_loop sys_write fd bs got w =
     (if bs = [] then (got, w)
      else (case sys_write fd bs w of (got, w) \<Rightarrow>
        let got = (if got = 0 then - EPIPE else got)
        in if got < 0 then (got, w) else writeall_loop sys_write fd (drop (nat got) bs) got w))"
  by pat_completeness auto
termination
  by (relation "measure (\<lambda>(s, fd, bs, got, w). length bs)") (auto simp: EPIPE_def split: if_splits)

declare writeall_loop.simps [simp del]

definition writeall :: "'w writesys \<Rightarrow> int \<Rightarrow> byte list \<Rightarrow> 'w \<Rightarrow> int \<times> 'w" where
  "writeall sys_write fd bs w = writeall_loop sys_write fd bs 0 w"

record bufout =
  bo_fd :: int
  bo_len :: nat
  bo_ptr :: nat
  bo_buf :: mem

definition bufoutset :: "int \<Rightarrow> mem \<Rightarrow> nat \<Rightarrow> bufout" where
  "bufoutset fd buf len = \<lparr> bo_fd = fd, bo_len = len, bo_ptr = 0, bo_buf = buf \<rparr>"

text \<open>The end of \<open>bufout\<close>, from the point where the buffer is empty.\<close>

definition bufout_rest :: "'w writesys \<Rightarrow> bufout \<Rightarrow> byte list \<Rightarrow> int \<Rightarrow> 'w \<Rightarrow> (int \<times> bufout \<times> 'w) option" where
  "bufout_rest sys_write bo data ret w =
     (let (ret, data, w) =
        (if length data \<ge> bo_len bo then
           (let tail = length data mod bo_len bo; pass = length data - tail;
                (ret, w) = writeall sys_write (bo_fd bo) (take pass data) w
            in (ret, drop pass data, w))
         else (ret, data, w))
      in if data \<noteq> [] then do {
           buf \<leftarrow> wrs (bo_buf bo) 0 data;
           Some (ret, bo \<lparr> bo_buf := buf, bo_ptr := length data \<rparr>, w) }
         else Some (ret, bo, w))"

definition bufout :: "'w writesys \<Rightarrow> bufout \<Rightarrow> byte list \<Rightarrow> 'w \<Rightarrow> (int \<times> bufout \<times> 'w) option" where
  "bufout sys_write bo data w =
     (let rem = bo_len bo - bo_ptr bo
      in if length data \<le> rem then do {
           buf \<leftarrow> wrs (bo_buf bo) (bo_ptr bo) data;
           if length data < rem then
             Some (0, bo \<lparr> bo_buf := buf, bo_ptr := bo_ptr bo + length data \<rparr>, w)
           else (case writeall sys_write (bo_fd bo) (take (bo_ptr bo + length data) buf) w of
                   (ret, w) \<Rightarrow> Some (ret, bo \<lparr> bo_buf := buf, bo_ptr := 0 \<rparr>, w)) }
         else if bo_ptr bo \<noteq> 0 then do {
           buf \<leftarrow> wrs (bo_buf bo) (bo_ptr bo) (take rem data);
           (case writeall sys_write (bo_fd bo) (take (bo_ptr bo + rem) buf) w of
              (ret, w) \<Rightarrow> bufout_rest sys_write (bo \<lparr> bo_buf := buf, bo_ptr := 0 \<rparr>) (drop rem data) ret w) }
         else bufout_rest sys_write bo data 0 w)"

definition bufoutflush :: "'w writesys \<Rightarrow> bufout \<Rightarrow> 'w \<Rightarrow> int \<times> bufout \<times> 'w" where
  "bufoutflush sys_write bo w =
     (if bo_ptr bo \<noteq> 0 then
        (case writeall sys_write (bo_fd bo) (take (bo_ptr bo) (bo_buf bo)) w of
           (ret, w) \<Rightarrow> (ret, bo \<lparr> bo_ptr := 0 \<rparr>, w))
      else (0, bo, w))"

subsection \<open>Diagnostics\<close>

text \<open>
  \<open>warn\<close> formats one line and writes it.  Its string arguments may be null; \<open>strpend\<close> gives null for
  a null or an overlong string, which is then left out.
\<close>

definition str_part :: "byte list option \<Rightarrow> byte list option option" where
  "str_part s = do {
     en \<leftarrow> strpend s;
     Some (case (s, en) of (Some t, Some n) \<Rightarrow> Some (take n t) | _ \<Rightarrow> None) }"

definition opt_len :: "byte list option \<Rightarrow> nat" where
  "opt_len s = (case s of None \<Rightarrow> 0 | Some t \<Rightarrow> length t)"

definition fmt_opt :: "fmt \<Rightarrow> byte list option \<Rightarrow> fmt \<Rightarrow> fmt" where
  "fmt_opt pre s post = (case s of None \<Rightarrow> fnop | Some t \<Rightarrow> fseq pre (fseq (fmtraw t (int (length t))) post))"

definition warn :: "'w writesys \<Rightarrow> byte list \<Rightarrow> byte list \<Rightarrow> byte list option \<Rightarrow> byte list option \<Rightarrow> u32 \<Rightarrow> 'w \<Rightarrow> 'w option" where
  "warn sys_write errlist errtag cmsg cobj ret w = do {
     err \<leftarrow> str_part (Some errtag);
     msg \<leftarrow> str_part cmsg;
     obj \<leftarrow> str_part cobj;
     let sz = opt_len err + opt_len msg + opt_len obj + 32;
     let buf = replicate sz 0;
     let e = sz - 1;
     (buf, p) \<leftarrow> fseq (fmt_opt fnop err (fmtchar (ch CHR '':'')))
       (fseq (fmt_opt (fmtchar (ch CHR '' '')) msg fnop)
       (fseq (fmt_opt (fmtchar (ch CHR '' '')) obj fnop)
       (fseq (if ret \<noteq> 0 \<and> (opt_len msg \<noteq> 0 \<or> opt_len obj \<noteq> 0) then fmtchar (ch CHR '':'') else fnop)
         (if ret \<noteq> 0 then fseq (fmtchar (ch CHR '' '')) (fmterr errlist ret) else fnop)))) buf 0 e;
     buf \<leftarrow> wr buf p 10;
     Some (snd (sys_write 2 (take (p + 1) buf) w)) }"

subsection \<open>Arguments and environment\<close>

text \<open>Option letters: \<open>Inl\<close> is the letter \<open>fail\<close> complains about.\<close>

fun key_index :: "byte list \<Rightarrow> byte \<Rightarrow> nat \<Rightarrow> nat option option" where
  "key_index [] a i = None"
| "key_index (k # ks) a i =
     (if k = 0 then Some None else if a = k then Some (Some i) else key_index ks a (i + 1))"

fun argbits_loop :: "byte list \<Rightarrow> byte list \<Rightarrow> u32 \<Rightarrow> (byte + u32) option" where
  "argbits_loop key [] ret = None"
| "argbits_loop key (a # arg) ret =
     (if a = 0 then Some (Inr ret)
      else do {
        k \<leftarrow> key_index key a 0;
        (case k of Some i \<Rightarrow> argbits_loop key arg (ret OR push_bit i 1) | None \<Rightarrow> Some (Inl a)) })"

definition argbits :: "byte list \<Rightarrow> byte list \<Rightarrow> (byte + u32) option" where
  "argbits key arg = argbits_loop key arg 0"

fun basename_loop :: "byte list \<Rightarrow> byte list \<Rightarrow> byte list option" where
  "basename_loop [] q = None"
| "basename_loop (c # p) q =
     (if c = 0 then Some q else basename_loop p (if c = ch CHR ''/'' then p else q))"

definition basename :: "byte list \<Rightarrow> byte list option" where
  "basename path = basename_loop path path"

fun getenv_loop :: "byte list list \<Rightarrow> byte list \<Rightarrow> nat \<Rightarrow> byte list option option" where
  "getenv_loop [] key len = Some None"
| "getenv_loop (p # pp) key len = do {
     c \<leftarrow> strncmp p key len;
     if c = 0 then do {
       b \<leftarrow> rd p len;
       if b = ch CHR ''='' then Some (Some (drop (len + 1) p)) else getenv_loop pp key len }
     else getenv_loop pp key len }"

definition getenv :: "byte list list \<Rightarrow> byte list \<Rightarrow> byte list option option" where
  "getenv envp key = do {
     len \<leftarrow> strnlen (Some key) 1024;
     if len \<ge> 1024 then Some None else getenv_loop envp key len }"

subsection \<open>Heap\<close>

text \<open>\<open>struct heap\<close> with addresses as integers; \<open>sys_brk\<close> returns the new break.  \<open>None\<close> is \<open>fail\<close>.\<close>

record heap =
  hp_brk :: int
  hp_ptr :: int
  hp_end :: int

definition PAGE :: int where "PAGE = 4096"

definition align_size :: "int \<Rightarrow> int" where
  "align_size sz = sz + (PAGE - sz mod PAGE) mod PAGE"

definition hinit :: "(int \<Rightarrow> 'w \<Rightarrow> int \<times> 'w) \<Rightarrow> int \<Rightarrow> 'w \<Rightarrow> (heap \<times> 'w) option" where
  "hinit sys_brk sz w =
     (case sys_brk 0 w of (brk, w) \<Rightarrow>
      case sys_brk (brk + align_size sz) w of (en, w) \<Rightarrow>
        if en \<le> brk then None else Some (\<lparr> hp_brk = brk, hp_ptr = brk, hp_end = en \<rparr>, w))"

definition hextend :: "(int \<Rightarrow> 'w \<Rightarrow> int \<times> 'w) \<Rightarrow> heap \<Rightarrow> int \<Rightarrow> 'w \<Rightarrow> (heap \<times> 'w) option" where
  "hextend sys_brk hp sz w =
     (let en = hp_ptr hp + sz
      in if en \<le> hp_end hp then Some (hp, w)
         else (case sys_brk (hp_end hp + align_size (en - hp_end hp)) w of (hend, w) \<Rightarrow>
                 if en > hend then None else Some (hp \<lparr> hp_end := hend \<rparr>, w)))"

definition halloc :: "(int \<Rightarrow> 'w \<Rightarrow> int \<times> 'w) \<Rightarrow> heap \<Rightarrow> int \<Rightarrow> 'w \<Rightarrow> (int \<times> heap \<times> 'w) option" where
  "halloc sys_brk hp sz w = do {
     let ptr = hp_ptr hp;
     (hp, w) \<leftarrow> hextend sys_brk hp sz w;
     Some (ptr, hp \<lparr> hp_ptr := hp_ptr hp + sz \<rparr>, w) }"

section \<open>Buffered output is a stream\<close>

text \<open>
  What the callers rely on of the kernel when no error occurs: a write of some bytes takes at least
  one of them, and those it takes come next in the output.
\<close>

definition writes_ok :: "'w writesys \<Rightarrow> int \<Rightarrow> ('w \<Rightarrow> byte list) \<Rightarrow> bool" where
  "writes_ok sys_write fd out \<longleftrightarrow> (\<forall>bs w n w'. bs \<noteq> [] \<longrightarrow> sys_write fd bs w = (n, w') \<longrightarrow>
     0 < n \<and> n \<le> int (length bs) \<and> out w' = out w @ take (nat n) bs)"

lemma writeall_loop_out:
  assumes "writes_ok sys_write fd out"
  shows "\<exists>r w'. writeall_loop sys_write fd bs got w = (r, w') \<and> out w' = out w @ bs \<and> (bs \<noteq> [] \<longrightarrow> 0 < r)"
proof (induction bs arbitrary: got w rule: measure_induct_rule[of length])
  case (less bs)
  show ?case
  proof (cases "bs = []")
    case True
    then show ?thesis by (simp add: writeall_loop.simps)
  next
    case False
    obtain n w1 where s: "sys_write fd bs w = (n, w1)" by (cases "sys_write fd bs w")
    with assms False have n: "0 < n" "out w1 = out w @ take (nat n) bs"
      unfolding writes_ok_def by blast+
    then have "length (drop (nat n) bs) < length bs" using False by simp
    from less.IH[OF this, of n w1] obtain r w' where
      "writeall_loop sys_write fd (drop (nat n) bs) n w1 = (r, w')" "out w' = out w @ bs"
      "drop (nat n) bs \<noteq> [] \<longrightarrow> 0 < r"
      using n(2) by auto
    then show ?thesis using False s n(1)
      by (subst writeall_loop.simps) (cases "drop (nat n) bs = []", auto simp: writeall_loop.simps[of _ _ "[]"])
  qed
qed

lemma writeall_out:
  assumes "writes_ok sys_write fd out"
  obtains r w' where "writeall sys_write fd bs w = (r, w')" and "out w' = out w @ bs" and "0 \<le> r"
proof -
  obtain r w' where *: "writeall sys_write fd bs w = (r, w')" "out w' = out w @ bs" "bs \<noteq> [] \<longrightarrow> 0 < r"
    using writeall_loop_out[OF assms, of bs 0 w] by (auto simp: writeall_def)
  moreover have "0 \<le> r" using *(1,3) by (cases "bs = []") (auto simp: writeall_def writeall_loop.simps)
  ultimately show ?thesis using that by blast
qed

text \<open>The invariant of the buffer, and the stream it stands for: what is written and what is held.\<close>

definition bufout_ok :: "bufout \<Rightarrow> bool" where
  "bufout_ok bo \<longleftrightarrow> bo_ptr bo < bo_len bo \<and> bo_len bo \<le> length (bo_buf bo)"

definition stream :: "('w \<Rightarrow> byte list) \<Rightarrow> bufout \<Rightarrow> 'w \<Rightarrow> byte list" where
  "stream out bo w = out w @ take (bo_ptr bo) (bo_buf bo)"

lemma bufout_rest_stream:
  assumes ok: "writes_ok sys_write (bo_fd bo) out" and inv: "bufout_ok bo" and "bo_ptr bo = 0" and "0 \<le> ret"
  shows "\<exists>r bo' w'. bufout_rest sys_write bo data ret w = Some (r, bo', w') \<and> bufout_ok bo' \<and>
    stream out bo' w' = stream out bo w @ data \<and> 0 \<le> r \<and> bo_fd bo' = bo_fd bo"
proof -
  define pass where "pass = length data - length data mod bo_len bo"
  define d where "d = (if length data \<ge> bo_len bo then drop pass data else data)"
  have len: "0 < bo_len bo" using inv by (auto simp: bufout_ok_def)
  have short: "length d < bo_len bo"
    using len by (auto simp: d_def pass_def)
  obtain r w1 where w1: "(if length data \<ge> bo_len bo then writeall sys_write (bo_fd bo) (take pass data) w
      else (ret, w)) = (r, w1)" and out: "out w1 @ d = out w @ data" and r: "0 \<le> r"
  proof (cases "length data \<ge> bo_len bo")
    case True
    obtain r w1 where "writeall sys_write (bo_fd bo) (take pass data) w = (r, w1)"
        "out w1 = out w @ take pass data" "0 \<le> r"
      by (rule writeall_out[OF ok])
    then show ?thesis using True by (intro that[of r w1]) (simp_all add: d_def)
  next
    case False
    then show ?thesis using that assms(4) by (simp add: d_def)
  qed
  have "bufout_rest sys_write bo data ret w =
      (if d \<noteq> [] then do { buf \<leftarrow> wrs (bo_buf bo) 0 d;
         Some (r, bo \<lparr> bo_buf := buf, bo_ptr := length d \<rparr>, w1) } else Some (r, bo, w1))"
    using w1 unfolding bufout_rest_def d_def pass_def Let_def by (cases "length data \<ge> bo_len bo") (auto split: prod.splits)
  moreover have "wrs (bo_buf bo) 0 d = Some (d @ drop (length d) (bo_buf bo))"
    using short inv by (simp add: wrs_def bufout_ok_def)
  ultimately show ?thesis
    using short inv out r assms(3) by (auto simp: bufout_ok_def stream_def)
qed

lemma bufout_stream_lemma:
  assumes ok: "writes_ok sys_write (bo_fd bo) out" and inv: "bufout_ok bo"
  shows "\<exists>r bo' w'. bufout sys_write bo data w = Some (r, bo', w') \<and> bufout_ok bo' \<and>
    stream out bo' w' = stream out bo w @ data \<and> bo_fd bo' = bo_fd bo"
proof -
  let ?p = "bo_ptr bo" and ?buf = "bo_buf bo"
  define rem where "rem = bo_len bo - ?p"
  have b: "?p < bo_len bo" "bo_len bo \<le> length ?buf" using inv by (auto simp: bufout_ok_def)
  consider "length data < rem" | "length data = rem" | "length data > rem" "?p \<noteq> 0" | "length data > rem" "?p = 0"
    by linarith
  then show ?thesis
  proof cases
    case 1
    then have "wrs ?buf ?p data = Some (take ?p ?buf @ data @ drop (?p + length data) ?buf)"
      using b by (simp add: wrs_def rem_def)
    then show ?thesis using 1 b by (simp add: bufout_def rem_def[symmetric] bufout_ok_def stream_def) (simp add: rem_def)
  next
    case 2
    let ?m = "take ?p ?buf @ data @ drop (?p + length data) ?buf"
    have "wrs ?buf ?p data = Some ?m" using 2 b by (simp add: wrs_def rem_def)
    moreover obtain r w1 where "writeall sys_write (bo_fd bo) (take (?p + length data) ?m) w = (r, w1)"
        "out w1 = out w @ take (?p + length data) ?m"
      by (rule writeall_out[OF ok])
    ultimately show ?thesis using 2 b
      by (simp add: bufout_def rem_def[symmetric] bufout_ok_def stream_def)
  next
    case 3
    let ?m = "take ?p ?buf @ take rem data @ drop (?p + rem) ?buf"
    have m: "wrs ?buf ?p (take rem data) = Some ?m" using 3 b by (simp add: wrs_def rem_def)
    obtain r w1 where w1: "writeall sys_write (bo_fd bo) (take (?p + rem) ?m) w = (r, w1)"
        "out w1 = out w @ take (?p + rem) ?m" "0 \<le> r"
      by (rule writeall_out[OF ok])
    let ?bo = "bo \<lparr> bo_buf := ?m, bo_ptr := 0 \<rparr>"
    have "bufout_ok ?bo" using b 3 by (simp add: bufout_ok_def rem_def)
    then obtain r' bo' w' where "bufout_rest sys_write ?bo (drop rem data) r w1 = Some (r', bo', w')" "bufout_ok bo'"
        "stream out bo' w' = stream out ?bo w1 @ drop rem data" "bo_fd bo' = bo_fd ?bo"
      using bufout_rest_stream[of sys_write ?bo out r "drop rem data" w1] ok w1(3) by fastforce
    then show ?thesis using 3 b m w1 by (simp add: bufout_def rem_def[symmetric] stream_def)
  next
    case 4
    have "bufout sys_write bo data w = bufout_rest sys_write bo data 0 w"
      using 4 by (simp add: bufout_def rem_def Let_def)
    then show ?thesis using bufout_rest_stream[OF ok inv 4(2), of 0 data w] by auto
  qed
qed

fun bufout_seq :: "'w writesys \<Rightarrow> bufout \<Rightarrow> byte list list \<Rightarrow> 'w \<Rightarrow> (bufout \<times> 'w) option" where
  "bufout_seq sys_write bo [] w = Some (bo, w)"
| "bufout_seq sys_write bo (d # ds) w = do {
     (r, bo, w) \<leftarrow> bufout sys_write bo d w; bufout_seq sys_write bo ds w }"

lemma bufout_seq_stream:
  assumes "writes_ok sys_write (bo_fd bo) out" and "bufout_ok bo"
  shows "\<exists>bo' w'. bufout_seq sys_write bo ds w = Some (bo', w') \<and> bufout_ok bo' \<and>
    stream out bo' w' = stream out bo w @ concat ds \<and> bo_fd bo' = bo_fd bo"
  using assms
proof (induction ds arbitrary: bo w)
  case (Cons d ds)
  obtain r bo1 w1 where 1: "bufout sys_write bo d w = Some (r, bo1, w1)" "bufout_ok bo1"
      "stream out bo1 w1 = stream out bo w @ d" "bo_fd bo1 = bo_fd bo"
    using bufout_stream_lemma[OF Cons.prems] by blast
  then show ?case using Cons.IH[of bo1 w1] Cons.prems by auto
qed auto

text \<open>
  C28.  Buffered output preserves the stream: as long as the kernel takes what it is given, any
  sequence of \<open>bufout\<close> calls on a fresh buffer followed by \<open>bufoutflush\<close> has written exactly the
  concatenation of the data, in order, and the buffer is never overrun.
\<close>

theorem bufout_stream:
  assumes "writes_ok sys_write fd out" and "0 < len" and "len \<le> length buf"
  shows "\<exists>bo w1 r bo' w2. bufout_seq sys_write (bufoutset fd buf len) ds w = Some (bo, w1) \<and>
    bufoutflush sys_write bo w1 = (r, bo', w2) \<and> out w2 = out w @ concat ds"
proof -
  let ?bo = "bufoutset fd buf len"
  have "bufout_ok ?bo" "writes_ok sys_write (bo_fd ?bo) out"
    using assms by (simp_all add: bufoutset_def bufout_ok_def)
  from bufout_seq_stream[OF this(2,1), of ds w] obtain bo w1 where
    1: "bufout_seq sys_write ?bo ds w = Some (bo, w1)" "stream out bo w1 = out w @ concat ds" "bo_fd bo = fd"
    by (auto simp: bufoutset_def stream_def)
  have "\<exists>r bo' w2. bufoutflush sys_write bo w1 = (r, bo', w2) \<and> out w2 = out w @ concat ds"
  proof (cases "bo_ptr bo = 0")
    case True
    then show ?thesis using 1(2) by (simp add: bufoutflush_def stream_def)
  next
    case False
    obtain r w2 where "writeall sys_write (bo_fd bo) (take (bo_ptr bo) (bo_buf bo)) w1 = (r, w2)"
        "out w2 = out w1 @ take (bo_ptr bo) (bo_buf bo)"
      using writeall_out[OF assms(1)[folded 1(3)]] by blast
    then show ?thesis using False 1(2) by (simp add: bufoutflush_def stream_def)
  qed
  then show ?thesis using 1(1) by blast
qed

theorem bufout_stream_witness:
  "\<exists>bo w1 r bo' w2. bufout_seq (\<lambda>fd bs w. (min 3 (int (length bs)), w @ take 3 bs)) (bufoutset 1 [0, 0, 0, 0] 4)
      [[1, 2], [3, 4, 5, 6, 7, 8, 9], [10]] [] = Some (bo, w1) \<and>
    bufoutflush (\<lambda>fd bs w. (min 3 (int (length bs)), w @ take 3 bs)) bo w1 = (r, bo', w2) \<and>
    id w2 = id [] @ concat [[1, 2], [3, 4, 5, 6, 7, 8, 9], [10]]"
  by (rule bufout_stream) (auto simp: writes_ok_def min_def nat_le_iff)



end
