(* ===== verification/Svchub.thy ===== *)
theory Svchub
  imports Ucproto Util
begin

text \<open>
  The service supervisor of \<^verbatim>\<open>src/svchub\<close> (process 1): its table of services and of control
  connections, the startup and shutdown scripts, the control commands and the event loop.

  The state of the program is one record, \<open>'w hub\<close>: the fields of \<open>struct top\<close>, the arrays \<open>procs\<close>
  and \<open>conns\<close>, and the world \<open>'w\<close> the system calls act on.  A pointer to a \<open>struct proc\<close> or
  \<open>struct conn\<close> is its index.  An operation maps a state to its result and the new state, or to
  \<open>None\<close> when the program ends there, which it does by calling \<open>fail\<close> (a memory overrun would be
  \<open>None\<close> as well).  System calls are the fields of a parameter \<open>'w svcsys\<close>; what a forked child does
  before it executes its program is part of \<open>sys_fork\<close>.
\<close>

section \<open>Data\<close>

definition NPROCS :: nat where "NPROCS = 70"
definition NCONNS :: nat where "NCONNS = 10"
definition RINGSIZE :: nat where "RINGSIZE = 4096"

definition S_STARTUP :: int where "S_STARTUP = 1"
definition S_RUNNING :: int where "S_RUNNING = 2"
definition S_STOPPING :: int where "S_STOPPING = 3"
definition S_SHUTDOWN :: int where "S_SHUTDOWN = 4"

definition P_IN_USE :: u16 where "P_IN_USE = 1"
definition P_KILLED :: u16 where "P_KILLED = 2"
definition P_STATUS :: u16 where "P_STATUS = 4"
definition P_ONCE :: u16 where "P_ONCE = 8"
definition P_PASS :: u16 where "P_PASS = 16"

definition ENOENT :: int where "ENOENT = 2"
definition EAGAIN :: int where "EAGAIN = 11"
definition ENOMEM :: int where "ENOMEM = 12"
definition EBUSY :: int where "EBUSY = 16"
definition EINVAL :: int where "EINVAL = 22"
definition ENOSYS :: int where "ENOSYS = 38"
definition ENODATA :: int where "ENODATA = 61"
definition EALREADY :: int where "EALREADY = 114"

definition SIGHUP :: int where "SIGHUP = 1"
definition SIGINT :: int where "SIGINT = 2"
definition SIGKILL :: int where "SIGKILL = 9"
definition SIGALRM :: int where "SIGALRM = 14"
definition SIGTERM :: int where "SIGTERM = 15"
definition SIGCHLD :: int where "SIGCHLD = 17"
definition SIGCONT :: int where "SIGCONT = 18"
definition SIGPWR :: int where "SIGPWR = 30"

record proc =
  pc_name :: mem
  pc_pid :: int
  pc_fd :: int
  pc_time :: u32
  pc_flags :: u16
  pc_ptr :: nat
  pc_buf :: "mem option"

record conn =
  cn_fd :: int
  cn_pid :: int

record 'w hub =
  h_state :: int
  h_rbmode :: "byte list option"
  h_scrpid :: int
  h_sigcnt :: int
  h_epfd :: int
  h_ctlfd :: int
  h_sigfd :: int
  h_nconns :: nat
  h_nprocs :: nat
  h_nalive :: int
  h_procs :: "proc list"
  h_conns :: "conn list"
  h_w :: 'w

record 'w svcsys =
  cf_initdir :: "byte list"
  cf_bootdir :: "byte list"
  cf_control :: "byte list"
  cf_errlist :: "byte list"
  cf_sock :: "'w socksys"
  sys_write :: "'w writesys"
  sys_access :: "byte list \<Rightarrow> 'w \<Rightarrow> int \<times> 'w"
  sys_pipe2 :: "'w \<Rightarrow> int \<times> int \<times> int \<times> 'w"
  sys_fork :: "byte list \<Rightarrow> byte list option list \<Rightarrow> (int \<times> int) option \<Rightarrow> 'w \<Rightarrow> int \<times> 'w"
  sys_close :: "int \<Rightarrow> 'w \<Rightarrow> int \<times> 'w"
  sys_kill :: "int \<Rightarrow> int \<Rightarrow> 'w \<Rightarrow> int \<times> 'w"
  sys_clock_gettime :: "'w \<Rightarrow> int \<times> int \<times> 'w"
  sys_mmap :: "'w \<Rightarrow> bool \<times> 'w"
  sys_munmap :: "'w \<Rightarrow> int \<times> 'w"
  sys_readv :: "int \<Rightarrow> nat \<Rightarrow> 'w \<Rightarrow> int \<times> byte list \<times> 'w"
  sys_waitpid :: "'w \<Rightarrow> int \<times> int \<times> 'w"
  sys_alarm :: "int \<Rightarrow> 'w \<Rightarrow> int \<times> 'w"
  sys_epoll_ctl :: "int \<Rightarrow> bool \<Rightarrow> int \<Rightarrow> int \<Rightarrow> 'w \<Rightarrow> int \<times> 'w"
  sys_epoll_wait :: "int \<Rightarrow> 'w \<Rightarrow> int \<times> int \<times> int \<times> 'w"
  sys_accept4 :: "int \<Rightarrow> 'w \<Rightarrow> int \<times> 'w"
  sys_read_signal :: "int \<Rightarrow> 'w \<Rightarrow> int \<times> int \<times> 'w"
  sys_socket :: "'w \<Rightarrow> int \<times> 'w"
  sys_epoll_create1 :: "'w \<Rightarrow> int \<times> 'w"
  sys_signalfd :: "'w \<Rightarrow> int \<times> 'w"
  sys_sigprocmask :: "'w \<Rightarrow> int \<times> 'w"

type_synonym 'w opr = "'w hub \<Rightarrow> (int \<times> 'w hub) option"
type_synonym 'w prc = "'w hub \<Rightarrow> 'w hub option"

text \<open>A system call on the world of the state; a terminated string; access to the tables.\<close>

definition call :: "('w \<Rightarrow> int \<times> 'w) \<Rightarrow> 'w hub \<Rightarrow> int \<times> 'w hub" where
  "call f s = (case f (h_w s) of (r, w) \<Rightarrow> (r, s \<lparr> h_w := w \<rparr>))"

definition zstr :: "string \<Rightarrow> byte list" where
  "zstr t = bstr t @ [0]"

definition the_proc :: "'w hub \<Rightarrow> nat \<Rightarrow> proc" where
  "the_proc s i = h_procs s ! i"

definition set_proc :: "nat \<Rightarrow> proc \<Rightarrow> 'w hub \<Rightarrow> 'w hub" where
  "set_proc i pc s = s \<lparr> h_procs := (h_procs s)[i := pc] \<rparr>"

definition set_conn :: "nat \<Rightarrow> conn \<Rightarrow> 'w hub \<Rightarrow> 'w hub" where
  "set_conn i cn s = s \<lparr> h_conns := (h_conns s)[i := cn] \<rparr>"

definition hasf :: "u16 \<Rightarrow> u16 \<Rightarrow> bool" where
  "hasf flags m \<longleftrightarrow> flags AND m \<noteq> 0"

definition zero_proc :: proc where
  "zero_proc = \<lparr> pc_name = replicate 16 0, pc_pid = 0, pc_fd = 0, pc_time = 0, pc_flags = 0, pc_ptr = 0, pc_buf = None \<rparr>"

definition zero_conn :: conn where
  "zero_conn = \<lparr> cn_fd = 0, cn_pid = 0 \<rparr>"

definition hwarn :: "'w svcsys \<Rightarrow> string \<Rightarrow> byte list option \<Rightarrow> int \<Rightarrow> 'w prc" where
  "hwarn sys msg obj ret s = do {
     w \<leftarrow> warn (sys_write sys) (cf_errlist sys) (zstr ''svchub'') (Some (zstr msg)) obj (word_of_int ret) (h_w s);
     Some (s \<lparr> h_w := w \<rparr>) }"

section \<open>Polling\<close>

definition PKEY :: "int \<Rightarrow> int \<Rightarrow> int" where
  "PKEY g k = push_bit 16 g OR k"

definition PKEY_GROUP :: "int \<Rightarrow> int" where
  "PKEY_GROUP v = drop_bit 16 v"

definition PKEY_INDEX :: "int \<Rightarrow> int" where
  "PKEY_INDEX v = v AND 0xFFFF"

definition add_epoll_fd :: "'w svcsys \<Rightarrow> int \<Rightarrow> int \<Rightarrow> 'w opr" where
  "add_epoll_fd sys fd key s =
     (case call (sys_epoll_ctl sys (h_epfd s) True fd key) s of (ret, s) \<Rightarrow> do {
        s \<leftarrow> (if ret < 0 then hwarn sys ''epoll_ctl'' None ret s else Some s);
        Some (ret, s) })"

definition del_epoll_fd :: "'w svcsys \<Rightarrow> int \<Rightarrow> 'w prc" where
  "del_epoll_fd sys fd s =
     (case call (sys_epoll_ctl sys (h_epfd s) False fd 0) s of (ret, s) \<Rightarrow>
        if ret \<ge> 0 then Some s
        else if ret = - ENOENT then Some s
        else hwarn sys ''epoll_del'' None ret s)"

text \<open>\<open>ptr\<close> and \<open>ref\<close> are addresses; the entries of \<open>procs\<close> are 40 bytes apart, those of \<open>conns\<close> 8.\<close>

definition index_of :: "'w svcsys \<Rightarrow> int \<Rightarrow> int \<Rightarrow> int \<Rightarrow> 'w opr" where
  "index_of sys ptr sz ref s =
     (if ptr < ref then do { s \<leftarrow> hwarn sys ''ref under base'' None 0 s; Some (- 1, s) }
      else if (ptr - ref) mod sz \<noteq> 0 then do { s \<leftarrow> hwarn sys ''ref misaligned'' None 0 s; Some (- 1, s) }
      else Some ((ptr - ref) div sz, s))"

definition conn_index :: "'w svcsys \<Rightarrow> nat \<Rightarrow> 'w opr" where
  "conn_index sys i = index_of sys (8 * int i) 8 0"

definition proc_index :: "'w svcsys \<Rightarrow> nat \<Rightarrow> 'w opr" where
  "proc_index sys i = index_of sys (40 * int i) 40 0"

definition add_sock_fd :: "'w svcsys \<Rightarrow> int \<Rightarrow> 'w prc" where
  "add_sock_fd sys fd s = map_option snd (add_epoll_fd sys fd (PKEY 0 2) s)"

definition add_conn_fd :: "'w svcsys \<Rightarrow> int \<Rightarrow> nat \<Rightarrow> 'w prc" where
  "add_conn_fd sys fd i s = do {
     (idx, s) \<leftarrow> conn_index sys i s;
     map_option snd (add_epoll_fd sys fd (PKEY 1 idx) s) }"

definition add_proc_fd :: "'w svcsys \<Rightarrow> int \<Rightarrow> nat \<Rightarrow> 'w prc" where
  "add_proc_fd sys fd i s = do {
     (idx, s) \<leftarrow> proc_index sys i s;
     map_option snd (add_epoll_fd sys fd (PKEY 2 idx) s) }"

section \<open>Services\<close>

fun find_name :: "proc list \<Rightarrow> byte list \<Rightarrow> nat \<Rightarrow> nat option option" where
  "find_name [] name i = Some None"
| "find_name (pc # ps) name i = do {
     c \<leftarrow> strcmpn (pc_name pc) name 16;
     if c = 0 then Some (Some i) else find_name ps name (i + 1) }"

definition find_by_name :: "'w hub \<Rightarrow> byte list \<Rightarrow> nat option option" where
  "find_by_name s name =
     (case name of
        [] \<Rightarrow> None
      | c # _ \<Rightarrow> if c = 0 then Some None else find_name (take (h_nprocs s) (h_procs s)) name 0)"

fun find_free :: "proc list \<Rightarrow> nat \<Rightarrow> nat option" where
  "find_free [] i = None"
| "find_free (pc # ps) i = (if pc_flags pc = 0 then Some i else find_free ps (i + 1))"

definition grab_proc_slot :: "'w hub \<Rightarrow> nat option \<times> 'w hub" where
  "grab_proc_slot s =
     (case find_free (take (h_nprocs s) (h_procs s)) 0 of
        Some i \<Rightarrow> (Some i, s)
      | None \<Rightarrow> if h_nprocs s \<ge> NPROCS then (None, s)
                else (Some (h_nprocs s), s \<lparr> h_nprocs := h_nprocs s + 1 \<rparr>))"

definition wipe_proc_slot :: "nat \<Rightarrow> 'w hub \<Rightarrow> 'w hub" where
  "wipe_proc_slot i s = set_proc i zero_proc s"

definition save_child_pipe :: "'w svcsys \<Rightarrow> nat \<Rightarrow> (int \<times> int) option \<Rightarrow> 'w prc" where
  "save_child_pipe sys i pipe s =
     (case pipe of
        None \<Rightarrow> Some s
      | Some (rfd, wfd) \<Rightarrow>
         (case call (sys_close sys wfd) s of (ret, s) \<Rightarrow>
            if ret < 0 then None
            else add_proc_fd sys rfd i (set_proc i (the_proc s i \<lparr> pc_fd := rfd \<rparr>) s)))"

text \<open>
  The last step of \<open>spawn_path\<close>.  When \<open>fork\<close> fails, the function returns \<open>ret\<close>, which still is
  the (successful) result of the call before it.
\<close>

definition spawn_fork :: "'w svcsys \<Rightarrow> nat \<Rightarrow> byte list \<Rightarrow> int \<Rightarrow> (int \<times> int) option \<Rightarrow> 'w opr" where
  "spawn_fork sys i path ret pipe s =
     (case call (sys_fork sys path [Some path] pipe) s of (pid, s) \<Rightarrow>
        if pid < 0 then Some (ret, s)
        else if pid = 0 then None
        else do {
          s \<leftarrow> Some (set_proc i (the_proc s i \<lparr> pc_pid := pid \<rparr>) s \<lparr> h_nalive := h_nalive s + 1 \<rparr>);
          s \<leftarrow> save_child_pipe sys i pipe s;
          Some (0, s) })"

definition spawn_path :: "'w svcsys \<Rightarrow> nat \<Rightarrow> byte list \<Rightarrow> 'w opr" where
  "spawn_path sys i path s =
     (case call (sys_access sys path) s of (ret, s) \<Rightarrow>
        if ret < 0 then Some (ret, s)
        else if hasf (pc_flags (the_proc s i)) P_PASS then spawn_fork sys i path ret None s
        else (case sys_pipe2 sys (h_w s) of (ret, rfd, wfd, w) \<Rightarrow>
          let s = s \<lparr> h_w := w \<rparr>
          in if ret \<noteq> 0 then Some (ret, s)
             else spawn_fork sys i path ret (Some (rfd, wfd)) s))"

definition spawn_proc :: "'w svcsys \<Rightarrow> nat \<Rightarrow> 'w opr" where
  "spawn_proc sys i s = do {
     let dir = cf_initdir sys @ zstr ''/'';
     let name = pc_name (the_proc s i);
     dlen \<leftarrow> strlen dir;
     nlen \<leftarrow> strnlen (Some name) 16;
     let len = dlen + nlen + 1;
     (path, p) \<leftarrow> fseq (fmtstrn (Some dir) dlen) (fmtstrn (Some name) nlen) (replicate len 0) 0 (len - 1);
     path \<leftarrow> wr path p 0;
     spawn_path sys i path s }"

definition update_proc_time :: "'w svcsys \<Rightarrow> nat \<Rightarrow> 'w prc" where
  "update_proc_time sys i s =
     (case sys_clock_gettime sys (h_w s) of (ret, sec, w) \<Rightarrow>
        if ret < 0 then None
        else Some (set_proc i (the_proc s i \<lparr> pc_time := word_of_int sec \<rparr>) (s \<lparr> h_w := w \<rparr>)))"

definition ran_long_enough :: "'w svcsys \<Rightarrow> nat \<Rightarrow> 'w hub \<Rightarrow> (bool \<times> 'w hub) option" where
  "ran_long_enough sys i s = do {
     let t0 = pc_time (the_proc s i);
     s \<leftarrow> update_proc_time sys i s;
     let t1 = pc_time (the_proc s i);
     Some (t1 - t0 > 10, s) }"

definition flush_ring_buf :: "'w svcsys \<Rightarrow> nat \<Rightarrow> 'w hub \<Rightarrow> int \<times> 'w hub" where
  "flush_ring_buf sys i s =
     (case pc_buf (the_proc s i) of
        None \<Rightarrow> (- ENODATA, s)
      | Some buf \<Rightarrow>
         (case call (sys_munmap sys) s of (ret, s) \<Rightarrow>
            if ret < 0 then (ret, set_proc i (the_proc s i \<lparr> pc_ptr := 0 \<rparr>) s)
            else (0, set_proc i (the_proc s i \<lparr> pc_buf := None, pc_ptr := 0 \<rparr>) s)))"

definition restart_proc :: "'w svcsys \<Rightarrow> nat \<Rightarrow> u16 \<Rightarrow> 'w opr" where
  "restart_proc sys i flags s =
     (if flags \<noteq> 0 then Some (- EINVAL, s)
      else
       (let pc = the_proc s i
        in if \<not> hasf (pc_flags pc) P_STATUS \<and> pc_pid pc \<noteq> 0 then Some (- EBUSY, s)
           else do {
             let s = (if hasf (pc_flags pc) P_STATUS
                      then set_proc i (pc \<lparr> pc_flags := pc_flags pc AND NOT (P_STATUS OR P_KILLED), pc_pid := 0 \<rparr>) s
                      else s);
             let (ret, s) = (if pc_buf (the_proc s i) = None then (0, s) else flush_ring_buf sys i s);
             if ret < 0 then Some (ret, s)
             else do {
               (ret, s) \<leftarrow> spawn_proc sys i s;
               if ret < 0 then Some (ret, s)
               else do { s \<leftarrow> update_proc_time sys i s; Some (ret, s) } } }))"

definition prep_and_start :: "'w svcsys \<Rightarrow> nat \<Rightarrow> byte list \<Rightarrow> u16 \<Rightarrow> 'w opr" where
  "prep_and_start sys i name flags s = do {
     len \<leftarrow> strlen name;
     let s = set_proc i zero_proc s;
     if len > 16 then Some (- ENAMETOOLONG, s)
     else do {
       nm \<leftarrow> wrs (pc_name zero_proc) 0 (take len name);
       let s = set_proc i (zero_proc \<lparr> pc_flags := P_IN_USE OR flags, pc_fd := - 1, pc_name := nm \<rparr>) s;
       (ret, s) \<leftarrow> spawn_proc sys i s;
       if ret < 0 then Some (ret, s)
       else do { s \<leftarrow> update_proc_time sys i s; Some (ret, s) } } }"

definition start_proc :: "'w svcsys \<Rightarrow> byte list \<Rightarrow> u16 \<Rightarrow> 'w opr" where
  "start_proc sys name flags s = do {
     f \<leftarrow> find_by_name s name;
     (case f of
        Some i \<Rightarrow> restart_proc sys i flags s
      | None \<Rightarrow>
         (case grab_proc_slot s of
            (None, s) \<Rightarrow> Some (- ENOMEM, s)
          | (Some i, s) \<Rightarrow> do {
              (ret, s) \<leftarrow> prep_and_start sys i name flags s;
              Some (ret, if ret < 0 then set_proc i zero_proc s else s) })) }"

definition stop_proc :: "'w svcsys \<Rightarrow> byte list \<Rightarrow> 'w opr" where
  "stop_proc sys name s = do {
     f \<leftarrow> find_by_name s name;
     (case f of
        None \<Rightarrow> Some (- ENOENT, s)
      | Some i \<Rightarrow>
         (let pc = the_proc s i; pid = pc_pid pc; flags = pc_flags pc
          in if hasf flags P_STATUS \<or> pid = 0 then Some (- EAGAIN, s)
             else
               (let s = set_proc i (pc \<lparr> pc_flags := flags OR P_KILLED \<rparr>) s
                in case call (sys_kill sys pid SIGCONT) s of (ret, s) \<Rightarrow>
                   if ret < 0 then Some (ret, s)
                   else (case call (sys_kill sys pid SIGTERM) s of (ret, s) \<Rightarrow>
                     if ret < 0 then Some (ret, s) else Some (pid, s))))) }"

definition flush_proc :: "'w svcsys \<Rightarrow> byte list \<Rightarrow> 'w opr" where
  "flush_proc sys name s = do {
     f \<leftarrow> find_by_name s name;
     (case f of None \<Rightarrow> Some (- ENOENT, s) | Some i \<Rightarrow> Some (flush_ring_buf sys i s)) }"

definition remove_proc :: "'w svcsys \<Rightarrow> byte list \<Rightarrow> 'w opr" where
  "remove_proc sys name s = do {
     f \<leftarrow> find_by_name s name;
     (case f of
        None \<Rightarrow> Some (- ENOENT, s)
      | Some i \<Rightarrow>
         (let pc = the_proc s i
          in if pc_pid pc \<noteq> 0 \<and> \<not> hasf (pc_flags pc) P_STATUS then Some (- EBUSY, s)
             else (case flush_ring_buf sys i s of (ret, s) \<Rightarrow>
               if ret < 0 then Some (ret, s) else Some (0, wipe_proc_slot i s)))) }"

definition kill_proc :: "'w svcsys \<Rightarrow> byte list \<Rightarrow> int \<Rightarrow> 'w opr" where
  "kill_proc sys name sig s = do {
     f \<leftarrow> find_by_name s name;
     (case f of
        None \<Rightarrow> Some (- ENOENT, s)
      | Some i \<Rightarrow>
         (let pc = the_proc s i
          in if pc_pid pc = 0 \<or> hasf (pc_flags pc) P_STATUS then Some (- EAGAIN, s)
             else Some (call (sys_kill sys (pc_pid pc) sig) s))) }"

subsection \<open>Output of a service\<close>

definition close_proc :: "'w svcsys \<Rightarrow> nat \<Rightarrow> 'w prc" where
  "close_proc sys i s =
     (let fd = pc_fd (the_proc s i)
      in if fd < 0 then Some s
         else do {
           s \<leftarrow> del_epoll_fd sys fd s;
           (case call (sys_close sys fd) s of (ret, s) \<Rightarrow>
              if ret < 0 then None else Some (set_proc i (the_proc s i \<lparr> pc_fd := - 1 \<rparr>) s)) })"

text \<open>
  Where \<open>readv\<close> stores what it read: from \<open>off\<close> to the end of the ring, then from its start up to
  \<open>off\<close>.
\<close>

definition ring_store :: "mem \<Rightarrow> nat \<Rightarrow> byte list \<Rightarrow> mem option" where
  "ring_store ring off data = do {
     ring \<leftarrow> wrs ring off (take (RINGSIZE - off) data);
     wrs ring 0 (take off (drop (RINGSIZE - off) data)) }"

text \<open>The new value of \<open>pc->ptr\<close>, a 16-bit field.\<close>

definition ring_advance :: "nat \<Rightarrow> int \<Rightarrow> nat" where
  "ring_advance ptr ret =
     (let ptr = int ptr + ret;
          ptr = (if ptr > int RINGSIZE then int RINGSIZE + ptr mod int RINGSIZE else ptr)
      in nat (ptr mod 65536))"

definition check_read :: "'w svcsys \<Rightarrow> nat \<Rightarrow> mem \<Rightarrow> nat \<Rightarrow> 'w prc" where
  "check_read sys i buf ptr s =
     (let off = ptr mod RINGSIZE
      in case sys_readv sys (pc_fd (the_proc s i)) RINGSIZE (h_w s) of (ret, data, w) \<Rightarrow>
         let s = s \<lparr> h_w := w \<rparr>
         in if ret < 0 then close_proc sys i s
            else do {
              buf \<leftarrow> ring_store buf off data;
              Some (set_proc i (the_proc s i \<lparr> pc_buf := Some buf, pc_ptr := ring_advance ptr ret \<rparr>) s) })"

definition check_proc :: "'w svcsys \<Rightarrow> nat \<Rightarrow> 'w prc" where
  "check_proc sys i s =
     (let pc = the_proc s i
      in case pc_buf pc of
           Some buf \<Rightarrow> check_read sys i buf (pc_ptr pc) s
         | None \<Rightarrow>
            (case sys_mmap sys (h_w s) of (err, w) \<Rightarrow>
               let s = s \<lparr> h_w := w \<rparr>
               in if err then close_proc sys i s
                  else (let buf = replicate RINGSIZE 0
                        in check_read sys i buf 0 (set_proc i (pc \<lparr> pc_buf := Some buf, pc_ptr := 0 \<rparr>) s))))"

subsection \<open>Control connections\<close>

definition close_conn :: "'w svcsys \<Rightarrow> nat \<Rightarrow> 'w prc" where
  "close_conn sys i s =
     (let fd = cn_fd (h_conns s ! i)
      in if fd < 0 then Some s
         else do {
           s \<leftarrow> del_epoll_fd sys fd s;
           (case call (sys_close sys fd) s of (_, s) \<Rightarrow>
              Some (set_conn i \<lparr> cn_fd = - 1, cn_pid = 0 \<rparr> s)) })"

definition hub_send :: "'w svcsys \<Rightarrow> int \<Rightarrow> ucbuf \<Rightarrow> 'w opr" where
  "hub_send sys fd uc s = do {
     (ret, w) \<leftarrow> uc_send (cf_sock sys) fd uc (h_w s);
     Some (ret, s \<lparr> h_w := w \<rparr>) }"

definition hub_wait :: "'w svcsys \<Rightarrow> int \<Rightarrow> 'w hub \<Rightarrow> int \<times> 'w hub" where
  "hub_wait sys fd s = call (uc_wait_writable (cf_sock sys) fd) s"

definition notify :: "'w svcsys \<Rightarrow> ucbuf \<Rightarrow> nat \<Rightarrow> 'w prc" where
  "notify sys uc i s =
     (let fd = cn_fd (h_conns s ! i)
      in if fd < 0 then Some s
         else do {
           (ret, s) \<leftarrow> hub_send sys fd uc s;
           if ret > 0 then Some s
           else if ret \<noteq> - EAGAIN then close_conn sys i s
           else (case hub_wait sys fd s of (ret, s) \<Rightarrow>
             if ret < 0 then close_conn sys i s
             else do {
               (ret, s) \<leftarrow> hub_send sys fd uc s;
               if ret > 0 then Some s else close_conn sys i s }) })"

fun notify_loop :: "'w svcsys \<Rightarrow> ucbuf \<Rightarrow> int \<Rightarrow> nat list \<Rightarrow> 'w prc" where
  "notify_loop sys uc pid [] s = Some s"
| "notify_loop sys uc pid (i # is) s = do {
     s \<leftarrow> (if cn_pid (h_conns s ! i) = pid then notify sys uc i s else Some s);
     notify_loop sys uc pid is s }"

definition notify_dead :: "'w svcsys \<Rightarrow> int \<Rightarrow> 'w prc" where
  "notify_dead sys pid s = do {
     uc \<leftarrow> uc_put_hdr (uc_buf_set (replicate 16 0) 16) 1;
     notify_loop sys uc pid [0..<h_nconns s] s }"

subsection \<open>Death of a service\<close>

definition WEXITSTATUS :: "int \<Rightarrow> int" where "WEXITSTATUS st = drop_bit 8 (st AND 0xFF00)"
definition WTERMSIG :: "int \<Rightarrow> int" where "WTERMSIG st = st AND 0x7F"
definition WIFEXITED :: "int \<Rightarrow> bool" where "WIFEXITED st \<longleftrightarrow> WTERMSIG st = 0"
definition WIFSTOPPED :: "int \<Rightarrow> bool" where "WIFSTOPPED st \<longleftrightarrow> st AND 0xFF = 0x7F"
definition WIFSIGNALED :: "int \<Rightarrow> bool" where "WIFSIGNALED st \<longleftrightarrow> \<not> WIFSTOPPED st \<and> \<not> WIFEXITED st"

definition report_dead :: "'w svcsys \<Rightarrow> nat \<Rightarrow> int \<Rightarrow> 'w prc" where
  "report_dead sys i status s = do {
     (buf, p) \<leftarrow> fseq (fmtstr (Some (zstr ''svchub''))) (fseq (fmtstr (Some (zstr '': '')))
       (fseq (fmtstrn (Some (pc_name (the_proc s i))) 16)
         (if WIFEXITED status
          then fseq (fmtstr (Some (zstr '' exit ''))) (fmtint (word_of_int (WEXITSTATUS status)))
          else if WIFSIGNALED status
          then fseq (fmtstr (Some (zstr '' signal ''))) (fmtint (word_of_int (WTERMSIG status)))
          else fmtstr (Some (zstr '' died''))))) (replicate 200 0) 0 199;
     buf \<leftarrow> wr buf p 10;
     (case call (writeall (sys_write sys) 2 (take (p + 1) buf)) s of (_, s) \<Rightarrow> Some s) }"

definition mark_stopped :: "nat \<Rightarrow> 'w hub \<Rightarrow> 'w hub" where
  "mark_stopped i s =
     (let pc = the_proc s i
      in set_proc i (pc \<lparr> pc_flags := pc_flags pc AND NOT P_KILLED, pc_pid := 0, pc_time := 0 \<rparr>) s)"

definition mark_died :: "nat \<Rightarrow> int \<Rightarrow> 'w hub \<Rightarrow> 'w hub" where
  "mark_died i status s =
     (let pc = the_proc s i
      in set_proc i (pc \<lparr> pc_pid := status, pc_flags := pc_flags pc OR P_STATUS \<rparr>) s)"

definition try_respawn :: "'w svcsys \<Rightarrow> nat \<Rightarrow> 'w hub \<Rightarrow> (bool \<times> 'w hub) option" where
  "try_respawn sys i s =
     (if hasf (pc_flags (the_proc s i)) P_ONCE then Some (False, s)
      else do {
        (long, s) \<leftarrow> ran_long_enough sys i s;
        if \<not> long then do { s \<leftarrow> hwarn sys ''not respawning'' None 0 s; Some (False, s) }
        else do {
          (ret, s) \<leftarrow> spawn_proc sys i s;
          if ret < 0 then do { s \<leftarrow> hwarn sys ''cannot respawn'' None ret s; Some (False, s) }
          else Some (True, s) } })"

definition proc_died :: "'w svcsys \<Rightarrow> nat \<Rightarrow> int \<Rightarrow> 'w prc" where
  "proc_died sys i status s = do {
     let pid = pc_pid (the_proc s i);
     s \<leftarrow> close_proc sys i (s \<lparr> h_nalive := h_nalive s - 1 \<rparr>);
     let flags = pc_flags (the_proc s i);
     if hasf flags P_KILLED then notify_dead sys pid (mark_stopped i s)
     else if hasf flags P_ONCE \<and> status = 0 then Some (wipe_proc_slot i (snd (flush_ring_buf sys i s)))
     else do {
       s \<leftarrow> report_dead sys i status s;
       (up, s) \<leftarrow> try_respawn sys i s;
       if up then Some s else Some (mark_died i status s) } }"

section \<open>Startup and shutdown\<close>

definition close_socket :: "'w svcsys \<Rightarrow> 'w prc" where
  "close_socket sys s =
     (case call (sys_close sys (h_ctlfd s)) s of (ret, s) \<Rightarrow>
        if ret < 0 then hwarn sys ''close'' (Some (zstr ''socket'')) ret s else Some s)"

definition spawn_script :: "'w svcsys \<Rightarrow> byte list \<Rightarrow> byte list option list \<Rightarrow> 'w opr" where
  "spawn_script sys name argv s = do {
     let dir = cf_bootdir sys @ zstr ''/'';
     dlen \<leftarrow> strlen dir;
     nlen \<leftarrow> strlen name;
     let len = dlen + nlen + 2;
     (path, p) \<leftarrow> fseq (fmtstr (Some dir)) (fmtstr (Some name)) (replicate len 0) 0 (len - 1);
     path \<leftarrow> wr path p 0;
     (case call (sys_access sys path) s of (ret, s) \<Rightarrow>
        if ret < 0 then Some (ret, s)
        else if h_scrpid s > 0 then Some (- EBUSY, s)
        else (case call (sys_fork sys path (Some name # tl argv) None) s of (pid, s) \<Rightarrow>
          if pid \<le> 0 then None else Some (0, s \<lparr> h_scrpid := pid \<rparr>))) }"

definition spawn_shutdown :: "'w svcsys \<Rightarrow> 'w prc" where
  "spawn_shutdown sys s = do {
     let mode = h_rbmode s;
     s \<leftarrow> close_socket sys (s \<lparr> h_state := S_SHUTDOWN \<rparr>);
     let script = (if mode \<noteq> None then zstr ''shutdown'' else zstr ''failure'');
     (ret, s) \<leftarrow> spawn_script sys script [None, mode, None] s;
     if ret \<ge> 0 then Some s else None }"

definition stop_con_shell :: "'w svcsys \<Rightarrow> 'w hub \<Rightarrow> 'w hub" where
  "stop_con_shell sys s =
     (if h_scrpid s \<le> 0 then s
      else (case call (sys_kill sys (h_scrpid s) SIGTERM) s of (ret, s) \<Rightarrow>
        if ret \<ge> 0 then s else s \<lparr> h_scrpid := 0 \<rparr>))"

definition live_entry :: "proc \<Rightarrow> bool" where
  "live_entry pc \<longleftrightarrow> pc_flags pc \<noteq> 0 \<and> pc_pid pc \<noteq> 0 \<and> \<not> hasf (pc_flags pc) P_STATUS"

fun stop_loop :: "'w svcsys \<Rightarrow> nat list \<Rightarrow> 'w hub \<Rightarrow> 'w hub" where
  "stop_loop sys [] s = s"
| "stop_loop sys (i # is) s =
     (let pc = the_proc s i
      in if \<not> live_entry pc then stop_loop sys is s
         else (case call (sys_kill sys (pc_pid pc) SIGTERM) s of (ret, s) \<Rightarrow>
           stop_loop sys is
             (if ret < 0 then s else set_proc i (pc \<lparr> pc_flags := pc_flags pc OR P_KILLED \<rparr>) s)))"

definition stop_all_procs :: "'w svcsys \<Rightarrow> 'w prc" where
  "stop_all_procs sys s = do {
     s \<leftarrow> hwarn sys ''stopping all procs'' None 0 s;
     Some (stop_con_shell sys (stop_loop sys [0..<h_nprocs s] s)) }"

definition arm_shutdown_timer :: "'w svcsys \<Rightarrow> 'w prc" where
  "arm_shutdown_timer sys s =
     (case call (sys_alarm sys 2) s of (ret, s) \<Rightarrow>
        if ret \<noteq> 0 then hwarn sys ''alarm'' None ret s else Some s)"

definition report_stuck :: "'w svcsys \<Rightarrow> nat \<Rightarrow> 'w prc" where
  "report_stuck sys i s = do {
     let nm = pc_name (the_proc s i);
     len \<leftarrow> strnlen (Some nm) 16;
     nm \<leftarrow> rds nm 0 len;
     hwarn sys ''waiting for'' (Some (nm @ [0])) 0 s }"

fun report_loop :: "'w svcsys \<Rightarrow> nat list \<Rightarrow> 'w prc" where
  "report_loop sys [] s = Some s"
| "report_loop sys (i # is) s =
     (if \<not> live_entry (the_proc s i) then report_loop sys is s
      else do { s \<leftarrow> report_stuck sys i s; report_loop sys is s })"

definition report_hung_procs :: "'w svcsys \<Rightarrow> 'w prc" where
  "report_hung_procs sys s = do {
     s \<leftarrow> report_loop sys [0..<h_nprocs s] s;
     if h_scrpid s > 0 then hwarn sys ''script is still running'' None 0 s else Some s }"

fun force_loop :: "'w svcsys \<Rightarrow> nat list \<Rightarrow> 'w hub \<Rightarrow> 'w hub" where
  "force_loop sys [] s = s"
| "force_loop sys (i # is) s =
     (let pc = the_proc s i
      in if \<not> live_entry pc then force_loop sys is s
         else (case call (sys_kill sys (pc_pid pc) SIGKILL) s of (_, s) \<Rightarrow>
           force_loop sys is (set_proc i (pc \<lparr> pc_pid := 0 \<rparr>) s)))"

definition force_shutdown :: "'w svcsys \<Rightarrow> 'w prc" where
  "force_shutdown sys s = do {
     s \<leftarrow> hwarn sys ''killing remaining services'' None 0 s;
     let s = force_loop sys [0..<h_nprocs s] s;
     let s = (if h_scrpid s > 0
              then (case call (sys_kill sys (h_scrpid s) SIGKILL) s of (_, s) \<Rightarrow> s \<lparr> h_scrpid := - 1 \<rparr>)
              else s);
     spawn_shutdown sys s }"

definition handle_alarm :: "'w svcsys \<Rightarrow> 'w prc" where
  "handle_alarm sys s =
     (if h_state s \<noteq> S_STOPPING then Some s
      else if h_sigcnt s < 3 then do {
        s \<leftarrow> report_hung_procs sys (s \<lparr> h_sigcnt := h_sigcnt s + 1 \<rparr>);
        arm_shutdown_timer sys s }
      else force_shutdown sys (s \<lparr> h_sigcnt := 0 \<rparr>))"

definition command_stop :: "'w svcsys \<Rightarrow> byte list option \<Rightarrow> 'w opr" where
  "command_stop sys mode s =
     (if h_state s = S_STOPPING \<or> h_state s = S_SHUTDOWN then Some (- EALREADY, s)
      else do {
        s \<leftarrow> (if mode \<noteq> None then hwarn sys ''initiating'' mode 0 s
              else hwarn sys ''aborting on a failure'' None 0 s);
        s \<leftarrow> stop_all_procs sys (s \<lparr> h_state := S_STOPPING, h_rbmode := mode, h_sigcnt := 0 \<rparr>);
        s \<leftarrow> arm_shutdown_timer sys s;
        Some (0, s) })"

definition signal_stop :: "'w svcsys \<Rightarrow> string \<Rightarrow> 'w prc" where
  "signal_stop sys script s =
     (if h_state s = S_STOPPING then force_shutdown sys s
      else if h_state s = S_SHUTDOWN then None
      else do {
        (ret, s) \<leftarrow> command_stop sys (Some (zstr script)) s;
        if ret < 0 then hwarn sys script (Some (zstr ''handler'')) ret s else Some s })"

definition shell_exit :: "'w svcsys \<Rightarrow> int \<Rightarrow> 'w prc" where
  "shell_exit sys status s = do {
     s \<leftarrow> hwarn sys ''console shell'' (Some (if status \<noteq> 0 then zstr ''failed'' else zstr ''exited'')) 0 s;
     (ret, s) \<leftarrow> command_stop sys None s;
     if ret \<ge> 0 then Some s else None }"

definition start_script :: "'w svcsys \<Rightarrow> byte list option list \<Rightarrow> 'w prc" where
  "start_script sys argv s = do {
     (ret, s) \<leftarrow> spawn_script sys (zstr ''startup'') argv s;
     if ret < 0 then None else Some (s \<lparr> h_state := S_STARTUP \<rparr>) }"

definition startup_done :: "'w svcsys \<Rightarrow> int \<Rightarrow> 'w prc" where
  "startup_done sys status s =
     (if status \<noteq> 0 then None
      else map_option snd (spawn_script sys (zstr ''shell'') [None, None] (s \<lparr> h_state := S_RUNNING \<rparr>)))"

definition script_exit :: "'w svcsys \<Rightarrow> int \<Rightarrow> 'w prc" where
  "script_exit sys status s =
     (let state = h_state s; s = s \<lparr> h_scrpid := 0, h_state := 0 \<rparr>
      in if state = S_STARTUP then startup_done sys status s
         else if state = S_SHUTDOWN then None
         else if state = S_RUNNING then shell_exit sys status s
         else Some s)"

fun find_pid :: "proc list \<Rightarrow> int \<Rightarrow> nat \<Rightarrow> nat option" where
  "find_pid [] pid i = None"
| "find_pid (pc # ps) pid i =
     (if hasf (pc_flags pc) P_STATUS then find_pid ps pid (i + 1)
      else if pc_pid pc = pid then Some i
      else find_pid ps pid (i + 1))"

definition find_by_pid :: "'w hub \<Rightarrow> int \<Rightarrow> nat option" where
  "find_by_pid s pid = (if pid \<le> 0 then None else find_pid (take (h_nprocs s) (h_procs s)) pid 0)"

text \<open>
  The \<open>waitpid\<close> loop of \<open>check_children\<close> ends when the kernel has no more dead children to report;
  a loop that never ends is \<open>None\<close>.
\<close>

definition child_died :: "'w svcsys \<Rightarrow> int \<Rightarrow> int \<Rightarrow> 'w prc" where
  "child_died sys pid status s =
     (if pid = h_scrpid s then script_exit sys status s
      else (case find_by_pid s pid of Some i \<Rightarrow> proc_died sys i status s | None \<Rightarrow> Some s))"

partial_function (option) reap_loop :: "'w svcsys \<Rightarrow> 'w hub \<Rightarrow> 'w hub option" where
  "reap_loop sys s =
     (case sys_waitpid sys (h_w s) of (pid, status, w) \<Rightarrow>
        if pid > 0 then do {
          s \<leftarrow> child_died sys pid status (s \<lparr> h_w := w \<rparr>);
          reap_loop sys s }
        else Some (s \<lparr> h_w := w \<rparr>))"

definition check_children :: "'w svcsys \<Rightarrow> 'w prc" where
  "check_children sys s = do {
     s \<leftarrow> reap_loop sys s;
     if h_nalive s \<noteq> 0 \<or> h_scrpid s > 0 then Some s
     else do {
       s \<leftarrow> (if h_state s = S_RUNNING then hwarn sys ''all children died'' None 0 s else Some s);
       if h_state s = S_SHUTDOWN then None else spawn_shutdown sys s } }"

section \<open>Control commands\<close>

text \<open>
  A command gets the connection's index and the received message, a buffer with the message at its
  start, and returns a code; a positive code says a reply has been sent.
\<close>

definition REPLIED :: int where "REPLIED = 1"

definition ATTR_PROC :: int where "ATTR_PROC = 1"
definition ATTR_NAME :: int where "ATTR_NAME = 2"
definition ATTR_PID :: int where "ATTR_PID = 4"
definition ATTR_RING :: int where "ATTR_RING = 5"
definition ATTR_EXIT :: int where "ATTR_EXIT = 6"
definition ATTR_NEXT :: int where "ATTR_NEXT = 7"
definition ATTR_TIME :: int where "ATTR_TIME = 8"

definition send_reply :: "'w svcsys \<Rightarrow> nat \<Rightarrow> ucbuf \<Rightarrow> 'w opr" where
  "send_reply sys cn uc s =
     (let fd = cn_fd (h_conns s ! cn)
      in case hub_wait sys fd s of (ret, s) \<Rightarrow>
         if ret < 0 then Some (ret, s)
         else do {
           (ret, s) \<leftarrow> hub_send sys fd uc s;
           Some (if ret < 0 then ret else REPLIED, s) })"

definition send_multi :: "'w svcsys \<Rightarrow> nat \<Rightarrow> byte list list \<Rightarrow> 'w hub \<Rightarrow> int \<times> 'w hub" where
  "send_multi sys cn iov s =
     (let fd = cn_fd (h_conns s ! cn)
      in case hub_wait sys fd s of (ret, s) \<Rightarrow>
         if ret < 0 then (ret, s)
         else (case call (uc_send_iov (cf_sock sys) fd iov) s of (ret, s) \<Rightarrow>
           (if ret > 0 then ret else REPLIED, s)))"

definition reply :: "'w svcsys \<Rightarrow> nat \<Rightarrow> int \<Rightarrow> 'w opr" where
  "reply sys cn err s = do {
     uc \<leftarrow> uc_put_hdr (uc_buf_set (replicate 20 0) 20) err;
     send_reply sys cn uc s }"

text \<open>
  \<open>cmd_list\<close> passes \<open>rc->name\<close> to a function that expects a terminated string.  A name of sixteen
  bytes has no terminator, and the reading goes on into the fields that follow it.
\<close>

definition name_ptr :: "proc \<Rightarrow> byte list" where
  "name_ptr pc = pc_name pc @ le_bytes 4 (word_of_int (pc_pid pc) :: u32) @ le_bytes 4 (word_of_int (pc_fd pc) :: u32) @
     le_bytes 4 (pc_time pc) @ le_bytes 2 (pc_flags pc) @ le_bytes 2 (of_nat (pc_ptr pc) :: u16)"

definition put_status :: "proc \<Rightarrow> u32 \<Rightarrow> ucbuf \<Rightarrow> ucbuf option" where
  "put_status pc ex uc =
     (if hasf (pc_flags pc) P_STATUS then uc_put_int uc ATTR_EXIT ex
      else if pc_pid pc \<noteq> 0 then uc_put_int uc ATTR_PID (word_of_int (pc_pid pc))
      else Some uc)"

definition list_entry :: "proc \<Rightarrow> ucbuf \<Rightarrow> ucbuf option" where
  "list_entry pc uc = do {
     (uc, at) \<leftarrow> uc_put_nest uc ATTR_PROC;
     uc \<leftarrow> uc_put_str uc ATTR_NAME (Some (name_ptr pc));
     uc \<leftarrow> put_status pc (word_of_int (pc_pid pc) AND 0xFFFF) uc;
     uc \<leftarrow> (if pc_ptr pc \<noteq> 0 then uc_put_flag uc ATTR_RING else Some uc);
     uc_end_nest uc at }"

text \<open>The loop of \<open>cmd_list\<close> returns the index at which it stopped.\<close>

fun list_loop :: "proc list \<Rightarrow> nat \<Rightarrow> nat \<Rightarrow> ucbuf \<Rightarrow> (nat \<times> ucbuf) option" where
  "list_loop ps rc 0 uc = Some (rc, uc)"
| "list_loop ps rc (Suc k) uc =
     (let pc = ps ! rc
      in if pc_name pc ! 0 = 0 then list_loop ps (rc + 1) k uc
         else do {
           left \<leftarrow> uc_space_left uc;
           if left < 128 then Some (rc, uc)
           else do { uc \<leftarrow> list_entry pc uc; list_loop ps (rc + 1) k uc } })"

definition cmd_list :: "'w svcsys \<Rightarrow> nat \<Rightarrow> mem \<Rightarrow> 'w opr" where
  "cmd_list sys cn msg s = do {
     nx \<leftarrow> uc_get_int msg 0 ATTR_NEXT;
     start \<leftarrow> (case nx of None \<Rightarrow> Some 0 | Some p \<Rightarrow> map_option sint (rd32 msg p));
     if start < 0 then Some (- EINVAL, s)
     else if start \<ge> int (h_nprocs s) then Some (0, s)
     else do {
       uc \<leftarrow> uc_put_hdr (uc_buf_set (replicate 2048 0) 2048) 0;
       (rc, uc) \<leftarrow> list_loop (h_procs s) (nat start) (h_nprocs s - nat start) uc;
       uc \<leftarrow> (if rc < h_nprocs s then uc_put_int uc ATTR_NEXT (of_nat rc) else Some uc);
       send_reply sys cn uc s } }"

definition check :: "int \<Rightarrow> int" where
  "check ret = (if ret < 0 then ret else 0)"

definition cmd_reboot :: "'w svcsys \<Rightarrow> nat \<Rightarrow> mem \<Rightarrow> 'w opr" where
  "cmd_reboot sys cn msg s = map_option (\<lambda>(r, s). (check r, s)) (command_stop sys (Some (zstr ''reboot'')) s)"

definition cmd_shutdown :: "'w svcsys \<Rightarrow> nat \<Rightarrow> mem \<Rightarrow> 'w opr" where
  "cmd_shutdown sys cn msg s = map_option (\<lambda>(r, s). (check r, s)) (command_stop sys (Some (zstr ''shutdown'')) s)"

definition cmd_poweroff :: "'w svcsys \<Rightarrow> nat \<Rightarrow> mem \<Rightarrow> 'w opr" where
  "cmd_poweroff sys cn msg s = map_option (\<lambda>(r, s). (check r, s)) (command_stop sys (Some (zstr ''poweroff'')) s)"

text \<open>Most commands start by fetching the name; \<open>k\<close> is what they do with it.\<close>

definition with_name :: "mem \<Rightarrow> (byte list \<Rightarrow> 'w opr) \<Rightarrow> 'w opr" where
  "with_name msg k s = do {
     p \<leftarrow> uc_get_str msg 0 ATTR_NAME;
     (case p of None \<Rightarrow> Some (- EINVAL, s) | Some p \<Rightarrow> k (drop p msg) s) }"

definition cmd_status :: "'w svcsys \<Rightarrow> nat \<Rightarrow> mem \<Rightarrow> 'w opr" where
  "cmd_status sys cn msg = with_name msg (\<lambda>name s. do {
     f \<leftarrow> find_by_name s name;
     (case f of
        None \<Rightarrow> Some (- ENOENT, s)
      | Some i \<Rightarrow> do {
          let pc = the_proc s i;
          uc \<leftarrow> uc_put_hdr (uc_buf_set (replicate 128 0) 128) 0;
          uc \<leftarrow> uc_put_strn uc ATTR_NAME (Some (pc_name pc)) 16;
          uc \<leftarrow> put_status pc (word_of_int (pc_pid pc)) uc;
          uc \<leftarrow> (if pc_ptr pc \<noteq> 0 then uc_put_flag uc ATTR_RING else Some uc);
          uc \<leftarrow> (if pc_time pc \<noteq> 0 then uc_put_int uc ATTR_TIME (pc_time pc) else Some uc);
          send_reply sys cn uc s }) })"

text \<open>The pieces of the ring, oldest first, as \<open>cmd_getbuf\<close> puts them into its \<open>iovec\<close>.\<close>

definition ring_pieces :: "mem \<Rightarrow> nat \<Rightarrow> byte list list option" where
  "ring_pieces ring ptr =
     (if ptr \<le> RINGSIZE then do { a \<leftarrow> rds ring 0 ptr; Some [a] }
      else do {
        let off = ptr mod RINGSIZE;
        a \<leftarrow> rds ring off (RINGSIZE - off);
        b \<leftarrow> rds ring 0 off;
        Some [a, b] })"

definition cmd_getbuf :: "'w svcsys \<Rightarrow> nat \<Rightarrow> mem \<Rightarrow> 'w opr" where
  "cmd_getbuf sys cn msg = with_name msg (\<lambda>name s. do {
     f \<leftarrow> find_by_name s name;
     (case f of
        None \<Rightarrow> Some (- ENOENT, s)
      | Some i \<Rightarrow> do {
          uc \<leftarrow> uc_put_hdr (uc_buf_set (replicate 50 0) 50) 0;
          (case pc_buf (the_proc s i) of
             None \<Rightarrow> Some (0, s)
           | Some ring \<Rightarrow> do {
               h \<leftarrow> uc_iov_hdr uc;
               (case h of
                  Inl ret \<Rightarrow> Some (ret, s)
                | Inr hdr \<Rightarrow> do {
                    ps \<leftarrow> ring_pieces ring (pc_ptr (the_proc s i));
                    Some (send_multi sys cn (hdr # ps) s) }) }) }) })"

definition common_start :: "'w svcsys \<Rightarrow> mem \<Rightarrow> u16 \<Rightarrow> 'w opr" where
  "common_start sys msg flags = with_name msg (\<lambda>name. start_proc sys name flags)"

definition cmd_start :: "'w svcsys \<Rightarrow> nat \<Rightarrow> mem \<Rightarrow> 'w opr" where
  "cmd_start sys cn msg = common_start sys msg 0"

definition cmd_stout :: "'w svcsys \<Rightarrow> nat \<Rightarrow> mem \<Rightarrow> 'w opr" where
  "cmd_stout sys cn msg = common_start sys msg P_PASS"

definition cmd_spawn :: "'w svcsys \<Rightarrow> nat \<Rightarrow> mem \<Rightarrow> 'w opr" where
  "cmd_spawn sys cn msg = common_start sys msg P_ONCE"

definition cmd_stop :: "'w svcsys \<Rightarrow> nat \<Rightarrow> mem \<Rightarrow> 'w opr" where
  "cmd_stop sys cn msg = with_name msg (\<lambda>name s. do {
     (ret, s) \<leftarrow> stop_proc sys name s;
     if ret < 0 then Some (ret, s)
     else Some (0, set_conn cn ((h_conns s ! cn) \<lparr> cn_pid := ret \<rparr>) s) })"

definition cmd_flush :: "'w svcsys \<Rightarrow> nat \<Rightarrow> mem \<Rightarrow> 'w opr" where
  "cmd_flush sys cn msg = with_name msg (\<lambda>name s. map_option (\<lambda>(r, s). (check r, s)) (flush_proc sys name s))"

definition cmd_remove :: "'w svcsys \<Rightarrow> nat \<Rightarrow> mem \<Rightarrow> 'w opr" where
  "cmd_remove sys cn msg = with_name msg (remove_proc sys)"

definition cmd_sighup :: "'w svcsys \<Rightarrow> nat \<Rightarrow> mem \<Rightarrow> 'w opr" where
  "cmd_sighup sys cn msg =
     with_name msg (\<lambda>name s. map_option (\<lambda>(r, s). (check r, s)) (kill_proc sys name SIGHUP s))"

definition commands :: "(int \<times> ('w svcsys \<Rightarrow> nat \<Rightarrow> mem \<Rightarrow> 'w opr)) list" where
  "commands = [(1, cmd_list), (12, cmd_reboot), (13, cmd_shutdown), (14, cmd_poweroff),
     (2, cmd_status), (3, cmd_getbuf), (4, cmd_flush), (5, cmd_remove), (8, cmd_stop), (9, cmd_sighup),
     (16, cmd_start), (17, cmd_spawn), (18, cmd_stout)]"

definition dispatch :: "'w svcsys \<Rightarrow> nat \<Rightarrow> mem \<Rightarrow> 'w opr" where
  "dispatch sys cn msg s = do {
     cmd \<leftarrow> uc_repcode msg 0;
     (case map_of commands cmd of Some c \<Rightarrow> c sys cn msg s | None \<Rightarrow> Some (- ENOSYS, s)) }"

definition check_conn :: "'w svcsys \<Rightarrow> nat \<Rightarrow> 'w prc" where
  "check_conn sys cn s = do {
     (ret, buf, w) \<leftarrow> uc_recv (cf_sock sys) (cn_fd (h_conns s ! cn)) (replicate 200 0) 200 (h_w s);
     let s = s \<lparr> h_w := w \<rparr>;
     if ret < 0 then close_conn sys cn s
     else do {
       (msg, p) \<leftarrow> uc_msg buf ret;
       (case p of
          None \<Rightarrow> close_conn sys cn s
        | Some _ \<Rightarrow> do {
            (ret, s) \<leftarrow> dispatch sys cn msg s;
            if ret > 0 then Some s
            else do {
              (ret, s) \<leftarrow> reply sys cn ret s;
              if ret \<ge> 0 then Some s else close_conn sys cn s } }) } }"

fun find_closed :: "conn list \<Rightarrow> nat \<Rightarrow> nat option" where
  "find_closed [] i = None"
| "find_closed (cn # cs) i = (if cn_fd cn < 0 then Some i else find_closed cs (i + 1))"

definition grab_conn_slot :: "'w hub \<Rightarrow> nat option \<times> 'w hub" where
  "grab_conn_slot s =
     (case find_closed (take (h_nconns s) (h_conns s)) 0 of
        Some i \<Rightarrow> (Some i, s)
      | None \<Rightarrow> if h_nconns s \<ge> NCONNS then (None, s)
                else (Some (h_nconns s), s \<lparr> h_nconns := h_nconns s + 1 \<rparr>))"

definition check_socket :: "'w svcsys \<Rightarrow> 'w prc" where
  "check_socket sys s =
     (case call (sys_accept4 sys (h_ctlfd s)) s of (cfd, s) \<Rightarrow>
        if cfd < 0 then (if cfd = - EAGAIN then Some s else None)
        else (case grab_conn_slot s of
            (None, s) \<Rightarrow> Some (snd (call (sys_close sys cfd) s))
          | (Some i, s) \<Rightarrow> add_conn_fd sys cfd i (set_conn i ((h_conns s ! i) \<lparr> cn_fd := cfd \<rparr>) s)))"

definition open_socket :: "'w svcsys \<Rightarrow> 'w prc" where
  "open_socket sys s =
     (case call (sys_socket sys) s of (fd, s) \<Rightarrow>
        if fd < 0 then None
        else do {
          (ret, w) \<leftarrow> uc_listen (cf_sock sys) (replicate 110 0) fd (cf_control sys) 5 (h_w s);
          if ret < 0 then None
          else add_sock_fd sys fd (s \<lparr> h_w := w, h_ctlfd := fd \<rparr>) })"

section \<open>The event loop\<close>

definition EPOLLIN :: int where "EPOLLIN = 1"

definition check_signal :: "'w svcsys \<Rightarrow> 'w prc" where
  "check_signal sys s =
     (case sys_read_signal sys (h_sigfd s) (h_w s) of (ret, sig, w) \<Rightarrow>
        let s = s \<lparr> h_w := w \<rparr>
        in if ret \<le> 0 then None
           else if sig = SIGCHLD then check_children sys s
           else if sig = SIGPWR then signal_stop sys ''poweroff'' s
           else if sig = SIGINT then signal_stop sys ''reboot'' s
           else if sig = SIGTERM then signal_stop sys ''reboot'' s
           else if sig = SIGALRM then handle_alarm sys s
           else None)"

text \<open>The common shape of the four event handlers: input first, then anything else.\<close>

definition on_events :: "int \<Rightarrow> 'w prc \<Rightarrow> 'w prc \<Rightarrow> 'w prc" where
  "on_events events inp oth s = do {
     s \<leftarrow> (if events AND EPOLLIN \<noteq> 0 then inp s else Some s);
     if events AND NOT EPOLLIN \<noteq> 0 then oth s else Some s }"

definition process_sigfd :: "'w svcsys \<Rightarrow> int \<Rightarrow> 'w prc" where
  "process_sigfd sys events = on_events events (check_signal sys) (\<lambda>s. None)"

definition process_ctlfd :: "'w svcsys \<Rightarrow> int \<Rightarrow> 'w prc" where
  "process_ctlfd sys events = on_events events (check_socket sys) (\<lambda>s. None)"

definition process_proc :: "'w svcsys \<Rightarrow> int \<Rightarrow> int \<Rightarrow> 'w prc" where
  "process_proc sys idx events s =
     (if idx \<ge> int (h_nprocs s) then None
      else on_events events (check_proc sys (nat idx)) (close_proc sys (nat idx)) s)"

definition process_conn :: "'w svcsys \<Rightarrow> int \<Rightarrow> int \<Rightarrow> 'w prc" where
  "process_conn sys idx events s =
     (if idx \<ge> int (h_nconns s) then None
      else on_events events (check_conn sys (nat idx)) (close_conn sys (nat idx)) s)"

definition process_misc :: "'w svcsys \<Rightarrow> int \<Rightarrow> int \<Rightarrow> 'w prc" where
  "process_misc sys idx events s =
     (if idx = 1 then process_sigfd sys events s
      else if idx = 2 then process_ctlfd sys events s
      else None)"

definition wait_poll :: "'w svcsys \<Rightarrow> 'w prc" where
  "wait_poll sys s =
     (case sys_epoll_wait sys (h_epfd s) (h_w s) of (ret, key, events, w) \<Rightarrow>
        let s = s \<lparr> h_w := w \<rparr>; group = PKEY_GROUP key; idx = PKEY_INDEX key
        in if ret < 0 then None
           else if group = 0 then process_misc sys idx events s
           else if group = 1 then process_conn sys idx events s
           else if group = 2 then process_proc sys idx events s
           else None)"

definition setup_signals :: "'w svcsys \<Rightarrow> 'w prc" where
  "setup_signals sys s =
     (case call (sys_signalfd sys) s of (fd, s) \<Rightarrow>
        if fd < 0 then None
        else (case call (sys_sigprocmask sys) s of (ret, s) \<Rightarrow>
          if ret < 0 then None
          else map_option snd (add_epoll_fd sys fd (PKEY 0 1) (s \<lparr> h_sigfd := fd \<rparr>))))"

definition prepare_epoll :: "'w svcsys \<Rightarrow> 'w prc" where
  "prepare_epoll sys s =
     (case call (sys_epoll_create1 sys) s of (fd, s) \<Rightarrow>
        if fd < 0 then None else Some (s \<lparr> h_epfd := fd \<rparr>))"

definition hub0 :: "'w \<Rightarrow> 'w hub" where
  "hub0 w = \<lparr> h_state = 0, h_rbmode = None, h_scrpid = 0, h_sigcnt = 0, h_epfd = 0, h_ctlfd = 0, h_sigfd = 0,
     h_nconns = 0, h_nprocs = 0, h_nalive = 0, h_procs = replicate NPROCS zero_proc,
     h_conns = replicate NCONNS zero_conn, h_w = w \<rparr>"

text \<open>\<open>main\<close> up to its endless loop, and the states that loop goes through.\<close>

definition hub_init :: "'w svcsys \<Rightarrow> byte list option list \<Rightarrow> 'w \<Rightarrow> 'w hub option" where
  "hub_init sys argv w = do {
     s \<leftarrow> prepare_epoll sys (hub0 w);
     s \<leftarrow> setup_signals sys s;
     s \<leftarrow> open_socket sys s;
     start_script sys argv s }"

inductive reaches :: "'w svcsys \<Rightarrow> byte list option list \<Rightarrow> 'w \<Rightarrow> 'w hub \<Rightarrow> bool"
  for sys argv w where
  reaches_init: "hub_init sys argv w = Some s \<Longrightarrow> reaches sys argv w s"
| reaches_step: "reaches sys argv w s \<Longrightarrow> wait_poll sys s = Some s' \<Longrightarrow> reaches sys argv w s'"

end
