(* ===== verification/Svchub_Inv.thy ===== *)
theory Svchub_Inv
  imports Svchub
begin

text \<open>
  What the supervisor keeps true: the shape of its tables, the meaning of the flags, the count of
  running services, and the fact that a shutdown under way is never undone.  Each operation is
  shown to keep the invariant; the theorem on all reachable states follows by rule induction.
\<close>

section \<open>The invariant\<close>

text \<open>What is relied on of the kernel: \<open>fork\<close> succeeds, \<open>pipe2\<close> returns zero or an error, and
  \<open>readv\<close> returns how much it read.\<close>

definition fork_works :: "'w svcsys \<Rightarrow> bool" where
  "fork_works sys \<longleftrightarrow> (\<forall>path argv pipe w. fst (sys_fork sys path argv pipe w) > 0)"

definition readv_ok :: "'w svcsys \<Rightarrow> bool" where
  "readv_ok sys \<longleftrightarrow> (\<forall>fd n w ret data w'. sys_readv sys fd n w = (ret, data, w') \<longrightarrow> 0 \<le> ret \<longrightarrow>
     ret = int (length data) \<and> length data \<le> n)"

definition pipe_ok :: "'w svcsys \<Rightarrow> bool" where
  "pipe_ok sys \<longleftrightarrow> (\<forall>w. fst (sys_pipe2 sys w) \<le> 0)"

definition kernel_ok :: "'w svcsys \<Rightarrow> bool" where
  "kernel_ok sys \<longleftrightarrow> fork_works sys \<and> readv_ok sys \<and> pipe_ok sys"

definition proc_ok :: "proc \<Rightarrow> bool" where
  "proc_ok pc \<longleftrightarrow> length (pc_name pc) = 16 \<and> pc_ptr pc < 2 * RINGSIZE \<and>
     (case pc_buf pc of None \<Rightarrow> pc_ptr pc = 0 | Some b \<Rightarrow> length b = RINGSIZE) \<and>
     (if pc_flags pc = 0 then pc_pid pc = 0 \<and> pc_name pc ! 0 = 0 else hasf (pc_flags pc) P_IN_USE)"

definition alive_count :: "'w hub \<Rightarrow> int" where
  "alive_count s = int (length (filter live_entry (h_procs s)))"

definition hub_shape :: "'w hub \<Rightarrow> bool" where
  "hub_shape s \<longleftrightarrow> length (h_procs s) = NPROCS \<and> length (h_conns s) = NCONNS \<and>
     h_nprocs s \<le> NPROCS \<and> h_nconns s \<le> NCONNS \<and> (\<forall>pc \<in> set (h_procs s). proc_ok pc) \<and>
     (\<forall>i < NPROCS. h_nprocs s \<le> i \<longrightarrow> pc_flags (h_procs s ! i) = 0)"

definition hub_inv :: "'w hub \<Rightarrow> bool" where
  "hub_inv s \<longleftrightarrow> hub_shape s \<and> (h_state s \<noteq> S_SHUTDOWN \<longrightarrow> h_nalive s = alive_count s)"

text \<open>A step keeps the invariant and does not leave the shutdown state.\<close>

definition hstep :: "'w hub \<Rightarrow> 'w hub \<Rightarrow> bool" where
  "hstep s s' \<longleftrightarrow> hub_inv s' \<and> (h_state s = S_SHUTDOWN \<longrightarrow> h_state s' = S_SHUTDOWN)"

lemma hstep_refl: "hub_inv s \<Longrightarrow> hstep s s"
  by (simp add: hstep_def)

lemma hstep_trans: "hstep s t \<Longrightarrow> hstep t u \<Longrightarrow> hstep s u"
  by (simp add: hstep_def)

lemma hstepD: "hstep s s' \<Longrightarrow> hub_inv s'"
  by (simp add: hstep_def)

section \<open>Flags\<close>

lemma hasf_simps [simp]:
  "hasf (f OR P_KILLED) P_STATUS = hasf f P_STATUS"
  "hasf (f OR P_KILLED) P_IN_USE = hasf f P_IN_USE"
  "hasf (f OR P_STATUS) P_STATUS"
  "hasf (f OR P_STATUS) P_IN_USE = hasf f P_IN_USE"
  "hasf (f AND NOT P_KILLED) P_STATUS = hasf f P_STATUS"
  "hasf (f AND NOT P_KILLED) P_IN_USE = hasf f P_IN_USE"
  "\<not> hasf (f AND (NOT P_STATUS AND NOT P_KILLED)) P_STATUS"
  "hasf (f AND (NOT P_STATUS AND NOT P_KILLED)) P_IN_USE = hasf f P_IN_USE"
  "hasf (P_IN_USE OR f) P_IN_USE"
  "hasf (P_IN_USE OR f) P_STATUS = hasf f P_STATUS"
  "\<not> hasf 0 m"
  by (simp_all add: hasf_def P_KILLED_def P_STATUS_def P_IN_USE_def bit.conj_disj_distrib2 and.assoc
      bit.conj_disj_distrib)

lemma in_use_nonzero: "hasf f P_IN_USE \<Longrightarrow> f \<noteq> 0"
  by (auto simp: hasf_def)

lemma zero_proc_ok [simp]: "proc_ok zero_proc" "\<not> live_entry zero_proc"
  by (simp_all add: proc_ok_def zero_proc_def live_entry_def RINGSIZE_def)

lemma proc_ok_simps [simp]:
  "proc_ok (pc \<lparr> pc_fd := x \<rparr>) = proc_ok pc" "proc_ok (pc \<lparr> pc_time := t \<rparr>) = proc_ok pc"
  "live_entry (pc \<lparr> pc_fd := x \<rparr>) = live_entry pc" "live_entry (pc \<lparr> pc_time := t \<rparr>) = live_entry pc"
  by (simp_all add: proc_ok_def live_entry_def split: option.splits)

section \<open>Updating one entry\<close>

lemma filter_update_count:
  "i < length xs \<Longrightarrow> int (length (filter P (xs[i := x]))) =
     int (length (filter P xs)) - (if P (xs ! i) then 1 else 0) + (if P x then 1 else 0)"
proof (induction xs arbitrary: i)
  case (Cons a xs)
  show ?case
  proof (cases i)
    case (Suc j)
    then show ?thesis using Cons.IH[of j] Cons.prems by (simp split: if_splits)
  qed simp
qed simp

lemma the_set_proc [simp]: "i < length (h_procs s) \<Longrightarrow> the_proc (set_proc i pc s) i = pc"
  by (simp add: the_proc_def set_proc_def)

lemma set_proc_fields [simp]:
  "h_state (set_proc i pc s) = h_state s" "h_nprocs (set_proc i pc s) = h_nprocs s"
  "h_nconns (set_proc i pc s) = h_nconns s" "h_conns (set_proc i pc s) = h_conns s"
  "h_nalive (set_proc i pc s) = h_nalive s" "h_scrpid (set_proc i pc s) = h_scrpid s"
  "h_w (set_proc i pc s) = h_w s" "length (h_procs (set_proc i pc s)) = length (h_procs s)"
  by (simp_all add: set_proc_def)

lemma set_proc_same [simp]: "set_proc i (the_proc s i) s = s"
  by (simp add: set_proc_def the_proc_def)

lemma set_proc_world: "set_proc i pc (s \<lparr> h_w := w \<rparr>) = (set_proc i pc s) \<lparr> h_w := w \<rparr>"
  by (cases s) (simp add: set_proc_def)

lemma set_proc_nalive: "(set_proc i pc s) \<lparr> h_nalive := n \<rparr> = set_proc i pc (s \<lparr> h_nalive := n \<rparr>)"
  by (cases s) (simp add: set_proc_def)

lemma set_proc_twice [simp]: "set_proc i a (set_proc i b s) = set_proc i a s"
  by (simp add: set_proc_def)

lemma the_proc_world [simp]: "the_proc (s \<lparr> h_w := w \<rparr>) i = the_proc s i"
  "the_proc (s \<lparr> h_nalive := n \<rparr>) i = the_proc s i"
  by (simp_all add: the_proc_def)

lemma alive_count_set_proc:
  "i < length (h_procs s) \<Longrightarrow> alive_count (set_proc i pc s) =
     alive_count s - (if live_entry (the_proc s i) then 1 else 0) + (if live_entry pc then 1 else 0)"
  by (simp add: alive_count_def set_proc_def the_proc_def filter_update_count)

lemma shape_set_proc:
  assumes "hub_shape s" and "i < h_nprocs s" and "proc_ok pc"
  shows "hub_shape (set_proc i pc s)"
  using assms by (auto simp: hub_shape_def set_proc_def nth_list_update dest!: set_update_subset_insert[THEN subsetD])

lemma the_proc_ok: "hub_shape s \<Longrightarrow> i < NPROCS \<Longrightarrow> proc_ok (the_proc s i)"
  by (auto simp: hub_shape_def the_proc_def)

lemma hub_shape_world [simp]: "hub_shape (s \<lparr> h_w := w \<rparr>) = hub_shape s"
  "hub_shape (s \<lparr> h_nalive := n \<rparr>) = hub_shape s"
  "hub_shape (s \<lparr> h_state := st \<rparr>) = hub_shape s"
  "hub_shape (s \<lparr> h_scrpid := n \<rparr>) = hub_shape s"
  "hub_shape (s \<lparr> h_sigcnt := n \<rparr>) = hub_shape s"
  "hub_shape (s \<lparr> h_rbmode := m \<rparr>) = hub_shape s"
  "hub_shape (s \<lparr> h_ctlfd := n \<rparr>) = hub_shape s"
  by (simp_all add: hub_shape_def)

lemma alive_count_world [simp]: "alive_count (s \<lparr> h_w := w \<rparr>) = alive_count s"
  "alive_count (s \<lparr> h_nalive := n \<rparr>) = alive_count s"
  "alive_count (s \<lparr> h_state := st \<rparr>) = alive_count s"
  "alive_count (s \<lparr> h_scrpid := n \<rparr>) = alive_count s"
  "alive_count (s \<lparr> h_sigcnt := n \<rparr>) = alive_count s"
  "alive_count (s \<lparr> h_rbmode := m \<rparr>) = alive_count s"
  "alive_count (s \<lparr> h_ctlfd := n \<rparr>) = alive_count s"
  by (simp_all add: alive_count_def)

text \<open>
  \<open>touches i s s'\<close>: only the world and entry \<open>i\<close> changed, the entry is still well formed and as
  alive as it was.
\<close>

definition touches :: "nat \<Rightarrow> 'w hub \<Rightarrow> 'w hub \<Rightarrow> bool" where
  "touches i s s' \<longleftrightarrow> (\<exists>pc w. s' = set_proc i pc (s \<lparr> h_w := w \<rparr>) \<and> proc_ok pc \<and>
     live_entry pc = live_entry (the_proc s i) \<and> pc_flags pc = pc_flags (the_proc s i) \<and>
     pc_pid pc = pc_pid (the_proc s i) \<and> pc_name pc = pc_name (the_proc s i))"

definition world_only :: "'w hub \<Rightarrow> 'w hub \<Rightarrow> bool" where
  "world_only s s' \<longleftrightarrow> (\<exists>w. s' = s \<lparr> h_w := w \<rparr>)"

lemma touches_refl: "i < NPROCS \<Longrightarrow> hub_shape s \<Longrightarrow> touches i s s"
  unfolding touches_def
  by (rule exI[of _ "the_proc s i"], rule exI[of _ "h_w s"]) (simp add: the_proc_ok)

lemma touches_trans:
  assumes "i < NPROCS" and "hub_shape s" and "touches i s t" and "touches i t u"
  shows "touches i s u"
proof -
  have i: "i < length (h_procs s)" using assms(1,2) by (simp add: hub_shape_def)
  obtain p1 w1 where 1: "t = set_proc i p1 (s \<lparr> h_w := w1 \<rparr>)" "live_entry p1 = live_entry (the_proc s i)"
      "pc_flags p1 = pc_flags (the_proc s i)" "pc_pid p1 = pc_pid (the_proc s i)" "pc_name p1 = pc_name (the_proc s i)"
    using assms(3) by (auto simp: touches_def)
  obtain p2 w2 where 2: "u = set_proc i p2 (t \<lparr> h_w := w2 \<rparr>)" "proc_ok p2" "live_entry p2 = live_entry (the_proc t i)"
      "pc_flags p2 = pc_flags (the_proc t i)" "pc_pid p2 = pc_pid (the_proc t i)" "pc_name p2 = pc_name (the_proc t i)"
    using assms(4) by (auto simp: touches_def)
  have "the_proc t i = p1" using i 1(1) by simp
  moreover have "u = set_proc i p2 (s \<lparr> h_w := w2 \<rparr>)" by (simp add: 1(1) 2(1) set_proc_world)
  ultimately show ?thesis using 1 2 unfolding touches_def by metis
qed

lemma world_touches: "i < NPROCS \<Longrightarrow> hub_shape s \<Longrightarrow> world_only s t \<Longrightarrow> touches i s t"
  unfolding world_only_def touches_def
  by (elim exE, rule exI[of _ "the_proc s i"]) (auto simp: the_proc_ok set_proc_world)

lemma touches_shape: "i < h_nprocs s \<Longrightarrow> hub_shape s \<Longrightarrow> touches i s t \<Longrightarrow> hub_shape t"
  by (auto simp: touches_def intro!: shape_set_proc)

lemma touches_hstep:
  assumes "i < h_nprocs s" and "hub_inv s" and "touches i s t"
  shows "hstep s t"
proof -
  have "i < length (h_procs s)" using assms(1,2) by (auto simp: hub_inv_def hub_shape_def)
  then show ?thesis using assms
    by (auto simp: hstep_def hub_inv_def touches_def alive_count_set_proc intro!: shape_set_proc)
qed

lemma world_hstep: "hub_inv s \<Longrightarrow> world_only s t \<Longrightarrow> hstep s t"
  by (auto simp: hstep_def hub_inv_def world_only_def)

lemma world_refl: "world_only s s"
  unfolding world_only_def by (rule exI[of _ "h_w s"]) simp

lemma world_trans: "world_only s t \<Longrightarrow> world_only t u \<Longrightarrow> world_only s u"
  by (auto simp: world_only_def)

section \<open>Operations on the world only\<close>

lemma call_world: "call f s = (r, t) \<Longrightarrow> world_only s t"
  by (auto simp: call_def world_only_def split: prod.splits)

lemma hwarn_world: "hwarn sys msg obj ret s = Some t \<Longrightarrow> world_only s t"
  by (auto simp: hwarn_def world_only_def split: bind_splits)

lemma add_epoll_world: "add_epoll_fd sys fd key s = Some (r, t) \<Longrightarrow> world_only s t"
  by (auto simp: add_epoll_fd_def split: prod.splits bind_splits if_splits
      dest!: call_world hwarn_world intro: world_trans)

lemma del_epoll_world: "del_epoll_fd sys fd s = Some t \<Longrightarrow> world_only s t"
  by (auto simp: del_epoll_fd_def split: prod.splits if_splits dest!: call_world hwarn_world intro: world_trans)

lemma index_world: "index_of sys p n r s = Some (k, t) \<Longrightarrow> world_only s t"
  by (auto simp: index_of_def world_refl split: bind_splits if_splits dest!: hwarn_world)

lemma add_proc_fd_world: "add_proc_fd sys fd i s = Some t \<Longrightarrow> world_only s t"
  by (auto simp: add_proc_fd_def proc_index_def split: bind_splits
      dest!: index_world add_epoll_world intro: world_trans)

lemma add_conn_fd_world: "add_conn_fd sys fd i s = Some t \<Longrightarrow> world_only s t"
  by (auto simp: add_conn_fd_def conn_index_def split: bind_splits
      dest!: index_world add_epoll_world intro: world_trans)

lemma report_dead_world: "report_dead sys i st s = Some t \<Longrightarrow> world_only s t"
  by (auto simp: report_dead_def split: bind_splits prod.splits dest!: call_world)

lemma hub_send_world: "hub_send sys fd uc s = Some (r, t) \<Longrightarrow> world_only s t"
  by (auto simp: hub_send_def world_only_def split: bind_splits)

lemma hub_wait_world: "hub_wait sys fd s = (r, t) \<Longrightarrow> world_only s t"
  by (auto simp: hub_wait_def dest: call_world)

section \<open>Operations on one entry\<close>

lemma touchesI:
  assumes "t = set_proc i pc (s \<lparr> h_w := w \<rparr>)" and "proc_ok pc" and "pc_flags pc = pc_flags (the_proc s i)"
    and "pc_pid pc = pc_pid (the_proc s i)" and "pc_name pc = pc_name (the_proc s i)"
  shows "touches i s t"
  using assms by (auto simp: touches_def live_entry_def)

lemma world_set_touches:
  assumes "world_only s t" and "u = set_proc i pc t" and "proc_ok pc" and "pc_flags pc = pc_flags (the_proc s i)"
    and "pc_pid pc = pc_pid (the_proc s i)" and "pc_name pc = pc_name (the_proc s i)"
  shows "touches i s u"
  using assms by (auto simp: world_only_def intro!: touchesI)

lemma world_the_proc: "world_only s t \<Longrightarrow> the_proc t i = the_proc s i"
  by (auto simp: world_only_def)

lemma close_proc_touches:
  assumes "i < NPROCS" and "hub_shape s" and "close_proc sys i s = Some t"
  shows "touches i s t"
proof (cases "pc_fd (the_proc s i) < 0")
  case True
  then show ?thesis using assms by (simp add: close_proc_def touches_refl)
next
  case False
  then obtain s1 r s2 where 1: "del_epoll_fd sys (pc_fd (the_proc s i)) s = Some s1"
      "call (sys_close sys (pc_fd (the_proc s i))) s1 = (r, s2)" "t = set_proc i (the_proc s2 i \<lparr> pc_fd := - 1 \<rparr>) s2"
    using assms(3) by (auto simp: close_proc_def Let_def split: bind_splits prod.splits if_splits)
  then have w: "world_only s s2" using del_epoll_world call_world world_trans by blast
  show ?thesis
    using the_proc_ok[OF assms(2,1)] by (intro world_set_touches[OF w 1(3)]) (simp_all add: world_the_proc[OF w])
qed

lemma flush_touches:
  assumes "i < NPROCS" and "hub_shape s" and "flush_ring_buf sys i s = (r, t)"
  shows "touches i s t"
proof (cases "pc_buf (the_proc s i)")
  case None
  then show ?thesis using assms by (simp add: flush_ring_buf_def touches_refl)
next
  case (Some b)
  obtain q s1 where 1: "call (sys_munmap sys) s = (q, s1)" by (cases "call (sys_munmap sys) s")
  note w = call_world[OF 1]
  show ?thesis using assms Some 1 the_proc_ok[OF assms(2,1)]
    by (auto simp: flush_ring_buf_def proc_ok_def world_the_proc[OF w] RINGSIZE_def split: if_splits
        intro!: world_set_touches[OF w refl])
qed

lemma update_time_touches:
  assumes "i < NPROCS" and "hub_shape s" and "update_proc_time sys i s = Some t"
  shows "touches i s t"
proof -
  obtain ret sec w where "sys_clock_gettime sys (h_w s) = (ret, sec, w)" by (cases "sys_clock_gettime sys (h_w s)")
  then have t: "t = set_proc i (the_proc s i \<lparr> pc_time := word_of_int sec \<rparr>) (s \<lparr> h_w := w \<rparr>)"
    using assms(3) by (auto simp: update_proc_time_def split: if_splits)
  show ?thesis using the_proc_ok[OF assms(2,1)] by (intro touchesI[OF t]) simp_all
qed

lemma ring_store_length: "ring_store ring off data = Some r \<Longrightarrow> length r = length ring"
  by (auto simp: ring_store_def split: bind_splits dest!: wrs_length)

lemma ring_advance_bound: "p < 2 * RINGSIZE \<Longrightarrow> 0 \<le> n \<Longrightarrow> ring_advance p n < 2 * RINGSIZE"
  by (simp add: ring_advance_def RINGSIZE_def Let_def nat_less_iff)

lemma check_read_touches:
  assumes "i < NPROCS" and "hub_shape s" and "check_read sys i buf p s = Some t" and "readv_ok sys"
    and "length buf = RINGSIZE" and "p < 2 * RINGSIZE"
  shows "touches i s t"
proof -
  obtain ret data w where rv: "sys_readv sys (pc_fd (the_proc s i)) RINGSIZE (h_w s) = (ret, data, w)"
    by (cases "sys_readv sys (pc_fd (the_proc s i)) RINGSIZE (h_w s)")
  have w: "world_only s (s \<lparr> h_w := w \<rparr>)" by (auto simp: world_only_def)
  show ?thesis
  proof (cases "ret < 0")
    case True
    then have "close_proc sys i (s \<lparr> h_w := w \<rparr>) = Some t"
      using assms(3) rv by (simp add: check_read_def Let_def)
    then have "touches i (s \<lparr> h_w := w \<rparr>) t" using assms(1,2) by (intro close_proc_touches) simp_all
    then show ?thesis using touches_trans[OF assms(1,2) world_touches[OF assms(1,2) w]] by blast
  next
    case False
    then obtain b where "ring_store buf (p mod RINGSIZE) data = Some b"
        and t: "t = set_proc i (the_proc s i \<lparr> pc_buf := Some b, pc_ptr := ring_advance p ret \<rparr>) (s \<lparr> h_w := w \<rparr>)"
      using assms(3) rv by (auto simp: check_read_def Let_def split: bind_splits)
    then have "length b = RINGSIZE" using ring_store_length assms(5) by metis
    moreover have "ring_advance p ret < 2 * RINGSIZE" using False assms(6) by (intro ring_advance_bound) simp_all
    ultimately show ?thesis using t the_proc_ok[OF assms(2,1)]
      by (intro touchesI[OF t]) (simp_all add: proc_ok_def)
  qed
qed

lemma check_proc_touches:
  assumes "i < NPROCS" and "i < h_nprocs s" and "hub_shape s" and "check_proc sys i s = Some t" and "readv_ok sys"
  shows "touches i s t"
proof (cases "pc_buf (the_proc s i)")
  case (Some b)
  then show ?thesis
    using assms the_proc_ok[OF assms(3,1)] check_read_touches[OF assms(1,3) _ assms(5)]
    by (simp add: check_proc_def Let_def proc_ok_def)
next
  case None
  obtain err w where m: "sys_mmap sys (h_w s) = (err, w)" by (cases "sys_mmap sys (h_w s)")
  let ?s = "s \<lparr> h_w := w \<rparr>" and ?b = "replicate RINGSIZE (0 :: byte)"
  let ?u = "set_proc i (the_proc s i \<lparr> pc_buf := Some ?b, pc_ptr := 0 \<rparr>) ?s"
  have u: "touches i s ?u" using the_proc_ok[OF assms(3,1)]
    by (intro touchesI[OF refl]) (simp_all add: proc_ok_def RINGSIZE_def)
  show ?thesis
  proof (cases err)
    case True
    then have "touches i ?s t" using assms None m by (intro close_proc_touches) (simp_all add: check_proc_def Let_def)
    then show ?thesis using touches_trans[OF assms(1,3) world_touches[OF assms(1,3)]] by (auto simp: world_only_def)
  next
    case False
    then have "check_read sys i ?b 0 ?u = Some t" using assms(4) None m by (simp add: check_proc_def Let_def)
    then have "touches i ?u t"
      by (rule check_read_touches[OF assms(1) touches_shape[OF assms(2,3) u] _ assms(5)])
        (simp_all add: RINGSIZE_def)
    then show ?thesis by (rule touches_trans[OF assms(1,3) u])
  qed
qed

section \<open>Starting a service\<close>

text \<open>\<open>born i s s'\<close>: entry \<open>i\<close> got a process, and the count of running services grew by one.\<close>

definition born :: "nat \<Rightarrow> 'w hub \<Rightarrow> 'w hub \<Rightarrow> bool" where
  "born i s s' \<longleftrightarrow> (\<exists>pc w. s' = set_proc i pc (s \<lparr> h_w := w, h_nalive := h_nalive s + 1 \<rparr>) \<and> proc_ok pc \<and>
     0 < pc_pid pc \<and> pc_flags pc = pc_flags (the_proc s i) \<and> pc_name pc = pc_name (the_proc s i))"

lemma touches_cases:
  assumes "touches i s t" and "i < length (h_procs s)"
  obtains pc w where "t = set_proc i pc (s \<lparr> h_w := w \<rparr>)" and "proc_ok pc" and "the_proc t i = pc"
    and "pc_flags pc = pc_flags (the_proc s i)" and "pc_pid pc = pc_pid (the_proc s i)"
    and "pc_name pc = pc_name (the_proc s i)"
  using assms by (auto simp: touches_def)

lemma touches_live:
  "touches i s t \<Longrightarrow> i < length (h_procs s) \<Longrightarrow> live_entry (the_proc t i) = live_entry (the_proc s i)"
  by (erule touches_cases, assumption) (simp add: live_entry_def)

lemma touches_born:
  assumes "i < length (h_procs s)" and "touches i s t" and "born i t u"
  shows "born i s u"
proof -
  obtain pc w where "t = set_proc i pc (s \<lparr> h_w := w \<rparr>)" "the_proc t i = pc"
      "pc_flags pc = pc_flags (the_proc s i)" "pc_name pc = pc_name (the_proc s i)"
    by (rule touches_cases[OF assms(2,1)])
  then show ?thesis using assms(3) by (auto simp: born_def set_proc_def)
qed

lemma born_touches:
  assumes "i < length (h_procs s)" and "born i s t" and "touches i t u"
  shows "born i s u"
proof -
  obtain pc w where b: "t = set_proc i pc (s \<lparr> h_w := w, h_nalive := h_nalive s + 1 \<rparr>)" "0 < pc_pid pc"
      "pc_flags pc = pc_flags (the_proc s i)" "pc_name pc = pc_name (the_proc s i)"
    using assms(2) by (auto simp: born_def)
  then have "i < length (h_procs t)" "the_proc t i = pc" using assms(1) by (simp_all add: the_proc_def set_proc_def)
  then obtain qc v where q: "u = set_proc i qc (t \<lparr> h_w := v \<rparr>)" "proc_ok qc" "pc_flags qc = pc_flags pc"
      "pc_pid qc = pc_pid pc" "pc_name qc = pc_name pc"
    using touches_cases[OF assms(3)] by metis
  have "u = set_proc i qc (s \<lparr> h_w := v, h_nalive := h_nalive s + 1 \<rparr>)"
    by (simp add: q(1) b(1) set_proc_def)
  then show ?thesis using b q unfolding born_def by metis
qed

lemma born_hstep:
  assumes "hub_inv s" and "i < h_nprocs s" and "born i s t" and "\<not> live_entry (the_proc s i)"
    and "hasf (pc_flags (the_proc s i)) P_IN_USE" and "\<not> hasf (pc_flags (the_proc s i)) P_STATUS"
  shows "hstep s t"
proof -
  have len: "i < length (h_procs s)" using assms(1,2) by (auto simp: hub_inv_def hub_shape_def)
  obtain pc w where t: "t = set_proc i pc (s \<lparr> h_w := w, h_nalive := h_nalive s + 1 \<rparr>)" and ok: "proc_ok pc"
      and pc: "0 < pc_pid pc" "pc_flags pc = pc_flags (the_proc s i)"
    using assms(3) by (auto simp: born_def)
  have "live_entry pc" using pc assms(5,6) in_use_nonzero by (auto simp: live_entry_def)
  moreover have "hub_shape t" unfolding t using assms(1,2) ok
    by (intro shape_set_proc) (simp_all add: hub_inv_def)
  ultimately show ?thesis using assms(1,4) len
    by (simp add: hstep_def hub_inv_def t alive_count_set_proc)
qed

lemma touches_world: "touches i s t \<Longrightarrow> touches i s (t \<lparr> h_w := v \<rparr>)"
proof -
  assume "touches i s t"
  then obtain pc w where pc: "t = set_proc i pc (s \<lparr> h_w := w \<rparr>)" "proc_ok pc" "pc_flags pc = pc_flags (the_proc s i)"
      "pc_pid pc = pc_pid (the_proc s i)" "pc_name pc = pc_name (the_proc s i)"
    by (auto simp: touches_def)
  have "t \<lparr> h_w := v \<rparr> = set_proc i pc (s \<lparr> h_w := v \<rparr>)" by (simp add: pc(1) set_proc_world)
  then show ?thesis by (rule touchesI) (use pc in simp_all)
qed

lemma save_pipe_touches:
  assumes "i < NPROCS" and "hub_shape s" and "save_child_pipe sys i pipe s = Some t"
  shows "touches i s t"
proof (cases pipe)
  case None
  then show ?thesis using assms by (simp add: save_child_pipe_def touches_refl)
next
  case (Some p)
  obtain rfd wfd where "p = (rfd, wfd)" by (cases p)
  then obtain q s1 where 1: "call (sys_close sys wfd) s = (q, s1)"
      "add_proc_fd sys rfd i (set_proc i (the_proc s1 i \<lparr> pc_fd := rfd \<rparr>) s1) = Some t"
    using assms(3) Some by (auto simp: save_child_pipe_def split: prod.splits if_splits)
  note w = call_world[OF 1(1)]
  have tu: "touches i s (set_proc i (the_proc s1 i \<lparr> pc_fd := rfd \<rparr>) s1)"
    using the_proc_ok[OF assms(2,1)] by (intro world_set_touches[OF w refl]) (simp_all add: world_the_proc[OF w])
  obtain v where "t = (set_proc i (the_proc s1 i \<lparr> pc_fd := rfd \<rparr>) s1) \<lparr> h_w := v \<rparr>"
    using add_proc_fd_world[OF 1(2)] by (auto simp: world_only_def)
  then show ?thesis using touches_world[OF tu] by simp
qed

lemma spawn_fork_born:
  assumes "kernel_ok sys" and "i < h_nprocs s" and "hub_shape s" and "hasf (pc_flags (the_proc s i)) P_IN_USE"
    and "spawn_fork sys i path ret pipe s = Some (r, t)"
  shows "r = 0 \<and> born i s t"
proof -
  have i: "i < NPROCS" "i < length (h_procs s)" using assms(2,3) by (auto simp: hub_shape_def)
  obtain pid s1 where 1: "call (sys_fork sys path [Some path] pipe) s = (pid, s1)"
    by (cases "call (sys_fork sys path [Some path] pipe) s")
  obtain w where s1: "s1 = s \<lparr> h_w := w \<rparr>" using call_world[OF 1] by (auto simp: world_only_def)
  have pid: "0 < pid" using assms(1) 1 by (auto simp: kernel_ok_def fork_works_def call_def split: prod.splits)
    (metis fst_conv)
  let ?pc = "the_proc s i \<lparr> pc_pid := pid \<rparr>"
  let ?s = "set_proc i ?pc (s \<lparr> h_w := w, h_nalive := h_nalive s + 1 \<rparr>)"
  have ok: "proc_ok ?pc" using the_proc_ok[OF assms(3) i(1)] assms(4) in_use_nonzero[OF assms(4)]
    by (simp add: proc_ok_def split: option.splits)
  then have b: "born i s ?s" using pid unfolding born_def by (metis (no_types, lifting) proc.select_convs proc.surjective proc.update_convs(2))
  have "r = 0 \<and> save_child_pipe sys i pipe ?s = Some t"
    using assms(5) 1 pid s1 by (simp add: spawn_fork_def set_proc_nalive split: bind_splits)
  moreover have "hub_shape ?s" using assms(2,3) ok by (intro shape_set_proc) simp_all
  ultimately show ?thesis using born_touches[OF i(2) b] save_pipe_touches[OF i(1)] by blast
qed

lemma spawn_path_born:
  assumes "kernel_ok sys" and "i < h_nprocs s" and "hub_shape s" and "hasf (pc_flags (the_proc s i)) P_IN_USE"
    and "spawn_path sys i path s = Some (r, t)"
  shows "(r < 0 \<and> world_only s t) \<or> (r = 0 \<and> born i s t)"
proof -
  have i: "i < NPROCS" "i < length (h_procs s)" using assms(2,3) by (auto simp: hub_shape_def)
  obtain q s1 where 1: "call (sys_access sys path) s = (q, s1)" by (cases "call (sys_access sys path) s")
  obtain w where s1: "s1 = s \<lparr> h_w := w \<rparr>" using call_world[OF 1] by (auto simp: world_only_def)
  have born1: "born i (s \<lparr> h_w := v \<rparr>) t \<Longrightarrow> born i s t" for v
    by (rule touches_born[OF i(2) world_touches[OF i(1) assms(3)]]) (auto simp: world_only_def)
  have fork: "spawn_fork sys i path ret pipe (s \<lparr> h_w := v \<rparr>) = Some (r, t) \<Longrightarrow> r = 0 \<and> born i s t" for ret pipe v
    using spawn_fork_born[OF assms(1), of i "s \<lparr> h_w := v \<rparr>" path ret pipe r t] assms(2-4) born1[of v] by simp
  consider "q < 0" | "q \<ge> 0" "hasf (pc_flags (the_proc s i)) P_PASS" | "q \<ge> 0" "\<not> hasf (pc_flags (the_proc s i)) P_PASS"
    by linarith
  then show ?thesis
  proof cases
    case 1
    then show ?thesis using assms(5) \<open>call _ s = _\<close> s1 by (auto simp: spawn_path_def world_only_def)
  next
    case 2
    then show ?thesis using assms(5) 1 s1 fork by (auto simp: spawn_path_def)
  next
    case 3
    obtain ret rfd wfd v where p: "sys_pipe2 sys w = (ret, rfd, wfd, v)" by (cases "sys_pipe2 sys w")
    have "ret \<le> 0" using assms(1) p unfolding kernel_ok_def pipe_ok_def by (metis fst_conv)
    then show ?thesis using assms(5) 1 s1 3 p fork[of _ _ v]
      by (auto simp: spawn_path_def world_only_def Let_def split: if_splits)
  qed
qed

lemma spawn_proc_born:
  assumes "kernel_ok sys" and "i < h_nprocs s" and "hub_shape s" and "hasf (pc_flags (the_proc s i)) P_IN_USE"
    and "spawn_proc sys i s = Some (r, t)"
  shows "(r < 0 \<and> world_only s t) \<or> (r = 0 \<and> born i s t)"
proof -
  obtain path where "spawn_path sys i path s = Some (r, t)"
    using assms(5) by (auto simp: spawn_proc_def Let_def split: bind_splits)
  then show ?thesis by (rule spawn_path_born[OF assms(1-4)])
qed

text \<open>Spawning and then setting the start time, as both ways of starting a service do.\<close>

lemma spawn_timed:
  assumes "kernel_ok sys" and "i < h_nprocs s" and "hub_shape s" and "hasf (pc_flags (the_proc s i)) P_IN_USE"
    and "(do { (ret, s) \<leftarrow> spawn_proc sys i s;
           if ret < 0 then Some (ret, s) else do { s \<leftarrow> update_proc_time sys i s; Some (ret, s) } }) = Some (r, t)"
  shows "(r < 0 \<and> world_only s t) \<or> (r = 0 \<and> born i s t)"
proof -
  have i: "i < NPROCS" "i < length (h_procs s)" using assms(2,3) by (auto simp: hub_shape_def)
  obtain q s1 where 1: "spawn_proc sys i s = Some (q, s1)" using assms(5) by (auto split: bind_splits)
  consider "q < 0" "world_only s s1" | "q = 0" "born i s s1" using spawn_proc_born[OF assms(1-4) 1] by blast
  then show ?thesis
  proof cases
    case 1
    then show ?thesis using assms(5) \<open>spawn_proc sys i s = Some (q, s1)\<close> by simp
  next
    case 2
    then have "update_proc_time sys i s1 = Some t" "r = 0" using assms(5) 1 by (auto split: bind_splits)
    moreover have "hub_shape s1" using 2(2) assms(2,3) by (auto simp: born_def intro!: shape_set_proc)
    ultimately show ?thesis using update_time_touches[OF i(1)] born_touches[OF i(2) 2(2)] by blast
  qed
qed

lemma find_name_bound:
  "find_name ps name k = Some (Some i) \<Longrightarrow> k \<le> i \<and> i < k + length ps \<and> strcmpn (pc_name (ps ! (i - k))) name 16 = Some 0"
proof (induction ps arbitrary: k)
  case (Cons pc ps)
  show ?case
  proof (cases "strcmpn (pc_name pc) name 16 = Some 0")
    case True
    then show ?thesis using Cons.prems by auto
  next
    case False
    then have "find_name ps name (k + 1) = Some (Some i)" using Cons.prems by (auto split: bind_splits if_splits)
    from Cons.IH[OF this] show ?thesis by (auto simp: nth_Cons')
  qed
qed simp

lemma find_by_name_ok:
  assumes "hub_shape s" and "find_by_name s name = Some (Some i)"
  shows "i < h_nprocs s" and "hasf (pc_flags (the_proc s i)) P_IN_USE"
proof -
  obtain c nm where name: "name = c # nm" "c \<noteq> 0"
      and f: "find_name (take (h_nprocs s) (h_procs s)) name 0 = Some (Some i)"
    using assms(2) by (auto simp: find_by_name_def split: list.splits if_splits)
  from find_name_bound[OF f] show i: "i < h_nprocs s" by simp
  have eq: "strcmpn (pc_name (the_proc s i)) name 16 = Some 0"
    using find_name_bound[OF f] i by (simp add: the_proc_def)
  have ok: "proc_ok (the_proc s i)" using assms(1) i by (intro the_proc_ok) (auto simp: hub_shape_def)
  then obtain x xs where x: "pc_name (the_proc s i) = x # xs" by (cases "pc_name (the_proc s i)") (auto simp: proc_ok_def)
  have "x \<noteq> 0" using eq name by (auto simp: x eval_nat_numeral Let_def split: if_splits)
  then show "hasf (pc_flags (the_proc s i)) P_IN_USE" using ok x by (auto simp: proc_ok_def split: if_splits)
qed

section \<open>The commands on a service\<close>

lemma set_same_live_hstep:
  assumes "hub_inv s" and "i < h_nprocs s" and "proc_ok pc" and "live_entry pc = live_entry (the_proc s i)"
  shows "hstep s (set_proc i pc s)"
proof -
  have "i < length (h_procs s)" using assms(1,2) by (auto simp: hub_inv_def hub_shape_def)
  then show ?thesis using assms by (auto simp: hstep_def hub_inv_def alive_count_set_proc intro!: shape_set_proc)
qed

lemma inv_bounds:
  assumes "hub_inv s" and "i < h_nprocs s"
  shows "i < NPROCS" and "i < length (h_procs s)" and "hub_shape s"
  using assms by (auto simp: hub_inv_def hub_shape_def)

lemma spawn_timed_hstep:
  assumes "kernel_ok sys" and "hub_inv s" and "i < h_nprocs s" and "hasf (pc_flags (the_proc s i)) P_IN_USE"
    and "\<not> hasf (pc_flags (the_proc s i)) P_STATUS" and "\<not> live_entry (the_proc s i)"
    and "(do { (ret, s) \<leftarrow> spawn_proc sys i s;
           if ret < 0 then Some (ret, s) else do { s \<leftarrow> update_proc_time sys i s; Some (ret, s) } }) = Some (r, t)"
  shows "hstep s t \<and> (r < 0 \<longrightarrow> world_only s t)"
  using spawn_timed[OF assms(1,3) inv_bounds(3)[OF assms(2,3)] assms(4,7)]
    born_hstep[OF assms(2,3) _ assms(6,4,5)] world_hstep[OF assms(2)]
  by auto

lemma restart_hstep:
  assumes "kernel_ok sys" and "hub_inv s" and "i < h_nprocs s" and "hasf (pc_flags (the_proc s i)) P_IN_USE"
    and "restart_proc sys i flags s = Some (r, t)"
  shows "hstep s t"
proof -
  note b = inv_bounds[OF assms(2,3)]
  let ?pc = "the_proc s i"
  consider "flags \<noteq> 0 \<or> (\<not> hasf (pc_flags ?pc) P_STATUS \<and> pc_pid ?pc \<noteq> 0)"
    | "flags = 0" "hasf (pc_flags ?pc) P_STATUS \<or> pc_pid ?pc = 0" by blast
  then show ?thesis
  proof cases
    case 1
    then have "t = s" using assms(5) by (auto simp: restart_proc_def Let_def split: if_splits)
    then show ?thesis using assms(2) by (simp add: hstep_refl)
  next
    case 2
    define s1 where "s1 = (if hasf (pc_flags ?pc) P_STATUS
      then set_proc i (?pc \<lparr> pc_flags := pc_flags ?pc AND NOT (P_STATUS OR P_KILLED), pc_pid := 0 \<rparr>) s else s)"
    define x where "x = (if pc_buf (the_proc s1 i) = None then (0, s1) else flush_ring_buf sys i s1)"
    obtain q s2 where x2: "x = (q, s2)" by (cases x)
    have pc1: "hasf (pc_flags (the_proc s1 i)) P_IN_USE" "\<not> hasf (pc_flags (the_proc s1 i)) P_STATUS"
      "pc_pid (the_proc s1 i) = 0"
      using assms(4) 2(2) b(2) by (auto simp: s1_def)
    have ok: "proc_ok (?pc \<lparr> pc_flags := pc_flags ?pc AND NOT (P_STATUS OR P_KILLED), pc_pid := 0 \<rparr>)"
    proof -
      have "hasf (pc_flags ?pc AND NOT (P_STATUS OR P_KILLED)) P_IN_USE" using assms(4) by simp
      then show ?thesis using the_proc_ok[OF b(3,1)] in_use_nonzero by (auto simp: proc_ok_def split: option.splits)
    qed
    have "hstep s s1"
      using ok set_same_live_hstep[OF assms(2,3) ok] hstep_refl[OF assms(2)]
      by (auto simp: s1_def live_entry_def)
    moreover have n1: "i < h_nprocs s1" using assms(3) by (simp add: s1_def)
    ultimately have inv1: "hub_inv s1" and h1: "hstep s s1" by (auto dest: hstepD)
    note b1 = inv_bounds[OF inv1 n1]
    have tu: "touches i s1 s2"
      using x2 flush_touches[OF b1(1,3)] touches_refl[OF b1(1,3)] by (auto simp: x_def split: if_splits)
    have h2: "hstep s s2" using hstep_trans[OF h1] touches_hstep[OF n1 inv1 tu] by blast
    have the2: "pc_flags (the_proc s2 i) = pc_flags (the_proc s1 i)" "pc_pid (the_proc s2 i) = 0"
      using touches_cases[OF tu b1(2)] pc1(3) by metis+
    have n2: "i < h_nprocs s2" using tu n1 by (auto simp: touches_def)
    have t: "(if q < 0 then Some (q, s2) else (do { (ret, s) \<leftarrow> spawn_proc sys i s2;
        if ret < 0 then Some (ret, s) else do { s \<leftarrow> update_proc_time sys i s; Some (ret, s) } })) = Some (r, t)"
      using assms(5) 2 x2 unfolding restart_proc_def Let_def s1_def[symmetric] x_def[symmetric]
      by (auto split: if_splits)
    show ?thesis
    proof (cases "q < 0")
      case True
      then show ?thesis using t h2 by simp
    next
      case False
      then have "hstep s2 t"
        using t spawn_timed_hstep[OF assms(1) hstepD[OF h2] n2, of r t] pc1 the2 by (simp add: live_entry_def)
      then show ?thesis using hstep_trans[OF h2] by blast
    qed
  qed
qed

lemma find_free_bound: "find_free ps k = Some i \<Longrightarrow> k \<le> i \<and> i < k + length ps \<and> pc_flags (ps ! (i - k)) = 0"
proof (induction ps arbitrary: k)
  case (Cons pc ps)
  show ?case
  proof (cases "pc_flags pc = 0")
    case False
    then have "find_free ps (k + 1) = Some i" using Cons.prems by simp
    from Cons.IH[OF this] show ?thesis by (auto simp: nth_Cons')
  qed (use Cons.prems in auto)
qed simp

lemma grab_slot:
  assumes "hub_inv s" and "grab_proc_slot s = (Some i, t)"
  shows "hstep s t" and "i < h_nprocs t" and "\<not> live_entry (the_proc t i)"
proof -
  have shape: "hub_shape s" using assms(1) by (simp add: hub_inv_def)
  have "hstep s t \<and> i < h_nprocs t \<and> pc_flags (the_proc t i) = 0"
  proof (cases "find_free (take (h_nprocs s) (h_procs s)) 0")
    case (Some j)
    then have "t = s" "j = i" using assms(2) by (auto simp: grab_proc_slot_def)
    then show ?thesis using find_free_bound[OF Some] assms(1) by (auto simp: hstep_refl the_proc_def)
  next
    case None
    then have t: "h_nprocs s < NPROCS" "i = h_nprocs s" "t = s \<lparr> h_nprocs := h_nprocs s + 1 \<rparr>"
      using assms(2) by (auto simp: grab_proc_slot_def split: if_splits)
    then show ?thesis using assms(1) by (auto simp: hstep_def hub_inv_def hub_shape_def alive_count_def the_proc_def)
  qed
  then show "hstep s t" "i < h_nprocs t" "\<not> live_entry (the_proc t i)" by (auto simp: live_entry_def)
qed

lemma grab_slot_full: "grab_proc_slot s = (None, t) \<Longrightarrow> t = s"
  by (auto simp: grab_proc_slot_def split: option.splits if_splits)

lemma fresh_proc_ok: "length nm = 16 \<Longrightarrow> proc_ok (zero_proc \<lparr> pc_flags := P_IN_USE OR flags, pc_fd := - 1, pc_name := nm \<rparr>)"
  using in_use_nonzero[of "P_IN_USE OR flags"] by (simp add: proc_ok_def zero_proc_def RINGSIZE_def)

lemma prep_hstep:
  assumes "kernel_ok sys" and "hub_inv s" and "i < h_nprocs s" and "\<not> live_entry (the_proc s i)"
    and "\<not> hasf flags P_STATUS" and "prep_and_start sys i name flags s = Some (r, t)"
  shows "hstep s t \<and> i < h_nprocs t \<and> (r < 0 \<longrightarrow> \<not> live_entry (the_proc t i))"
proof -
  note b = inv_bounds[OF assms(2,3)]
  obtain len where len: "strlen name = Some len" using assms(6) by (auto simp: prep_and_start_def split: bind_splits)
  show ?thesis
  proof (cases "len > 16")
    case True
    then have t: "t = set_proc i zero_proc s" using assms(6) len by (simp add: prep_and_start_def)
    show ?thesis
      unfolding t using set_same_live_hstep[OF assms(2,3), of zero_proc] assms(3,4) b(2) by simp
  next
    case False
    obtain nm where nm: "wrs (pc_name zero_proc) 0 (take len name) = Some nm"
        and t: "(do { (ret, s) \<leftarrow> spawn_proc sys i (set_proc i (zero_proc \<lparr> pc_flags := P_IN_USE OR flags, pc_fd := - 1, pc_name := nm \<rparr>) (set_proc i zero_proc s));
           if ret < 0 then Some (ret, s) else do { s \<leftarrow> update_proc_time sys i s; Some (ret, s) } }) = Some (r, t)"
      using assms(6) len False by (auto simp: prep_and_start_def Let_def split: bind_splits)
    let ?pc = "zero_proc \<lparr> pc_flags := P_IN_USE OR flags, pc_fd := - 1, pc_name := nm \<rparr>"
    let ?s = "set_proc i ?pc s"
    have "length nm = 16" using wrs_length[OF nm] by (simp add: zero_proc_def)
    then have ok: "proc_ok ?pc" by (rule fresh_proc_ok)
    have dead: "\<not> live_entry ?pc" by (simp add: live_entry_def zero_proc_def)
    have h: "hstep s ?s" using set_same_live_hstep[OF assms(2,3) ok] dead assms(4) by blast
    have n: "i < h_nprocs ?s" using assms(3) by simp
    have "hstep ?s t \<and> (r < 0 \<longrightarrow> world_only ?s t)"
      using t assms(5) dead b(2) by (intro spawn_timed_hstep[OF assms(1) hstepD[OF h] n]) simp_all
    moreover from this have "h_nprocs t = h_nprocs ?s \<or> 0 \<le> r" by (auto simp: world_only_def)
    moreover have "0 \<le> r \<Longrightarrow> i < h_nprocs t"
      using spawn_timed[OF assms(1) n inv_bounds(3)[OF hstepD[OF h] n], of r t] t b(2) assms(3) by (auto simp: born_def)
    ultimately show ?thesis using hstep_trans[OF h] dead b(2) assms(3) by (auto simp: world_the_proc)
  qed
qed

lemma start_hstep:
  assumes "kernel_ok sys" and "hub_inv s" and "\<not> hasf flags P_STATUS" and "start_proc sys name flags s = Some (r, t)"
  shows "hstep s t"
proof -
  have shape: "hub_shape s" using assms(2) by (simp add: hub_inv_def)
  obtain f where f: "find_by_name s name = Some f" using assms(4) by (auto simp: start_proc_def split: bind_splits)
  show ?thesis
  proof (cases f)
    case (Some i)
    then show ?thesis using assms(4) f find_by_name_ok[OF shape, of name i]
      by (intro restart_hstep[OF assms(1,2), of i flags r]) (simp_all add: start_proc_def)
  next
    case None
    obtain o1 s1 where g: "grab_proc_slot s = (o1, s1)" by (cases "grab_proc_slot s")
    show ?thesis
    proof (cases o1)
      case None
      then show ?thesis using assms(2,4) f \<open>f = None\<close> g grab_slot_full[of s s1] by (auto simp: start_proc_def hstep_refl)
    next
      case (Some i)
      note gs = grab_slot[OF assms(2) g[unfolded Some]]
      obtain q s2 where p: "prep_and_start sys i name flags s1 = Some (q, s2)"
          and t: "t = (if q < 0 then set_proc i zero_proc s2 else s2)"
        using assms(4) f \<open>f = None\<close> g Some by (auto simp: start_proc_def split: bind_splits)
      note ph = prep_hstep[OF assms(1) hstepD[OF gs(1)] gs(2,3) assms(3) p]
      have "hstep s2 t"
        unfolding t using set_same_live_hstep[of s2 i zero_proc] ph by (auto dest: hstepD simp: hstep_refl)
      then show ?thesis using gs(1) ph hstep_trans by blast
    qed
  qed
qed

lemma killed_flag_ok:
  assumes "proc_ok pc" and "pc_flags pc \<noteq> 0"
  shows "proc_ok (pc \<lparr> pc_flags := pc_flags pc OR P_KILLED \<rparr>)"
    and "live_entry (pc \<lparr> pc_flags := pc_flags pc OR P_KILLED \<rparr>) = live_entry pc"
proof -
  have "hasf (pc_flags pc OR P_KILLED) P_IN_USE" using assms by (simp add: proc_ok_def split: if_splits)
  from this in_use_nonzero[OF this] assms show "proc_ok (pc \<lparr> pc_flags := pc_flags pc OR P_KILLED \<rparr>)"
    and "live_entry (pc \<lparr> pc_flags := pc_flags pc OR P_KILLED \<rparr>) = live_entry pc"
    by (auto simp: proc_ok_def live_entry_def split: option.splits)
qed

lemma stop_hstep:
  assumes "hub_inv s" and "stop_proc sys name s = Some (r, t)"
  shows "hstep s t"
proof -
  have shape: "hub_shape s" using assms(1) by (simp add: hub_inv_def)
  obtain f where f: "find_by_name s name = Some f" using assms(2) by (auto simp: stop_proc_def split: bind_splits)
  show ?thesis
  proof (cases f)
    case None
    then show ?thesis using assms f by (simp add: stop_proc_def hstep_refl)
  next
    case (Some i)
    note fi = find_by_name_ok[OF shape f[unfolded Some]]
    let ?pc = "the_proc s i"
    let ?s = "set_proc i (?pc \<lparr> pc_flags := pc_flags ?pc OR P_KILLED \<rparr>) s"
    have "hstep s ?s"
      using killed_flag_ok[OF the_proc_ok[OF shape inv_bounds(1)[OF assms(1) fi(1)]] in_use_nonzero[OF fi(2)]]
      by (intro set_same_live_hstep[OF assms(1) fi(1)]) simp_all
    moreover have "t = s \<or> world_only ?s t"
      using assms(2) f Some
      by (auto simp: stop_proc_def Let_def split: if_splits prod.splits dest!: call_world intro: world_trans)
    ultimately show ?thesis using world_hstep[OF hstepD] hstep_trans hstep_refl[OF assms(1)] by blast
  qed
qed

lemma flush_hstep:
  assumes "hub_inv s" and "i < h_nprocs s" and "flush_ring_buf sys i s = (r, t)"
  shows "hstep s t"
  using flush_touches[OF inv_bounds(1,3)[OF assms(1,2)] assms(3)] touches_hstep[OF assms(2,1)] by blast

lemma flush_proc_hstep:
  assumes "hub_inv s" and "flush_proc sys name s = Some (r, t)"
  shows "hstep s t"
proof -
  have shape: "hub_shape s" using assms(1) by (simp add: hub_inv_def)
  obtain f where f: "find_by_name s name = Some f" using assms(2) by (auto simp: flush_proc_def split: bind_splits)
  then show ?thesis using assms find_by_name_ok(1)[OF shape, of name] flush_hstep[OF assms(1)]
    by (cases f) (auto simp: flush_proc_def hstep_refl)
qed

lemma kill_hstep:
  assumes "hub_inv s" and "kill_proc sys name sig s = Some (r, t)"
  shows "hstep s t"
proof -
  have "t = s \<or> world_only s t" using assms(2)
    by (auto simp: kill_proc_def Let_def split: bind_splits option.splits if_splits dest: call_world)
  then show ?thesis using assms(1) world_hstep hstep_refl by blast
qed

lemma remove_hstep:
  assumes "hub_inv s" and "remove_proc sys name s = Some (r, t)"
  shows "hstep s t"
proof -
  have shape: "hub_shape s" using assms(1) by (simp add: hub_inv_def)
  obtain f where f: "find_by_name s name = Some f" using assms(2) by (auto simp: remove_proc_def split: bind_splits)
  show ?thesis
  proof (cases f)
    case None
    then show ?thesis using assms f by (simp add: remove_proc_def hstep_refl)
  next
    case (Some i)
    note fi = find_by_name_ok[OF shape f[unfolded Some]]
    note b = inv_bounds[OF assms(1) fi(1)]
    obtain q s1 where fl: "flush_ring_buf sys i s = (q, s1)" by (cases "flush_ring_buf sys i s")
    have h1: "hstep s s1" by (rule flush_hstep[OF assms(1) fi(1) fl])
    have tu: "touches i s s1" by (rule flush_touches[OF b(1,3) fl])
    then have n1: "i < h_nprocs s1" using fi(1) by (auto simp: touches_def)
    have wipe: "\<not> live_entry (the_proc s i) \<Longrightarrow> hstep s (wipe_proc_slot i s1)"
      using set_same_live_hstep[OF hstepD[OF h1] n1, of zero_proc] touches_live[OF tu b(2)] hstep_trans[OF h1]
      by (simp add: wipe_proc_slot_def)
    consider "live_entry (the_proc s i)" | "\<not> live_entry (the_proc s i)" by blast
    then show ?thesis
    proof cases
      case 1
      then have "t = s" using assms(2) f Some by (simp add: remove_proc_def Let_def live_entry_def)
      then show ?thesis using hstep_refl[OF assms(1)] by simp
    next
      case 2
      then have "t = s1 \<or> t = wipe_proc_slot i s1"
        using assms(2) f Some fl in_use_nonzero[OF fi(2)]
        by (auto simp: remove_proc_def Let_def live_entry_def split: if_splits)
      then show ?thesis using h1 wipe[OF 2] by blast
    qed
  qed
qed

end
