(* ===== verification/Svchub_Reach.thy ===== *)
theory Svchub_Reach
  imports Svchub_Inv
begin

text \<open>
  The invariant through the rest of the supervisor: the death of a service, the scripts, the
  control commands and the event loop; then the theorem on reachable states.
\<close>

section \<open>Connections\<close>

lemma set_conn_hstep: "hub_inv s \<Longrightarrow> hstep s (set_conn i cn s)"
  by (simp add: hstep_def hub_inv_def hub_shape_def set_conn_def alive_count_def)

lemma close_conn_hstep:
  assumes "hub_inv s" and "close_conn sys i s = Some t"
  shows "hstep s t"
proof (cases "cn_fd (h_conns s ! i) < 0")
  case True
  then show ?thesis using assms by (simp add: close_conn_def hstep_refl)
next
  case False
  then obtain s1 r s2 where 1: "del_epoll_fd sys (cn_fd (h_conns s ! i)) s = Some s1"
      "call (sys_close sys (cn_fd (h_conns s ! i))) s1 = (r, s2)" "t = set_conn i \<lparr> cn_fd = - 1, cn_pid = 0 \<rparr> s2"
    using assms(2) by (auto simp: close_conn_def Let_def split: bind_splits prod.splits)
  then have "hstep s s2" using world_hstep[OF assms(1)] del_epoll_world call_world world_trans by blast
  then show ?thesis using 1(3) set_conn_hstep[OF hstepD] hstep_trans by blast
qed

lemma notify_hstep:
  assumes "hub_inv s" and "notify sys uc i s = Some t"
  shows "hstep s t"
proof (cases "cn_fd (h_conns s ! i) < 0")
  case True
  then show ?thesis using assms by (simp add: notify_def hstep_refl)
next
  case False
  let ?fd = "cn_fd (h_conns s ! i)"
  obtain r1 s1 where 1: "hub_send sys ?fd uc s = Some (r1, s1)"
    using assms(2) False by (auto simp: notify_def Let_def split: bind_splits)
  obtain r2 s2 where 2: "hub_wait sys ?fd s1 = (r2, s2)" by (cases "hub_wait sys ?fd s1")
  have w1: "world_only s s1" by (rule hub_send_world[OF 1])
  have w2: "world_only s s2" using w1 hub_wait_world[OF 2] world_trans by blast
  have "\<exists>u. world_only s u \<and> (t = u \<or> close_conn sys i u = Some t)"
    using assms(2) False 1 2 w1 w2
    by (auto simp: notify_def Let_def split: bind_splits if_splits dest!: hub_send_world intro: world_trans)
  then show ?thesis using world_hstep[OF assms(1)] close_conn_hstep[OF hstepD] hstep_trans by blast
qed

lemma notify_loop_hstep:
  "hub_inv s \<Longrightarrow> notify_loop sys uc pid is s = Some t \<Longrightarrow> hstep s t"
proof (induction "is" arbitrary: s)
  case (Cons i "is")
  obtain s1 where 1: "(if cn_pid (h_conns s ! i) = pid then notify sys uc i s else Some s) = Some s1"
      "notify_loop sys uc pid is s1 = Some t"
    using Cons.prems(2) by (auto split: bind_splits)
  then have "hstep s s1" using notify_hstep[OF Cons.prems(1)] hstep_refl[OF Cons.prems(1)] by (auto split: if_splits)
  then show ?case using Cons.IH[OF hstepD 1(2)] hstep_trans by blast
qed (simp add: hstep_refl)

lemma notify_dead_hstep: "hub_inv s \<Longrightarrow> notify_dead sys pid s = Some t \<Longrightarrow> hstep s t"
  by (auto simp: notify_dead_def split: bind_splits intro: notify_loop_hstep)

section \<open>Death of a service\<close>

text \<open>In the course of \<open>proc_died\<close> the entry still counts as running, the counter is one less.\<close>

definition dying :: "nat \<Rightarrow> 'w hub \<Rightarrow> bool" where
  "dying i s \<longleftrightarrow> hub_shape s \<and> i < h_nprocs s \<and> live_entry (the_proc s i) \<and>
     (h_state s \<noteq> S_SHUTDOWN \<longrightarrow> h_nalive s = alive_count s - 1)"

lemma dying_bounds:
  assumes "dying i s"
  shows "i < NPROCS" and "i < length (h_procs s)" and "hub_shape s" and "i < h_nprocs s"
  using assms by (auto simp: dying_def hub_shape_def)

lemma dying_touches:
  assumes "dying i s" and "touches i s t"
  shows "dying i t" and "h_state t = h_state s"
proof -
  note b = dying_bounds[OF assms(1)]
  obtain pc w where t: "t = set_proc i pc (s \<lparr> h_w := w \<rparr>)" "proc_ok pc" "the_proc t i = pc"
    by (rule touches_cases[OF assms(2) b(2)])
  have "live_entry pc" using touches_live[OF assms(2) b(2)] t(3) assms(1) by (simp add: dying_def)
  then show "dying i t" "h_state t = h_state s"
    using assms(1) t b by (auto simp: dying_def alive_count_set_proc intro!: shape_set_proc)
qed

lemma dying_world: "dying i s \<Longrightarrow> world_only s t \<Longrightarrow> dying i t \<and> h_state t = h_state s"
  using dying_touches[OF _ world_touches] dying_bounds by blast

lemma dying_buried:
  assumes "dying i s" and "proc_ok pc" and "\<not> live_entry pc"
  shows "hub_inv (set_proc i pc s)"
  using assms dying_bounds[OF assms(1)]
  by (auto simp: hub_inv_def dying_def alive_count_set_proc intro!: shape_set_proc)

lemma dying_born:
  assumes "dying i s" and "born i s t"
  shows "hub_inv t" and "h_state t = h_state s"
proof -
  note b = dying_bounds[OF assms(1)]
  obtain pc w where t: "t = set_proc i pc (s \<lparr> h_w := w, h_nalive := h_nalive s + 1 \<rparr>)" "proc_ok pc"
      "0 < pc_pid pc" "pc_flags pc = pc_flags (the_proc s i)"
    using assms(2) by (auto simp: born_def)
  have l: "live_entry (the_proc s i)" using assms(1) by (simp add: dying_def)
  then have "live_entry pc" using t(3,4) by (auto simp: live_entry_def)
  moreover have "hub_shape t" unfolding t(1) using b t(2) by (intro shape_set_proc) simp_all
  ultimately show "hub_inv t" using assms(1) b l
    by (simp add: hub_inv_def dying_def t(1) alive_count_set_proc)
  show "h_state t = h_state s" by (simp add: t(1))
qed

lemma flags_in_use:
  assumes "dying i s"
  shows "hasf (pc_flags (the_proc s i)) P_IN_USE"
  using the_proc_ok[OF dying_bounds(3,1)[OF assms]] assms by (auto simp: dying_def live_entry_def proc_ok_def split: if_splits)

lemma try_respawn_dying:
  assumes "kernel_ok sys" and "dying i s" and "try_respawn sys i s = Some (up, t)"
  shows "(if up then hub_inv t else dying i t) \<and> h_state t = h_state s"
proof (cases "hasf (pc_flags (the_proc s i)) P_ONCE")
  case True
  then show ?thesis using assms by (simp add: try_respawn_def)
next
  case False
  note b = dying_bounds[OF assms(2)]
  obtain long s1 where 1: "ran_long_enough sys i s = Some (long, s1)"
    using assms(3) False by (auto simp: try_respawn_def split: bind_splits)
  have "touches i s s1"
    using update_time_touches[OF b(1,3)] 1 by (auto simp: ran_long_enough_def Let_def split: bind_splits)
  note d1 = dying_touches[OF assms(2) this]
  note b1 = dying_bounds[OF d1(1)]
  show ?thesis
  proof (cases long)
    case False
    then have "\<not> up \<and> world_only s1 t" using assms(3) \<open>\<not> hasf _ _\<close> 1
      by (auto simp: try_respawn_def split: bind_splits dest: hwarn_world)
    then show ?thesis using dying_world[OF d1(1)] d1(2) by simp
  next
    case True
    obtain ret s2 where 2: "spawn_proc sys i s1 = Some (ret, s2)"
      using assms(3) False 1 True by (auto simp: try_respawn_def split: bind_splits)
    consider "ret < 0" "world_only s1 s2" | "ret = 0" "born i s1 s2"
      using spawn_proc_born[OF assms(1) b1(4,3) flags_in_use[OF d1(1)] 2] by blast
    then show ?thesis
    proof cases
      case 1
      have "\<not> up \<and> world_only s2 t" using assms(3) False \<open>ran_long_enough sys i s = _\<close> True 2 1
        by (auto simp: try_respawn_def split: bind_splits dest: hwarn_world)
      then show ?thesis using dying_world[OF d1(1)] 1(2) world_trans d1(2) by metis
    next
      case 2
      then have "up \<and> t = s2" using assms(3) False \<open>ran_long_enough sys i s = _\<close> True \<open>spawn_proc sys i s1 = _\<close>
        by (auto simp: try_respawn_def)
      then show ?thesis using dying_born[OF d1(1) 2(2)] d1(2) by simp
    qed
  qed
qed

lemma mark_stopped_inv:
  assumes "dying i s"
  shows "hub_inv (mark_stopped i s)"
proof -
  have f: "hasf (pc_flags (the_proc s i) AND NOT P_KILLED) P_IN_USE" using flags_in_use[OF assms] by simp
  show ?thesis unfolding mark_stopped_def Let_def
    using the_proc_ok[OF dying_bounds(3,1)[OF assms]] f in_use_nonzero[OF f]
    by (intro dying_buried[OF assms]) (auto simp: proc_ok_def live_entry_def split: option.splits)
qed

lemma mark_died_inv:
  assumes "dying i s"
  shows "hub_inv (mark_died i st s)"
proof -
  have f: "hasf (pc_flags (the_proc s i) OR P_STATUS) P_IN_USE" using flags_in_use[OF assms] by simp
  show ?thesis unfolding mark_died_def Let_def
    using the_proc_ok[OF dying_bounds(3,1)[OF assms]] f in_use_nonzero[OF f]
    by (intro dying_buried[OF assms]) (auto simp: proc_ok_def live_entry_def split: option.splits)
qed

lemma proc_died_hstep:
  assumes "kernel_ok sys" and "hub_inv s" and "i < h_nprocs s" and "live_entry (the_proc s i)"
    and "proc_died sys i st s = Some t"
  shows "hstep s t"
proof -
  have d0: "dying i (s \<lparr> h_nalive := h_nalive s - 1 \<rparr>)" using assms(2-4) by (simp add: dying_def hub_inv_def)
  obtain s1 where 1: "close_proc sys i (s \<lparr> h_nalive := h_nalive s - 1 \<rparr>) = Some s1"
    using assms(5) by (auto simp: proc_died_def Let_def split: bind_splits)
  have d1: "dying i s1" and st1: "h_state s1 = h_state s"
    using dying_touches[OF d0 close_proc_touches[OF dying_bounds(1,3)[OF d0] 1]] by simp_all
  note b1 = dying_bounds[OF d1]
  let ?fl = "pc_flags (the_proc s1 i)"
  consider "hasf ?fl P_KILLED" | "\<not> hasf ?fl P_KILLED" "hasf ?fl P_ONCE" "st = 0"
    | "\<not> hasf ?fl P_KILLED" "\<not> (hasf ?fl P_ONCE \<and> st = 0)" by blast
  then show ?thesis
  proof cases
    case 1
    have "hstep s (mark_stopped i s1)"
      using mark_stopped_inv[OF d1] st1 by (simp add: hstep_def mark_stopped_def Let_def)
    moreover have "notify_dead sys (pc_pid (the_proc s i)) (mark_stopped i s1) = Some t"
      using assms(5) \<open>close_proc _ _ _ = _\<close> 1 by (simp add: proc_died_def Let_def)
    ultimately show ?thesis using notify_dead_hstep[OF hstepD] hstep_trans by blast
  next
    case 2
    obtain r s2 where fl: "flush_ring_buf sys i s1 = (r, s2)" by (cases "flush_ring_buf sys i s1")
    have d2: "dying i s2" "h_state s2 = h_state s"
      using dying_touches[OF d1 flush_touches[OF b1(1,3) fl]] st1 by simp_all
    have "t = set_proc i zero_proc s2"
      using assms(5) 1 2 fl by (simp add: proc_died_def Let_def wipe_proc_slot_def)
    then show ?thesis using dying_buried[OF d2(1), of zero_proc] d2(2) by (simp add: hstep_def)
  next
    case 3
    then obtain s2 up s3 where s2: "report_dead sys i st s1 = Some s2" "try_respawn sys i s2 = Some (up, s3)"
        "t = (if up then s3 else mark_died i st s3)"
      using assms(5) 1 by (auto simp: proc_died_def Let_def split: bind_splits if_splits)
    have d2: "dying i s2" "h_state s2 = h_state s"
      using dying_world[OF d1 report_dead_world[OF s2(1)]] st1 by simp_all
    show ?thesis using try_respawn_dying[OF assms(1) d2(1) s2(2)] d2(2) mark_died_inv[of i s3 st] s2(3)
      by (auto simp: hstep_def mark_died_def Let_def split: if_splits)
  qed
qed

lemma find_pid_bound: "find_pid ps pid k = Some i \<Longrightarrow>
    k \<le> i \<and> i < k + length ps \<and> pc_pid (ps ! (i - k)) = pid \<and> \<not> hasf (pc_flags (ps ! (i - k))) P_STATUS"
proof (induction ps arbitrary: k)
  case (Cons pc ps)
  show ?case
  proof (cases "\<not> hasf (pc_flags pc) P_STATUS \<and> pc_pid pc = pid")
    case False
    then have "find_pid ps pid (k + 1) = Some i" using Cons.prems by (auto split: if_splits)
    from Cons.IH[OF this] show ?thesis by (auto simp: nth_Cons')
  qed (use Cons.prems in auto)
qed simp

lemma find_by_pid_ok:
  assumes "hub_inv s" and "find_by_pid s pid = Some i"
  shows "i < h_nprocs s" and "live_entry (the_proc s i)"
proof -
  have p: "0 < pid" "find_pid (take (h_nprocs s) (h_procs s)) pid 0 = Some i"
    using assms(2) by (auto simp: find_by_pid_def split: if_splits)
  note f = find_pid_bound[OF p(2)]
  then show i: "i < h_nprocs s" by simp
  have "pc_pid (the_proc s i) = pid" "\<not> hasf (pc_flags (the_proc s i)) P_STATUS"
    using f i by (simp_all add: the_proc_def)
  then show "live_entry (the_proc s i)"
    using the_proc_ok[OF inv_bounds(3,1)[OF assms(1) i]] p(1) by (auto simp: live_entry_def proc_ok_def split: if_splits)
qed

section \<open>Scripts, stopping and shutting down\<close>

lemma inv_shape: "hub_inv s \<Longrightarrow> hub_shape s"
  by (simp add: hub_inv_def)

lemma inv_fields [simp]:
  "hub_inv (s \<lparr> h_scrpid := n \<rparr>) = hub_inv s" "hub_inv (s \<lparr> h_sigcnt := k \<rparr>) = hub_inv s"
  "hub_inv (s \<lparr> h_rbmode := m \<rparr>) = hub_inv s" "hub_inv (s \<lparr> h_w := w \<rparr>) = hub_inv s"
  by (simp_all add: hub_inv_def)

lemma inv_other_state: "hub_inv s \<Longrightarrow> h_state s \<noteq> S_SHUTDOWN \<Longrightarrow> hub_inv (s \<lparr> h_state := st \<rparr>)"
  by (simp add: hub_inv_def)

lemma hstep_any: "hub_inv t \<Longrightarrow> h_state s \<noteq> S_SHUTDOWN \<Longrightarrow> hstep s t"
  by (simp add: hstep_def)

definition script_only :: "'w hub \<Rightarrow> 'w hub \<Rightarrow> bool" where
  "script_only s t \<longleftrightarrow> (\<exists>w n. t = s \<lparr> h_w := w, h_scrpid := n \<rparr>)"

lemma script_only_inv: "script_only s t \<Longrightarrow> hub_inv t = hub_inv s \<and> h_state t = h_state s"
  by (auto simp: script_only_def)

lemma world_script: "world_only s t \<Longrightarrow> script_only s t"
  unfolding world_only_def script_only_def by (elim exE, rule exI, rule exI[of _ "h_scrpid s"]) simp

lemma spawn_script_only:
  assumes "spawn_script sys name argv s = Some (r, t)"
  shows "script_only s t"
proof -
  obtain path where p: "(case call (sys_access sys path) s of (ret, s) \<Rightarrow>
      if ret < 0 then Some (ret, s) else if h_scrpid s > 0 then Some (- EBUSY, s)
      else (case call (sys_fork sys path (Some name # tl argv) None) s of (pid, s) \<Rightarrow>
        if pid \<le> 0 then None else Some (0, s \<lparr> h_scrpid := pid \<rparr>))) = Some (r, t)"
    using assms unfolding spawn_script_def Let_def by (auto split: bind_splits)
  obtain r1 s1 where 1: "call (sys_access sys path) s = (r1, s1)" by (cases "call (sys_access sys path) s")
  obtain r2 s2 where 2: "call (sys_fork sys path (Some name # tl argv) None) s1 = (r2, s2)"
    by (cases "call (sys_fork sys path (Some name # tl argv) None) s1")
  have "world_only s s1" "world_only s s2" using call_world[OF 1] call_world[OF 2] world_trans by blast+
  then obtain w1 w2 where "s1 = s \<lparr> h_w := w1 \<rparr>" "s2 = s \<lparr> h_w := w2 \<rparr>" by (auto simp: world_only_def)
  then have "t = s1 \<or> (\<exists>n. t = s \<lparr> h_w := w2, h_scrpid := n \<rparr>)"
    using p 1 2 by (auto split: if_splits)
  then show ?thesis using world_script[OF \<open>world_only s s1\<close>] by (auto simp: script_only_def)
qed

lemma close_socket_world: "close_socket sys s = Some t \<Longrightarrow> world_only s t"
  by (auto simp: close_socket_def split: prod.splits if_splits dest!: call_world hwarn_world intro: world_trans)

lemma spawn_shutdown_inv:
  assumes "hub_shape s" and "spawn_shutdown sys s = Some t"
  shows "hub_inv t" and "h_state t = S_SHUTDOWN"
proof -
  obtain s1 r where 1: "close_socket sys (s \<lparr> h_state := S_SHUTDOWN \<rparr>) = Some s1"
      and 2: "spawn_script sys (if h_rbmode s \<noteq> None then zstr ''shutdown'' else zstr ''failure'')
        [None, h_rbmode s, None] s1 = Some (r, t)"
    using assms(2) unfolding spawn_shutdown_def Let_def by (auto split: bind_splits if_splits)
  have "hub_inv s1 \<and> h_state s1 = S_SHUTDOWN"
    using close_socket_world[OF 1] assms(1) by (auto simp: world_only_def hub_inv_def)
  then show "hub_inv t" "h_state t = S_SHUTDOWN" using script_only_inv[OF spawn_script_only[OF 2]] by auto
qed

lemma stop_loop_hstep:
  "hub_inv s \<Longrightarrow> \<forall>i \<in> set is. i < h_nprocs s \<Longrightarrow> hstep s (stop_loop sys is s)"
proof (induction "is" arbitrary: s)
  case (Cons i "is")
  show ?case
  proof (cases "live_entry (the_proc s i)")
    case False
    then show ?thesis using Cons by (simp add: Let_def)
  next
    case True
    let ?pc = "the_proc s i"
    obtain r s1 where 1: "call (sys_kill sys (pc_pid ?pc) SIGTERM) s = (r, s1)"
      by (cases "call (sys_kill sys (pc_pid ?pc) SIGTERM) s")
    obtain w where s1: "s1 = s \<lparr> h_w := w \<rparr>" using call_world[OF 1] by (auto simp: world_only_def)
    let ?s2 = "if r < 0 then s1 else set_proc i (?pc \<lparr> pc_flags := pc_flags ?pc OR P_KILLED \<rparr>) s1"
    have i: "i < h_nprocs s" using Cons.prems(2) by simp
    have "pc_flags ?pc \<noteq> 0" using True by (simp add: live_entry_def)
    note k = killed_flag_ok[OF the_proc_ok[OF inv_bounds(3,1)[OF Cons.prems(1) i]] this]
    have "hstep s1 ?s2"
      using k set_same_live_hstep[of s1 i "?pc \<lparr> pc_flags := pc_flags ?pc OR P_KILLED \<rparr>"] Cons.prems(1) i s1
      by (simp add: hstep_refl)
    then have h: "hstep s ?s2" using world_hstep[OF Cons.prems(1) call_world[OF 1]] hstep_trans by blast
    moreover have "h_nprocs ?s2 = h_nprocs s" by (simp add: s1)
    ultimately have "hstep ?s2 (stop_loop sys is ?s2)" using Cons.IH[OF hstepD[OF h]] Cons.prems(2) by simp
    then show ?thesis using True 1 hstep_trans[OF h] by (simp add: Let_def)
  qed
qed (simp add: hstep_refl)

lemma stop_con_shell_only: "script_only s (stop_con_shell sys s)"
proof -
  have 1: "script_only s s" using world_script[OF world_refl] .
  have 2: "script_only s (s \<lparr> h_w := w \<rparr>)" for w by (rule world_script) (auto simp: world_only_def)
  have 3: "script_only s (s \<lparr> h_w := w, h_scrpid := 0 \<rparr>)" for w by (auto simp: script_only_def)
  show ?thesis using 1 2 3 by (auto simp: stop_con_shell_def call_def split: prod.splits)
qed

lemma stop_all_hstep:
  assumes "hub_inv s" and "stop_all_procs sys s = Some t"
  shows "hstep s t"
proof -
  obtain s1 where 1: "hwarn sys ''stopping all procs'' None 0 s = Some s1"
      and t: "t = stop_con_shell sys (stop_loop sys [0..<h_nprocs s1] s1)"
    using assms(2) by (auto simp: stop_all_procs_def split: bind_splits)
  have h1: "hstep s s1" by (rule world_hstep[OF assms(1) hwarn_world[OF 1]])
  have h2: "hstep s1 (stop_loop sys [0..<h_nprocs s1] s1)" by (rule stop_loop_hstep[OF hstepD[OF h1]]) simp
  show ?thesis using hstep_trans[OF h1 h2] script_only_inv[OF stop_con_shell_only] t by (auto simp: hstep_def)
qed

lemma arm_world: "arm_shutdown_timer sys s = Some t \<Longrightarrow> world_only s t"
  by (auto simp: arm_shutdown_timer_def split: prod.splits if_splits dest!: call_world hwarn_world intro: world_trans)

lemma report_loop_world: "report_loop sys is s = Some t \<Longrightarrow> world_only s t"
proof (induction "is" arbitrary: s)
  case (Cons i "is")
  show ?case
  proof (cases "live_entry (the_proc s i)")
    case True
    then obtain s1 where "report_stuck sys i s = Some s1" "report_loop sys is s1 = Some t"
      using Cons.prems by (auto split: bind_splits)
    moreover from this(1) have "world_only s s1"
      by (auto simp: report_stuck_def Let_def split: bind_splits dest: hwarn_world)
    ultimately show ?thesis using Cons.IH world_trans by blast
  qed (use Cons in simp)
qed (simp add: world_refl)

lemma report_hung_world: "report_hung_procs sys s = Some t \<Longrightarrow> world_only s t"
  by (auto simp: report_hung_procs_def split: bind_splits if_splits dest!: report_loop_world hwarn_world intro: world_trans)

lemma force_loop_shape:
  "hub_shape s \<Longrightarrow> \<forall>i \<in> set is. i < h_nprocs s \<Longrightarrow> hub_shape (force_loop sys is s)"
proof (induction "is" arbitrary: s)
  case (Cons i "is")
  show ?case
  proof (cases "live_entry (the_proc s i)")
    case True
    let ?pc = "the_proc s i"
    obtain r s1 where 1: "call (sys_kill sys (pc_pid ?pc) SIGKILL) s = (r, s1)"
      by (cases "call (sys_kill sys (pc_pid ?pc) SIGKILL) s")
    obtain w where s1: "s1 = s \<lparr> h_w := w \<rparr>" using call_world[OF 1] by (auto simp: world_only_def)
    have i: "i < h_nprocs s" "i < NPROCS" using Cons.prems by (auto simp: hub_shape_def)
    have "proc_ok (?pc \<lparr> pc_pid := 0 \<rparr>)"
      using the_proc_ok[OF Cons.prems(1) i(2)] by (simp add: proc_ok_def split: option.splits)
    then have "hub_shape (set_proc i (?pc \<lparr> pc_pid := 0 \<rparr>) s1)"
      using Cons.prems(1) i by (intro shape_set_proc) (simp_all add: s1)
    then show ?thesis using Cons.IH Cons.prems(2) True 1 by (simp add: Let_def s1)
  qed (use Cons in \<open>simp add: Let_def\<close>)
qed simp

lemma force_shutdown_inv:
  assumes "hub_shape s" and "force_shutdown sys s = Some t"
  shows "hub_inv t \<and> h_state t = S_SHUTDOWN"
proof -
  obtain s1 where 1: "hwarn sys ''killing remaining services'' None 0 s = Some s1"
    using assms(2) by (auto simp: force_shutdown_def split: bind_splits)
  have sh: "hub_shape s1" using hwarn_world[OF 1] assms(1) by (auto simp: world_only_def)
  let ?s2 = "force_loop sys [0..<h_nprocs s1] s1"
  have "hub_shape ?s2" by (rule force_loop_shape[OF sh]) simp
  then have "hub_shape (if h_scrpid ?s2 > 0
      then (case call (sys_kill sys (h_scrpid ?s2) SIGKILL) ?s2 of (_, s) \<Rightarrow> s \<lparr> h_scrpid := - 1 \<rparr>) else ?s2)"
    by (auto simp: call_def split: prod.splits)
  then show ?thesis using spawn_shutdown_inv assms(2) 1 by (auto simp: force_shutdown_def Let_def)
qed

lemma handle_alarm_hstep:
  assumes "hub_inv s" and "handle_alarm sys s = Some t"
  shows "hstep s t"
proof (cases "h_state s = S_STOPPING")
  case False
  then show ?thesis using assms by (simp add: handle_alarm_def hstep_refl)
next
  case True
  then have ns: "h_state s \<noteq> S_SHUTDOWN" by (simp add: S_STOPPING_def S_SHUTDOWN_def)
  show ?thesis
  proof (cases "h_sigcnt s < 3")
    case True
    then have "world_only (s \<lparr> h_sigcnt := h_sigcnt s + 1 \<rparr>) t" using assms(2) \<open>h_state s = _\<close>
      by (auto simp: handle_alarm_def split: bind_splits dest!: report_hung_world arm_world intro: world_trans)
    then show ?thesis using hstep_any[OF _ ns] world_hstep[of "s \<lparr> h_sigcnt := h_sigcnt s + 1 \<rparr>" t] assms(1)
      by (auto dest: hstepD)
  next
    case False
    then have "force_shutdown sys (s \<lparr> h_sigcnt := 0 \<rparr>) = Some t" using assms(2) \<open>h_state s = _\<close>
      by (simp add: handle_alarm_def)
    then show ?thesis using force_shutdown_inv[of "s \<lparr> h_sigcnt := 0 \<rparr>"] assms(1) by (simp add: inv_shape hstep_def)
  qed
qed

lemma command_stop_hstep:
  assumes "hub_inv s" and "command_stop sys mode s = Some (r, t)"
  shows "hstep s t"
proof (cases "h_state s = S_STOPPING \<or> h_state s = S_SHUTDOWN")
  case True
  then show ?thesis using assms by (simp add: command_stop_def hstep_refl)
next
  case False
  then have ns: "h_state s \<noteq> S_SHUTDOWN" by simp
  obtain s1 s2 where 1: "(if mode \<noteq> None then hwarn sys ''initiating'' mode 0 s
        else hwarn sys ''aborting on a failure'' None 0 s) = Some s1"
      and 2: "stop_all_procs sys (s1 \<lparr> h_state := S_STOPPING, h_rbmode := mode, h_sigcnt := 0 \<rparr>) = Some s2"
      and 3: "arm_shutdown_timer sys s2 = Some t"
    using assms(2) False unfolding command_stop_def by (auto split: bind_splits)
  have "world_only s s1" using 1 hwarn_world by (metis (no_types))
  then have "hub_inv (s1 \<lparr> h_state := S_STOPPING, h_rbmode := mode, h_sigcnt := 0 \<rparr>)"
    using assms(1) ns by (auto simp: world_only_def hub_inv_def)
  from stop_all_hstep[OF this 2] have "hub_inv s2" by (rule hstepD)
  then show ?thesis using hstep_any[OF _ ns] world_hstep[OF _ arm_world[OF 3]] by (auto dest: hstepD)
qed

lemma startup_done_hstep:
  assumes "hub_inv s" and "h_state s \<noteq> S_SHUTDOWN" and "startup_done sys st s = Some t"
  shows "hub_inv t"
proof -
  obtain r where "spawn_script sys (zstr ''shell'') [None, None] (s \<lparr> h_state := S_RUNNING \<rparr>) = Some (r, t)"
    using assms(3) by (auto simp: startup_done_def split: if_splits)
  from script_only_inv[OF spawn_script_only[OF this]] show ?thesis using inv_other_state[OF assms(1,2)] by simp
qed

lemma shell_exit_hstep:
  assumes "hub_inv s" and "shell_exit sys st s = Some t"
  shows "hub_inv t"
proof -
  obtain s1 r where 1: "hwarn sys ''console shell'' (Some (if st \<noteq> 0 then zstr ''failed'' else zstr ''exited'')) 0 s = Some s1"
      and 2: "command_stop sys None s1 = Some (r, t)"
    using assms(2) unfolding shell_exit_def by (auto split: bind_splits if_splits)
  show ?thesis using command_stop_hstep[OF hstepD[OF world_hstep[OF assms(1) hwarn_world[OF 1]]] 2] by (rule hstepD)
qed

lemma script_exit_hstep:
  assumes "hub_inv s" and "script_exit sys st s = Some t"
  shows "hstep s t"
proof -
  have ns: "h_state s \<noteq> S_SHUTDOWN" using assms(2) by (auto simp: script_exit_def Let_def S_SHUTDOWN_def S_STARTUP_def)
  let ?s = "s \<lparr> h_scrpid := 0, h_state := 0 \<rparr>"
  have inv: "hub_inv ?s" "h_state ?s \<noteq> S_SHUTDOWN"
    using assms(1) ns by (auto simp: hub_inv_def S_SHUTDOWN_def)
  have "hub_inv t"
    using assms(2) startup_done_hstep[OF inv, of sys st t] shell_exit_hstep[OF inv(1), of sys st t] inv(1)
    by (auto simp: script_exit_def Let_def split: if_splits)
  then show ?thesis using ns by (rule hstep_any)
qed

lemma child_died_hstep:
  assumes "kernel_ok sys" and "hub_inv s" and "child_died sys pid st s = Some t"
  shows "hstep s t"
proof (cases "pid = h_scrpid s")
  case True
  then show ?thesis using assms script_exit_hstep by (simp add: child_died_def)
next
  case False
  then show ?thesis
    using assms(3) proc_died_hstep[OF assms(1,2) find_by_pid_ok[OF assms(2)]] hstep_refl[OF assms(2)]
    by (cases "find_by_pid s pid") (auto simp: child_died_def)
qed

lemma reap_loop_hstep:
  assumes "kernel_ok sys" and "hub_inv s" and "reap_loop sys s = Some t"
  shows "hstep s t"
proof -
  have "kernel_ok sys \<longrightarrow> hub_inv s \<longrightarrow> hstep s t"
  proof (rule reap_loop.raw_induct[OF _ assms(3)], intro impI)
    fix loop :: "'a svcsys \<Rightarrow> 'a hub \<Rightarrow> 'a hub option" and sys s t
    assume IH: "\<And>sys s t. loop sys s = Some t \<Longrightarrow> kernel_ok sys \<longrightarrow> hub_inv s \<longrightarrow> hstep s t"
      and body: "(case sys_waitpid sys (h_w s) of (pid, status, w) \<Rightarrow>
        if pid > 0 then do { s \<leftarrow> child_died sys pid status (s \<lparr> h_w := w \<rparr>); loop sys s }
        else Some (s \<lparr> h_w := w \<rparr>)) = Some t"
      and k: "kernel_ok sys" and inv: "hub_inv s"
    obtain pid st w where w: "sys_waitpid sys (h_w s) = (pid, st, w)" by (cases "sys_waitpid sys (h_w s)")
    have 0: "hstep s (s \<lparr> h_w := w \<rparr>)" using inv by (simp add: hstep_def)
    show "hstep s t"
    proof (cases "pid > 0")
      case True
      then obtain s1 where 1: "child_died sys pid st (s \<lparr> h_w := w \<rparr>) = Some s1" "loop sys s1 = Some t"
        using body w by (auto split: bind_splits)
      have "hstep s s1" using hstep_trans[OF 0 child_died_hstep[OF k hstepD[OF 0] 1(1)]] .
      then show ?thesis using IH[OF 1(2)] k hstepD hstep_trans by blast
    next
      case False
      then show ?thesis using body w 0 by simp
    qed
  qed
  then show ?thesis using assms by blast
qed

lemma check_children_hstep:
  assumes "kernel_ok sys" and "hub_inv s" and "check_children sys s = Some t"
  shows "hstep s t"
proof -
  obtain s1 where 1: "reap_loop sys s = Some s1" using assms(3) by (auto simp: check_children_def split: bind_splits)
  note h1 = reap_loop_hstep[OF assms(1,2) 1]
  show ?thesis
  proof (cases "h_nalive s1 \<noteq> 0 \<or> h_scrpid s1 > 0")
    case True
    then show ?thesis using assms(3) 1 h1 by (simp add: check_children_def)
  next
    case False
    then obtain s2 where 2: "(if h_state s1 = S_RUNNING then hwarn sys ''all children died'' None 0 s1 else Some s1) = Some s2"
        and 3: "spawn_shutdown sys s2 = Some t"
      using assms(3) 1 by (auto simp: check_children_def split: bind_splits if_splits)
    have "hub_shape s2" using 2 hstepD[OF h1] by (auto split: if_splits dest!: hwarn_world simp: world_only_def inv_shape)
    from spawn_shutdown_inv[OF this 3] show ?thesis by (simp add: hstep_def)
  qed
qed

lemma signal_stop_hstep:
  assumes "hub_inv s" and "signal_stop sys script s = Some t"
  shows "hstep s t"
proof (cases "h_state s = S_STOPPING")
  case True
  then show ?thesis using force_shutdown_inv[OF inv_shape[OF assms(1)], of sys t] assms(2)
    by (simp add: signal_stop_def hstep_def)
next
  case False
  then obtain r s1 where 1: "command_stop sys (Some (zstr script)) s = Some (r, s1)"
      and 2: "t = s1 \<or> world_only s1 t"
    using assms(2) by (auto simp: signal_stop_def split: if_splits bind_splits dest!: hwarn_world)
  have "hstep s s1" by (rule command_stop_hstep[OF assms(1) 1])
  then show ?thesis using 2 world_hstep[OF hstepD] hstep_trans by blast
qed

section \<open>Commands and events\<close>

lemma send_reply_world: "send_reply sys cn uc s = Some (r, t) \<Longrightarrow> world_only s t"
  by (auto simp: send_reply_def Let_def split: prod.splits if_splits bind_splits
      dest!: hub_wait_world hub_send_world intro: world_trans)

lemma send_multi_world: "send_multi sys cn iov s = (r, t) \<Longrightarrow> world_only s t"
  by (auto simp: send_multi_def Let_def split: prod.splits if_splits
      dest!: hub_wait_world call_world intro: world_trans)

lemma reply_world: "reply sys cn e s = Some (r, t) \<Longrightarrow> world_only s t"
  by (auto simp: reply_def split: bind_splits dest: send_reply_world)

text \<open>
  The contract of a command: it keeps the invariant.  Every entry of the table \<open>commands\<close> meets it,
  so \<open>dispatch\<close> does.
\<close>

definition keeps_inv :: "'w opr \<Rightarrow> bool" where
  "keeps_inv f \<longleftrightarrow> (\<forall>s r t. hub_inv s \<longrightarrow> f s = Some (r, t) \<longrightarrow> hstep s t)"

lemma keeps_inv_world: "(\<And>s r t. f s = Some (r, t) \<Longrightarrow> t = s \<or> world_only s t) \<Longrightarrow> keeps_inv f"
  unfolding keeps_inv_def using world_hstep hstep_refl by blast

lemma keeps_inv_name: "(\<And>name. keeps_inv (k name)) \<Longrightarrow> keeps_inv (with_name msg k)"
  by (auto simp: keeps_inv_def with_name_def hstep_refl split: bind_splits option.splits)

lemma keeps_inv_check: "keeps_inv f \<Longrightarrow> keeps_inv (\<lambda>s. map_option (\<lambda>(r, s). (check r, s)) (f s))"
  by (auto simp: keeps_inv_def)

lemma cmd_list_keeps: "keeps_inv (cmd_list sys cn msg)"
  by (rule keeps_inv_world)
    (auto simp: cmd_list_def split: bind_splits if_splits option.splits dest: send_reply_world)

lemma cmd_status_keeps: "keeps_inv (cmd_status sys cn msg)"
  unfolding cmd_status_def
  by (rule keeps_inv_name, rule keeps_inv_world)
    (auto simp: Let_def split: bind_splits option.splits dest: send_reply_world)

lemma cmd_getbuf_keeps: "keeps_inv (cmd_getbuf sys cn msg)"
  unfolding cmd_getbuf_def
  by (rule keeps_inv_name, rule keeps_inv_world)
    (auto split: bind_splits option.splits sum.splits dest: send_multi_world)

lemma cmd_stop_keeps: "keeps_inv (cmd_stop sys cn msg)"
  unfolding cmd_stop_def
proof (rule keeps_inv_name, unfold keeps_inv_def, intro allI impI)
  fix name s r t
  assume inv: "hub_inv s" and f: "(do { (ret, s) \<leftarrow> stop_proc sys name s;
      if ret < 0 then Some (ret, s) else Some (0, set_conn cn ((h_conns s ! cn) \<lparr> cn_pid := ret \<rparr>) s) }) = Some (r, t)"
  then obtain q s1 where 1: "stop_proc sys name s = Some (q, s1)" by (auto split: bind_splits)
  note h = stop_hstep[OF inv 1]
  show "hstep s t" using f 1 h hstep_trans[OF h set_conn_hstep[OF hstepD[OF h]]] by (auto split: if_splits)
qed

lemma start_keeps: "kernel_ok sys \<Longrightarrow> \<not> hasf flags P_STATUS \<Longrightarrow> keeps_inv (common_start sys msg flags)"
  unfolding common_start_def by (rule keeps_inv_name) (auto simp: keeps_inv_def intro: start_hstep)

lemma start_flags: "\<not> hasf 0 P_STATUS" "\<not> hasf P_PASS P_STATUS" "\<not> hasf P_ONCE P_STATUS"
  by (simp_all add: hasf_def P_PASS_def P_ONCE_def P_STATUS_def)

lemma commands_keep:
  assumes "kernel_ok sys" and "(c, f) \<in> set commands"
  shows "keeps_inv (f sys cn msg)"
  using assms
  by (auto simp: commands_def cmd_list_keeps cmd_status_keeps cmd_getbuf_keeps cmd_stop_keeps
      cmd_start_def cmd_stout_def cmd_spawn_def start_keeps start_flags
      cmd_reboot_def[abs_def] cmd_shutdown_def[abs_def] cmd_poweroff_def[abs_def] cmd_flush_def cmd_remove_def cmd_sighup_def
      intro!: keeps_inv_check keeps_inv_name)
    (auto simp: keeps_inv_def intro: command_stop_hstep flush_proc_hstep remove_hstep kill_hstep)

lemma dispatch_hstep:
  assumes "kernel_ok sys" and "hub_inv s" and "dispatch sys cn msg s = Some (r, t)"
  shows "hstep s t"
proof -
  obtain cmd where cmd: "uc_repcode msg 0 = Some cmd" using assms(3) by (auto simp: dispatch_def split: bind_splits)
  show ?thesis
  proof (cases "map_of (commands :: (int \<times> ('a svcsys \<Rightarrow> nat \<Rightarrow> mem \<Rightarrow> 'a opr)) list) cmd")
    case None
    then show ?thesis using assms cmd by (simp add: dispatch_def hstep_refl)
  next
    case (Some f)
    then have "keeps_inv (f sys cn msg)" by (intro commands_keep[OF assms(1)]) (rule map_of_SomeD)
    moreover have "f sys cn msg s = Some (r, t)" using assms(3) cmd Some by (simp add: dispatch_def)
    ultimately show ?thesis using assms(2) by (auto simp: keeps_inv_def)
  qed
qed

lemma check_conn_hstep:
  assumes "kernel_ok sys" and "hub_inv s" and "check_conn sys cn s = Some t"
  shows "hstep s t"
proof -
  obtain ret buf w where rc: "uc_recv (cf_sock sys) (cn_fd (h_conns s ! cn)) (replicate 200 0) 200 (h_w s) = Some (ret, buf, w)"
    using assms(3) by (auto simp: check_conn_def split: bind_splits)
  let ?s = "s \<lparr> h_w := w \<rparr>"
  have 0: "hstep s ?s" using assms(2) by (simp add: hstep_def)
  have cl: "close_conn sys cn u = Some t \<Longrightarrow> hstep s u \<Longrightarrow> hstep s t" for u
    using close_conn_hstep[OF hstepD] hstep_trans by blast
  show ?thesis
  proof (cases "ret < 0")
    case True
    then show ?thesis using assms(3) rc cl[OF _ 0] by (simp add: check_conn_def)
  next
    case False
    obtain msg p where m: "uc_msg buf ret = Some (msg, p)"
      using assms(3) rc False by (auto simp: check_conn_def Let_def split: bind_splits)
    show ?thesis
    proof (cases p)
      case None
      then show ?thesis using assms(3) rc False m cl[OF _ 0] by (simp add: check_conn_def)
    next
      case (Some x)
      obtain r1 s1 where 1: "dispatch sys cn msg ?s = Some (r1, s1)"
        using assms(3) rc False m Some by (auto simp: check_conn_def Let_def split: bind_splits)
      have h1: "hstep s s1" using hstep_trans[OF 0 dispatch_hstep[OF assms(1) hstepD[OF 0] 1]] .
      show ?thesis
      proof (cases "r1 > 0")
        case True
        then show ?thesis using assms(3) rc False m Some 1 h1 by (simp add: check_conn_def)
      next
        case nr: False
        obtain r2 s2 where 2: "reply sys cn r1 s1 = Some (r2, s2)"
          using assms(3) rc False m Some 1 nr by (auto simp: check_conn_def Let_def split: bind_splits)
        have h2: "hstep s s2" using hstep_trans[OF h1 world_hstep[OF hstepD[OF h1] reply_world[OF 2]]] .
        then show ?thesis using assms(3) rc False m Some 1 nr 2 cl[OF _ h2] by (auto simp: check_conn_def split: if_splits)
      qed
    qed
  qed
qed

lemma find_closed_bound: "find_closed cs k = Some i \<Longrightarrow> k \<le> i \<and> i < k + length cs"
  by (induction cs arbitrary: k) (fastforce split: if_splits)+

lemma check_socket_hstep:
  assumes "hub_inv s" and "check_socket sys s = Some t"
  shows "hstep s t"
proof -
  obtain fd s1 where 1: "call (sys_accept4 sys (h_ctlfd s)) s = (fd, s1)" by (cases "call (sys_accept4 sys (h_ctlfd s)) s")
  have h1: "hstep s s1" by (rule world_hstep[OF assms(1) call_world[OF 1]])
  obtain o1 s2 where g: "grab_conn_slot s1 = (o1, s2)" by (cases "grab_conn_slot s1")
  have "hstep s1 s2"
    using g hstepD[OF h1] by (auto simp: grab_conn_slot_def hstep_def hub_inv_def hub_shape_def alive_count_def
        split: option.splits if_splits)
  then have h2: "hstep s s2" using h1 hstep_trans by blast
  have fin: "hstep s u" if "world_only s2 u" for u
    using that h2 world_hstep[OF hstepD[OF h2]] hstep_trans by blast
  have fin': "hstep s u" if "world_only (set_conn i cn s2) u" for i cn u
  proof -
    have "hstep s (set_conn i cn s2)" using hstep_trans[OF h2 set_conn_hstep[OF hstepD[OF h2]]] .
    then show ?thesis using that world_hstep[OF hstepD] hstep_trans by blast
  qed
  have closed: "world_only s2 (snd (call f s2))" for f by (rule call_world[of f s2 "fst (call f s2)"]) simp
  show ?thesis using assms(2) 1 g h1 fin[OF closed] fin'[OF add_conn_fd_world]
    by (auto simp: check_socket_def split: if_splits option.splits)
qed

lemma check_signal_hstep:
  assumes "kernel_ok sys" and "hub_inv s" and "check_signal sys s = Some t"
  shows "hstep s t"
proof -
  obtain ret sig w where r: "sys_read_signal sys (h_sigfd s) (h_w s) = (ret, sig, w)"
    by (cases "sys_read_signal sys (h_sigfd s) (h_w s)")
  have 0: "hstep s (s \<lparr> h_w := w \<rparr>)" using assms(2) by (simp add: hstep_def)
  note inv = hstepD[OF 0]
  show ?thesis using assms(3) r hstep_trans[OF 0 check_children_hstep[OF assms(1) inv]]
      hstep_trans[OF 0 signal_stop_hstep[OF inv]] hstep_trans[OF 0 handle_alarm_hstep[OF inv]]
    by (auto simp: check_signal_def Let_def split: if_splits)
qed

lemma on_events_hstep:
  assumes "hub_inv s" and "\<And>u v. hub_inv u \<Longrightarrow> P u \<Longrightarrow> inp u = Some v \<Longrightarrow> hstep u v \<and> P v"
    and "\<And>u v. hub_inv u \<Longrightarrow> P u \<Longrightarrow> oth u = Some v \<Longrightarrow> hstep u v" and "P s" and "on_events ev inp oth s = Some t"
  shows "hstep s t"
proof -
  obtain s1 where 1: "(if ev AND EPOLLIN \<noteq> 0 then inp s else Some s) = Some s1"
      "(if ev AND NOT EPOLLIN \<noteq> 0 then oth s1 else Some s1) = Some t"
    using assms(5) unfolding on_events_def by (auto split: bind_splits)
  have h: "hstep s s1 \<and> P s1" using 1(1) assms(2)[OF assms(1,4)] hstep_refl[OF assms(1)] assms(4) by (auto split: if_splits)
  show ?thesis
    using 1(2) assms(3)[OF hstepD[OF conjunct1[OF h]] conjunct2[OF h]] hstep_trans[OF conjunct1[OF h]] h
    by (auto split: if_splits)
qed

lemma process_proc_hstep:
  assumes "kernel_ok sys" and "hub_inv s" and "0 \<le> idx" and "process_proc sys idx ev s = Some t"
  shows "hstep s t"
proof -
  have n: "nat idx < h_nprocs s" and ev: "on_events ev (check_proc sys (nat idx)) (close_proc sys (nat idx)) s = Some t"
    using assms(3,4) by (auto simp: process_proc_def split: if_splits)
  have rv: "readv_ok sys" using assms(1) by (simp add: kernel_ok_def)
  show ?thesis
  proof (rule on_events_hstep[where P = "\<lambda>u. nat idx < h_nprocs u", OF assms(2) _ _ n ev])
    fix u v
    assume u: "hub_inv u" "nat idx < h_nprocs u" "check_proc sys (nat idx) u = Some v"
    have tu: "touches (nat idx) u v" by (rule check_proc_touches[OF inv_bounds(1)[OF u(1,2)] u(2) inv_bounds(3)[OF u(1,2)] u(3) rv])
    then show "hstep u v \<and> nat idx < h_nprocs v" using touches_hstep[OF u(2,1)] u(2) by (auto simp: touches_def)
  next
    fix u v
    assume u: "hub_inv u" "nat idx < h_nprocs u" "close_proc sys (nat idx) u = Some v"
    show "hstep u v" using close_proc_touches[OF inv_bounds(1,3)[OF u(1,2)] u(3)] touches_hstep[OF u(2,1)] by blast
  qed
qed

lemma pkey_index_nonneg: "0 \<le> PKEY_INDEX key"
  by (simp add: PKEY_INDEX_def)

text \<open>One round of the event loop keeps the invariant and does not leave the shutdown state.\<close>

lemma wait_poll_hstep:
  assumes "kernel_ok sys" and "hub_inv s" and "wait_poll sys s = Some t"
  shows "hstep s t"
proof -
  obtain ret key ev w where p: "sys_epoll_wait sys (h_epfd s) (h_w s) = (ret, key, ev, w)"
    by (cases "sys_epoll_wait sys (h_epfd s) (h_w s)")
  let ?s = "s \<lparr> h_w := w \<rparr>"
  have 0: "hstep s ?s" using assms(2) by (simp add: hstep_def)
  note inv = hstepD[OF 0]
  have sig: "process_sigfd sys ev ?s = Some t \<Longrightarrow> hstep ?s t"
    unfolding process_sigfd_def using check_signal_hstep[OF assms(1)] by (intro on_events_hstep[OF inv, of "\<lambda>_. True"]) auto
  have ctl: "process_ctlfd sys ev ?s = Some t \<Longrightarrow> hstep ?s t"
    unfolding process_ctlfd_def using check_socket_hstep by (intro on_events_hstep[OF inv, of "\<lambda>_. True"]) auto
  have cn: "process_conn sys idx ev ?s = Some t \<Longrightarrow> hstep ?s t" for idx
    unfolding process_conn_def using check_conn_hstep[OF assms(1)] close_conn_hstep
    by (intro on_events_hstep[OF inv, of "\<lambda>_. True"]) (auto split: if_splits)
  have "hstep ?s t"
    using assms(3) p sig ctl cn process_proc_hstep[OF assms(1) inv pkey_index_nonneg]
    by (auto simp: wait_poll_def process_misc_def Let_def split: if_splits)
  then show ?thesis by (rule hstep_trans[OF 0])
qed

section \<open>Reachable states\<close>

lemma hub0_inv: "hub_inv (hub0 w)"
  by (simp add: hub_inv_def hub_shape_def hub0_def alive_count_def) (simp add: zero_proc_def)

lemma inv_fds [simp]:
  "hub_inv (s \<lparr> h_epfd := n \<rparr>) = hub_inv s" "hub_inv (s \<lparr> h_sigfd := n \<rparr>) = hub_inv s"
  "hub_inv (s \<lparr> h_ctlfd := n \<rparr>) = hub_inv s"
  by (simp_all add: hub_inv_def hub_shape_def alive_count_def)

lemma world_inv: "world_only s t \<Longrightarrow> hub_inv t = hub_inv s"
  by (auto simp: world_only_def)

lemma hub_init_inv:
  assumes "hub_init sys argv w = Some s"
  shows "hub_inv s" and "h_state s = S_STARTUP"
proof -
  obtain s1 s2 s3 where 1: "prepare_epoll sys (hub0 w) = Some s1" and 2: "setup_signals sys s1 = Some s2"
      and 3: "open_socket sys s2 = Some s3" and 4: "start_script sys argv s3 = Some s"
    using assms by (auto simp: hub_init_def split: bind_splits)
  have "hub_inv s1" using 1 hub0_inv
    by (auto simp: prepare_epoll_def world_inv split: prod.splits if_splits dest!: call_world)
  then have "hub_inv s2" using 2
    by (auto simp: setup_signals_def world_inv split: prod.splits if_splits dest!: call_world add_epoll_world)
  then have i3: "hub_inv s3" using 3
    by (auto simp: open_socket_def add_sock_fd_def world_inv split: prod.splits if_splits bind_splits
        dest!: call_world add_epoll_world)
  obtain r t where t: "spawn_script sys (zstr ''startup'') argv s3 = Some (r, t)" "s = t \<lparr> h_state := S_STARTUP \<rparr>"
    using 4 by (auto simp: start_script_def split: bind_splits if_splits)
  have "h_state s3 = 0"
    using 1 2 3 by (auto simp: prepare_epoll_def setup_signals_def open_socket_def add_sock_fd_def hub0_def world_only_def
        split: prod.splits if_splits bind_splits dest!: call_world add_epoll_world)
  then have "hub_inv t" "h_state t \<noteq> S_SHUTDOWN"
    using script_only_inv[OF spawn_script_only[OF t(1)]] i3 by (auto simp: S_SHUTDOWN_def)
  then show "hub_inv s" "h_state s = S_STARTUP" using inv_other_state t(2) by auto
qed

lemma reaches_inv:
  assumes "kernel_ok sys" and "reaches sys argv w s"
  shows "hub_inv s"
  using assms(2)
proof (induction rule: reaches.induct)
  case (reaches_init s)
  then show ?case by (rule hub_init_inv(1))
next
  case (reaches_step s s')
  then show ?case using wait_poll_hstep[OF assms(1)] hstepD by blast
qed

section \<open>A kernel for the witnesses\<close>

text \<open>
  A kernel whose world is a list of events still to be reported by \<open>epoll_wait\<close>: the key and the
  signal to be read.  Every other call succeeds.
\<close>

definition demo_sock :: "(int \<times> int) list socksys" where
  "demo_sock = \<lparr> sys_bind = \<lambda>_ _ w. (0, w), sys_connect = \<lambda>_ _ w. (0, w), sys_unlink = \<lambda>_ w. (0, w),
     sys_listen = \<lambda>_ _ w. (0, w), sys_sendmsg = \<lambda>_ _ _ w. (1, w), sys_recvmsg = \<lambda>_ _ _ w. (0, [], [], w),
     sys_ppoll1 = \<lambda>_ _ w. (1, w) \<rparr>"

definition demo_sys :: "(int \<times> int) list svcsys" where
  "demo_sys = \<lparr> cf_initdir = bstr ''i'', cf_bootdir = bstr ''b'', cf_control = zstr ''c'', cf_errlist = [0, 0],
     cf_sock = demo_sock, sys_write = \<lambda>_ bs w. (int (length bs), w), sys_access = \<lambda>_ w. (0, w),
     sys_pipe2 = \<lambda>w. (0, 3, 4, w), sys_fork = \<lambda>_ _ _ w. (100, w), sys_close = \<lambda>_ w. (0, w),
     sys_kill = \<lambda>_ _ w. (0, w), sys_clock_gettime = \<lambda>w. (0, 50, w), sys_mmap = \<lambda>w. (False, w),
     sys_munmap = \<lambda>w. (0, w), sys_readv = \<lambda>_ _ w. (0, [], w), sys_waitpid = \<lambda>w. (0, 0, w),
     sys_alarm = \<lambda>_ w. (0, w), sys_epoll_ctl = \<lambda>_ _ _ _ w. (0, w),
     sys_epoll_wait = \<lambda>_ w. (case w of [] \<Rightarrow> (- 1, 0, 0, []) | (key, sig) # es \<Rightarrow> (1, key, 1, w)),
     sys_accept4 = \<lambda>_ w. (7, w), sys_read_signal = \<lambda>_ w. (case w of [] \<Rightarrow> (0, 0, []) | (key, sig) # es \<Rightarrow> (128, sig, es)),
     sys_socket = \<lambda>w. (5, w), sys_epoll_create1 = \<lambda>w. (6, w), sys_signalfd = \<lambda>w. (8, w),
     sys_sigprocmask = \<lambda>w. (0, w) \<rparr>"

lemma demo_kernel_ok: "kernel_ok demo_sys"
  by (auto simp: kernel_ok_def fork_works_def readv_ok_def pipe_ok_def demo_sys_def)

text \<open>Two power-fail signals in a row: the first stops the services, the second forces the shutdown; an
  alarm comes after them.\<close>

definition demo_events :: "(int \<times> int) list" where
  "demo_events = [(1, 30), (1, 30), (1, 14)]"

definition demo_run :: "(int \<times> int) list hub option" where
  "demo_run = do {
     s \<leftarrow> hub_init demo_sys [None] demo_events;
     s \<leftarrow> wait_poll demo_sys s;
     wait_poll demo_sys s }"

lemma demo_run_state: "map_option h_state demo_run = Some S_SHUTDOWN"
  by code_simp

lemma demo_next_state: "map_option h_state (Option.bind demo_run (wait_poll demo_sys)) = Some S_SHUTDOWN"
  by code_simp

lemma demo_reaches: "demo_run = Some s \<Longrightarrow> reaches demo_sys [None] demo_events s"
  unfolding demo_run_def by (auto split: bind_splits) (metis reaches.intros)

section \<open>Properties\<close>



text \<open>
  C27.  The final shutdown cannot be cancelled: once the state is \<open>S_SHUTDOWN\<close>, every event leaves it
  so or ends the program.
\<close>

theorem svchub_shutdown_final:
  assumes "kernel_ok sys" and "reaches sys argv w s" and "h_state s = S_SHUTDOWN" and "wait_poll sys s = Some s'"
  shows "h_state s' = S_SHUTDOWN"
  using wait_poll_hstep[OF assms(1) reaches_inv[OF assms(1,2)] assms(4)] assms(3) by (simp add: hstep_def)

theorem svchub_shutdown_final_witness:
  "\<exists>s s'. demo_run = Some s \<and> wait_poll demo_sys s = Some s' \<and> h_state s' = S_SHUTDOWN"
proof -
  obtain s where s: "demo_run = Some s" "h_state s = S_SHUTDOWN" using demo_run_state by auto
  moreover obtain s' where s': "wait_poll demo_sys s = Some s'" using demo_next_state unfolding s(1) by auto
  moreover have "h_state s' = S_SHUTDOWN"
    by (rule svchub_shutdown_final[OF demo_kernel_ok demo_reaches[OF s(1)] s(2) s'])
  ultimately show ?thesis by blast
qed

end
