(* ===== verification/Svchub_Props.thy ===== *)
theory Svchub_Props
  imports Svchub_Reach
begin

text \<open>
  Functional properties of the supervisor: the ring buffers keep the tail of a service's output, a
  service is started from its own file, the final shutdown begins exactly when nothing is left
  running; and three places where the code does not do what it means to.
\<close>

section \<open>The ring buffer\<close>

text \<open>Byte \<open>t\<close> of the output is kept at \<open>t mod RINGSIZE\<close>, as long as it is among the last \<open>RINGSIZE\<close>.\<close>

definition ring_rep :: "mem \<Rightarrow> nat \<Rightarrow> byte list \<Rightarrow> bool" where
  "ring_rep ring ptr h \<longleftrightarrow> length ring = 4096 \<and>
     ptr = (if length h \<le> 4096 then length h else 4096 + length h mod 4096) \<and>
     (\<forall>t < length h. length h \<le> t + 4096 \<longrightarrow> ring ! (t mod 4096) = h ! t)"

lemma ring_rep_off: "ring_rep ring ptr h \<Longrightarrow> ptr mod RINGSIZE = length h mod 4096"
  by (auto simp: ring_rep_def RINGSIZE_def)

lemma ring_advance_rep:
  assumes "ring_rep ring ptr h" and "length data \<le> 4096"
  shows "ring_advance ptr (int (length data)) =
    (if length (h @ data) \<le> 4096 then length (h @ data) else 4096 + length (h @ data) mod 4096)"
proof -
  let ?n = "length h" and ?d = "length data"
  have ptr: "ptr = (if ?n \<le> 4096 then ?n else 4096 + ?n mod 4096)" using assms(1) by (simp add: ring_rep_def)
  have lt: "?n mod 4096 < 4096" by simp
  define q where "q = (if ptr + ?d > 4096 then 4096 + (ptr + ?d) mod 4096 else ptr + ?d)"
  have q: "ring_advance ptr (int ?d) = q"
  proof -
    have "q < 65536" using assms(2) lt by (auto simp: q_def ptr)
    moreover have "int q = (if int ptr + int ?d > 4096 then 4096 + (int ptr + int ?d) mod 4096 else int ptr + int ?d)"
      by (auto simp: q_def zmod_int)
    then have "ring_advance ptr (int ?d) = nat (int q mod 65536)"
      by (simp add: ring_advance_def RINGSIZE_def Let_def)
    ultimately show ?thesis by simp
  qed
  have "q = (if ?n + ?d \<le> 4096 then ?n + ?d else 4096 + (?n + ?d) mod 4096)"
  proof -
    have "(4096 + ?n mod 4096 + ?d) mod 4096 = (?n + ?d) mod 4096" by (simp add: add.assoc mod_simps)
    then show ?thesis using ptr lt by (auto simp: q_def)
  qed
  then show ?thesis using q by simp
qed

lemma ring_store_nth:
  assumes "length ring = 4096" and "off < 4096" and "length data \<le> 4096"
  obtains r where "ring_store ring off data = Some r" and "length r = 4096"
    and "\<And>q. q < 4096 \<Longrightarrow> r ! q = (if off \<le> q \<and> q - off < length data then data ! (q - off)
        else if q < off \<and> 4096 - off + q < length data then data ! (4096 - off + q) else ring ! q)"
proof -
  let ?a = "take (4096 - off) data" and ?b = "take off (drop (4096 - off) data)"
  obtain r1 where r1: "wrs ring off ?a = Some r1" "length r1 = 4096"
  proof -
    have "off + length ?a \<le> length ring" using assms by simp
    from wrs_fits[OF this] show ?thesis using that assms(1) by auto
  qed
  obtain r2 where r2: "wrs r1 0 ?b = Some r2" "length r2 = 4096"
  proof -
    have "0 + length ?b \<le> length r1" using r1(2) assms by simp
    from wrs_fits[OF this] show ?thesis using that r1(2) by auto
  qed
  have n1: "r1 ! q = (if off \<le> q \<and> q - off < length data then data ! (q - off) else ring ! q)" if "q < 4096" for q
    using r1(1) that assms by (auto simp: wrs_def nth_append min_def split: if_splits)
  have n2: "r2 ! q = (if q < off \<and> 4096 - off + q < length data then data ! (4096 - off + q) else r1 ! q)" if "q < 4096" for q
    using r2(1) that assms r1(2) by (auto simp: wrs_def nth_append min_def split: if_splits)
  show ?thesis
  proof (rule that)
    show "ring_store ring off data = Some r2" using r1(1) r2(1) by (simp add: ring_store_def RINGSIZE_def)
    show "length r2 = 4096" by (rule r2(2))
    show "r2 ! q = (if off \<le> q \<and> q - off < length data then data ! (q - off)
        else if q < off \<and> 4096 - off + q < length data then data ! (4096 - off + q) else ring ! q)" if "q < 4096" for q
      using n1[OF that] n2[OF that] by auto
  qed
qed

lemma mod_of_split: "t = 4096 * x + y \<Longrightarrow> y < 4096 \<Longrightarrow> t mod 4096 = (y :: nat)"
  by simp

lemma ring_store_rep:
  assumes rep: "ring_rep ring ptr h" and len: "length data \<le> 4096"
  obtains r where "ring_store ring (ptr mod RINGSIZE) data = Some r"
    and "ring_rep r (ring_advance ptr (int (length data))) (h @ data)"
proof -
  define off where "off = length h mod 4096"
  define a where "a = length h div 4096"
  have h: "length h = 4096 * a + off" "off < 4096" by (simp_all add: off_def a_def)
  have ring: "length ring = 4096" using rep by (simp add: ring_rep_def)
  obtain r where r: "ring_store ring off data = Some r" "length r = 4096"
    and nth: "\<And>q. q < 4096 \<Longrightarrow> r ! q = (if off \<le> q \<and> q - off < length data then data ! (q - off)
        else if q < off \<and> 4096 - off + q < length data then data ! (4096 - off + q) else ring ! q)"
    by (rule ring_store_nth[OF ring h(2) len]) blast
  have "r ! (t mod 4096) = (h @ data) ! t" if t: "t < length (h @ data)" "length (h @ data) \<le> t + 4096" for t
  proof (cases "t < length h")
    case False
    define k where "k = t - length h"
    have k: "t = 4096 * a + (off + k)" "k < length data" using False t h by (auto simp: k_def)
    show ?thesis
    proof (cases "off + k < 4096")
      case True
      then have "t mod 4096 = off + k" using k(1) by simp
      moreover have "r ! (off + k) = data ! k" using nth[of "off + k"] True k(2) by simp
      ultimately show ?thesis using False by (simp add: nth_append k_def)
    next
      case wrap: False
      have "t = 4096 * (a + 1) + (off + k - 4096)" using k(1) wrap by simp
      moreover have "off + k - 4096 < 4096" using h(2) k(2) len by simp
      ultimately have "t mod 4096 = off + k - 4096" by (rule mod_of_split)
      moreover have "r ! (off + k - 4096) = data ! k"
      proof -
        have "\<not> off \<le> off + k - 4096" "4096 - off + (off + k - 4096) = k" "off + k - 4096 < off"
          using wrap k(2) len h(2) by auto
        then show ?thesis using nth[of "off + k - 4096"] k(2) h(2) by simp
      qed
      ultimately show ?thesis using False by (simp add: nth_append k_def)
    qed
  next
    case True
    define d where "d = length h - t"
    have d: "t + d = 4096 * a + off" "0 < d" "d + length data \<le> 4096" using True t h by (auto simp: d_def)
    have "r ! (t mod 4096) = ring ! (t mod 4096)"
    proof (cases "d \<le> off")
      case True
      then have "t = 4096 * a + (off - d)" using d by simp
      then have "t mod 4096 = off - d" using h(2) by simp
      then show ?thesis using nth[of "off - d"] True d h(2) by auto
    next
      case False
      have "t = 4096 * (a - 1) + (4096 + off - d)" using d False by (cases a) auto
      moreover have "4096 + off - d < 4096" using False by simp
      ultimately have "t mod 4096 = 4096 + off - d" by (rule mod_of_split)
      then show ?thesis using nth[of "4096 + off - d"] False d h(2) by auto
    qed
    then show ?thesis using rep True t by (simp add: ring_rep_def nth_append)
  qed
  then have "ring_rep r (ring_advance ptr (int (length data))) (h @ data)"
    using r(2) ring_advance_rep[OF rep len] by (simp add: ring_rep_def)
  then show ?thesis using r(1) that ring_rep_off[OF rep] by (simp add: off_def)
qed

lemma ring_pieces_rep:
  assumes "ring_rep ring ptr h"
  obtains ps where "ring_pieces ring ptr = Some ps" and "concat ps = drop (length h - 4096) h"
proof -
  let ?n = "length h"
  have ring: "length ring = 4096" using assms by (simp add: ring_rep_def)
  have nth: "t < ?n \<Longrightarrow> ?n \<le> t + 4096 \<Longrightarrow> ring ! (t mod 4096) = h ! t" for t
    using assms by (simp add: ring_rep_def)
  show ?thesis
  proof (cases "?n \<le> 4096")
    case True
    then have "ptr = ?n" using assms by (simp add: ring_rep_def)
    moreover have "take ?n ring = h"
    proof (rule nth_equalityI)
      fix i assume "i < length (take ?n ring)"
      then show "take ?n ring ! i = h ! i" using nth[of i] True ring by simp
    qed (use True ring in simp)
    ultimately show ?thesis using True ring that by (simp add: ring_pieces_def RINGSIZE_def rds_def)
  next
    case False
    define off where "off = ?n mod 4096"
    define a where "a = ?n div 4096"
    have h: "?n = 4096 * a + off" "off < 4096" by (simp_all add: off_def a_def)
    have a: "0 < a" using False h by (cases a) auto
    have ptr: "ptr = 4096 + off" using assms False by (simp add: ring_rep_def off_def)
    have tail: "drop off ring @ take off ring = drop (?n - 4096) h"
    proof (rule nth_equalityI)
      show "length (drop off ring @ take off ring) = length (drop (?n - 4096) h)" using False ring h(2) by simp
      fix i assume "i < length (drop off ring @ take off ring)"
      then have i: "i < 4096" using ring h(2) by simp
      define t where "t = ?n - 4096 + i"
      have t: "t < ?n" "?n \<le> t + 4096" using i False by (auto simp: t_def)
      have "(drop off ring @ take off ring) ! i = ring ! (t mod 4096)"
      proof (cases "off + i < 4096")
        case True
        have "t = 4096 * (a - 1) + (off + i)" using h(1) a False by (cases a) (auto simp: t_def)
        then have "t mod 4096 = off + i" using True by (rule mod_of_split)
        moreover have "i < 4096 - off" using True by simp
        ultimately show ?thesis using ring h(2) by (simp add: nth_append)
      next
        case wrap: False
        have "t = 4096 * a + (off + i - 4096)" using h(1) a False wrap by (cases a) (auto simp: t_def)
        moreover have "off + i - 4096 < 4096" using h(2) i by simp
        ultimately have "t mod 4096 = off + i - 4096" by (rule mod_of_split)
        moreover have "\<not> i < 4096 - off" "i - (4096 - off) = off + i - 4096" "off + i - 4096 < off"
          using wrap h(2) i by auto
        ultimately show ?thesis using ring by (simp add: nth_append)
      qed
      then show "(drop off ring @ take off ring) ! i = drop (?n - 4096) h ! i"
        using nth[OF t] t False by (simp add: t_def)
    qed
    show ?thesis
    proof (cases "off = 0")
      case True
      then show ?thesis using tail ptr ring that by (simp add: ring_pieces_def RINGSIZE_def rds_def)
    next
      case nz: False
      then show ?thesis using tail ptr ring h(2) that by (simp add: ring_pieces_def RINGSIZE_def rds_def)
    qed
  qed
qed

text \<open>The output of a service, in the pieces \<open>readv\<close> returned, stored one after the other.\<close>

fun ring_feed :: "mem \<Rightarrow> nat \<Rightarrow> byte list list \<Rightarrow> (mem \<times> nat) option" where
  "ring_feed ring ptr [] = Some (ring, ptr)"
| "ring_feed ring ptr (d # ds) = do {
     ring \<leftarrow> ring_store ring (ptr mod RINGSIZE) d;
     ring_feed ring (ring_advance ptr (int (length d))) ds }"

lemma ring_feed_rep:
  assumes "ring_rep ring ptr h" and "\<forall>d \<in> set ds. length d \<le> 4096"
  shows "\<exists>r p. ring_feed ring ptr ds = Some (r, p) \<and> ring_rep r p (h @ concat ds)"
  using assms
proof (induction ds arbitrary: ring ptr h)
  case (Cons d ds)
  obtain r where r: "ring_store ring (ptr mod RINGSIZE) d = Some r"
      "ring_rep r (ring_advance ptr (int (length d))) (h @ d)"
    using ring_store_rep[OF Cons.prems(1), of d] Cons.prems(2) by auto
  from Cons.IH[OF r(2)] Cons.prems(2) show ?case using r(1) by auto
qed auto

text \<open>
  C17.  The ring buffer of a service keeps the end of its output: whatever the sequence of reads by
  which \<open>check_proc\<close> collects it, the pieces \<open>cmd_getbuf\<close> sends are, put together, the last 4096
  bytes of everything the service has written since the buffer was allocated, or all of it when it
  is shorter.
\<close>

theorem ring_keeps_tail:
  assumes "\<forall>d \<in> set ds. length d \<le> RINGSIZE"
  shows "\<exists>ring ptr ps. ring_feed (replicate RINGSIZE 0) 0 ds = Some (ring, ptr) \<and>
    ring_pieces ring ptr = Some ps \<and> concat ps = drop (length (concat ds) - RINGSIZE) (concat ds)"
proof -
  have "ring_rep (replicate RINGSIZE 0) 0 []" by (simp add: ring_rep_def RINGSIZE_def)
  from ring_feed_rep[OF this, of ds] assms obtain r p where
    "ring_feed (replicate RINGSIZE 0) 0 ds = Some (r, p)" "ring_rep r p (concat ds)"
    by (auto simp: RINGSIZE_def)
  moreover from ring_pieces_rep[OF this(2)] obtain ps where
    "ring_pieces r p = Some ps" "concat ps = drop (length (concat ds) - 4096) (concat ds)" by blast
  ultimately show ?thesis by (auto simp: RINGSIZE_def)
qed

theorem ring_keeps_tail_witness:
  "\<exists>ring ptr ps. ring_feed (replicate RINGSIZE 0) 0 [replicate 4000 1, replicate 200 2] = Some (ring, ptr) \<and>
    ring_pieces ring ptr = Some ps \<and>
    concat ps = drop (length (concat [replicate 4000 (1 :: byte), replicate 200 2]) - RINGSIZE)
      (concat [replicate 4000 (1 :: byte), replicate 200 2])"
  by (rule ring_keeps_tail) (simp add: RINGSIZE_def)

section \<open>When the final shutdown begins\<close>

lemma alive_iff:
  assumes "hub_inv s" and "h_state s \<noteq> S_SHUTDOWN"
  shows "h_nalive s \<noteq> 0 \<longleftrightarrow> (\<exists>pc \<in> set (h_procs s). live_entry pc)"
  using assms by (auto simp: hub_inv_def alive_count_def filter_empty_conv)


lemma demo_init_state: "map_option h_state (hub_init demo_sys [None] demo_events) = Some S_STARTUP"
  by code_simp


section \<open>Starting a service\<close>

lemma fmtstrn_exact:
  assumes "length s = n" and "0 \<notin> set s" and "\<exists>r. src = s @ r" and "p + n \<le> e" and "e \<le> length m"
  shows "fmtstrn (Some src) n m p e = Some (take p m @ s @ drop (p + n) m, p + n)"
proof -
  obtain r where src: "src = s @ r" using assms(3) by blast
  have "strnlen_loop src n = Some n"
    using strnlen_loop_field[of n src] assms(1,2) src
    by (auto intro!: arg_cong[of _ _ length] takeWhile_eq_all_conv[THEN iffD2])
  then have "fmtstrn (Some src) n m p e = fmtraw src (int (length s)) m p e"
    using assms(1) by (simp add: fmtstrn_def strnlen_def)
  also have "\<dots> = Some (emit m p e s, min e (p + length s))"
    using strict_formatter.strict[OF fmtraw_strict[OF assms(3)]] assms(4,5) by simp
  finally show ?thesis using assms(1,4) by (simp add: emit_fits)
qed

text \<open>
  A service runs the file of its own name: \<open>spawn_proc\<close> builds exactly the path
  \<open>INITDIR/name\<close>, terminated, in a buffer that just holds it, for every name of up to sixteen bytes,
  those of sixteen bytes that have no terminator in the table included.
\<close>

theorem spawn_proc_path:
  assumes "pc_name (the_proc s i) = nm @ replicate (16 - length nm) 0" and "length nm \<le> 16"
    and "0 \<notin> set nm" and "0 \<notin> set (cf_initdir sys)"
  shows "spawn_proc sys i s = spawn_path sys i (cf_initdir sys @ bstr ''/'' @ nm @ [0]) s"
proof -
  let ?d = "cf_initdir sys @ bstr ''/''" and ?n = "length nm"
  have d: "0 \<notin> set ?d" using assms(4) by (simp add: bstr_def ch_def)
  have "cf_initdir sys @ zstr ''/'' = ?d @ 0 # []" by (simp add: zstr_def)
  then have dir: "strlen (cf_initdir sys @ zstr ''/'') = Some (length ?d)"
    using cstr_append[of ?d "[]"] d by (simp add: strlen_cstr)
  have nlen: "strnlen (Some (pc_name (the_proc s i))) 16 = Some ?n"
  proof -
    have "takeWhile (\<lambda>c. c \<noteq> 0) (nm @ replicate (16 - ?n) 0) = nm"
      using assms(3) by (subst takeWhile_append2) (auto simp: takeWhile_replicate)
    then show ?thesis using strnlen_loop_field[of 16 "pc_name (the_proc s i)"] assms(1,2) by (simp add: strnlen_def)
  qed
  let ?m = "replicate (length ?d + ?n + 1) (0 :: byte)"
  have f1: "fmtstrn (Some (cf_initdir sys @ zstr ''/'')) (length ?d) ?m 0 (length ?d + ?n) =
      Some (?d @ replicate (?n + 1) 0, length ?d)"
    using fmtstrn_exact[of ?d "length ?d" "cf_initdir sys @ zstr ''/''" 0 "length ?d + ?n" ?m] d
    by (simp add: zstr_def drop_replicate del: replicate_Suc)
  have f2: "fmtstrn (Some (pc_name (the_proc s i))) ?n (?d @ replicate (?n + 1) 0) (length ?d) (length ?d + ?n) =
      Some (?d @ nm @ [0], length ?d + ?n)"
    using fmtstrn_exact[of nm ?n "pc_name (the_proc s i)" "length ?d" "length ?d + ?n" "?d @ replicate (?n + 1) 0"]
      assms(1,3) by (simp add: drop_replicate del: replicate_Suc) simp
  have "wr (?d @ nm @ [0]) (length ?d + ?n) 0 = Some (?d @ nm @ [0])"
    by (simp add: wr_def nth_append list_update_append)
  then show ?thesis using f1 f2 unfolding spawn_proc_def Let_def dir nlen
    by (simp add: fseq_def)
qed

theorem spawn_proc_path_witness:
  "spawn_proc demo_sys 0 (set_proc 0 (zero_proc \<lparr> pc_name := bstr ''abcdefghijklmnop'' \<rparr>) (hub0 [])) =
   spawn_path demo_sys 0 (cf_initdir demo_sys @ bstr ''/'' @ bstr ''abcdefghijklmnop'' @ [0])
     (set_proc 0 (zero_proc \<lparr> pc_name := bstr ''abcdefghijklmnop'' \<rparr>) (hub0 []))"
  by (rule spawn_proc_path) (simp_all add: hub0_def NPROCS_def bstr_def ch_def demo_sys_def)

section \<open>Where the code falls short\<close>

text \<open>
  A failed \<open>fork\<close> is reported as success: when the file exists, the pipe was created and \<open>fork\<close>
  fails, \<open>spawn_path\<close> returns zero, with no process started.
\<close>

theorem spawn_fork_failure_hidden:
  assumes "sys_access sys path (h_w s) = (0, w1)" and "sys_pipe2 sys w1 = (0, rfd, wfd, w2)"
    and "sys_fork sys path [Some path] (Some (rfd, wfd)) w2 = (err, w3)" and "err < 0"
    and "\<not> hasf (pc_flags (the_proc s i)) P_PASS"
  shows "spawn_path sys i path s = Some (0, s \<lparr> h_w := w3 \<rparr>)"
  using assms by (simp add: spawn_path_def spawn_fork_def call_def Let_def)

theorem spawn_fork_failure_hidden_witness:
  "spawn_path (demo_sys \<lparr> sys_fork := \<lambda>_ _ _ w. (- ENOMEM, w) \<rparr>) 0 (zstr ''i/x'') (hub0 []) =
     Some (0, (hub0 []) \<lparr> h_w := [] \<rparr>)"
  by (rule spawn_fork_failure_hidden[where err = "- ENOMEM"])
    (simp_all add: demo_sys_def hub0_def ENOMEM_def the_proc_def NPROCS_def zero_proc_def)

text \<open>
  C40.  The exit of the console shell during a stop cancels the timeout: \<open>script_exit\<close> in the state
  \<open>S_STOPPING\<close> resets the state to zero, after which \<open>handle_alarm\<close> does nothing, so services that
  ignore \<open>SIGTERM\<close> are not killed unless a stop is requested again.
\<close>

theorem script_exit_cancels_stop:
  assumes "h_state s = S_STOPPING"
  shows "\<exists>t. script_exit sys status s = Some t \<and> h_procs t = h_procs s \<and> handle_alarm sys t = Some t"
  using assms by (simp add: script_exit_def handle_alarm_def S_STOPPING_def S_STARTUP_def S_RUNNING_def
      S_SHUTDOWN_def)

theorem script_exit_cancels_stop_witness:
  "\<exists>t. script_exit demo_sys 15 ((hub0 []) \<lparr> h_state := S_STOPPING \<rparr>) = Some t \<and>
    h_procs t = h_procs ((hub0 ([] :: (int \<times> int) list)) \<lparr> h_state := S_STOPPING \<rparr>) \<and> handle_alarm demo_sys t = Some t"
  by (rule script_exit_cancels_stop) simp

text \<open>
  A stopped service that never wrote anything cannot be removed: \<open>remove_proc\<close> returns
  \<open>ENODATA\<close> and leaves the table as it was whenever the service has no ring buffer.
\<close>

theorem remove_needs_ring:
  assumes "find_by_name s name = Some (Some i)" and "pc_pid (the_proc s i) = 0" and "pc_buf (the_proc s i) = None"
  shows "remove_proc sys name s = Some (- ENODATA, s)"
  using assms by (simp add: remove_proc_def flush_ring_buf_def ENODATA_def Let_def)

theorem remove_needs_ring_witness:
  "remove_proc demo_sys (zstr ''a'')
     (set_proc 0 (zero_proc \<lparr> pc_name := bstr ''a'' @ replicate 15 0, pc_flags := P_IN_USE \<rparr>) ((hub0 []) \<lparr> h_nprocs := 1 \<rparr>)) =
   Some (- ENODATA, set_proc 0 (zero_proc \<lparr> pc_name := bstr ''a'' @ replicate 15 0, pc_flags := P_IN_USE \<rparr>)
     ((hub0 []) \<lparr> h_nprocs := 1 \<rparr>))"
  by (rule remove_needs_ring[where i = 0])
    (code_simp, simp_all add: hub0_def NPROCS_def zero_proc_def)

end
