(* ===== verification/Hash.thy ===== *)
theory Hash
  imports Cstring
begin

text \<open>
  What the two hash functions of \<^verbatim>\<open>lib/crypto\<close> share: the byte order conversions of \<^verbatim>\<open>lib/endian.h\<close>,
  the padding of the last block, the loop that feeds contiguous input to a hash block by block,
  and, on top of these, HMAC and PBKDF2.

  The source has every one of these twice, once for SHA-1 and once for SHA-256, differing only in
  the names of the primitives they call; here they take the primitives as arguments.  The locale
  \<open>block_hash\<close> states what the primitives promise, and the lemmas proved from it say that the
  streaming code computes the hash of the padded message, that \<open>hmac\<close> is RFC 2104 and that
  \<open>pbkdf2\<close> is RFC 2898.
\<close>

section \<open>Byte order\<close>

definition swabl :: "u32 \<Rightarrow> u32" where
  "swabl n = push_bit 24 (drop_bit 0 n AND 0xFF) OR push_bit 16 (drop_bit 8 n AND 0xFF)
     OR push_bit 8 (drop_bit 16 n AND 0xFF) OR push_bit 0 (drop_bit 24 n AND 0xFF)"

definition htonl :: "u32 \<Rightarrow> u32" where "htonl n = swabl n"
definition ntohl :: "u32 \<Rightarrow> u32" where "ntohl n = swabl n"

text \<open>The \<open>n\<close> low bytes of a word, most significant first.\<close>

definition be_bytes :: "nat \<Rightarrow> 'a::len word \<Rightarrow> byte list" where
  "be_bytes n w = rev (le_bytes n w)"

lemma be_length [simp]: "length (be_bytes n w) = n"
  by (simp add: be_bytes_def)

lemma mask8: "(0xFF :: 'a::len word) = mask 8"
  by (simp add: mask_eq_exp_minus_1)

lemma le_htonl: "le_bytes 4 (htonl w) = be_bytes 4 w"
proof -
  have "ucast (swabl w) = (ucast (drop_bit 24 w) :: byte)"
    "ucast (drop_bit 8 (swabl w)) = (ucast (drop_bit 16 w) :: byte)"
    "ucast (drop_bit 8 (drop_bit 8 (swabl w))) = (ucast (drop_bit 8 w) :: byte)"
    "ucast (drop_bit 8 (drop_bit 8 (drop_bit 8 (swabl w)))) = (ucast w :: byte)"
    unfolding swabl_def mask8 by (rule bit_word_eqI; auto simp: bit_simps)+
  then show ?thesis by (simp add: be_bytes_def htonl_def numeral_eq_Suc)
qed

lemma be_bytes_64:
  "be_bytes 4 (ucast (drop_bit 32 w) :: u32) @ be_bytes 4 (ucast (w AND 0xFFFFFFFF) :: u32) = be_bytes 8 (w :: u64)"
proof -
  have m: "(0xFFFFFFFF :: u64) = mask 32" by (simp add: mask_eq_exp_minus_1)
  have h: "ucast (drop_bit k (ucast (drop_bit 32 w) :: u32)) = (ucast (drop_bit (k + 32) w) :: byte)" if "k \<le> 24" for k
    using that by (intro bit_word_eqI) (auto simp: bit_simps algebra_simps)
  have l: "ucast (drop_bit k (ucast (w AND mask 32) :: u32)) = (ucast (drop_bit k w) :: byte)" if "k \<le> 24" for k
    using that by (intro bit_word_eqI) (auto simp: bit_simps)
  have le4: "le_bytes 4 v = [ucast v, ucast (drop_bit 8 v), ucast (drop_bit 16 v), ucast (drop_bit 24 v)]" for v :: u32
    by (simp add: numeral_eq_Suc)
  have le8: "le_bytes 8 w = [ucast w, ucast (drop_bit 8 w), ucast (drop_bit 16 w), ucast (drop_bit 24 w),
      ucast (drop_bit 32 w), ucast (drop_bit 40 w), ucast (drop_bit 48 w), ucast (drop_bit 56 w)]"
    by (simp add: numeral_eq_Suc)
  show ?thesis
    using h[of 0] l[of 0] unfolding be_bytes_def le4 le8 m by (simp add: h l)
qed

section \<open>Padding\<close>

text \<open>
  \<open>put_size\<close> stores the length in bits in the last eight bytes of a block; \<open>pad_block\<close> is the
  block with the tail of the input and the mark byte after it.
\<close>

definition put_size :: "byte list \<Rightarrow> u64 \<Rightarrow> byte list" where
  "put_size blk tot =
     (let bits = push_bit 3 tot
      in take 56 blk @ le_bytes 4 (htonl (ucast (drop_bit 32 bits))) @ le_bytes 4 (htonl (ucast (bits AND 0xFFFFFFFF))))"

definition pad_block :: "byte list \<Rightarrow> nat \<Rightarrow> byte list" where
  "pad_block ptr tail = (take tail ptr @ replicate (64 - tail) 0)[tail := 0x80]"

section \<open>Feeding the input\<close>

text \<open>
  The loop of \<open>sha1\<close>, \<open>sha256\<close> and \<open>hash_rest\<close>: whole blocks go to \<open>proc\<close>; it leaves the hash state,
  the pointer and the number of bytes left.  The input is the bytes from the pointer on.
\<close>

fun hash_blocks :: "('s \<Rightarrow> byte list \<Rightarrow> 's) \<Rightarrow> 's \<Rightarrow> byte list \<Rightarrow> nat \<Rightarrow> ('s \<times> byte list \<times> nat) option" where
  "hash_blocks proc sh ptr n =
     (if n \<ge> 64 then
        (if 64 \<le> length ptr then hash_blocks proc (proc sh (take 64 ptr)) (drop 64 ptr) (n - 64) else None)
      else Some (sh, ptr, n))"

declare hash_blocks.simps [simp del]

definition hash_rest ::
  "('s \<Rightarrow> byte list \<Rightarrow> 's) \<Rightarrow> ('s \<Rightarrow> byte list \<Rightarrow> nat \<Rightarrow> u64 \<Rightarrow> 's option) \<Rightarrow> 's \<Rightarrow> byte list \<Rightarrow> nat \<Rightarrow> nat \<Rightarrow> 's option" where
  "hash_rest proc lst sh input inlen prev =
     (case hash_blocks proc sh input inlen of None \<Rightarrow> None
      | Some (sh, ptr, n) \<Rightarrow> lst sh ptr n (of_nat (inlen + prev)))"

section \<open>HMAC\<close>

definition hmac_xor :: "byte list \<Rightarrow> byte \<Rightarrow> byte list" where
  "hmac_xor pad v = map (\<lambda>b. b XOR v) pad"

definition hmac_pad :: "byte list \<Rightarrow> int \<Rightarrow> byte list option" where
  "hmac_pad key klen =
     (let klen = (if klen < 0 then 0 else klen); klen = (if klen > 64 then 64 else klen)
      in map_option (\<lambda>k. k @ replicate (64 - nat klen) 0) (rds key 0 (nat klen)))"

definition hmac ::
  "'s \<Rightarrow> ('s \<Rightarrow> byte list \<Rightarrow> 's) \<Rightarrow> ('s \<Rightarrow> byte list \<Rightarrow> nat \<Rightarrow> u64 \<Rightarrow> 's option) \<Rightarrow> ('s \<Rightarrow> byte list) \<Rightarrow>
   byte list \<Rightarrow> int \<Rightarrow> byte list \<Rightarrow> nat \<Rightarrow> byte list option" where
  "hmac ini proc lst fini key klen input inlen = do {
     pad \<leftarrow> hmac_pad key klen;
     sh \<leftarrow> hash_rest proc lst (proc ini (hmac_xor pad 0x36)) input inlen 64;
     let h = fini sh;
     pad \<leftarrow> hmac_pad key klen;
     sh \<leftarrow> lst (proc ini (hmac_xor pad 0x5C)) h (length h) (of_nat (64 + length h));
     Some (fini sh) }"

section \<open>PBKDF2\<close>

text \<open>
  \<open>mac\<close> is \<open>hmac_sha1\<close> or \<open>hmac_sha256\<close> and \<open>hs\<close> the size of its output.  \<open>F1\<close> appends the block
  number to the salt; \<open>F_loop\<close> is the loop of \<open>F\<close> over \<open>j\<close>, entered with \<open>n = c - 1\<close> rounds to go.
\<close>

type_synonym mac = "byte list \<Rightarrow> int \<Rightarrow> byte list \<Rightarrow> nat \<Rightarrow> byte list option"

definition F1 :: "mac \<Rightarrow> byte list \<Rightarrow> int \<Rightarrow> byte list \<Rightarrow> nat \<Rightarrow> nat \<Rightarrow> byte list option" where
  "F1 mac P Pn S Sn i = do {
     s \<leftarrow> rds S 0 Sn;
     mac P Pn (s @ be_bytes 4 (of_nat i :: u32)) (Sn + 4) }"

definition Fc :: "mac \<Rightarrow> nat \<Rightarrow> byte list \<Rightarrow> byte list \<Rightarrow> int \<Rightarrow> byte list option" where
  "Fc mac hs U P Pn = mac P Pn U hs"

definition xorbuf :: "byte list \<Rightarrow> byte list \<Rightarrow> byte list" where
  "xorbuf T U = map2 (\<lambda>t u. t XOR u) T U"

fun F_loop :: "mac \<Rightarrow> nat \<Rightarrow> byte list \<Rightarrow> int \<Rightarrow> nat \<Rightarrow> byte list \<Rightarrow> byte list \<Rightarrow> byte list option" where
  "F_loop mac hs P Pn 0 U T = Some T"
| "F_loop mac hs P Pn (Suc n) U T = do { U \<leftarrow> Fc mac hs U P Pn; F_loop mac hs P Pn n U (xorbuf T U) }"

definition F_block :: "mac \<Rightarrow> nat \<Rightarrow> byte list \<Rightarrow> int \<Rightarrow> byte list \<Rightarrow> nat \<Rightarrow> int \<Rightarrow> nat \<Rightarrow> byte list option" where
  "F_block mac hs P Pn S Sn c i = do { U \<leftarrow> F1 mac P Pn S Sn i; F_loop mac hs P Pn (nat (c - 1)) U U }"

text \<open>The guard \<open>hs \<noteq> 0\<close> is there for termination only; the size is 20 or 32.\<close>

function pbkdf2_loop :: "mac \<Rightarrow> nat \<Rightarrow> mem \<Rightarrow> nat \<Rightarrow> byte list \<Rightarrow> int \<Rightarrow> byte list \<Rightarrow> nat \<Rightarrow> int \<Rightarrow> nat \<Rightarrow> mem option" where
  "pbkdf2_loop mac hs psk len P Pn S Sn c i =
     (if hs \<noteq> 0 \<and> hs * i \<le> len then do {
        T \<leftarrow> F_block mac hs P Pn S Sn c i;
        psk \<leftarrow> wrs psk (hs * (i - 1)) T;
        pbkdf2_loop mac hs psk len P Pn S Sn c (i + 1) }
      else if hs * (i - 1) < len then do {
        T \<leftarrow> F_block mac hs P Pn S Sn c i;
        wrs psk (hs * (i - 1)) (take (len - hs * (i - 1)) T) }
      else Some psk)"
  by pat_completeness auto
termination
proof (relation "measure (\<lambda>(mac, hs, psk, len, P, Pn, S, Sn, c, i). Suc len - hs * i)")
  fix mac :: mac and hs len i :: nat and psk P S :: "byte list" and Pn c :: int and Sn T psk'
  assume "hs \<noteq> 0 \<and> hs * i \<le> len"
  then show "((mac, hs, psk', len, P, Pn, S, Sn, c, i + 1), mac, hs, psk, len, P, Pn, S, Sn, c, i)
      \<in> measure (\<lambda>(mac, hs, psk, len, P, Pn, S, Sn, c, i). Suc len - hs * i)"
    by (auto simp: algebra_simps)
qed simp

declare pbkdf2_loop.simps [simp del]

definition pbkdf2 :: "mac \<Rightarrow> nat \<Rightarrow> mem \<Rightarrow> nat \<Rightarrow> byte list \<Rightarrow> int \<Rightarrow> byte list \<Rightarrow> nat \<Rightarrow> int \<Rightarrow> mem option" where
  "pbkdf2 mac hs psk len pass passlen salt saltlen iters =
     pbkdf2_loop mac hs psk len pass passlen salt saltlen iters 1"

section \<open>Specification\<close>

text \<open>
  The standards: a message is followed by the mark byte, zeroes and its length in bits so that it
  fills whole blocks, and the hash is the fold of the compression function over the blocks.
\<close>

definition padding :: "nat \<Rightarrow> byte list" where
  "padding n = 0x80 # replicate ((119 - n mod 64) mod 64) 0 @ be_bytes 8 (of_nat (8 * n) :: u64)"

function blocks :: "byte list \<Rightarrow> byte list list" where
  "blocks m = (if m = [] then [] else take 64 m # blocks (drop 64 m))"
  by pat_completeness auto
termination by (relation "measure length") auto

declare blocks.simps [simp del]

definition hash_spec :: "('h \<Rightarrow> byte list \<Rightarrow> 'h) \<Rightarrow> 'h \<Rightarrow> byte list \<Rightarrow> 'h" where
  "hash_spec compress h0 m = foldl compress h0 (blocks (m @ padding (length m)))"

text \<open>RFC 2104, for keys of at most one block; RFC 2898.\<close>

definition hmac_spec :: "(byte list \<Rightarrow> byte list) \<Rightarrow> byte list \<Rightarrow> byte list \<Rightarrow> byte list" where
  "hmac_spec H key m =
     (let k = key @ replicate (64 - length key) 0
      in H (map (\<lambda>b. b XOR 0x5C) k @ H (map (\<lambda>b. b XOR 0x36) k @ m)))"

fun pb_U :: "(byte list \<Rightarrow> byte list \<Rightarrow> byte list) \<Rightarrow> byte list \<Rightarrow> byte list \<Rightarrow> nat \<Rightarrow> nat \<Rightarrow> byte list" where
  "pb_U mac P S i 0 = mac P (S @ be_bytes 4 (of_nat i :: u32))"
| "pb_U mac P S i (Suc k) = mac P (pb_U mac P S i k)"

fun pb_T :: "(byte list \<Rightarrow> byte list \<Rightarrow> byte list) \<Rightarrow> byte list \<Rightarrow> byte list \<Rightarrow> nat \<Rightarrow> nat \<Rightarrow> byte list" where
  "pb_T mac P S i 0 = pb_U mac P S i 0"
| "pb_T mac P S i (Suc k) = map2 (\<lambda>t u. t XOR u) (pb_T mac P S i k) (pb_U mac P S i (Suc k))"

definition pbkdf2_spec :: "(byte list \<Rightarrow> byte list \<Rightarrow> byte list) \<Rightarrow> nat \<Rightarrow> nat \<Rightarrow> byte list \<Rightarrow> byte list \<Rightarrow> nat \<Rightarrow> byte list" where
  "pbkdf2_spec mac hs len P S c = take len (concat (map (\<lambda>i. pb_T mac P S i (c - 1)) [1..<len div hs + 2]))"

section \<open>Lemmas on padding and blocks\<close>

lemma blocks_Nil [simp]: "blocks [] = []"
  by (simp add: blocks.simps)

lemma blocks_step: "length b = 64 \<Longrightarrow> blocks (b @ m) = b # blocks m"
  by (subst blocks.simps) auto

lemma blocks_one: "length b = 64 \<Longrightarrow> blocks b = [b]"
  using blocks_step[of b "[]"] by simp

lemma blocks_append: "length m mod 64 = 0 \<Longrightarrow> blocks (m @ m') = blocks m @ blocks m'"
proof (induction m rule: length_induct)
  case (1 m)
  show ?case
  proof (cases "m = []")
    case False
    then have l: "64 \<le> length m" using "1.prems" by (metis length_0_conv linorder_not_less mod_less)
    then have "blocks (drop 64 m @ m') = blocks (drop 64 m) @ blocks m'"
      using 1 by (simp add: le_mod_geq)
    then show ?thesis
      using blocks_step[of "take 64 m" "drop 64 m @ m'"] blocks_step[of "take 64 m" "drop 64 m"] l
      by (simp add: append_assoc[symmetric] del: append_assoc)
  qed simp
qed

lemma length_pad_block: "tail < 64 \<Longrightarrow> tail \<le> length ptr \<Longrightarrow> length (pad_block ptr tail) = 64"
  by (simp add: pad_block_def)

lemma pad_block_eq:
  "tail < 64 \<Longrightarrow> tail \<le> length ptr \<Longrightarrow> pad_block ptr tail = take tail ptr @ 0x80 # replicate (63 - tail) 0"
  by (simp add: pad_block_def list_update_append Suc_diff_Suc[symmetric] numeral_eq_Suc)

lemma put_size_eq: "put_size blk tot = take 56 blk @ be_bytes 8 (push_bit 3 tot)"
  by (simp add: put_size_def Let_def le_htonl be_bytes_64)

lemma push_bit_3_of_nat: "push_bit 3 (of_nat n :: u64) = of_nat (8 * n)"
  by (simp add: push_bit_eq_mult algebra_simps)

lemma put_size_of_nat: "put_size blk (of_nat n) = take 56 blk @ be_bytes 8 (of_nat (8 * n) :: u64)"
  by (simp only: put_size_eq push_bit_3_of_nat)

lemma zeroes_one:
  assumes "n mod 64 \<le> 55"
  shows "(119 - n mod 64) mod 64 = 55 - n mod (64 :: nat)"
proof -
  have "119 - n mod 64 = (55 - n mod 64) + 64" using assms by simp
  then show ?thesis by (simp only: mod_add_self2) simp
qed

lemma zeroes_two:
  assumes "55 < n mod 64"
  shows "(119 - n mod 64) mod 64 = (63 - n mod 64) + (56 :: nat)"
proof -
  have "n mod 64 < 64" by simp
  then have "119 - n mod 64 = (63 - n mod 64) + 56" by simp
  then show ?thesis using assms by simp
qed

lemma pad_one_block:
  assumes "length s = n mod 64" and "n mod 64 \<le> 55"
  shows "s @ padding n = put_size (pad_block (s @ r) (n mod 64)) (of_nat n)"
proof -
  let ?t = "n mod 64"
  have "take 56 (s @ 0x80 # replicate (63 - ?t) 0) = s @ 0x80 # replicate (55 - ?t) (0 :: byte)"
    using assms by (simp add: take_Cons' take_replicate)
  moreover have "pad_block (s @ r) ?t = s @ 0x80 # replicate (63 - ?t) 0"
    using assms pad_block_eq[of ?t "s @ r"] by simp
  ultimately show ?thesis
    unfolding padding_def put_size_of_nat zeroes_one[OF assms(2)] by simp
qed

lemma pad_two_blocks:
  assumes "length s = n mod 64" and "55 < n mod 64"
  shows "s @ padding n = pad_block (s @ r) (n mod 64) @ put_size (replicate 64 0) (of_nat n)"
proof -
  have "pad_block (s @ r) (n mod 64) = s @ 0x80 # replicate (63 - n mod 64) 0"
    using assms pad_block_eq[of "n mod 64" "s @ r"] by simp
  then show ?thesis
    unfolding padding_def put_size_of_nat zeroes_two[OF assms(2)] replicate_add by simp
qed

section \<open>Lemmas on words and arrays\<close>

lemma ntohl_unle: "length b = 4 \<Longrightarrow> ntohl (unle b) = unle (rev b)"
proof -
  assume "length b = 4"
  then have "le_bytes 4 (htonl (unle b)) = rev b"
    using le_unle[of b, where 'a = 32] by (simp add: le_htonl be_bytes_def)
  then show ?thesis using unle_le[of 4 "htonl (unle b)"] by (simp add: htonl_def ntohl_def)
qed

lemma map_nth_upt: "length xs = n \<Longrightarrow> map (\<lambda>i. f (xs ! i)) [0..<n] = map f xs"
  by (auto intro: nth_equalityI)

text \<open>A loop that fills an array from \<open>a\<close> up, each word from those below it.\<close>

lemma fold_fill:
  assumes "\<And>i W. a \<le> i \<Longrightarrow> i < n \<Longrightarrow> length W = N \<Longrightarrow> \<forall>j<i. W ! j = f j \<Longrightarrow> g i W = f i"
    and "a \<le> n" and "n \<le> N" and "length W = N" and "\<forall>j<a. W ! j = f j"
  shows "length (fold (\<lambda>i W. W[i := g i W]) [a..<n] W) = N \<and> (\<forall>j<n. fold (\<lambda>i W. W[i := g i W]) [a..<n] W ! j = f j)"
  using assms(2,3,1)
proof (induction n rule: dec_induct)
  case base
  then show ?case using assms(4,5) by simp
next
  case (step n)
  let ?W = "fold (\<lambda>i W. W[i := g i W]) [a..<n] W"
  have IH: "length ?W = N" "\<forall>j<n. ?W ! j = f j" using step by auto
  then have "g n ?W = f n" using step by simp
  then show ?case using IH step by (auto simp: nth_list_update less_Suc_eq)
qed

section \<open>What a message authentication code promises\<close>

text \<open>
  PBKDF2 relies on its pseudorandom function being total on the buffers it is given, with outputs
  of one size.
\<close>

lemma length_pb_U: "(\<And>k m. length (H k m) = hs) \<Longrightarrow> length (pb_U H P S i k) = hs"
  by (cases k) auto

lemma length_pb_T: "(\<And>k m. length (H k m) = hs) \<Longrightarrow> length (pb_T H P S i k) = hs"
  by (induction k) (auto simp: length_pb_U simp del: pb_U.simps)

lemma take_concat_blocks:
  "(\<And>i. length (f i) = h) \<Longrightarrow> length (concat (map f [a..<b])) = h * (b - a)"
  by (induction b) (auto simp: Suc_diff_le)

lemma take_exact: "length xs = n \<Longrightarrow> take n (xs @ ys) = xs"
  by simp

lemma drop_wrs: "wrs m p bs = Some m' \<Longrightarrow> p + length bs \<le> n \<Longrightarrow> drop n m' = drop n m"
  by (auto simp: wrs_def split: if_splits)

locale mac_function =
  fixes mac :: mac and H :: "byte list \<Rightarrow> byte list \<Rightarrow> byte list" and hs :: nat
  assumes mac_ok: "mac (P @ p) (int (length P)) (m @ r) (length m) = Some (H P m)"
    and mac_size: "length (H P m) = hs"
    and hs_pos: "0 < hs"
begin

lemma F1_ok: "F1 mac (P @ p) (int (length P)) (S @ r) (length S) i = Some (pb_U H P S i 0)"
  using mac_ok[of P p "S @ be_bytes 4 (of_nat i :: u32)" "[]"] by (simp add: F1_def rds_def)

lemma Fc_ok: "length U = hs \<Longrightarrow> Fc mac hs U (P @ p) (int (length P)) = Some (H P U)"
  using mac_ok[of P p U "[]"] by (simp add: Fc_def)

lemma F_loop_ok:
  "F_loop mac hs (P @ p) (int (length P)) n (pb_U H P S i k) (pb_T H P S i k) = Some (pb_T H P S i (k + n))"
proof (induction n arbitrary: k)
  case (Suc n)
  show ?case using Suc[of "Suc k"] by (simp add: Fc_ok length_pb_U mac_size xorbuf_def)
qed simp

lemma F_block_ok:
  "F_block mac hs (P @ p) (int (length P)) (S @ r) (length S) c i = Some (pb_T H P S i (nat c - 1))"
proof -
  have "nat (c - 1) = nat c - 1" by arith
  then show ?thesis using F_loop_ok[of P p "nat c - 1" S i 0] by (simp add: F_block_def F1_ok)
qed

lemma pbkdf2_loop_ok:
  assumes "len \<le> length psk" and "hs * k \<le> len"
    and "take (hs * k) psk = concat (map (\<lambda>i. pb_T H P S i (nat c - 1)) [1..<k + 1])"
  shows "pbkdf2_loop mac hs psk len (P @ p) (int (length P)) (S @ r) (length S) c (k + 1) =
    Some (pbkdf2_spec H hs len P S (nat c) @ drop len psk)"
  using assms
proof (induction "len - hs * k" arbitrary: k psk rule: less_induct)
  case less
  let ?T = "\<lambda>i. pb_T H P S i (nat c - 1)"
  have sz: "length (?T i) = hs" for i by (rule length_pb_T[OF mac_size])
  show ?case
  proof (cases "hs * (k + 1) \<le> len")
    case True
    let ?psk = "take (hs * k) psk @ ?T (k + 1) @ drop (hs * k + hs) psk"
    have w: "wrs psk (hs * k) (?T (k + 1)) = Some ?psk"
      using less.prems True sz[of "k + 1"] by (simp add: wrs_def)
    have len: "length (take (hs * k) psk @ ?T (k + 1)) = hs * (k + 1)"
      using less.prems(1,2) sz[of "k + 1"] by simp
    have "take (hs * (k + 1)) ((take (hs * k) psk @ ?T (k + 1)) @ drop (hs * k + hs) psk) =
        take (hs * k) psk @ ?T (k + 1)"
      by (rule take_exact[OF len])
    moreover have "concat (map ?T [1..<k + 1 + 1]) = concat (map ?T [1..<k + 1]) @ ?T (k + 1)"
      by (subst upt_Suc_append[of 1 "k + 1", simplified Suc_eq_plus1]) auto
    ultimately have tk: "take (hs * (k + 1)) ?psk = concat (map ?T [1..<k + 1 + 1])"
      unfolding less.prems(3) by simp
    have lt: "len - hs * (k + 1) < len - hs * k" using True hs_pos by simp
    have ln: "len \<le> length ?psk" and dr: "drop len ?psk = drop len psk"
      using less.prems(1) True sz[of "k + 1"] wrs_length[OF w] drop_wrs[OF w, of len] by simp_all
    have "pbkdf2_loop mac hs ?psk len (P @ p) (int (length P)) (S @ r) (length S) c (k + 1 + 1) =
        Some (pbkdf2_spec H hs len P S (nat c) @ drop len psk)"
      using less.hyps[OF lt ln True tk] by (simp only: dr)
    then show ?thesis
      using True hs_pos w F_block_ok[of P p S r c "k + 1"]
      by (subst pbkdf2_loop.simps) simp
  next
    case False
    then have k: "len div hs = k"
      using less.prems(2) hs_pos by (intro div_nat_eqI) (auto simp: algebra_simps)
    have pre: "length (concat (map ?T [1..<k + 1])) = hs * k"
      using take_concat_blocks[of ?T hs 1 "k + 1"] sz by simp
    have spec: "pbkdf2_spec H hs len P S (nat c) =
        concat (map ?T [1..<k + 1]) @ take (len - hs * k) (?T (k + 1))"
      using pre less.prems(2) by (simp add: pbkdf2_spec_def k)
    show ?thesis
    proof (cases "hs * k < len")
      case True
      have "length (take (len - hs * k) (?T (k + 1))) = len - hs * k"
        using False sz[of "k + 1"] by simp
      then have "wrs psk (hs * k) (take (len - hs * k) (?T (k + 1))) =
          Some (take (hs * k) psk @ take (len - hs * k) (?T (k + 1)) @ drop len psk)"
        using less.prems(1) True by (simp only: wrs_def) simp
      then show ?thesis
        using False True F_block_ok[of P p S r c "k + 1"]
        by (subst pbkdf2_loop.simps) (simp add: spec less.prems(3) del: upt_Suc)
    next
      case ge: False
      then have "hs * k = len" using less.prems(2) by simp
      then have "psk = concat (map ?T [1..<k + 1]) @ drop len psk"
        using less.prems(3) append_take_drop_id[of len psk] by simp
      then show ?thesis
        using False ge \<open>hs * k = len\<close>
        by (subst pbkdf2_loop.simps) (simp add: spec del: upt_Suc)
    qed
  qed
qed

lemma pbkdf2_ok:
  assumes "len \<le> length psk"
  shows "pbkdf2 mac hs psk len (P @ p) (int (length P)) (S @ r) (length S) c =
    Some (pbkdf2_spec H hs len P S (nat c) @ drop len psk)"
  using pbkdf2_loop_ok[of len psk 0] assms by (simp add: pbkdf2_def)

end

section \<open>What a block hash promises\<close>

locale block_hash =
  fixes ini :: 's and proc :: "'s \<Rightarrow> byte list \<Rightarrow> 's" and lst :: "'s \<Rightarrow> byte list \<Rightarrow> nat \<Rightarrow> u64 \<Rightarrow> 's option"
    and fini :: "'s \<Rightarrow> byte list" and ok :: "'s \<Rightarrow> bool" and chain :: "'s \<Rightarrow> 'h"
    and compress :: "'h \<Rightarrow> byte list \<Rightarrow> 'h" and out :: "'h \<Rightarrow> byte list" and hs :: nat
  assumes ini_ok: "ok ini"
    and proc_ok: "ok s \<Longrightarrow> length b = 64 \<Longrightarrow> ok (proc s b) \<and> chain (proc s b) = compress (chain s) b"
    and lst_ok: "ok s \<Longrightarrow> length t = n mod 64 \<Longrightarrow> len mod 64 = n mod 64 \<Longrightarrow>
      \<exists>s'. lst s (t @ r) len (of_nat n) = Some s' \<and> ok s' \<and>
        chain s' = foldl compress (chain s) (blocks (t @ padding n))"
    and fini_ok: "ok s \<Longrightarrow> fini s = out (chain s)"
    and fini_size: "ok s \<Longrightarrow> length (fini s) = hs"
    and hs_bounds: "0 < hs" "hs < 64"
begin

lemma hash_blocks_ok:
  "ok s \<Longrightarrow> \<exists>s'. hash_blocks proc s (m @ r) (length m) =
     Some (s', drop (length m - length m mod 64) m @ r, length m mod 64) \<and> ok s' \<and>
     chain s' = foldl compress (chain s) (blocks (take (length m - length m mod 64) m))"
proof (induction m arbitrary: s rule: length_induct)
  case (1 m)
  show ?case
  proof (cases "64 \<le> length m")
    case True
    let ?b = "take 64 m" and ?m = "drop 64 m" and ?k = "length m - length m mod 64"
    have b: "length ?b = 64" using True by simp
    have md: "length ?m mod 64 = length m mod 64" using True by (simp add: le_mod_geq)
    have k: "?k = 64 + (length ?m - length ?m mod 64)"
      using True md mod_less_eq_dividend[of "length ?m" 64] by (simp add: le_mod_geq)
    have "length ?m < length m" using True by simp
    then obtain s' where s': "hash_blocks proc (proc s ?b) (?m @ r) (length ?m) =
        Some (s', drop (length ?m - length ?m mod 64) ?m @ r, length ?m mod 64)" "ok s'"
      "chain s' = foldl compress (chain (proc s ?b)) (blocks (take (length ?m - length ?m mod 64) ?m))"
      using 1 proc_ok[OF _ b] by blast
    have "take ?k m = ?b @ take (length ?m - length ?m mod 64) ?m"
      unfolding k using take_add[of 64 "length ?m - length ?m mod 64" m] by simp
    moreover have "drop ?k m = drop (length ?m - length ?m mod 64) ?m"
      unfolding k by (simp add: add.commute)
    moreover have "hash_blocks proc s (m @ r) (length m) = hash_blocks proc (proc s ?b) (?m @ r) (length ?m)"
      using True by (subst hash_blocks.simps) simp
    ultimately show ?thesis
      using s' proc_ok[OF "1.prems" b] blocks_step[OF b] md by simp
  next
    case False
    then show ?thesis using "1.prems" by (subst hash_blocks.simps) simp
  qed
qed

text \<open>Hashing the rest of a message of which whole blocks have been processed.\<close>

lemma hash_rest_ok:
  assumes "ok s" and "chain s = foldl compress (chain ini) (blocks m0)" and "length m0 mod 64 = 0"
  shows "\<exists>s'. hash_rest proc lst s (m @ r) (length m) (length m0) = Some s' \<and> ok s' \<and>
    chain s' = hash_spec compress (chain ini) (m0 @ m)"
proof -
  let ?n = "length m" and ?k = "length m - length m mod 64"
  obtain s1 where s1: "hash_blocks proc s (m @ r) ?n = Some (s1, drop ?k m @ r, ?n mod 64)" "ok s1"
    "chain s1 = foldl compress (chain s) (blocks (take ?k m))"
    using hash_blocks_ok[OF assms(1)] by blast
  have md: "(?n + length m0) mod 64 = ?n mod 64" using assms(3) by (metis add_0_right mod_add_right_eq)
  have "length (drop ?k m) = (?n + length m0) mod 64" unfolding md by simp
  moreover have "?n mod 64 mod 64 = (?n + length m0) mod 64" unfolding md by simp
  ultimately obtain s2 where s2: "lst s1 (drop ?k m @ r) (?n mod 64) (of_nat (?n + length m0)) = Some s2" "ok s2"
    "chain s2 = foldl compress (chain s1) (blocks (drop ?k m @ padding (?n + length m0)))"
    using lst_ok[OF s1(2)] by blast
  have "length (take ?k m) mod 64 = 0" by (simp add: minus_mod_eq_mult_div)
  then have "blocks (take ?k m @ drop ?k m @ padding (?n + length m0)) =
      blocks (take ?k m) @ blocks (drop ?k m @ padding (?n + length m0))"
    by (rule blocks_append)
  then have "blocks (m0 @ m @ padding (?n + length m0)) =
      blocks m0 @ blocks (take ?k m) @ blocks (drop ?k m @ padding (?n + length m0))"
    unfolding blocks_append[OF assms(3)] by (simp add: append_assoc[symmetric] del: append_assoc)
  then have "chain s2 = hash_spec compress (chain ini) (m0 @ m)"
    using s2(3) s1(3) assms(2) by (simp add: hash_spec_def add.commute)
  then show ?thesis using s1(1) s2(1,2) by (simp add: hash_rest_def)
qed

lemma hash_ok:
  "map_option fini (hash_rest proc lst ini (m @ r) (length m) 0) = Some (out (hash_spec compress (chain ini) m))"
  using hash_rest_ok[OF ini_ok, of "[]" m r] fini_ok by auto

lemma digest_size: "length (out (hash_spec compress (chain ini) m)) = hs"
  using hash_rest_ok[OF ini_ok, of "[]" m "[]"] fini_ok fini_size by force

text \<open>After one block, the key pad of HMAC.\<close>

lemma hash_after_block:
  assumes "length b = 64"
  shows "\<exists>s'. hash_rest proc lst (proc ini b) (m @ r) (length m) 64 = Some s' \<and>
    fini s' = out (hash_spec compress (chain ini) (b @ m))"
  using hash_rest_ok[of "proc ini b" b m r] proc_ok[OF ini_ok assms] fini_ok assms by (auto simp: blocks_one)

lemma last_after_block:
  assumes "length b = 64" and "length h < 64"
  shows "\<exists>s'. lst (proc ini b) h (length h) (of_nat (64 + length h)) = Some s' \<and>
    fini s' = out (hash_spec compress (chain ini) (b @ h))"
proof -
  have ok: "ok (proc ini b)" "chain (proc ini b) = compress (chain ini) b"
    using proc_ok[OF ini_ok assms(1)] by auto
  have "hash_blocks proc (proc ini b) h (length h) = Some (proc ini b, h, length h)"
    using assms(2) by (subst hash_blocks.simps) simp
  then have "hash_rest proc lst (proc ini b) (h @ []) (length h) 64 = lst (proc ini b) h (length h) (of_nat (64 + length h))"
    by (simp add: hash_rest_def add.commute)
  then show ?thesis using hash_after_block[OF assms(1), of h "[]"] by simp
qed

lemma hmac_ok:
  "hmac ini proc lst fini (key @ k) (int (length key)) (m @ r) (length m) =
     Some (hmac_spec (\<lambda>m. out (hash_spec compress (chain ini) m)) (take 64 key) m)"
proof -
  let ?D = "\<lambda>m. out (hash_spec compress (chain ini) m)"
  let ?p = "take 64 key @ replicate (64 - length (take 64 key)) 0"
  have pad: "hmac_pad (key @ k) (int (length key)) = Some ?p"
    by (auto simp: hmac_pad_def rds_def Let_def min_def)
  have l: "length (hmac_xor ?p v) = 64" for v by (simp add: hmac_xor_def)
  obtain s1 where s1: "hash_rest proc lst (proc ini (hmac_xor ?p 0x36)) (m @ r) (length m) 64 = Some s1"
    "fini s1 = ?D (hmac_xor ?p 0x36 @ m)"
    using hash_after_block[OF l] by blast
  have "length (fini s1) < 64" using s1(2) digest_size hs_bounds by simp
  then obtain s2 where s2: "lst (proc ini (hmac_xor ?p 0x5C)) (fini s1) (length (fini s1)) (of_nat (64 + length (fini s1))) = Some s2"
    "fini s2 = ?D (hmac_xor ?p 0x5C @ fini s1)"
    using last_after_block[OF l] by blast
  show ?thesis
    unfolding hmac_def pad using s1 s2 by (simp add: hmac_spec_def Let_def hmac_xor_def)
qed

end

sublocale block_hash < mac: mac_function "hmac ini proc lst fini"
  "\<lambda>k. hmac_spec (\<lambda>m. out (hash_spec compress (chain ini) m)) (take 64 k)" hs
proof unfold_locales
  show "hmac ini proc lst fini (P @ p) (int (length P)) (m @ r) (length m) =
      Some (hmac_spec (\<lambda>m. out (hash_spec compress (chain ini) m)) (take 64 P) m)" for P p m r
    by (rule hmac_ok)
  show "length (hmac_spec (\<lambda>m. out (hash_spec compress (chain ini) m)) (take 64 P) m) = hs" for P m
    by (simp add: hmac_spec_def Let_def digest_size)
  show "0 < hs" by (rule hs_bounds)
qed

context block_hash
begin

lemma pbkdf2_hmac_ok:
  "len \<le> length psk \<Longrightarrow>
   pbkdf2 (hmac ini proc lst fini) hs psk len (P @ p) (int (length P)) (S @ r) (length S) c =
     Some (pbkdf2_spec (\<lambda>k. hmac_spec (\<lambda>m. out (hash_spec compress (chain ini) m)) (take 64 k)) hs len P S (nat c)
       @ drop len psk)"
  by (rule mac.pbkdf2_ok)

end

end
