(* ===== verification/Sha256.thy ===== *)
theory Sha256
  imports Hash
begin

text \<open>
  SHA-256 (\<^verbatim>\<open>lib/crypto/sha256.c\<close>, \<^verbatim>\<open>sha256_hash.c\<close>), with HMAC and PBKDF2 over it
  (\<^verbatim>\<open>sha256_hmac.c\<close>, \<^verbatim>\<open>pbkdf2_sha256.c\<close>).  The context has the chaining value \<open>H\<close> and the message schedule
  \<open>W\<close>, which the code fills in place; the specification is the recursive schedule and the round
  recursion of FIPS 180-4.

  A fresh context has a zero schedule here; the code leaves it uninitialised and writes every word
  of it in \<open>sha256_load\<close> before reading it.
\<close>

section \<open>Definitions\<close>

record sha256_ctx =
  sh_H :: "u32 list"
  sh_W :: "u32 list"

definition K256 :: "u32 list" where
  "K256 =
    [0x428a2f98, 0x71374491, 0xb5c0fbcf, 0xe9b5dba5, 0x3956c25b, 0x59f111f1,
     0x923f82a4, 0xab1c5ed5, 0xd807aa98, 0x12835b01, 0x243185be, 0x550c7dc3,
     0x72be5d74, 0x80deb1fe, 0x9bdc06a7, 0xc19bf174, 0xe49b69c1, 0xefbe4786,
     0x0fc19dc6, 0x240ca1cc, 0x2de92c6f, 0x4a7484aa, 0x5cb0a9dc, 0x76f988da,
     0x983e5152, 0xa831c66d, 0xb00327c8, 0xbf597fc7, 0xc6e00bf3, 0xd5a79147,
     0x06ca6351, 0x14292967, 0x27b70a85, 0x2e1b2138, 0x4d2c6dfc, 0x53380d13,
     0x650a7354, 0x766a0abb, 0x81c2c92e, 0x92722c85, 0xa2bfe8a1, 0xa81a664b,
     0xc24b8b70, 0xc76c51a3, 0xd192e819, 0xd6990624, 0xf40e3585, 0x106aa070,
     0x19a4c116, 0x1e376c08, 0x2748774c, 0x34b0bcb5, 0x391c0cb3, 0x4ed8aa4a,
     0x5b9cca4f, 0x682e6ff3, 0x748f82ee, 0x78a5636f, 0x84c87814, 0x8cc70208,
     0x90befffa, 0xa4506ceb, 0xbef9a3f7, 0xc67178f2]"

definition rotr :: "u32 \<Rightarrow> nat \<Rightarrow> u32" where
  "rotr x n = drop_bit n x OR push_bit (32 - n) x"

definition shr :: "u32 \<Rightarrow> nat \<Rightarrow> u32" where
  "shr x n = drop_bit n x"

definition sha256_init :: "sha256_ctx \<Rightarrow> sha256_ctx" where
  "sha256_init sh = sh \<lparr> sh_H := [0x6a09e667, 0xbb67ae85, 0x3c6ef372, 0xa54ff53a,
     0x510e527f, 0x9b05688c, 0x1f83d9ab, 0x5be0cd19] \<rparr>"

definition ch256 :: "u32 \<Rightarrow> u32 \<Rightarrow> u32 \<Rightarrow> u32" where
  "ch256 x y z = (x AND y) XOR ((NOT x) AND z)"

definition maj :: "u32 \<Rightarrow> u32 \<Rightarrow> u32 \<Rightarrow> u32" where
  "maj x y z = (x AND y) XOR (x AND z) XOR (y AND z)"

definition bsig0 :: "u32 \<Rightarrow> u32" where
  "bsig0 x = rotr x 2 XOR rotr x 13 XOR rotr x 22"

definition bsig1 :: "u32 \<Rightarrow> u32" where
  "bsig1 x = rotr x 6 XOR rotr x 11 XOR rotr x 25"

definition ssig0 :: "u32 \<Rightarrow> u32" where
  "ssig0 x = rotr x 7 XOR rotr x 18 XOR shr x 3"

definition ssig1 :: "u32 \<Rightarrow> u32" where
  "ssig1 x = rotr x 17 XOR rotr x 19 XOR shr x 10"

type_synonym regs256 = "u32 \<times> u32 \<times> u32 \<times> u32 \<times> u32 \<times> u32 \<times> u32 \<times> u32"

text \<open>One turn of the loop of \<open>sha256_hash\<close>, on the eight working variables.\<close>

definition sha256_round :: "u32 list \<Rightarrow> nat \<Rightarrow> regs256 \<Rightarrow> regs256" where
  "sha256_round W i = (\<lambda>(a, b, c, d, e, f, g, h).
     let t1 = h + bsig1 e + ch256 e f g + K256 ! i + W ! i;
         t2 = bsig0 a + maj a b c
     in (t1 + t2, a, b, c, d + t1, e, f, g))"

definition sha256_hash :: "sha256_ctx \<Rightarrow> sha256_ctx" where
  "sha256_hash sh =
     (let H = sh_H sh
      in case fold (sha256_round (sh_W sh)) [0..<64] (H ! 0, H ! 1, H ! 2, H ! 3, H ! 4, H ! 5, H ! 6, H ! 7) of
        (a, b, c, d, e, f, g, h) \<Rightarrow>
          sh \<lparr> sh_H := H[0 := H ! 0 + a, 1 := H ! 1 + b, 2 := H ! 2 + c, 3 := H ! 3 + d,
                        4 := H ! 4 + e, 5 := H ! 5 + f, 6 := H ! 6 + g, 7 := H ! 7 + h] \<rparr>)"

definition sha256_fini :: "sha256_ctx \<Rightarrow> byte list" where
  "sha256_fini sh = concat (map (\<lambda>i. le_bytes 4 (htonl (sh_H sh ! i))) [0..<8])"

definition sha256_load :: "sha256_ctx \<Rightarrow> byte list \<Rightarrow> sha256_ctx" where
  "sha256_load sh blk =
     (let W = fold (\<lambda>i W. W[i := ntohl (unle (take 4 (drop (4 * i) blk)))]) [0..<16] (sh_W sh);
          W = fold (\<lambda>i W. W[i := ssig1 (W ! (i - 2)) + W ! (i - 7) + ssig0 (W ! (i - 15)) + W ! (i - 16)]) [16..<64] W
      in sh \<lparr> sh_W := W \<rparr>)"

definition sha256_load_pad1 :: "sha256_ctx \<Rightarrow> byte list \<Rightarrow> nat \<Rightarrow> u64 \<Rightarrow> sha256_ctx" where
  "sha256_load_pad1 sh ptr tail tot = sha256_load sh (put_size (pad_block ptr tail) tot)"

definition sha256_load_pad2 :: "sha256_ctx \<Rightarrow> byte list \<Rightarrow> nat \<Rightarrow> sha256_ctx" where
  "sha256_load_pad2 sh ptr tail = sha256_load sh (pad_block ptr tail)"

definition sha256_load_pad0 :: "sha256_ctx \<Rightarrow> u64 \<Rightarrow> sha256_ctx" where
  "sha256_load_pad0 sh tot = sha256_load sh (put_size (replicate 64 0) tot)"

definition sha256_proc :: "sha256_ctx \<Rightarrow> byte list \<Rightarrow> sha256_ctx" where
  "sha256_proc sh blk = sha256_hash (sha256_load sh blk)"

definition sha256_last :: "sha256_ctx \<Rightarrow> byte list \<Rightarrow> nat \<Rightarrow> u64 \<Rightarrow> sha256_ctx option" where
  "sha256_last sh ptr len tot =
     (let tail = len mod 64
      in if tail > length ptr then None
         else if tail > 55 then
           Some (sha256_hash (sha256_load_pad0 (sha256_hash (sha256_load_pad2 sh ptr tail)) tot))
         else Some (sha256_hash (sha256_load_pad1 sh ptr tail tot)))"

definition sha256_fresh :: sha256_ctx where
  "sha256_fresh = \<lparr> sh_H = replicate 8 0, sh_W = replicate 64 0 \<rparr>"

definition sha256 :: "byte list \<Rightarrow> nat \<Rightarrow> byte list option" where
  "sha256 input inlen =
     map_option sha256_fini (hash_rest sha256_proc sha256_last (sha256_init sha256_fresh) input inlen 0)"

definition hmac_sha256 :: "byte list \<Rightarrow> int \<Rightarrow> byte list \<Rightarrow> nat \<Rightarrow> byte list option" where
  "hmac_sha256 = hmac (sha256_init sha256_fresh) sha256_proc sha256_last sha256_fini"

definition pbkdf2_sha256 :: "mem \<Rightarrow> nat \<Rightarrow> byte list \<Rightarrow> int \<Rightarrow> byte list \<Rightarrow> nat \<Rightarrow> int \<Rightarrow> mem option" where
  "pbkdf2_sha256 = pbkdf2 hmac_sha256 32"

section \<open>Specification\<close>

fun sched256 :: "byte list \<Rightarrow> nat \<Rightarrow> u32" where
  "sched256 m t =
     (if t < 16 then unle (rev (take 4 (drop (4 * t) m)))
      else ssig1 (sched256 m (t - 2)) + sched256 m (t - 7) + ssig0 (sched256 m (t - 15)) + sched256 m (t - 16))"

declare sched256.simps [simp del]

fun rounds256 :: "(nat \<Rightarrow> u32) \<Rightarrow> nat \<Rightarrow> regs256 \<Rightarrow> regs256" where
  "rounds256 w 0 v = v"
| "rounds256 w (Suc t) v =
     (case rounds256 w t v of (a, b, c, d, e, f, g, h) \<Rightarrow>
        let t1 = h + bsig1 e + ch256 e f g + K256 ! t + w t;
            t2 = bsig0 a + maj a b c
        in (t1 + t2, a, b, c, d + t1, e, f, g))"

definition compress256 :: "u32 list \<Rightarrow> byte list \<Rightarrow> u32 list" where
  "compress256 H m =
     (case rounds256 (sched256 m) 64 (H ! 0, H ! 1, H ! 2, H ! 3, H ! 4, H ! 5, H ! 6, H ! 7) of
        (a, b, c, d, e, f, g, h) \<Rightarrow> map2 (+) H [a, b, c, d, e, f, g, h])"

definition sha256_spec :: "byte list \<Rightarrow> byte list" where
  "sha256_spec m = concat (map (be_bytes 4) (hash_spec compress256
     [0x6a09e667, 0xbb67ae85, 0x3c6ef372, 0xa54ff53a, 0x510e527f, 0x9b05688c, 0x1f83d9ab, 0x5be0cd19] m))"

section \<open>The code computes the specification\<close>

definition sha256_ok :: "sha256_ctx \<Rightarrow> bool" where
  "sha256_ok sh \<longleftrightarrow> length (sh_H sh) = 8 \<and> length (sh_W sh) = 64"

lemma sha256_load_sched:
  assumes "sha256_ok sh" and "length blk = 64"
  shows "sh_H (sha256_load sh blk) = sh_H sh" and "length (sh_W (sha256_load sh blk)) = 64"
    and "\<forall>t<64. sh_W (sha256_load sh blk) ! t = sched256 blk t"
proof -
  define W1 where "W1 = fold (\<lambda>i W. W[i := ntohl (unle (take 4 (drop (4 * i) blk)))]) [0..<16] (sh_W sh)"
  have 1: "length W1 = 64 \<and> (\<forall>j<16. W1 ! j = sched256 blk j)"
    unfolding W1_def
  proof (rule fold_fill)
    fix i W
    assume "i < (16 :: nat)"
    then show "ntohl (unle (take 4 (drop (4 * i) blk))) = sched256 blk i"
      using assms(2) by (subst sched256.simps) (simp add: ntohl_unle)
  qed (use assms in \<open>auto simp: sha256_ok_def\<close>)
  define W2 where "W2 = fold (\<lambda>i W. W[i := ssig1 (W ! (i - 2)) + W ! (i - 7) + ssig0 (W ! (i - 15)) + W ! (i - 16)]) [16..<64] W1"
  have 2: "length W2 = 64 \<and> (\<forall>j<64. W2 ! j = sched256 blk j)"
    unfolding W2_def
  proof (rule fold_fill)
    fix i and W :: "u32 list"
    assume "16 \<le> i" and "\<forall>j<i. W ! j = sched256 blk j"
    then show "ssig1 (W ! (i - 2)) + W ! (i - 7) + ssig0 (W ! (i - 15)) + W ! (i - 16) = sched256 blk i"
      by (subst sched256.simps) simp
  qed (use 1 in auto)
  have "sha256_load sh blk = sh \<lparr> sh_W := W2 \<rparr>"
    unfolding sha256_load_def Let_def W1_def[symmetric] W2_def[symmetric] ..
  then show "sh_H (sha256_load sh blk) = sh_H sh" and "length (sh_W (sha256_load sh blk)) = 64"
    and "\<forall>t<64. sh_W (sha256_load sh blk) ! t = sched256 blk t"
    using 2 by simp_all
qed

lemma sha256_rounds:
  "\<forall>j<t. W ! j = w j \<Longrightarrow> fold (sha256_round W) [0..<t] v = rounds256 w t v"
  by (induction t) (auto simp: sha256_round_def Let_def split: prod.splits)

lemma list8: "length H = 8 \<Longrightarrow> H = [H ! 0, H ! 1, H ! 2, H ! 3, H ! 4, H ! 5, H ! 6, H ! 7]"
  by (auto simp: numeral_eq_Suc length_Suc_conv)

lemma sha256_proc_compress:
  assumes "sha256_ok sh" and "length blk = 64"
  shows "sha256_ok (sha256_proc sh blk) \<and> sh_H (sha256_proc sh blk) = compress256 (sh_H sh) blk"
proof -
  let ?l = "sha256_load sh blk"
  note l = sha256_load_sched[OF assms]
  have r: "fold (sha256_round (sh_W ?l)) [0..<64] v = rounds256 (sched256 blk) 64 v" for v
    using sha256_rounds l(3) by blast
  obtain h0 h1 h2 h3 h4 h5 h6 h7 where H: "sh_H sh = [h0, h1, h2, h3, h4, h5, h6, h7]"
    using list8 assms(1) unfolding sha256_ok_def by blast
  show ?thesis
    unfolding sha256_proc_def sha256_hash_def compress256_def r Let_def l(1) H
    by (simp add: sha256_ok_def l(2) numeral_eq_Suc split: prod.split)
qed

lemma length_compress256: "length H = 8 \<Longrightarrow> length (compress256 H m) = 8"
  by (simp add: compress256_def split: prod.split)

lemma sha256_last_compress:
  assumes "sha256_ok s" and "length t = n mod 64" and "len mod 64 = n mod 64"
  shows "\<exists>s'. sha256_last s (t @ r) len (of_nat n) = Some s' \<and> sha256_ok s' \<and>
    sh_H s' = foldl compress256 (sh_H s) (blocks (t @ padding n))"
proof (cases "n mod 64 > 55")
  case True
  let ?a = "pad_block (t @ r) (n mod 64)" and ?b = "put_size (replicate 64 0) (of_nat n)"
  have l: "length ?a = 64" "length ?b = 64"
    using assms(2) by (simp_all add: length_pad_block put_size_eq)
  have "sha256_last s (t @ r) len (of_nat n) = Some (sha256_proc (sha256_proc s ?a) ?b)"
    using True assms by (simp add: sha256_last_def sha256_load_pad0_def sha256_load_pad2_def sha256_proc_def)
  moreover have "blocks (t @ padding n) = [?a, ?b]"
    unfolding pad_two_blocks[OF assms(2) True, of r] using blocks_step[OF l(1)] blocks_one[OF l(2)] by simp
  ultimately show ?thesis
    using sha256_proc_compress[OF assms(1) l(1)] sha256_proc_compress[OF _ l(2), of "sha256_proc s ?a"] by simp
next
  case False
  let ?a = "put_size (pad_block (t @ r) (n mod 64)) (of_nat n)"
  have l: "length ?a = 64" using assms(2) by (simp add: length_pad_block put_size_eq)
  have "sha256_last s (t @ r) len (of_nat n) = Some (sha256_proc s ?a)"
    using False assms by (simp add: sha256_last_def sha256_load_pad1_def sha256_proc_def)
  moreover have "t @ padding n = ?a" using pad_one_block[OF assms(2)] False by simp
  ultimately show ?thesis
    using sha256_proc_compress[OF assms(1) l] blocks_one[OF l] by simp
qed

interpretation sh256: block_hash "sha256_init sha256_fresh" sha256_proc sha256_last sha256_fini sha256_ok sh_H
  compress256 "\<lambda>H. concat (map (be_bytes 4) H)" 32
proof unfold_locales
  show "sha256_ok (sha256_init sha256_fresh)"
    by (simp add: sha256_ok_def sha256_init_def sha256_fresh_def)
  show "sha256_ok s \<Longrightarrow> length b = 64 \<Longrightarrow>
      sha256_ok (sha256_proc s b) \<and> sh_H (sha256_proc s b) = compress256 (sh_H s) b" for s b
    by (rule sha256_proc_compress)
  show "sha256_ok s \<Longrightarrow> sha256_fini s = concat (map (be_bytes 4) (sh_H s))" for s
    unfolding sha256_ok_def sha256_fini_def le_htonl by (simp only: map_nth_upt)
  show "sha256_ok s \<Longrightarrow> length (sha256_fini s) = 32" for s
    unfolding sha256_fini_def by (subst take_concat_blocks) simp_all
qed (use sha256_last_compress in auto)

lemma sha256_spec_digest:
  "sha256_spec = (\<lambda>m. concat (map (be_bytes 4) (hash_spec compress256 (sh_H (sha256_init sha256_fresh)) m)))"
  by (simp add: sha256_spec_def sha256_init_def fun_eq_iff)

section \<open>Properties\<close>


text \<open>
  \<open>hmac_sha256\<close> is RFC 2104 over SHA-256 for every key of at most 64 bytes, and for a longer key
  uses its first 64 bytes only.
\<close>

theorem hmac_sha256_correct:
  "hmac_sha256 (key @ k) (int (length key)) (m @ r) (length m) = Some (hmac_spec sha256_spec (take 64 key) m)"
  unfolding hmac_sha256_def sha256_spec_digest by (rule sh256.hmac_ok)

text \<open>
  \<open>pbkdf2_sha256\<close> derives the key of RFC 2898: the first \<open>len\<close> bytes of the output buffer are the
  blocks \<open>T(1), T(2), ...\<close>, the last one cut to size, and nothing beyond them is written.
\<close>

theorem pbkdf2_sha256_correct:
  assumes "len \<le> length psk"
  shows "pbkdf2_sha256 psk len (pass @ p) (int (length pass)) (salt @ s) (length salt) iters =
    Some (pbkdf2_spec (\<lambda>k. hmac_spec sha256_spec (take 64 k)) 32 len pass salt (nat iters) @ drop len psk)"
  unfolding pbkdf2_sha256_def hmac_sha256_def sha256_spec_digest by (rule sh256.pbkdf2_hmac_ok[OF assms])

theorem pbkdf2_sha256_correct_witness:
  "pbkdf2_sha256 (replicate 50 0) 40 (bstr ''pass'' @ []) (int (length (bstr ''pass''))) (bstr ''salt'' @ []) (length (bstr ''salt'')) 2 =
    Some (pbkdf2_spec (\<lambda>k. hmac_spec sha256_spec (take 64 k)) 32 40 (bstr ''pass'') (bstr ''salt'') (nat 2) @ drop 40 (replicate 50 0))"
  by (rule pbkdf2_sha256_correct) simp

end
