(* ===== verification/Timeconv.thy ===== *)
theory Timeconv
  imports Prelude
begin

text \<open>
  Conversion between timestamps and calendar dates (\<^verbatim>\<open>lib/time/tm2tv.c\<close>, \<^verbatim>\<open>lib/time/tv2tm.c\<close>).  The \<open>int\<close>
  variables of the code are integers here, except for \<open>days\<close>, where the code narrows a 64-bit quotient
  to 32 bits; the other values stay far inside the range of \<open>int\<close> for the timestamps the results are
  about.  Division and remainder are those of C, towards zero.
\<close>

section \<open>Definitions\<close>

definition cdiv :: "int \<Rightarrow> int \<Rightarrow> int" where
  "cdiv a b = (if a < 0 then - ((- a) div b) else a div b)"

definition cmod :: "int \<Rightarrow> int \<Rightarrow> int" where
  "cmod a b = a - b * cdiv a b"

record tm =
  tm_sec :: int
  tm_min :: int
  tm_hour :: int
  tm_mday :: int
  tm_mon :: int
  tm_year :: int
  tm_wday :: int
  tm_yday :: int
  tm_isdst :: int

definition mdays :: "int list" where
  "mdays = [31, 28, 31, 30, 31, 30, 31, 31, 30, 31, 30, 31]"

text \<open>The seconds of the result; the microseconds are zero.\<close>

definition tm2tv :: "tm \<Rightarrow> int" where
  "tm2tv t =
     (let day = tm_mday t;
          mon = tm_mon t;
          year = tm_year t + 1900;
          ts = (year - 1970) * 365;
          year = (if mon < 2 then year - 1 else year);
          leaps_to_1970 = cdiv 1970 4 - cdiv 1970 100 + cdiv 1970 400;
          leaps_to_year = cdiv year 4 - cdiv year 100 + cdiv year 400;
          ts = ts + (leaps_to_year - leaps_to_1970);
          ts = ts + sum_list (map (\<lambda>i. mdays ! i) [0..<nat mon]);
          ts = ts + (day - 1);
          ts = ts * 24 + tm_hour t;
          ts = ts * 60 + tm_min t;
          ts = ts * 60 + tm_sec t
      in ts)"

definition LEAPOCH :: int where "LEAPOCH = 946684800 + 86400 * (31 + 29)"
definition DAYS_PER_400Y :: int where "DAYS_PER_400Y = 365 * 400 + 97"
definition DAYS_PER_100Y :: int where "DAYS_PER_100Y = 365 * 100 + 24"
definition DAYS_PER_4Y :: int where "DAYS_PER_4Y = 365 * 4 + 1"

text \<open>The table of \<open>tv2tm\<close> starts in March; \<open>month_loop\<close> is its loop over it.\<close>

definition mdays_march :: "int list" where
  "mdays_march = [31, 30, 31, 30, 31, 31, 30, 31, 30, 31, 31, 29]"

fun month_loop :: "int list \<Rightarrow> int \<Rightarrow> int \<Rightarrow> int \<times> int" where
  "month_loop [] mon days = (mon, days)"
| "month_loop (l # ls) mon days = (if l \<le> days then month_loop ls (mon + 1) (days - l) else (mon, days))"

text \<open>
  Days since 1 March 2000 and seconds of the day; then the days as a number of 400-year, 100-year and
  4-year cycles, years, and a day of the year.
\<close>

definition split_secs :: "int \<Rightarrow> int \<times> int" where
  "split_secs sec =
     (let ts = sec - LEAPOCH;
          days = int32 (cdiv ts 86400);
          secs = cmod ts 86400
      in if secs < 0 then (secs + 86400, days - 1) else (secs, days))"

record cycles =
  cy_qc :: int
  cy_nc :: int
  cy_nq :: int
  cy_y :: int
  cy_d :: int

definition split_days :: "int \<Rightarrow> cycles" where
  "split_days days =
     (let qc = cdiv days DAYS_PER_400Y;
          days = cmod days DAYS_PER_400Y;
          (days, qc) = (if days < 0 then (days + DAYS_PER_400Y, qc - 1) else (days, qc));
          nc = cdiv days DAYS_PER_100Y; nc = (if nc = 4 then nc - 1 else nc);
          days = days - nc * DAYS_PER_100Y;
          nq = cdiv days DAYS_PER_4Y; nq = (if nq = 25 then nq - 1 else nq);
          days = days - nq * DAYS_PER_4Y;
          year = cdiv days 365; year = (if year = 4 then year - 1 else year);
          days = days - year * 365
      in \<lparr> cy_qc = qc, cy_nc = nc, cy_nq = nq, cy_y = year, cy_d = days \<rparr>)"

definition tv2tm :: "int \<Rightarrow> tm" where
  "tv2tm sec =
     (let (secs, days) = split_secs sec;
          wday = cmod (3 + days) 7;
          wday = (if wday < 0 then wday + 7 else wday);
          c = split_days days;
          leap = (if cy_y c = 0 \<and> (cy_nq c \<noteq> 0 \<or> cy_nc c = 0) then 1 else 0);
          yday = cy_d c + 31 + 28 + leap;
          yday = (if yday \<ge> 365 + leap then yday - (365 + leap) else yday);
          year = cy_y c + 4 * cy_nq c + 100 * cy_nc c + 400 * cy_qc c;
          (mon, days) = month_loop mdays_march 0 (cy_d c);
          (tmon, tyear) = (if mon + 2 \<ge> 12 then (mon + 2 - 12, year + 100 + 1) else (mon + 2, year + 100))
      in \<lparr> tm_sec = cmod secs 60, tm_min = cmod (cdiv secs 60) 60, tm_hour = cmod (cdiv (cdiv secs 60) 60) 24,
           tm_mday = days + 1, tm_mon = tmon, tm_year = tyear, tm_wday = wday, tm_yday = yday, tm_isdst = 0 \<rparr>)"

section \<open>Specification\<close>

definition is_leap :: "int \<Rightarrow> bool" where
  "is_leap y \<longleftrightarrow> y mod 4 = 0 \<and> (y mod 100 \<noteq> 0 \<or> y mod 400 = 0)"

definition month_days :: "int \<Rightarrow> nat \<Rightarrow> int" where
  "month_days y m = (if m = 1 \<and> is_leap y then 29 else mdays ! m)"

text \<open>A date of the calendar, with its day of the year.\<close>

definition valid_tm :: "tm \<Rightarrow> bool" where
  "valid_tm t \<longleftrightarrow>
     (let y = tm_year t + 1900
      in tm_sec t \<in> {0..59} \<and> tm_min t \<in> {0..59} \<and> tm_hour t \<in> {0..23} \<and> tm_mon t \<in> {0..11} \<and>
         1 \<le> tm_mday t \<and> tm_mday t \<le> month_days y (nat (tm_mon t)) \<and> tm_wday t \<in> {0..6} \<and>
         tm_yday t = sum_list (map (month_days y) [0..<nat (tm_mon t)]) + tm_mday t - 1)"

section \<open>The decomposition of a day number\<close>

lemma cdiv_nonneg [simp]: "0 \<le> a \<Longrightarrow> cdiv a b = a div b"
  by (simp add: cdiv_def)

lemma cmod_nonneg [simp]: "0 \<le> a \<Longrightarrow> cmod a b = a mod b"
  by (simp add: cmod_def minus_mult_div_eq_mod)

text \<open>The correction of a negative remainder gives the quotient and remainder rounded down.\<close>

lemma cdiv_floor:
  assumes "0 < b"
  shows "(if cmod a b < 0 then (cmod a b + b, cdiv a b - 1) else (cmod a b, cdiv a b)) = (a mod b, a div b)"
proof (cases "a < 0")
  case True
  let ?q = "(- a) div b" and ?m = "(- a) mod b"
  have a: "- a = b * ?q + ?m" by simp
  have m: "0 \<le> ?m" "?m < b" using assms by simp_all
  have "cmod a b = a + b * ?q" using True by (simp add: cdiv_def cmod_def)
  then have c: "cdiv a b = - ?q" "cmod a b = - ?m" using True a by (simp_all only: cdiv_def if_True)
  show ?thesis
  proof (cases "?m = 0")
    case True
    have "a div b = - ?q" by (rule int_div_pos_eq[where r = 0]) (use a assms True in auto)
    moreover have "a mod b = 0" by (rule int_mod_pos_eq[where q = "- ?q"]) (use a assms True in auto)
    ultimately show ?thesis using c True by simp
  next
    case False
    have "a = b * (- ?q - 1) + (b - ?m)" using a by (simp add: algebra_simps)
    then have "a div b = - ?q - 1" "a mod b = b - ?m"
      using m False by (auto intro: int_div_pos_eq int_mod_pos_eq)
    then show ?thesis using c m False by simp
  qed
qed (simp add: assms not_less)

text \<open>Division into at most \<open>m\<close> parts where the last may be one longer.\<close>

lemma capped_div:
  fixes r k m :: int
  assumes "0 \<le> r" and "0 < k" and "0 < m" and "r \<le> m * k"
  defines "q \<equiv> if r div k = m then m - 1 else r div k"
  shows "0 \<le> q" and "q \<le> m - 1" and "0 \<le> r - q * k" and "r - q * k \<le> k"
    and "r - q * k = k \<longrightarrow> q = m - 1 \<and> r = m * k"
proof -
  obtain a e where r: "r = a * k + e" "0 \<le> e" "e < k" and a: "r div k = a"
    using assms(2) by (metis div_mult_mod_eq pos_mod_bound pos_mod_sign)
  have le: "a \<le> m" using zdiv_mono1[OF assms(4,2)] assms(2) a by simp
  have ge: "0 \<le> a" using assms(1,2) a by (metis pos_imp_zdiv_nonneg_iff)
  show "0 \<le> q" "q \<le> m - 1" using le ge assms(3) a by (auto simp: q_def)
  have top: "e = 0" if "a = m" using that r assms(4) by simp
  show "0 \<le> r - q * k" "r - q * k \<le> k" "r - q * k = k \<longrightarrow> q = m - 1 \<and> r = m * k"
    using r top assms(2) unfolding q_def a by (auto simp: algebra_simps)
qed

lemma DAYS_PER_100Y_eq: "x * DAYS_PER_100Y = x * 36524" and DAYS_PER_4Y_eq: "x * DAYS_PER_4Y = x * 1461"
  by (simp_all add: DAYS_PER_100Y_def DAYS_PER_4Y_def)

lemma split_days_spec:
  fixes d :: int
  defines "c \<equiv> split_days d"
  shows "d = 146097 * cy_qc c + 36524 * cy_nc c + 1461 * cy_nq c + 365 * cy_y c + cy_d c"
    and "0 \<le> cy_nc c" "cy_nc c \<le> 3" "0 \<le> cy_nq c" "cy_nq c \<le> 24" "0 \<le> cy_y c" "cy_y c \<le> 3"
    and "0 \<le> cy_d c" "cy_d c \<le> 365"
    and "cy_d c = 365 \<Longrightarrow> cy_y c = 3 \<and> (cy_nq c = 24 \<longrightarrow> cy_nc c = 3)"
proof -
  define r where "r = d mod 146097"
  define nc where "nc = (if r div 36524 = 4 then r div 36524 - 1 else r div 36524)"
  have nc_cap: "nc = (if r div 36524 = 4 then 4 - 1 else r div 36524)" by (simp add: nc_def)
  define r1 where "r1 = r - nc * 36524"
  define nq where "nq = (if r1 div 1461 = 25 then r1 div 1461 - 1 else r1 div 1461)"
  have nq_cap: "nq = (if r1 div 1461 = 25 then 25 - 1 else r1 div 1461)" by (simp add: nq_def)
  define r2 where "r2 = r1 - nq * 1461"
  define y where "y = (if r2 div 365 = 4 then r2 div 365 - 1 else r2 div 365)"
  have y_cap: "y = (if r2 div 365 = 4 then 4 - 1 else r2 div 365)" by (simp add: y_def)
  have r: "0 \<le> r" "r < 146097" "d = 146097 * (d div 146097) + r" by (auto simp: r_def)
  have pos: "(0::int) < 36524" "(0::int) < 4" "(0::int) < 1461" "(0::int) < 25" "(0::int) < 365" by simp_all
  have "r \<le> 4 * 36524" using r(2) by simp
  note nc = capped_div[OF r(1) pos(1,2) this, folded nc_cap, folded r1_def]
  have "r1 \<le> 25 * 1461" using nc(4) by simp
  note nq = capped_div[OF nc(3) pos(3,4) this, folded nq_cap, folded r2_def]
  have "r2 \<le> 4 * 365" using nq(4,5) nc(4) by auto
  note y = capped_div[OF nq(3) pos(5,2) this, folded y_cap]
  have "cdiv r DAYS_PER_100Y = r div 36524" "cdiv r1 DAYS_PER_4Y = r1 div 1461" "cdiv r2 365 = r2 div 365"
    using r(1) nc(3) nq(3) by (simp_all add: DAYS_PER_100Y_def DAYS_PER_4Y_def)
  moreover have "(if cmod d DAYS_PER_400Y < 0 then (cmod d DAYS_PER_400Y + DAYS_PER_400Y, cdiv d DAYS_PER_400Y - 1)
      else (cmod d DAYS_PER_400Y, cdiv d DAYS_PER_400Y)) = (r, d div 146097)"
    using cdiv_floor[of 146097 d] by (auto simp: DAYS_PER_400Y_def r_def split: if_splits)
  ultimately have c: "c = \<lparr> cy_qc = d div 146097, cy_nc = nc, cy_nq = nq, cy_y = y, cy_d = r2 - y * 365 \<rparr>"
    unfolding c_def split_days_def Let_def
    by (simp only: prod.case nc_def[symmetric] DAYS_PER_100Y_eq DAYS_PER_4Y_eq r1_def[symmetric] nq_def[symmetric] r2_def[symmetric] y_def[symmetric])
  show "d = 146097 * cy_qc c + 36524 * cy_nc c + 1461 * cy_nq c + 365 * cy_y c + cy_d c"
    using r(3) by (simp add: c r1_def r2_def)
  show "0 \<le> cy_nc c" "cy_nc c \<le> 3" "0 \<le> cy_nq c" "cy_nq c \<le> 24" "0 \<le> cy_y c" "cy_y c \<le> 3"
    and "0 \<le> cy_d c" "cy_d c \<le> 365"
    using nc nq y by (simp_all add: c)
  have "r1 = 36524" if "r2 = 1460" "nq = 24" using that by (simp add: r2_def)
  then show "cy_d c = 365 \<Longrightarrow> cy_y c = 3 \<and> (cy_nq c = 24 \<longrightarrow> cy_nc c = 3)"
    using y(5) nc(5) by (auto simp: c)
qed

lemma month_loop_spec:
  "0 \<le> d \<Longrightarrow> d < sum_list ls \<Longrightarrow> \<exists>k<length ls. \<exists>e. month_loop ls mon d = (mon + int k, e) \<and>
     d = sum_list (take k ls) + e \<and> 0 \<le> e \<and> e < ls ! k"
proof (induction ls arbitrary: mon d)
  case (Cons l ls)
  show ?case
  proof (cases "l \<le> d")
    case True
    then obtain k e where "k < length ls" "month_loop ls (mon + 1) (d - l) = (mon + 1 + int k, e)"
      "d - l = sum_list (take k ls) + e" "0 \<le> e" "e < ls ! k"
      using Cons.IH[of "d - l" "mon + 1"] Cons.prems by auto
    then show ?thesis using True by (intro exI[of _ "Suc k"]) auto
  next
    case False
    then show ?thesis using Cons.prems by (intro exI[of _ 0]) auto
  qed
qed simp

lemma march_months:
  assumes "0 \<le> d" and "d \<le> 365"
  obtains k e where "k < 12" "month_loop mdays_march 0 d = (int k, e)" "d = sum_list (take k mdays_march) + e"
    "0 \<le> e" "e < mdays_march ! k"
proof -
  have l: "length mdays_march = 12" and "d < sum_list mdays_march" using assms(2) by (simp_all add: mdays_march_def)
  then obtain k e where "k < length mdays_march" "month_loop mdays_march 0 d = (0 + int k, e)"
    "d = sum_list (take k mdays_march) + e" "0 \<le> e" "e < mdays_march ! k"
    using month_loop_spec[OF assms(1)] by blast
  then show ?thesis using that l by simp
qed

text \<open>The days before a month, counted from January and from March.\<close>

lemma month_sums_table:
  "list_all (\<lambda>k. sum_list (map (\<lambda>i. mdays ! i) [0..<(if k \<ge> 10 then k - 10 else k + 2)]) + (if k \<ge> 10 then 365 else 0) =
     sum_list (take k mdays_march) + 59) [0..<12]"
  by code_simp

lemma month_sums:
  "k < 12 \<Longrightarrow> sum_list (map (\<lambda>i. mdays ! i) [0..<(if k \<ge> 10 then k - 10 else k + 2)]) =
     sum_list (take k mdays_march) + 59 - (if k \<ge> 10 then 365 else 0)"
proof -
  assume "k < 12"
  then have "k \<in> set [0..<12]" by simp
  from month_sums_table[unfolded list_all_iff, rule_format, OF this] show ?thesis by linarith
qed

text \<open>The timestamp of a date whose year is counted from March.\<close>

lemma tm2tv_march:
  assumes "k < 12" and "0 \<le> Y"
    and "tm_mon t = int (if k \<ge> 10 then k - 10 else k + 2)" and "tm_year t = Y - 1900 + (if k \<ge> 10 then 1 else 0)"
  shows "tm2tv t = ((((Y - 1970) * 365 + (Y div 4 - Y div 100 + Y div 400) - 418 + sum_list (take k mdays_march)
    + (tm_mday t - 1)) * 24 + tm_hour t) * 60 + tm_min t) * 60 + tm_sec t"
proof -
  have "nat (tm_mon t) = (if k \<ge> 10 then k - 10 else k + 2)" using assms(3) by simp
  note sums = month_sums[OF assms(1), folded this]
  have mon: "tm_mon t < 2 \<longleftrightarrow> k \<ge> 10" using assms(1,3) by auto
  show ?thesis
    unfolding tm2tv_def Let_def sums mon assms(4) using assms(2) by (simp add: algebra_simps)
qed

lemma leap_count:
  fixes qc nc nq y :: int
  assumes "0 \<le> nc" "nc \<le> 3" "0 \<le> nq" "nq \<le> 24" "0 \<le> y" "y \<le> 3"
  defines "Y \<equiv> y + 4 * nq + 100 * nc + 400 * qc + 2000"
  shows "Y div 4 = 500 + 100 * qc + 25 * nc + nq" and "Y div 100 = 20 + 4 * qc + nc" and "Y div 400 = 5 + qc"
    and "Y mod 4 = y" and "Y mod 100 = 4 * nq + y" and "Y mod 400 = 100 * nc + 4 * nq + y"
proof -
  have Y: "Y = 4 * (500 + 100 * qc + 25 * nc + nq) + y" "Y = 100 * (20 + 4 * qc + nc) + (4 * nq + y)"
    "Y = 400 * (5 + qc) + (100 * nc + 4 * nq + y)"
    by (simp_all add: Y_def)
  show "Y div 4 = 500 + 100 * qc + 25 * nc + nq" by (rule int_div_pos_eq[OF Y(1)]) (use assms in auto)
  show "Y div 100 = 20 + 4 * qc + nc" by (rule int_div_pos_eq[OF Y(2)]) (use assms in auto)
  show "Y div 400 = 5 + qc" by (rule int_div_pos_eq[OF Y(3)]) (use assms in auto)
  show "Y mod 4 = y" by (rule int_mod_pos_eq[OF Y(1)]) (use assms in auto)
  show "Y mod 100 = 4 * nq + y" by (rule int_mod_pos_eq[OF Y(2)]) (use assms in auto)
  show "Y mod 400 = 100 * nc + 4 * nq + y" by (rule int_mod_pos_eq[OF Y(3)]) (use assms in auto)
qed

lemma split_secs_eq:
  assumes "- 62162035200 \<le> sec" and "sec < 185000000000000"
  shows "split_secs sec = ((sec - LEAPOCH) mod 86400, (sec - LEAPOCH) div 86400)"
proof -
  let ?ts = "sec - LEAPOCH"
  have "- 2147483648 \<le> cdiv ?ts 86400" "cdiv ?ts 86400 < 2147483648"
    using assms by (auto simp: cdiv_def LEAPOCH_def)
  then have "int32 (cdiv ?ts 86400) = cdiv ?ts 86400" by simp
  then show ?thesis
    using cdiv_floor[of 86400 ?ts] by (simp only: split_secs_def Let_def zero_less_numeral)
qed

lemma clock_sum:
  fixes s :: int
  assumes "0 \<le> s" and "s < 86400"
  shows "(s div 60 div 60 mod 24 * 60 + s div 60 mod 60) * 60 + s mod 60 = s"
proof -
  have "s div 60 div 60 mod 24 = s div 60 div 60" using assms by simp
  then show ?thesis using div_mult_mod_eq[of s 60] div_mult_mod_eq[of "s div 60" 60] by (simp only:)
qed

text \<open>What \<open>tv2tm\<close> returns, in terms of the decomposition.\<close>

lemma tv2tmE:
  assumes "- 62162035200 \<le> sec" and "sec < 185000000000000"
  obtains c k e Y s where "c = split_days ((sec - LEAPOCH) div 86400)" "s = (sec - LEAPOCH) mod 86400"
    "Y = cy_y c + 4 * cy_nq c + 100 * cy_nc c + 400 * cy_qc c + 2000"
    "k < 12" "cy_d c = sum_list (take k mdays_march) + e" "0 \<le> e" "e < mdays_march ! k"
    "tm_mon (tv2tm sec) = int (if k \<ge> 10 then k - 10 else k + 2)"
    "tm_year (tv2tm sec) = Y - 1900 + (if k \<ge> 10 then 1 else 0)"
    "tm_mday (tv2tm sec) = e + 1"
    "tm_sec (tv2tm sec) = s mod 60" "tm_min (tv2tm sec) = s div 60 mod 60" "tm_hour (tv2tm sec) = s div 60 div 60 mod 24"
    "tm_wday (tv2tm sec) \<in> {0..6}"
    "tm_yday (tv2tm sec) = (let leap = (if cy_y c = 0 \<and> (cy_nq c \<noteq> 0 \<or> cy_nc c = 0) then 1 else 0)
       in if cy_d c \<ge> 306 then cy_d c - 306 else cy_d c + 59 + leap)"
proof -
  define d where "d = (sec - LEAPOCH) div 86400"
  define s where "s = (sec - LEAPOCH) mod 86400"
  define c where "c = split_days d"
  define Y where "Y = cy_y c + 4 * cy_nq c + 100 * cy_nc c + 400 * cy_qc c + 2000"
  note c = split_days_spec[of d, folded c_def]
  have s: "0 \<le> s" by (simp add: s_def)
  obtain k e where k: "k < 12" "month_loop mdays_march 0 (cy_d c) = (int k, e)"
    "cy_d c = sum_list (take k mdays_march) + e" "0 \<le> e" "e < mdays_march ! k"
    by (rule march_months[OF c(8,9)])
  have w: "(if cmod (3 + d) 7 < 0 then cmod (3 + d) 7 + 7 else cmod (3 + d) 7) = (3 + d) mod 7"
    using cdiv_floor[of 7 "3 + d"] by (auto split: if_splits)
  note tv = tv2tm_def[of sec, unfolded split_secs_eq[OF assms], folded d_def s_def, unfolded Let_def prod.case,
      folded c_def, unfolded k(2) prod.case w]
  have sd: "cdiv s 60 = s div 60" "cdiv (s div 60) 60 = s div 60 div 60" "cmod s 60 = s mod 60"
    "cmod (s div 60) 60 = s div 60 mod 60" "cmod (s div 60 div 60) 24 = s div 60 div 60 mod 24"
    using s by (simp_all add: pos_imp_zdiv_nonneg_iff)
  show thesis
    by (rule that[of c s Y k e])
      (use k in \<open>auto simp: tv sd c_def d_def s_def Y_def Let_def split: prod.splits if_splits\<close>)
qed

lemma sum_month_days:
  "sum_list (map (month_days y) [0..<m]) = sum_list (map (\<lambda>i. mdays ! i) [0..<m]) + (if m \<ge> 2 \<and> is_leap y then 1 else 0)"
  by (induction m) (auto simp: month_days_def mdays_def)

lemma march_lengths_table:
  "list_all (\<lambda>k. k = 11 \<or> mdays ! (if k \<ge> 10 then k - 10 else k + 2) = mdays_march ! k) [0..<12]"
  by code_simp

lemma march_lengths: "k < 11 \<Longrightarrow> mdays ! (if k \<ge> 10 then k - 10 else k + 2) = mdays_march ! k"
proof -
  assume "k < 11"
  then have "k \<in> set [0..<12]" by simp
  from march_lengths_table[unfolded list_all_iff, rule_format, OF this] show ?thesis using \<open>k < 11\<close> by simp
qed

lemma march_sum_ge: "k < 12 \<Longrightarrow> 0 \<le> e \<Longrightarrow> e < mdays_march ! k \<Longrightarrow> sum_list (take k mdays_march) + e \<ge> 306 \<longleftrightarrow> k \<ge> 10"
proof -
  assume k: "k < 12" and e: "0 \<le> e" "e < mdays_march ! k"
  have t: "list_all (\<lambda>k. if k \<ge> 10 then sum_list (take k mdays_march) \<ge> 306
      else sum_list (take k mdays_march) + mdays_march ! k \<le> 306) [0..<12]" by code_simp
  have "k \<in> set [0..<12]" using k by simp
  from t[unfolded list_all_iff, rule_format, OF this] show ?thesis using e by (auto split: if_splits)
qed

text \<open>A year counted from March has a 366th day only before 1 March of a leap year.\<close>

lemma last_day_leap:
  fixes d :: int
  defines "c \<equiv> split_days d"
  assumes "cy_d c = 365"
  shows "is_leap (cy_y c + 4 * cy_nq c + 100 * cy_nc c + 400 * cy_qc c + 2000 + 1)" (is "is_leap ?Y")
proof -
  note d = split_days_spec[of d, folded c_def]
  from d(10)[OF assms(2)] have y: "cy_y c = 3" "cy_nq c = 24 \<longrightarrow> cy_nc c = 3" by auto
  have "?Y = 4 * (501 + 100 * cy_qc c + 25 * cy_nc c + cy_nq c)" by (simp add: y)
  then have m4: "?Y mod 4 = 0" by presburger
  show ?thesis
  proof (cases "cy_nq c = 24")
    case True
    then have "?Y = 400 * (6 + cy_qc c)" using y by simp
    then have "?Y mod 400 = 0" by presburger
    then show ?thesis using m4 unfolding is_leap_def by blast
  next
    case False
    have "?Y = 100 * (20 + 4 * cy_qc c + cy_nc c) + (4 * cy_nq c + 4)" by (simp add: y)
    then have "?Y mod 100 = 4 * cy_nq c + 4"
      by (rule int_mod_pos_eq) (use False d(4,5) in auto)
    then show ?thesis using m4 d(4) unfolding is_leap_def by linarith
  qed
qed

section \<open>Properties\<close>

text \<open>
  C36.  The two conversions agree: for every second from 1 March of the year 0 to beyond the year five
  million, converting to a calendar date and back gives the same second.
\<close>

theorem tm2tv_tv2tm:
  assumes "- 62162035200 \<le> sec" and "sec < 185000000000000"
  shows "tm2tv (tv2tm sec) = sec"
proof -
  obtain c k e Y s where c: "c = split_days ((sec - LEAPOCH) div 86400)" and s: "s = (sec - LEAPOCH) mod 86400"
    and Y: "Y = cy_y c + 4 * cy_nq c + 100 * cy_nc c + 400 * cy_qc c + 2000"
    and k: "k < 12" "cy_d c = sum_list (take k mdays_march) + e"
    and t: "tm_mon (tv2tm sec) = int (if k \<ge> 10 then k - 10 else k + 2)"
      "tm_year (tv2tm sec) = Y - 1900 + (if k \<ge> 10 then 1 else 0)" "tm_mday (tv2tm sec) = e + 1"
      "tm_sec (tv2tm sec) = s mod 60" "tm_min (tv2tm sec) = s div 60 mod 60" "tm_hour (tv2tm sec) = s div 60 div 60 mod 24"
    by (rule tv2tmE[OF assms]) blast
  let ?d = "(sec - LEAPOCH) div 86400"
  note d = split_days_spec[of ?d, folded c]
  have "- 730485 \<le> ?d" using assms(1) by (simp add: LEAPOCH_def)
  then have "- 5 \<le> cy_qc c" using d by linarith
  then have Y0: "0 \<le> Y" using d(2-7) unfolding Y by linarith
  note l = leap_count[OF d(2-7), of "cy_qc c", folded Y]
  have "(Y - 1970) * 365 + (Y div 4 - Y div 100 + Y div 400) - 418 + sum_list (take k mdays_march) + e = ?d + 11017"
    using d(1) k(2) unfolding l by (simp add: Y)
  then have "tm2tv (tv2tm sec) = (?d + 11017) * 86400 + ((s div 60 div 60 mod 24 * 60 + s div 60 mod 60) * 60 + s mod 60)"
    unfolding tm2tv_march[OF k(1) Y0 t(1,2)] t(3-6) by (simp add: algebra_simps)
  also have "\<dots> = (?d + 11017) * 86400 + s" using clock_sum[of s] by (simp add: s)
  also have "\<dots> = sec" using div_mult_mod_eq[of "sec - LEAPOCH" 86400] by (simp add: s LEAPOCH_def)
  finally show ?thesis .
qed

theorem tm2tv_tv2tm_witness: "tm2tv (tv2tm 1456790399) = 1456790399"
  by (rule tm2tv_tv2tm) simp_all

text \<open>
  C37.  \<open>tv2tm\<close> returns a date of the Gregorian calendar: every field is in its range, the day exists in
  that month of that year, leap years included, and the day of the year is the right one.
\<close>

theorem tv2tm_valid:
  assumes "- 62162035200 \<le> sec" and "sec < 185000000000000"
  shows "valid_tm (tv2tm sec)"
proof -
  obtain c k e Y s where c: "c = split_days ((sec - LEAPOCH) div 86400)" and s: "s = (sec - LEAPOCH) mod 86400"
    and Y: "Y = cy_y c + 4 * cy_nq c + 100 * cy_nc c + 400 * cy_qc c + 2000"
    and k: "k < 12" "cy_d c = sum_list (take k mdays_march) + e" "0 \<le> e" "e < mdays_march ! k"
    and t: "tm_mon (tv2tm sec) = int (if k \<ge> 10 then k - 10 else k + 2)"
      "tm_year (tv2tm sec) = Y - 1900 + (if k \<ge> 10 then 1 else 0)" "tm_mday (tv2tm sec) = e + 1"
      "tm_sec (tv2tm sec) = s mod 60" "tm_min (tv2tm sec) = s div 60 mod 60" "tm_hour (tv2tm sec) = s div 60 div 60 mod 24"
      "tm_wday (tv2tm sec) \<in> {0..6}"
      "tm_yday (tv2tm sec) = (let leap = (if cy_y c = 0 \<and> (cy_nq c \<noteq> 0 \<or> cy_nc c = 0) then 1 else 0)
         in if cy_d c \<ge> 306 then cy_d c - 306 else cy_d c + 59 + leap)"
    by (rule tv2tmE[OF assms]) blast
  note d = split_days_spec[of "(sec - LEAPOCH) div 86400", folded c]
  note l = leap_count[OF d(2-7), of "cy_qc c", folded Y]
  let ?m = "if k \<ge> 10 then k - 10 else k + 2" and ?y = "Y + (if k \<ge> 10 then 1 else 0)"
  have leapY: "is_leap Y \<longleftrightarrow> cy_y c = 0 \<and> (cy_nq c \<noteq> 0 \<or> cy_nc c = 0)"
    unfolding is_leap_def l using d(2-7) by auto
  have mday: "e + 1 \<le> month_days ?y ?m"
  proof (cases "k = 11")
    case True
    have "is_leap (Y + 1)" if "e = 28"
    proof -
      have "cy_d c = 365" using k(2) that True by (simp add: mdays_march_def)
      then show ?thesis using last_day_leap[of "(sec - LEAPOCH) div 86400", folded c, folded Y] by blast
    qed
    moreover have "e < 29" using k(4) True by (simp add: mdays_march_def)
    ultimately show ?thesis using True by (cases "e = 28") (auto simp: month_days_def mdays_def)
  next
    case False
    then have "mdays ! ?m = mdays_march ! k" using k(1) by (intro march_lengths) simp
    moreover have "?m \<noteq> 1" using False k(1) by auto
    ultimately show ?thesis using k(4) by (simp add: month_days_def)
  qed
  have yday: "tm_yday (tv2tm sec) = sum_list (map (month_days ?y) [0..<?m]) + e"
    unfolding t(8) sum_month_days month_sums[OF k(1)] Let_def leapY[symmetric] k(2) march_sum_ge[OF k(1,3,4)]
    using k(1) by auto
  have "nat (tm_mon (tv2tm sec)) = ?m" "tm_year (tv2tm sec) + 1900 = ?y" using t(1,2) by auto
  moreover have "tm_mon (tv2tm sec) \<in> {0..11}" using t(1) k(1) by auto
  moreover have "tm_sec (tv2tm sec) \<in> {0..59}" "tm_min (tv2tm sec) \<in> {0..59}" "tm_hour (tv2tm sec) \<in> {0..23}"
    unfolding t(4-6) by auto
  ultimately show ?thesis
    unfolding valid_tm_def Let_def using mday yday t(3,7) k(3) by simp
qed

theorem tv2tm_valid_witness: "valid_tm (tv2tm 1456704000)"
  by (rule tv2tm_valid) simp_all

end
