(* ===== verification/Netlink.thy ===== *)
theory Netlink
  imports Ucproto
begin

text \<open>
  The netlink library (\<^verbatim>\<open>lib/netlink\<close>): building requests to the kernel, receiving its stream of
  messages through a shift buffer, and walking the attributes of a message.  An attribute has the
  layout of the control protocol, so its fields are those of \<^verbatim>\<open>Nlusctl\<close>.

  A buffer is an object of its own and the pointers of \<open>struct ncbuf\<close> and \<open>struct nrbuf\<close> are offsets
  from its start.  A pointer to an attribute is an offset, with the inner \<open>None\<close> for \<open>NULL\<close>; a pointer
  formed outside the object, an access there, or through \<open>NULL\<close>, is the outer \<open>None\<close>.
\<close>

section \<open>Building requests\<close>

record ncbuf =
  nc_mem :: mem
  nc_ptr :: int
  nc_end :: int

definition EINVAL :: int where "EINVAL = 22"

definition nc_buf_set :: "mem \<Rightarrow> int \<Rightarrow> ncbuf" where
  "nc_buf_set buf len = \<lparr> nc_mem = buf, nc_ptr = 0, nc_end = len \<rparr>"

definition nc_header :: "ncbuf \<Rightarrow> int \<Rightarrow> int \<Rightarrow> int \<Rightarrow> ncbuf option" where
  "nc_header nc typ flags seq =
     (if 16 > nc_end nc then Some (nc \<lparr> nc_ptr := nc_end nc + 1 \<rparr>)
      else do {
        m \<leftarrow> wr16 (nc_mem nc) 4 (word_of_int typ);
        m \<leftarrow> wr16 m 6 (word_of_int (1 OR flags));
        m \<leftarrow> wr32 m 8 (word_of_int seq);
        m \<leftarrow> wr32 m 12 0;
        Some (nc \<lparr> nc_mem := m, nc_ptr := 16 \<rparr>) })"

text \<open>The result says whether the header fits.\<close>

definition nc_fixed :: "ncbuf \<Rightarrow> nat \<Rightarrow> (ncbuf \<times> bool) option" where
  "nc_fixed nc len =
     (let over = Some (nc \<lparr> nc_ptr := nc_end nc + 1 \<rparr>, False)
      in if len \<le> 16 then over
         else if nc_ptr nc \<noteq> 16 then over
         else if int len > nc_end nc then over
         else do {
           m \<leftarrow> wrs (nc_mem nc) 16 (replicate (len - 16) 0);
           Some (nc \<lparr> nc_mem := m, nc_ptr := int len \<rparr>, True) })"

definition nc_gencmd :: "ncbuf \<Rightarrow> int \<Rightarrow> int \<Rightarrow> ncbuf option" where
  "nc_gencmd nc cmd ver = do {
     (nc, ok) \<leftarrow> nc_fixed nc 20;
     if \<not> ok then Some nc
     else do {
       m \<leftarrow> wr (nc_mem nc) 16 (word_of_int cmd);
       m \<leftarrow> wr m 17 (word_of_int ver);
       Some (nc \<lparr> nc_mem := m \<rparr>) } }"

text \<open>\<open>nc_put_\<close> returns the offset of the payload.\<close>

definition nc_put_attr :: "ncbuf \<Rightarrow> int \<Rightarrow> u32 \<Rightarrow> (ncbuf \<times> nat option) option" where
  "nc_put_attr nc key len =
     (let ret = nc_ptr nc; en = nc_end nc;
          full = 4 + len; need = (full + 3) AND (NOT 3);
          ptr = ret + uint need
      in if ret > en \<or> ret < 0 then Some (nc, None)
         else if ptr > en \<or> ptr < 0 then Some (nc \<lparr> nc_ptr := en + 1 \<rparr>, None)
         else if ptr < 16 then Some (nc, None)
         else do {
           m \<leftarrow> (if need > full then wr32 (nc_mem nc) (nat ret + unat (full AND (NOT 3))) 0 else Some (nc_mem nc));
           m \<leftarrow> set_key m (nat ret) key;
           m \<leftarrow> set_len m (nat ret) (uint full);
           Some (nc \<lparr> nc_mem := m, nc_ptr := ptr \<rparr>, Some (nat ret + 4)) })"

text \<open>Filling the payload, as all the \<open>nc_put\<close> functions do it.\<close>

definition nc_fill :: "ncbuf \<times> nat option \<Rightarrow> byte list option \<Rightarrow> ncbuf option" where
  "nc_fill r src = (case r of
     (nc, None) \<Rightarrow> Some nc
   | (nc, Some dst) \<Rightarrow> do { bs \<leftarrow> src; m \<leftarrow> wrs (nc_mem nc) dst bs; Some (nc \<lparr> nc_mem := m \<rparr>) })"

definition nc_put :: "ncbuf \<Rightarrow> int \<Rightarrow> byte list \<Rightarrow> u32 \<Rightarrow> ncbuf option" where
  "nc_put nc key data len = do { r \<leftarrow> nc_put_attr nc key len; nc_fill r (rds data 0 (unat len)) }"

definition nc_put_int :: "ncbuf \<Rightarrow> int \<Rightarrow> u32 \<Rightarrow> ncbuf option" where
  "nc_put_int nc key val = do { r \<leftarrow> nc_put_attr nc key 4; nc_fill r (Some (le_bytes 4 val)) }"

definition nc_put_byte :: "ncbuf \<Rightarrow> int \<Rightarrow> byte \<Rightarrow> ncbuf option" where
  "nc_put_byte nc key val = do { r \<leftarrow> nc_put_attr nc key 1; nc_fill r (Some [val]) }"

definition nc_put_str :: "ncbuf \<Rightarrow> int \<Rightarrow> byte list \<Rightarrow> ncbuf option" where
  "nc_put_str nc key str = do {
     n \<leftarrow> strnlen (Some str) 1024;
     let len = n + 1;
     r \<leftarrow> nc_put_attr nc key (word_of_nat len);
     nc_fill r (rds str 0 len) }"

definition nc_put_flag :: "ncbuf \<Rightarrow> int \<Rightarrow> ncbuf option" where
  "nc_put_flag nc key = map_option fst (nc_put_attr nc key 0)"

definition nc_put_nest :: "ncbuf \<Rightarrow> int \<Rightarrow> (ncbuf \<times> nat option) option" where
  "nc_put_nest nc key =
     (let ret = nc_ptr nc; en = nc_end nc; ptr = ret + 4
      in if ret > en \<or> ret < 0 then Some (nc, None)
         else if ptr > en \<or> ptr < 0 then Some (nc \<lparr> nc_ptr := en + 1 \<rparr>, None)
         else if ptr < 16 then Some (nc, None)
         else do {
           m \<leftarrow> set_key (nc_mem nc) (nat ret) key;
           Some (nc \<lparr> nc_mem := m, nc_ptr := ptr \<rparr>, Some (nat ret)) })"

text \<open>A \<open>NULL\<close> attribute is below the buffer.\<close>

definition nc_end_nest :: "ncbuf \<Rightarrow> nat option \<Rightarrow> ncbuf option" where
  "nc_end_nest nc at = (case at of
     None \<Rightarrow> Some nc
   | Some at \<Rightarrow>
       if int at > nc_ptr nc \<or> int at + 4 > nc_ptr nc then Some nc
       else do { m \<leftarrow> set_len (nc_mem nc) at (nc_ptr nc - int at); Some (nc \<lparr> nc_mem := m \<rparr>) })"

text \<open>The system calls on the socket; \<open>sys_recv\<close> delivers data along with its result.\<close>

record 'w nlsys =
  sys_send :: "int \<Rightarrow> byte list \<Rightarrow> 'w \<Rightarrow> int \<times> 'w"
  sys_recv :: "int \<Rightarrow> nat \<Rightarrow> 'w \<Rightarrow> int \<times> byte list \<times> 'w"
  sys_setsockopt :: "int \<Rightarrow> int \<Rightarrow> int \<Rightarrow> int \<Rightarrow> 'w \<Rightarrow> int \<times> 'w"

definition nc_send :: "'w nlsys \<Rightarrow> int \<Rightarrow> ncbuf \<Rightarrow> 'w \<Rightarrow> (int \<times> ncbuf \<times> 'w) option" where
  "nc_send sys fd nc w =
     (let ptr = nc_ptr nc
      in if ptr > nc_end nc \<or> ptr < 0 then Some (- ENOBUFS, nc, w)
         else if 16 > ptr then Some (- EINVAL, nc, w)
         else do {
           m \<leftarrow> wr32 (nc_mem nc) 0 (word_of_int ptr);
           bs \<leftarrow> rds m 0 (nat ptr);
           (case sys_send sys fd bs w of (ret, w) \<Rightarrow> Some (ret, nc \<lparr> nc_mem := m \<rparr>, w)) })"

section \<open>Casts\<close>

text \<open>The length comes from a \<open>long\<close> and arrives as an \<open>int\<close>.\<close>

definition nl_msg :: "mem \<Rightarrow> nat \<Rightarrow> int \<Rightarrow> nat option option" where
  "nl_msg m msg len =
     (if int32 len < 0 then Some None
      else if int32 len < 16 then Some None
      else do {
        l \<leftarrow> rd32 m msg;
        if int32 len < uint l then Some None else Some (Some msg) })"

definition nl_len :: "mem \<Rightarrow> nat \<Rightarrow> int option" where
  "nl_len m msg = map_option sint (rd32 m msg)"

definition nl_cast :: "mem \<Rightarrow> nat \<Rightarrow> nat \<Rightarrow> nat option option" where
  "nl_cast m msg sz = do { l \<leftarrow> rd32 m msg; Some (if unat l < sz then None else Some msg) }"

definition nl_err :: "mem \<Rightarrow> nat \<Rightarrow> nat option option" where
  "nl_err m msg = do {
     typ \<leftarrow> rd16 m (msg + 4);
     if typ \<noteq> 2 then Some None
     else do { l \<leftarrow> rd32 m msg; Some (if unat l < 36 then None else Some msg) } }"

definition nl_gen :: "mem \<Rightarrow> nat \<Rightarrow> nat option option" where
  "nl_gen m msg = do {
     l \<leftarrow> rd32 m msg;
     if unat l < 20 then Some None
     else do { typ \<leftarrow> rd16 m (msg + 4); Some (if typ < 16 then None else Some msg) } }"

definition nc_msg :: "ncbuf \<Rightarrow> (nat option \<times> ncbuf) option" where
  "nc_msg nc =
     (let ptr = nc_ptr nc
      in if ptr > nc_end nc \<or> ptr < 0 then Some (None, nc)
         else if 16 > ptr then Some (None, nc)
         else do {
           m \<leftarrow> wr32 (nc_mem nc) 0 (word_of_int ptr);
           r \<leftarrow> nl_msg m 0 ptr;
           Some (r, nc \<lparr> nc_mem := m \<rparr>) })"

section \<open>Receiving\<close>

record nrbuf =
  nr_mem :: mem
  nr_msg :: nat
  nr_ptr :: nat
  nr_end :: nat

definition nr_buf_set :: "mem \<Rightarrow> nat \<Rightarrow> nrbuf" where
  "nr_buf_set buf len = \<lparr> nr_mem = buf, nr_msg = 0, nr_ptr = 0, nr_end = len \<rparr>"

definition nr_recv :: "'w nlsys \<Rightarrow> int \<Rightarrow> nrbuf \<Rightarrow> 'w \<Rightarrow> (int \<times> nrbuf \<times> 'w) option" where
  "nr_recv sys fd nr w =
     (if nr_ptr nr \<ge> nr_end nr then Some (- ENOBUFS, nr, w)
      else (case sys_recv sys fd (nr_end nr - nr_ptr nr) w of
        (ret, data, w) \<Rightarrow> do {
          m \<leftarrow> wrs (nr_mem nr) (nr_ptr nr) data;
          let nr = nr \<lparr> nr_mem := m \<rparr>;
          Some (ret, if ret > 0 then nr \<lparr> nr_ptr := nr_ptr nr + nat ret \<rparr> else nr, w) }))"

definition nr_next :: "nrbuf \<Rightarrow> (nat option \<times> nrbuf) option" where
  "nr_next nr =
     (let msg = nr_msg nr; ptr = nr_ptr nr
      in if msg \<ge> nr_end nr then Some (None, nr)
         else do {
           let len = int ptr - int msg;
           r \<leftarrow> nl_msg (nr_mem nr) msg len;
           (case r of
              Some nlm \<Rightarrow> do {
                l \<leftarrow> nl_len (nr_mem nr) nlm;
                let nxt = int msg + l;
                Some (Some nlm, if nxt < int ptr then nr \<lparr> nr_msg := nat nxt \<rparr>
                                else nr \<lparr> nr_msg := 0, nr_ptr := 0 \<rparr>) }
            | None \<Rightarrow>
                if msg > 0 then do {
                  m \<leftarrow> memmove (nr_mem nr) 0 msg (nat len);
                  Some (None, nr \<lparr> nr_mem := m, nr_ptr := nat len, nr_msg := 0 \<rparr>) }
                else Some (None, nr)) })"

definition nr_reset :: "nrbuf \<Rightarrow> nrbuf" where
  "nr_reset nr = nr \<lparr> nr_msg := 0, nr_ptr := 0 \<rparr>"

definition nl_recv :: "'w nlsys \<Rightarrow> int \<Rightarrow> mem \<Rightarrow> nat \<Rightarrow> 'w \<Rightarrow> (int \<times> mem \<times> 'w) option" where
  "nl_recv sys fd buf len w =
     (case sys_recv sys fd len w of (ret, data, w) \<Rightarrow> do { m \<leftarrow> wrs buf 0 data; Some (ret, m, w) })"

definition nl_subscribe :: "'w nlsys \<Rightarrow> int \<Rightarrow> int \<Rightarrow> 'w \<Rightarrow> int \<times> 'w" where
  "nl_subscribe sys fd i w = sys_setsockopt sys fd 270 1 i w"

section \<open>Attributes\<close>

text \<open>\<open>extend_to_4bytes\<close> on \<open>size_t\<close>.\<close>

definition extend_to_4bytes :: "int \<Rightarrow> int" where
  "extend_to_4bytes n = n + ((4 - (n AND 3)) AND 3)"

text \<open>Lengths of payloads are \<open>size_t\<close>: a length below the header wraps around.\<close>

definition at_paylen :: "mem \<Rightarrow> nat \<Rightarrow> nat option" where
  "at_paylen m at = map_option (\<lambda>l. nat ((l - 4) mod 2 ^ 64)) (at_len m at)"

definition nl_paylen_of :: "mem \<Rightarrow> nat \<Rightarrow> nat option" where
  "nl_paylen_of m msg = map_option (\<lambda>l. nat ((uint l - 20) mod 2 ^ 64)) (rd32 m msg)"

definition nl_attr_0_in :: "mem \<Rightarrow> nat \<Rightarrow> nat \<Rightarrow> nat option option" where
  "nl_attr_0_in m buf len =
     (if len < 4 then Some None
      else do { l \<leftarrow> at_len m buf; Some (if l > int len then None else Some buf) })"

definition ptr_in_buf :: "mem \<Rightarrow> nat \<Rightarrow> nat \<Rightarrow> nat option \<Rightarrow> bool option" where
  "ptr_in_buf m buf len ptr = (case ptr of
     None \<Rightarrow> Some False
   | Some p \<Rightarrow> if p < buf then Some False
              else if buf + len > length m then None
              else Some (p < buf + len))"

definition nl_attr_n_in :: "mem \<Rightarrow> nat \<Rightarrow> nat \<Rightarrow> nat option \<Rightarrow> nat option option" where
  "nl_attr_n_in m buf len cur = do {
     b \<leftarrow> ptr_in_buf m buf len cur;
     (case cur of
        Some p \<Rightarrow>
          if \<not> b then Some None
          else do {
            l \<leftarrow> at_len m p;
            if l < 4 then Some None
            else do {
              let pnext = p + nat (extend_to_4bytes l);
              b \<leftarrow> ptr_in_buf m buf len (Some pnext);
              Some (if b then Some pnext else None) } }
      | None \<Rightarrow> Some None) }"

partial_function (option) nl_attr_k_from :: "mem \<Rightarrow> nat \<Rightarrow> nat \<Rightarrow> int \<Rightarrow> nat option \<Rightarrow> nat option option" where
  "nl_attr_k_from m buf len typ at = (case at of
     None \<Rightarrow> Some None
   | Some p \<Rightarrow> do {
       k \<leftarrow> at_key m p;
       if k = typ then Some at
       else do { at \<leftarrow> nl_attr_n_in m buf len at; nl_attr_k_from m buf len typ at } })"

declare nl_attr_k_from.simps [code]

definition nl_attr_k_in :: "mem \<Rightarrow> nat \<Rightarrow> nat \<Rightarrow> int \<Rightarrow> nat option option" where
  "nl_attr_k_in m buf len typ = do { at \<leftarrow> nl_attr_0_in m buf len; nl_attr_k_from m buf len typ at }"

definition nl_bin :: "mem \<Rightarrow> nat option \<Rightarrow> nat \<Rightarrow> nat option option" where
  "nl_bin m at len = (case at of
     None \<Rightarrow> Some None
   | Some at \<Rightarrow> do { l \<leftarrow> at_paylen m at; Some (if l = len then Some (at + 4) else None) })"

text \<open>The loop of \<open>nl_check_zstr\<close> gives the final \<open>i\<close>.\<close>

fun zstr_scan :: "mem \<Rightarrow> nat \<Rightarrow> nat \<Rightarrow> nat option" where
  "zstr_scan m buf 0 = Some 0"
| "zstr_scan m buf (Suc n) = do { c \<leftarrow> rd m buf; if c = 0 then Some 0 else map_option Suc (zstr_scan m (buf + 1) n) }"

definition nl_check_zstr :: "mem \<Rightarrow> nat \<Rightarrow> nat \<Rightarrow> bool option" where
  "nl_check_zstr m buf len = do {
     i \<leftarrow> zstr_scan m buf len;
     Some (if i \<ge> len then False else if i < len - 1 then False else True) }"

definition nl_attr_is_zstr :: "mem \<Rightarrow> nat option \<Rightarrow> bool option" where
  "nl_attr_is_zstr m at = do { at \<leftarrow> at; l \<leftarrow> at_paylen m at; nl_check_zstr m (at + 4) l }"

definition nl_str :: "mem \<Rightarrow> nat option \<Rightarrow> nat option option" where
  "nl_str m at = do { at \<leftarrow> at; l \<leftarrow> at_paylen m at; z \<leftarrow> nl_check_zstr m (at + 4) l; Some (if z then Some (at + 4) else None) }"

text \<open>The loop of \<open>nl_check_nest\<close>; \<open>skip\<close> is stored in 16 bits.\<close>

partial_function (option) nest_walk :: "mem \<Rightarrow> nat \<Rightarrow> nat \<Rightarrow> nat option" where
  "nest_walk m p en =
     (if p < en then do {
        l \<leftarrow> at_len m p;
        let step = nat (extend_to_4bytes l mod 2 ^ 16);
        if step = 0 then Some p else nest_walk m (p + step) en }
      else Some p)"

declare nest_walk.simps [code]

definition nl_check_nest :: "mem \<Rightarrow> nat \<Rightarrow> nat \<Rightarrow> bool option" where
  "nl_check_nest m buf len =
     (if len \<le> 4 then Some False else do { p \<leftarrow> nest_walk m buf (buf + len); Some (p = buf + len) })"

definition nl_attr_is_nest :: "mem \<Rightarrow> nat option \<Rightarrow> bool option" where
  "nl_attr_is_nest m at = (case at of
     None \<Rightarrow> Some False
   | Some at \<Rightarrow> do { l \<leftarrow> at_paylen m at; nl_check_nest m (at + 4) l })"

definition nl_nest :: "mem \<Rightarrow> nat option \<Rightarrow> nat option option" where
  "nl_nest m at = (case at of
     None \<Rightarrow> Some None
   | Some p \<Rightarrow> do { l \<leftarrow> at_paylen m p; b \<leftarrow> nl_check_nest m (p + 4) l; Some (if \<not> b then None else at) })"

definition nl_paylen :: "mem \<Rightarrow> nat \<Rightarrow> int option" where
  "nl_paylen m at = map_option (\<lambda>l. l - 4) (at_len m at)"

definition nl_payload :: "nat \<Rightarrow> nat" where
  "nl_payload at = at + 4"

definition nl_get :: "mem \<Rightarrow> nat \<Rightarrow> int \<Rightarrow> nat option option" where
  "nl_get m msg typ = do { l \<leftarrow> nl_paylen_of m msg; nl_attr_k_in m (msg + 20) l typ }"

definition nl_get_0 :: "mem \<Rightarrow> nat \<Rightarrow> nat option option" where
  "nl_get_0 m msg = do { l \<leftarrow> nl_paylen_of m msg; nl_attr_0_in m (msg + 20) l }"

definition nl_get_n :: "mem \<Rightarrow> nat \<Rightarrow> nat option \<Rightarrow> nat option option" where
  "nl_get_n m msg cur = do { l \<leftarrow> nl_paylen_of m msg; nl_attr_n_in m (msg + 20) l cur }"

definition of_len :: "mem \<Rightarrow> nat option \<Rightarrow> nat \<Rightarrow> nat option option" where
  "of_len m at len = (case at of
     None \<Rightarrow> Some None
   | Some at \<Rightarrow> do { l \<leftarrow> at_len m at; Some (if l = 4 + int len then Some (at + 4) else None) })"

definition nl_get_of_len :: "mem \<Rightarrow> nat \<Rightarrow> int \<Rightarrow> nat \<Rightarrow> nat option option" where
  "nl_get_of_len m msg typ len = do { at \<leftarrow> nl_get m msg typ; of_len m at len }"

definition nl_get_nest :: "mem \<Rightarrow> nat \<Rightarrow> int \<Rightarrow> nat option option" where
  "nl_get_nest m msg typ = do { at \<leftarrow> nl_get m msg typ; nl_nest m at }"

definition nl_get_str :: "mem \<Rightarrow> nat \<Rightarrow> int \<Rightarrow> nat option option" where
  "nl_get_str m msg typ = do { at \<leftarrow> nl_get m msg typ; nl_str m at }"

definition nl_sub_0 :: "mem \<Rightarrow> nat \<Rightarrow> nat option option" where
  "nl_sub_0 m at = do { l \<leftarrow> at_paylen m at; nl_attr_0_in m (at + 4) l }"

definition nl_sub_n :: "mem \<Rightarrow> nat \<Rightarrow> nat option \<Rightarrow> nat option option" where
  "nl_sub_n m at cur = do { l \<leftarrow> at_paylen m at; nl_attr_n_in m (at + 4) l cur }"

definition nl_sub :: "mem \<Rightarrow> nat \<Rightarrow> int \<Rightarrow> nat option option" where
  "nl_sub m at typ = do { l \<leftarrow> at_paylen m at; nl_attr_k_in m (at + 4) l typ }"

definition nl_sub_of_len :: "mem \<Rightarrow> nat \<Rightarrow> int \<Rightarrow> nat \<Rightarrow> nat option option" where
  "nl_sub_of_len m at typ len = do { ak \<leftarrow> nl_sub m at typ; of_len m ak len }"

definition nl_sub_str :: "mem \<Rightarrow> nat \<Rightarrow> int \<Rightarrow> nat option option" where
  "nl_sub_str m at typ = do { ak \<leftarrow> nl_sub m at typ; nl_str m ak }"

end
