(* ===== verification/Netlink_Recv.thy ===== *)
theory Netlink_Recv
  imports Netlink
begin

text \<open>
  The shift buffer as a queue of bytes: what \<open>nr_recv\<close> and \<open>nr_next\<close> do to the data between \<open>msg\<close> and
  \<open>ptr\<close>, and that a stream of messages comes out whole and in order however it is cut into reads.
\<close>

section \<open>The abstract queue\<close>

definition nr_data :: "nrbuf \<Rightarrow> byte list" where
  "nr_data nr = drop (nr_msg nr) (take (nr_ptr nr) (nr_mem nr))"

definition nr_ok :: "nrbuf \<Rightarrow> bool" where
  "nr_ok nr \<longleftrightarrow> nr_end nr \<le> length (nr_mem nr) \<and> nr_ptr nr \<le> nr_end nr \<and> 0 < nr_end nr \<and> nr_end nr < 2 ^ 31 \<and>
     (nr_msg nr < nr_ptr nr \<or> nr_msg nr = 0 \<and> nr_ptr nr = 0)"

text \<open>The length of the message at the front, if all of it is there, and taking it.\<close>

definition nl_head :: "byte list \<Rightarrow> nat option" where
  "nl_head d = (let n = unat (unle (take 4 d) :: u32) in if 16 \<le> length d \<and> n \<le> length d then Some n else None)"

definition nl_next :: "byte list \<Rightarrow> byte list option \<times> byte list" where
  "nl_next d = (case nl_head d of None \<Rightarrow> (None, d) | Some n \<Rightarrow> (Some (take n d), drop n d))"

lemma length_nr_data: "nr_ok nr \<Longrightarrow> length (nr_data nr) = nr_ptr nr - nr_msg nr"
  by (auto simp: nr_data_def nr_ok_def)

lemma rds_nr_data:
  assumes "nr_ok nr" and "n \<le> length (nr_data nr)"
  shows "rds (nr_mem nr) (nr_msg nr) n = Some (take n (nr_data nr))"
proof -
  have "nr_msg nr + n \<le> nr_ptr nr" using assms length_nr_data[OF assms(1)] by (auto simp: nr_ok_def)
  then have "take n (drop (nr_msg nr) (nr_mem nr)) = take n (nr_data nr)" by (simp add: nr_data_def drop_take)
  then show ?thesis using assms \<open>nr_msg nr + n \<le> nr_ptr nr\<close> by (simp add: rds_def nr_ok_def)
qed

lemma uint_gt_iff: "int k < uint w \<longleftrightarrow> k < unat w"
  by (metis of_nat_less_iff uint_nat)

lemma sint_small:
  assumes "unat (w :: u32) < 2 ^ 31"
  shows "sint w = int (unat w)"
proof -
  have "unat w < 2147483648" using assms by simp
  then have "int32 (int (unat w)) = int (unat w)" by (intro int32_id) linarith+
  then show ?thesis by (simp add: int32_def)
qed

lemma nl_msg_head:
  assumes "nr_ok nr"
  shows "nl_msg (nr_mem nr) (nr_msg nr) (int (nr_ptr nr) - int (nr_msg nr)) =
    Some (case nl_head (nr_data nr) of None \<Rightarrow> None | Some n \<Rightarrow> Some (nr_msg nr))"
proof -
  let ?d = "nr_data nr"
  have le: "nr_msg nr \<le> nr_ptr nr" "nr_ptr nr < 2 ^ 31" using assms by (auto simp: nr_ok_def)
  then have len: "int (nr_ptr nr) - int (nr_msg nr) = int (length ?d)" using length_nr_data[OF assms] by simp
  have "int32 (int (length ?d)) = int (length ?d)" by (rule int32_id) (use le length_nr_data[OF assms] in auto)
  moreover have "rd32 (nr_mem nr) (nr_msg nr) = Some (unle (take 4 ?d))" if "16 \<le> length ?d"
    using rds_nr_data[OF assms, of 4] that by (simp add: rd32_def)
  ultimately show ?thesis unfolding len nl_msg_def nl_head_def Let_def
    by (simp add: uint_gt_iff)
qed

lemma nl_len_head:
  assumes "nr_ok nr" and "nl_head (nr_data nr) = Some n"
  shows "nl_len (nr_mem nr) (nr_msg nr) = Some (int n)" and "n \<le> length (nr_data nr)"
proof -
  have h: "16 \<le> length (nr_data nr)" "n = unat (unle (take 4 (nr_data nr)) :: u32)" "n \<le> length (nr_data nr)"
    using assms(2) by (auto simp: nl_head_def Let_def split: if_splits)
  have "rd32 (nr_mem nr) (nr_msg nr) = Some (unle (take 4 (nr_data nr)))"
    using rds_nr_data[OF assms(1), of 4] h(1) by (simp add: rd32_def)
  moreover have "n < 2 ^ 31" using h(3) length_nr_data[OF assms(1)] assms(1) by (auto simp: nr_ok_def)
  then have "sint (unle (take 4 (nr_data nr)) :: u32) = int n"
    using h(2) sint_small by simp
  ultimately show "nl_len (nr_mem nr) (nr_msg nr) = Some (int n)" by (simp add: nl_len_def)
  show "n \<le> length (nr_data nr)" by (rule h(3))
qed

section \<open>Operations on the queue\<close>

lemma nr_next_queue:
  assumes "nr_ok nr" and "nl_head (nr_data nr) \<noteq> Some 0"
  shows "\<exists>r nr'. nr_next nr = Some (r, nr') \<and> nr_ok nr' \<and> nr_end nr' = nr_end nr \<and>
    (case nl_next (nr_data nr) of
       (None, d) \<Rightarrow> r = None \<and> nr_data nr' = d \<and> nr_msg nr' = 0
     | (Some bs, d) \<Rightarrow> r = Some (nr_msg nr) \<and> rds (nr_mem nr) (nr_msg nr) (length bs) = Some bs \<and> nr_mem nr' = nr_mem nr \<and> nr_data nr' = d)"
proof (cases "nl_head (nr_data nr)")
  case (Some n)
  note l = nl_len_head[OF assms(1) Some]
  let ?nr = "if nr_msg nr + n < nr_ptr nr then nr \<lparr> nr_msg := nr_msg nr + n \<rparr> else nr \<lparr> nr_msg := 0, nr_ptr := 0 \<rparr>"
  have n: "0 < n" "n \<le> nr_ptr nr - nr_msg nr" using Some assms(2) l(2) length_nr_data[OF assms(1)] by auto
  have "\<not> nr_end nr \<le> nr_msg nr" using n assms(1) by (auto simp: nr_ok_def)
  then have "nr_next nr = Some (Some (nr_msg nr), ?nr)"
    using nl_msg_head[OF assms(1)] Some l(1) by (simp add: nr_next_def Let_def nat_add_distrib)
  moreover have "nr_ok ?nr" using assms(1) by (auto simp: nr_ok_def)
  moreover have "nr_data ?nr = drop n (nr_data nr)"
    using n by (auto simp: nr_data_def add.commute)
  ultimately show ?thesis using Some rds_nr_data[OF assms(1) l(2)] l(2) by (simp add: nl_next_def)
next
  case None
  have in_end: "\<not> nr_end nr \<le> nr_msg nr" using assms(1) by (auto simp: nr_ok_def)
  show ?thesis
  proof (cases "nr_msg nr = 0")
    case True
    then have "nr_next nr = Some (None, nr)" using in_end nl_msg_head[OF assms(1)] None by (simp add: nr_next_def Let_def)
    then show ?thesis using None assms(1) True by (simp add: nl_next_def)
  next
    case False
    let ?n = "nr_ptr nr - nr_msg nr"
    have le: "nr_msg nr \<le> nr_ptr nr" "nr_ptr nr \<le> length (nr_mem nr)" using assms(1) by (auto simp: nr_ok_def)
    have d: "take ?n (drop (nr_msg nr) (nr_mem nr)) = nr_data nr" using le by (simp add: nr_data_def drop_take)
    obtain m where m: "wrs (nr_mem nr) 0 (nr_data nr) = Some m" "length m = length (nr_mem nr)"
      using wrs_fits[of 0 "nr_data nr" "nr_mem nr"] le length_nr_data[OF assms(1)] by fastforce
    let ?nr = "nr \<lparr> nr_mem := m, nr_ptr := ?n, nr_msg := 0 \<rparr>"
    have len: "nat (int (nr_ptr nr) - int (nr_msg nr)) = ?n" using le by linarith
    have "memmove (nr_mem nr) 0 (nr_msg nr) ?n = Some m"
      using memmove_wrs[of 0 ?n "nr_mem nr" "nr_msg nr"] le m(1) d by simp
    then have "nr_next nr = Some (None, ?nr)"
      using in_end nl_msg_head[OF assms(1)] None False by (simp add: nr_next_def Let_def len)
    moreover have "nr_ok ?nr" using assms(1) m(2) by (auto simp: nr_ok_def)
    moreover have "nr_data ?nr = nr_data nr"
      using wrs_rds[OF m(1)] length_nr_data[OF assms(1)] by (simp add: nr_data_def rds_def split: if_splits)
    ultimately show ?thesis using None by (simp add: nl_next_def)
  qed
qed

text \<open>A read appends what the kernel delivers, which is at most the room it was given.\<close>

lemma nr_recv_queue:
  assumes "nr_ok nr" and "nr_ptr nr < nr_end nr"
    and "sys_recv sys fd (nr_end nr - nr_ptr nr) w = (int (length bs), bs, w')" and "length bs \<le> nr_end nr - nr_ptr nr"
  shows "\<exists>nr'. nr_recv sys fd nr w = Some (int (length bs), nr', w') \<and> nr_ok nr' \<and> nr_end nr' = nr_end nr \<and>
    nr_data nr' = nr_data nr @ bs"
proof -
  have le: "nr_msg nr \<le> nr_ptr nr" "nr_end nr \<le> length (nr_mem nr)" using assms(1) by (auto simp: nr_ok_def)
  let ?m = "take (nr_ptr nr) (nr_mem nr) @ bs @ drop (nr_ptr nr + length bs) (nr_mem nr)"
  have m: "wrs (nr_mem nr) (nr_ptr nr) bs = Some ?m" using le assms(2,4) by (simp add: wrs_def)
  let ?nr = "if 0 < length bs then nr \<lparr> nr_mem := ?m, nr_ptr := nr_ptr nr + length bs \<rparr> else nr \<lparr> nr_mem := ?m \<rparr>"
  have "nr_recv sys fd nr w = Some (int (length bs), ?nr, w')"
    using assms(2,3) m by (simp add: nr_recv_def Let_def)
  moreover have "nr_ok ?nr" using assms(1,2,4) wrs_length[OF m] by (auto simp: nr_ok_def)
  moreover have "nr_data ?nr = nr_data nr @ bs" using le assms(1,2) by (auto simp: nr_data_def nr_ok_def)
  ultimately show ?thesis by (intro exI[of _ ?nr]) simp
qed

section \<open>Streams\<close>

definition whole_msg :: "byte list \<Rightarrow> bool" where
  "whole_msg bs \<longleftrightarrow> 16 \<le> length bs \<and> length bs < 2 ^ 31 \<and> take 4 bs = le_bytes 4 (word_of_nat (length bs) :: u32)"

lemma nl_head_stream:
  assumes "whole_msg m" and "d @ w = m @ rest"
  shows "nl_head d = (if length m \<le> length d then Some (length m) else None)"
proof (cases "16 \<le> length d")
  case True
  then have "take 4 (d @ w) = take 4 d" "take 4 (m @ rest) = take 4 m" using assms(1) by (simp_all add: whole_msg_def)
  then have "take 4 d = take 4 m" using assms(2) by simp
  then have "unat (unle (take 4 d) :: u32) = length m"
    using assms(1) by (simp add: whole_msg_def unsigned_of_nat take_bit_nat_eq_self)
  then show ?thesis using True by (simp add: nl_head_def Let_def)
next
  case False
  then show ?thesis using assms(1) by (auto simp: nl_head_def Let_def whole_msg_def)
qed

text \<open>The receiving loop: read once, then take messages until there is none.\<close>

partial_function (option) nr_drain :: "nrbuf \<Rightarrow> (byte list list \<times> nrbuf) option" where
  "nr_drain nr = do {
     (r, nr') \<leftarrow> nr_next nr;
     (case r of
        None \<Rightarrow> Some ([], nr')
      | Some at \<Rightarrow> do {
          l \<leftarrow> nl_len (nr_mem nr) at;
          bs \<leftarrow> rds (nr_mem nr) at (nat l);
          (ms, nr'') \<leftarrow> nr_drain nr';
          Some (bs # ms, nr'') }) }"

declare nr_drain.simps [code]

text \<open>A kernel that has the bytes \<open>w\<close> to deliver and gives at most \<open>k\<close> of them in one read.\<close>

definition stream_sys :: "nat \<Rightarrow> byte list nlsys" where
  "stream_sys k = \<lparr> sys_send = (\<lambda>fd bs w. (int (length bs), w)),
     sys_recv = (\<lambda>fd left w. let n = min k left in (int (length (take n w)), take n w, drop n w)),
     sys_setsockopt = (\<lambda>fd lvl opt v w. (0, w)) \<rparr>"

fun nr_run :: "nat list \<Rightarrow> int \<Rightarrow> byte list \<Rightarrow> nrbuf \<Rightarrow> (byte list list \<times> byte list \<times> nrbuf) option" where
  "nr_run [] fd w nr = Some ([], w, nr)"
| "nr_run (k # ks) fd w nr = do {
     (ret, nr, w) \<leftarrow> nr_recv (stream_sys k) fd nr w;
     if ret \<le> 0 then Some ([], w, nr)
     else do {
       (ms, nr) \<leftarrow> nr_drain nr;
       (ms', w, nr) \<leftarrow> nr_run ks fd w nr;
       Some (ms @ ms', w, nr) } }"

lemma nr_drain_stream:
  "nr_ok nr \<Longrightarrow> \<forall>m \<in> set ms. whole_msg m \<Longrightarrow> nr_data nr @ w = concat ms \<Longrightarrow>
   \<exists>ms1 ms2 nr'. nr_drain nr = Some (ms1, nr') \<and> ms = ms1 @ ms2 \<and> nr_ok nr' \<and> nr_end nr' = nr_end nr \<and> nr_msg nr' = 0 \<and>
     nr_data nr' @ w = concat ms2 \<and> (case ms2 of [] \<Rightarrow> True | m # _ \<Rightarrow> length (nr_data nr') < length m)"
proof (induction ms arbitrary: nr)
  case Nil
  then have "nl_head (nr_data nr) = None" by (simp add: nl_head_def)
  then obtain nr' where "nr_next nr = Some (None, nr')" "nr_ok nr'" "nr_end nr' = nr_end nr" "nr_data nr' = nr_data nr" "nr_msg nr' = 0"
    using nr_next_queue[OF Nil.prems(1)] by (auto simp: nl_next_def)
  then show ?case using Nil.prems(3) by (subst nr_drain.simps) auto
next
  case (Cons m ms)
  have m: "whole_msg m" "\<forall>m \<in> set ms. whole_msg m" using Cons.prems(2) by auto
  have h: "nl_head (nr_data nr) = (if length m \<le> length (nr_data nr) then Some (length m) else None)"
    by (rule nl_head_stream[OF m(1)]) (use Cons.prems(3) in simp)
  show ?case
  proof (cases "length m \<le> length (nr_data nr)")
    case True
    then have d: "take (length m) (nr_data nr) = m" "drop (length m) (nr_data nr) @ w = concat ms"
      using arg_cong[OF Cons.prems(3), of "take (length m)"] arg_cong[OF Cons.prems(3), of "drop (length m)"] by simp_all
    have ne: "nl_head (nr_data nr) = Some (length m)" "nl_head (nr_data nr) \<noteq> Some 0" using h True m(1) by (auto simp: whole_msg_def)
    obtain nr' where n: "nr_next nr = Some (Some (nr_msg nr), nr')" "nr_ok nr'" "nr_end nr' = nr_end nr"
      "rds (nr_mem nr) (nr_msg nr) (length m) = Some m" "nr_data nr' = drop (length m) (nr_data nr)"
      using nr_next_queue[OF Cons.prems(1) ne(2)] ne(1) d(1) by (auto simp: nl_next_def)
    obtain ms1 ms2 nr2 where i: "nr_drain nr' = Some (ms1, nr2)" "ms = ms1 @ ms2" "nr_ok nr2" "nr_end nr2 = nr_end nr'" "nr_msg nr2 = 0"
      "nr_data nr2 @ w = concat ms2" "case ms2 of [] \<Rightarrow> True | m # _ \<Rightarrow> length (nr_data nr2) < length m"
      using Cons.IH[OF n(2) m(2)] n(5) d(2) by auto
    have "nr_drain nr = Some (m # ms1, nr2)"
      using n(1,4) i(1) nl_len_head(1)[OF Cons.prems(1) ne(1)] by (subst nr_drain.simps) simp
    then show ?thesis using i n(3) by (intro exI[of _ "m # ms1"] exI[of _ ms2] exI[of _ nr2]) simp
  next
    case False
    then have "nl_head (nr_data nr) = None" using h by simp
    then obtain nr' where "nr_next nr = Some (None, nr')" "nr_ok nr'" "nr_end nr' = nr_end nr" "nr_data nr' = nr_data nr" "nr_msg nr' = 0"
      using nr_next_queue[OF Cons.prems(1)] by (auto simp: nl_next_def)
    then show ?thesis using Cons.prems(3) False
      by (intro exI[of _ "[]"] exI[of _ "m # ms"] exI[of _ nr']) (subst nr_drain.simps, auto)
  qed
qed

lemma nr_run_stream:
  assumes "\<forall>k \<in> set ks. 0 < k"
  shows "nr_ok nr \<Longrightarrow> nr_msg nr = 0 \<Longrightarrow> \<forall>m \<in> set ms. whole_msg m \<and> length m \<le> nr_end nr \<Longrightarrow> nr_data nr @ w = concat ms \<Longrightarrow>
    (case ms of [] \<Rightarrow> True | m # _ \<Rightarrow> length (nr_data nr) < length m) \<Longrightarrow> length w \<le> length ks \<Longrightarrow>
    \<exists>nr'. nr_run ks fd w nr = Some (ms, [], nr') \<and> nr_ok nr' \<and> nr_data nr' = []"
  using assms
proof (induction ks arbitrary: nr w ms)
  case Nil
  then show ?case by (cases ms) auto
next
  case (Cons k ks)
  have room: "nr_ptr nr < nr_end nr"
  proof (cases ms)
    case Nil
    then show ?thesis using Cons.prems(1,2,4) length_nr_data[of nr] by (auto simp: nr_ok_def)
  next
    case (Cons m ms')
    then have "length (nr_data nr) < nr_end nr" using Cons.prems(3,5) by auto
    then show ?thesis using Cons.prems(1,2) length_nr_data[of nr] by simp
  qed
  let ?n = "min k (nr_end nr - nr_ptr nr)"
  have "sys_recv (stream_sys k) fd (nr_end nr - nr_ptr nr) w = (int (length (take ?n w)), take ?n w, drop ?n w)"
    by (simp add: stream_sys_def Let_def)
  then obtain nr1 where r: "nr_recv (stream_sys k) fd nr w = Some (int (length (take ?n w)), nr1, drop ?n w)" "nr_ok nr1"
    "nr_end nr1 = nr_end nr" "nr_data nr1 = nr_data nr @ take ?n w"
    using nr_recv_queue[OF Cons.prems(1) room] by fastforce
  show ?case
  proof (cases "w = []")
    case True
    then have "ms = []" using arg_cong[OF Cons.prems(4), of length] Cons.prems(5) by (cases ms) auto
    moreover from this have "nr_data nr = []" using Cons.prems(4) by simp
    moreover have "nr_recv (stream_sys k) fd nr [] = Some (0, nr1, [])" using r(1) True by simp
    ultimately show ?thesis using True r(2,4) by simp
  next
    case False
    have n: "0 < ?n" using Cons.prems(7) room by simp
    have "nr_data nr1 @ drop ?n w = concat ms" using r(4) Cons.prems(4) by simp
    then obtain ms1 ms2 nr2 where d: "nr_drain nr1 = Some (ms1, nr2)" "ms = ms1 @ ms2" "nr_ok nr2" "nr_end nr2 = nr_end nr1" "nr_msg nr2 = 0"
      "nr_data nr2 @ drop ?n w = concat ms2" "case ms2 of [] \<Rightarrow> True | m # _ \<Rightarrow> length (nr_data nr2) < length m"
      using nr_drain_stream[OF r(2), of ms] Cons.prems(3) by blast
    have "length (drop ?n w) \<le> length ks" using n Cons.prems(6) False by (cases w) auto
    moreover have "\<forall>m \<in> set ms2. whole_msg m \<and> length m \<le> nr_end nr2" using Cons.prems(3) d(2,4) r(3) by auto
    ultimately obtain nr3 where "nr_run ks fd (drop ?n w) nr2 = Some (ms2, [], nr3)" "nr_ok nr3" "nr_data nr3 = []"
      using Cons.IH[OF d(3,5) _ d(6,7)] Cons.prems(7) by auto
    moreover have "\<exists>j > 0. nr_recv (stream_sys k) fd nr w = Some (j, nr1, drop ?n w)"
      using r(1) n False by (intro exI[of _ "int (length (take ?n w))"]) auto
    ultimately show ?thesis using d(1,2) by auto
  qed
qed

section \<open>Properties\<close>

text \<open>
  C23.  The shift buffer refines a queue of bytes: \<open>nr_next\<close> takes the first message off the data if all
  of it is there, and returns \<open>NULL\<close> otherwise, with the data unchanged and moved to the start of the
  buffer.
\<close>

theorem nr_next_refines:
  assumes "nr_ok nr" and "nl_head (nr_data nr) \<noteq> Some 0"
  shows "\<exists>r nr'. nr_next nr = Some (r, nr') \<and> nr_ok nr' \<and> nr_end nr' = nr_end nr \<and>
    nl_next (nr_data nr) = (map_option (\<lambda>at. take (length (nr_data nr) - length (nr_data nr')) (drop at (nr_mem nr))) r, nr_data nr') \<and>
    (r = None \<longrightarrow> nr_msg nr' = 0) \<and> (r \<noteq> None \<longrightarrow> nr_mem nr' = nr_mem nr)"
proof -
  obtain r nr' where n: "nr_next nr = Some (r, nr')" "nr_ok nr'" "nr_end nr' = nr_end nr"
    and c: "case nl_next (nr_data nr) of
       (None, d) \<Rightarrow> r = None \<and> nr_data nr' = d \<and> nr_msg nr' = 0
     | (Some bs, d) \<Rightarrow> r = Some (nr_msg nr) \<and> rds (nr_mem nr) (nr_msg nr) (length bs) = Some bs \<and> nr_mem nr' = nr_mem nr \<and> nr_data nr' = d"
    using nr_next_queue[OF assms] by (elim exE conjE) (rule that)
  show ?thesis
  proof (cases "nl_head (nr_data nr)")
    case None
    then show ?thesis using n c by (simp add: nl_next_def)
  next
    case (Some k)
    have k: "k \<le> length (nr_data nr)" using nl_len_head(2)[OF assms(1) Some] .
    then have "take k (drop (nr_msg nr) (nr_mem nr)) = take k (nr_data nr)" using c Some by (auto simp: nl_next_def rds_def split: if_splits)
    then show ?thesis using n c k Some by (simp add: nl_next_def)
  qed
qed

text \<open>
  C24.  A stream of messages comes out whole and in order, however the kernel cuts it into reads: as long
  as no message is longer than the buffer, there is always room for the next read, and once everything
  is read the loop has returned exactly the messages sent.
\<close>

theorem nr_stream:
  assumes "0 < len" and "len < 2 ^ 31" and "len \<le> length buf" and "\<forall>k \<in> set ks. 0 < k"
    and "\<forall>m \<in> set ms. whole_msg m \<and> length m \<le> len" and "length (concat ms) \<le> length ks"
  shows "\<exists>nr'. nr_run ks fd (concat ms) (nr_buf_set buf len) = Some (ms, [], nr') \<and> nr_data nr' = []"
proof -
  have "nr_ok (nr_buf_set buf len)" "nr_msg (nr_buf_set buf len) = 0" "nr_data (nr_buf_set buf len) = []" "nr_end (nr_buf_set buf len) = len"
    using assms(1-3) by (simp_all add: nr_ok_def nr_buf_set_def nr_data_def)
  moreover have "case ms of [] \<Rightarrow> True | m # _ \<Rightarrow> length (nr_data (nr_buf_set buf len)) < length m"
    using assms(5) calculation(3) by (cases ms) (auto simp: whole_msg_def)
  ultimately show ?thesis
    using nr_run_stream[OF assms(4), of "nr_buf_set buf len" ms "concat ms" fd] assms(5,6) by auto
qed

text \<open>
  A message that claims no length stops the receiver: \<open>nr_next\<close> returns it and stays at it, so that
  the loop over messages never ends.
\<close>

theorem nr_next_stuck:
  assumes "nr_ok nr" and "16 \<le> length (nr_data nr)" and "unle (take 4 (nr_data nr)) = (0 :: u32)"
  shows "nr_next nr = Some (Some (nr_msg nr), nr)"
proof -
  have h: "nl_head (nr_data nr) = Some 0" using assms(2,3) by (simp add: nl_head_def)
  have "nr_msg nr < nr_ptr nr" "\<not> nr_end nr \<le> nr_msg nr" using assms(1,2) length_nr_data[OF assms(1)] by (auto simp: nr_ok_def)
  then show ?thesis using nl_msg_head[OF assms(1)] nl_len_head(1)[OF assms(1) h] h
    by (simp add: nr_next_def Let_def)
qed

definition demo_msg :: "nat \<Rightarrow> byte list" where
  "demo_msg n = le_bytes 4 (word_of_nat (16 + n) :: u32) @ replicate (12 + n) 7"

definition demo_nr :: nrbuf where
  "demo_nr = \<lparr> nr_mem = replicate 4 9 @ demo_msg 2 @ replicate 10 0, nr_msg = 4, nr_ptr = 26, nr_end = 32 \<rparr>"

lemma demo_msg_whole: "n < 100 \<Longrightarrow> whole_msg (demo_msg n)"
  by (simp add: whole_msg_def demo_msg_def)

theorem nr_next_refines_witness:
  "\<exists>r nr'. nr_next demo_nr = Some (r, nr') \<and> nl_next (nr_data demo_nr) = (map_option (\<lambda>at. take (length (nr_data demo_nr) - length (nr_data nr')) (drop at (nr_mem demo_nr))) r, nr_data nr')"
proof -
  have d: "nr_data demo_nr = demo_msg 2 @ replicate 4 0" by (simp add: nr_data_def demo_nr_def demo_msg_def)
  have "nr_ok demo_nr" by (simp add: nr_ok_def demo_nr_def demo_msg_def)
  moreover have "nl_head (nr_data demo_nr) \<noteq> Some 0"
    using nl_head_stream[OF demo_msg_whole, of 2 "nr_data demo_nr" "[]" "replicate 4 0"] d by (simp add: demo_msg_def)
  ultimately show ?thesis using nr_next_refines[of demo_nr] by blast
qed

theorem nr_stream_witness:
  "\<exists>nr'. nr_run (replicate 36 5) 3 (concat [demo_msg 4, demo_msg 0]) (nr_buf_set (replicate 24 0) 24) = Some ([demo_msg 4, demo_msg 0], [], nr') \<and>
     nr_data nr' = []"
  using nr_stream[of 24 "replicate 24 0" "replicate 36 5" "[demo_msg 4, demo_msg 0]" 3] demo_msg_whole[of 4] demo_msg_whole[of 0]
  by (simp add: demo_msg_def)

lemma unle_zero: "unle (replicate n 0) = (0 :: 'a::len word)"
  by (induction n) auto

theorem nr_next_stuck_witness:
  "nr_next (demo_nr \<lparr> nr_mem := replicate 32 0 \<rparr>) = Some (Some 4, demo_nr \<lparr> nr_mem := replicate 32 0 \<rparr>)"
  using nr_next_stuck[of "demo_nr \<lparr> nr_mem := replicate 32 0 \<rparr>"]
  by (simp add: demo_nr_def nr_ok_def nr_data_def unle_zero)

end
