(* ===== verification/Netlink_Msg.thy ===== *)
theory Netlink_Msg
  imports Netlink_Recv
begin

text \<open>
  Requests: the contract of the functions that append to a request, its combination over sequences and
  nests, and what a reader finds in a request so built.
\<close>

section \<open>What the builder promises\<close>

text \<open>\<open>ncraw nc h b\<close>: the buffer holds the header \<open>h\<close> and the attributes \<open>b\<close>, up to \<open>ptr\<close>.\<close>

definition ncraw :: "ncbuf \<Rightarrow> byte list \<Rightarrow> byte list \<Rightarrow> bool" where
  "ncraw nc h b \<longleftrightarrow> (\<exists>rest. nc_mem nc = h @ b @ rest) \<and> 16 \<le> length h \<and> nc_ptr nc = int (length h + length b) \<and>
     nc_ptr nc \<le> nc_end nc \<and> nc_end nc \<le> int (length (nc_mem nc))"

definition ncover :: "ncbuf \<Rightarrow> bool" where
  "ncover nc \<longleftrightarrow> nc_ptr nc > nc_end nc \<and> nc_end nc \<le> int (length (nc_mem nc))"

definition nc_room :: "ncbuf \<Rightarrow> byte list \<Rightarrow> bool" where
  "nc_room nc e \<longleftrightarrow> nc_ptr nc + int (length e) \<le> nc_end nc"

locale nc_writer =
  fixes put :: "ncbuf \<Rightarrow> ncbuf option" and e :: "byte list"
  assumes fits: "ncraw nc h b \<Longrightarrow> nc_room nc e \<Longrightarrow> \<exists>nc'. put nc = Some nc' \<and> ncraw nc' h (b @ e) \<and> nc_end nc' = nc_end nc"
    and over: "ncraw nc h b \<Longrightarrow> \<not> nc_room nc e \<Longrightarrow> \<exists>nc'. put nc = Some nc' \<and> ncover nc' \<and> nc_end nc' = nc_end nc"
    and sticky: "ncover nc \<Longrightarrow> put nc = Some nc"
begin

lemma total: "ncraw nc h b \<or> ncover nc \<Longrightarrow>
    \<exists>nc'. put nc = Some nc' \<and> ((\<exists>b'. ncraw nc' h b') \<or> ncover nc') \<and> nc_end nc' = nc_end nc"
  using fits over sticky by blast

end

lemma nc_room_append: "ncraw nc h b \<Longrightarrow> ncraw nc' h (b @ e) \<Longrightarrow> nc_end nc' = nc_end nc \<Longrightarrow> nc_room nc (e @ f) = nc_room nc' f"
  by (auto simp: nc_room_def ncraw_def)

lemma nc_room_prefix: "nc_room nc (e @ f) \<Longrightarrow> nc_room nc e"
  by (auto simp: nc_room_def)

lemma nc_seq_writer:
  assumes "nc_writer p e" and "nc_writer q f"
  shows "nc_writer (\<lambda>nc. p nc \<bind> q) (e @ f)"
proof
  fix nc h b assume r: "ncraw nc h b" and fit: "nc_room nc (e @ f)"
  obtain nc1 where 1: "p nc = Some nc1" "ncraw nc1 h (b @ e)" "nc_end nc1 = nc_end nc"
    using nc_writer.fits[OF assms(1) r nc_room_prefix[OF fit]] by blast
  then show "\<exists>nc'. p nc \<bind> q = Some nc' \<and> ncraw nc' h (b @ e @ f) \<and> nc_end nc' = nc_end nc"
    using nc_writer.fits[OF assms(2) 1(2)] fit nc_room_append[OF r 1(2,3)] by auto
next
  fix nc h b assume r: "ncraw nc h b" and nofit: "\<not> nc_room nc (e @ f)"
  show "\<exists>nc'. p nc \<bind> q = Some nc' \<and> ncover nc' \<and> nc_end nc' = nc_end nc"
  proof (cases "nc_room nc e")
    case True
    then obtain nc1 where 1: "p nc = Some nc1" "ncraw nc1 h (b @ e)" "nc_end nc1 = nc_end nc"
      using nc_writer.fits[OF assms(1) r] by blast
    then show ?thesis using nc_writer.over[OF assms(2) 1(2)] nofit nc_room_append[OF r 1(2,3)] by auto
  next
    case False
    then show ?thesis using nc_writer.over[OF assms(1) r] nc_writer.sticky[OF assms(2)] by auto
  qed
qed (use assms in \<open>simp add: nc_writer.sticky\<close>)

lemma ncraw_wrs:
  assumes "ncraw nc h (b @ x @ y)" and "length z = length x" and "p = length h + length b"
  obtains m where "wrs (nc_mem nc) p z = Some m" and "ncraw (nc \<lparr> nc_mem := m \<rparr>) h (b @ z @ y)"
proof -
  obtain rest where m: "nc_mem nc = h @ (b @ x @ y) @ rest" using assms(1) by (auto simp: ncraw_def)
  have "wrs (nc_mem nc) p z = Some ((h @ b) @ z @ y @ rest)"
    using wrs_append[of "h @ b" p x z "y @ rest"] assms(2,3) m by simp
  moreover have "ncraw (nc \<lparr> nc_mem := h @ b @ z @ y @ rest \<rparr>) h (b @ z @ y)"
    using assms(1,2) m by (auto simp: ncraw_def)
  ultimately show ?thesis using that by simp
qed

section \<open>Sizes\<close>

lemma and_not_3_word: "(x :: u32) AND (NOT 3) = 4 * (x div 4)"
proof -
  have "Suc (Suc (n - 2)) = n" if "2 \<le> n" for n using that by arith
  then have "x AND NOT (mask 2) = push_bit 2 (drop_bit 2 x)"
    by (intro bit_word_eqI) (auto simp: bit_simps not_less)
  then show ?thesis by (simp add: mask_eq_exp_minus_1 push_bit_eq_mult drop_bit_eq_div)
qed

lemma unat_and_not_3: "unat ((x :: u32) AND (NOT 3)) = unat x - unat x mod 4"
proof -
  have d: "unat (x div 4) = unat x div 4" by (simp add: unat_div)
  have "4 * (unat x div 4) \<le> unat x" by simp
  moreover have "unat x < 4294967296" using unsigned_less[of x, where ?'a = nat] by simp
  ultimately have "4 * (unat x div 4) < 4294967296" by linarith
  then have "unat (4 * (x div 4)) = 4 * (unat x div 4)" using d by (simp add: unat_word_ariths)
  then show ?thesis unfolding and_not_3_word by (simp only: minus_mod_eq_mult_div)
qed

text \<open>The sizes that \<open>nc_put_\<close> computes for a payload of \<open>n\<close> bytes.\<close>

lemma put_sizes:
  assumes "n \<le> 65531"
  shows "unat (4 + word_of_nat n :: u32) = n + 4" and "unat ((4 + word_of_nat n + 3 :: u32) AND (NOT 3)) = 4 + n + pad4 n"
    and "unat ((4 + word_of_nat n :: u32) AND (NOT 3)) = 4 + (n - n mod 4)"
proof -
  have n: "unat (word_of_nat n :: u32) = n" using assms by (simp add: unsigned_of_nat take_bit_nat_eq_self)
  show a: "unat (4 + word_of_nat n :: u32) = n + 4" using assms n by (simp add: unat_word_ariths)
  have b: "unat (4 + word_of_nat n + 3 :: u32) = n + 7" using assms n by (simp add: unat_word_ariths)
  have "n mod 4 = 0 \<or> n mod 4 = 1 \<or> n mod 4 = 2 \<or> n mod 4 = 3" by arith
  then have "n + 7 - (n + 7) mod 4 = 4 + n + pad4 n" by (elim disjE) (simp_all add: pad4_def, presburger+)
  then show "unat ((4 + word_of_nat n + 3 :: u32) AND (NOT 3)) = 4 + n + pad4 n" unfolding unat_and_not_3 b .
  show "unat ((4 + word_of_nat n :: u32) AND (NOT 3)) = 4 + (n - n mod 4)" unfolding unat_and_not_3 a by simp
qed

section \<open>Attributes\<close>

lemma nc_swap: "nc \<lparr> nc_mem := m, nc_ptr := p \<rparr> = nc \<lparr> nc_ptr := p, nc_mem := m \<rparr>"
  by simp

lemma ncraw_grow:
  assumes "ncraw nc h b" and "nc_ptr nc + int n \<le> nc_end nc"
  obtains t where "ncraw (nc \<lparr> nc_ptr := nc_ptr nc + int n \<rparr>) h (b @ t)" and "length t = n"
proof -
  obtain rest where m: "nc_mem nc = h @ b @ rest" using assms(1) by (auto simp: ncraw_def)
  have "n \<le> length rest" using assms m by (auto simp: ncraw_def)
  then have "ncraw (nc \<lparr> nc_ptr := nc_ptr nc + int n \<rparr>) h (b @ take n rest)"
    using assms m by (auto simp: ncraw_def intro!: exI[of _ "drop n rest"])
  then show ?thesis using that \<open>n \<le> length rest\<close> by simp
qed

lemma ncraw_set_hdr:
  assumes "ncraw nc h (b @ t1 @ t2 @ y)" and "length t1 = 2" and "length t2 = 2" and "p = length h + length b"
  obtains m1 m2 where "set_key (nc_mem nc) p key = Some m1" and "set_len m1 p len = Some m2"
    and "ncraw (nc \<lparr> nc_mem := m2 \<rparr>) h (b @ w16 len @ w16 key @ y)"
proof -
  have "ncraw nc h ((b @ t1) @ t2 @ y)" using assms(1) by simp
  then obtain m1 where m1: "wrs (nc_mem nc) (p + 2) (w16 key) = Some m1" "ncraw (nc \<lparr> nc_mem := m1 \<rparr>) h ((b @ t1) @ w16 key @ y)"
    by (rule ncraw_wrs[where z = "w16 key"]) (use assms in auto)
  have "ncraw (nc \<lparr> nc_mem := m1 \<rparr>) h (b @ t1 @ (w16 key @ y))" using m1(2) by simp
  then obtain m2 where "wrs m1 p (w16 len) = Some m2" "ncraw (nc \<lparr> nc_mem := m2 \<rparr>) h (b @ w16 len @ w16 key @ y)"
    by (rule ncraw_wrs[where z = "w16 len" and p = p]) (use assms in auto)
  then show ?thesis using that m1(1) by (simp add: set_key_def set_len_def wr16_def w16_def)
qed

text \<open>The padding is zeroed before the header is written.\<close>

lemma ncraw_pad:
  assumes "ncraw nc h (b @ t)" and "length t = 4 + n + pad4 n" and "ret = length h + length b"
  obtains m v where "(if pad4 n > 0 then wr32 (nc_mem nc) (ret + (4 + (n - n mod 4))) 0 else Some (nc_mem nc)) = Some m"
    and "ncraw (nc \<lparr> nc_mem := m \<rparr>) h (b @ v @ replicate (pad4 n) 0)" and "length v = 4 + n"
proof (cases "pad4 n > 0")
  case True
  then have nz: "n mod 4 \<noteq> 0" by (metis less_irrefl pad4_aligned)
  then have p: "pad4 n = 4 - n mod 4" by (rule pad4_pos)
  have "4 + (n - n mod 4) \<le> length t" using assms(2) by simp
  then obtain t4 t5 where t: "t = t4 @ t5" "length t4 = 4 + (n - n mod 4)" "length t5 = length t - (4 + (n - n mod 4))" by (rule split_at)
  then have t5: "length t5 = 4" using assms(2) p by simp
  have "ncraw nc h ((b @ t4) @ t5 @ [])" "length (replicate 4 0 :: byte list) = length t5" "ret + (4 + (n - n mod 4)) = length h + length (b @ t4)"
    using assms(1,3) t(1,2) t5 by simp_all
  then obtain m where m: "wrs (nc_mem nc) (ret + (4 + (n - n mod 4))) (replicate 4 0) = Some m"
    "ncraw (nc \<lparr> nc_mem := m \<rparr>) h ((b @ t4) @ replicate 4 0 @ [])"
    by (rule ncraw_wrs)
  have "replicate 4 (0 :: byte) = replicate (n mod 4) 0 @ replicate (pad4 n) 0" unfolding p by (simp flip: replicate_add)
  then have "ncraw (nc \<lparr> nc_mem := m \<rparr>) h (b @ (t4 @ replicate (n mod 4) 0) @ replicate (pad4 n) 0)" using m(2) by simp
  then show ?thesis using that[of m "t4 @ replicate (n mod 4) 0"] True m(1) t(2) by (simp add: wr32_def le_zero)
next
  case False
  then show ?thesis using that[of "nc_mem nc" t] assms by simp
qed

lemma nc_put_attr_fits:
  assumes r: "ncraw nc h b" and n: "n \<le> 65531" and room: "nc_ptr nc + int (4 + n + pad4 n) \<le> nc_end nc"
  obtains nc' u where "nc_put_attr nc key (word_of_nat n) = Some (nc', Some (length h + length b + 4))"
    and "ncraw nc' h (b @ w16 (int n + 4) @ w16 key @ u @ replicate (pad4 n) 0)" and "length u = n" and "nc_end nc' = nc_end nc"
proof -
  let ?full = "4 + word_of_nat n :: u32" and ?need = "(4 + word_of_nat n + 3 :: u32) AND (NOT 3)" and ?ret = "length h + length b"
  let ?nc = "nc \<lparr> nc_ptr := nc_ptr nc + int (4 + n + pad4 n) \<rparr>"
  have ret: "nc_ptr nc = int ?ret" "16 \<le> ?ret" "int ?ret \<le> nc_end nc" using r by (auto simp: ncraw_def)
  have sz: "uint ?full = int n + 4" "uint ?need = int (4 + n + pad4 n)" using put_sizes(1,2)[OF n] by (simp_all add: uint_nat)
  have more: "?need > ?full \<longleftrightarrow> pad4 n > 0" using put_sizes(1,2)[OF n] by (simp add: word_less_nat_alt)
  obtain t where t: "ncraw ?nc h (b @ t)" "length t = 4 + n + pad4 n" by (rule ncraw_grow[OF r room])
  have same: "nc_mem ?nc = nc_mem nc" by simp
  obtain m0 v where "(if pad4 n > 0 then wr32 (nc_mem ?nc) (?ret + (4 + (n - n mod 4))) 0 else Some (nc_mem ?nc)) = Some m0"
    and m0v: "ncraw (?nc \<lparr> nc_mem := m0 \<rparr>) h (b @ v @ replicate (pad4 n) 0)" "length v = 4 + n"
    by (rule ncraw_pad[OF t refl])
  then have m0: "(if pad4 n > 0 then wr32 (nc_mem nc) (?ret + (4 + (n - n mod 4))) 0 else Some (nc_mem nc)) = Some m0"
    unfolding same by blast
  have "2 \<le> length v" using m0v(2) by simp
  then obtain t1 v1 where v1: "v = t1 @ v1" "length t1 = 2" "length v1 = length v - 2" by (rule split_at)
  have "2 \<le> length v1" using m0v(2) v1(3) by simp
  then obtain t2 u where u: "v1 = t2 @ u" "length t2 = 2" "length u = length v1 - 2" by (rule split_at)
  have "ncraw (?nc \<lparr> nc_mem := m0 \<rparr>) h (b @ t1 @ t2 @ (u @ replicate (pad4 n) 0))" using m0v(1) v1(1) u(1) by simp
  then obtain m1 m2 where m: "set_key m0 ?ret key = Some m1" "set_len m1 ?ret (int n + 4) = Some m2"
    "ncraw (?nc \<lparr> nc_mem := m2 \<rparr>) h (b @ w16 (int n + 4) @ w16 key @ u @ replicate (pad4 n) 0)"
    by (rule ncraw_set_hdr[where p = ?ret and key = key and len = "int n + 4"]) (use v1(2) u(2) in auto)
  have g: "\<not> (int ?ret > nc_end nc \<or> int ?ret < 0)" "\<not> (int ?ret + int (4 + n + pad4 n) > nc_end nc \<or> int ?ret + int (4 + n + pad4 n) < 0)"
    "\<not> int ?ret + int (4 + n + pad4 n) < 16" using ret room by linarith+
  have "nc_put_attr nc key (word_of_nat n) = Some (nc \<lparr> nc_mem := m2, nc_ptr := int ?ret + int (4 + n + pad4 n) \<rparr>, Some (?ret + 4))"
    unfolding nc_put_attr_def Let_def more put_sizes(3)[OF n] sz ret(1) nat_int if_not_P[OF g(1)] if_not_P[OF g(2)] if_not_P[OF g(3)] m0 m(1,2) bind.simps ..
  then have "nc_put_attr nc key (word_of_nat n) = Some (?nc \<lparr> nc_mem := m2 \<rparr>, Some (?ret + 4))" unfolding nc_swap ret(1) .
  moreover have "length u = n" using u(3) v1(3) m0v(2) by simp
  moreover have "nc_end (?nc \<lparr> nc_mem := m2 \<rparr>) = nc_end nc" by simp
  ultimately show ?thesis using that m(3) by blast
qed

lemma nc_put_attr_over:
  assumes r: "ncraw nc h b" and n: "n \<le> 65531" and room: "\<not> nc_ptr nc + int (4 + n + pad4 n) \<le> nc_end nc"
  obtains nc' where "nc_put_attr nc key (word_of_nat n) = Some (nc', None)" and "ncover nc'" and "nc_end nc' = nc_end nc"
proof -
  have ret: "0 \<le> nc_ptr nc" "nc_ptr nc \<le> nc_end nc" using r by (auto simp: ncraw_def)
  have sz: "uint ((4 + word_of_nat n + 3 :: u32) AND (NOT 3)) = int (4 + n + pad4 n)" using put_sizes(2)[OF n] by (simp add: uint_nat)
  have "nc_put_attr nc key (word_of_nat n) = Some (nc \<lparr> nc_ptr := nc_end nc + 1 \<rparr>, None)"
    unfolding nc_put_attr_def Let_def sz using ret room by simp
  then show ?thesis using that r by (simp add: ncover_def ncraw_def)
qed

lemma nc_put_attr_sticky: "ncover nc \<Longrightarrow> nc_put_attr nc key n = Some (nc, None)"
  by (simp add: nc_put_attr_def ncover_def)

text \<open>All the functions that put an attribute with a payload.\<close>

lemma put_writer:
  assumes "length pl \<le> 65531" and "\<And>nc. put nc = nc_put_attr nc key (word_of_nat (length pl)) \<bind> (\<lambda>r. nc_fill r (Some pl))"
  shows "nc_writer put (enc_attr key pl)"
proof
  fix nc h b assume r: "ncraw nc h b" and "nc_room nc (enc_attr key pl)"
  then have "nc_ptr nc + int (4 + length pl + pad4 (length pl)) \<le> nc_end nc" by (simp add: nc_room_def enc_attr_length)
  then obtain nc1 u where 1: "nc_put_attr nc key (word_of_nat (length pl)) = Some (nc1, Some (length h + length b + 4))"
    "ncraw nc1 h (b @ w16 (int (length pl) + 4) @ w16 key @ u @ replicate (pad4 (length pl)) 0)" "length u = length pl" "nc_end nc1 = nc_end nc"
    by (rule nc_put_attr_fits[OF r assms(1)])
  have "ncraw nc1 h ((b @ w16 (int (length pl) + 4) @ w16 key) @ u @ replicate (pad4 (length pl)) 0)" "length pl = length u"
    "length h + length b + 4 = length h + length (b @ w16 (int (length pl) + 4) @ w16 key)" using 1(2,3) by simp_all
  then obtain m where "wrs (nc_mem nc1) (length h + length b + 4) pl = Some m"
    "ncraw (nc1 \<lparr> nc_mem := m \<rparr>) h ((b @ w16 (int (length pl) + 4) @ w16 key) @ pl @ replicate (pad4 (length pl)) 0)"
    by (rule ncraw_wrs)
  then show "\<exists>nc'. put nc = Some nc' \<and> ncraw nc' h (b @ enc_attr key pl) \<and> nc_end nc' = nc_end nc"
    using 1(1,4) by (simp add: assms(2) nc_fill_def enc_attr_def)
next
  fix nc h b assume r: "ncraw nc h b" and "\<not> nc_room nc (enc_attr key pl)"
  then have "\<not> nc_ptr nc + int (4 + length pl + pad4 (length pl)) \<le> nc_end nc" by (simp add: nc_room_def enc_attr_length)
  then obtain nc1 where "nc_put_attr nc key (word_of_nat (length pl)) = Some (nc1, None)" "ncover nc1" "nc_end nc1 = nc_end nc"
    by (rule nc_put_attr_over[OF r assms(1)])
  then show "\<exists>nc'. put nc = Some nc' \<and> ncover nc' \<and> nc_end nc' = nc_end nc" by (simp add: assms(2) nc_fill_def)
qed (simp add: assms(2) nc_put_attr_sticky nc_fill_def)

interpretation nc_put_int: nc_writer "\<lambda>nc. nc_put_int nc key v" "enc_attr key (le_bytes 4 v)" for key v
  unfolding nc_put_int_def by (rule put_writer) simp_all

interpretation nc_put_byte: nc_writer "\<lambda>nc. nc_put_byte nc key v" "enc_attr key [v]" for key v
  unfolding nc_put_byte_def by (rule put_writer) simp_all

lemma nc_put_attr_inside:
  assumes "nc_put_attr nc key len = Some (nc', Some dst)"
  shows "dst \<le> length (nc_mem nc')"
proof -
  obtain m0 m1 m2 where m: "set_key m0 (nat (nc_ptr nc)) key = Some m1" "set_len m1 (nat (nc_ptr nc)) (uint (4 + len)) = Some m2"
    "nc_mem nc' = m2" "dst = nat (nc_ptr nc) + 4"
    using assms by (auto simp: nc_put_attr_def Let_def split: if_splits bind_splits)
  have "nat (nc_ptr nc) + 4 \<le> length m0" "length m1 = length m0" "length m2 = length m1"
    using m(1,2) wrs_length[of m0 _ _ m1] wrs_length[of m1 _ _ m2] by (auto simp: set_key_def set_len_def wr16_def wrs_def split: if_splits)
  then show ?thesis using m(3,4) by simp
qed

interpretation nc_put_flag: nc_writer "\<lambda>nc. nc_put_flag nc key" "enc_attr key []" for key
proof (rule put_writer)
  show "nc_put_flag nc key = nc_put_attr nc key (word_of_nat (length ([] :: byte list))) \<bind> (\<lambda>r. nc_fill r (Some []))" for nc
  proof (cases "nc_put_attr nc key 0")
    case (Some r)
    then show ?thesis using nc_put_attr_inside[of nc key 0 "fst r"] by (cases r; cases "snd r") (auto simp: nc_put_flag_def nc_fill_def)
  qed (simp add: nc_put_flag_def)
qed simp

lemma nc_put_writer:
  assumes "data = pl @ x" and "length pl \<le> 65531" and "n = word_of_nat (length pl)"
  shows "nc_writer (\<lambda>nc. nc_put nc key data n) (enc_attr key pl)"
proof (rule put_writer[OF assms(2)])
  have "unat n = length pl" using assms(2,3) by (simp add: unsigned_of_nat take_bit_nat_eq_self)
  then show "nc_put nc key data n = nc_put_attr nc key (word_of_nat (length pl)) \<bind> (\<lambda>r. nc_fill r (Some pl))" for nc
    using rds_append[of "[]" 0 pl "length pl" x] assms(1,3) by (simp add: nc_put_def)
qed

text \<open>A string goes with its terminator, if it is shorter than the limit.\<close>

lemma nc_put_str_writer:
  assumes "0 \<notin> set t" and "length t < 1024"
  shows "nc_writer (\<lambda>nc. nc_put_str nc key (t @ 0 # x)) (enc_attr key (t @ [0]))"
proof (rule put_writer)
  show "nc_put_str nc key (t @ 0 # x) = nc_put_attr nc key (word_of_nat (length (t @ [0]))) \<bind> (\<lambda>r. nc_fill r (Some (t @ [0])))" for nc
    using rds_append[of "[]" 0 "t @ [0]" "Suc (length t)" x] assms by (simp add: nc_put_str_def strnlen_text Let_def)
qed (use assms in simp)

section \<open>Nests\<close>

definition nc_nest :: "int \<Rightarrow> (ncbuf \<Rightarrow> ncbuf option) \<Rightarrow> ncbuf \<Rightarrow> ncbuf option" where
  "nc_nest key f nc = do { (nc, at) \<leftarrow> nc_put_nest nc key; nc \<leftarrow> f nc; nc_end_nest nc at }"

lemma nc_put_nest_fits:
  assumes r: "ncraw nc h b" and room: "nc_ptr nc + 4 \<le> nc_end nc"
  obtains nc' l where "nc_put_nest nc key = Some (nc', Some (length h + length b))" and "ncraw nc' h (b @ l @ w16 key)"
    and "length l = 2" and "nc_end nc' = nc_end nc"
proof -
  let ?ret = "length h + length b" and ?nc = "nc \<lparr> nc_ptr := nc_ptr nc + int 4 \<rparr>"
  have ret: "nc_ptr nc = int ?ret" "16 \<le> ?ret" "int ?ret \<le> nc_end nc" using r by (auto simp: ncraw_def)
  obtain t where t: "ncraw ?nc h (b @ t)" "length t = 4" by (rule ncraw_grow[OF r, of 4]) (use room in simp)
  have "2 \<le> length t" using t(2) by simp
  then obtain l k where l: "t = l @ k" "length l = 2" "length k = length t - 2" by (rule split_at)
  have "length k = 2" using l(3) t(2) by simp
  then have "ncraw ?nc h ((b @ l) @ k @ [])" "length (w16 key) = length k" "?ret + 2 = length h + length (b @ l)" using t(1) l(1,2) by simp_all
  then obtain m where m: "wrs (nc_mem ?nc) (?ret + 2) (w16 key) = Some m" "ncraw (?nc \<lparr> nc_mem := m \<rparr>) h ((b @ l) @ w16 key @ [])"
    by (rule ncraw_wrs)
  have g: "\<not> (int ?ret > nc_end nc \<or> int ?ret < 0)" "\<not> (int ?ret + 4 > nc_end nc \<or> int ?ret + 4 < 0)" "\<not> int ?ret + 4 < 16"
    using ret room by linarith+
  have sk: "set_key (nc_mem nc) ?ret key = Some m" using m(1) by (simp add: set_key_def wr16_def w16_def)
  have "nc_put_nest nc key = Some (nc \<lparr> nc_mem := m, nc_ptr := int ?ret + 4 \<rparr>, Some ?ret)"
    unfolding nc_put_nest_def Let_def ret(1) nat_int if_not_P[OF g(1)] if_not_P[OF g(2)] if_not_P[OF g(3)] sk bind.simps ..
  then have "nc_put_nest nc key = Some (?nc \<lparr> nc_mem := m \<rparr>, Some ?ret)" unfolding nc_swap ret(1) by simp
  moreover have "nc_end (?nc \<lparr> nc_mem := m \<rparr>) = nc_end nc" by simp
  moreover have "ncraw (?nc \<lparr> nc_mem := m \<rparr>) h (b @ l @ w16 key)" using m(2) by simp
  ultimately show ?thesis using that l(2) by blast
qed

lemma nc_end_nest_fits:
  assumes r: "ncraw nc h (b @ l @ w16 key @ e)" and "length l = 2"
  obtains nc' where "nc_end_nest nc (Some (length h + length b)) = Some nc'" and "ncraw nc' h (b @ enc_nest key e)" and "nc_end nc' = nc_end nc"
proof -
  let ?at = "length h + length b"
  have p: "nc_ptr nc = int ?at + (int (length e) + 4)" using r assms(2) by (simp add: ncraw_def)
  obtain m where m: "wrs (nc_mem nc) ?at (w16 (int (length e) + 4)) = Some m"
    "ncraw (nc \<lparr> nc_mem := m \<rparr>) h (b @ w16 (int (length e) + 4) @ w16 key @ e)"
    by (rule ncraw_wrs[OF r, of "w16 (int (length e) + 4)"]) (use assms(2) in auto)
  have "nc_end_nest nc (Some ?at) = Some (nc \<lparr> nc_mem := m \<rparr>)"
    using m(1) unfolding nc_end_nest_def p by (simp add: set_len_def wr16_def w16_def)
  then show ?thesis using that m(2) by (simp add: enc_nest_def)
qed

lemma nc_end_nest_over:
  assumes "ncover nc" and "int at + 4 \<le> nc_end nc"
  obtains nc' where "nc_end_nest nc (Some at) = Some nc'" and "ncover nc'" and "nc_end nc' = nc_end nc"
proof -
  have "at + length (w16 (nc_ptr nc - int at)) \<le> length (nc_mem nc)" using assms by (simp add: ncover_def)
  then obtain m where m: "wrs (nc_mem nc) at (w16 (nc_ptr nc - int at)) = Some m" "length m = length (nc_mem nc)"
    using wrs_fits by blast
  have "nc_end_nest nc (Some at) = Some (nc \<lparr> nc_mem := m \<rparr>)"
    using m(1) assms unfolding nc_end_nest_def by (simp add: ncover_def set_len_def wr16_def w16_def)
  then show ?thesis using that m(2) assms(1) by (simp add: ncover_def)
qed

lemma nc_nest_writer:
  assumes "nc_writer f e"
  shows "nc_writer (nc_nest key f) (enc_nest key e)"
proof
  fix nc h b assume r: "ncraw nc h b" and fit: "nc_room nc (enc_nest key e)"
  then have "nc_ptr nc + 4 \<le> nc_end nc" by (simp add: nc_room_def enc_nest_def)
  then obtain nc1 l where 1: "nc_put_nest nc key = Some (nc1, Some (length h + length b))" "ncraw nc1 h (b @ l @ w16 key)"
    "length l = 2" "nc_end nc1 = nc_end nc" by (rule nc_put_nest_fits[OF r])
  have "nc_room nc1 e" using fit r 1(2-4) by (auto simp: nc_room_def enc_nest_def ncraw_def)
  then obtain nc2 where 2: "f nc1 = Some nc2" "ncraw nc2 h (b @ l @ w16 key @ e)" "nc_end nc2 = nc_end nc1"
    using nc_writer.fits[OF assms 1(2)] by auto
  obtain nc3 where "nc_end_nest nc2 (Some (length h + length b)) = Some nc3" "ncraw nc3 h (b @ enc_nest key e)" "nc_end nc3 = nc_end nc2"
    by (rule nc_end_nest_fits[OF 2(2) 1(3)])
  then show "\<exists>nc'. nc_nest key f nc = Some nc' \<and> ncraw nc' h (b @ enc_nest key e) \<and> nc_end nc' = nc_end nc"
    using 1 2 by (simp add: nc_nest_def)
next
  fix nc h b assume r: "ncraw nc h b" and nofit: "\<not> nc_room nc (enc_nest key e)"
  show "\<exists>nc'. nc_nest key f nc = Some nc' \<and> ncover nc' \<and> nc_end nc' = nc_end nc"
  proof (cases "nc_ptr nc + 4 \<le> nc_end nc")
    case True
    then obtain nc1 l where 1: "nc_put_nest nc key = Some (nc1, Some (length h + length b))" "ncraw nc1 h (b @ l @ w16 key)"
      "length l = 2" "nc_end nc1 = nc_end nc" by (rule nc_put_nest_fits[OF r])
    have "\<not> nc_room nc1 e" using nofit r 1(2-4) by (auto simp: nc_room_def enc_nest_def ncraw_def)
    then obtain nc2 where 2: "f nc1 = Some nc2" "ncover nc2" "nc_end nc2 = nc_end nc1" using nc_writer.over[OF assms 1(2)] by auto
    have "int (length h + length b) + 4 \<le> nc_end nc2" using True r 1(4) 2(3) by (simp add: ncraw_def)
    from nc_end_nest_over[OF 2(2) this] obtain nc3 where "nc_end_nest nc2 (Some (length h + length b)) = Some nc3" "ncover nc3" "nc_end nc3 = nc_end nc2"
      by blast
    then show ?thesis using 1 2 by (simp add: nc_nest_def)
  next
    case False
    have "nc_put_nest nc key = Some (nc \<lparr> nc_ptr := nc_end nc + 1 \<rparr>, None)"
      using False r unfolding nc_put_nest_def Let_def by (simp add: ncraw_def)
    moreover have "ncover (nc \<lparr> nc_ptr := nc_end nc + 1 \<rparr>)" using r by (simp add: ncover_def ncraw_def)
    ultimately show ?thesis using nc_writer.sticky[OF assms] by (simp add: nc_nest_def nc_end_nest_def)
  qed
next
  fix nc assume "ncover nc"
  then show "nc_nest key f nc = Some nc"
    using nc_writer.sticky[OF assms] by (simp add: nc_nest_def nc_put_nest_def nc_end_nest_def ncover_def)
qed

end
