(* ===== verification/Netlink_Props.thy ===== *)
theory Netlink_Props
  imports Netlink_Msg
begin

text \<open>
  Whole requests: the header, sending, and lookup in a message made of attributes; then the properties
  of the netlink library.
\<close>

section \<open>Headers\<close>

definition genl_tail :: "int \<Rightarrow> int \<Rightarrow> int \<Rightarrow> int \<Rightarrow> int \<Rightarrow> byte list" where
  "genl_tail typ flags seq cmd ver = w16 typ @ w16 (1 OR flags) @ le_bytes 4 (word_of_int seq :: u32) @ replicate 4 0 @
     [word_of_int cmd, word_of_int ver, 0, 0]"

definition genl_msg :: "int \<Rightarrow> int \<Rightarrow> int \<Rightarrow> int \<Rightarrow> int \<Rightarrow> byte list \<Rightarrow> byte list" where
  "genl_msg typ flags seq cmd ver b = le_bytes 4 (word_of_nat (20 + length b) :: u32) @ genl_tail typ flags seq cmd ver @ b"

definition genl_start :: "int \<Rightarrow> int \<Rightarrow> int \<Rightarrow> int \<Rightarrow> int \<Rightarrow> ncbuf \<Rightarrow> ncbuf option" where
  "genl_start typ flags seq cmd ver nc = do { nc \<leftarrow> nc_header nc typ flags seq; nc_gencmd nc cmd ver }"

lemma length_genl_tail [simp]: "length (genl_tail typ flags seq cmd ver) = 16"
  by (simp add: genl_tail_def)

lemma length_genl_msg [simp]: "length (genl_msg typ flags seq cmd ver b) = 20 + length b"
  by (simp add: genl_msg_def)

lemma splits: "sum_list ns \<le> length r \<Longrightarrow> \<exists>ps t. r = concat ps @ t \<and> map length ps = ns"
proof (induction ns arbitrary: r)
  case (Cons n ns)
  then have "sum_list ns \<le> length (drop n r)" by simp
  from Cons.IH[OF this] obtain ps t where "drop n r = concat ps @ t" "map length ps = ns" by blast
  then have "r = concat (take n r # ps) @ t" "map length (take n r # ps) = n # ns" using Cons.prems append_take_drop_id[of n r] by auto
  then show ?case by (intro exI conjI)
qed simp

lemma genl_start_fits:
  assumes "20 \<le> nc_end nc" and "nc_end nc \<le> int (length (nc_mem nc))"
  obtains nc' x where "genl_start typ flags seq cmd ver nc = Some nc'" and "ncraw nc' (x @ genl_tail typ flags seq cmd ver) []"
    and "length x = 4" and "nc_end nc' = nc_end nc"
proof -
  have "sum_list [4, 2, 2, 4, 4, 4] \<le> length (nc_mem nc)" using assms by simp
  then obtain x a b c d f r where m: "nc_mem nc = x @ a @ b @ c @ d @ f @ r" and
    l: "length x = 4" "length a = 2" "length b = 2" "length c = 4" "length d = 4" "length f = 4"
    using splits[of "[4, 2, 2, 4, 4, 4]" "nc_mem nc"] by (auto simp: map_eq_Cons_conv)
  let ?T = "w16 typ" and ?F = "w16 (1 OR flags)" and ?S = "le_bytes 4 (word_of_int seq :: u32)" and ?Z = "replicate 4 (0 :: byte)"
  let ?C = "word_of_int cmd :: byte" and ?V = "word_of_int ver :: byte"
  have 1: "wr16 (x @ a @ b @ c @ d @ f @ r) 4 (word_of_int typ) = Some (x @ ?T @ b @ c @ d @ f @ r)"
    using wrs_append[of x 4 a ?T "b @ c @ d @ f @ r"] l by (simp add: wr16_def w16_def)
  have 2: "wr16 (x @ ?T @ b @ c @ d @ f @ r) 6 (word_of_int (1 OR flags)) = Some (x @ ?T @ ?F @ c @ d @ f @ r)"
    using wrs_append[of "x @ ?T" 6 b ?F "c @ d @ f @ r"] l by (simp add: wr16_def w16_def)
  have 3: "wr32 (x @ ?T @ ?F @ c @ d @ f @ r) 8 (word_of_int seq) = Some (x @ ?T @ ?F @ ?S @ d @ f @ r)"
    using wrs_append[of "x @ ?T @ ?F" 8 c ?S "d @ f @ r"] l by (simp add: wr32_def)
  have 4: "wr32 (x @ ?T @ ?F @ ?S @ d @ f @ r) 12 0 = Some (x @ ?T @ ?F @ ?S @ ?Z @ f @ r)"
    using wrs_append[of "x @ ?T @ ?F @ ?S" 12 d ?Z "f @ r"] l by (simp add: wr32_def le_zero)
  have 5: "wrs (x @ ?T @ ?F @ ?S @ ?Z @ f @ r) 16 ?Z = Some (x @ ?T @ ?F @ ?S @ ?Z @ ?Z @ r)"
    using wrs_append[of "x @ ?T @ ?F @ ?S @ ?Z" 16 f ?Z r] l by simp
  have z4: "?Z = [0, 0, 0, 0]" by (simp add: numeral_eq_Suc)
  have 6: "wr (x @ ?T @ ?F @ ?S @ ?Z @ ?Z @ r) 16 ?C = Some (x @ ?T @ ?F @ ?S @ ?Z @ [?C, 0, 0, 0] @ r)"
    using wrs_append[of "x @ ?T @ ?F @ ?S @ ?Z" 16 "[0]" "[?C]" "[0, 0, 0] @ r"] l unfolding wr_wrs by (simp add: z4)
  have 7: "wr (x @ ?T @ ?F @ ?S @ ?Z @ [?C, 0, 0, 0] @ r) 17 ?V = Some (x @ ?T @ ?F @ ?S @ ?Z @ [?C, ?V, 0, 0] @ r)"
    using wrs_append[of "x @ ?T @ ?F @ ?S @ ?Z @ [?C]" 17 "[0]" "[?V]" "[0, 0] @ r"] l unfolding wr_wrs by simp
  let ?nc = "nc \<lparr> nc_mem := x @ ?T @ ?F @ ?S @ ?Z @ [?C, ?V, 0, 0] @ r, nc_ptr := 20 \<rparr>"
  have "nc_header nc typ flags seq = Some (nc \<lparr> nc_mem := x @ ?T @ ?F @ ?S @ ?Z @ f @ r, nc_ptr := 16 \<rparr>)"
    unfolding nc_header_def m 1 2 3 4 bind.simps using assms(1) by simp
  moreover have "nc_gencmd (nc \<lparr> nc_mem := x @ ?T @ ?F @ ?S @ ?Z @ f @ r, nc_ptr := 16 \<rparr>) cmd ver = Some ?nc"
    using assms(1) 5 6 7 by (simp add: nc_gencmd_def nc_fixed_def Let_def)
  ultimately have "genl_start typ flags seq cmd ver nc = Some ?nc" by (simp add: genl_start_def)
  moreover have "ncraw ?nc (x @ genl_tail typ flags seq cmd ver) []"
    using assms m l by (auto simp: ncraw_def genl_tail_def)
  ultimately show ?thesis using that l(1) by simp
qed

lemma wr16_fits: "p + 2 \<le> length m \<Longrightarrow> \<exists>m'. wr16 m p v = Some m' \<and> length m' = length m"
  unfolding wr16_def by (rule wrs_fits) simp

lemma wr32_fits: "p + 4 \<le> length m \<Longrightarrow> \<exists>m'. wr32 m p v = Some m' \<and> length m' = length m"
  unfolding wr32_def by (rule wrs_fits) simp

lemma genl_start_over:
  assumes "nc_end nc < 20" and "nc_end nc \<le> int (length (nc_mem nc))"
  obtains nc' where "genl_start typ flags seq cmd ver nc = Some nc'" and "ncover nc'" and "nc_end nc' = nc_end nc"
proof (cases "nc_end nc < 16")
  case True
  then have "genl_start typ flags seq cmd ver nc = Some (nc \<lparr> nc_ptr := nc_end nc + 1 \<rparr>)"
    by (simp add: genl_start_def nc_header_def nc_gencmd_def nc_fixed_def Let_def)
  then show ?thesis using that assms(2) by (simp add: ncover_def)
next
  case False
  then have l: "16 \<le> length (nc_mem nc)" using assms(2) by simp
  obtain m1 where m1: "wr16 (nc_mem nc) 4 (word_of_int typ) = Some m1" "length m1 = length (nc_mem nc)" using wr16_fits[of 4 "nc_mem nc"] l by auto
  obtain m2 where m2: "wr16 m1 6 (word_of_int (1 OR flags)) = Some m2" "length m2 = length (nc_mem nc)" using wr16_fits[of 6 m1] l m1(2) by auto
  obtain m3 where m3: "wr32 m2 8 (word_of_int seq) = Some m3" "length m3 = length (nc_mem nc)" using wr32_fits[of 8 m2] l m2(2) by auto
  obtain m4 where m4: "wr32 m3 12 0 = Some m4" "length m4 = length (nc_mem nc)" using wr32_fits[of 12 m3] l m3(2) by auto
  note m = m1(1) m2(1) m3(1) m4
  then have "genl_start typ flags seq cmd ver nc = Some (nc \<lparr> nc_mem := m4, nc_ptr := nc_end nc + 1 \<rparr>)"
    using False assms(1) by (simp add: genl_start_def nc_header_def nc_gencmd_def nc_fixed_def Let_def)
  then show ?thesis using that assms(2) m(5) by (simp add: ncover_def)
qed

section \<open>Sending\<close>

lemma nc_send_fits:
  assumes r: "ncraw nc (x @ genl_tail typ flags seq cmd ver) b" and "length x = 4"
  obtains nc' where "nc_send sys fd nc w = (case sys_send sys fd (genl_msg typ flags seq cmd ver b) w of (ret, w) \<Rightarrow> Some (ret, nc', w))"
    and "nc_end nc' = nc_end nc" and "length (nc_mem nc') = length (nc_mem nc)"
proof -
  let ?t = "genl_tail typ flags seq cmd ver" and ?L = "le_bytes 4 (word_of_nat (20 + length b) :: u32)"
  obtain rest where m: "nc_mem nc = x @ ?t @ b @ rest" using r by (auto simp: ncraw_def)
  have p: "nc_ptr nc = int (20 + length b)" "nc_ptr nc \<le> nc_end nc" using r assms(2) by (auto simp: ncraw_def)
  have 1: "wr32 (nc_mem nc) 0 (word_of_int (int (20 + length b))) = Some (?L @ ?t @ b @ rest)"
    using wrs_append[of "[]" 0 x ?L "?t @ b @ rest"] assms(2) unfolding m by (simp add: wr32_def)
  have 2: "rds (?L @ ?t @ b @ rest) 0 (20 + length b) = Some (genl_msg typ flags seq cmd ver b)"
    using rds_append[of "[]" 0 "?L @ ?t @ b" "20 + length b" rest] by (simp add: genl_msg_def)
  have g: "\<not> (int (20 + length b) > nc_end nc \<or> int (20 + length b) < 0)" "\<not> 16 > int (20 + length b)" using p by auto
  have "nc_send sys fd nc w = (case sys_send sys fd (genl_msg typ flags seq cmd ver b) w of (ret, w) \<Rightarrow> Some (ret, nc \<lparr> nc_mem := ?L @ ?t @ b @ rest \<rparr>, w))"
    unfolding nc_send_def Let_def p(1) if_not_P[OF g(1)] if_not_P[OF g(2)] 1 nat_int 2 bind.simps ..
  then show ?thesis by (rule that) (use m assms(2) in simp_all)
qed

lemma nc_send_over: "ncover nc \<Longrightarrow> nc_send sys fd nc w = Some (- ENOBUFS, nc, w)"
  by (simp add: nc_send_def ncover_def)

section \<open>Lookup\<close>

lemma extend_4: "extend_to_4bytes (int n) = int (n + pad4 n)"
proof -
  have a: "(x :: int) AND 3 = x mod 4" for x using take_bit_eq_mask[of 2 x] by (simp add: take_bit_eq_mod mask_eq_exp_minus_1)
  have "n mod 4 = 0 \<or> n mod 4 = 1 \<or> n mod 4 = 2 \<or> n mod 4 = 3" by arith
  then have "(4 - int n mod 4) mod 4 = int (pad4 n)" unfolding pad4_def by (elim disjE) (simp_all add: zmod_int[symmetric, of n 4, simplified])
  then show ?thesis unfolding extend_to_4bytes_def a by simp
qed

lemma pad4_plus_4: "pad4 (n + 4) = pad4 n"
  by (simp add: pad4_def)

text \<open>A run of attributes \<open>as\<close> at \<open>pre\<close>.\<close>

lemma attr_0_body:
  assumes "m = pre @ body as @ rest" and "length (body as) \<le> 65535" and "keys_ok as" and "\<forall>(k, pl) \<in> set as. length pl \<le> 65531"
  shows "nl_attr_0_in m (length pre) (length (body as)) = Some (if as = [] then None else Some (length pre))"
proof (cases as)
  case (Cons a as')
  obtain k pl where a: "a = (k, pl)" by (cases a)
  have "at_len m (length pre) = Some (int (length pl) + 4)"
    using assms Cons a by (intro attr_here(1)[of _ _ k _ "body as' @ rest"]) (auto simp: keys_ok_def)
  then show ?thesis using Cons a by (simp add: nl_attr_0_in_def enc_attr_length)
qed (simp add: nl_attr_0_in_def)

lemma attr_k_body:
  assumes "m = hdr @ pre @ body as @ rest" and "keys_ok as" and "\<forall>(k, pl) \<in> set as. length pl \<le> 65531"
    and "len = length pre + length (body as)" and "buf = length hdr"
  shows "nl_attr_k_from m buf len key (if as = [] then None else Some (buf + length pre)) =
    Some (map_option (\<lambda>n. buf + length pre + n) (attr_off as key))"
  using assms
proof (induction as arbitrary: pre)
  case Nil
  then show ?case by (simp add: nl_attr_k_from.simps)
next
  case (Cons a as)
  obtain k pl where a: "a = (k, pl)" by (cases a)
  have k: "0 \<le> k" "k \<le> 65535" "keys_ok as" "length pl \<le> 65531" "\<forall>(k, pl) \<in> set as. length pl \<le> 65531"
    using Cons.prems(2,3) a by (auto simp: keys_ok_def)
  let ?p = "hdr @ pre" and ?at = "buf + length pre" and ?pre = "pre @ enc_attr k pl"
  have at: "?at = length ?p" using Cons.prems(5) by simp
  have m: "m = ?p @ enc_attr k pl @ body as @ rest" using Cons.prems(1) a by simp
  note here = attr_here[OF m k(4,1,2), folded at]
  have len: "len = length pre + (4 + length pl + pad4 (length pl)) + length (body as)" using Cons.prems(4) a by (simp add: enc_attr_length)
  have "int (length pl) + 4 = int (length pl + 4)" by simp
  then have "extend_to_4bytes (int (length pl) + 4) = int (length pl + 4 + pad4 (length pl))"
    using extend_4[of "length pl + 4"] by (simp only: pad4_plus_4)
  then have nx: "?at + nat (extend_to_4bytes (int (length pl) + 4)) = buf + length ?pre" by (simp add: enc_attr_length)
  have fits: "buf + len \<le> length m" using m len Cons.prems(5) by (simp add: enc_attr_length)
  have in1: "ptr_in_buf m buf len (Some ?at) = Some True" using fits len by (simp add: ptr_in_buf_def)
  have in2: "ptr_in_buf m buf len (Some (buf + length ?pre)) = Some (as \<noteq> [])"
  proof (cases as)
    case Nil
    then show ?thesis using fits len by (simp add: ptr_in_buf_def enc_attr_length)
  next
    case (Cons b bs)
    then have "0 < length (body as)" by (cases b) (simp add: enc_attr_length)
    then show ?thesis using fits len Cons by (simp add: ptr_in_buf_def enc_attr_length)
  qed
  have n: "nl_attr_n_in m buf len (Some ?at) = Some (if as = [] then None else Some (buf + length ?pre))"
    using in1 in2 here(1) nx by (simp add: nl_attr_n_in_def Let_def add.assoc)
  have "nl_attr_k_from m buf len key (if as = [] then None else Some (buf + length ?pre)) = Some (map_option (\<lambda>n. buf + length ?pre + n) (attr_off as key))"
    by (rule Cons.IH) (use Cons.prems k a in auto)
  then show ?case using here(2) n a
    by (subst nl_attr_k_from.simps) (auto simp: option.map_comp comp_def add.assoc)
qed

definition attrs_ok :: "(int \<times> byte list) list \<Rightarrow> bool" where
  "attrs_ok as \<longleftrightarrow> keys_ok as \<and> (\<forall>(k, pl) \<in> set as. length pl \<le> 65531) \<and> length (body as) < 2 ^ 31 - 20"

lemma unat_word32: "n < 4294967296 \<Longrightarrow> unat (word_of_nat n :: u32) = n"
  by (simp add: unsigned_of_nat take_bit_nat_eq_self)

lemma genl_msg_len:
  assumes "m = pre @ genl_msg typ flags seq cmd ver b @ rest" and "length b < 2 ^ 31 - 20"
  shows "rd32 m (length pre) = Some (word_of_nat (20 + length b))" and "unat (word_of_nat (20 + length b) :: u32) = 20 + length b"
proof -
  show "rd32 m (length pre) = Some (word_of_nat (20 + length b))"
    using rds_append[of pre "length pre" "le_bytes 4 (word_of_nat (20 + length b) :: u32)" 4 "genl_tail typ flags seq cmd ver @ b @ rest"] assms(1)
    by (simp add: rd32_def genl_msg_def)
  show "unat (word_of_nat (20 + length b) :: u32) = 20 + length b" by (rule unat_word32) (use assms(2) in simp)
qed

lemma nl_get_body:
  assumes "m = pre @ genl_msg typ flags seq cmd ver (body as) @ rest" and "attrs_ok as"
  shows "nl_get m (length pre) key = Some (map_option (\<lambda>n. length pre + 20 + n) (attr_off as key))"
proof -
  note l = genl_msg_len[OF assms(1)]
  have ok: "keys_ok as" "\<forall>(k, pl) \<in> set as. length pl \<le> 65531" "length (body as) < 2 ^ 31 - 20" using assms(2) by (auto simp: attrs_ok_def)
  let ?h = "pre @ le_bytes 4 (word_of_nat (20 + length (body as)) :: u32) @ genl_tail typ flags seq cmd ver"
  have m: "m = ?h @ body as @ rest" and h: "length ?h = length pre + 20" using assms(1) by (auto simp: genl_msg_def)
  define w where "w = (word_of_nat (20 + length (body as)) :: u32)"
  have w: "rd32 m (length pre) = Some w" "uint w = 20 + int (length (body as))"
    using l[OF ok(3)] uint_nat[of w] unfolding w_def by simp_all
  have pl: "nl_paylen_of m (length pre) = Some (length (body as))" using w ok(3) by (simp add: nl_paylen_of_def)
  show ?thesis
  proof (cases as)
    case Nil
    then show ?thesis using pl by (simp add: nl_get_def nl_attr_k_in_def nl_attr_0_in_def nl_attr_k_from.simps)
  next
    case (Cons a as')
    obtain k v where a: "a = (k, v)" by (cases a)
    have "at_len m (length ?h) = Some (int (length v) + 4)"
      using m ok Cons a by (intro attr_here(1)[of _ _ k _ "body as' @ rest"]) (auto simp: keys_ok_def)
    then have 0: "nl_attr_0_in m (length pre + 20) (length (body as)) = Some (Some (length pre + 20))"
      unfolding h using Cons a by (simp add: nl_attr_0_in_def enc_attr_length)
    have "nl_attr_k_from m (length pre + 20) (length (body as)) key (if as = [] then None else Some (length pre + 20 + length ([] :: byte list))) =
        Some (map_option (\<lambda>n. length pre + 20 + length ([] :: byte list) + n) (attr_off as key))"
      by (rule attr_k_body[where hdr = ?h and rest = rest]) (use m ok h in auto)
    then show ?thesis using pl 0 Cons by (simp add: nl_get_def nl_attr_k_in_def)
  qed
qed

lemma nl_get_payload:
  assumes m: "m = pre @ genl_msg typ flags seq cmd ver (body as) @ rest" and ok: "attrs_ok as" and "map_of as key = Some pl"
  obtains p where "nl_get_of_len m (length pre) key (length pl) = Some (Some p)" and "rds m p (length pl) = Some pl"
proof -
  obtain n where n: "attr_off as key = Some n" using assms(3) attr_off_None[of as key] by auto
  obtain as1 pl' as2 where as: "as = as1 @ (key, pl') # as2" "n = length (body as1)" and "map_of as key = Some pl'"
    using n by (rule attr_off_split)
  then have pl': "pl' = pl" using assms(3) by simp
  let ?h = "pre @ le_bytes 4 (word_of_nat (20 + length (body as)) :: u32) @ genl_tail typ flags seq cmd ver @ body as1"
  have m': "m = ?h @ enc_attr key pl @ body as2 @ rest" using m as(1) pl' by (simp add: genl_msg_def)
  have h: "length ?h = length pre + 20 + n" using as(2) by simp
  have k: "length pl \<le> 65531" "0 \<le> key" "key \<le> 65535" using ok as(1) pl' by (auto simp: attrs_ok_def keys_ok_def)
  note here = attr_here[OF m' k, unfolded h]
  have "nl_get_of_len m (length pre) key (length pl) = Some (Some (length pre + 20 + n + 4))"
    using nl_get_body[OF m ok, of key] n here(1) by (simp add: nl_get_of_len_def of_len_def)
  then show ?thesis using that here(3) by simp
qed

section \<open>Properties\<close>

text \<open>A request with the given attributes.\<close>

fun nc_put_all :: "(int \<times> byte list) list \<Rightarrow> ncbuf \<Rightarrow> ncbuf option" where
  "nc_put_all [] nc = Some nc"
| "nc_put_all ((k, pl) # as) nc = nc_put nc k pl (word_of_nat (length pl)) \<bind> nc_put_all as"

lemma nc_put_all_writer: "\<forall>(k, pl) \<in> set as. length pl \<le> 65531 \<Longrightarrow> nc_writer (nc_put_all as) (body as)"
proof (induction as)
  case Nil
  have "nc_writer Some []" by unfold_locales (auto simp: nc_room_def ncraw_def)
  moreover have "nc_put_all [] = Some" by (rule ext) simp
  ultimately show ?case by simp
next
  case (Cons a as)
  obtain k pl where a: "a = (k, pl)" by (cases a)
  have "nc_put_all (a # as) = (\<lambda>nc. nc_put nc k pl (word_of_nat (length pl)) \<bind> nc_put_all as)" by (rule ext) (simp add: a)
  then show ?case using nc_seq_writer[OF nc_put_writer[of pl pl "[]" _ k] Cons.IH] Cons.prems a by simp
qed

definition genl_request :: "'w nlsys \<Rightarrow> int \<Rightarrow> ncbuf \<Rightarrow> int \<Rightarrow> int \<Rightarrow> int \<Rightarrow> int \<Rightarrow> int \<Rightarrow> (int \<times> byte list) list \<Rightarrow> 'w \<Rightarrow> (int \<times> ncbuf \<times> 'w) option" where
  "genl_request sys fd nc typ flags seq cmd ver as w = do {
     nc \<leftarrow> nc_header nc typ flags seq;
     nc \<leftarrow> nc_gencmd nc cmd ver;
     nc \<leftarrow> nc_put_all as nc;
     nc_send sys fd nc w }"

text \<open>Any sequence of writers between the header and the send.\<close>

lemma request_sends:
  assumes "nc_writer f b" and "nc_end nc \<le> int (length (nc_mem nc))" and "int (20 + length b) \<le> nc_end nc"
  obtains nc' where "do { nc \<leftarrow> genl_start typ flags seq cmd ver nc; nc \<leftarrow> f nc; nc_send sys fd nc w } =
    (case sys_send sys fd (genl_msg typ flags seq cmd ver b) w of (ret, w) \<Rightarrow> Some (ret, nc', w))"
    and "nc_end nc' = nc_end nc" and "nc_end nc' \<le> int (length (nc_mem nc'))"
proof -
  obtain nc1 x where 1: "genl_start typ flags seq cmd ver nc = Some nc1" "ncraw nc1 (x @ genl_tail typ flags seq cmd ver) []" "length x = 4" "nc_end nc1 = nc_end nc"
    by (rule genl_start_fits[OF _ assms(2)]) (use assms(3) in auto)
  have "nc_room nc1 b" using 1(2-4) assms(3) by (simp add: nc_room_def ncraw_def)
  then obtain nc2 where 2: "f nc1 = Some nc2" "ncraw nc2 (x @ genl_tail typ flags seq cmd ver) b" "nc_end nc2 = nc_end nc1"
    using nc_writer.fits[OF assms(1) 1(2)] by auto
  obtain nc3 where "nc_send sys fd nc2 w = (case sys_send sys fd (genl_msg typ flags seq cmd ver b) w of (ret, w) \<Rightarrow> Some (ret, nc3, w))"
    "nc_end nc3 = nc_end nc2" "length (nc_mem nc3) = length (nc_mem nc2)"
    by (rule nc_send_fits[OF 2(2) 1(3)])
  then show ?thesis using that[of nc3] 1(1,4) 2 by (simp add: ncraw_def)
qed

lemma request_over:
  assumes "nc_writer f b" and "nc_end nc \<le> int (length (nc_mem nc))" and "int (20 + length b) > nc_end nc"
  obtains nc' where "do { nc \<leftarrow> genl_start typ flags seq cmd ver nc; nc \<leftarrow> f nc; nc_send sys fd nc w } = Some (- ENOBUFS, nc', w)"
proof (cases "20 \<le> nc_end nc")
  case True
  obtain nc1 x where 1: "genl_start typ flags seq cmd ver nc = Some nc1" "ncraw nc1 (x @ genl_tail typ flags seq cmd ver) []" "length x = 4" "nc_end nc1 = nc_end nc"
    by (rule genl_start_fits[OF True assms(2)])
  have "\<not> nc_room nc1 b" using 1(2-4) assms(3) by (simp add: nc_room_def ncraw_def)
  then obtain nc2 where 2: "f nc1 = Some nc2" "ncover nc2" using nc_writer.over[OF assms(1) 1(2)] by auto
  then show ?thesis using that[of nc2] 1(1) nc_send_over[OF 2(2), of sys fd w] by simp
next
  case False
  obtain nc1 where 1: "genl_start typ flags seq cmd ver nc = Some nc1" "ncover nc1"
    by (rule genl_start_over[OF _ assms(2)]) (use False in auto)
  then show ?thesis using that[of nc1] nc_writer.sticky[OF assms(1)] nc_send_over[OF 1(2), of sys fd w] by simp
qed

lemma genl_request_start:
  "genl_request sys fd nc typ flags seq cmd ver as w =
     do { nc \<leftarrow> genl_start typ flags seq cmd ver nc; nc \<leftarrow> nc_put_all as nc; nc_send sys fd nc w }"
  by (cases "nc_header nc typ flags seq") (simp_all add: genl_request_def genl_start_def)

lemma genl_msg_whole: "length b < 2 ^ 31 - 20 \<Longrightarrow> whole_msg (genl_msg typ flags seq cmd ver b)"
  by (simp add: whole_msg_def genl_msg_def)

lemma whole_msg_found:
  assumes "whole_msg bs" and "m = pre @ bs @ rest"
  shows "nl_msg m (length pre) (int (length bs)) = Some (Some (length pre))"
proof -
  have b: "16 \<le> length bs" "length bs < 2147483648" "take 4 bs = le_bytes 4 (word_of_nat (length bs) :: u32)"
    using assms(1) by (auto simp: whole_msg_def)
  have "m = pre @ take 4 bs @ drop 4 bs @ rest" using assms(2) append_take_drop_id[of 4 bs] by (metis append.assoc)
  then have "rds m (length pre) 4 = Some (take 4 bs)" using rds_append[of pre "length pre" "take 4 bs" 4] b(1) by simp
  then have "rd32 m (length pre) = Some (word_of_nat (length bs))" using b(3) by (simp add: rd32_def)
  moreover have "unat (word_of_nat (length bs) :: u32) = length bs" by (rule unat_word32) (use b(2) in simp)
  then have "uint (word_of_nat (length bs) :: u32) = int (length bs)" by (metis uint_nat)
  ultimately show ?thesis using b(1,2) by (simp add: nl_msg_def)
qed

text \<open>
  C25.  A request built with \<open>nc_header\<close>, \<open>nc_gencmd\<close> and any sequence of \<open>nc_put\<close> that fits the buffer is sent as
  one whole message, and whoever receives it finds each attribute by its key with its payload, and no
  other.
\<close>

theorem nl_message_roundtrip:
  assumes "attrs_ok as" and "nc_end nc \<le> int (length (nc_mem nc))" and "int (20 + length (body as)) \<le> nc_end nc"
  shows "\<exists>bs nc'. genl_request sys fd nc typ flags seq cmd ver as w = (case sys_send sys fd bs w of (ret, w) \<Rightarrow> Some (ret, nc', w)) \<and>
    whole_msg bs \<and> (\<forall>m pre rest. m = pre @ bs @ rest \<longrightarrow> nl_msg m (length pre) (int (length bs)) = Some (Some (length pre)) \<and>
      (\<forall>key pl. map_of as key = Some pl \<longrightarrow>
         (\<exists>p. nl_get_of_len m (length pre) key (length pl) = Some (Some p) \<and> rds m p (length pl) = Some pl)) \<and>
      (\<forall>key. map_of as key = None \<longrightarrow> nl_get m (length pre) key = Some None))"
proof -
  let ?bs = "genl_msg typ flags seq cmd ver (body as)"
  have a: "\<forall>(k, pl) \<in> set as. length pl \<le> 65531" "length (body as) < 2 ^ 31 - 20" using assms(1) by (auto simp: attrs_ok_def)
  obtain nc' where n: "genl_request sys fd nc typ flags seq cmd ver as w = (case sys_send sys fd ?bs w of (ret, w) \<Rightarrow> Some (ret, nc', w))"
    unfolding genl_request_start by (rule request_sends[OF nc_put_all_writer[OF a(1)] assms(2,3)])
  have whole: "whole_msg ?bs" by (rule genl_msg_whole[OF a(2)])
  have "nl_get m (length pre) key = Some None" if "m = pre @ ?bs @ rest" "map_of as key = None" for m pre rest key
    using nl_get_body[OF that(1) assms(1), of key] that(2) attr_off_None[of as key] by simp
  moreover have "\<exists>p. nl_get_of_len m (length pre) key (length pl) = Some (Some p) \<and> rds m p (length pl) = Some pl"
    if "m = pre @ ?bs @ rest" "map_of as key = Some pl" for m pre rest key pl
    by (rule nl_get_payload[OF that(1) assms(1) that(2)]) blast
  moreover note whole_msg_found[OF whole]
  ultimately show ?thesis using n whole by (intro exI[of _ ?bs] exI[of _ nc'] conjI allI impI) simp_all
qed

text \<open>
  A request that does not fit the buffer is not sent: \<open>nc_send\<close> returns \<open>-ENOBUFS\<close>, however many puts
  follow the one that failed.
\<close>

theorem nl_overflow_not_sent:
  assumes "\<forall>(k, pl) \<in> set as. length pl \<le> 65531" and "nc_end nc \<le> int (length (nc_mem nc))" and "int (20 + length (body as)) > nc_end nc"
  shows "\<exists>nc'. genl_request sys fd nc typ flags seq cmd ver as w = Some (- ENOBUFS, nc', w)"
  unfolding genl_request_start by (rule request_over[OF nc_put_all_writer[OF assms(1)] assms(2,3)]) blast

text \<open>
  Looking up a string that is not there fails: \<open>nl_get_str\<close> passes the \<open>NULL\<close> on to \<open>nl_str\<close>, which
  reads through it, where its callers expect \<open>NULL\<close> back.
\<close>

theorem nl_get_str_missing:
  assumes "attrs_ok as" and "m = pre @ genl_msg typ flags seq cmd ver (body as) @ rest" and "map_of as key = None"
  shows "nl_get_str m (length pre) key = None"
  using nl_get_body[OF assms(2,1), of key] assms(3) attr_off_None[of as key] by (simp add: nl_get_str_def nl_str_def)

text \<open>
  Lookup does not check that an attribute ends inside its message: here the second attribute claims
  eight bytes of payload in a message that ends with its header, and the lookup returns a pointer past
  the end.
\<close>

definition short_msg :: "byte list" where
  "short_msg = genl_msg 16 0 0 0 0 (w16 4 @ w16 1 @ w16 12 @ w16 5)"

theorem nl_get_past_end:
  "nl_msg short_msg 0 (int (length short_msg)) = Some (Some 0) \<and> nl_gen short_msg 0 = Some (Some 0) \<and>
   nl_get_of_len short_msg 0 5 8 = Some (Some (length short_msg)) \<and> rds short_msg (length short_msg) 8 = None"
  by code_simp

definition demo_nc :: ncbuf where
  "demo_nc = nc_buf_set (replicate 64 0) 64"

definition demo_attrs :: "(int \<times> byte list) list" where
  "demo_attrs = [(3, [1, 0, 0, 0]), (6, [1, 2, 3, 4, 5, 6]), (9, [])]"

lemma demo_attrs_ok: "attrs_ok demo_attrs"
  by (simp add: attrs_ok_def demo_attrs_def keys_ok_def enc_attr_length pad4_def)

theorem nl_message_roundtrip_witness:
  "\<exists>bs nc'. genl_request (stream_sys 1) 3 demo_nc 28 0 1 2 0 demo_attrs [] = Some (int (length bs), nc', []) \<and> whole_msg bs \<and>
     (\<exists>p. nl_get_of_len bs 0 6 6 = Some (Some p) \<and> rds bs p 6 = Some [1, 2, 3, 4, 5, 6]) \<and> nl_get bs 0 7 = Some None"
proof -
  have "nc_end demo_nc \<le> int (length (nc_mem demo_nc))" "int (20 + length (body demo_attrs)) \<le> nc_end demo_nc"
    by (simp_all add: demo_nc_def nc_buf_set_def demo_attrs_def enc_attr_length pad4_def)
  from nl_message_roundtrip[OF demo_attrs_ok this, of "stream_sys 1" 3 28 0 1 2 0 "[]"]
  obtain bs nc' where b: "genl_request (stream_sys 1) 3 demo_nc 28 0 1 2 0 demo_attrs [] = Some (int (length bs), nc', [])" "whole_msg bs"
    and f: "\<forall>m pre rest. m = pre @ bs @ rest \<longrightarrow> (\<forall>key pl. map_of demo_attrs key = Some pl \<longrightarrow>
      (\<exists>p. nl_get_of_len m (length pre) key (length pl) = Some (Some p) \<and> rds m p (length pl) = Some pl)) \<and>
      (\<forall>key. map_of demo_attrs key = None \<longrightarrow> nl_get m (length pre) key = Some None)"
    by (auto simp: stream_sys_def)
  have k: "map_of demo_attrs 6 = Some [1, 2, 3, 4, 5, 6]" "map_of demo_attrs 7 = None" by (simp_all add: demo_attrs_def)
  have "bs = [] @ bs @ []" by simp
  from f[rule_format, OF this] have
    "\<exists>p. nl_get_of_len bs 0 6 6 = Some (Some p) \<and> rds bs p 6 = Some [1, 2, 3, 4, 5, 6]" "nl_get bs 0 7 = Some None"
    using k by (fastforce simp: eval_nat_numeral)+
  then show ?thesis using b by blast
qed

theorem nl_overflow_not_sent_witness:
  "\<exists>nc'. genl_request (stream_sys 1) 3 demo_nc 28 0 1 2 0 [(1, replicate 60 1), (2, [])] [] = Some (- ENOBUFS, nc', [])"
  using nl_overflow_not_sent[of "[(1, replicate 60 1), (2, [])]" demo_nc "stream_sys 1" 3 28 0 1 2 0 "[]"]
  by (simp add: demo_nc_def nc_buf_set_def enc_attr_length pad4_def)

theorem nl_get_str_missing_witness: "nl_get_str (genl_msg 28 0 1 2 0 (body demo_attrs)) 0 4 = None"
  using nl_get_str_missing[OF demo_attrs_ok, of "genl_msg 28 0 1 2 0 (body demo_attrs)" "[]" 28 0 1 2 0 "[]" 4] by (simp add: demo_attrs_def)

end
