(* ===== verification/Sha1.thy ===== *)
theory Sha1
  imports Hash
begin

text \<open>
  SHA-1 (\<^verbatim>\<open>lib/crypto/sha1.c\<close>, \<^verbatim>\<open>sha1_hash.c\<close>), with HMAC and PBKDF2 over it (\<^verbatim>\<open>sha1_hmac.c\<close>,
  \<^verbatim>\<open>pbkdf2_sha1.c\<close>).  The code unrolls the four groups of twenty rounds; the specification is the single
  recursion of FIPS 180-4, with the function and the constant chosen by the round number.
\<close>

section \<open>Definitions\<close>

record sha1_ctx =
  s1_H :: "u32 list"
  s1_W :: "u32 list"

definition rol :: "u32 \<Rightarrow> nat \<Rightarrow> u32" where
  "rol x n = push_bit n x OR drop_bit (32 - n) x"

definition fa :: "u32 \<Rightarrow> u32 \<Rightarrow> u32 \<Rightarrow> u32" where
  "fa b c d = (b AND c) OR (NOT b AND d)"

definition fb :: "u32 \<Rightarrow> u32 \<Rightarrow> u32 \<Rightarrow> u32" where
  "fb b c d = b XOR c XOR d"

definition fc :: "u32 \<Rightarrow> u32 \<Rightarrow> u32 \<Rightarrow> u32" where
  "fc b c d = (b AND c) OR (b AND d) OR (c AND d)"

definition sha1_init :: "sha1_ctx \<Rightarrow> sha1_ctx" where
  "sha1_init sh = sh \<lparr> s1_H := [0x67452301, 0xEFCDAB89, 0x98BADCFE, 0x10325476, 0xC3D2E1F0] \<rparr>"

type_synonym regs1 = "u32 \<times> u32 \<times> u32 \<times> u32 \<times> u32"

text \<open>One turn of one of the four loops of \<open>sha1_hash\<close>, with its function and its constant.\<close>

definition sha1_round :: "(u32 \<Rightarrow> u32 \<Rightarrow> u32 \<Rightarrow> u32) \<Rightarrow> u32 \<Rightarrow> u32 list \<Rightarrow> nat \<Rightarrow> regs1 \<Rightarrow> regs1" where
  "sha1_round f k W j = (\<lambda>(A, B, C, D, E).
     let temp = rol A 5 + f B C D + E + W ! j + k
     in (temp, A, rol B 30, C, D))"

definition sha1_hash :: "sha1_ctx \<Rightarrow> sha1_ctx" where
  "sha1_hash sh =
     (let H = s1_H sh; W = s1_W sh;
          v = (H ! 0, H ! 1, H ! 2, H ! 3, H ! 4);
          v = fold (sha1_round fa 0x5A827999 W) [0..<20] v;
          v = fold (sha1_round fb 0x6ED9EBA1 W) [20..<40] v;
          v = fold (sha1_round fc 0x8F1BBCDC W) [40..<60] v;
          v = fold (sha1_round fb 0xCA62C1D6 W) [60..<80] v
      in case v of (A, B, C, D, E) \<Rightarrow>
        sh \<lparr> s1_H := H[0 := H ! 0 + A, 1 := H ! 1 + B, 2 := H ! 2 + C, 3 := H ! 3 + D, 4 := H ! 4 + E] \<rparr>)"

definition sha1_fini :: "sha1_ctx \<Rightarrow> byte list" where
  "sha1_fini sh = concat (map (\<lambda>i. le_bytes 4 (htonl (s1_H sh ! i))) [0..<5])"

definition sha1_load :: "sha1_ctx \<Rightarrow> byte list \<Rightarrow> sha1_ctx" where
  "sha1_load sh blk =
     (let W = fold (\<lambda>i W. W[i := ntohl (unle (take 4 (drop (4 * i) blk)))]) [0..<16] (s1_W sh);
          W = fold (\<lambda>i W. W[i := rol (W ! (i - 3) XOR W ! (i - 8) XOR W ! (i - 14) XOR W ! (i - 16)) 1]) [16..<80] W
      in sh \<lparr> s1_W := W \<rparr>)"

definition sha1_load_pad1 :: "sha1_ctx \<Rightarrow> byte list \<Rightarrow> nat \<Rightarrow> u64 \<Rightarrow> sha1_ctx" where
  "sha1_load_pad1 sh ptr tail tot = sha1_load sh (put_size (pad_block ptr tail) tot)"

definition sha1_load_pad2 :: "sha1_ctx \<Rightarrow> byte list \<Rightarrow> nat \<Rightarrow> sha1_ctx" where
  "sha1_load_pad2 sh ptr tail = sha1_load sh (pad_block ptr tail)"

definition sha1_load_pad0 :: "sha1_ctx \<Rightarrow> u64 \<Rightarrow> sha1_ctx" where
  "sha1_load_pad0 sh tot = sha1_load sh (put_size (replicate 64 0) tot)"

definition sha1_proc :: "sha1_ctx \<Rightarrow> byte list \<Rightarrow> sha1_ctx" where
  "sha1_proc sh blk = sha1_hash (sha1_load sh blk)"

definition sha1_last :: "sha1_ctx \<Rightarrow> byte list \<Rightarrow> nat \<Rightarrow> u64 \<Rightarrow> sha1_ctx option" where
  "sha1_last sh ptr len tot =
     (let tail = len mod 64
      in if tail > length ptr then None
         else if tail > 55 then
           Some (sha1_hash (sha1_load_pad0 (sha1_hash (sha1_load_pad2 sh ptr tail)) tot))
         else Some (sha1_hash (sha1_load_pad1 sh ptr tail tot)))"

definition sha1_fresh :: sha1_ctx where
  "sha1_fresh = \<lparr> s1_H = replicate 5 0, s1_W = replicate 80 0 \<rparr>"

definition sha1 :: "byte list \<Rightarrow> nat \<Rightarrow> byte list option" where
  "sha1 input inlen =
     map_option sha1_fini (hash_rest sha1_proc sha1_last (sha1_init sha1_fresh) input inlen 0)"

definition hmac_sha1 :: "byte list \<Rightarrow> int \<Rightarrow> byte list \<Rightarrow> nat \<Rightarrow> byte list option" where
  "hmac_sha1 = hmac (sha1_init sha1_fresh) sha1_proc sha1_last sha1_fini"

definition pbkdf2_sha1 :: "mem \<Rightarrow> nat \<Rightarrow> byte list \<Rightarrow> int \<Rightarrow> byte list \<Rightarrow> nat \<Rightarrow> int \<Rightarrow> mem option" where
  "pbkdf2_sha1 = pbkdf2 hmac_sha1 20"

section \<open>Specification\<close>

fun sched1 :: "byte list \<Rightarrow> nat \<Rightarrow> u32" where
  "sched1 m t =
     (if t < 16 then unle (rev (take 4 (drop (4 * t) m)))
      else rol (sched1 m (t - 3) XOR sched1 m (t - 8) XOR sched1 m (t - 14) XOR sched1 m (t - 16)) 1)"

declare sched1.simps [simp del]

definition f1 :: "nat \<Rightarrow> u32 \<Rightarrow> u32 \<Rightarrow> u32 \<Rightarrow> u32" where
  "f1 t = (if t < 20 then fa else if t < 40 then fb else if t < 60 then fc else fb)"

definition k1 :: "nat \<Rightarrow> u32" where
  "k1 t = (if t < 20 then 0x5A827999 else if t < 40 then 0x6ED9EBA1 else if t < 60 then 0x8F1BBCDC else 0xCA62C1D6)"

fun rounds1 :: "(nat \<Rightarrow> u32) \<Rightarrow> nat \<Rightarrow> regs1 \<Rightarrow> regs1" where
  "rounds1 w 0 v = v"
| "rounds1 w (Suc t) v =
     (case rounds1 w t v of (a, b, c, d, e) \<Rightarrow> (rol a 5 + f1 t b c d + e + w t + k1 t, a, rol b 30, c, d))"

definition compress1 :: "u32 list \<Rightarrow> byte list \<Rightarrow> u32 list" where
  "compress1 H m =
     (case rounds1 (sched1 m) 80 (H ! 0, H ! 1, H ! 2, H ! 3, H ! 4) of
        (a, b, c, d, e) \<Rightarrow> map2 (+) H [a, b, c, d, e])"

definition sha1_spec :: "byte list \<Rightarrow> byte list" where
  "sha1_spec m = concat (map (be_bytes 4) (hash_spec compress1
     [0x67452301, 0xEFCDAB89, 0x98BADCFE, 0x10325476, 0xC3D2E1F0] m))"

section \<open>The code computes the specification\<close>

definition sha1_ok :: "sha1_ctx \<Rightarrow> bool" where
  "sha1_ok sh \<longleftrightarrow> length (s1_H sh) = 5 \<and> length (s1_W sh) = 80"

lemma sha1_load_sched:
  assumes "sha1_ok sh" and "length blk = 64"
  shows "s1_H (sha1_load sh blk) = s1_H sh" and "length (s1_W (sha1_load sh blk)) = 80"
    and "\<forall>t<80. s1_W (sha1_load sh blk) ! t = sched1 blk t"
proof -
  define W1 where "W1 = fold (\<lambda>i W. W[i := ntohl (unle (take 4 (drop (4 * i) blk)))]) [0..<16] (s1_W sh)"
  have 1: "length W1 = 80 \<and> (\<forall>j<16. W1 ! j = sched1 blk j)"
    unfolding W1_def
  proof (rule fold_fill)
    fix i W
    assume "i < (16 :: nat)"
    then show "ntohl (unle (take 4 (drop (4 * i) blk))) = sched1 blk i"
      using assms(2) by (subst sched1.simps) (simp add: ntohl_unle)
  qed (use assms in \<open>auto simp: sha1_ok_def\<close>)
  define W2 where "W2 = fold (\<lambda>i W. W[i := rol (W ! (i - 3) XOR W ! (i - 8) XOR W ! (i - 14) XOR W ! (i - 16)) 1]) [16..<80] W1"
  have 2: "length W2 = 80 \<and> (\<forall>j<80. W2 ! j = sched1 blk j)"
    unfolding W2_def
  proof (rule fold_fill)
    fix i and W :: "u32 list"
    assume "16 \<le> i" and "\<forall>j<i. W ! j = sched1 blk j"
    then show "rol (W ! (i - 3) XOR W ! (i - 8) XOR W ! (i - 14) XOR W ! (i - 16)) 1 = sched1 blk i"
      by (subst sched1.simps) simp
  qed (use 1 in auto)
  have "sha1_load sh blk = sh \<lparr> s1_W := W2 \<rparr>"
    unfolding sha1_load_def Let_def W1_def[symmetric] W2_def[symmetric] ..
  then show "s1_H (sha1_load sh blk) = s1_H sh" and "length (s1_W (sha1_load sh blk)) = 80"
    and "\<forall>t<80. s1_W (sha1_load sh blk) ! t = sched1 blk t"
    using 2 by simp_all
qed

text \<open>A loop over part of the rounds, with the function and the constant of that part.\<close>

lemma sha1_rounds:
  assumes "\<forall>j<u. W ! j = w j" and "\<forall>j. s \<le> j \<longrightarrow> j < u \<longrightarrow> f1 j = f \<and> k1 j = k" and "s \<le> u"
  shows "fold (sha1_round f k W) [s..<u] (rounds1 w s v) = rounds1 w u v"
  using assms(3,1,2)
proof (induction u rule: dec_induct)
  case (step u)
  have "fold (sha1_round f k W) [s..<u] (rounds1 w s v) = rounds1 w u v" using step by simp
  then show ?case using step by (auto simp: sha1_round_def split: prod.splits)
qed simp

lemma list5: "length H = 5 \<Longrightarrow> H = [H ! 0, H ! 1, H ! 2, H ! 3, H ! 4]"
  by (auto simp: numeral_eq_Suc length_Suc_conv)

lemma sha1_proc_compress:
  assumes "sha1_ok sh" and "length blk = 64"
  shows "sha1_ok (sha1_proc sh blk) \<and> s1_H (sha1_proc sh blk) = compress1 (s1_H sh) blk"
proof -
  let ?l = "sha1_load sh blk"
  note l = sha1_load_sched[OF assms]
  let ?r = "\<lambda>n. rounds1 (sched1 blk) n"
  have r1: "fold (sha1_round fa 0x5A827999 (s1_W ?l)) [0..<20] (?r 0 v) = ?r 20 v" for v
    by (rule sha1_rounds) (use l(3) in \<open>auto simp: f1_def k1_def\<close>)
  have r2: "fold (sha1_round fb 0x6ED9EBA1 (s1_W ?l)) [20..<40] (?r 20 v) = ?r 40 v" for v
    by (rule sha1_rounds) (use l(3) in \<open>auto simp: f1_def k1_def\<close>)
  have r3: "fold (sha1_round fc 0x8F1BBCDC (s1_W ?l)) [40..<60] (?r 40 v) = ?r 60 v" for v
    by (rule sha1_rounds) (use l(3) in \<open>auto simp: f1_def k1_def\<close>)
  have r4: "fold (sha1_round fb 0xCA62C1D6 (s1_W ?l)) [60..<80] (?r 60 v) = ?r 80 v" for v
    by (rule sha1_rounds) (use l(3) in \<open>auto simp: f1_def k1_def\<close>)
  obtain h0 h1 h2 h3 h4 where H: "s1_H sh = [h0, h1, h2, h3, h4]"
    using list5 assms(1) unfolding sha1_ok_def by blast
  have n: "[h0, h1, h2, h3, h4] ! 0 = h0" "[h0, h1, h2, h3, h4] ! 1 = h1" "[h0, h1, h2, h3, h4] ! 2 = h2"
    "[h0, h1, h2, h3, h4] ! 3 = h3" "[h0, h1, h2, h3, h4] ! 4 = h4"
    by simp_all
  obtain a b c d e where v: "?r 80 (h0, h1, h2, h3, h4) = (a, b, c, d, e)" by (metis prod_cases5)
  have "sha1_proc sh blk = ?l \<lparr> s1_H := [h0 + a, h1 + b, h2 + c, h3 + d, h4 + e] \<rparr>"
    unfolding sha1_proc_def sha1_hash_def Let_def l(1) H n r1[unfolded rounds1.simps(1)] r2 r3 r4 v prod.case
    by simp
  moreover have "compress1 (s1_H sh) blk = [h0 + a, h1 + b, h2 + c, h3 + d, h4 + e]"
    unfolding compress1_def H n v by simp
  ultimately show ?thesis by (simp add: sha1_ok_def l(2))
qed

lemma length_compress1: "length H = 5 \<Longrightarrow> length (compress1 H m) = 5"
  by (simp add: compress1_def split: prod.split)

lemma sha1_last_compress:
  assumes "sha1_ok s" and "length t = n mod 64" and "len mod 64 = n mod 64"
  shows "\<exists>s'. sha1_last s (t @ r) len (of_nat n) = Some s' \<and> sha1_ok s' \<and>
    s1_H s' = foldl compress1 (s1_H s) (blocks (t @ padding n))"
proof (cases "n mod 64 > 55")
  case True
  let ?a = "pad_block (t @ r) (n mod 64)" and ?b = "put_size (replicate 64 0) (of_nat n)"
  have l: "length ?a = 64" "length ?b = 64"
    using assms(2) by (simp_all add: length_pad_block put_size_eq)
  have "sha1_last s (t @ r) len (of_nat n) = Some (sha1_proc (sha1_proc s ?a) ?b)"
    using True assms by (simp add: sha1_last_def sha1_load_pad0_def sha1_load_pad2_def sha1_proc_def)
  moreover have "blocks (t @ padding n) = [?a, ?b]"
    unfolding pad_two_blocks[OF assms(2) True, of r] using blocks_step[OF l(1)] blocks_one[OF l(2)] by simp
  ultimately show ?thesis
    using sha1_proc_compress[OF assms(1) l(1)] sha1_proc_compress[OF _ l(2), of "sha1_proc s ?a"] by simp
next
  case False
  let ?a = "put_size (pad_block (t @ r) (n mod 64)) (of_nat n)"
  have l: "length ?a = 64" using assms(2) by (simp add: length_pad_block put_size_eq)
  have "sha1_last s (t @ r) len (of_nat n) = Some (sha1_proc s ?a)"
    using False assms by (simp add: sha1_last_def sha1_load_pad1_def sha1_proc_def)
  moreover have "t @ padding n = ?a" using pad_one_block[OF assms(2)] False by simp
  ultimately show ?thesis
    using sha1_proc_compress[OF assms(1) l] blocks_one[OF l] by simp
qed

interpretation sh1: block_hash "sha1_init sha1_fresh" sha1_proc sha1_last sha1_fini sha1_ok s1_H
  compress1 "\<lambda>H. concat (map (be_bytes 4) H)" 20
proof unfold_locales
  show "sha1_ok (sha1_init sha1_fresh)"
    by (simp add: sha1_ok_def sha1_init_def sha1_fresh_def)
  show "sha1_ok s \<Longrightarrow> length b = 64 \<Longrightarrow>
      sha1_ok (sha1_proc s b) \<and> s1_H (sha1_proc s b) = compress1 (s1_H s) b" for s b
    by (rule sha1_proc_compress)
  show "sha1_ok s \<Longrightarrow> sha1_fini s = concat (map (be_bytes 4) (s1_H s))" for s
    unfolding sha1_ok_def sha1_fini_def le_htonl by (simp only: map_nth_upt)
  show "sha1_ok s \<Longrightarrow> length (sha1_fini s) = 20" for s
    unfolding sha1_fini_def by (subst take_concat_blocks) simp_all
qed (use sha1_last_compress in auto)

lemma sha1_spec_digest:
  "sha1_spec = (\<lambda>m. concat (map (be_bytes 4) (hash_spec compress1 (s1_H (sha1_init sha1_fresh)) m)))"
  by (simp add: sha1_spec_def sha1_init_def fun_eq_iff)

section \<open>Properties\<close>

text \<open>
  SHA-1 computes the standard: the four unrolled loops, the in-place schedule and the three ways
  of padding return the FIPS 180-4 digest of the first \<open>inlen\<close> bytes of the input.
\<close>

theorem sha1_correct: "sha1 (m @ r) (length m) = Some (sha1_spec m)"
  unfolding sha1_def sha1_spec_digest by (rule sh1.hash_ok)

text \<open>
  \<open>hmac_sha1\<close> is RFC 2104 over SHA-1 for keys of at most 64 bytes, and uses the first 64 bytes of a
  longer key.
\<close>

theorem hmac_sha1_correct:
  "hmac_sha1 (key @ k) (int (length key)) (m @ r) (length m) = Some (hmac_spec sha1_spec (take 64 key) m)"
  unfolding hmac_sha1_def sha1_spec_digest by (rule sh1.hmac_ok)

text \<open>
  \<open>pbkdf2_sha1\<close>, which turns a passphrase into the key of a wireless network, derives the key of
  RFC 2898 in the first \<open>len\<close> bytes of its buffer and writes nothing else.
\<close>

theorem pbkdf2_sha1_correct:
  assumes "len \<le> length psk"
  shows "pbkdf2_sha1 psk len (pass @ p) (int (length pass)) (salt @ s) (length salt) iters =
    Some (pbkdf2_spec (\<lambda>k. hmac_spec sha1_spec (take 64 k)) 20 len pass salt (nat iters) @ drop len psk)"
  unfolding pbkdf2_sha1_def hmac_sha1_def sha1_spec_digest by (rule sh1.pbkdf2_hmac_ok[OF assms])

theorem pbkdf2_sha1_correct_witness:
  "pbkdf2_sha1 (replicate 32 0) 32 (bstr ''pass'' @ []) (int (length (bstr ''pass''))) (bstr ''ssid'' @ []) (length (bstr ''ssid'')) 4096 =
    Some (pbkdf2_spec (\<lambda>k. hmac_spec sha1_spec (take 64 k)) 20 32 (bstr ''pass'') (bstr ''ssid'') (nat 4096) @ drop 32 (replicate 32 0))"
  by (rule pbkdf2_sha1_correct) simp

end
