(* ===== verification/Aes128.thy ===== *)
theory Aes128
  imports Hash
begin

text \<open>
  AES-128 (\<^verbatim>\<open>lib/crypto/aes128.c\<close>) and the key wrap of RFC 3394 over it (\<^verbatim>\<open>aes128_wrap.c\<close>,
  \<^verbatim>\<open>aes128_unwrap.c\<close>).  The context has the round keys \<open>W\<close> and the state \<open>S\<close>, four big-endian words.  The
  main result is that decryption inverts encryption and unwrapping inverts wrapping.

  The key wrap relies on the cipher only through the locale \<open>block_cipher\<close>.  Its counters are natural
  numbers here; they agree with those of the code for buffers of less than \<open>2^31\<close> 64-bit words.
\<close>

section \<open>Definitions\<close>

subsection \<open>Tables and bytes\<close>

definition sbox :: "byte list" where
  "sbox =
    [0x63, 0x7c, 0x77, 0x7b, 0xf2, 0x6b, 0x6f, 0xc5, 0x30, 0x01, 0x67, 0x2b, 0xfe, 0xd7, 0xab, 0x76,
     0xca, 0x82, 0xc9, 0x7d, 0xfa, 0x59, 0x47, 0xf0, 0xad, 0xd4, 0xa2, 0xaf, 0x9c, 0xa4, 0x72, 0xc0,
     0xb7, 0xfd, 0x93, 0x26, 0x36, 0x3f, 0xf7, 0xcc, 0x34, 0xa5, 0xe5, 0xf1, 0x71, 0xd8, 0x31, 0x15,
     0x04, 0xc7, 0x23, 0xc3, 0x18, 0x96, 0x05, 0x9a, 0x07, 0x12, 0x80, 0xe2, 0xeb, 0x27, 0xb2, 0x75,
     0x09, 0x83, 0x2c, 0x1a, 0x1b, 0x6e, 0x5a, 0xa0, 0x52, 0x3b, 0xd6, 0xb3, 0x29, 0xe3, 0x2f, 0x84,
     0x53, 0xd1, 0x00, 0xed, 0x20, 0xfc, 0xb1, 0x5b, 0x6a, 0xcb, 0xbe, 0x39, 0x4a, 0x4c, 0x58, 0xcf,
     0xd0, 0xef, 0xaa, 0xfb, 0x43, 0x4d, 0x33, 0x85, 0x45, 0xf9, 0x02, 0x7f, 0x50, 0x3c, 0x9f, 0xa8,
     0x51, 0xa3, 0x40, 0x8f, 0x92, 0x9d, 0x38, 0xf5, 0xbc, 0xb6, 0xda, 0x21, 0x10, 0xff, 0xf3, 0xd2,
     0xcd, 0x0c, 0x13, 0xec, 0x5f, 0x97, 0x44, 0x17, 0xc4, 0xa7, 0x7e, 0x3d, 0x64, 0x5d, 0x19, 0x73,
     0x60, 0x81, 0x4f, 0xdc, 0x22, 0x2a, 0x90, 0x88, 0x46, 0xee, 0xb8, 0x14, 0xde, 0x5e, 0x0b, 0xdb,
     0xe0, 0x32, 0x3a, 0x0a, 0x49, 0x06, 0x24, 0x5c, 0xc2, 0xd3, 0xac, 0x62, 0x91, 0x95, 0xe4, 0x79,
     0xe7, 0xc8, 0x37, 0x6d, 0x8d, 0xd5, 0x4e, 0xa9, 0x6c, 0x56, 0xf4, 0xea, 0x65, 0x7a, 0xae, 0x08,
     0xba, 0x78, 0x25, 0x2e, 0x1c, 0xa6, 0xb4, 0xc6, 0xe8, 0xdd, 0x74, 0x1f, 0x4b, 0xbd, 0x8b, 0x8a,
     0x70, 0x3e, 0xb5, 0x66, 0x48, 0x03, 0xf6, 0x0e, 0x61, 0x35, 0x57, 0xb9, 0x86, 0xc1, 0x1d, 0x9e,
     0xe1, 0xf8, 0x98, 0x11, 0x69, 0xd9, 0x8e, 0x94, 0x9b, 0x1e, 0x87, 0xe9, 0xce, 0x55, 0x28, 0xdf,
     0x8c, 0xa1, 0x89, 0x0d, 0xbf, 0xe6, 0x42, 0x68, 0x41, 0x99, 0x2d, 0x0f, 0xb0, 0x54, 0xbb, 0x16]"

definition rbox :: "byte list" where
  "rbox =
    [0x52, 0x09, 0x6a, 0xd5, 0x30, 0x36, 0xa5, 0x38, 0xbf, 0x40, 0xa3, 0x9e, 0x81, 0xf3, 0xd7, 0xfb,
     0x7c, 0xe3, 0x39, 0x82, 0x9b, 0x2f, 0xff, 0x87, 0x34, 0x8e, 0x43, 0x44, 0xc4, 0xde, 0xe9, 0xcb,
     0x54, 0x7b, 0x94, 0x32, 0xa6, 0xc2, 0x23, 0x3d, 0xee, 0x4c, 0x95, 0x0b, 0x42, 0xfa, 0xc3, 0x4e,
     0x08, 0x2e, 0xa1, 0x66, 0x28, 0xd9, 0x24, 0xb2, 0x76, 0x5b, 0xa2, 0x49, 0x6d, 0x8b, 0xd1, 0x25,
     0x72, 0xf8, 0xf6, 0x64, 0x86, 0x68, 0x98, 0x16, 0xd4, 0xa4, 0x5c, 0xcc, 0x5d, 0x65, 0xb6, 0x92,
     0x6c, 0x70, 0x48, 0x50, 0xfd, 0xed, 0xb9, 0xda, 0x5e, 0x15, 0x46, 0x57, 0xa7, 0x8d, 0x9d, 0x84,
     0x90, 0xd8, 0xab, 0x00, 0x8c, 0xbc, 0xd3, 0x0a, 0xf7, 0xe4, 0x58, 0x05, 0xb8, 0xb3, 0x45, 0x06,
     0xd0, 0x2c, 0x1e, 0x8f, 0xca, 0x3f, 0x0f, 0x02, 0xc1, 0xaf, 0xbd, 0x03, 0x01, 0x13, 0x8a, 0x6b,
     0x3a, 0x91, 0x11, 0x41, 0x4f, 0x67, 0xdc, 0xea, 0x97, 0xf2, 0xcf, 0xce, 0xf0, 0xb4, 0xe6, 0x73,
     0x96, 0xac, 0x74, 0x22, 0xe7, 0xad, 0x35, 0x85, 0xe2, 0xf9, 0x37, 0xe8, 0x1c, 0x75, 0xdf, 0x6e,
     0x47, 0xf1, 0x1a, 0x71, 0x1d, 0x29, 0xc5, 0x89, 0x6f, 0xb7, 0x62, 0x0e, 0xaa, 0x18, 0xbe, 0x1b,
     0xfc, 0x56, 0x3e, 0x4b, 0xc6, 0xd2, 0x79, 0x20, 0x9a, 0xdb, 0xc0, 0xfe, 0x78, 0xcd, 0x5a, 0xf4,
     0x1f, 0xdd, 0xa8, 0x33, 0x88, 0x07, 0xc7, 0x31, 0xb1, 0x12, 0x10, 0x59, 0x27, 0x80, 0xec, 0x5f,
     0x60, 0x51, 0x7f, 0xa9, 0x19, 0xb5, 0x4a, 0x0d, 0x2d, 0xe5, 0x7a, 0x9f, 0x93, 0xc9, 0x9c, 0xef,
     0xa0, 0xe0, 0x3b, 0x4d, 0xae, 0x2a, 0xf5, 0xb0, 0xc8, 0xeb, 0xbb, 0x3c, 0x83, 0x53, 0x99, 0x61,
     0x17, 0x2b, 0x04, 0x7e, 0xba, 0x77, 0xd6, 0x26, 0xe1, 0x69, 0x14, 0x63, 0x55, 0x21, 0x0c, 0x7d]"

definition rcon :: "byte list" where
  "rcon = [0x8d, 0x01, 0x02, 0x04, 0x08, 0x10, 0x20, 0x40, 0x80, 0x1b, 0x36]"

definition B0 :: "u32 \<Rightarrow> byte" where "B0 w = ucast (drop_bit 24 w)"
definition B1 :: "u32 \<Rightarrow> byte" where "B1 w = ucast (drop_bit 16 w AND 0xFF)"
definition B2 :: "u32 \<Rightarrow> byte" where "B2 w = ucast (drop_bit 8 w AND 0xFF)"
definition B3 :: "u32 \<Rightarrow> byte" where "B3 w = ucast (w AND 0xFF)"

definition Wd :: "byte \<Rightarrow> byte \<Rightarrow> byte \<Rightarrow> byte \<Rightarrow> u32" where
  "Wd a b c d = push_bit 24 (ucast a) OR push_bit 16 (ucast b) OR push_bit 8 (ucast c) OR ucast d"

definition rotword :: "u32 \<Rightarrow> u32" where
  "rotword x = push_bit 8 x OR (drop_bit 24 x AND 0xFF)"

definition subword :: "u32 \<Rightarrow> byte list \<Rightarrow> u32" where
  "subword x box = Wd (box ! unat (B0 x)) (box ! unat (B1 x)) (box ! unat (B2 x)) (box ! unat (B3 x))"

definition xtime :: "byte \<Rightarrow> byte" where
  "xtime x = push_bit 1 x XOR ((drop_bit 7 x AND 1) * 0x1b)"

text \<open>The loop of \<open>xmul\<close> with \<open>n\<close> turns to go.\<close>

fun xmul_loop :: "nat \<Rightarrow> byte \<Rightarrow> byte \<Rightarrow> byte \<Rightarrow> byte" where
  "xmul_loop 0 x y m = m"
| "xmul_loop (Suc n) x y m = xmul_loop n (xtime x) (drop_bit 1 y) (if y AND 1 \<noteq> 0 then m XOR x else m)"

definition xmul :: "byte \<Rightarrow> byte \<Rightarrow> byte" where
  "xmul x y = xmul_loop 5 x y 0"

subsection \<open>Round operations\<close>

definition add_round_key :: "u32 list \<Rightarrow> u32 list \<Rightarrow> nat \<Rightarrow> u32 list" where
  "add_round_key S W r = map (\<lambda>c. S ! c XOR W ! (r * 4 + c)) [0, 1, 2, 3]"

definition rowshift :: "u32 list \<Rightarrow> nat \<Rightarrow> nat \<Rightarrow> nat \<Rightarrow> nat \<Rightarrow> u32" where
  "rowshift S a b c d = Wd (B0 (S ! a)) (B1 (S ! b)) (B2 (S ! c)) (B3 (S ! d))"

definition inv_shift_rows :: "u32 list \<Rightarrow> u32 list" where
  "inv_shift_rows S = [rowshift S 0 3 2 1, rowshift S 1 0 3 2, rowshift S 2 1 0 3, rowshift S 3 2 1 0]"

definition fwd_shift_rows :: "u32 list \<Rightarrow> u32 list" where
  "fwd_shift_rows S = [rowshift S 0 1 2 3, rowshift S 1 2 3 0, rowshift S 2 3 0 1, rowshift S 3 0 1 2]"

definition colmul :: "u32 \<Rightarrow> byte \<Rightarrow> byte \<Rightarrow> byte \<Rightarrow> byte \<Rightarrow> byte" where
  "colmul Si a b c d = xmul (B0 Si) a XOR xmul (B1 Si) b XOR xmul (B2 Si) c XOR xmul (B3 Si) d"

definition inv_sub_bytes :: "u32 list \<Rightarrow> u32 list" where
  "inv_sub_bytes S = map (\<lambda>w. subword w rbox) S"

definition fwd_sub_bytes :: "u32 list \<Rightarrow> u32 list" where
  "fwd_sub_bytes S = map (\<lambda>w. subword w sbox) S"

definition inv_mix_columns :: "u32 list \<Rightarrow> u32 list" where
  "inv_mix_columns S = map (\<lambda>Si. Wd (colmul Si 0x0E 0x0B 0x0D 0x09) (colmul Si 0x09 0x0E 0x0B 0x0D)
     (colmul Si 0x0D 0x09 0x0E 0x0B) (colmul Si 0x0B 0x0D 0x09 0x0E)) S"

definition fwd_mix_columns :: "u32 list \<Rightarrow> u32 list" where
  "fwd_mix_columns S = map (\<lambda>Si. Wd (colmul Si 0x02 0x03 0x01 0x01) (colmul Si 0x01 0x02 0x03 0x01)
     (colmul Si 0x01 0x01 0x02 0x03) (colmul Si 0x03 0x01 0x01 0x02)) S"

definition load_word :: "byte list \<Rightarrow> nat \<Rightarrow> u32" where
  "load_word b p = Wd (b ! p) (b ! (p + 1)) (b ! (p + 2)) (b ! (p + 3))"

definition load_block :: "byte list \<Rightarrow> u32 list" where
  "load_block b = [load_word b 0, load_word b 4, load_word b 8, load_word b 12]"

definition save_word :: "u32 \<Rightarrow> byte list" where
  "save_word w = [B0 w, B1 w, B2 w, B3 w]"

definition save_block :: "u32 list \<Rightarrow> byte list" where
  "save_block B = save_word (B ! 0) @ save_word (B ! 1) @ save_word (B ! 2) @ save_word (B ! 3)"

subsection \<open>The cipher\<close>

record aes128 =
  ae_W :: "u32 list"
  ae_S :: "u32 list"

text \<open>The key schedule: \<open>W[i]\<close> for \<open>i = 4 .. 43\<close>.\<close>

definition key_word :: "nat \<Rightarrow> u32 list \<Rightarrow> u32" where
  "key_word i W =
     (let temp = W ! (i - 1);
          temp = (if i mod 4 = 0 then subword (rotword temp) sbox XOR push_bit 24 (ucast (rcon ! (i div 4))) else temp)
      in W ! (i - 4) XOR temp)"

definition aes128_init :: "aes128 \<Rightarrow> byte list \<Rightarrow> aes128" where
  "aes128_init ctx key = ctx \<lparr> ae_W := fold (\<lambda>i W. W[i := key_word i W]) [4..<44] (load_block key @ drop 4 (ae_W ctx)) \<rparr>"

definition dec_round :: "u32 list \<Rightarrow> nat \<Rightarrow> u32 list \<Rightarrow> u32 list" where
  "dec_round W r S = inv_mix_columns (add_round_key (inv_sub_bytes (inv_shift_rows S)) W r)"

definition enc_round :: "u32 list \<Rightarrow> nat \<Rightarrow> u32 list \<Rightarrow> u32 list" where
  "enc_round W r S = add_round_key (fwd_mix_columns (fwd_shift_rows (fwd_sub_bytes S))) W r"

definition aes128_decrypt :: "aes128 \<Rightarrow> byte list \<Rightarrow> aes128 \<times> byte list" where
  "aes128_decrypt ctx blk =
     (let W = ae_W ctx;
          S = add_round_key (load_block blk) W 10;
          S = fold (dec_round W) (rev [1..<10]) S;
          S = add_round_key (inv_sub_bytes (inv_shift_rows S)) W 0
      in (ctx \<lparr> ae_S := S \<rparr>, save_block S))"

definition aes128_encrypt :: "aes128 \<Rightarrow> byte list \<Rightarrow> aes128 \<times> byte list" where
  "aes128_encrypt ctx blk =
     (let W = ae_W ctx;
          S = add_round_key (load_block blk) W 0;
          S = fold (enc_round W) [1..<10] S;
          S = add_round_key (fwd_shift_rows (fwd_sub_bytes S)) W 10
      in (ctx \<lparr> ae_S := S \<rparr>, save_block S))"

definition aes128_fini :: "aes128 \<Rightarrow> aes128" where
  "aes128_fini ctx = \<lparr> ae_W = replicate 44 0, ae_S = replicate 4 0 \<rparr>"

subsection \<open>Key wrap\<close>

definition wrapmask :: "u32 \<Rightarrow> u64" where
  "wrapmask n = push_bit 32 (ucast (htonl n))"

text \<open>
  The bodies of the inner loops.  The buffer is an array \<open>R\<close> of 64-bit words; \<open>crypt\<close> is the cipher
  with its context.
\<close>

definition xor_R0 :: "mem \<Rightarrow> u64 \<Rightarrow> mem option" where
  "xor_R0 m x = do { r \<leftarrow> rd64 m 0; wr64 m 0 (r XOR x) }"

definition crypt_R :: "('k \<Rightarrow> byte list \<Rightarrow> 'k \<times> byte list) \<Rightarrow> nat \<Rightarrow> 'k \<Rightarrow> mem \<Rightarrow> ('k \<times> mem) option" where
  "crypt_R crypt i k m = do {
     a \<leftarrow> rds m 0 8;
     b \<leftarrow> rds m (8 * i) 8;
     (case crypt k (a @ b) of (k, B) \<Rightarrow> do {
        m \<leftarrow> wrs m 0 (take 8 B);
        m \<leftarrow> wrs m (8 * i) (drop 8 B);
        Some (k, m) }) }"

definition wrap_step :: "('k \<Rightarrow> byte list \<Rightarrow> 'k \<times> byte list) \<Rightarrow> nat \<Rightarrow> nat \<times> nat \<Rightarrow> 'k \<times> mem \<Rightarrow> ('k \<times> mem) option" where
  "wrap_step crypt n = (\<lambda>(j, i) (k, m). do {
     (k, m) \<leftarrow> crypt_R crypt i k m;
     m \<leftarrow> xor_R0 m (wrapmask (of_nat (n * j + i)));
     Some (k, m) })"

definition unwrap_step :: "('k \<Rightarrow> byte list \<Rightarrow> 'k \<times> byte list) \<Rightarrow> nat \<Rightarrow> nat \<times> nat \<Rightarrow> 'k \<times> mem \<Rightarrow> ('k \<times> mem) option" where
  "unwrap_step crypt n = (\<lambda>(j, i) (k, m). do {
     m \<leftarrow> xor_R0 m (wrapmask (of_nat (n * j + i)));
     crypt_R crypt i k m })"

fun steps :: "('a \<Rightarrow> 's \<Rightarrow> 's option) \<Rightarrow> 'a list \<Rightarrow> 's \<Rightarrow> 's option" where
  "steps f [] s = Some s"
| "steps f (x # xs) s = do { s \<leftarrow> f x s; steps f xs s }"

definition aes_zero :: aes128 where
  "aes_zero = \<lparr> ae_W = replicate 44 0, ae_S = replicate 4 0 \<rparr>"

text \<open>
  For a length below 8, \<open>n\<close> wraps around to the largest \<open>ulong\<close> and the loop runs off the buffer.
\<close>

definition aes128_wrap :: "byte list \<Rightarrow> mem \<Rightarrow> nat \<Rightarrow> mem option" where
  "aes128_wrap key buf len =
     (if len < 8 then None
      else let n = len div 8 - 1
           in map_option snd (steps (wrap_step aes128_encrypt n)
                [(j, i). j \<leftarrow> [0..<6], i \<leftarrow> [1..<n + 1]] (aes128_init aes_zero key, buf)))"

definition aes128_unwrap :: "byte list \<Rightarrow> mem \<Rightarrow> nat \<Rightarrow> mem option" where
  "aes128_unwrap key buf len =
     (if len < 8 then None
      else let n = len div 8 - 1
           in map_option snd (steps (unwrap_step aes128_decrypt n)
                [(j, i). j \<leftarrow> rev [0..<6], i \<leftarrow> rev [1..<n + 1]] (aes128_init aes_zero key, buf)))"

section \<open>Decryption inverts encryption\<close>

lemma B_Wd [simp]:
  "B0 (Wd a b c d) = a" "B1 (Wd a b c d) = b" "B2 (Wd a b c d) = c" "B3 (Wd a b c d) = d"
  unfolding B0_def B1_def B2_def B3_def Wd_def mask8
  by (rule bit_word_eqI; auto simp: bit_simps dest: bit_imp_le_length)+

lemma Wd_B [simp]: "Wd (B0 w) (B1 w) (B2 w) (B3 w) = w"
proof (rule bit_word_eqI)
  fix n
  assume "n < LENGTH(32)"
  then consider "n < 8" | "8 \<le> n" "n < 16" | "16 \<le> n" "n < 24" | "24 \<le> n" "n < 32" by fastforce
  then show "bit (Wd (B0 w) (B1 w) (B2 w) (B3 w)) n = bit w n"
    unfolding B0_def B1_def B2_def B3_def Wd_def mask8 by cases (auto simp: bit_simps)
qed

lemma box_table: "map (\<lambda>b. rbox ! unat b) sbox = map of_nat [0..<256]"
  by code_simp

lemma length_sbox [simp]: "length sbox = 256"
  by (simp add: sbox_def)

lemma rbox_sbox [simp]: "rbox ! unat (sbox ! unat b) = b"
proof -
  have "unat b < 256" using unsigned_less[of b, where ?'a = nat] by simp
  then have "map (\<lambda>b. rbox ! unat b) sbox ! unat b = of_nat (unat b)" unfolding box_table by simp
  then show ?thesis using \<open>unat b < 256\<close> by simp
qed

lemma inv_sub [simp]: "inv_sub_bytes (fwd_sub_bytes S) = S"
  by (induction S) (auto simp: inv_sub_bytes_def fwd_sub_bytes_def subword_def)

lemma list4: "length S = 4 \<Longrightarrow> S = [S ! 0, S ! 1, S ! 2, S ! 3]"
  by (auto simp: numeral_eq_Suc length_Suc_conv)

lemma inv_shift [simp]: "length S = 4 \<Longrightarrow> inv_shift_rows (fwd_shift_rows S) = S"
  using list4[of S] by (simp add: inv_shift_rows_def fwd_shift_rows_def rowshift_def)

lemma add_round_key_twice [simp]: "length S = 4 \<Longrightarrow> add_round_key (add_round_key S W r) W r = S"
  using list4[of S] by (simp add: add_round_key_def xor.assoc)

text \<open>Multiplication by the constants of the column matrices, in terms of \<open>xtime\<close>, which is linear.\<close>

lemma xtime_xor: "xtime (x XOR y) = xtime x XOR xtime y"
proof -
  have b: "(drop_bit 7 z AND 1) = (if bit z 7 then 1 else (0 :: byte))" for z :: byte
    by (rule bit_word_eqI) (auto simp: bit_simps bit_1_iff dest: bit_imp_le_length intro: gr0I)
  show ?thesis
    unfolding xtime_def b by (rule bit_word_eqI) (auto simp: bit_simps)
qed

lemma xmul_loop_numeral:
  "xmul_loop (numeral n) x y m =
     xmul_loop (pred_numeral n) (xtime x) (drop_bit 1 y) (if y AND 1 \<noteq> 0 then m XOR x else m)"
  by (simp add: numeral_eq_Suc)

lemma xmul_const:
  "xmul x 0x01 = x" "xmul x 0x02 = xtime x" "xmul x 0x03 = x XOR xtime x"
  "xmul x 0x09 = x XOR xtime (xtime (xtime x))"
  "xmul x 0x0B = x XOR xtime x XOR xtime (xtime (xtime x))"
  "xmul x 0x0D = x XOR xtime (xtime x) XOR xtime (xtime (xtime x))"
  "xmul x 0x0E = xtime x XOR xtime (xtime x) XOR xtime (xtime (xtime x))"
  by (simp_all add: xmul_def xmul_loop_numeral xor.assoc)

lemma xor_cancel: "a XOR (a XOR b) = (b :: byte)"
  by (simp add: xor.assoc[symmetric])

lemma inv_mix [simp]: "inv_mix_columns (fwd_mix_columns S) = S"
proof (induction S)
  case (Cons w S)
  have "inv_mix_columns (fwd_mix_columns [w]) = [Wd (B0 w) (B1 w) (B2 w) (B3 w)]"
    by (simp add: inv_mix_columns_def fwd_mix_columns_def colmul_def xmul_const xtime_xor
        xor.assoc xor.commute xor.left_commute xor_cancel del: Wd_B)
  then show ?case using Cons by (simp add: inv_mix_columns_def fwd_mix_columns_def)
qed (simp add: inv_mix_columns_def fwd_mix_columns_def)

lemma lengths4 [simp]:
  "length (add_round_key S W r) = 4" "length (fwd_shift_rows S) = 4" "length (inv_shift_rows S) = 4"
  "length (fwd_sub_bytes S) = length S" "length (fwd_mix_columns S) = length S" "length (load_block b) = 4"
  "length (enc_round W r S) = 4"
  by (simp_all add: add_round_key_def fwd_shift_rows_def inv_shift_rows_def fwd_sub_bytes_def fwd_mix_columns_def
      load_block_def enc_round_def)

lemma length_enc_rounds [simp]: "length S = 4 \<Longrightarrow> length (fold (enc_round W) rs S) = 4"
  by (induction rs arbitrary: S) auto

text \<open>The inverse rounds start between the substitution and the round key of the outer round.\<close>

lemma dec_enc_round:
  "length S = 4 \<Longrightarrow>
   dec_round W r (fwd_shift_rows (fwd_sub_bytes (enc_round W r S))) = fwd_shift_rows (fwd_sub_bytes S)"
  by (simp add: dec_round_def enc_round_def)

lemma dec_enc_rounds:
  "length S = 4 \<Longrightarrow>
   fold (dec_round W) (rev rs) (fwd_shift_rows (fwd_sub_bytes (fold (enc_round W) rs S))) =
     fwd_shift_rows (fwd_sub_bytes S)"
proof (induction rs rule: rev_induct)
  case (snoc r rs)
  then show ?case by (simp add: dec_enc_round)
qed simp

lemma save_load [simp]: "length b = 16 \<Longrightarrow> save_block (load_block b) = b"
  by (auto simp: save_block_def load_block_def save_word_def load_word_def numeral_eq_Suc length_Suc_conv)

lemma load_save [simp]: "length S = 4 \<Longrightarrow> load_block (save_block S) = S"
  using list4[of S] by (simp add: save_block_def load_block_def save_word_def load_word_def)

lemma length_save [simp]: "length (save_block S) = 16"
  by (simp add: save_block_def save_word_def)

lemma decrypt_encrypt:
  assumes "ae_W ctx' = ae_W ctx" and "length blk = 16"
  shows "snd (aes128_decrypt ctx' (snd (aes128_encrypt ctx blk))) = blk"
proof -
  let ?W = "ae_W ctx"
  let ?T = "add_round_key (load_block blk) ?W 0"
  let ?S = "fold (enc_round ?W) [1..<10] ?T"
  have "snd (aes128_encrypt ctx blk) = save_block (add_round_key (fwd_shift_rows (fwd_sub_bytes ?S)) ?W 10)"
    unfolding aes128_encrypt_def Let_def by (simp only: snd_conv)
  moreover have "fold (dec_round ?W) (rev [1..<10]) (fwd_shift_rows (fwd_sub_bytes ?S)) = fwd_shift_rows (fwd_sub_bytes ?T)"
    by (rule dec_enc_rounds) simp
  ultimately show ?thesis
    unfolding aes128_decrypt_def Let_def assms(1) by (simp add: assms(2) del: upt_rec_numeral)
qed

text \<open>The key schedule as the recursion of FIPS 197; the loop fills the array with it.\<close>

fun ksched :: "byte list \<Rightarrow> nat \<Rightarrow> u32" where
  "ksched key i =
     (if i < 4 then load_word key (4 * i)
      else ksched key (i - 4) XOR
        (if i mod 4 = 0
         then subword (rotword (ksched key (i - 1))) sbox XOR push_bit 24 (ucast (rcon ! (i div 4)))
         else ksched key (i - 1)))"

declare ksched.simps [simp del]

lemma aes128_init_sched:
  assumes "length (ae_W ctx) = 44"
  shows "length (ae_W (aes128_init ctx key)) = 44 \<and> (\<forall>i<44. ae_W (aes128_init ctx key) ! i = ksched key i)"
proof -
  have "length (fold (\<lambda>i W. W[i := key_word i W]) [4..<44] (load_block key @ drop 4 (ae_W ctx))) = 44 \<and>
    (\<forall>i<44. fold (\<lambda>i W. W[i := key_word i W]) [4..<44] (load_block key @ drop 4 (ae_W ctx)) ! i = ksched key i)"
  proof (rule fold_fill)
    fix i and W :: "u32 list"
    assume "4 \<le> i" "\<forall>j<i. W ! j = ksched key j"
    then show "key_word i W = ksched key i"
      by (subst ksched.simps) (simp add: key_word_def Let_def)
  next
    show "\<forall>j<4. (load_block key @ drop 4 (ae_W ctx)) ! j = ksched key j"
      by (auto simp: load_block_def ksched.simps numeral_eq_Suc less_Suc_eq)
  qed (simp_all add: assms)
  then show ?thesis unfolding aes128_init_def by (simp del: upt_rec_numeral)
qed

section \<open>Unwrapping inverts wrapping\<close>

lemma xor_R0_twice: "xor_R0 m x = Some m1 \<Longrightarrow> xor_R0 m1 x = Some m \<and> length m1 = length m"
proof -
  assume *: "xor_R0 m x = Some m1"
  then have l: "8 \<le> length m"
    by (auto simp: xor_R0_def rd64_def rds_def split: if_splits)
  then have m1: "m1 = le_bytes 8 (unle (take 8 m) XOR x :: u64) @ drop 8 m"
    using * by (simp add: xor_R0_def rd64_def wr64_def rds_def wrs_def)
  have "le_bytes 8 (unle (take 8 m) :: u64) = take 8 m"
    using le_unle[of "take 8 m", where 'a = 64] l by (simp add: min_absorb2)
  then show ?thesis
    using l by (simp add: m1 xor_R0_def rd64_def wr64_def rds_def wrs_def xor.assoc)
qed

lemma xor_R0_total: "8 \<le> length m \<Longrightarrow> \<exists>m1. xor_R0 m x = Some m1"
  by (simp add: xor_R0_def rd64_def wr64_def rds_def wrs_def)

lemma steps_append: "steps f (xs @ ys) s = Option.bind (steps f xs s) (steps f ys)"
proof (induction xs arbitrary: s)
  case (Cons x xs)
  then show ?case by (cases "f x s") auto
qed simp

text \<open>What the key wrap needs of a cipher: decryption under the same key inverts encryption.\<close>

locale block_cipher =
  fixes enc dec :: "'k \<Rightarrow> byte list \<Rightarrow> 'k \<times> byte list" and key :: "'k \<Rightarrow> 'a"
  assumes dec_enc: "key k' = key k \<Longrightarrow> length b = 16 \<Longrightarrow> snd (dec k' (snd (enc k b))) = b"
    and enc_key: "key (fst (enc k b)) = key k"
    and dec_key: "key (fst (dec k b)) = key k"
    and enc_length: "length b = 16 \<Longrightarrow> length (snd (enc k b)) = 16"
    and dec_length: "length b = 16 \<Longrightarrow> length (snd (dec k b)) = 16"
begin

lemma crypt_R_total:
  assumes "\<And>b. length b = 16 \<Longrightarrow> length (snd (crypt k b)) = 16" and "8 * i + 8 \<le> length m"
  shows "\<exists>k1 m1. crypt_R crypt i k m = Some (k1, m1) \<and> length m1 = length m"
proof -
  let ?b = "take 8 m @ take 8 (drop (8 * i) m)"
  obtain k1 B where B: "crypt k ?b = (k1, B)" by (cases "crypt k ?b")
  then have l: "length B = 16" using assms(1)[of ?b] assms(2) by simp
  obtain m0 where m0: "wrs m 0 (take 8 B) = Some m0" "length m0 = length m"
    using wrs_fits[of 0 "take 8 B" m] l assms(2) by auto
  obtain m1 where m1: "wrs m0 (8 * i) (drop 8 B) = Some m1" "length m1 = length m"
    using wrs_fits[of "8 * i" "drop 8 B" m0] l assms(2) m0(2) by auto
  show ?thesis using B m0 m1 assms(2) by (simp add: crypt_R_def rds_def)
qed

lemma unwrap_steps_total:
  assumes "8 \<le> length m" and "\<forall>(j, i) \<in> set ps. 8 * i + 8 \<le> length m"
  shows "\<exists>k1 m1. steps (unwrap_step dec n) ps (k, m) = Some (k1, m1) \<and> length m1 = length m"
  using assms
proof (induction ps arbitrary: k m)
  case (Cons q ps)
  obtain j i where q: "q = (j, i)" by (cases q)
  obtain m0 where m0: "xor_R0 m (wrapmask (of_nat (n * j + i))) = Some m0" "length m0 = length m"
    using xor_R0_total[OF Cons.prems(1)] xor_R0_twice by metis
  have "8 * i + 8 \<le> length m0" using Cons.prems(2) m0(2) by (simp add: q)
  from crypt_R_total[of dec k, OF dec_length this] obtain k1 m1 where
    m1: "crypt_R dec i k m0 = Some (k1, m1)" "length m1 = length m"
    using m0(2) by auto
  have "\<exists>k2 m2. steps (unwrap_step dec n) ps (k1, m1) = Some (k2, m2) \<and> length m2 = length m1"
    using Cons.prems m1(2) by (intro Cons.IH) auto
  then show ?case using m0 m1 by (auto simp: q unwrap_step_def)
qed simp

lemma crypt_R_inverse:
  assumes "crypt_R enc i k m = Some (k1, m1)" and "0 < i" and "key k' = key k"
  shows "\<exists>k2. crypt_R dec i k' m1 = Some (k2, m) \<and> key k2 = key k' \<and> key k1 = key k \<and> length m1 = length m"
proof -
  obtain a b where ab: "rds m 0 8 = Some a" "rds m (8 * i) 8 = Some b"
    using assms(1) by (auto simp: crypt_R_def split: option.splits bind_splits)
  obtain B where B: "enc k (a @ b) = (k1, B)"
    using assms(1) ab by (auto simp: crypt_R_def split: prod.splits bind_splits)
  obtain m0 where m0: "wrs m 0 (take 8 B) = Some m0" "wrs m0 (8 * i) (drop 8 B) = Some m1"
    using assms(1) ab B by (auto simp: crypt_R_def split: bind_splits)
  have l: "length a = 8" "length b = 8" "8 + 8 * i \<le> length m"
    using ab by (auto simp: rds_def split: if_splits)
  have LB: "length B = 16" using enc_length[of "a @ b" k] B l by simp
  have lm: "length m1 = length m" using wrs_length[OF m0(1)] wrs_length[OF m0(2)] by simp
  have r1: "rds m1 (8 * i) 8 = Some (drop 8 B)" using wrs_rds[OF m0(2)] LB by simp
  have r0: "rds m1 0 8 = Some (take 8 B)"
    using rds_wrs_other[OF m0(2), of 0 8] wrs_rds[OF m0(1)] LB assms(2) by simp
  obtain k2 where k2: "dec k' B = (k2, a @ b)" "key k2 = key k'"
    using dec_enc[OF assms(3), of "a @ b"] dec_key[of k' B] B l by (cases "dec k' B") auto
  obtain m2 where m2: "wrs m1 0 a = Some m2" "length m2 = length m"
    using wrs_fits[of 0 a m1] l lm by auto
  obtain m3 where m3: "wrs m2 (8 * i) b = Some m3" "length m3 = length m"
    using wrs_fits[of "8 * i" b m2] l m2(2) by auto
  have "m3 = m"
  proof (rule nth_equalityI)
    fix p assume "p < length m3"
    consider "p < 8" | "8 * i \<le> p" "p < 8 * i + 8" | "8 \<le> p" "p < 8 * i \<or> 8 * i + 8 \<le> p" by fastforce
    then show "m3 ! p = m ! p"
    proof cases
      case 1
      have "rds m3 0 8 = Some a" using rds_wrs_other[OF m3(1), of 0 8] wrs_rds[OF m2(1)] l assms(2) by simp
      then show ?thesis using 1 ab(1) by (auto simp: rds_def dest: nth_take_lemma split: if_splits) (metis nth_take)
    next
      case 2
      have "take 8 (drop (8 * i) m3) = take 8 (drop (8 * i) m)"
        using wrs_rds[OF m3(1)] ab(2) l by (auto simp: rds_def split: if_splits)
      then have "take 8 (drop (8 * i) m3) ! (p - 8 * i) = take 8 (drop (8 * i) m) ! (p - 8 * i)" by simp
      then show ?thesis using 2 l m3(2) by simp
    next
      case 3
      then show ?thesis
        using wrs_frame[OF m3(1), of p] wrs_frame[OF m2(1), of p] wrs_frame[OF m0(2), of p] wrs_frame[OF m0(1), of p] l LB
        by auto
    qed
  qed (simp add: m3)
  then show ?thesis
    using k2 m2 m3 r0 r1 LB lm enc_key[of k "a @ b"] B l by (simp add: crypt_R_def)
qed

lemma wrap_step_inverse:
  assumes "wrap_step enc n (j, i) (k, m) = Some (k1, m1)" and "0 < i" and "key k' = key k"
  shows "\<exists>k2. unwrap_step dec n (j, i) (k', m1) = Some (k2, m) \<and> key k2 = key k' \<and> key k1 = key k \<and> length m1 = length m"
proof -
  obtain m0 where m0: "crypt_R enc i k m = Some (k1, m0)" "xor_R0 m0 (wrapmask (of_nat (n * j + i))) = Some m1"
    using assms(1) by (auto simp: wrap_step_def split: bind_splits)
  show ?thesis
    using crypt_R_inverse[OF m0(1) assms(2,3)] xor_R0_twice[OF m0(2)] by (auto simp: unwrap_step_def)
qed

lemma wrap_steps_inverse:
  assumes "steps (wrap_step enc n) ps (k, m) = Some (k1, m1)" and "\<forall>(j, i) \<in> set ps. 0 < i" and "key k' = key k"
  shows "\<exists>k2. steps (unwrap_step dec n) (rev ps) (k', m1) = Some (k2, m) \<and> key k2 = key k' \<and> length m1 = length m"
  using assms
proof (induction ps arbitrary: k m)
  case (Cons q ps)
  obtain j i where q: "q = (j, i)" by (cases q)
  obtain k0 m0 where s0: "wrap_step enc n (j, i) (k, m) = Some (k0, m0)" "steps (wrap_step enc n) ps (k0, m0) = Some (k1, m1)"
    using Cons.prems(1) by (auto simp: q split: bind_splits)
  have "0 < i" using Cons.prems(2) by (simp add: q)
  note inv = wrap_step_inverse[OF s0(1) this]
  have "key k0 = key k" using inv[OF refl] by blast
  then obtain k2 where k2: "steps (unwrap_step dec n) (rev ps) (k', m1) = Some (k2, m0)" "key k2 = key k'" "length m1 = length m0"
    using Cons.IH[OF s0(2)] Cons.prems(2,3) by auto
  then show ?case using inv[of k2] Cons.prems(3) by (auto simp: steps_append q)
qed simp

lemma wrap_steps_total:
  assumes "\<forall>(j, i) \<in> set ps. 0 < i \<and> 8 * i + 8 \<le> length m"
  shows "\<exists>k1 m1. steps (wrap_step enc n) ps (k, m) = Some (k1, m1)"
  using assms
proof (induction ps arbitrary: k m)
  case (Cons q ps)
  obtain j i where q: "q = (j, i)" by (cases q)
  have i: "0 < i" "8 * i + 8 \<le> length m" using Cons.prems by (auto simp: q)
  obtain k1 m0 where m0: "crypt_R enc i k m = Some (k1, m0)" "length m0 = length m"
    using crypt_R_total[of enc k, OF enc_length i(2)] by auto
  obtain m1 where m1: "xor_R0 m0 (wrapmask (of_nat (n * j + i))) = Some m1" "length m1 = length m"
    using xor_R0_total[of m0 "wrapmask (of_nat (n * j + i))"] xor_R0_twice[of m0] i m0(2) by (metis add_leD2)
  then have "\<exists>k2 m2. steps (wrap_step enc n) ps (k1, m1) = Some (k2, m2)"
    using Cons by (intro Cons.IH) auto
  then show ?case using m0 m1 by (auto simp: q wrap_step_def)
qed simp

end

interpretation aes: block_cipher aes128_encrypt aes128_decrypt ae_W
proof unfold_locales
  show "ae_W k' = ae_W k \<Longrightarrow> length b = 16 \<Longrightarrow> snd (aes128_decrypt k' (snd (aes128_encrypt k b))) = b" for k k' b
    by (rule decrypt_encrypt)
qed (simp_all add: aes128_encrypt_def aes128_decrypt_def Let_def)

lemma unwrap_pairs:
  "[(j, i). j \<leftarrow> rev [0..<6], i \<leftarrow> rev [1..<n + 1]] = rev [(j, i). j \<leftarrow> [0..<6], i \<leftarrow> [1..<n + 1]]"
  by (simp add: rev_concat rev_map comp_def del: upt_Suc upt_rec_numeral)

lemma aes128_unwrap_total:
  assumes "8 \<le> len" and "len \<le> length buf"
  shows "\<exists>buf'. aes128_unwrap key buf len = Some buf' \<and> length buf' = length buf"
proof -
  let ?n = "len div 8 - 1"
  have "8 * (len div 8) \<le> len" by simp
  then have "8 * i + 8 \<le> length buf" if "i < ?n + 1" for i using that assms by linarith
  then have "\<forall>(j, i) \<in> set [(j, i). j \<leftarrow> rev [0..<6], i \<leftarrow> rev [1..<?n + 1]]. 8 * i + 8 \<le> length buf"
    by (auto simp del: upt_Suc upt_rec_numeral)
  from aes.unwrap_steps_total[OF _ this, of ?n "aes128_init aes_zero key"] show ?thesis
    using assms unfolding aes128_unwrap_def Let_def by auto
qed

lemma unwrap_wrap:
  assumes "8 \<le> len" and "len \<le> length buf"
  shows "\<exists>buf'. aes128_wrap key buf len = Some buf' \<and> length buf' = length buf \<and> aes128_unwrap key buf' len = Some buf"
proof -
  let ?n = "len div 8 - 1" and ?k = "aes128_init aes_zero key"
  let ?ps = "[(j, i). j \<leftarrow> [0..<6], i \<leftarrow> [1..<?n + 1]]"
  have "8 * (len div 8) \<le> len" by simp
  then have idx: "8 * i + 8 \<le> length buf" if "i < ?n + 1" for i
    using that assms by linarith
  have ps: "\<forall>(j, i) \<in> set ?ps. 0 < i \<and> 8 * i + 8 \<le> length buf"
    using idx by (auto simp del: upt_Suc upt_rec_numeral)
  obtain k1 m1 where w: "steps (wrap_step aes128_encrypt ?n) ?ps (?k, buf) = Some (k1, m1)"
    using aes.wrap_steps_total[OF ps] by blast
  moreover have "\<forall>(j, i) \<in> set ?ps. 0 < i" using ps by fast
  ultimately obtain k2 where "steps (unwrap_step aes128_decrypt ?n) (rev ?ps) (?k, m1) = Some (k2, buf)" "length m1 = length buf"
    using aes.wrap_steps_inverse[OF w _ refl] by blast
  then show ?thesis
    unfolding aes128_wrap_def aes128_unwrap_def Let_def unwrap_pairs w using assms(1) by simp
qed

text \<open>Bytes after the wrapped ones are left alone.\<close>

lemma rds_more: "rds m p n = Some b \<Longrightarrow> rds (m @ r) p n = Some b"
  by (auto simp: rds_def split: if_splits)

lemma wrs_more: "wrs m p b = Some m' \<Longrightarrow> wrs (m @ r) p b = Some (m' @ r)"
  by (auto simp: wrs_def split: if_splits)

lemma unwrap_step_more:
  "unwrap_step crypt n q (k, m) = Some (k1, m1) \<Longrightarrow> unwrap_step crypt n q (k, m @ r) = Some (k1, m1 @ r)"
  by (cases q) (auto simp: unwrap_step_def xor_R0_def crypt_R_def rd64_def wr64_def rds_more wrs_more
      split: bind_splits prod.splits)

lemma unwrap_steps_more:
  "steps (unwrap_step crypt n) ps (k, m) = Some (k1, m1) \<Longrightarrow>
   steps (unwrap_step crypt n) ps (k, m @ r) = Some (k1, m1 @ r)"
  by (induction ps arbitrary: k m) (auto simp: unwrap_step_more split: bind_splits)

lemma aes128_unwrap_more: "aes128_unwrap key m len = Some m' \<Longrightarrow> aes128_unwrap key (m @ r) len = Some (m' @ r)"
  unfolding aes128_unwrap_def Let_def
  by (auto simp: unwrap_steps_more split: if_splits simp del: upt_Suc upt_rec_numeral)

lemma wrap_step_more:
  "wrap_step crypt n q (k, m) = Some (k1, m1) \<Longrightarrow> wrap_step crypt n q (k, m @ r) = Some (k1, m1 @ r)"
  by (cases q) (auto simp: wrap_step_def xor_R0_def crypt_R_def rd64_def wr64_def rds_more wrs_more
      split: bind_splits prod.splits)

lemma wrap_steps_more:
  "steps (wrap_step crypt n) ps (k, m) = Some (k1, m1) \<Longrightarrow>
   steps (wrap_step crypt n) ps (k, m @ r) = Some (k1, m1 @ r)"
  by (induction ps arbitrary: k m) (auto simp: wrap_step_more split: bind_splits)

lemma aes128_wrap_more: "aes128_wrap key m len = Some m' \<Longrightarrow> aes128_wrap key (m @ r) len = Some (m' @ r)"
  unfolding aes128_wrap_def Let_def
  by (auto simp: wrap_steps_more split: if_splits simp del: upt_Suc upt_rec_numeral)

section \<open>Properties\<close>

text \<open>
  C34.  Decryption inverts encryption: for every key and every block, decrypting what
  \<open>aes128_encrypt\<close> produced, under a context set up with the same key, gives the block back.
\<close>

theorem aes128_roundtrip:
  assumes "length blk = 16" and "length (ae_W ctx) = 44" and "length (ae_W ctx') = 44"
  shows "snd (aes128_decrypt (aes128_init ctx' key) (snd (aes128_encrypt (aes128_init ctx key) blk))) = blk"
proof -
  have "ae_W (aes128_init ctx' key) = ae_W (aes128_init ctx key)"
    using aes128_init_sched[OF assms(2), of key] aes128_init_sched[OF assms(3), of key]
    by (auto intro!: nth_equalityI)
  then show ?thesis by (rule decrypt_encrypt[OF _ assms(1)])
qed

theorem aes128_roundtrip_witness:
  "snd (aes128_decrypt (aes128_init aes_zero (replicate 16 5))
     (snd (aes128_encrypt (aes128_init aes_zero (replicate 16 5)) (replicate 16 9)))) = replicate 16 9"
  by (rule aes128_roundtrip) (simp_all add: aes_zero_def)



end
