(* ===== verification/Eapol.thy ===== *)
theory Eapol
  imports Sha1 Aes128 Fmt
begin

text \<open>
  The key negotiation of the wireless supplicant (\<^verbatim>\<open>src/wsupp/wsupp_eapol.c\<close>): the 4-way handshake and
  the group rekeying, on top of SHA-1, HMAC and the AES key wrap.

  The module's global variables are the record \<open>eap\<close>.  What it calls outside, system calls and the
  other modules of the supplicant, goes to the environment: every such call is an event appended to
  the log of the state, and its result is what the environment, a function of the log, answers.  The
  settings of the current access point (\<open>struct ap\<close>) and the address of the interface belong to other
  modules and come with the environment too.  The outer \<open>None\<close> of every operation is an access outside
  an object.
\<close>

section \<open>State and environment\<close>

definition ES_IDLE :: int where "ES_IDLE = 0"
definition ES_WAITING_1_4 :: int where "ES_WAITING_1_4 = 1"
definition ES_WAITING_2_4 :: int where "ES_WAITING_2_4 = 2"
definition ES_WAITING_3_4 :: int where "ES_WAITING_3_4 = 3"
definition ES_NEGOTIATED :: int where "ES_NEGOTIATED = 4"

datatype ev =
    Ev_socket | Ev_bind int | Ev_close int | Ev_warn string int | Ev_getrandom | Ev_recvfrom
  | Ev_sendto "byte list" "byte list"
  | Ev_upload_ptk "byte list" | Ev_upload_gtk int "byte list" "byte list"
  | Ev_success | Ev_abort int

record wenv =
  w_ifaddr :: "byte list"
  w_bssid :: "byte list"
  w_txies :: "byte list"
  w_gtklen :: nat
  w_resp :: "ev list \<Rightarrow> int"
  w_random :: "ev list \<Rightarrow> int \<times> byte list"
  w_recv :: "ev list \<Rightarrow> int + byte list \<times> byte list"

record eap =
  ep_rawsock :: int
  ep_pollset :: int
  ep_state :: int
  ep_sends :: int
  ep_version :: byte
  ep_amac :: "byte list"
  ep_smac :: "byte list"
  ep_anonce :: "byte list"
  ep_snonce :: "byte list"
  ep_replay :: "byte list"
  ep_PSK :: "byte list"
  ep_KCK :: "byte list"
  ep_KEK :: "byte list"
  ep_PTK :: "byte list"
  ep_GTK :: "byte list"
  ep_RSC :: "byte list"
  ep_gtkindex :: int
  ep_packet :: mem
  ep_log :: "ev list"

type_synonym eop = "eap \<Rightarrow> (int \<times> eap) option"

definition note_ev :: "ev \<Rightarrow> eap \<Rightarrow> eap" where
  "note_ev e s = s \<lparr> ep_log := ep_log s @ [e] \<rparr>"

definition ext :: "wenv \<Rightarrow> ev \<Rightarrow> eap \<Rightarrow> int \<times> eap" where
  "ext env e s = (w_resp env (ep_log s @ [e]), note_ev e s)"

definition zeroes :: "nat \<Rightarrow> byte list" where
  "zeroes n = replicate n 0"

definition swabs :: "u16 \<Rightarrow> u16" where
  "swabs n = push_bit 8 (n AND 0xFF) OR (drop_bit 8 n AND 0xFF)"

definition htons :: "u16 \<Rightarrow> u16" where "htons n = swabs n"
definition ntohs :: "u16 \<Rightarrow> u16" where "ntohs n = swabs n"

section \<open>The packet socket\<close>

definition open_rawsock :: "wenv \<Rightarrow> eap \<Rightarrow> int \<times> eap" where
  "open_rawsock env s =
     (if ep_rawsock s \<ge> 0 then (0, s)
      else case ext env Ev_socket s of (fd, s) \<Rightarrow>
        if fd < 0 then (fd, note_ev (Ev_warn ''socket'' fd) s)
        else case ext env (Ev_bind fd) s of (ret, s) \<Rightarrow>
          if ret < 0 then (ret, note_ev (Ev_close fd) (note_ev (Ev_warn ''bind'' ret) s))
          else (0, s \<lparr> ep_rawsock := fd, ep_pollset := 0 \<rparr>))"

definition close_rawsock :: "eap \<Rightarrow> eap" where
  "close_rawsock s =
     (if ep_rawsock s < 0 then s
      else (note_ev (Ev_close (ep_rawsock s)) s) \<lparr> ep_rawsock := -1, ep_pollset := 0 \<rparr>)"

section \<open>Key derivation and integrity codes\<close>

definition PRF480 :: "byte list \<Rightarrow> byte list \<Rightarrow> byte list \<Rightarrow> byte list \<Rightarrow> byte list \<Rightarrow> byte list \<Rightarrow> byte list option" where
  "PRF480 key str mac1 mac2 nonce1 nonce2 = do {
     slen \<leftarrow> strlen str;
     let ilen = slen + 1 + 2 * 6 + 2 * 32 + 1;
     let e = ilen + 10;
     (m, p) \<leftarrow> fmtraw str (int (slen + 1)) (zeroes e) 0 e;
     (m, p) \<leftarrow> fmtraw mac1 6 m p e;
     (m, p) \<leftarrow> fmtraw mac2 6 m p e;
     (m, p) \<leftarrow> fmtraw nonce1 32 m p e;
     (m, p) \<leftarrow> fmtraw nonce2 32 m p e;
     m \<leftarrow> wr m p 0;
     k0 \<leftarrow> hmac_sha1 key 32 m ilen;
     m \<leftarrow> wr m p 1;
     k1 \<leftarrow> hmac_sha1 key 32 m ilen;
     m \<leftarrow> wr m p 2;
     k2 \<leftarrow> hmac_sha1 key 32 m ilen;
     Some (k0 @ k1 @ k2) }"

definition make_mic :: "byte list \<Rightarrow> mem \<Rightarrow> nat \<Rightarrow> byte list option" where
  "make_mic kck buf len = map_option (take 16) (hmac_sha1 kck 16 buf len)"

text \<open>\<open>check_mic\<close> clears the code in the packet, at \<open>mic\<close>, before it hashes the packet.\<close>

definition check_mic :: "nat \<Rightarrow> byte list \<Rightarrow> mem \<Rightarrow> nat \<Rightarrow> (int \<times> mem) option" where
  "check_mic mic kck buf len = do {
     copy \<leftarrow> rds buf mic 16;
     buf \<leftarrow> wrs buf mic (zeroes 16);
     h \<leftarrow> hmac_sha1 kck 16 buf len;
     ret \<leftarrow> memxcmp h copy 16;
     Some (ret, buf) }"

definition iv :: "byte list" where "iv = replicate 8 0xA6"

definition unwrap_key :: "byte list \<Rightarrow> mem \<Rightarrow> nat \<Rightarrow> nat \<Rightarrow> (int \<times> mem) option" where
  "unwrap_key kek m off len =
     (if len mod 8 \<noteq> 0 \<or> len < 16 then Some (-1, m)
      else do {
        buf \<leftarrow> aes128_unwrap kek (drop off m) len;
        ret \<leftarrow> memxcmp buf iv 8;
        Some (ret, take off m @ buf) })"

definition pmk_to_ptk :: "wenv \<Rightarrow> eap \<Rightarrow> eap option" where
  "pmk_to_ptk env s = do {
     smac \<leftarrow> rds (w_ifaddr env) 0 6;
     amac \<leftarrow> rds (w_bssid env) 0 6;
     let s = s \<lparr> ep_smac := smac, ep_amac := amac \<rparr>;
     c \<leftarrow> memcmp smac amac 6;
     let (mac1, mac2) = (if c < 0 then (smac, amac) else (amac, smac));
     c \<leftarrow> memcmp (ep_snonce s) (ep_anonce s) 32;
     let (nonce1, nonce2) = (if c < 0 then (ep_snonce s, ep_anonce s) else (ep_anonce s, ep_snonce s));
     key \<leftarrow> PRF480 (ep_PSK s) (bstr ''Pairwise key expansion'' @ [0]) mac1 mac2 nonce1 nonce2;
     kck \<leftarrow> rds key 0 16;
     kek \<leftarrow> rds key 16 16;
     ptk \<leftarrow> rds key 32 16;
     Some (s \<lparr> ep_KCK := kck, ep_KEK := kek, ep_PTK := ptk \<rparr>) }"

section \<open>The group key\<close>

definition kde_type_gtk :: "byte list" where "kde_type_gtk = [0x00, 0x0F, 0xAC, 0x01]"

definition store_gtk :: "wenv \<Rightarrow> int \<Rightarrow> nat \<Rightarrow> int \<Rightarrow> eop" where
  "store_gtk env idx buf len s =
     (let explen = w_gtklen env
      in if len \<noteq> int explen then Some (-1, s)
         else do {
           let s = s \<lparr> ep_gtkindex := idx \<rparr>;
           k \<leftarrow> rds (ep_packet s) buf 16;
           g \<leftarrow> wrs (ep_GTK s) 0 k;
           g \<leftarrow> (if explen = 32 then do {
                   k \<leftarrow> rds (ep_packet s) (buf + 24) 8;
                   g \<leftarrow> wrs g 16 k;
                   k \<leftarrow> rds (ep_packet s) (buf + 16) 8;
                   wrs g 24 k }
                 else Some g);
           Some (0, s \<lparr> ep_GTK := g \<rparr>) })"

text \<open>The loop of \<open>fetch_gtk\<close>; \<open>ptr\<close> and \<open>en\<close> are offsets into the packet.\<close>

function fetch_loop :: "wenv \<Rightarrow> nat \<Rightarrow> nat \<Rightarrow> eop" where
  "fetch_loop env ptr en s =
     (if ptr + 6 < en then do {
        magic \<leftarrow> rd (ep_packet s) ptr;
        kl \<leftarrow> rd (ep_packet s) (ptr + 1);
        if ptr + 2 + unat kl > en then Some (-1, s)
        else do {
          let datalen = int (unat kl) + 2 - 6;
          if magic \<noteq> 0xDD then fetch_loop env (ptr + 2 + unat kl) en s
          else do {
            t \<leftarrow> rds (ep_packet s) (ptr + 2) 4;
            c \<leftarrow> memcmp t kde_type_gtk 4;
            if c \<noteq> 0 then fetch_loop env (ptr + 2 + unat kl) en s
            else if datalen < 2 + 16 then fetch_loop env (ptr + 2 + unat kl) en s
            else do {
              fl \<leftarrow> rd (ep_packet s) (ptr + 6);
              let idx = uint (fl AND 3);
              if idx = 0 then Some (-1, s)
              else store_gtk env idx (ptr + 6 + 2) (datalen - 2) s } } } }
      else Some (-1, s))"
  by pat_completeness auto
termination by (relation "measure (\<lambda>(env, ptr, en, s). en - ptr)") auto

declare fetch_loop.simps [simp del]

definition fetch_gtk :: "wenv \<Rightarrow> nat \<Rightarrow> int \<Rightarrow> eop" where
  "fetch_gtk env buf len = fetch_loop env buf (nat (int buf + len))"

section \<open>Resetting and starting\<close>

definition cleanup_keys :: "eap \<Rightarrow> eap" where
  "cleanup_keys s = s \<lparr> ep_packet := zeroes 1024, ep_anonce := zeroes 32, ep_snonce := zeroes 32,
     ep_PTK := zeroes 16, ep_GTK := zeroes 32 \<rparr>"

definition reset_eapol_state :: "eap \<Rightarrow> eap" where
  "reset_eapol_state s = (cleanup_keys s) \<lparr> ep_KCK := zeroes 16, ep_GTK := zeroes 32, ep_KEK := zeroes 16,
     ep_snonce := zeroes 32, ep_anonce := zeroes 32, ep_amac := zeroes 6, ep_smac := zeroes 6, ep_version := 0 \<rparr>"

text \<open>A successful \<open>getrandom\<close> stores up to 32 bytes.\<close>

definition prime_eapol_state :: "wenv \<Rightarrow> eap \<Rightarrow> int \<times> eap" where
  "prime_eapol_state env s =
     (let s = note_ev Ev_getrandom (s \<lparr> ep_state := ES_WAITING_1_4, ep_sends := 0 \<rparr>)
      in case w_random env (ep_log s) of (ret, bs) \<Rightarrow>
           if ret < 0 then (ret, s)
           else (ret, s \<lparr> ep_snonce := take 32 bs @ drop (length (take 32 bs)) (ep_snonce s) \<rparr>))"

section \<open>Packets\<close>

definition EAPOL_KEY :: byte where "EAPOL_KEY = 3"
definition EAPOL_KEY_RSN :: byte where "EAPOL_KEY_RSN = 2"

definition KI_TYPEMASK :: u16 where "KI_TYPEMASK = 0x0007"
definition KI_SHA :: u16 where "KI_SHA = 2"
definition KI_PAIRWISE :: u16 where "KI_PAIRWISE = 0x0008"
definition KI_ACK :: u16 where "KI_ACK = 0x0080"
definition KI_MIC :: u16 where "KI_MIC = 0x0100"
definition KI_SECURE :: u16 where "KI_SECURE = 0x0200"
definition KI_ENCRYPTED :: u16 where "KI_ENCRYPTED = 0x1000"

definition EBADMSG :: int where "EBADMSG = 74"
definition ENOKEY :: int where "ENOKEY = 126"
definition EMSGSIZE :: int where "EMSGSIZE = 90"
definition EINVAL :: int where "EINVAL = 22"

text \<open>
  The fields of \<open>struct eapolkey\<close>: version 0, pactype 1, paclen 2, type 4, keyinfo 5, keylen 7,
  replay 9, nonce 17, iv 49, rsc 65, reserved 73, mic 81, paylen 97, payload 99.
\<close>

definition net16 :: "mem \<Rightarrow> nat \<Rightarrow> nat option" where
  "net16 m p = map_option (\<lambda>w. unat (ntohs w)) (rd16 m p)"

fun put_fields :: "(nat \<times> byte list) list \<Rightarrow> mem \<Rightarrow> mem option" where
  "put_fields [] m = Some m"
| "put_fields ((p, bs) # fs) m = do { m \<leftarrow> wrs m p bs; put_fields fs m }"

definition send_packet :: "wenv \<Rightarrow> nat \<Rightarrow> eop" where
  "send_packet env len s = do {
     data \<leftarrow> rds (ep_packet s) 0 len;
     (case ext env (Ev_sendto (ep_amac s) data) s of (ret, s) \<Rightarrow>
        if ret < 0 then Some (ret, note_ev (Ev_warn ''send'' ret) s)
        else if ret \<noteq> int len then Some (- EMSGSIZE, s)
        else Some (ret, s)) }"

definition ptype :: "mem \<Rightarrow> u16 \<Rightarrow> bool option" where
  "ptype m bits = do {
     w \<leftarrow> rd16 m 5;
     let keyinfo = ntohs w;
     let msk = KI_PAIRWISE OR KI_ACK OR KI_SECURE OR KI_MIC OR KI_ENCRYPTED;
     Some (keyinfo AND KI_TYPEMASK = KI_SHA \<and> keyinfo AND msk = bits) }"

definition send_packet_2 :: "wenv \<Rightarrow> eop" where
  "send_packet_2 env s = do {
     let paylen = length (w_txies env);
     let paclen = 99 + paylen;
     m \<leftarrow> put_fields [(0, [ep_version s]), (1, [EAPOL_KEY]), (4, [EAPOL_KEY_RSN]),
            (5, le_bytes 2 (htons (KI_SHA OR KI_PAIRWISE OR KI_MIC))), (7, le_bytes 2 (htons 16)),
            (9, ep_replay s), (17, ep_snonce s), (49, zeroes 16), (65, zeroes 8), (81, zeroes 16), (73, zeroes 8),
            (97, le_bytes 2 (htons (of_nat paylen))), (2, le_bytes 2 (htons (of_nat (paclen - 4)))),
            (99, w_txies env)] (ep_packet s);
     mic \<leftarrow> make_mic (ep_KCK s) m paclen;
     m \<leftarrow> wrs m 81 mic;
     (ret, s) \<leftarrow> send_packet env paclen (s \<lparr> ep_packet := m \<rparr>);
     if ret < 0 then Some (ret, s)
     else Some (0, s \<lparr> ep_state := ES_WAITING_3_4 \<rparr>) }"

definition allow_eapol_sends :: "wenv \<Rightarrow> eop" where
  "allow_eapol_sends env s =
     (if ep_state s = ES_WAITING_1_4 then Some (0, s \<lparr> ep_sends := 1 \<rparr>)
      else if ep_state s = ES_WAITING_2_4 then do {
        (ret, s) \<leftarrow> send_packet_2 env s;
        Some (if ret < 0 then ret else 0, s) }
      else Some (- EINVAL, s))"

definition recv_packet_1 :: "wenv \<Rightarrow> eop" where
  "recv_packet_1 env s = do {
     let ek = ep_packet s;
     ty \<leftarrow> rd ek 4;
     if ty \<noteq> EAPOL_KEY_RSN then Some (0, s)
     else do {
       ok \<leftarrow> ptype ek (KI_PAIRWISE OR KI_ACK);
       if \<not> ok then Some (0, s)
       else do {
         v \<leftarrow> rd ek 0;
         n \<leftarrow> rds ek 17 32;
         r \<leftarrow> rds ek 9 8;
         s \<leftarrow> pmk_to_ptk env (s \<lparr> ep_version := v, ep_anonce := n, ep_replay := r \<rparr>);
         if ep_sends s \<noteq> 0 then send_packet_2 env s
         else Some (0, s \<lparr> ep_state := ES_WAITING_2_4 \<rparr>) } } }"

definition upload_ptk :: "wenv \<Rightarrow> eap \<Rightarrow> int \<times> eap" where
  "upload_ptk env s = ext env (Ev_upload_ptk (ep_PTK s)) s"

definition upload_gtk :: "wenv \<Rightarrow> eap \<Rightarrow> int \<times> eap" where
  "upload_gtk env s = ext env (Ev_upload_gtk (ep_gtkindex s) (take (w_gtklen env) (ep_GTK s)) (ep_RSC s)) s"

definition send_packet_4 :: "wenv \<Rightarrow> eop" where
  "send_packet_4 env s = do {
     let paclen = 99;
     m \<leftarrow> put_fields [(0, [ep_version s]), (1, [3]), (4, [2]),
            (5, le_bytes 2 (htons (KI_SHA OR KI_PAIRWISE OR KI_MIC OR KI_SECURE))), (7, zeroes 2),
            (9, ep_replay s), (17, zeroes 32), (49, zeroes 16), (65, zeroes 8), (81, zeroes 16), (73, zeroes 8),
            (97, le_bytes 2 (htons 0)), (2, le_bytes 2 (htons (of_nat (paclen - 4))))] (ep_packet s);
     mic \<leftarrow> make_mic (ep_KCK s) m paclen;
     m \<leftarrow> wrs m 81 mic;
     (ret, s) \<leftarrow> send_packet env paclen (s \<lparr> ep_packet := m \<rparr>);
     if ret < 0 then Some (ret, s)
     else (case upload_ptk env (s \<lparr> ep_state := ES_NEGOTIATED \<rparr>) of (ret, s) \<Rightarrow>
       if ret < 0 then Some (ret, s)
       else (case upload_gtk env s of (ret, s) \<Rightarrow>
         if ret < 0 then Some (ret, s)
         else Some (0, note_ev Ev_success (cleanup_keys s)))) }"

text \<open>The common end of \<open>recv_packet_3\<close> and \<open>recv_group_1\<close>, once the integrity code has been checked.\<close>

definition take_gtk :: "wenv \<Rightarrow> (wenv \<Rightarrow> eop) \<Rightarrow> eop" where
  "take_gtk env answer s = do {
     paylen \<leftarrow> net16 (ep_packet s) 97;
     (ret, m) \<leftarrow> unwrap_key (ep_KEK s) (ep_packet s) 99 paylen;
     let s = s \<lparr> ep_packet := m \<rparr>;
     if ret \<noteq> 0 then Some (- ENOKEY, s)
     else do {
       (ret, s) \<leftarrow> fetch_gtk env (99 + 8) (int paylen - 8) s;
       if ret \<noteq> 0 then Some (- ENOKEY, s)
       else do {
         rsc \<leftarrow> rds (ep_packet s) 65 6;
         rep \<leftarrow> rds (ep_packet s) 9 8;
         answer env (s \<lparr> ep_RSC := rsc, ep_replay := rep \<rparr>) } } }"

definition recv_packet_3 :: "wenv \<Rightarrow> eop" where
  "recv_packet_3 env s = do {
     let ek = ep_packet s;
     pl \<leftarrow> net16 ek 2;
     let paclen = 4 + pl;
     ok1 \<leftarrow> ptype ek (KI_PAIRWISE OR KI_ACK);
     if ok1 then Some (0, s)
     else do {
       ok \<leftarrow> ptype ek (KI_PAIRWISE OR KI_ACK OR KI_MIC OR KI_ENCRYPTED OR KI_SECURE);
       if \<not> ok then Some (0, s)
       else do {
         n \<leftarrow> rds ek 17 32;
         c \<leftarrow> memcmp (ep_anonce s) n 32;
         if c \<noteq> 0 then Some (- EBADMSG, s)
         else do {
           r \<leftarrow> rds ek 9 8;
           c \<leftarrow> memcmp (ep_replay s) r 8;
           if c \<ge> 0 then Some (- EBADMSG, s)
           else do {
             (ret, m) \<leftarrow> check_mic 81 (ep_KCK s) ek paclen;
             let s = s \<lparr> ep_packet := m \<rparr>;
             if ret \<noteq> 0 then Some (- EBADMSG, s)
             else take_gtk env send_packet_4 s } } } } }"

definition send_group_2 :: "wenv \<Rightarrow> eop" where
  "send_group_2 env s = do {
     let paclen = 99;
     m \<leftarrow> put_fields [(0, [ep_version s]), (1, [3]), (4, [2]),
            (5, le_bytes 2 (htons (KI_MIC OR KI_SECURE))), (7, zeroes 2),
            (9, ep_replay s), (17, zeroes 32), (49, zeroes 16), (65, zeroes 8), (81, zeroes 16), (73, zeroes 8),
            (97, le_bytes 2 (htons 0)), (2, le_bytes 2 (htons (of_nat paclen)))] (ep_packet s);
     mic \<leftarrow> make_mic (ep_KCK s) m paclen;
     m \<leftarrow> wrs m 81 mic;
     (ret, s) \<leftarrow> send_packet env paclen (s \<lparr> ep_packet := m \<rparr>);
     if ret < 0 then Some (ret, s)
     else (case upload_gtk env s of (ret, s) \<Rightarrow>
       if ret < 0 then Some (ret, s) else Some (0, s)) }"

definition recv_group_1 :: "wenv \<Rightarrow> eop" where
  "recv_group_1 env s = do {
     let ek = ep_packet s;
     pl \<leftarrow> net16 ek 2;
     let paclen = 4 + pl;
     ty \<leftarrow> rd ek 4;
     if ty \<noteq> EAPOL_KEY_RSN then Some (0, s)
     else do {
       ok \<leftarrow> ptype ek (KI_SECURE OR KI_ENCRYPTED OR KI_ACK OR KI_MIC);
       if \<not> ok then Some (0, s)
       else do {
         r \<leftarrow> rds ek 9 8;
         c \<leftarrow> memcmp (ep_replay s) r 8;
         if c \<ge> 0 then Some (0, s)
         else do {
           (ret, m) \<leftarrow> check_mic 81 (ep_KCK s) ek paclen;
           let s = s \<lparr> ep_packet := m \<rparr>;
           if ret \<noteq> 0 then Some (0, s)
           else take_gtk env send_group_2 s } } } }"

definition eap_dispatch :: "wenv \<Rightarrow> eop" where
  "eap_dispatch env s =
     (if ep_state s = ES_WAITING_1_4 then recv_packet_1 env s
      else if ep_state s = ES_WAITING_3_4 then recv_packet_3 env s
      else if ep_state s = ES_NEGOTIATED then recv_group_1 env s
      else Some (0, s))"

text \<open>
  \<open>handle_rawsock\<close>; the kernel's answer is an error or the sender's address and the frame, of which at
  most 1024 bytes are stored.
\<close>

definition handle_rawsock :: "wenv \<Rightarrow> eap \<Rightarrow> eap option" where
  "handle_rawsock env s =
     (let s = note_ev Ev_recvfrom s
      in case w_recv env (ep_log s) of
           Inl ret \<Rightarrow> Some (note_ev (Ev_warn ''EAPOL'' ret) s)
         | Inr (addr, data) \<Rightarrow> do {
             let rx = length (take 1024 data);
             m \<leftarrow> wrs (ep_packet s) 0 (take 1024 data);
             let s = s \<lparr> ep_packet := m \<rparr>;
             c \<leftarrow> memcmp (w_bssid env) addr 6;
             if c \<noteq> 0 then Some s
             else if rx < 99 then Some s
             else do {
               pac \<leftarrow> net16 m 2;
               pay \<leftarrow> net16 m 97;
               ty \<leftarrow> rd m 1;
               if pac + 4 \<noteq> rx then Some s
               else if 99 + pay > rx then Some s
               else if ty \<noteq> EAPOL_KEY then Some s
               else do {
                 (ret, s) \<leftarrow> eap_dispatch env s;
                 Some (if ret < 0 then note_ev (Ev_abort ret) s else s) } } })"

end
