(* ===== verification/Eapol_Inv.thy ===== *)
theory Eapol_Inv
  imports Eapol
begin

text \<open>
  What every operation of the key negotiation keeps: the objects have their sizes, nothing outside
  them is accessed, and keys are handed to the kernel only by the two answers that end an exchange.
\<close>

section \<open>The cryptographic primitives on whole buffers\<close>

lemma length_sha1_spec [simp]: "length (sha1_spec m) = 20"
  unfolding sha1_spec_digest by (rule sh1.digest_size)

lemma length_hmac_sha1_spec [simp]: "length (hmac_spec sha1_spec k m) = 20"
  by (simp add: hmac_spec_def Let_def)

lemma hmac_sha1_total:
  assumes "len \<le> length buf" and "n = int (length key)"
  shows "hmac_sha1 key n buf len = Some (hmac_spec sha1_spec (take 64 key) (take len buf))"
  using sh1.hmac_ok[of key "[]" "take len buf" "drop len buf"] assms
  unfolding hmac_sha1_def sha1_spec_digest by (simp add: min_absorb2)

definition mic_of :: "byte list \<Rightarrow> byte list \<Rightarrow> byte list" where
  "mic_of kck m = take 16 (hmac_spec sha1_spec kck m)"

lemma length_mic_of [simp]: "length (mic_of kck m) = 16"
  by (simp add: mic_of_def)

lemma make_mic_total:
  "length kck = 16 \<Longrightarrow> len \<le> length buf \<Longrightarrow> make_mic kck buf len = Some (mic_of kck (take len buf))"
  by (simp add: make_mic_def hmac_sha1_total mic_of_def)

lemma check_mic_total:
  assumes "length kck = 16" and "len \<le> length buf" and "97 \<le> length buf"
  shows "\<exists>ret. check_mic 81 kck buf len = Some (ret, take 81 buf @ zeroes 16 @ drop 97 buf) \<and>
    (ret = 0 \<longleftrightarrow> take 16 (drop 81 buf) = mic_of kck (take len (take 81 buf @ zeroes 16 @ drop 97 buf)))"
proof -
  let ?b = "take 81 buf @ zeroes 16 @ drop 97 buf"
  let ?h = "hmac_spec sha1_spec kck (take len ?b)"
  have l: "length ?b = length buf" using assms(3) by (simp add: zeroes_def)
  have w: "wrs buf 81 (zeroes 16) = Some ?b" using assms(3) by (simp add: wrs_def zeroes_def)
  have r: "rds buf 81 16 = Some (take 16 (drop 81 buf))" using assms(3) by (simp add: rds_def)
  have h: "hmac_sha1 kck 16 ?b len = Some ?h" using hmac_sha1_total[of len ?b 16 kck] assms l by simp
  obtain d where d: "memxcmp ?h (take 16 (drop 81 buf)) 16 = Some d" "d = 0 \<longleftrightarrow> take 16 ?h = take 16 (drop 81 buf)"
    using memxcmp_zero_iff[of 16 ?h "take 16 (drop 81 buf)"] assms(3) by auto
  show ?thesis
    unfolding check_mic_def r w bind.simps h using d by (auto simp: mic_of_def)
qed

lemma unwrap_key_total:
  assumes "off + len \<le> length m"
  shows "\<exists>ret m'. unwrap_key kek m off len = Some (ret, m') \<and> length m' = length m \<and> take off m' = take off m"
proof (cases "len mod 8 \<noteq> 0 \<or> len < 16")
  case False
  then have "8 \<le> len" "len \<le> length (drop off m)" using assms by auto
  then obtain b where b: "aes128_unwrap kek (drop off m) len = Some b" "length b = length m - off"
    using aes128_unwrap_total[of len "drop off m" kek] by auto
  have "8 \<le> length b" using b(2) assms False by linarith
  moreover have "8 \<le> length iv" by (simp add: iv_def)
  ultimately obtain d where "memxcmp b iv 8 = Some d" using memxcmp_zero_iff by blast
  then show ?thesis using b False assms by (simp add: unwrap_key_def)
qed (simp add: unwrap_key_def)

section \<open>Key derivation\<close>

lemma fmtraw_next:
  assumes "int (length d) = n" and "length pre + length d \<le> e" and "e = length (pre @ zeroes k)"
  shows "fmtraw d n (pre @ zeroes k) (length pre) e = Some ((pre @ d) @ zeroes (k - length d), length (pre @ d))"
  using assms by (auto simp: fmtraw_def Let_def wrs_def zeroes_def)

definition prf_input :: "byte list \<Rightarrow> byte list \<Rightarrow> byte list \<Rightarrow> byte list \<Rightarrow> byte list \<Rightarrow> byte \<Rightarrow> byte list" where
  "prf_input label mac1 mac2 nonce1 nonce2 i = label @ [0] @ mac1 @ mac2 @ nonce1 @ nonce2 @ [i]"

lemma PRF480_eq:
  assumes "0 \<notin> set label" and "length key = 32" and "length mac1 = 6" and "length mac2 = 6"
    and "length nonce1 = 32" and "length nonce2 = 32"
  shows "PRF480 key (label @ [0]) mac1 mac2 nonce1 nonce2 =
    Some (concat (map (\<lambda>i. hmac_spec sha1_spec key (prf_input label mac1 mac2 nonce1 nonce2 i)) [0, 1, 2]))"
proof -
  let ?n = "length label"
  let ?e = "?n + 1 + 2 * 6 + 2 * 32 + 1 + 10"
  let ?p0 = "label @ [0]"
  let ?p1 = "?p0 @ mac1"
  let ?p2 = "?p1 @ mac2"
  let ?p3 = "?p2 @ nonce1"
  let ?p4 = "?p3 @ nonce2"
  have len: "strlen (label @ [0]) = Some ?n" using assms(1) cstr_append[of label "[]"] by (simp add: strlen_cstr)
  have f0: "fmtraw (label @ [0]) (int (?n + 1)) (zeroes ?e) 0 ?e = Some (?p0 @ zeroes 87, length ?p0)"
    using fmtraw_next[of "label @ [0]" "int (?n + 1)" "[]" ?e ?e] by (simp add: zeroes_def)
  have f1: "fmtraw mac1 6 (?p0 @ zeroes 87) (length ?p0) ?e = Some (?p1 @ zeroes 81, length ?p1)"
    using fmtraw_next[of mac1 6 ?p0 ?e 87] assms by (simp add: zeroes_def)
  have f2: "fmtraw mac2 6 (?p1 @ zeroes 81) (length ?p1) ?e = Some (?p2 @ zeroes 75, length ?p2)"
    using fmtraw_next[of mac2 6 ?p1 ?e 81] assms by (simp add: zeroes_def)
  have f3: "fmtraw nonce1 32 (?p2 @ zeroes 75) (length ?p2) ?e = Some (?p3 @ zeroes 43, length ?p3)"
    using fmtraw_next[of nonce1 32 ?p2 ?e 75] assms by (simp add: zeroes_def)
  have f4: "fmtraw nonce2 32 (?p3 @ zeroes 43) (length ?p3) ?e = Some (?p4 @ zeroes 11, length ?p4)"
    using fmtraw_next[of nonce2 32 ?p3 ?e 43] assms by (simp add: zeroes_def)
  have z: "zeroes 11 = 0 # zeroes 10" by (simp add: zeroes_def numeral_eq_Suc)
  have w: "wr (?p4 @ j # zeroes 10) (length ?p4) i = Some (?p4 @ i # zeroes 10)" for i j
    by (simp only: wr_wrs) (simp add: wrs_def)
  have h: "hmac_sha1 key 32 (?p4 @ i # zeroes 10) (?n + 1 + 2 * 6 + 2 * 32 + 1) =
      Some (hmac_spec sha1_spec key (prf_input label mac1 mac2 nonce1 nonce2 i))" for i
    using hmac_sha1_total[of "?n + 78" "?p4 @ i # zeroes 10" 32 key] assms by (simp add: prf_input_def add.commute)
  show ?thesis
    unfolding PRF480_def len bind.simps Let_def f0 f1 f2 f3 f4 prod.case z w h by simp
qed

section \<open>Sizes\<close>

definition eap_wf :: "eap \<Rightarrow> bool" where
  "eap_wf s \<longleftrightarrow> length (ep_packet s) = 1024 \<and> length (ep_anonce s) = 32 \<and> length (ep_snonce s) = 32 \<and>
     length (ep_replay s) = 8 \<and> length (ep_PSK s) = 32 \<and> length (ep_KCK s) = 16 \<and> length (ep_KEK s) = 16 \<and>
     length (ep_PTK s) = 16 \<and> length (ep_GTK s) = 32 \<and> length (ep_RSC s) = 6 \<and> length (ep_amac s) = 6 \<and>
     length (ep_smac s) = 6"

text \<open>
  What the module relies on: addresses of six bytes and information elements that fit the packet buffer.
\<close>

definition env_wf :: "wenv \<Rightarrow> bool" where
  "env_wf env \<longleftrightarrow> length (w_ifaddr env) = 6 \<and> length (w_bssid env) = 6 \<and> length (w_txies env) \<le> 925 \<and>
     (\<forall>l a d. w_recv env l = Inr (a, d) \<longrightarrow> 6 \<le> length a)"

definition is_key_ev :: "ev \<Rightarrow> bool" where
  "is_key_ev e = (case e of Ev_upload_ptk _ \<Rightarrow> True | Ev_upload_gtk _ _ _ \<Rightarrow> True | _ \<Rightarrow> False)"

definition is_ptk_ev :: "ev \<Rightarrow> bool" where
  "is_ptk_ev e = (case e of Ev_upload_ptk _ \<Rightarrow> True | _ \<Rightarrow> False)"

definition key_events :: "eap \<Rightarrow> ev list" where
  "key_events s = filter is_key_ev (ep_log s)"

definition primes :: "eap \<Rightarrow> nat" where
  "primes s = length (filter (\<lambda>e. e = Ev_getrandom) (ep_log s))"

text \<open>An operation that installs no key; it may go on from packet 1 to packet 3.\<close>

definition calm :: "eap \<Rightarrow> eap \<Rightarrow> bool" where
  "calm s s' \<longleftrightarrow> key_events s' = key_events s \<and> primes s' = primes s \<and>
     (ep_state s' = ep_state s \<or> ep_state s \<in> {1, 2} \<and> ep_state s' \<in> {2, 3})"

lemma calm_refl [simp]: "calm s s"
  by (simp add: calm_def)

lemma calm_trans: "calm s t \<Longrightarrow> calm t u \<Longrightarrow> calm s u"
  by (auto simp: calm_def)

lemmas log_simps = key_events_def primes_def is_key_ev_def note_ev_def ext_def

section \<open>Building and sending packets\<close>

lemma put_fields_total:
  "\<forall>(p, bs) \<in> set fs. p + length bs \<le> length m \<Longrightarrow> \<exists>m'. put_fields fs m = Some m' \<and> length m' = length m"
proof (induction fs arbitrary: m)
  case (Cons f fs)
  obtain p bs where f: "f = (p, bs)" by (cases f)
  obtain m1 where "wrs m p bs = Some m1" "length m1 = length m"
    using wrs_fits[of p bs m] Cons.prems by (auto simp: f)
  then show ?case using Cons.IH[of m1] Cons.prems by (auto simp: f)
qed simp

lemma send_packet_total:
  assumes "eap_wf s" and "len \<le> 1024"
  shows "\<exists>ret s'. send_packet env len s = Some (ret, s') \<and> calm s s' \<and> ep_state s' = ep_state s \<and>
    s' = s \<lparr> ep_log := ep_log s' \<rparr>"
  using assms by (auto simp: send_packet_def eap_wf_def rds_def calm_def log_simps Let_def)

text \<open>The packet is filled in, signed and sent.\<close>

lemma signed_send:
  assumes "eap_wf s" and "\<forall>(p, bs) \<in> set fs. p + length bs \<le> 1024" and "len \<le> 1024"
  obtains m0 m ret s' where "put_fields fs (ep_packet s) = Some m0"
    "make_mic (ep_KCK s) m0 len = Some (mic_of (ep_KCK s) (take len m0))"
    "wrs m0 81 (mic_of (ep_KCK s) (take len m0)) = Some m"
    "send_packet env len (s \<lparr> ep_packet := m \<rparr>) = Some (ret, s')"
    "eap_wf s'" "ep_replay s' = ep_replay s" "ep_state s' = ep_state s" "ep_PTK s' = ep_PTK s"
    "key_events s' = key_events s" "primes s' = primes s"
proof -
  obtain m0 where m0: "put_fields fs (ep_packet s) = Some m0" "length m0 = 1024"
    using put_fields_total[of fs "ep_packet s"] assms(1,2) by (auto simp: eap_wf_def)
  have mic: "make_mic (ep_KCK s) m0 len = Some (mic_of (ep_KCK s) (take len m0))"
    using make_mic_total assms(1,3) m0(2) by (simp add: eap_wf_def)
  obtain m where m: "wrs m0 81 (mic_of (ep_KCK s) (take len m0)) = Some m" "length m = 1024"
    using wrs_fits[of 81 "mic_of (ep_KCK s) (take len m0)" m0] m0(2) by auto
  have "eap_wf (s \<lparr> ep_packet := m \<rparr>)" using assms(1) m(2) by (simp add: eap_wf_def)
  from send_packet_total[OF this assms(3), of env] obtain ret s' where
    s': "send_packet env len (s \<lparr> ep_packet := m \<rparr>) = Some (ret, s')" "calm (s \<lparr> ep_packet := m \<rparr>) s'"
    "s' = s \<lparr> ep_packet := m, ep_log := ep_log s' \<rparr>"
    by auto
  have f: "eap_wf s'" "ep_replay s' = ep_replay s" "ep_state s' = ep_state s" "ep_PTK s' = ep_PTK s"
    using assms(1) m(2) by (subst s'(3), simp add: eap_wf_def)+
  have k: "key_events s' = key_events s" "primes s' = primes s"
    using s'(2) by (auto simp: calm_def key_events_def primes_def)
  show thesis by (rule that[OF m0(1) mic m(1) s'(1) f k])
qed

lemma send_packet_2_total:
  assumes "eap_wf s" and "env_wf env" and "ep_state s \<in> {1, 2}"
  shows "\<exists>ret s'. send_packet_2 env s = Some (ret, s') \<and> eap_wf s' \<and> calm s s' \<and> ep_replay s' = ep_replay s"
proof -
  let ?len = "99 + length (w_txies env)"
  let ?fs = "[(0, [ep_version s]), (1, [EAPOL_KEY]), (4, [EAPOL_KEY_RSN]),
            (5, le_bytes 2 (htons (KI_SHA OR KI_PAIRWISE OR KI_MIC))), (7, le_bytes 2 (htons 16)),
            (9, ep_replay s), (17, ep_snonce s), (49, zeroes 16), (65, zeroes 8), (81, zeroes 16), (73, zeroes 8),
            (97, le_bytes 2 (htons (of_nat (length (w_txies env))))), (2, le_bytes 2 (htons (of_nat (?len - 4)))),
            (99, w_txies env)]"
  have fs: "\<forall>(p, bs) \<in> set ?fs. p + length bs \<le> 1024" and len: "?len \<le> 1024"
    using assms by (auto simp: eap_wf_def env_wf_def zeroes_def)
  show ?thesis
  proof (rule signed_send[OF assms(1) fs len, of env])
    fix m0 m ret s'
    assume m: "put_fields ?fs (ep_packet s) = Some m0"
      "make_mic (ep_KCK s) m0 ?len = Some (mic_of (ep_KCK s) (take ?len m0))"
      "wrs m0 81 (mic_of (ep_KCK s) (take ?len m0)) = Some m"
      "send_packet env ?len (s \<lparr> ep_packet := m \<rparr>) = Some (ret, s')"
      and f: "eap_wf s'" "ep_replay s' = ep_replay s" "ep_state s' = ep_state s"
        "key_events s' = key_events s" "primes s' = primes s"
    show ?thesis
      unfolding send_packet_2_def Let_def m(1) bind.simps m(2,3,4) using f assms(3)
      by (auto simp: eap_wf_def calm_def key_events_def primes_def ES_WAITING_3_4_def)
  qed
qed

text \<open>The answers that end an exchange hand the keys to the kernel once the packet has been sent.\<close>

lemma send_packet_4_total:
  assumes "eap_wf s"
  shows "\<exists>ret s'. send_packet_4 env s = Some (ret, s') \<and> eap_wf s' \<and> primes s' = primes s \<and> ep_replay s' = ep_replay s \<and>
    (calm s s' \<or> ep_state s' = ES_NEGOTIATED \<and>
      (\<exists>g. key_events s' = key_events s @ Ev_upload_ptk (ep_PTK s) # g \<and> filter is_ptk_ev g = []))"
proof -
  let ?fs = "[(0, [ep_version s]), (1, [3]), (4, [2]),
            (5, le_bytes 2 (htons (KI_SHA OR KI_PAIRWISE OR KI_MIC OR KI_SECURE))), (7, zeroes 2),
            (9, ep_replay s), (17, zeroes 32), (49, zeroes 16), (65, zeroes 8), (81, zeroes 16), (73, zeroes 8),
            (97, le_bytes 2 (htons 0)), (2, le_bytes 2 (htons (of_nat (99 - 4))))]"
  have fs: "\<forall>(p, bs) \<in> set ?fs. p + length bs \<le> 1024" and len: "99 \<le> (1024 :: nat)"
    using assms by (auto simp: eap_wf_def zeroes_def)
  show ?thesis
  proof (rule signed_send[OF assms(1) fs len, of env])
    fix m0 m ret s'
    assume m: "put_fields ?fs (ep_packet s) = Some m0"
      "make_mic (ep_KCK s) m0 99 = Some (mic_of (ep_KCK s) (take 99 m0))"
      "wrs m0 81 (mic_of (ep_KCK s) (take 99 m0)) = Some m"
      "send_packet env 99 (s \<lparr> ep_packet := m \<rparr>) = Some (ret, s')"
      and f: "eap_wf s'" "ep_replay s' = ep_replay s" "ep_state s' = ep_state s" "ep_PTK s' = ep_PTK s"
        "key_events s' = key_events s" "primes s' = primes s"
    show ?thesis
      unfolding send_packet_4_def Let_def m(1) bind.simps m(2,3,4) using f
      by (auto simp: eap_wf_def calm_def log_simps upload_ptk_def upload_gtk_def cleanup_keys_def zeroes_def is_ptk_ev_def)
  qed
qed

lemma send_group_2_total:
  assumes "eap_wf s"
  shows "\<exists>ret s'. send_group_2 env s = Some (ret, s') \<and> eap_wf s' \<and> primes s' = primes s \<and> ep_replay s' = ep_replay s \<and>
    ep_state s' = ep_state s \<and> (\<exists>g. key_events s' = key_events s @ g \<and> filter is_ptk_ev g = [])"
proof -
  let ?fs = "[(0, [ep_version s]), (1, [3]), (4, [2]),
            (5, le_bytes 2 (htons (KI_MIC OR KI_SECURE))), (7, zeroes 2),
            (9, ep_replay s), (17, zeroes 32), (49, zeroes 16), (65, zeroes 8), (81, zeroes 16), (73, zeroes 8),
            (97, le_bytes 2 (htons 0)), (2, le_bytes 2 (htons (of_nat 99)))]"
  have fs: "\<forall>(p, bs) \<in> set ?fs. p + length bs \<le> 1024" and len: "99 \<le> (1024 :: nat)"
    using assms by (auto simp: eap_wf_def zeroes_def)
  show ?thesis
  proof (rule signed_send[OF assms(1) fs len, of env])
    fix m0 m ret s'
    assume m: "put_fields ?fs (ep_packet s) = Some m0"
      "make_mic (ep_KCK s) m0 99 = Some (mic_of (ep_KCK s) (take 99 m0))"
      "wrs m0 81 (mic_of (ep_KCK s) (take 99 m0)) = Some m"
      "send_packet env 99 (s \<lparr> ep_packet := m \<rparr>) = Some (ret, s')"
      and f: "eap_wf s'" "ep_replay s' = ep_replay s" "ep_state s' = ep_state s"
        "key_events s' = key_events s" "primes s' = primes s"
    show ?thesis
      unfolding send_group_2_def Let_def m(1) bind.simps m(2,3,4) using f
      by (auto simp: eap_wf_def log_simps upload_gtk_def is_ptk_ev_def)
  qed
qed

section \<open>Receiving\<close>

lemma rd16_total: "p + 2 \<le> length m \<Longrightarrow> \<exists>w. rd16 m p = Some w"
  by (simp add: rd16_def rds_def)

lemma net16_total: "p + 2 \<le> length m \<Longrightarrow> \<exists>n. net16 m p = Some n"
  using rd16_total[of p m] by (auto simp: net16_def)

lemma ptype_total: "7 \<le> length m \<Longrightarrow> \<exists>b. ptype m bits = Some b"
  using rd16_total[of 5 m] by (auto simp: ptype_def Let_def)

text \<open>Storing the group key changes nothing else.\<close>

lemma store_gtk_total:
  assumes "length (ep_GTK s) = 32" and "16 \<le> len" and "int buf + len \<le> int (length (ep_packet s))"
  shows "\<exists>ret i g. store_gtk env idx buf len s = Some (ret, s \<lparr> ep_gtkindex := i, ep_GTK := g \<rparr>) \<and> length g = 32"
proof (cases "len = int (w_gtklen env)")
  case True
  have k: "rds (ep_packet s) (buf + j) n = Some (take n (drop (buf + j) (ep_packet s)))"
    if "int j + int n \<le> len" for j n
    using that assms(3) by (auto simp: rds_def)
  let ?k = "take 16 (drop buf (ep_packet s))"
  have k16: "rds (ep_packet s) buf 16 = Some ?k" "length ?k = 16"
    using k[of 0 16] assms(2,3) by auto
  obtain g where g: "wrs (ep_GTK s) 0 ?k = Some g" "length g = 32"
    using wrs_fits[of 0 ?k "ep_GTK s"] assms(1) k16(2) by auto
  show ?thesis
  proof (cases "w_gtklen env = 32")
    case 32: True
    let ?a = "take 8 (drop (buf + 24) (ep_packet s))" and ?b = "take 8 (drop (buf + 16) (ep_packet s))"
    have r: "rds (ep_packet s) (buf + 24) 8 = Some ?a" "rds (ep_packet s) (buf + 16) 8 = Some ?b"
      using k[of 24 8] k[of 16 8] True 32 by auto
    have l: "length ?a = 8" "length ?b = 8" using r by (auto simp: rds_def split: if_splits)
    obtain g1 where g1: "wrs g 16 ?a = Some g1" "length g1 = 32" using wrs_fits[of 16 ?a g] g(2) l by auto
    obtain g2 where "wrs g1 24 ?b = Some g2" "length g2 = 32" using wrs_fits[of 24 ?b g1] g1(2) l by auto
    then show ?thesis using True 32 k16 g g1 r by (auto simp: store_gtk_def Let_def)
  next
    case False
    then show ?thesis using True k16 g by (auto simp: store_gtk_def Let_def)
  qed
next
  case False
  then have "store_gtk env idx buf len s = Some (-1, s \<lparr> ep_gtkindex := ep_gtkindex s, ep_GTK := ep_GTK s \<rparr>)"
    by (simp add: store_gtk_def Let_def)
  then show ?thesis using assms(1) by blast
qed

lemma fetch_loop_total:
  "length (ep_GTK s) = 32 \<Longrightarrow> en \<le> length (ep_packet s) \<Longrightarrow>
   \<exists>ret i g. fetch_loop env ptr en s = Some (ret, s \<lparr> ep_gtkindex := i, ep_GTK := g \<rparr>) \<and> length g = 32"
proof (induction env ptr en s rule: fetch_loop.induct)
  case (1 env ptr en s)
  let ?P = "\<lambda>r. \<exists>ret i g. r = Some (ret, s \<lparr> ep_gtkindex := i, ep_GTK := g \<rparr>) \<and> length g = 32"
  have same: "?P (Some (ret, s))" for ret
    using "1.prems"(1) by (auto intro!: exI[of _ "ep_gtkindex s"] exI[of _ "ep_GTK s"])
  show ?case
  proof (cases "ptr + 6 < en")
    case True
    let ?m = "ep_packet s"
    have b: "rd ?m ptr = Some (?m ! ptr)" "rd ?m (ptr + 1) = Some (?m ! (ptr + 1))" "rd ?m (ptr + 6) = Some (?m ! (ptr + 6))"
      "rds ?m (ptr + 2) 4 = Some (take 4 (drop (ptr + 2) ?m))"
      using True "1.prems"(2) by (auto simp: rd_def rds_def)
    let ?l = "unat (?m ! (ptr + 1))"
    have "4 \<le> length (take 4 (drop (ptr + 2) ?m))" "4 \<le> length kde_type_gtk"
      using True "1.prems"(2) by (auto simp: kde_type_gtk_def)
    then obtain c where c: "memcmp (take 4 (drop (ptr + 2) ?m)) kde_type_gtk 4 = Some c"
      using memcmp_zero_iff by blast
    show ?thesis
    proof (cases "ptr + 2 + ?l > en")
      case False
      have IH: "?P (fetch_loop env (ptr + 2 + ?l) en s)"
        if "?m ! ptr \<noteq> 0xDD \<or> c \<noteq> 0 \<or> int ?l + 2 - 6 < 18"
        using that 1(1)[OF True b(1,2) False refl] 1(2)[OF True b(1,2) False refl _ b(4) c]
          1(3)[OF True b(1,2) False refl _ b(4) c] "1.prems" by fastforce
      have st: "?P (store_gtk env idx (ptr + 6 + 2) (int ?l + 2 - 6 - 2) s)" if "\<not> int ?l + 2 - 6 < 18" for idx
      proof (rule store_gtk_total)
        show "16 \<le> int ?l + 2 - 6 - 2" using that by linarith
        show "int (ptr + 6 + 2) + (int ?l + 2 - 6 - 2) \<le> int (length ?m)" using False "1.prems"(2) by linarith
      qed (rule "1.prems"(1))
      show ?thesis
        unfolding fetch_loop.simps[of env ptr en s] b bind.simps c Let_def
        using True False IH st same by (simp split: if_splits)
    next
      case past: True
      then show ?thesis unfolding fetch_loop.simps[of env ptr en s] b bind.simps using True same by simp
    qed
  next
    case False
    then show ?thesis unfolding fetch_loop.simps[of env ptr en s] using same by simp
  qed
qed

lemma take_gtk_total:
  assumes "eap_wf s" and "net16 (ep_packet s) 97 = Some pay" and "99 + pay \<le> 1024"
    and answer: "\<And>t. eap_wf t \<Longrightarrow> ep_state t = ep_state s \<Longrightarrow> key_events t = key_events s \<Longrightarrow> primes t = primes s \<Longrightarrow>
      ep_replay t = take 8 (drop 9 (ep_packet s)) \<Longrightarrow> ep_PTK t = ep_PTK s \<Longrightarrow> Q (answer env t)"
    and calm: "\<And>ret t. eap_wf t \<Longrightarrow> calm s t \<Longrightarrow> ep_replay t = ep_replay s \<Longrightarrow> Q (Some (ret, t))"
  shows "Q (take_gtk env answer s)"
proof -
  have wf: "length (ep_packet s) = 1024" "length (ep_GTK s) = 32" using assms(1) by (auto simp: eap_wf_def)
  obtain ret m where m: "unwrap_key (ep_KEK s) (ep_packet s) 99 pay = Some (ret, m)" "length m = 1024"
    "take 99 m = take 99 (ep_packet s)"
    using unwrap_key_total[of 99 pay "ep_packet s" "ep_KEK s"] assms(3) wf by auto
  let ?s = "s \<lparr> ep_packet := m \<rparr>"
  have "nat (int (99 + 8) + (int pay - 8)) \<le> length (ep_packet ?s)" using m(2) assms(3) by simp
  from fetch_loop_total[OF _ this, of env "99 + 8"] obtain ret2 i g where
    g: "fetch_gtk env (99 + 8) (int pay - 8) ?s = Some (ret2, ?s \<lparr> ep_gtkindex := i, ep_GTK := g \<rparr>)" "length g = 32"
    using wf(2) unfolding fetch_gtk_def by auto
  have r: "rds m 65 6 = Some (take 6 (drop 65 m))" "rds m 9 8 = Some (take 8 (drop 9 m))" using m(2) by (simp_all add: rds_def)
  have "take 8 (drop 9 m) = drop 9 (take 17 (take 99 m))" by (simp add: drop_take)
  also have "\<dots> = take 8 (drop 9 (ep_packet s))" unfolding m(3) by (simp add: drop_take)
  finally have rep: "take 8 (drop 9 m) = take 8 (drop 9 (ep_packet s))" .
  let ?t = "s \<lparr> ep_packet := m, ep_gtkindex := i, ep_GTK := g, ep_RSC := take 6 (drop 65 m), ep_replay := take 8 (drop 9 m) \<rparr>"
  have "take_gtk env answer s =
      (if ret \<noteq> 0 then Some (- ENOKEY, ?s)
       else if ret2 \<noteq> 0 then Some (- ENOKEY, ?s \<lparr> ep_gtkindex := i, ep_GTK := g \<rparr>)
       else answer env ?t)"
    unfolding take_gtk_def assms(2) bind.simps m(1) prod.case Let_def g(1) using r by simp
  moreover have "Q (Some (- ENOKEY, ?s))" "Q (Some (- ENOKEY, ?s \<lparr> ep_gtkindex := i, ep_GTK := g \<rparr>))"
    using assms(1) m(2) g(2) by (auto intro!: calm simp: eap_wf_def calm_def key_events_def primes_def)
  moreover have "Q (answer env ?t)"
    using assms(1) m(2) g(2) rep by (intro answer) (auto simp: eap_wf_def key_events_def primes_def)
  ultimately show ?thesis by simp
qed

text \<open>The derived key: addresses and nonces go in with the smaller first.\<close>

definition ordered_pair :: "byte list \<Rightarrow> byte list \<Rightarrow> nat \<Rightarrow> byte list \<times> byte list" where
  "ordered_pair a b n = (if the (memcmp a b n) < 0 then (a, b) else (b, a))"

definition pairwise_key :: "byte list \<Rightarrow> byte list \<Rightarrow> byte list \<Rightarrow> byte list \<Rightarrow> byte list \<Rightarrow> byte list" where
  "pairwise_key psk smac amac snonce anonce =
     (let (m1, m2) = ordered_pair smac amac 6; (n1, n2) = ordered_pair snonce anonce 32
      in concat (map (\<lambda>i. hmac_spec sha1_spec psk (prf_input (bstr ''Pairwise key expansion'') m1 m2 n1 n2 i)) [0, 1, 2]))"

lemma length_pairwise_key [simp]: "length (pairwise_key psk smac amac snonce anonce) = 60"
  by (simp add: pairwise_key_def split: prod.split)

lemma memcmp_swap: "memcmp b a n = map_option uminus (memcmp a b n)"
  by (induction a b n rule: memcmp.induct) (auto simp: Let_def)

lemma ordered_pair_swap:
  assumes "length a = n" and "length b = n"
  shows "ordered_pair b a n = ordered_pair a b n"
proof -
  obtain d where d: "memcmp a b n = Some d" "d = 0 \<longleftrightarrow> take n a = take n b"
    using memcmp_zero_iff[of n a b] assms by auto
  then show ?thesis using assms by (auto simp: ordered_pair_def memcmp_swap[of b a])
qed

lemma ordered_pair_lengths: "length a = n \<Longrightarrow> length b = n \<Longrightarrow> ordered_pair a b k = (x, y) \<Longrightarrow> length x = n \<and> length y = n"
  by (auto simp: ordered_pair_def split: if_splits)

lemma pmk_to_ptk_eq:
  assumes "length (ep_PSK s) = 32" and "length (w_ifaddr env) = 6" and "length (w_bssid env) = 6"
    and "length (ep_snonce s) = 32" and "length (ep_anonce s) = 32"
  shows "pmk_to_ptk env s =
    (let key = pairwise_key (ep_PSK s) (w_ifaddr env) (w_bssid env) (ep_snonce s) (ep_anonce s)
     in Some (s \<lparr> ep_smac := w_ifaddr env, ep_amac := w_bssid env, ep_KCK := take 16 key,
          ep_KEK := take 16 (drop 16 key), ep_PTK := take 16 (drop 32 key) \<rparr>))"
proof -
  let ?s = "s \<lparr> ep_smac := w_ifaddr env, ep_amac := w_bssid env \<rparr>"
  let ?key = "pairwise_key (ep_PSK s) (w_ifaddr env) (w_bssid env) (ep_snonce s) (ep_anonce s)"
  have r: "rds (w_ifaddr env) 0 6 = Some (w_ifaddr env)" "rds (w_bssid env) 0 6 = Some (w_bssid env)"
    using assms by (simp_all add: rds_def)
  obtain c d where c: "memcmp (w_ifaddr env) (w_bssid env) 6 = Some c" "memcmp (ep_snonce s) (ep_anonce s) 32 = Some d"
    using memcmp_zero_iff[of 6 "w_ifaddr env" "w_bssid env"] memcmp_zero_iff[of 32 "ep_snonce s" "ep_anonce s"] assms by auto
  obtain m1 m2 where m: "ordered_pair (w_ifaddr env) (w_bssid env) 6 = (m1, m2)" by fastforce
  obtain n1 n2 where n: "ordered_pair (ep_snonce s) (ep_anonce s) 32 = (n1, n2)" by fastforce
  have m': "(if c < 0 then (w_ifaddr env, w_bssid env) else (w_bssid env, w_ifaddr env)) = (m1, m2)"
    and n': "(if d < 0 then (ep_snonce s, ep_anonce s) else (ep_anonce s, ep_snonce s)) = (n1, n2)"
    using m n c by (auto simp: ordered_pair_def)
  have nz: "0 \<notin> set (bstr ''Pairwise key expansion'')" by code_simp
  have l: "length m1 = 6" "length m2 = 6" "length n1 = 32" "length n2 = 32"
    using ordered_pair_lengths[OF assms(2,3) m] ordered_pair_lengths[OF assms(4,5) n] by auto
  have k: "PRF480 (ep_PSK s) (bstr ''Pairwise key expansion'' @ [0]) m1 m2 n1 n2 = Some ?key"
    unfolding PRF480_eq[OF nz assms(1) l] pairwise_key_def m n by simp
  have rr: "rds ?key 0 16 = Some (take 16 ?key)" "rds ?key 16 16 = Some (take 16 (drop 16 ?key))"
    "rds ?key 32 16 = Some (take 16 (drop 32 ?key))"
    by (simp_all add: rds_def)
  have sel: "ep_snonce ?s = ep_snonce s" "ep_anonce ?s = ep_anonce s" "ep_PSK ?s = ep_PSK s" by simp_all
  show ?thesis
    unfolding pmk_to_ptk_def r bind.simps Let_def c(1) m' prod.case sel c(2) n' k rr ..
qed

lemma pmk_to_ptk_total:
  assumes "eap_wf s" and "env_wf env"
  shows "\<exists>s'. pmk_to_ptk env s = Some s' \<and> eap_wf s' \<and> calm s s' \<and> ep_state s' = ep_state s \<and> ep_replay s' = ep_replay s"
proof -
  have "length (ep_PSK s) = 32" "length (w_ifaddr env) = 6" "length (w_bssid env) = 6" "length (ep_snonce s) = 32" "length (ep_anonce s) = 32"
    using assms by (auto simp: eap_wf_def env_wf_def)
  from pmk_to_ptk_eq[OF this] show ?thesis
    using assms by (simp add: Let_def eap_wf_def env_wf_def calm_def key_events_def primes_def)
qed

end
