(* ===== verification/Eapol_Props.thy ===== *)
theory Eapol_Props
  imports Eapol_Inv
begin

text \<open>
  The properties of the key negotiation: no packet makes it touch memory outside its objects, keys are
  installed only on authenticated packets with a fresh replay counter, the pairwise key is installed at
  most once per connection attempt, and both sides of the handshake derive the same keys.
\<close>

section \<open>Replay counters\<close>

fun counter :: "byte list \<Rightarrow> nat" where
  "counter [] = 0"
| "counter (b # bs) = unat b * 256 ^ length bs + counter bs"

lemma counter_less: "counter bs < 256 ^ length bs"
proof (induction bs)
  case (Cons b bs)
  have "unat b \<le> 255" using unsigned_less[of b, where ?'a = nat] by simp
  then have "unat b * 256 ^ length bs \<le> 255 * 256 ^ length bs" by (rule mult_le_mono1)
  then show ?case using Cons.IH unfolding counter.simps list.size power_Suc add_Suc_right add_0_right by linarith
qed simp

lemma counter_head_less:
  assumes "unat x < unat y" and "length a = length b"
  shows "counter (x # a) < counter (y # b)"
proof -
  have "Suc (unat x) * 256 ^ length b \<le> unat y * 256 ^ length b" using assms(1) by (intro mult_le_mono1) simp
  then show ?thesis using counter_less[of a] assms(2) by simp
qed

lemma memcmp_counter:
  "length a = n \<Longrightarrow> length b = n \<Longrightarrow> \<exists>d. memcmp a b n = Some d \<and> (d < 0 \<longleftrightarrow> counter a < counter b)"
proof (induction a b n rule: memcmp.induct)
  case (2 x a y b len)
  show ?case
  proof (cases "x = y")
    case True
    then show ?thesis using 2 by (simp add: Let_def)
  next
    case False
    have lt: "uchar x - uchar y < 0 \<longleftrightarrow> unat x < unat y"
      using word_less_def[of x y] word_less_nat_alt[of x y] by simp
    have ne: "uchar x - uchar y \<noteq> 0" using False by simp
    have "unat x < unat y \<longleftrightarrow> counter (x # a) < counter (y # b)"
    proof (cases "unat x < unat y")
      case True
      then show ?thesis using counter_head_less[OF True, of a b] 2(2,3) by simp
    next
      case ge: False
      then have "unat y < unat x" using False by (metis linorder_neqE_nat word_unat_eq_iff)
      then show ?thesis using ge counter_head_less[of y x b a] 2(2,3) by simp
    qed
    then show ?thesis using ne lt by (simp only: memcmp.simps Let_def if_True not_False_eq_True) blast
  qed
qed auto

section \<open>Handlers\<close>

lemma recv_packet_1_total:
  assumes "eap_wf s" and "env_wf env" and "ep_state s = ES_WAITING_1_4"
  shows "\<exists>ret s'. recv_packet_1 env s = Some (ret, s') \<and> eap_wf s' \<and> calm s s'"
proof -
  let ?m = "ep_packet s"
  have l: "length ?m = 1024" using assms(1) by (simp add: eap_wf_def)
  have r: "rd ?m 4 = Some (?m ! 4)" "rd ?m 0 = Some (?m ! 0)" "rds ?m 17 32 = Some (take 32 (drop 17 ?m))"
    "rds ?m 9 8 = Some (take 8 (drop 9 ?m))" using l by (simp_all add: rd_def rds_def)
  obtain ok where ok: "ptype ?m (KI_PAIRWISE OR KI_ACK) = Some ok" using ptype_total[of ?m] l by auto
  let ?s = "s \<lparr> ep_version := ?m ! 0, ep_anonce := take 32 (drop 17 ?m), ep_replay := take 8 (drop 9 ?m) \<rparr>"
  have "eap_wf ?s" using assms(1) l by (simp add: eap_wf_def)
  from pmk_to_ptk_total[OF this assms(2)] obtain s1 where
    s1: "pmk_to_ptk env ?s = Some s1" "eap_wf s1" "calm ?s s1" "ep_state s1 = ES_WAITING_1_4"
    using assms(3) by auto
  have c1: "calm s s1" using s1(3) by (simp add: calm_def key_events_def primes_def)
  obtain ret s2 where s2: "send_packet_2 env s1 = Some (ret, s2)" "eap_wf s2" "calm s1 s2"
    using send_packet_2_total[OF s1(2) assms(2)] s1(4) by (auto simp: ES_WAITING_1_4_def)
  have "calm s (s1 \<lparr> ep_state := ES_WAITING_2_4 \<rparr>)" "eap_wf (s1 \<lparr> ep_state := ES_WAITING_2_4 \<rparr>)"
    using c1 s1(2,4) assms(3) by (auto simp: calm_def key_events_def primes_def eap_wf_def ES_WAITING_1_4_def ES_WAITING_2_4_def)
  then show ?thesis
    unfolding recv_packet_1_def Let_def r ok bind.simps s1(1) using assms(1) s2 calm_trans[OF c1 s2(3)] by simp
qed

text \<open>
  A packet is authentic when its integrity code is that of the packet with the code cleared, and fresh
  when its counter is above the last one.
\<close>

definition fresh_authentic :: "eap \<Rightarrow> byte list \<Rightarrow> bool" where
  "fresh_authentic s m \<longleftrightarrow> counter (ep_replay s) < counter (take 8 (drop 9 m)) \<and>
     take 16 (drop 81 m) = mic_of (ep_KCK s) (take 81 m @ zeroes 16 @ drop 97 m)"

text \<open>The states after a handler: no key was installed, or the packet was fresh and authentic.\<close>

definition handled :: "eap \<Rightarrow> eap \<Rightarrow> byte list \<Rightarrow> bool" where
  "handled s s' m \<longleftrightarrow> eap_wf s' \<and> primes s' = primes s \<and>
     (calm s s' \<or>
      fresh_authentic s m \<and> ep_replay s' = take 8 (drop 9 m) \<and> (ep_state s = 3 \<or> ep_state s = 4) \<and> ep_state s' = 4 \<and>
      (\<exists>g. key_events s' = key_events s @ g \<and>
        length (filter is_ptk_ev g) \<le> (if ep_state s = 3 then 1 else 0)))"

lemma handled_calm: "eap_wf s' \<Longrightarrow> calm s s' \<Longrightarrow> handled s s' m"
  by (simp add: handled_def calm_def)

text \<open>The common part: counter, integrity code, group key, answer.\<close>

lemma checked_gtk:
  assumes wf: "eap_wf s" "length m = n" "99 \<le> n" "n \<le> 1024" "take n (ep_packet s) = m"
    and pay: "net16 (ep_packet s) 97 = Some pay" "99 + pay \<le> n"
    and st: "ep_state s = 3 \<or> ep_state s = 4"
    and cnt: "counter (ep_replay s) < counter (take 8 (drop 9 m))"
    and answer: "\<And>t. eap_wf t \<Longrightarrow> ep_state t = ep_state s \<Longrightarrow> primes t = primes s \<Longrightarrow> key_events t = key_events s \<Longrightarrow>
      \<exists>ret t'. answer env t = Some (ret, t') \<and> eap_wf t' \<and> primes t' = primes s \<and> ep_replay t' = ep_replay t \<and>
        (calm s t' \<or> ep_state t' = 4 \<and> (\<exists>g. key_events t' = key_events s @ g \<and>
          length (filter is_ptk_ev g) \<le> (if ep_state s = 3 then 1 else 0)))"
  shows "\<exists>mret p. check_mic 81 (ep_KCK s) (ep_packet s) n = Some (mret, p) \<and> eap_wf (s \<lparr> ep_packet := p \<rparr>) \<and>
    (mret = 0 \<longrightarrow> (\<exists>ret s'. take_gtk env answer (s \<lparr> ep_packet := p \<rparr>) = Some (ret, s') \<and> handled s s' m))"
proof -
  let ?P = "ep_packet s"
  let ?p = "take 81 ?P @ zeroes 16 @ drop 97 ?P" and ?m = "take 81 m @ zeroes 16 @ drop 97 m"
  have l: "length ?P = 1024" "length (ep_KCK s) = 16" using wf(1) by (auto simp: eap_wf_def)
  have tk: "take n ?p = ?m"
    using wf(3,4) l(1) by (simp add: wf(5)[symmetric] zeroes_def take_drop min_absorb1)
  have mic: "take 16 (drop 81 ?P) = take 16 (drop 81 m)"
    using wf(3) by (simp add: wf(5)[symmetric] drop_take min_def)
  obtain mret where c: "check_mic 81 (ep_KCK s) ?P n = Some (mret, ?p)"
    "mret = 0 \<longleftrightarrow> take 16 (drop 81 m) = mic_of (ep_KCK s) ?m"
    using check_mic_total[of "ep_KCK s" n ?P] l wf(4) unfolding tk mic by auto
  let ?s = "s \<lparr> ep_packet := ?p \<rparr>"
  have lp: "length ?p = 1024" using l(1) by (simp add: zeroes_def)
  have ws: "eap_wf ?s" using wf(1) lp by (simp add: eap_wf_def)
  have rep: "take 8 (drop 9 ?p) = take 8 (drop 9 m)"
    using wf(3) l(1) by (simp add: wf(5)[symmetric] drop_take min_def zeroes_def)
  have "net16 ?p 97 = net16 ?P 97"
    using l(1) lp by (simp add: net16_def rd16_def rds_def zeroes_def)
  then have pay': "net16 (ep_packet ?s) 97 = Some pay" "99 + pay \<le> 1024" using pay wf(4) by auto
  have "\<exists>ret s'. take_gtk env answer ?s = Some (ret, s') \<and> handled s s' m" if "mret = 0"
  proof (rule take_gtk_total[OF ws pay'])
    have fa: "fresh_authentic s m" using that c(2) cnt by (simp add: fresh_authentic_def)
    fix t
    assume t: "eap_wf t" "ep_state t = ep_state ?s" "key_events t = key_events ?s" "primes t = primes ?s"
      "ep_replay t = take 8 (drop 9 (ep_packet ?s))"
    then have "\<exists>ret t'. answer env t = Some (ret, t') \<and> eap_wf t' \<and> primes t' = primes s \<and> ep_replay t' = ep_replay t \<and>
        (calm s t' \<or> ep_state t' = 4 \<and> (\<exists>g. key_events t' = key_events s @ g \<and>
          length (filter is_ptk_ev g) \<le> (if ep_state s = 3 then 1 else 0)))"
      by (intro answer) (auto simp: key_events_def primes_def)
    then show "\<exists>ret s'. answer env t = Some (ret, s') \<and> handled s s' m"
      using fa st t(5) rep unfolding handled_def by auto
  next
    fix ret t
    assume "eap_wf t" "calm ?s t"
    then have "calm s t" by (simp add: calm_def key_events_def primes_def)
    then show "\<exists>r s'. Some (ret, t) = Some (r, s') \<and> handled s s' m"
      using \<open>eap_wf t\<close> handled_calm by blast
  qed
  then show ?thesis using c(1) ws by blast
qed

text \<open>What \<open>handle_rawsock\<close> has checked when it hands a packet \<open>m\<close> of \<open>n\<close> bytes to a handler.\<close>

definition packet_in :: "eap \<Rightarrow> byte list \<Rightarrow> nat \<Rightarrow> bool" where
  "packet_in s m n \<longleftrightarrow> eap_wf s \<and> length m = n \<and> 99 \<le> n \<and> n \<le> 1024 \<and> take n (ep_packet s) = m \<and>
     (\<exists>pl. net16 (ep_packet s) 2 = Some pl \<and> 4 + pl = n) \<and>
     (\<exists>pay. net16 (ep_packet s) 97 = Some pay \<and> 99 + pay \<le> n)"

lemma packet_inE:
  assumes "packet_in s m n"
  obtains pl pay d where "eap_wf s" "length m = n" "99 \<le> n" "n \<le> 1024" "take n (ep_packet s) = m"
    "net16 (ep_packet s) 2 = Some pl" "4 + pl = n" "net16 (ep_packet s) 97 = Some pay" "99 + pay \<le> n"
    "length (ep_packet s) = 1024"
    "rds (ep_packet s) 9 8 = Some (take 8 (drop 9 m))"
    "memcmp (ep_replay s) (take 8 (drop 9 m)) 8 = Some d" "d < 0 \<longleftrightarrow> counter (ep_replay s) < counter (take 8 (drop 9 m))"
proof -
  obtain pl pay where p: "eap_wf s" "length m = n" "99 \<le> n" "n \<le> 1024" "take n (ep_packet s) = m"
    "net16 (ep_packet s) 2 = Some pl" "4 + pl = n" "net16 (ep_packet s) 97 = Some pay" "99 + pay \<le> n"
    using assms by (auto simp: packet_in_def)
  have l: "length (ep_packet s) = 1024" "length (ep_replay s) = 8" using p(1) by (auto simp: eap_wf_def)
  have "take 8 (drop 9 m) = take 8 (drop 9 (ep_packet s))"
    using p(3) by (simp add: p(5)[symmetric] drop_take min_def)
  then have r: "rds (ep_packet s) 9 8 = Some (take 8 (drop 9 m))" using l(1) by (simp add: rds_def)
  have "length (take 8 (drop 9 m)) = 8" using p(2,3) by simp
  from memcmp_counter[OF l(2) this] show ?thesis using that p l(1) r by blast
qed

lemma recv_packet_3_total:
  assumes "packet_in s m n" and "ep_state s = 3"
  shows "\<exists>ret s'. recv_packet_3 env s = Some (ret, s') \<and> handled s s' m"
proof (rule packet_inE[OF assms(1)])
  fix pl pay d
  assume p: "eap_wf s" "length m = n" "99 \<le> n" "n \<le> 1024" "take n (ep_packet s) = m"
    "net16 (ep_packet s) 2 = Some pl" "4 + pl = n" "net16 (ep_packet s) 97 = Some pay" "99 + pay \<le> n"
    "length (ep_packet s) = 1024" and r: "rds (ep_packet s) 9 8 = Some (take 8 (drop 9 m))"
    and d: "memcmp (ep_replay s) (take 8 (drop 9 m)) 8 = Some d" "d < 0 \<longleftrightarrow> counter (ep_replay s) < counter (take 8 (drop 9 m))"
  let ?P = "ep_packet s"
  have id: "handled s s m" using handled_calm p(1) by simp
  have "\<exists>b. ptype ?P bits = Some b" for bits using ptype_total[of ?P bits] p(10) by simp
  then obtain o1 o2 where o: "ptype ?P (KI_PAIRWISE OR KI_ACK) = Some o1"
    "ptype ?P (KI_PAIRWISE OR KI_ACK OR KI_MIC OR KI_ENCRYPTED OR KI_SECURE) = Some o2"
    by blast
  have "rds ?P 17 32 = Some (take 32 (drop 17 ?P))" using p(10) by (simp add: rds_def)
  moreover obtain c where "memcmp (ep_anonce s) (take 32 (drop 17 ?P)) 32 = Some c"
    using memcmp_zero_iff[of 32 "ep_anonce s" "take 32 (drop 17 ?P)"] p(1,10) by (auto simp: eap_wf_def)
  ultimately have n: "\<And>f. Option.bind (rds ?P 17 32) (\<lambda>n. Option.bind (memcmp (ep_anonce s) n 32) f) = f c" by simp
  show ?thesis
  proof (cases "d < 0")
    case True
    have "\<exists>mret q. check_mic 81 (ep_KCK s) ?P n = Some (mret, q) \<and> eap_wf (s \<lparr> ep_packet := q \<rparr>) \<and>
      (mret = 0 \<longrightarrow> (\<exists>ret s'. take_gtk env send_packet_4 (s \<lparr> ep_packet := q \<rparr>) = Some (ret, s') \<and> handled s s' m))"
    proof (rule checked_gtk[OF p(1-5,8,9)])
      fix t assume t: "eap_wf t" "ep_state t = ep_state s" "primes t = primes s" "key_events t = key_events s"
      from send_packet_4_total[OF t(1), of env] show "\<exists>ret t'. send_packet_4 env t = Some (ret, t') \<and> eap_wf t' \<and>
          primes t' = primes s \<and> ep_replay t' = ep_replay t \<and> (calm s t' \<or> ep_state t' = 4 \<and>
          (\<exists>g. key_events t' = key_events s @ g \<and> length (filter is_ptk_ev g) \<le> (if ep_state s = 3 then 1 else 0)))"
        using t assms(2) by (fastforce simp: calm_def ES_NEGOTIATED_def is_ptk_ev_def)
    qed (use assms(2) True d(2) in auto)
    then obtain mret q where q: "check_mic 81 (ep_KCK s) ?P n = Some (mret, q)" "eap_wf (s \<lparr> ep_packet := q \<rparr>)"
      "mret = 0 \<longrightarrow> (\<exists>ret s'. take_gtk env send_packet_4 (s \<lparr> ep_packet := q \<rparr>) = Some (ret, s') \<and> handled s s' m)"
      by blast
    have "handled s (s \<lparr> ep_packet := q \<rparr>) m"
      using q(2) by (intro handled_calm) (auto simp: calm_def key_events_def primes_def)
    then show ?thesis
      unfolding recv_packet_3_def Let_def p(6) bind.simps o p(7) n r d(1) using q id True by auto
  next
    case False
    then show ?thesis
      unfolding recv_packet_3_def Let_def p(6) bind.simps o p(7) n r d(1) using id by auto
  qed
qed

lemma recv_group_1_total:
  assumes "packet_in s m n" and "ep_state s = 4"
  shows "\<exists>ret s'. recv_group_1 env s = Some (ret, s') \<and> handled s s' m"
proof (rule packet_inE[OF assms(1)])
  fix pl pay d
  assume p: "eap_wf s" "length m = n" "99 \<le> n" "n \<le> 1024" "take n (ep_packet s) = m"
    "net16 (ep_packet s) 2 = Some pl" "4 + pl = n" "net16 (ep_packet s) 97 = Some pay" "99 + pay \<le> n"
    "length (ep_packet s) = 1024" and r: "rds (ep_packet s) 9 8 = Some (take 8 (drop 9 m))"
    and d: "memcmp (ep_replay s) (take 8 (drop 9 m)) 8 = Some d" "d < 0 \<longleftrightarrow> counter (ep_replay s) < counter (take 8 (drop 9 m))"
  let ?P = "ep_packet s"
  have id: "handled s s m" using handled_calm p(1) by simp
  obtain o1 where o: "ptype ?P (KI_SECURE OR KI_ENCRYPTED OR KI_ACK OR KI_MIC) = Some o1"
    using ptype_total[of ?P] p(10) by auto
  have ty: "rd ?P 4 = Some (?P ! 4)" using p(10) by (simp add: rd_def)
  show ?thesis
  proof (cases "d < 0")
    case True
    have "\<exists>mret q. check_mic 81 (ep_KCK s) ?P n = Some (mret, q) \<and> eap_wf (s \<lparr> ep_packet := q \<rparr>) \<and>
      (mret = 0 \<longrightarrow> (\<exists>ret s'. take_gtk env send_group_2 (s \<lparr> ep_packet := q \<rparr>) = Some (ret, s') \<and> handled s s' m))"
    proof (rule checked_gtk[OF p(1-5,8,9)])
      fix t assume t: "eap_wf t" "ep_state t = ep_state s" "primes t = primes s" "key_events t = key_events s"
      from send_group_2_total[OF t(1), of env] show "\<exists>ret t'. send_group_2 env t = Some (ret, t') \<and> eap_wf t' \<and>
          primes t' = primes s \<and> ep_replay t' = ep_replay t \<and> (calm s t' \<or> ep_state t' = 4 \<and>
          (\<exists>g. key_events t' = key_events s @ g \<and> length (filter is_ptk_ev g) \<le> (if ep_state s = 3 then 1 else 0)))"
        using t assms(2) by fastforce
    qed (use assms(2) True d(2) in auto)
    then obtain mret q where q: "check_mic 81 (ep_KCK s) ?P n = Some (mret, q)" "eap_wf (s \<lparr> ep_packet := q \<rparr>)"
      "mret = 0 \<longrightarrow> (\<exists>ret s'. take_gtk env send_group_2 (s \<lparr> ep_packet := q \<rparr>) = Some (ret, s') \<and> handled s s' m)"
      by blast
    have "handled s (s \<lparr> ep_packet := q \<rparr>) m"
      using q(2) by (intro handled_calm) (auto simp: calm_def key_events_def primes_def)
    then show ?thesis
      unfolding recv_group_1_def Let_def p(6) bind.simps ty o p(7) r d(1) using q id True by auto
  next
    case False
    then show ?thesis
      unfolding recv_group_1_def Let_def p(6) bind.simps ty o p(7) r d(1) using id by auto
  qed
qed

lemma eap_dispatch_total:
  assumes "packet_in s m n" and "env_wf env"
  shows "\<exists>ret s'. eap_dispatch env s = Some (ret, s') \<and> handled s s' m"
proof -
  have wf: "eap_wf s" using assms(1) by (simp add: packet_in_def)
  have 1: "\<exists>ret s'. recv_packet_1 env s = Some (ret, s') \<and> handled s s' m" if "ep_state s = ES_WAITING_1_4"
    using recv_packet_1_total[OF wf assms(2) that] handled_calm by blast
  have "handled s s m" using handled_calm wf by simp
  then show ?thesis
    using 1 recv_packet_3_total[OF assms(1)] recv_group_1_total[OF assms(1)]
    by (simp add: eap_dispatch_def ES_WAITING_3_4_def ES_NEGOTIATED_def)
qed

text \<open>
  \<open>handle_rawsock\<close>, on any frame: it stays inside its objects, and either installs no key or has been
  given a fresh and authentic packet by the access point.
\<close>

lemma handle_rawsock_cases:
  assumes "eap_wf s" and "env_wf env"
  obtains s' where "handle_rawsock env s = Some s'" "eap_wf s'" "calm s s'"
  | s' addr data where "handle_rawsock env s = Some s'" "w_recv env (ep_log s @ [Ev_recvfrom]) = Inr (addr, data)"
      "take 6 addr = w_bssid env" "handled s s' (take 1024 data)"
proof -
  define s0 where "s0 = note_ev Ev_recvfrom s"
  have l0: "ep_log s0 = ep_log s @ [Ev_recvfrom]" by (simp add: s0_def note_ev_def)
  have c0: "calm s s0" "eap_wf s0" "length (ep_packet s0) = 1024" "ep_packet s0 = ep_packet s"
    using assms(1) by (auto simp: s0_def calm_def log_simps eap_wf_def)
  show thesis
  proof (cases "w_recv env (ep_log s0)")
    case (Inl ret)
    then have "handle_rawsock env s = Some (note_ev (Ev_warn ''EAPOL'' ret) s0)"
      by (simp add: handle_rawsock_def Let_def s0_def)
    moreover have "calm s (note_ev (Ev_warn ''EAPOL'' ret) s0)" "eap_wf (note_ev (Ev_warn ''EAPOL'' ret) s0)"
      using c0 by (auto simp: calm_def log_simps eap_wf_def)
    ultimately show ?thesis using that(1) by blast
  next
    case (Inr ad)
    obtain addr data where r: "w_recv env (ep_log s0) = Inr (addr, data)" using Inr by (cases ad) auto
    let ?d = "take 1024 data" and ?n = "length (take 1024 data)"
    define m where "m = ?d @ drop ?n (ep_packet s0)"
    have m: "wrs (ep_packet s0) 0 ?d = Some m" "length m = 1024" "take ?n m = ?d"
      using c0(3) take_exact[of ?d ?n] by (auto simp: wrs_def m_def)
    let ?s = "s0 \<lparr> ep_packet := m \<rparr>"
    have cs: "calm s ?s" "eap_wf ?s" using c0 m(2) by (auto simp: calm_def key_events_def primes_def eap_wf_def)
    have a6: "6 \<le> length addr" "length (w_bssid env) = 6" using assms(2) r by (auto simp: env_wf_def)
    obtain c where c: "memcmp (w_bssid env) addr 6 = Some c" "c = 0 \<longleftrightarrow> w_bssid env = take 6 addr"
      using memcmp_zero_iff[of 6 "w_bssid env" addr] a6 by auto
    obtain pac pay where n: "net16 m 2 = Some pac" "net16 m 97 = Some pay"
      using net16_total[of 2 m] net16_total[of 97 m] m(2) by auto
    have ty: "rd m 1 = Some (m ! 1)" using m(2) by (simp add: rd_def)
    have h: "handle_rawsock env s =
        (if c \<noteq> 0 \<or> ?n < 99 \<or> pac + 4 \<noteq> ?n \<or> 99 + pay > ?n \<or> m ! 1 \<noteq> EAPOL_KEY then Some ?s
         else do { (ret, t) \<leftarrow> eap_dispatch env ?s; Some (if ret < 0 then note_ev (Ev_abort ret) t else t) })"
      unfolding handle_rawsock_def Let_def s0_def[symmetric] r sum.case prod.case m(1) bind.simps c(1) n ty by auto
    show ?thesis
    proof (cases "c \<noteq> 0 \<or> ?n < 99 \<or> pac + 4 \<noteq> ?n \<or> 99 + pay > ?n \<or> m ! 1 \<noteq> EAPOL_KEY")
      case True
      then show ?thesis using h cs that(1) by simp
    next
      case False
      have "packet_in ?s ?d ?n"
        using False cs(2) m n by (auto simp: packet_in_def)
      from eap_dispatch_total[OF this assms(2)] obtain ret t where
        t: "eap_dispatch env ?s = Some (ret, t)" "handled ?s t ?d" by blast
      have "handled s t ?d" using t(2) c0(1)
        by (auto simp: handled_def calm_def key_events_def primes_def fresh_authentic_def s0_def note_ev_def)
      then have "handled s (if ret < 0 then note_ev (Ev_abort ret) t else t) ?d"
        by (auto simp: handled_def calm_def log_simps eap_wf_def)
      then show ?thesis using False h t(1) c(2) r l0 that(2) by simp
    qed
  qed
qed

section \<open>Properties\<close>

text \<open>A state with zeroed buffers and a kernel that delivers \<open>f\<close>, for the concrete instances.\<close>

definition demo_eap :: "int \<Rightarrow> eap" where
  "demo_eap st = \<lparr> ep_rawsock = 3, ep_pollset = 1, ep_state = st, ep_sends = 1, ep_version = 1,
     ep_amac = zeroes 6, ep_smac = zeroes 6, ep_anonce = zeroes 32, ep_snonce = zeroes 32, ep_replay = zeroes 8,
     ep_PSK = zeroes 32, ep_KCK = zeroes 16, ep_KEK = zeroes 16, ep_PTK = zeroes 16, ep_GTK = zeroes 32,
     ep_RSC = zeroes 6, ep_gtkindex = 0, ep_packet = zeroes 1024, ep_log = [] \<rparr>"

definition demo_env :: "(ev list \<Rightarrow> int + byte list \<times> byte list) \<Rightarrow> wenv" where
  "demo_env f = \<lparr> w_ifaddr = [2, 0, 0, 0, 0, 1], w_bssid = zeroes 6, w_txies = [], w_gtklen = 16,
     w_resp = \<lambda>l. 0, w_random = \<lambda>l. (32, replicate 32 7), w_recv = f \<rparr>"

definition demo_frame :: wenv where
  "demo_frame = demo_env (\<lambda>l. Inr (zeroes 8, replicate 131 5))"

lemma demo_wf: "eap_wf (demo_eap st)"
  by (simp add: eap_wf_def demo_eap_def zeroes_def)

lemma demo_frame_wf: "env_wf demo_frame"
  by (simp add: env_wf_def demo_frame_def demo_env_def zeroes_def)

text \<open>
  C5.  No frame makes the negotiation read or write outside its buffers: whatever arrives, in
  whatever state, \<open>handle_rawsock\<close> completes and every object keeps its size.
\<close>

theorem handle_rawsock_safe:
  assumes "eap_wf s" and "env_wf env"
  shows "\<exists>s'. handle_rawsock env s = Some s' \<and> eap_wf s'"
  by (rule handle_rawsock_cases[OF assms]) (auto simp: handled_def)

theorem handle_rawsock_safe_witness:
  "\<exists>s'. handle_rawsock demo_frame (demo_eap ES_NEGOTIATED) = Some s' \<and> eap_wf s'"
  by (rule handle_rawsock_safe[OF demo_wf demo_frame_wf])

text \<open>
  C2.  Keys are installed on authenticated packets only: handling a frame hands no key to the kernel,
  unless the frame came from the address of the access point, its integrity code is the HMAC of the
  frame under the key check key, and its replay counter is above the last one accepted, in which case
  that counter is the one kept.
\<close>

theorem keys_need_authentic_packet:
  assumes "eap_wf s" and "env_wf env"
  shows "\<exists>s'. handle_rawsock env s = Some s' \<and> (key_events s' = key_events s \<or>
    (\<exists>addr data m. w_recv env (ep_log s @ [Ev_recvfrom]) = Inr (addr, data) \<and> take 6 addr = w_bssid env \<and>
      m = take 1024 data \<and> counter (ep_replay s) < counter (take 8 (drop 9 m)) \<and> ep_replay s' = take 8 (drop 9 m) \<and>
      take 16 (drop 81 m) = take 16 (hmac_spec sha1_spec (ep_KCK s) (take 81 m @ replicate 16 0 @ drop 97 m))))"
proof (rule handle_rawsock_cases[OF assms])
  fix t assume "handle_rawsock env s = Some t" "calm s t"
  then show ?thesis by (simp add: calm_def)
next
  fix t addr data
  assume t: "handle_rawsock env s = Some t" "w_recv env (ep_log s @ [Ev_recvfrom]) = Inr (addr, data)"
    "take 6 addr = w_bssid env" "handled s t (take 1024 data)"
  then show ?thesis
    unfolding handled_def calm_def fresh_authentic_def mic_of_def zeroes_def by blast
qed

theorem keys_need_authentic_packet_witness:
  "\<exists>s'. handle_rawsock demo_frame (demo_eap ES_WAITING_3_4) = Some s' \<and>
    (key_events s' = key_events (demo_eap ES_WAITING_3_4) \<or>
    (\<exists>addr data m. w_recv demo_frame (ep_log (demo_eap ES_WAITING_3_4) @ [Ev_recvfrom]) = Inr (addr, data) \<and>
      take 6 addr = w_bssid demo_frame \<and> m = take 1024 data \<and>
      counter (ep_replay (demo_eap ES_WAITING_3_4)) < counter (take 8 (drop 9 m)) \<and> ep_replay s' = take 8 (drop 9 m) \<and>
      take 16 (drop 81 m) =
        take 16 (hmac_spec sha1_spec (ep_KCK (demo_eap ES_WAITING_3_4)) (take 81 m @ replicate 16 0 @ drop 97 m))))"
  by (rule keys_need_authentic_packet[OF demo_wf demo_frame_wf])

section \<open>One connection attempt\<close>

text \<open>
  Everything the rest of the supplicant may do with the module between two calls of
  \<open>prime_eapol_state\<close>, in any order; the settings of the access point and the answers of the kernel
  may differ from call to call.
\<close>

inductive attempt :: "eap \<Rightarrow> eap \<Rightarrow> bool" where
  start: "attempt s s"
| recv: "attempt s t \<Longrightarrow> env_wf env \<Longrightarrow> handle_rawsock env t = Some u \<Longrightarrow> attempt s u"
| allow: "attempt s t \<Longrightarrow> env_wf env \<Longrightarrow> allow_eapol_sends env t = Some (ret, u) \<Longrightarrow> attempt s u"
| reset: "attempt s t \<Longrightarrow> attempt s (reset_eapol_state t)"
| open_sock: "attempt s t \<Longrightarrow> open_rawsock env t = (ret, u) \<Longrightarrow> attempt s u"
| close_sock: "attempt s t \<Longrightarrow> attempt s (close_rawsock t)"
| set_psk: "attempt s t \<Longrightarrow> length psk = 32 \<Longrightarrow> attempt s (t \<lparr> ep_PSK := psk \<rparr>)"

definition ptk_count :: "eap \<Rightarrow> nat" where
  "ptk_count s = length (filter is_ptk_ev (ep_log s))"

text \<open>Pairwise keys installed, plus one while the handshake may still come to install one.\<close>

definition ptk_bound :: "eap \<Rightarrow> nat" where
  "ptk_bound s = ptk_count s + (if ep_state s \<in> {1, 2, 3} then 1 else 0)"

lemma ptk_count_key_events: "ptk_count s = length (filter is_ptk_ev (key_events s))"
proof -
  have "is_ptk_ev e \<Longrightarrow> is_key_ev e" for e by (cases e) (auto simp: is_ptk_ev_def is_key_ev_def)
  then have "filter is_ptk_ev (filter is_key_ev l) = filter is_ptk_ev l" for l
    by (induction l) auto
  then show ?thesis by (simp add: ptk_count_def key_events_def)
qed

lemma calm_bound: "calm s t \<Longrightarrow> ptk_bound t \<le> ptk_bound s"
  by (auto simp: calm_def ptk_bound_def ptk_count_key_events)

lemma handled_bound:
  assumes "handled s t m"
  shows "ptk_bound t \<le> ptk_bound s"
proof (cases "calm s t")
  case False
  then show ?thesis using assms by (auto simp: handled_def ptk_bound_def ptk_count_key_events)
qed (rule calm_bound)

lemma allow_eapol_sends_total:
  assumes "eap_wf s" and "env_wf env"
  shows "\<exists>ret t. allow_eapol_sends env s = Some (ret, t) \<and> eap_wf t \<and> calm s t"
proof -
  have "\<exists>ret t. send_packet_2 env s = Some (ret, t) \<and> eap_wf t \<and> calm s t" if "ep_state s = ES_WAITING_2_4"
    using send_packet_2_total[OF assms] that by (auto simp: ES_WAITING_2_4_def)
  then show ?thesis
    using assms(1) by (auto simp: allow_eapol_sends_def eap_wf_def calm_def key_events_def primes_def)
qed

lemma open_rawsock_calm: "open_rawsock env s = (ret, t) \<Longrightarrow> eap_wf s \<Longrightarrow> eap_wf t \<and> calm s t"
  by (auto simp: open_rawsock_def log_simps eap_wf_def calm_def split: if_splits)

lemma close_rawsock_calm: "eap_wf s \<Longrightarrow> eap_wf (close_rawsock s) \<and> calm s (close_rawsock s)"
  by (auto simp: close_rawsock_def log_simps eap_wf_def calm_def)

lemma reset_calm: "eap_wf s \<Longrightarrow> eap_wf (reset_eapol_state s) \<and> calm s (reset_eapol_state s)"
  by (auto simp: reset_eapol_state_def cleanup_keys_def key_events_def primes_def zeroes_def eap_wf_def calm_def)

lemma attempt_bound: "attempt s t \<Longrightarrow> eap_wf s \<Longrightarrow> eap_wf t \<and> ptk_bound t \<le> ptk_bound s"
proof (induction rule: attempt.induct)
  case (recv s t env u)
  then have t: "eap_wf t" "ptk_bound t \<le> ptk_bound s" by auto
  show ?case
  proof (rule handle_rawsock_cases[OF t(1) recv.hyps(2)])
    fix s' assume "handle_rawsock env t = Some s'" "eap_wf s'" "calm t s'"
    then show ?thesis using recv.hyps(3) calm_bound t(2) by fastforce
  next
    fix s' addr data assume "handle_rawsock env t = Some s'" "handled t s' (take 1024 data)"
    then show ?thesis using recv.hyps(3) handled_bound[of t s'] t(2) by (fastforce simp: handled_def)
  qed
next
  case (allow s t env ret u)
  then show ?case using allow_eapol_sends_total[of t env] calm_bound[of t u] by fastforce
next
  case (reset s t)
  then show ?case using reset_calm[of t] calm_bound by fastforce
next
  case (open_sock s t env ret u)
  then show ?case using open_rawsock_calm[of env t ret u] calm_bound[of t u] by fastforce
next
  case (close_sock s t)
  then show ?case using close_rawsock_calm[of t] calm_bound by fastforce
next
  case (set_psk s t psk)
  then show ?case by (simp add: eap_wf_def ptk_bound_def ptk_count_def)
qed simp

text \<open>
  C3.  The pairwise key is installed at most once per connection attempt: whatever frames arrive,
  repeated third packets included, and whatever else the supplicant does, the module hands a pairwise
  key to the kernel at most once until it is primed again, and not at all once negotiation is over.
\<close>

theorem no_key_reinstallation:
  assumes "attempt s t" and "eap_wf s"
  shows "ptk_count t \<le> ptk_count s + (if ep_state s = ES_NEGOTIATED then 0 else 1)"
  using attempt_bound[OF assms] by (auto simp: ptk_bound_def ES_NEGOTIATED_def split: if_splits)

theorem no_key_reinstallation_witness:
  "ptk_count (close_rawsock (reset_eapol_state (demo_eap ES_NEGOTIATED))) \<le> ptk_count (demo_eap ES_NEGOTIATED) +
     (if ep_state (demo_eap ES_NEGOTIATED) = ES_NEGOTIATED then 0 else 1)"
proof (rule no_key_reinstallation)
  show "attempt (demo_eap ES_NEGOTIATED) (close_rawsock (reset_eapol_state (demo_eap ES_NEGOTIATED)))"
    by (intro attempt.close_sock attempt.reset attempt.start)
qed (rule demo_wf)

text \<open>
  C6.  Both sides derive the same keys: an access point running the same derivation, with the two
  addresses and the two nonces the other way round, gets the same key check key, key encryption key
  and pairwise key.
\<close>

theorem key_agreement:
  assumes "length (ep_PSK s) = 32" and "length (w_ifaddr env) = 6" and "length (w_bssid env) = 6"
    and "length (ep_snonce s) = 32" and "length (ep_anonce s) = 32"
    and "ep_PSK p = ep_PSK s" and "w_ifaddr penv = w_bssid env" and "w_bssid penv = w_ifaddr env"
    and "ep_snonce p = ep_anonce s" and "ep_anonce p = ep_snonce s"
  shows "\<exists>s' p'. pmk_to_ptk env s = Some s' \<and> pmk_to_ptk penv p = Some p' \<and>
    ep_KCK p' = ep_KCK s' \<and> ep_KEK p' = ep_KEK s' \<and> ep_PTK p' = ep_PTK s'"
proof -
  have "pairwise_key (ep_PSK s) (w_bssid env) (w_ifaddr env) (ep_anonce s) (ep_snonce s) =
      pairwise_key (ep_PSK s) (w_ifaddr env) (w_bssid env) (ep_snonce s) (ep_anonce s)"
    by (simp only: pairwise_key_def ordered_pair_swap[OF assms(2,3)] ordered_pair_swap[OF assms(4,5)])
  then show ?thesis
    using assms by (simp add: pmk_to_ptk_eq Let_def)
qed

text \<open>The access point's side of the same attempt.\<close>

definition demo_peer :: wenv where
  "demo_peer = demo_frame \<lparr> w_ifaddr := w_bssid demo_frame, w_bssid := w_ifaddr demo_frame \<rparr>"

theorem key_agreement_witness:
  "\<exists>s' p'. pmk_to_ptk demo_frame ((demo_eap 1) \<lparr> ep_snonce := replicate 32 7 \<rparr>) = Some s' \<and>
    pmk_to_ptk demo_peer ((demo_eap 1) \<lparr> ep_anonce := replicate 32 7 \<rparr>) = Some p' \<and>
    ep_KCK p' = ep_KCK s' \<and> ep_KEK p' = ep_KEK s' \<and> ep_PTK p' = ep_PTK s'"
  by (rule key_agreement) (simp_all add: demo_eap_def demo_peer_def demo_frame_def demo_env_def zeroes_def)

end
