(* ===== verification/Eapol_Run.thy ===== *)
theory Eapol_Run
  imports Eapol_Props
begin

text \<open>
  A complete handshake: what the access point sends as the third packet, and that the module accepts
  it, answers and installs both keys.  It also shows that the states and packets the other properties
  speak of exist.
\<close>

section \<open>The third packet\<close>

definition ki_packet_3 :: u16 where
  "ki_packet_3 = KI_SHA OR KI_PAIRWISE OR KI_ACK OR KI_MIC OR KI_ENCRYPTED OR KI_SECURE"

definition packet_3_head :: "byte \<Rightarrow> byte list \<Rightarrow> byte list \<Rightarrow> byte list \<Rightarrow> nat \<Rightarrow> byte list" where
  "packet_3_head v rep nonce rsc len =
     [v, EAPOL_KEY] @ le_bytes 2 (htons (of_nat (95 + len))) @ [EAPOL_KEY_RSN] @ le_bytes 2 (htons ki_packet_3) @
     le_bytes 2 (htons 16) @ rep @ nonce @ zeroes 16 @ rsc @ zeroes 8"

definition packet_3 :: "byte \<Rightarrow> byte list \<Rightarrow> byte list \<Rightarrow> byte list \<Rightarrow> byte list \<Rightarrow> byte list \<Rightarrow> byte list" where
  "packet_3 v rep nonce rsc kck payload =
     (let head = packet_3_head v rep nonce rsc (length payload);
          tl = le_bytes 2 (htons (of_nat (length payload))) @ payload
      in head @ mic_of kck (head @ zeroes 16 @ tl) @ tl)"

definition gtk_kde :: "byte \<Rightarrow> byte list \<Rightarrow> byte list" where
  "gtk_kde idx gtk = [0xDD, 22, 0x00, 0x0F, 0xAC, 0x01, idx, 0] @ gtk"

text \<open>The kernel sends what it is given and takes the keys.\<close>

definition accepts :: "wenv \<Rightarrow> bool" where
  "accepts env \<longleftrightarrow> (\<forall>l a d. w_resp env (l @ [Ev_sendto a d]) = int (length d)) \<and>
     (\<forall>l k. 0 \<le> w_resp env (l @ [Ev_upload_ptk k])) \<and> (\<forall>l i k r. 0 \<le> w_resp env (l @ [Ev_upload_gtk i k r]))"

lemma ntohs_htons [simp]: "ntohs (htons w) = w"
proof (rule bit_word_eqI)
  fix n
  assume "n < LENGTH(16)"
  then consider "n < 8" | "8 \<le> n" "n < 16" by fastforce
  then show "bit (ntohs (htons w)) n = bit w n"
    unfolding ntohs_def htons_def swabs_def mask8 by cases (auto simp: bit_simps)
qed

lemma net16_field: "length a = p \<Longrightarrow> net16 (a @ le_bytes 2 (htons w) @ c) p = Some (unat w)"
  by (simp add: net16_def rd16_append)

lemma ptype_field:
  "length a = 5 \<Longrightarrow> ptype (a @ le_bytes 2 (htons w) @ c) bits =
     Some (w AND KI_TYPEMASK = KI_SHA \<and> w AND (KI_PAIRWISE OR KI_ACK OR KI_SECURE OR KI_MIC OR KI_ENCRYPTED) = bits)"
  by (simp add: ptype_def rd16_append Let_def)

lemma ki_bits:
  "ki_packet_3 AND KI_TYPEMASK = KI_SHA"
  "ki_packet_3 AND (KI_PAIRWISE OR KI_ACK OR KI_SECURE OR KI_MIC OR KI_ENCRYPTED) =
     KI_PAIRWISE OR KI_ACK OR KI_MIC OR KI_ENCRYPTED OR KI_SECURE"
  "ki_packet_3 AND (KI_PAIRWISE OR KI_ACK OR KI_SECURE OR KI_MIC OR KI_ENCRYPTED) \<noteq> KI_PAIRWISE OR KI_ACK"
  by code_simp+

section \<open>The answer\<close>

lemma send_packet_4_accepted:
  assumes "eap_wf s" and "accepts env"
  shows "\<exists>d s'. send_packet_4 env s = Some (0, s') \<and> ep_state s' = ES_NEGOTIATED \<and>
    ep_log s' = ep_log s @ [Ev_sendto (ep_amac s) d, Ev_upload_ptk (ep_PTK s),
      Ev_upload_gtk (ep_gtkindex s) (take (w_gtklen env) (ep_GTK s)) (ep_RSC s), Ev_success]"
proof -
  let ?fs = "[(0, [ep_version s]), (1, [3]), (4, [2]),
            (5, le_bytes 2 (htons (KI_SHA OR KI_PAIRWISE OR KI_MIC OR KI_SECURE))), (7, zeroes 2),
            (9, ep_replay s), (17, zeroes 32), (49, zeroes 16), (65, zeroes 8), (81, zeroes 16), (73, zeroes 8),
            (97, le_bytes 2 (htons 0)), (2, le_bytes 2 (htons (of_nat (99 - 4))))]"
  have l: "length (ep_packet s) = 1024" "length (ep_KCK s) = 16" using assms(1) by (auto simp: eap_wf_def)
  have fs: "\<forall>(p, bs) \<in> set ?fs. p + length bs \<le> length (ep_packet s)"
    using assms l by (auto simp: eap_wf_def zeroes_def)
  obtain m0 where m0: "put_fields ?fs (ep_packet s) = Some m0" "length m0 = 1024"
    using put_fields_total[OF fs] l by auto
  have mic: "make_mic (ep_KCK s) m0 99 = Some (mic_of (ep_KCK s) (take 99 m0))"
    using make_mic_total l(2) m0(2) by simp
  obtain m where m: "wrs m0 81 (mic_of (ep_KCK s) (take 99 m0)) = Some m" "length m = 1024"
    using wrs_fits[of 81 "mic_of (ep_KCK s) (take 99 m0)" m0] m0(2) by auto
  have "send_packet env 99 (s \<lparr> ep_packet := m \<rparr>) =
      Some (99, note_ev (Ev_sendto (ep_amac s) (take 99 m)) (s \<lparr> ep_packet := m \<rparr>))"
    using m(2) assms(2) by (simp add: send_packet_def rds_def ext_def accepts_def)
  moreover have "\<not> w_resp env (l @ [Ev_upload_ptk k]) < 0" "\<not> w_resp env (l @ [Ev_upload_gtk i k r]) < 0" for l i k r
    using assms(2) by (auto simp: accepts_def not_less)
  ultimately show ?thesis
    unfolding send_packet_4_def Let_def m0(1) bind.simps mic m(1)
    by (simp add: upload_ptk_def upload_gtk_def ext_def note_ev_def cleanup_keys_def)
qed

section \<open>Taking the group key\<close>

lemma fetch_kde:
  assumes "ep_packet s = a @ gtk_kde idx gtk @ c" and "length a = p" and "length gtk = 16" and "idx AND 3 \<noteq> 0"
    and "w_gtklen env = 16" and "length (ep_GTK s) = 32"
  shows "fetch_gtk env p 24 s = Some (0, s \<lparr> ep_gtkindex := uint (idx AND 3), ep_GTK := gtk @ drop 16 (ep_GTK s) \<rparr>)"
proof -
  let ?m = "ep_packet s"
  have b: "rd ?m p = Some 0xDD" "rd ?m (p + 1) = Some 22" "rd ?m (p + 6) = Some idx"
    using assms(1-3) by (auto simp: rd_def gtk_kde_def nth_append)
  have r: "rds ?m (p + 2) 4 = Some kde_type_gtk" "rds ?m (p + 6 + 2) 16 = Some gtk"
    using assms(1-3) by (auto simp: rds_def gtk_kde_def kde_type_gtk_def)
  have c: "memcmp kde_type_gtk kde_type_gtk 4 = Some 0" by code_simp
  have w: "wrs (ep_GTK s) 0 gtk = Some (gtk @ drop 16 (ep_GTK s))" using assms(3,6) by (simp add: wrs_def)
  have e: "nat (int p + 24) = p + 24" by simp
  have u: "unat (22 :: byte) = 22" by simp
  have i: "uint (idx AND 3) \<noteq> 0" using assms(4) by simp
  have g: "store_gtk env (uint (idx AND 3)) (p + 6 + 2) 16 s =
      Some (0, s \<lparr> ep_gtkindex := uint (idx AND 3), ep_GTK := gtk @ drop 16 (ep_GTK s) \<rparr>)"
    unfolding store_gtk_def Let_def assms(5) using r(2) w by simp
  show ?thesis
    unfolding fetch_gtk_def e fetch_loop.simps[of env p] b bind.simps r(1) c u Let_def using i g by simp
qed

text \<open>The group key in a wrapped payload, and the rest of the packet around it.\<close>

lemma take_wrapped_gtk:
  assumes wf: "eap_wf s" "ep_packet s = a @ le_bytes 2 (htons 32) @ payload @ c" "length a = 97" "length payload = 32"
    and wrap: "aes128_unwrap (ep_KEK s) payload 32 = Some (iv @ gtk_kde idx gtk)"
    and gtk: "length gtk = 16" "idx AND 3 \<noteq> 0" "w_gtklen env = 16"
  shows "take_gtk env answer s = answer env (s \<lparr> ep_packet := a @ le_bytes 2 (htons 32) @ iv @ gtk_kde idx gtk @ c,
    ep_gtkindex := uint (idx AND 3), ep_GTK := gtk @ drop 16 (ep_GTK s),
    ep_RSC := take 6 (drop 65 a), ep_replay := take 8 (drop 9 a) \<rparr>)"
proof -
  let ?q = "a @ le_bytes 2 (htons 32) @ iv @ gtk_kde idx gtk @ c"
  have n: "net16 (ep_packet s) 97 = Some 32" using net16_field[OF wf(3), of 32] wf(2) by simp
  have "drop 99 (ep_packet s) = payload @ c" "take 99 (ep_packet s) = a @ le_bytes 2 (htons 32)"
    using wf(2,3) by simp_all
  moreover have "memxcmp ((iv @ gtk_kde idx gtk) @ c) iv 8 = Some 0"
    using memxcmp_zero_iff[of 8 "(iv @ gtk_kde idx gtk) @ c" iv] by (auto simp: iv_def)
  ultimately have u: "unwrap_key (ep_KEK s) (ep_packet s) 99 32 = Some (0, ?q)"
    unfolding unwrap_key_def using aes128_unwrap_more[OF wrap, of c] by simp
  let ?s = "s \<lparr> ep_packet := ?q \<rparr>"
  have f: "fetch_gtk env (99 + 8) (int 32 - 8) ?s = Some (0, ?s \<lparr> ep_gtkindex := uint (idx AND 3), ep_GTK := gtk @ drop 16 (ep_GTK s) \<rparr>)"
    using fetch_kde[of ?s "a @ le_bytes 2 (htons 32) @ iv" idx gtk c 107 env] wf gtk
    by (simp add: iv_def eap_wf_def)
  have r: "rds ?q 65 6 = Some (take 6 (drop 65 a))" "rds ?q 9 8 = Some (take 8 (drop 9 a))"
    using wf(3) by (simp_all add: rds_def)
  show ?thesis
    unfolding take_gtk_def n bind.simps u prod.case Let_def f using r by simp
qed

section \<open>Handling the third packet\<close>

lemma packet_3_head_parts:
  fixes v :: byte and len :: nat
  assumes "length rep = 8" and "length nonce = 32" and "length rsc = 8"
  defines "H \<equiv> packet_3_head v rep nonce rsc len"
  shows "length H = 81" and "take 8 (drop 9 H) = rep" and "take 32 (drop 17 H) = nonce" and "take 6 (drop 65 H) = take 6 rsc"
    and "net16 (H @ c) 2 = Some (unat (of_nat (95 + len) :: u16))" and "rd (H @ c) 1 = Some EAPOL_KEY"
    and "ptype (H @ c) (KI_PAIRWISE OR KI_ACK) = Some False"
    and "ptype (H @ c) (KI_PAIRWISE OR KI_ACK OR KI_MIC OR KI_ENCRYPTED OR KI_SECURE) = Some True"
proof -
  show "length H = 81" "take 8 (drop 9 H) = rep" "take 32 (drop 17 H) = nonce" "take 6 (drop 65 H) = take 6 rsc"
    using assms(1-3) by (simp_all add: H_def packet_3_head_def zeroes_def)
  have a: "H @ c = [v, EAPOL_KEY] @ le_bytes 2 (htons (of_nat (95 + len))) @ (drop 4 H @ c)"
    by (simp add: H_def packet_3_head_def)
  show "net16 (H @ c) 2 = Some (unat (of_nat (95 + len) :: u16))" unfolding a by (rule net16_field) simp
  show "rd (H @ c) 1 = Some EAPOL_KEY" by (simp add: H_def packet_3_head_def rd_def)
  have b: "H @ c = take 5 H @ le_bytes 2 (htons ki_packet_3) @ (drop 7 H @ c)" "length (take 5 H) = 5"
    by (simp_all add: H_def packet_3_head_def)
  show "ptype (H @ c) (KI_PAIRWISE OR KI_ACK) = Some False"
    unfolding b(1) ptype_field[OF b(2)] using ki_bits(3) by simp
  show "ptype (H @ c) (KI_PAIRWISE OR KI_ACK OR KI_MIC OR KI_ENCRYPTED OR KI_SECURE) = Some True"
    unfolding b(1) ptype_field[OF b(2)] using ki_bits(1,2) by simp
qed

lemma recv_packet_3_accepts:
  assumes wf: "eap_wf s" and acc: "accepts env"
    and gtk: "length gtk = 16" "idx AND 3 \<noteq> 0" "w_gtklen env = 16" "length rsc = 8"
    and rep: "length rep = 8" "counter (ep_replay s) < counter rep"
    and pay: "length payload = 32" "aes128_unwrap (ep_KEK s) payload 32 = Some (iv @ gtk_kde idx gtk)"
    and P: "ep_packet s = packet_3 v rep (ep_anonce s) rsc (ep_KCK s) payload @ R"
  shows "\<exists>d s'. recv_packet_3 env s = Some (0, s') \<and> ep_state s' = ES_NEGOTIATED \<and>
    ep_log s' = ep_log s @ [Ev_sendto (ep_amac s) d, Ev_upload_ptk (ep_PTK s),
      Ev_upload_gtk (uint (idx AND 3)) gtk (take 6 rsc), Ev_success]"
proof -
  define H where "H = packet_3_head v rep (ep_anonce s) rsc 32"
  define T where "T = le_bytes 2 (htons 32) @ payload"
  define M where "M = mic_of (ep_KCK s) (H @ zeroes 16 @ T)"
  have l: "length (ep_packet s) = 1024" "length (ep_anonce s) = 32" "length (ep_KCK s) = 16" "length (ep_replay s) = 8"
    "length (ep_GTK s) = 32"
    using wf by (auto simp: eap_wf_def)
  note h = packet_3_head_parts[OF rep(1) l(2) gtk(4), of v 32, folded H_def]
  have P': "ep_packet s = H @ (M @ T @ R)"
    using P by (simp add: packet_3_def Let_def H_def M_def T_def pay(1))
  have LT: "length T = 34" "length M = 16" by (simp_all add: T_def M_def pay(1))
  have n: "net16 (ep_packet s) 2 = Some 127" using h(5)[of "M @ T @ R"] P' by simp
  have r: "rds (ep_packet s) 17 32 = Some (ep_anonce s)" "rds (ep_packet s) 9 8 = Some rep"
    using h(1-3) by (simp_all add: P' rds_def)
  obtain d where d: "memcmp (ep_replay s) rep 8 = Some d" "d < 0"
    using memcmp_counter[OF l(4) rep(1)] rep(2) by auto
  let ?q = "(H @ zeroes 16) @ le_bytes 2 (htons 32) @ payload @ R"
  have "take 131 ?q = H @ zeroes 16 @ T" using h(1) LT by (simp add: T_def zeroes_def pay(1))
  moreover have "take 81 (ep_packet s) @ zeroes 16 @ drop 97 (ep_packet s) = ?q" "take 16 (drop 81 (ep_packet s)) = M"
    using h(1) LT by (simp_all add: P' T_def)
  ultimately have "check_mic 81 (ep_KCK s) (ep_packet s) 131 = Some (0, ?q)"
    using check_mic_total[of "ep_KCK s" 131 "ep_packet s"] l by (simp add: M_def)
  then have c: "check_mic 81 (ep_KCK s) (ep_packet s) (4 + 127) = Some (0, ?q)" by simp
  have w: "eap_wf (s \<lparr> ep_packet := ?q \<rparr>)"
    using wf h(1) LT l(1) P' by (simp add: eap_wf_def zeroes_def T_def)
  have a: "length (H @ zeroes 16) = 97" using h(1) by (simp add: zeroes_def)
  define t where "t = s \<lparr> ep_packet := (H @ zeroes 16) @ le_bytes 2 (htons 32) @ iv @ gtk_kde idx gtk @ R,
    ep_gtkindex := uint (idx AND 3), ep_GTK := gtk @ drop 16 (ep_GTK s), ep_RSC := take 6 rsc, ep_replay := rep \<rparr>"
  have k: "take_gtk env send_packet_4 (s \<lparr> ep_packet := ?q \<rparr>) = send_packet_4 env t"
    using take_wrapped_gtk[OF w _ a pay(1) _ gtk(1-3), of R] pay(2) h(1-4) by (simp add: t_def)
  have "eap_wf t"
    using wf w gtk(1,4) rep(1) pay(1) l(5) by (simp add: eap_wf_def t_def zeroes_def iv_def gtk_kde_def)
  from send_packet_4_accepted[OF this acc] show ?thesis
    unfolding recv_packet_3_def Let_def n bind.simps r d(1) c prod.case k
    using h(7,8)[of "M @ T @ R"] memcmp_same[of 32 "ep_anonce s" "ep_anonce s"] d(2) l(2) gtk(1,3) by (simp add: P'[symmetric] t_def)
qed


text \<open>A group key, its packet and the kernel that delivers it.\<close>

definition demo_gtk :: "byte list" where
  "demo_gtk = replicate 16 9"

definition demo_packet :: "byte list" where
  "demo_packet = packet_3 1 (zeroes 7 @ [1]) (zeroes 32) (zeroes 8) (zeroes 16)
     (the (aes128_wrap (zeroes 16) (iv @ gtk_kde 1 demo_gtk) 32))"

definition demo_ap :: wenv where
  "demo_ap = (demo_env (\<lambda>l. Inr (zeroes 6 @ [], demo_packet)))
     \<lparr> w_resp := \<lambda>l. case last l of Ev_sendto a d \<Rightarrow> int (length d) | _ \<Rightarrow> 0 \<rparr>"

lemma counter_zeroes: "counter (zeroes n) = 0" "counter (zeroes n @ [b]) = unat b"
  unfolding zeroes_def by (induction n) simp_all


end
