(* ===== verification/Wsupp_Keys.thy ===== *)
theory Wsupp_Keys
  imports Netlink_Props Eapol_Run
begin

text \<open>
  Installing the negotiated keys (\<^verbatim>\<open>src/wsupp/wsupp_nlkeys.c\<close>): the requests to the kernel that the key
  negotiation makes through \<open>upload_ptk\<close> and \<open>upload_gtk\<close>.  In the model of the negotiation these calls are
  events that carry the key; here are the messages they become.
\<close>

section \<open>Requests\<close>

definition NL80211_CMD_NEW_KEY :: int where "NL80211_CMD_NEW_KEY = 11"
definition NL80211_ATTR_IFINDEX :: int where "NL80211_ATTR_IFINDEX = 3"
definition NL80211_ATTR_MAC :: int where "NL80211_ATTR_MAC = 6"
definition NL80211_ATTR_KEY_DATA :: int where "NL80211_ATTR_KEY_DATA = 7"
definition NL80211_ATTR_KEY_IDX :: int where "NL80211_ATTR_KEY_IDX = 8"
definition NL80211_ATTR_KEY_CIPHER :: int where "NL80211_ATTR_KEY_CIPHER = 9"
definition NL80211_ATTR_KEY_SEQ :: int where "NL80211_ATTR_KEY_SEQ = 10"
definition NL80211_ATTR_KEY_DEFAULT_TYPES :: int where "NL80211_ATTR_KEY_DEFAULT_TYPES = 110"
definition NL80211_KEY_DEFAULT_TYPE_UNICAST :: int where "NL80211_KEY_DEFAULT_TYPE_UNICAST = 1"
definition NL80211_KEY_DEFAULT_TYPE_MULTICAST :: int where "NL80211_KEY_DEFAULT_TYPE_MULTICAST = 2"

text \<open>The globals of the supplicant that the two functions use; \<open>kn_nlseq\<close> is a \<open>uint\<close>.\<close>

record keynl =
  kn_nc :: ncbuf
  kn_nlseq :: u32
  kn_netlink :: int
  kn_nl80211 :: int
  kn_ifindex :: u32
  kn_bssid :: "byte list"
  kn_pairwise :: u32
  kn_group :: u32
  kn_gtklen :: u32

definition put_ptk_attrs :: "keynl \<Rightarrow> byte list \<Rightarrow> ncbuf \<Rightarrow> ncbuf option" where
  "put_ptk_attrs g PTK nc = do {
     nc \<leftarrow> nc_put_int nc NL80211_ATTR_IFINDEX (kn_ifindex g);
     nc \<leftarrow> nc_put nc NL80211_ATTR_MAC (kn_bssid g) 6;
     nc \<leftarrow> nc_put_byte nc NL80211_ATTR_KEY_IDX 0;
     nc \<leftarrow> nc_put_int nc NL80211_ATTR_KEY_CIPHER (kn_pairwise g);
     nc \<leftarrow> nc_put nc NL80211_ATTR_KEY_DATA PTK 16;
     nc \<leftarrow> nc_put nc NL80211_ATTR_KEY_SEQ [0, 0, 0, 0, 0, 0] 6;
     (nc, at) \<leftarrow> nc_put_nest nc NL80211_ATTR_KEY_DEFAULT_TYPES;
     nc \<leftarrow> nc_put_flag nc NL80211_KEY_DEFAULT_TYPE_UNICAST;
     nc_end_nest nc at }"

definition nl_upload_ptk :: "'w nlsys \<Rightarrow> byte list \<Rightarrow> keynl \<Rightarrow> 'w \<Rightarrow> (int \<times> keynl \<times> 'w) option" where
  "nl_upload_ptk sys PTK g w = do {
     let fd = kn_netlink g;
     nc \<leftarrow> nc_header (kn_nc g) (kn_nl80211 g) 0 (uint (kn_nlseq g));
     let g = g \<lparr> kn_nlseq := kn_nlseq g + 1 \<rparr>;
     nc \<leftarrow> nc_gencmd nc NL80211_CMD_NEW_KEY 0;
     nc \<leftarrow> put_ptk_attrs g PTK nc;
     (ret, nc, w) \<leftarrow> nc_send sys fd nc w;
     Some (ret, g \<lparr> kn_nc := nc \<rparr>, w) }"

definition put_gtk_attrs :: "keynl \<Rightarrow> int \<Rightarrow> byte list \<Rightarrow> byte list \<Rightarrow> ncbuf \<Rightarrow> ncbuf option" where
  "put_gtk_attrs g gtkindex GTK RSC nc = do {
     nc \<leftarrow> nc_put_int nc NL80211_ATTR_IFINDEX (kn_ifindex g);
     nc \<leftarrow> nc_put_byte nc NL80211_ATTR_KEY_IDX (word_of_int gtkindex);
     nc \<leftarrow> nc_put_int nc NL80211_ATTR_KEY_CIPHER (kn_group g);
     nc \<leftarrow> nc_put nc NL80211_ATTR_KEY_DATA GTK (kn_gtklen g);
     nc \<leftarrow> nc_put nc NL80211_ATTR_KEY_SEQ RSC 6;
     (nc, at) \<leftarrow> nc_put_nest nc NL80211_ATTR_KEY_DEFAULT_TYPES;
     nc \<leftarrow> nc_put_flag nc NL80211_KEY_DEFAULT_TYPE_MULTICAST;
     nc_end_nest nc at }"

definition nl_upload_gtk :: "'w nlsys \<Rightarrow> int \<Rightarrow> byte list \<Rightarrow> byte list \<Rightarrow> keynl \<Rightarrow> 'w \<Rightarrow> (int \<times> keynl \<times> 'w) option" where
  "nl_upload_gtk sys gtkindex GTK RSC g w = do {
     let fd = kn_netlink g;
     nc \<leftarrow> nc_header (kn_nc g) (kn_nl80211 g) 0 (uint (kn_nlseq g));
     let g = g \<lparr> kn_nlseq := kn_nlseq g + 1 \<rparr>;
     nc \<leftarrow> nc_gencmd nc NL80211_CMD_NEW_KEY 0;
     nc \<leftarrow> put_gtk_attrs g gtkindex GTK RSC nc;
     (ret, nc, w) \<leftarrow> nc_send sys fd nc w;
     Some (ret, g \<lparr> kn_nc := nc \<rparr>, w) }"

section \<open>What is sent\<close>

lemmas nl80211_keys = NL80211_ATTR_IFINDEX_def NL80211_ATTR_MAC_def NL80211_ATTR_KEY_DATA_def NL80211_ATTR_KEY_IDX_def
  NL80211_ATTR_KEY_CIPHER_def NL80211_ATTR_KEY_SEQ_def NL80211_ATTR_KEY_DEFAULT_TYPES_def

definition ptk_attrs :: "keynl \<Rightarrow> byte list \<Rightarrow> (int \<times> byte list) list" where
  "ptk_attrs g PTK =
     [(NL80211_ATTR_IFINDEX, le_bytes 4 (kn_ifindex g)), (NL80211_ATTR_MAC, take 6 (kn_bssid g)), (NL80211_ATTR_KEY_IDX, [0]),
      (NL80211_ATTR_KEY_CIPHER, le_bytes 4 (kn_pairwise g)), (NL80211_ATTR_KEY_DATA, take 16 PTK), (NL80211_ATTR_KEY_SEQ, replicate 6 0),
      (NL80211_ATTR_KEY_DEFAULT_TYPES, enc_attr NL80211_KEY_DEFAULT_TYPE_UNICAST [])]"

definition gtk_attrs :: "keynl \<Rightarrow> int \<Rightarrow> byte list \<Rightarrow> byte list \<Rightarrow> (int \<times> byte list) list" where
  "gtk_attrs g gtkindex GTK RSC =
     [(NL80211_ATTR_IFINDEX, le_bytes 4 (kn_ifindex g)), (NL80211_ATTR_KEY_IDX, [word_of_int gtkindex]),
      (NL80211_ATTR_KEY_CIPHER, le_bytes 4 (kn_group g)), (NL80211_ATTR_KEY_DATA, take (unat (kn_gtklen g)) GTK), (NL80211_ATTR_KEY_SEQ, take 6 RSC),
      (NL80211_ATTR_KEY_DEFAULT_TYPES, enc_attr NL80211_KEY_DEFAULT_TYPE_MULTICAST [])]"

lemma enc_nest_attr: "length e mod 4 = 0 \<Longrightarrow> enc_nest key e = enc_attr key e"
  by (simp add: enc_nest_def enc_attr_def)

lemma nc_put_take_writer:
  assumes "n = word_of_nat k" and "k \<le> length data" and "k \<le> 65531"
  shows "nc_writer (\<lambda>nc. nc_put nc key data n) (enc_attr key (take k data))"
  by (rule nc_put_writer[of _ _ "drop k data"]) (use assms in auto)

lemma flag_nest_writer: "nc_writer (\<lambda>nc. do { (nc, at) \<leftarrow> nc_put_nest nc key; nc \<leftarrow> nc_put_flag nc k; nc_end_nest nc at }) (enc_attr key (enc_attr k []))"
  using nc_nest_writer[OF nc_put_flag.nc_writer_axioms, of key k] enc_nest_attr[of "enc_attr k []" key]
  by (simp add: nc_nest_def[abs_def] enc_attr_length)

lemma put_ptk_writer:
  assumes "16 \<le> length PTK" and "6 \<le> length (kn_bssid g)"
  shows "nc_writer (put_ptk_attrs g PTK) (body (ptk_attrs g PTK))"
proof -
  have mac: "nc_writer (\<lambda>nc. nc_put nc NL80211_ATTR_MAC (kn_bssid g) 6) (enc_attr NL80211_ATTR_MAC (take 6 (kn_bssid g)))"
    by (rule nc_put_take_writer) (use assms in auto)
  have dat: "nc_writer (\<lambda>nc. nc_put nc NL80211_ATTR_KEY_DATA PTK 16) (enc_attr NL80211_ATTR_KEY_DATA (take 16 PTK))"
    by (rule nc_put_take_writer) (use assms in auto)
  have six: "replicate 6 (0 :: byte) = take 6 [0, 0, 0, 0, 0, 0]" by (simp add: numeral_eq_Suc)
  have seq: "nc_writer (\<lambda>nc. nc_put nc NL80211_ATTR_KEY_SEQ [0, 0, 0, 0, 0, 0] 6) (enc_attr NL80211_ATTR_KEY_SEQ (replicate 6 0))"
    unfolding six by (rule nc_put_take_writer) auto
  show ?thesis
    unfolding put_ptk_attrs_def[abs_def] ptk_attrs_def body_simps append_Nil2
    by (intro nc_seq_writer nc_put_int.nc_writer_axioms nc_put_byte.nc_writer_axioms mac dat seq flag_nest_writer)
qed

lemma put_gtk_writer:
  assumes "unat (kn_gtklen g) \<le> length GTK" and "6 \<le> length RSC" and "unat (kn_gtklen g) \<le> 32"
  shows "nc_writer (put_gtk_attrs g gtkindex GTK RSC) (body (gtk_attrs g gtkindex GTK RSC))"
proof -
  have dat: "nc_writer (\<lambda>nc. nc_put nc NL80211_ATTR_KEY_DATA GTK (kn_gtklen g)) (enc_attr NL80211_ATTR_KEY_DATA (take (unat (kn_gtklen g)) GTK))"
    by (rule nc_put_take_writer) (use assms in auto)
  have seq: "nc_writer (\<lambda>nc. nc_put nc NL80211_ATTR_KEY_SEQ RSC 6) (enc_attr NL80211_ATTR_KEY_SEQ (take 6 RSC))"
    by (rule nc_put_take_writer) (use assms in auto)
  show ?thesis
    unfolding put_gtk_attrs_def[abs_def] gtk_attrs_def body_simps append_Nil2
    by (intro nc_seq_writer nc_put_int.nc_writer_axioms nc_put_byte.nc_writer_axioms dat seq flag_nest_writer)
qed

lemma ptk_attrs_ok:
  assumes "16 \<le> length PTK" and "6 \<le> length (kn_bssid g)"
  shows "attrs_ok (ptk_attrs g PTK)" and "length (body (ptk_attrs g PTK)) = 76"
proof -
  show "length (body (ptk_attrs g PTK)) = 76"
    using assms by (simp add: ptk_attrs_def enc_attr_length pad4_def)
  then show "attrs_ok (ptk_attrs g PTK)"
    using assms by (simp add: attrs_ok_def keys_ok_def) (simp add: ptk_attrs_def nl80211_keys enc_attr_length)
qed

lemma gtk_attrs_ok:
  assumes "unat (kn_gtklen g) \<le> 32" and "6 \<le> length RSC"
  shows "attrs_ok (gtk_attrs g gtkindex GTK RSC)" and "length (body (gtk_attrs g gtkindex GTK RSC)) \<le> 100"
proof -
  have p: "pad4 n < 4" for n by (simp add: pad4_def)
  show l: "length (body (gtk_attrs g gtkindex GTK RSC)) \<le> 100"
    using assms p[of "min (length GTK) (unat (kn_gtklen g))"] by (simp add: gtk_attrs_def enc_attr_length pad4_def)
  then show "attrs_ok (gtk_attrs g gtkindex GTK RSC)"
    using assms by (simp add: attrs_ok_def keys_ok_def) (simp add: gtk_attrs_def nl80211_keys enc_attr_length)
qed

text \<open>The transmit buffer of the supplicant, \<open>txbuf\<close>.\<close>

definition kn_ok :: "keynl \<Rightarrow> bool" where
  "kn_ok g \<longleftrightarrow> nc_end (kn_nc g) = 512 \<and> 512 \<le> length (nc_mem (kn_nc g)) \<and> length (kn_bssid g) = 6 \<and> unat (kn_gtklen g) \<le> 32"

text \<open>The messages sent, as a log.\<close>

definition log_sys :: "(int \<times> byte list) list nlsys" where
  "log_sys = \<lparr> sys_send = (\<lambda>fd bs w. (int (length bs), w @ [(fd, bs)])), sys_recv = (\<lambda>fd n w. (0, [], w)), sys_setsockopt = (\<lambda>fd l opt v w. (0, w)) \<rparr>"

text \<open>A key event of the negotiation, carried out; and what a message must carry for it.\<close>

fun key_upload :: "'w nlsys \<Rightarrow> ev \<Rightarrow> keynl \<Rightarrow> 'w \<Rightarrow> (int \<times> keynl \<times> 'w) option" where
  "key_upload sys (Ev_upload_ptk k) g w = nl_upload_ptk sys k g w"
| "key_upload sys (Ev_upload_gtk i k r) g w = nl_upload_gtk sys i k r g w"
| "key_upload sys _ g w = Some (0, g, w)"

fun key_attrs :: "keynl \<Rightarrow> ev \<Rightarrow> (int \<times> byte list) list" where
  "key_attrs g (Ev_upload_ptk k) = ptk_attrs g k"
| "key_attrs g (Ev_upload_gtk i k r) = gtk_attrs g i k r"
| "key_attrs g _ = []"

fun key_ev_ok :: "keynl \<Rightarrow> ev \<Rightarrow> bool" where
  "key_ev_ok g (Ev_upload_ptk k) \<longleftrightarrow> length k = 16"
| "key_ev_ok g (Ev_upload_gtk i k r) \<longleftrightarrow> length k = unat (kn_gtklen g) \<and> 6 \<le> length r"
| "key_ev_ok g _ \<longleftrightarrow> False"

definition key_msg :: "keynl \<Rightarrow> u32 \<Rightarrow> ev \<Rightarrow> byte list" where
  "key_msg g seq e = genl_msg (kn_nl80211 g) 0 (uint seq) NL80211_CMD_NEW_KEY 0 (body (key_attrs g e))"

lemma upload_step:
  assumes "nc_writer f b" and "kn_ok g" and "length b \<le> 100"
    and up: "up = do { nc \<leftarrow> nc_header (kn_nc g) (kn_nl80211 g) 0 (uint (kn_nlseq g)); nc \<leftarrow> nc_gencmd nc NL80211_CMD_NEW_KEY 0;
       nc \<leftarrow> f nc; (ret, nc, w) \<leftarrow> nc_send log_sys (kn_netlink g) nc w; Some (ret, g \<lparr> kn_nlseq := kn_nlseq g + 1, kn_nc := nc \<rparr>, w) }"
    and bs: "bs = genl_msg (kn_nl80211 g) 0 (uint (kn_nlseq g)) NL80211_CMD_NEW_KEY 0 b"
  shows "\<exists>nc. up = Some (int (length bs), g \<lparr> kn_nlseq := kn_nlseq g + 1, kn_nc := nc \<rparr>, w @ [(kn_netlink g, bs)]) \<and>
    kn_ok (g \<lparr> kn_nlseq := kn_nlseq g + 1, kn_nc := nc \<rparr>)"
proof -
  have r: "nc_end (kn_nc g) \<le> int (length (nc_mem (kn_nc g)))" "int (20 + length b) \<le> nc_end (kn_nc g)"
    using assms(2,3) by (auto simp: kn_ok_def)
  obtain nc' where n: "do { nc \<leftarrow> genl_start (kn_nl80211 g) 0 (uint (kn_nlseq g)) NL80211_CMD_NEW_KEY 0 (kn_nc g); nc \<leftarrow> f nc; nc_send log_sys (kn_netlink g) nc w } =
    (case sys_send log_sys (kn_netlink g) bs w of (ret, w) \<Rightarrow> Some (ret, nc', w))" "nc_end nc' = nc_end (kn_nc g)" "nc_end nc' \<le> int (length (nc_mem nc'))"
    unfolding bs by (rule request_sends[OF assms(1) r])
  have "up = do { nc \<leftarrow> genl_start (kn_nl80211 g) 0 (uint (kn_nlseq g)) NL80211_CMD_NEW_KEY 0 (kn_nc g); nc \<leftarrow> f nc; nc_send log_sys (kn_netlink g) nc w } \<bind>
    (\<lambda>(ret, nc, w). Some (ret, g \<lparr> kn_nlseq := kn_nlseq g + 1, kn_nc := nc \<rparr>, w))"
    unfolding up genl_start_def by (simp add: Option.bind_assoc)
  then have "up = Some (int (length bs), g \<lparr> kn_nlseq := kn_nlseq g + 1, kn_nc := nc' \<rparr>, w @ [(kn_netlink g, bs)])"
    unfolding n(1) by (simp add: log_sys_def)
  then show ?thesis using n(2,3) assms(2) by (auto simp: kn_ok_def)
qed

lemma key_upload_sends:
  assumes "kn_ok g" and "key_ev_ok g e"
  shows "\<exists>nc. key_upload log_sys e g w = Some (int (length (key_msg g (kn_nlseq g) e)), g \<lparr> kn_nlseq := kn_nlseq g + 1, kn_nc := nc \<rparr>,
      w @ [(kn_netlink g, key_msg g (kn_nlseq g) e)]) \<and> kn_ok (g \<lparr> kn_nlseq := kn_nlseq g + 1, kn_nc := nc \<rparr>)"
proof (cases e)
  case (Ev_upload_ptk k)
  let ?g = "g \<lparr> kn_nlseq := kn_nlseq g + 1 \<rparr>"
  have k: "16 \<le> length k" "6 \<le> length (kn_bssid ?g)" using assms Ev_upload_ptk by (auto simp: kn_ok_def)
  have same: "ptk_attrs ?g k = ptk_attrs g k" by (simp add: ptk_attrs_def)
  show ?thesis
    by (rule upload_step[OF put_ptk_writer[OF k] assms(1)])
      (use ptk_attrs_ok(2)[OF k] same in \<open>simp_all add: Ev_upload_ptk nl_upload_ptk_def Let_def key_msg_def\<close>)
next
  case (Ev_upload_gtk i k r)
  let ?g = "g \<lparr> kn_nlseq := kn_nlseq g + 1 \<rparr>"
  have k: "unat (kn_gtklen ?g) \<le> length k" "6 \<le> length r" "unat (kn_gtklen ?g) \<le> 32" using assms Ev_upload_gtk by (auto simp: kn_ok_def)
  have same: "gtk_attrs ?g i k r = gtk_attrs g i k r" by (simp add: gtk_attrs_def)
  show ?thesis
    by (rule upload_step[OF put_gtk_writer[OF k, of i] assms(1)])
      (use gtk_attrs_ok(2)[OF k(3,2), of i k] same in \<open>simp_all add: Ev_upload_gtk nl_upload_gtk_def Let_def key_msg_def\<close>)
qed (use assms(2) in simp_all)

fun key_uploads :: "'w nlsys \<Rightarrow> ev list \<Rightarrow> keynl \<Rightarrow> 'w \<Rightarrow> (keynl \<times> 'w) option" where
  "key_uploads sys [] g w = Some (g, w)"
| "key_uploads sys (e # es) g w = do { (ret, g, w) \<leftarrow> key_upload sys e g w; key_uploads sys es g w }"

fun key_msgs :: "keynl \<Rightarrow> u32 \<Rightarrow> ev list \<Rightarrow> byte list list" where
  "key_msgs g seq [] = []"
| "key_msgs g seq (e # es) = key_msg g seq e # key_msgs g (seq + 1) es"

lemma key_same:
  "key_attrs (g \<lparr> kn_nlseq := q, kn_nc := nc \<rparr>) e = key_attrs g e" "key_ev_ok (g \<lparr> kn_nlseq := q, kn_nc := nc \<rparr>) e = key_ev_ok g e"
  by (cases e; simp add: ptk_attrs_def gtk_attrs_def)+

lemma key_msgs_same: "key_msgs (g \<lparr> kn_nlseq := q, kn_nc := nc \<rparr>) seq es = key_msgs g seq es"
  by (induction es arbitrary: seq) (simp_all add: key_msg_def key_same)

lemma length_key_msgs [simp]: "length (key_msgs g seq es) = length es"
  by (induction es arbitrary: seq) simp_all

lemma key_uploads_send:
  "kn_ok g \<Longrightarrow> \<forall>e \<in> set es. key_ev_ok g e \<Longrightarrow>
   \<exists>g'. key_uploads log_sys es g w = Some (g', w @ map (Pair (kn_netlink g)) (key_msgs g (kn_nlseq g) es))"
proof (induction es arbitrary: g w)
  case (Cons e es)
  obtain nc where u: "key_upload log_sys e g w = Some (int (length (key_msg g (kn_nlseq g) e)), g \<lparr> kn_nlseq := kn_nlseq g + 1, kn_nc := nc \<rparr>,
      w @ [(kn_netlink g, key_msg g (kn_nlseq g) e)])" "kn_ok (g \<lparr> kn_nlseq := kn_nlseq g + 1, kn_nc := nc \<rparr>)"
    using key_upload_sends[OF Cons.prems(1)] Cons.prems(2) by fastforce
  show ?case using Cons.IH[OF u(2), of "w @ [(kn_netlink g, key_msg g (kn_nlseq g) e)]"] Cons.prems(2) u(1) by (auto simp: key_same key_msgs_same)
qed simp

lemma key_msgs_nth: "i < length es \<Longrightarrow> \<exists>q. key_msgs g seq es ! i = key_msg g q (es ! i)"
  by (induction es arbitrary: i seq) (auto simp: nth_Cons split: nat.split)

lemma key_attrs_ok: "kn_ok g \<Longrightarrow> key_ev_ok g e \<Longrightarrow> attrs_ok (key_attrs g e)"
  by (cases e) (auto simp: kn_ok_def intro!: ptk_attrs_ok(1) gtk_attrs_ok(1))

section \<open>Properties\<close>

text \<open>
  C22.  The keys of the negotiation reach the kernel: for any sequence of key installations that the key
  negotiation asks for, the supplicant sends one whole netlink message each, in order, in which the
  reader finds the index, cipher, sequence counter and exactly the bytes of the negotiated key.
\<close>

theorem keys_reach_kernel:
  assumes "kn_ok g" and "\<forall>e \<in> set es. key_ev_ok g e"
  shows "\<exists>g' msgs. key_uploads log_sys es g [] = Some (g', map (Pair (kn_netlink g)) msgs) \<and> length msgs = length es \<and>
    (\<forall>i < length es. whole_msg (msgs ! i) \<and> (\<forall>key pl. map_of (key_attrs g (es ! i)) key = Some pl \<longrightarrow>
      (\<exists>p. nl_get_of_len (msgs ! i) 0 key (length pl) = Some (Some p) \<and> rds (msgs ! i) p (length pl) = Some pl)))"
proof -
  let ?msgs = "key_msgs g (kn_nlseq g) es"
  obtain g' where g': "key_uploads log_sys es g [] = Some (g', map (Pair (kn_netlink g)) ?msgs)"
    using key_uploads_send[OF assms, of "[]"] by auto
  have "whole_msg (?msgs ! i) \<and> (\<forall>key pl. map_of (key_attrs g (es ! i)) key = Some pl \<longrightarrow>
      (\<exists>p. nl_get_of_len (?msgs ! i) 0 key (length pl) = Some (Some p) \<and> rds (?msgs ! i) p (length pl) = Some pl))" if "i < length es" for i
  proof -
    obtain q where q: "?msgs ! i = key_msg g q (es ! i)" using key_msgs_nth[OF \<open>i < length es\<close>] by blast
    have ok: "attrs_ok (key_attrs g (es ! i))" using key_attrs_ok[OF assms(1)] assms(2) that by simp
    have w: "whole_msg (?msgs ! i)" unfolding q key_msg_def by (rule genl_msg_whole) (use ok in \<open>simp add: attrs_ok_def\<close>)
    have m: "?msgs ! i = [] @ genl_msg (kn_nl80211 g) 0 (uint q) NL80211_CMD_NEW_KEY 0 (body (key_attrs g (es ! i))) @ []"
      unfolding q key_msg_def by simp
    have "\<exists>p. nl_get_of_len (?msgs ! i) 0 key (length pl) = Some (Some p) \<and> rds (?msgs ! i) p (length pl) = Some pl"
      if "map_of (key_attrs g (es ! i)) key = Some pl" for key pl
      by (rule nl_get_payload[OF m ok that]) auto
    then show ?thesis using w by blast
  qed
  then show ?thesis using g' by (intro exI[of _ g'] exI[of _ ?msgs]) simp
qed

definition demo_keynl :: keynl where
  "demo_keynl = \<lparr> kn_nc = nc_buf_set (replicate 512 0) 512, kn_nlseq = 5, kn_netlink = 4, kn_nl80211 = 28, kn_ifindex = 3,
     kn_bssid = [2, 0, 0, 0, 0, 1], kn_pairwise = 0x000FAC04, kn_group = 0x000FAC04, kn_gtklen = 16 \<rparr>"

theorem keys_reach_kernel_witness:
  "\<exists>g' m1 m2. key_uploads log_sys [Ev_upload_ptk (replicate 16 7), Ev_upload_gtk 1 (replicate 16 9) (replicate 6 0)] demo_keynl [] =
       Some (g', [(4, m1), (4, m2)]) \<and>
     (\<exists>p. nl_get_of_len m1 0 NL80211_ATTR_KEY_DATA 16 = Some (Some p) \<and> rds m1 p 16 = Some (replicate 16 7)) \<and>
     (\<exists>p. nl_get_of_len m2 0 NL80211_ATTR_KEY_DATA 16 = Some (Some p) \<and> rds m2 p 16 = Some (replicate 16 9))"
proof -
  let ?es = "[Ev_upload_ptk (replicate 16 7), Ev_upload_gtk 1 (replicate 16 9) (replicate 6 0)]"
  have "kn_ok demo_keynl" "\<forall>e \<in> set ?es. key_ev_ok demo_keynl e" by (simp_all add: kn_ok_def demo_keynl_def nc_buf_set_def)
  from keys_reach_kernel[OF this] obtain g' msgs where k: "key_uploads log_sys ?es demo_keynl [] = Some (g', map (Pair (kn_netlink demo_keynl)) msgs)"
    "length msgs = 2" and f: "\<And>i key pl. i < 2 \<Longrightarrow> map_of (key_attrs demo_keynl (?es ! i)) key = Some pl \<Longrightarrow>
      (\<exists>p. nl_get_of_len (msgs ! i) 0 key (length pl) = Some (Some p) \<and> rds (msgs ! i) p (length pl) = Some pl)"
    by auto
  obtain m1 m2 where m: "msgs = [m1, m2]" using k(2) by (auto simp: length_Suc_conv numeral_2_eq_2)
  have d: "map_of (key_attrs demo_keynl (?es ! 0)) NL80211_ATTR_KEY_DATA = Some (replicate 16 7)"
    "map_of (key_attrs demo_keynl (?es ! 1)) NL80211_ATTR_KEY_DATA = Some (replicate 16 9)"
    by (simp_all add: ptk_attrs_def gtk_attrs_def nl80211_keys demo_keynl_def)
  show ?thesis using k(1) m f[OF _ d(1)] f[OF _ d(2)] by (auto simp: demo_keynl_def)
qed

end
