(* ===== verification/Lzma.thy ===== *)
theory Lzma
  imports Prelude
begin

text \<open>
  The LZMA decoder (\<^verbatim>\<open>lib/lzma.c\<close>), which inflates compressed kernel modules: a range decoder with
  adaptive bit models, the trees of bits on top of it, and the loop that turns the decoded symbols into
  literals and back-references.

  A pointer is an address, with \<open>0\<close> for \<open>NULL\<close>; the input and the output are objects at the addresses
  \<open>in_base\<close> and \<open>out_base\<close>, and every access is checked against them.  The arrays of bit models in
  \<open>struct private\<close> are named by \<open>tab\<close>; one with two dimensions is stored row by row, and a pointer to a
  model is a name and an index.  A model index outside its array is \<open>None\<close>, as is a loop that does not
  end.
\<close>

section \<open>State\<close>

datatype lenmodel = Matchlen | Replen

datatype tab =
    Bit1 | Bit2 | Bit3 | Bit4 | Bit5 | Shrt | Literal | Dislot | Dispec | Align
  | Choice1 lenmodel | Choice2 lenmodel | Low lenmodel | Mid lenmodel | High lenmodel

record lzma =
  lz_srcbuf :: nat
  lz_srcptr :: nat
  lz_srchwm :: nat
  lz_srcend :: nat
  lz_dstbuf :: nat
  lz_dstptr :: nat
  lz_dsthwm :: nat
  lz_dstend :: nat

record lzprivate = lzma +
  pz_state :: int
  pz_pos_state :: int
  pz_error :: int
  pz_code :: u32
  pz_range :: u32
  pz_rep :: "u32 list"
  pz_probs :: "tab \<Rightarrow> u32 list"

record lzst = lzprivate +
  in_base :: nat
  in_mem :: mem
  out_base :: nat
  out_mem :: mem

type_synonym 'a lzop = "lzst \<Rightarrow> ('a \<times> lzst) option"

definition LZMA_STREAM_END :: int where "LZMA_STREAM_END = 1"
definition LZMA_NEED_INPUT :: int where "LZMA_NEED_INPUT = 2"
definition LZMA_NEED_OUTPUT :: int where "LZMA_NEED_OUTPUT = 3"
definition LZMA_OUTPUT_OVER :: int where "LZMA_OUTPUT_OVER = 4"
definition LZMA_INPUT_OVER :: int where "LZMA_INPUT_OVER = 5"
definition LZMA_INVALID_REF :: int where "LZMA_INVALID_REF = 6"
definition LZMA_RANGE_CHECK :: int where "LZMA_RANGE_CHECK = 7"

definition STATE_LIT_LIT :: int where "STATE_LIT_LIT = 0"
definition STATE_SHORTREP_LIT_LIT :: int where "STATE_SHORTREP_LIT_LIT = 3"
definition STATE_SHORTREP_LIT :: int where "STATE_SHORTREP_LIT = 6"
definition STATE_LIT_MATCH :: int where "STATE_LIT_MATCH = 7"
definition STATE_LIT_LONGREP :: int where "STATE_LIT_LONGREP = 8"
definition STATE_LIT_SHORTREP :: int where "STATE_LIT_SHORTREP = 9"
definition STATE_NONLIT_MATCH :: int where "STATE_NONLIT_MATCH = 10"
definition STATE_NONLIT_REP :: int where "STATE_NONLIT_REP = 11"
definition STATE_INVALID :: int where "STATE_INVALID = 13"
definition STATE_INITIAL :: int where "STATE_INITIAL = 14"

section \<open>Input and output\<close>

definition lz_error :: "int \<Rightarrow> lzst \<Rightarrow> lzst" where
  "lz_error err s = s \<lparr> pz_error := err \<rparr>"

definition byte_error :: "int \<Rightarrow> lzst \<Rightarrow> byte \<times> lzst" where
  "byte_error err s = (0, lz_error err s)"

definition state_error :: "int \<Rightarrow> lzst \<Rightarrow> int \<times> lzst" where
  "state_error err s = (STATE_INVALID, lz_error err s)"

definition put_byte :: "byte \<Rightarrow> lzst \<Rightarrow> lzst option" where
  "put_byte c s =
     (let ptr = lz_dstptr s; en = lz_dstend s
      in if ptr \<ge> en then Some (lz_error LZMA_OUTPUT_OVER s)
         else if ptr < out_base s then None
         else do {
           m \<leftarrow> wr (out_mem s) (ptr - out_base s) c;
           Some (s \<lparr> pz_pos_state := (pz_pos_state s + 1) AND 3, out_mem := m, lz_dstptr := ptr + 1 \<rparr>) })"

definition get_byte :: "byte lzop" where
  "get_byte s =
     (let ptr = lz_srcptr s; en = lz_srcend s
      in if ptr \<ge> en then Some (byte_error LZMA_INPUT_OVER s)
         else if ptr < in_base s then None
         else do {
           c \<leftarrow> rd (in_mem s) (ptr - in_base s);
           Some (c, s \<lparr> lz_srcptr := ptr + 1 \<rparr>) })"

definition peek_back :: "u32 \<Rightarrow> byte lzop" where
  "peek_back i s =
     (let buf = lz_dstbuf s; ptr = lz_dstptr s; at = int ptr - uint i - 1
      in if at < int buf \<or> at \<ge> int ptr then
           Some (0, if i \<noteq> 0 then snd (byte_error LZMA_INVALID_REF s) else s)
         else if at < int (out_base s) then None
         else do {
           c \<leftarrow> rd (out_mem s) (nat at - out_base s);
           Some (c, s) })"

section \<open>Initialisation\<close>

definition init_probs :: "nat \<Rightarrow> u32 list" where
  "init_probs n = replicate n (push_bit 10 1)"

definition init_lenmodel :: "lenmodel \<Rightarrow> (tab \<Rightarrow> u32 list) \<Rightarrow> tab \<Rightarrow> u32 list" where
  "init_lenmodel lm m = m(Choice1 lm := init_probs 1, Choice2 lm := init_probs 1,
     Low lm := init_probs (4 * 8), Mid lm := init_probs (4 * 8), High lm := init_probs 256)"

definition init_private :: "lzst \<Rightarrow> lzst" where
  "init_private s =
     (let m = (pz_probs s)(Bit1 := init_probs (12 * 4), Bit2 := init_probs 12, Bit3 := init_probs 12,
                Bit4 := init_probs 12, Bit5 := init_probs 12, Shrt := init_probs (12 * 4),
                Literal := init_probs (8 * 0x300), Dislot := init_probs (4 * 64),
                Dispec := init_probs 115, Align := init_probs 16)
      in s \<lparr> pz_error := 0, pz_state := STATE_INITIAL, pz_pos_state := 0, pz_rep := replicate 4 0,
           pz_probs := init_lenmodel Replen (init_lenmodel Matchlen m) \<rparr>)"

text \<open>
  \<open>lzma_create\<close> turns a buffer, whose previous contents are \<open>s\<close>, into a decoder; \<open>sizeof(lz)\<close> in the
  source is the size of a pointer, so that only the first field is cleared.
\<close>

definition private_size :: int where "private_size = 29376"

definition lzma_create :: "lzst \<Rightarrow> int \<Rightarrow> lzst option" where
  "lzma_create s len =
     (if len < private_size then None else Some (init_private (s \<lparr> lz_srcbuf := 0 \<rparr>)))"

definition check_buffers :: "lzst \<Rightarrow> lzst option" where
  "check_buffers s =
     (if lz_srcbuf s = 0 \<or> lz_srcptr s = 0 \<or> lz_srcend s = 0 then Some (lz_error LZMA_INPUT_OVER s)
      else if lz_dstbuf s = 0 \<or> lz_dstptr s = 0 \<or> lz_dstend s = 0 then Some (lz_error LZMA_OUTPUT_OVER s)
      else if pz_state s \<noteq> STATE_INITIAL then Some s
      else do {
        (b0, s) \<leftarrow> get_byte s;
        (b1, s) \<leftarrow> get_byte s;
        (b2, s) \<leftarrow> get_byte s;
        (b3, s) \<leftarrow> get_byte s;
        let code = fold (\<lambda>b code. push_bit 8 code OR ucast b) [b0, b1, b2, b3] 0;
        Some (s \<lparr> pz_code := code, pz_state := STATE_LIT_LIT, pz_range := 0xFFFFFFFF \<rparr>) })"

section \<open>Range decoder\<close>

definition normalize :: "lzst \<Rightarrow> lzst option" where
  "normalize s =
     (if pz_range s > 0x00FFFFFF then Some s
      else do {
        (c, s) \<leftarrow> get_byte (s \<lparr> pz_range := push_bit 8 (pz_range s) \<rparr>);
        Some (s \<lparr> pz_code := push_bit 8 (pz_code s) OR ucast c \<rparr>) })"

definition set_prob :: "tab \<Rightarrow> nat \<Rightarrow> u32 \<Rightarrow> lzst \<Rightarrow> lzst" where
  "set_prob t i p s = s \<lparr> pz_probs := (pz_probs s)(t := (pz_probs s t)[i := p]) \<rparr>"

definition dec_bit :: "tab \<Rightarrow> nat \<Rightarrow> u32 lzop" where
  "dec_bit t i s =
     (if i \<ge> length (pz_probs s t) then None
      else let probability = pz_probs s t ! i;
               bound = drop_bit 11 (pz_range s) * probability
           in if pz_code s < bound then do {
                s \<leftarrow> normalize (set_prob t i (probability + drop_bit 5 (push_bit 11 1 - probability))
                       (s \<lparr> pz_range := bound \<rparr>));
                Some (0, s) }
              else do {
                s \<leftarrow> normalize (set_prob t i (probability - drop_bit 5 probability)
                       (s \<lparr> pz_range := pz_range s - bound, pz_code := pz_code s - bound \<rparr>));
                Some (1, s) })"

fun dec_direct_loop :: "nat \<Rightarrow> u32 \<Rightarrow> u32 lzop" where
  "dec_direct_loop 0 ret s = Some (ret, s)"
| "dec_direct_loop (Suc i) ret s = do {
     let s = s \<lparr> pz_range := drop_bit 1 (pz_range s) \<rparr>;
     let ret = push_bit 1 ret;
     let (ret, s) = (if pz_code s \<ge> pz_range s
                     then (ret OR 1, s \<lparr> pz_code := pz_code s - pz_range s \<rparr>) else (ret, s));
     s \<leftarrow> normalize s;
     dec_direct_loop i ret s }"

definition dec_direct :: "nat \<Rightarrow> u32 lzop" where
  "dec_direct limit = dec_direct_loop limit 0"

text \<open>The result says whether the check failed.\<close>

definition range_check :: "nat \<Rightarrow> nat \<Rightarrow> lzst \<Rightarrow> bool \<times> lzst" where
  "range_check i n s = (if i < n then (False, s) else (True, lz_error LZMA_RANGE_CHECK s))"

text \<open>A tree of models at \<open>off\<close> in the table \<open>t\<close>; the inner \<open>None\<close> is the early return.\<close>

fun dec_tree_loop :: "tab \<Rightarrow> nat \<Rightarrow> nat \<Rightarrow> nat \<Rightarrow> u32 \<Rightarrow> u32 option lzop" where
  "dec_tree_loop t off bms 0 ret s = Some (Some ret, s)"
| "dec_tree_loop t off bms (Suc n) ret s =
     (case range_check (unat ret) bms s of (bad, s) \<Rightarrow>
        if bad then Some (None, s)
        else do {
          (b, s) \<leftarrow> dec_bit t (off + unat ret) s;
          dec_tree_loop t off bms n (push_bit 1 ret OR b) s })"

definition dec_tree :: "tab \<Rightarrow> nat \<Rightarrow> nat \<Rightarrow> nat \<Rightarrow> u32 lzop" where
  "dec_tree t off bms n s = do {
     (ret, s) \<leftarrow> dec_tree_loop t off bms n 1 s;
     Some (case ret of None \<Rightarrow> 0 | Some ret \<Rightarrow> ret - push_bit n 1, s) }"

fun rev_bits :: "nat \<Rightarrow> u32 \<Rightarrow> u32 \<Rightarrow> u32" where
  "rev_bits 0 sy ret = ret"
| "rev_bits (Suc n) sy ret = rev_bits n (drop_bit 1 sy) (push_bit 1 ret OR (sy AND 1))"

definition dec_rtree :: "tab \<Rightarrow> nat \<Rightarrow> nat \<Rightarrow> nat \<Rightarrow> u32 lzop" where
  "dec_rtree t off bms n s = do {
     (sy, s) \<leftarrow> dec_tree t off bms n s;
     Some (rev_bits n sy 0, s) }"

partial_function (option) dec_match_rest :: "tab \<Rightarrow> nat \<Rightarrow> nat \<Rightarrow> u32 \<Rightarrow> u32 lzop" where
  "dec_match_rest t off bms ret s =
     (if ret < 0x100 then
        (case range_check (unat ret) bms s of (bad, s) \<Rightarrow>
           if bad then Some (0, s)
           else do {
             (b, s) \<leftarrow> dec_bit t (off + unat ret) s;
             dec_match_rest t off bms (push_bit 1 ret OR b) s })
      else Some (ret, s))"

declare dec_match_rest.simps [code]

text \<open>The argument \<open>k + 1\<close> stands for \<open>i = 7 - k\<close>.\<close>

fun dec_match_loop :: "tab \<Rightarrow> nat \<Rightarrow> nat \<Rightarrow> u32 \<Rightarrow> nat \<Rightarrow> u32 \<Rightarrow> u32 lzop" where
  "dec_match_loop t off bms mbyte 0 ret s = Some (ret, s)"
| "dec_match_loop t off bms mbyte (Suc k) ret s = do {
     let matchbit = drop_bit k mbyte AND 1;
     let o1 = ret + push_bit 8 matchbit + 0x100;
     (case range_check (unat o1) bms s of (bad, s) \<Rightarrow>
        if bad then Some (0, s)
        else do {
          (b, s) \<leftarrow> dec_bit t (off + unat o1) s;
          let ret = push_bit 1 ret OR b;
          if matchbit = b then dec_match_loop t off bms mbyte k ret s
          else dec_match_rest t off bms ret s }) }"

definition dec_match :: "tab \<Rightarrow> nat \<Rightarrow> nat \<Rightarrow> u32 \<Rightarrow> u32 lzop" where
  "dec_match t off bms mbyte s = do {
     (ret, s) \<leftarrow> dec_match_loop t off bms mbyte 8 1 s;
     Some (ret AND 0xFF, s) }"

definition dec_length :: "lenmodel \<Rightarrow> nat \<Rightarrow> u32 lzop" where
  "dec_length lm pstate s = do {
     (b, s) \<leftarrow> dec_bit (Choice1 lm) 0 s;
     if b = 0 then dec_tree (Low lm) (8 * pstate) 8 3 s
     else do {
       (b, s) \<leftarrow> dec_bit (Choice2 lm) 0 s;
       if b = 0 then do {
         (n, s) \<leftarrow> dec_tree (Mid lm) (8 * pstate) 8 3 s;
         Some (push_bit 3 1 + n, s) }
       else do {
         (n, s) \<leftarrow> dec_tree (High lm) 0 256 8 s;
         Some (push_bit 3 1 + push_bit 3 1 + n, s) } } }"

section \<open>Symbols\<close>

definition is_lit :: "int \<Rightarrow> bool" where
  "is_lit state \<longleftrightarrow> state \<le> STATE_SHORTREP_LIT"

definition inflate_literal :: "int \<Rightarrow> int lzop" where
  "inflate_literal state s = do {
     (c0, s) \<leftarrow> peek_back 0 s;
     let lstate = unat (drop_bit 5 c0);
     (case range_check lstate 8 s of (bad, s) \<Rightarrow>
        if bad then Some (state, s)
        else do {
          (c, s) \<leftarrow> (if is_lit state then dec_tree Literal (0x300 * lstate) 0x300 8 s
                     else do {
                       (mb, s) \<leftarrow> peek_back (pz_rep s ! 0) s;
                       dec_match Literal (0x300 * lstate) 0x300 (ucast mb) s });
          s \<leftarrow> put_byte (ucast c) s;
          Some (if state \<le> STATE_SHORTREP_LIT_LIT then STATE_LIT_LIT
                else if state \<le> STATE_LIT_SHORTREP then state - 3
                else state - 6, s) }) }"

fun repeat_loop :: "u32 \<Rightarrow> nat \<Rightarrow> lzst \<Rightarrow> lzst option" where
  "repeat_loop rep 0 s = Some s"
| "repeat_loop rep (Suc n) s = do {
     (c, s) \<leftarrow> peek_back rep s;
     s \<leftarrow> put_byte c s;
     repeat_loop rep n s }"

definition repeat_from_dict :: "int \<Rightarrow> u32 \<Rightarrow> u32 \<Rightarrow> int lzop" where
  "repeat_from_dict state rep n s = do { s \<leftarrow> repeat_loop rep (unat n) s; Some (state, s) }"

text \<open>
  The part of \<open>inflate_match\<close> that reads the distance, from a slot of at least \<open>DIST_MODEL_START\<close>.  An
  \<open>Inl\<close> is the state the function returns early with.
\<close>

definition dec_distance :: "u32 \<Rightarrow> u32 \<Rightarrow> (int + u32) lzop" where
  "dec_distance len dislot s = do {
     let limit = unat (drop_bit 1 dislot) - 1;
     let rep = push_bit limit (2 + (dislot AND 1));
     if dislot < 14 then do {
       let off = rep - dislot;
       let bms = 115 - off;
       (case range_check (unat off) 115 s of (bad, s) \<Rightarrow>
          if bad then (case state_error LZMA_RANGE_CHECK s of (st, s) \<Rightarrow> Some (Inl st, s))
          else do {
            (tree, s) \<leftarrow> dec_rtree Dispec (unat off) (unat bms) limit s;
            Some (Inr (rep + tree), s) }) }
     else do {
       (dbits, s) \<leftarrow> dec_direct (limit - 4) s;
       (rtree, s) \<leftarrow> dec_rtree Align 0 16 4 s;
       let dbits = push_bit 4 dbits;
       let rep = rep OR dbits OR rtree;
       if rep = 0xFFFFFFFF then
         (case state_error (if len \<noteq> 2 then LZMA_RANGE_CHECK else LZMA_STREAM_END) s of (st, s) \<Rightarrow>
            Some (Inl st, s))
       else Some (Inr rep, s) } }"

definition inflate_match :: "int \<Rightarrow> nat \<Rightarrow> int lzop" where
  "inflate_match state pstate s = do {
     let r = pz_rep s;
     let s = s \<lparr> pz_rep := [r ! 0, r ! 0, r ! 1, r ! 2] \<rparr>;
     (n, s) \<leftarrow> dec_length Matchlen pstate s;
     let len = 2 + n;
     let dstate = (if len - 2 < 4 - 1 then unat (len - 2) else 4 - 1);
     (dislot, s) \<leftarrow> dec_tree Dislot (64 * dstate) 64 6 s;
     (rep, s) \<leftarrow> (if dislot < 4 then Some (Inr dislot, s) else dec_distance len dislot s);
     (case rep of
        Inl st \<Rightarrow> Some (st, s)
      | Inr rep \<Rightarrow>
          let s = s \<lparr> pz_rep := (pz_rep s)[0 := rep] \<rparr>;
              state = (if is_lit state then STATE_LIT_MATCH else STATE_NONLIT_MATCH)
          in repeat_from_dict state rep len s) }"

definition inflate_shortrep :: "int \<Rightarrow> int lzop" where
  "inflate_shortrep state s =
     (let state = (if is_lit state then STATE_LIT_SHORTREP else STATE_NONLIT_REP)
      in repeat_from_dict state (pz_rep s ! 0) 1 s)"

definition inflate_longrep :: "int \<Rightarrow> nat \<Rightarrow> nat \<Rightarrow> int lzop" where
  "inflate_longrep state pstate n s = do {
     let rep = pz_rep s ! n;
     let r = pz_rep s;
     let r = (if n > 2 then r[3 := r ! 2] else r);
     let r = (if n > 1 then r[2 := r ! 1] else r);
     let r = (if n > 0 then r[1 := r ! 0] else r);
     let s = s \<lparr> pz_rep := r[0 := rep] \<rparr>;
     (k, s) \<leftarrow> dec_length Replen pstate s;
     let len = 2 + k;
     let state = (if is_lit state then STATE_LIT_LONGREP else STATE_NONLIT_REP);
     repeat_from_dict state rep len s }"

section \<open>The decoder\<close>

text \<open>One round of the loop of \<open>lzma_inflate\<close>, for a state \<open>st\<close> and position \<open>p\<close> in range.\<close>

definition inflate_symbol :: "nat \<Rightarrow> nat \<Rightarrow> int lzop" where
  "inflate_symbol st p s = do {
     (b, s) \<leftarrow> dec_bit Bit1 (4 * st + p) s;
     if b = 0 then inflate_literal (int st) s
     else do {
       (b, s) \<leftarrow> dec_bit Bit2 st s;
       if b = 0 then inflate_match (int st) p s
       else do {
         (b, s) \<leftarrow> dec_bit Bit3 st s;
         if b = 0 then do {
           (b, s) \<leftarrow> dec_bit Shrt (4 * st + p) s;
           if b = 0 then inflate_shortrep (int st) s else inflate_longrep (int st) p 0 s }
         else do {
           (b, s) \<leftarrow> dec_bit Bit4 st s;
           if b = 0 then inflate_longrep (int st) p 1 s
           else do {
             (b, s) \<leftarrow> dec_bit Bit5 st s;
             if b = 0 then inflate_longrep (int st) p 2 s else inflate_longrep (int st) p 3 s } } } } }"

text \<open>The conversion of an \<open>int\<close> argument to \<open>uint\<close>.\<close>

definition to_uint :: "int \<Rightarrow> nat" where
  "to_uint x = nat (x mod 2 ^ 32)"

partial_function (option) inflate_loop :: "int lzop" where
  "inflate_loop s =
     (if pz_error s \<noteq> 0 then Some (pz_error s, s)
      else (case range_check (to_uint (pz_state s)) 12 s of (bad, s1) \<Rightarrow>
        if bad then inflate_loop s1
        else (case range_check (to_uint (pz_pos_state s)) 4 s of (bad, s2) \<Rightarrow>
          if bad then inflate_loop s2
          else do {
            (st, s) \<leftarrow> inflate_symbol (to_uint (pz_state s)) (to_uint (pz_pos_state s)) s;
            let s = s \<lparr> pz_state := st \<rparr>;
            if lz_srcptr s > lz_srchwm s then Some (LZMA_NEED_INPUT, s)
            else if lz_dstptr s > lz_dsthwm s then Some (LZMA_NEED_OUTPUT, s)
            else inflate_loop s })))"

declare inflate_loop.simps [code]

definition lzma_inflate :: "int lzop" where
  "lzma_inflate s = do { s \<leftarrow> check_buffers s; inflate_loop s }"

end
