(* ===== verification/Lzma_Safe.thy ===== *)
theory Lzma_Safe
  imports Lzma
begin

text \<open>
  Safety of the LZMA decoder: on any input it stays inside its tables and the caller's buffers, reads
  and writes a bounded amount per symbol, and ends.
\<close>

section \<open>Well-formed decoders\<close>

fun tab_size :: "tab \<Rightarrow> nat" where
  "tab_size Bit1 = 48" | "tab_size Bit2 = 12" | "tab_size Bit3 = 12" | "tab_size Bit4 = 12"
| "tab_size Bit5 = 12" | "tab_size Shrt = 48" | "tab_size Literal = 6144" | "tab_size Dislot = 256"
| "tab_size Dispec = 115" | "tab_size Align = 16" | "tab_size (Choice1 lm) = 1" | "tab_size (Choice2 lm) = 1"
| "tab_size (Low lm) = 32" | "tab_size (Mid lm) = 32" | "tab_size (High lm) = 256"

text \<open>What the caller owes: pointers in order and inside the two objects.\<close>

definition lz_wf :: "lzst \<Rightarrow> bool" where
  "lz_wf s \<longleftrightarrow> (\<forall>t. length (pz_probs s t) = tab_size t) \<and> length (pz_rep s) = 4 \<and>
     pz_pos_state s \<in> {0..3} \<and>
     in_base s \<le> lz_srcptr s \<and> lz_srcend s \<le> in_base s + length (in_mem s) \<and>
     out_base s \<le> lz_dstbuf s \<and> lz_dstbuf s \<le> lz_dstptr s \<and>
     lz_dstptr s \<le> out_base s + length (out_mem s) \<and> lz_dstend s \<le> out_base s + length (out_mem s)"

text \<open>The pointers and the input that the decoder leaves alone.\<close>

definition same_setup :: "lzst \<Rightarrow> lzst \<Rightarrow> bool" where
  "same_setup s s' \<longleftrightarrow> lz_srcbuf s' = lz_srcbuf s \<and> lz_srchwm s' = lz_srchwm s \<and> lz_srcend s' = lz_srcend s \<and>
     lz_dstbuf s' = lz_dstbuf s \<and> lz_dsthwm s' = lz_dsthwm s \<and> lz_dstend s' = lz_dstend s \<and>
     in_base s' = in_base s \<and> in_mem s' = in_mem s \<and> out_base s' = out_base s \<and> length (out_mem s') = length (out_mem s)"

definition err_step :: "lzst \<Rightarrow> lzst \<Rightarrow> bool" where
  "err_step s s' \<longleftrightarrow> pz_error s' = pz_error s \<or> pz_error s' \<in> {1, 6, 7} \<or>
     pz_error s' = 4 \<and> lz_dstend s \<le> lz_dstptr s' \<or> pz_error s' = 5 \<and> lz_srcend s \<le> lz_srcptr s'"

text \<open>A step that reads at most \<open>i\<close> bytes and writes at most \<open>n\<close>, all of them at the output pointer.\<close>

definition adv :: "nat \<Rightarrow> nat \<Rightarrow> lzst \<Rightarrow> lzst \<Rightarrow> bool" where
  "adv i n s s' \<longleftrightarrow> lz_wf s' \<and> same_setup s s' \<and> err_step s s' \<and>
     lz_srcptr s \<le> lz_srcptr s' \<and> lz_srcptr s' \<le> lz_srcptr s + i \<and>
     lz_dstptr s \<le> lz_dstptr s' \<and> lz_dstptr s' \<le> lz_dstptr s + n \<and>
     lz_srcptr s' \<le> max (lz_srcptr s) (lz_srcend s) \<and> lz_dstptr s' \<le> max (lz_dstptr s) (lz_dstend s) \<and>
     (\<forall>a. a < lz_dstptr s - out_base s \<or> lz_dstptr s' - out_base s \<le> a \<longrightarrow> out_mem s' ! a = out_mem s ! a)"

lemma adv_refl: "lz_wf s \<Longrightarrow> adv 0 0 s s"
  by (simp add: adv_def same_setup_def err_step_def)

lemma err_step_trans:
  "err_step s t \<Longrightarrow> err_step t u \<Longrightarrow> same_setup s t \<Longrightarrow> lz_srcptr t \<le> lz_srcptr u \<Longrightarrow> lz_dstptr t \<le> lz_dstptr u \<Longrightarrow> err_step s u"
  unfolding err_step_def same_setup_def by (elim disjE conjE; simp)

lemma adv_trans:
  assumes "adv i n s t" and "adv j k t u"
  shows "adv (i + j) (n + k) s u"
proof -
  have "err_step s u" using assms err_step_trans[of s t u] by (simp add: adv_def)
  moreover have "same_setup s u" using assms by (simp add: adv_def same_setup_def)
  moreover have "lz_srcptr u \<le> max (lz_srcptr s) (lz_srcend s)" "lz_dstptr u \<le> max (lz_dstptr s) (lz_dstend s)"
    using assms by (auto simp: adv_def same_setup_def)
  moreover have "out_mem u ! a = out_mem s ! a" if "a < lz_dstptr s - out_base s \<or> lz_dstptr u - out_base s \<le> a" for a
  proof -
    have b: "out_base t = out_base s" "lz_dstptr s \<le> lz_dstptr t" "lz_dstptr t \<le> lz_dstptr u"
      using assms by (auto simp: adv_def same_setup_def)
    then have "a < lz_dstptr t - out_base t \<or> lz_dstptr u - out_base t \<le> a" "a < lz_dstptr s - out_base s \<or> lz_dstptr t - out_base s \<le> a"
      using that by linarith+
    then show ?thesis using assms unfolding adv_def by metis
  qed
  ultimately show ?thesis using assms unfolding adv_def by auto
qed

lemma adv_mono: "adv i n s t \<Longrightarrow> i \<le> j \<Longrightarrow> n \<le> k \<Longrightarrow> adv j k s t"
  by (auto simp: adv_def)

lemma adv_wf: "adv i n s t \<Longrightarrow> lz_wf t"
  by (simp add: adv_def)

lemma adv_sticky: "adv i n s t \<Longrightarrow> pz_error s \<noteq> 0 \<Longrightarrow> pz_error t \<noteq> 0"
  by (auto simp: adv_def err_step_def)

text \<open>Updates of the decoder's own fields.\<close>

lemma adv_fields [simp]:
  "lz_wf s \<Longrightarrow> adv 0 0 s (s \<lparr> pz_range := r \<rparr>)"
  "lz_wf s \<Longrightarrow> adv 0 0 s (s \<lparr> pz_code := c \<rparr>)"
  "lz_wf s \<Longrightarrow> adv 0 0 s (s \<lparr> pz_range := r, pz_code := c \<rparr>)"
  "lz_wf s \<Longrightarrow> adv 0 0 s (s \<lparr> pz_state := st \<rparr>)"
  "lz_wf s \<Longrightarrow> length rep = 4 \<Longrightarrow> adv 0 0 s (s \<lparr> pz_rep := rep \<rparr>)"
  "lz_wf s \<Longrightarrow> adv 0 0 s (set_prob t i p s)"
  by (auto simp: adv_def lz_wf_def same_setup_def err_step_def set_prob_def)

lemma adv_error: "lz_wf s \<Longrightarrow> e \<in> {1, 6, 7} \<Longrightarrow> adv 0 0 s (lz_error e s)"
  by (auto simp: adv_def lz_wf_def same_setup_def err_step_def lz_error_def)

section \<open>Input and output\<close>

lemma get_byte_adv:
  assumes "lz_wf s"
  shows "\<exists>c s'. get_byte s = Some (c, s') \<and> adv 1 0 s s'"
proof (cases "lz_srcptr s \<ge> lz_srcend s")
  case True
  then have "get_byte s = Some (0, lz_error LZMA_INPUT_OVER s)" by (simp add: get_byte_def byte_error_def)
  moreover have "adv 1 0 s (lz_error LZMA_INPUT_OVER s)"
    using assms True by (simp add: lz_error_def adv_def lz_wf_def same_setup_def err_step_def LZMA_INPUT_OVER_def)
  ultimately show ?thesis by blast
next
  case False
  then have "lz_srcptr s - in_base s < length (in_mem s)" "\<not> lz_srcptr s < in_base s"
    using assms by (auto simp: lz_wf_def)
  then have "get_byte s = Some (in_mem s ! (lz_srcptr s - in_base s), s \<lparr> lz_srcptr := lz_srcptr s + 1 \<rparr>)"
    using False by (simp add: get_byte_def rd_def Let_def)
  moreover have "adv 1 0 s (s \<lparr> lz_srcptr := lz_srcptr s + 1 \<rparr>)"
    using assms False by (simp add: adv_def lz_wf_def same_setup_def err_step_def)
  ultimately show ?thesis by blast
qed

lemma and_3_range: "x AND 3 \<in> {0..3 :: int}"
  using take_bit_int_less_exp[of 2 x] take_bit_nonnegative[of 2 x]
  by (simp add: take_bit_eq_mask mask_eq_exp_minus_1)

lemma put_byte_adv:
  assumes "lz_wf s"
  shows "\<exists>s'. put_byte c s = Some s' \<and> adv 0 1 s s' \<and> (pz_error s' \<noteq> 0 \<or> lz_dstptr s' = lz_dstptr s + 1)"
proof (cases "lz_dstptr s \<ge> lz_dstend s")
  case True
  then have "put_byte c s = Some (lz_error LZMA_OUTPUT_OVER s)" by (simp add: put_byte_def)
  moreover have "adv 0 1 s (lz_error LZMA_OUTPUT_OVER s)" "pz_error (lz_error LZMA_OUTPUT_OVER s) \<noteq> 0"
    using assms True by (simp_all add: lz_error_def adv_def lz_wf_def same_setup_def err_step_def LZMA_OUTPUT_OVER_def)
  ultimately show ?thesis by blast
next
  case False
  let ?p = "lz_dstptr s - out_base s"
  let ?s = "s \<lparr> pz_pos_state := (pz_pos_state s + 1) AND 3, out_mem := (out_mem s)[?p := c], lz_dstptr := lz_dstptr s + 1 \<rparr>"
  have p: "?p < length (out_mem s)" "\<not> lz_dstptr s < out_base s"
    using False assms by (auto simp: lz_wf_def)
  then have "put_byte c s = Some ?s" using False by (simp add: put_byte_def Let_def wr_def)
  moreover have "Suc (lz_dstptr s) - out_base s = Suc ?p" using p(2) by simp
  then have "adv 0 1 s ?s"
    using assms p False and_3_range[of "pz_pos_state s + 1"] by (auto simp: adv_def lz_wf_def same_setup_def err_step_def)
  ultimately show ?thesis by auto
qed

lemma peek_back_adv:
  assumes "lz_wf s"
  shows "\<exists>c s'. peek_back i s = Some (c, s') \<and> adv 0 0 s s' \<and> lz_dstptr s' = lz_dstptr s \<and> pz_rep s' = pz_rep s"
proof (cases "int (lz_dstptr s) - uint i - 1 < int (lz_dstbuf s)")
  case True
  then show ?thesis using assms adv_refl adv_error[of s 6]
    by (auto simp: peek_back_def Let_def byte_error_def LZMA_INVALID_REF_def lz_error_def)
next
  case False
  let ?a = "int (lz_dstptr s) - uint i - 1"
  have u: "0 \<le> uint i" by simp
  have "\<not> ?a \<ge> int (lz_dstptr s)" "\<not> ?a < int (out_base s)" "nat ?a - out_base s < length (out_mem s)"
    using False u assms unfolding lz_wf_def by linarith+
  then show ?thesis using False assms adv_refl by (simp add: peek_back_def Let_def rd_def)
qed

section \<open>Decoding bits\<close>

lemma normalize_adv:
  assumes "lz_wf s"
  shows "\<exists>s'. normalize s = Some s' \<and> adv 1 0 s s'"
proof (cases "pz_range s > 0x00FFFFFF")
  case True
  then show ?thesis using adv_mono[OF adv_refl[OF assms], of 1 0] by (simp add: normalize_def)
next
  case False
  let ?s = "s \<lparr> pz_range := push_bit 8 (pz_range s) \<rparr>"
  have a: "adv 0 0 s ?s" using assms by simp
  obtain c t where t: "get_byte ?s = Some (c, t)" "adv 1 0 ?s t" using get_byte_adv[OF adv_wf[OF a]] by blast
  let ?t = "t \<lparr> pz_code := push_bit 8 (pz_code t) OR ucast c \<rparr>"
  have "adv 1 0 s ?t" using adv_trans[OF adv_trans[OF a t(2)], of 0 0 ?t] adv_wf[OF t(2)] by simp
  then show ?thesis using False t(1) by (simp add: normalize_def)
qed

lemma dec_bit_adv:
  assumes "lz_wf s" and "i < tab_size t"
  shows "\<exists>b s'. dec_bit t i s = Some (b, s') \<and> (b = 0 \<or> b = 1) \<and> adv 1 0 s s'"
proof -
  have i: "\<not> length (pz_probs s t) \<le> i" using assms by (simp add: lz_wf_def)
  have n: "\<exists>s'. normalize (set_prob t i p u) = Some s' \<and> adv 1 0 s s'" if "adv 0 0 s u" for p u
  proof -
    have "adv 0 0 s (set_prob t i p u)" using adv_trans[OF that, of 0 0] adv_wf[OF that] by simp
    from normalize_adv[OF adv_wf[OF this]] adv_trans[OF this] show ?thesis by fastforce
  qed
  have u: "adv 0 0 s (s \<lparr> pz_range := r \<rparr>)" "adv 0 0 s (s \<lparr> pz_range := r, pz_code := c \<rparr>)" for r c
    using assms(1) by simp_all
  show ?thesis
  proof (cases "pz_code s < drop_bit 11 (pz_range s) * (pz_probs s t ! i)")
    case True
    let ?p = "pz_probs s t ! i"
    obtain s' where "normalize (set_prob t i (?p + drop_bit 5 (push_bit 11 1 - ?p)) (s \<lparr> pz_range := drop_bit 11 (pz_range s) * ?p \<rparr>)) = Some s'"
      "adv 1 0 s s'" using n[OF u(1)] by blast
    then show ?thesis using i True by (simp add: dec_bit_def Let_def)
  next
    case False
    let ?p = "pz_probs s t ! i" and ?b = "drop_bit 11 (pz_range s) * (pz_probs s t ! i)"
    obtain s' where "normalize (set_prob t i (?p - drop_bit 5 ?p) (s \<lparr> pz_range := pz_range s - ?b, pz_code := pz_code s - ?b \<rparr>)) = Some s'"
      "adv 1 0 s s'" using n[OF u(2)] by blast
    then show ?thesis using i False by (simp add: dec_bit_def Let_def)
  qed
qed

lemma dec_direct_loop_adv: "lz_wf s \<Longrightarrow> \<exists>r s'. dec_direct_loop n ret s = Some (r, s') \<and> adv n 0 s s'"
proof (induction n arbitrary: ret s)
  case 0
  then show ?case by (simp add: adv_refl)
next
  case (Suc n)
  let ?s = "s \<lparr> pz_range := drop_bit 1 (pz_range s) \<rparr>"
  define s1 where "s1 = (if pz_code ?s \<ge> pz_range ?s then ?s \<lparr> pz_code := pz_code ?s - pz_range ?s \<rparr> else ?s)"
  define ret1 where "ret1 = (if pz_code ?s \<ge> pz_range ?s then push_bit 1 ret OR 1 else push_bit 1 ret)"
  have a: "adv 0 0 s s1" using Suc.prems by (auto simp: s1_def)
  obtain t where t: "normalize s1 = Some t" "adv 1 0 s1 t" using normalize_adv[OF adv_wf[OF a]] by blast
  obtain r u where u: "dec_direct_loop n ret1 t = Some (r, u)" "adv n 0 t u" using Suc.IH[OF adv_wf[OF t(2)]] by blast
  have "adv (Suc n) 0 s u" using adv_trans[OF adv_trans[OF a t(2)] u(2)] by simp
  moreover have "dec_direct_loop (Suc n) ret s = Some (r, u)"
    using t(1) u(1) by (auto simp: s1_def ret1_def Let_def split: if_splits)
  ultimately show ?case by blast
qed

text \<open>Appending a decoded bit to a tree index.\<close>

lemma unat_next_bit:
  assumes "unat ret < 2 ^ 31" and "b = 0 \<or> b = (1 :: u32)"
  shows "unat (push_bit 1 ret OR b) = 2 * unat ret + unat b"
proof -
  have "push_bit 1 ret OR b = push_bit 1 ret + b"
    using assms(2) by (auto simp: or_one_eq)
  moreover have "unat (push_bit 1 ret) = 2 * unat ret"
    using assms(1) by (simp add: push_bit_eq_mult unat_word_ariths)
  ultimately show ?thesis using assms by (auto simp: unat_word_ariths)
qed

lemma dec_tree_loop_adv:
  "lz_wf s \<Longrightarrow> off + bms \<le> tab_size t \<Longrightarrow> 2 ^ k \<le> unat ret \<Longrightarrow> unat ret < 2 ^ Suc k \<Longrightarrow> 2 ^ (k + n) \<le> bms \<Longrightarrow> k + n < 31 \<Longrightarrow>
   \<exists>r s'. dec_tree_loop t off bms n ret s = Some (Some r, s') \<and> 2 ^ (k + n) \<le> unat r \<and> unat r < 2 ^ Suc (k + n) \<and> adv n 0 s s'"
proof (induction n arbitrary: ret s k)
  case 0
  then show ?case by (simp add: adv_refl)
next
  case (Suc n)
  have "(2 :: nat) ^ Suc k \<le> 2 ^ (k + Suc n)" by (rule power_increasing) auto
  then have lt: "unat ret < bms" using Suc.prems(4,5) by linarith
  have "(2 :: nat) ^ Suc k \<le> 2 ^ 31" using Suc.prems(6) by (intro power_increasing) auto
  then have r31: "unat ret < 2 ^ 31" using Suc.prems(4) by linarith
  obtain b t' where b: "dec_bit t (off + unat ret) s = Some (b, t')" "b = 0 \<or> b = 1" "adv 1 0 s t'"
    using dec_bit_adv[OF Suc.prems(1), of "off + unat ret" t] lt Suc.prems(2) by fastforce
  let ?r = "push_bit 1 ret OR b"
  have u: "unat ?r = 2 * unat ret + unat b" by (rule unat_next_bit[OF r31 b(2)])
  have "2 ^ Suc k \<le> unat ?r" "unat ?r < 2 ^ Suc (Suc k)" "2 ^ (Suc k + n) \<le> bms" "Suc k + n < 31"
    using Suc.prems(3-6) b(2) u by auto
  from Suc.IH[OF adv_wf[OF b(3)] Suc.prems(2) this] obtain r s' where
    r: "dec_tree_loop t off bms n ?r t' = Some (Some r, s')" "2 ^ (Suc k + n) \<le> unat r" "unat r < 2 ^ Suc (Suc k + n)" "adv n 0 t' s'"
    by blast
  have "adv (Suc n) 0 s s'" using adv_trans[OF b(3) r(4)] by simp
  then show ?case using lt b(1) r by (simp add: range_check_def)
qed

lemma unat_push_one: "n < 32 \<Longrightarrow> unat (push_bit n (1 :: u32)) = 2 ^ n"
  by (simp only: unsigned_push_bit_eq) (simp add: push_bit_eq_mult take_bit_nat_eq_self power_strict_increasing)

lemma dec_tree_adv:
  assumes "lz_wf s" and "off + bms \<le> tab_size t" and "2 ^ n \<le> bms" and "n < 31"
  shows "\<exists>r s'. dec_tree t off bms n s = Some (r, s') \<and> unat r < 2 ^ n \<and> adv n 0 s s'"
proof -
  obtain r s' where r: "dec_tree_loop t off bms n 1 s = Some (Some r, s')" "2 ^ n \<le> unat r" "unat r < 2 ^ Suc n" "adv n 0 s s'"
    using dec_tree_loop_adv[OF assms(1,2), of 0 1 n] assms(3,4) by auto
  have p: "unat (push_bit n (1 :: u32)) = 2 ^ n" by (rule unat_push_one) (use assms(4) in simp)
  then have "push_bit n 1 \<le> r" using r(2) by (simp add: word_le_nat_alt)
  then have "unat (r - push_bit n 1) = unat r - 2 ^ n" using p by (simp add: unat_sub)
  then show ?thesis using r by (auto simp: dec_tree_def)
qed

lemma dec_rtree_adv:
  assumes "lz_wf s" and "off + bms \<le> tab_size t" and "2 ^ n \<le> bms" and "n < 31"
  shows "\<exists>r s'. dec_rtree t off bms n s = Some (r, s') \<and> adv n 0 s s'"
  using dec_tree_adv[OF assms] by (auto simp: dec_rtree_def)

section \<open>Matched literals and lengths\<close>

lemma dec_match_rest_adv:
  "lz_wf s \<Longrightarrow> off + 768 \<le> tab_size t \<Longrightarrow> 2 ^ j \<le> unat ret \<Longrightarrow> unat ret < 2 ^ Suc j \<Longrightarrow> j + n = 8 \<Longrightarrow>
   \<exists>r s'. dec_match_rest t off 768 ret s = Some (r, s') \<and> adv n 0 s s'"
proof (induction n arbitrary: ret s j)
  case 0
  then have "\<not> ret < 0x100" by (simp add: word_less_nat_alt)
  then show ?case using 0 by (subst dec_match_rest.simps) (simp add: adv_refl)
next
  case (Suc n)
  have "(2 :: nat) ^ Suc j \<le> 2 ^ 8" using Suc.prems(5) by (intro power_increasing) auto
  then have l: "unat ret < 256" using Suc.prems(4) by simp
  then have lt: "ret < 0x100" by (simp add: word_less_nat_alt)
  obtain b t' where b: "dec_bit t (off + unat ret) s = Some (b, t')" "b = 0 \<or> b = 1" "adv 1 0 s t'"
    using dec_bit_adv[OF Suc.prems(1), of "off + unat ret" t] l Suc.prems(2) by fastforce
  let ?r = "push_bit 1 ret OR b"
  have u: "unat ?r = 2 * unat ret + unat b" using unat_next_bit[OF _ b(2)] l by simp
  have "2 ^ Suc j \<le> unat ?r" "unat ?r < 2 ^ Suc (Suc j)" "Suc j + n = 8"
    using Suc.prems(3-5) b(2) u by auto
  from Suc.IH[OF adv_wf[OF b(3)] Suc.prems(2) this] obtain r s' where
    r: "dec_match_rest t off 768 ?r t' = Some (r, s')" "adv n 0 t' s'" by blast
  have "adv (Suc n) 0 s s'" using adv_trans[OF b(3) r(2)] by simp
  then show ?case using lt l b(1) r(1) by (subst dec_match_rest.simps) (simp add: range_check_def)
qed

lemma and_one_cases: "(x :: 'a::len word) AND 1 = 0 \<or> x AND 1 = 1"
  by (simp add: and_one_eq mod_2_eq_odd)

lemma unat_match_index:
  assumes "unat ret < 256" and "m = 0 \<or> m = (1 :: u32)"
  shows "unat (ret + push_bit 8 m + 0x100) = unat ret + 256 * unat m + 256"
  using assms by (auto simp: unat_word_ariths)

lemma dec_match_loop_adv:
  "lz_wf s \<Longrightarrow> off + 768 \<le> tab_size t \<Longrightarrow> 2 ^ j \<le> unat ret \<Longrightarrow> unat ret < 2 ^ Suc j \<Longrightarrow> j + n = 8 \<Longrightarrow>
   \<exists>r s'. dec_match_loop t off 768 mbyte n ret s = Some (r, s') \<and> adv n 0 s s'"
proof (induction n arbitrary: ret s j)
  case 0
  then show ?case by (simp add: adv_refl)
next
  case (Suc n)
  let ?m = "drop_bit n mbyte AND 1"
  let ?o = "ret + push_bit 8 ?m + 0x100"
  have "(2 :: nat) ^ Suc j \<le> 2 ^ 8" using Suc.prems(5) by (intro power_increasing) auto
  then have l: "unat ret < 256" using Suc.prems(4) by simp
  have o: "unat ?o < 768" using unat_match_index[OF l, of ?m] and_one_cases[of "drop_bit n mbyte"] l by auto
  obtain b t' where b: "dec_bit t (off + unat ?o) s = Some (b, t')" "b = 0 \<or> b = 1" "adv 1 0 s t'"
    using dec_bit_adv[OF Suc.prems(1), of "off + unat ?o" t] o Suc.prems(2) by fastforce
  define R where "R = push_bit 1 ret OR b"
  have u: "unat R = 2 * unat ret + unat b" using unat_next_bit[OF _ b(2), of ret] l by (simp add: R_def)
  have j: "2 ^ Suc j \<le> unat R" "unat R < 2 ^ Suc (Suc j)" "Suc j + n = 8"
    using Suc.prems(3-5) b(2) u by auto
  obtain r s' where r: "(if ?m = b then dec_match_loop t off 768 mbyte n R t' else dec_match_rest t off 768 R t') = Some (r, s')"
    "adv n 0 t' s'"
    using Suc.IH[OF adv_wf[OF b(3)] Suc.prems(2) j] dec_match_rest_adv[OF adv_wf[OF b(3)] Suc.prems(2) j] by (cases "?m = b") auto
  have "adv (Suc n) 0 s s'" using adv_trans[OF b(3) r(2)] by simp
  moreover have "dec_match_loop t off 768 mbyte (Suc n) ret s = Some (r, s')"
    unfolding dec_match_loop.simps Let_def range_check_def if_P[OF o] prod.case b(1) bind.simps R_def[symmetric] r(1)[symmetric] by simp
  ultimately show ?case by blast
qed

lemma dec_match_adv:
  assumes "lz_wf s" and "off + 768 \<le> tab_size t"
  shows "\<exists>r s'. dec_match t off 768 mbyte s = Some (r, s') \<and> adv 8 0 s s'"
  using dec_match_loop_adv[OF assms, of 0 1 8 mbyte] by (auto simp: dec_match_def)

lemma dec_length_adv:
  assumes "lz_wf s" and "p < 4"
  shows "\<exists>r s'. dec_length lm p s = Some (r, s') \<and> unat r \<le> 271 \<and> adv 10 0 s s'"
proof -
  obtain b1 s1 where b1: "dec_bit (Choice1 lm) 0 s = Some (b1, s1)" "b1 = 0 \<or> b1 = 1" "adv 1 0 s s1"
    using dec_bit_adv[OF assms(1), of 0 "Choice1 lm"] by auto
  obtain b2 s2 where b2: "dec_bit (Choice2 lm) 0 s1 = Some (b2, s2)" "b2 = 0 \<or> b2 = 1" "adv 1 0 s1 s2"
    using dec_bit_adv[OF adv_wf[OF b1(3)], of 0 "Choice2 lm"] by auto
  have a2: "adv 2 0 s s2" using adv_mono[OF adv_trans[OF b1(3) b2(3)], of 2 0] by simp
  obtain r3 s3 where r3: "dec_tree (Low lm) (8 * p) 8 3 s1 = Some (r3, s3)" "unat r3 < 8" "adv 3 0 s1 s3"
    using dec_tree_adv[OF adv_wf[OF b1(3)], of "8 * p" 8 "Low lm" 3] assms(2) by auto
  obtain r4 s4 where r4: "dec_tree (Mid lm) (8 * p) 8 3 s2 = Some (r4, s4)" "unat r4 < 8" "adv 3 0 s2 s4"
    using dec_tree_adv[OF adv_wf[OF a2], of "8 * p" 8 "Mid lm" 3] assms(2) by auto
  obtain r5 s5 where r5: "dec_tree (High lm) 0 256 8 s2 = Some (r5, s5)" "unat r5 < 256" "adv 8 0 s2 s5"
    using dec_tree_adv[OF adv_wf[OF a2], of 0 256 "High lm" 8] by auto
  have "adv 10 0 s s3" "adv 10 0 s s4" "adv 10 0 s s5"
    using adv_mono[OF adv_trans[OF b1(3) r3(3)], of 10 0] adv_mono[OF adv_trans[OF a2 r4(3)], of 10 0]
      adv_mono[OF adv_trans[OF a2 r5(3)], of 10 0] by auto
  moreover have "unat (8 + r4) \<le> 271" "unat (16 + r5) \<le> 271"
    using r4(2) r5(2) by (simp_all add: unat_word_ariths)
  ultimately show ?thesis
    using b1(1) b2(1) r3 r4(1) r5(1) by (simp add: dec_length_def)
qed

section \<open>Symbols\<close>

text \<open>An operation that ends with \<open>P\<close>, within a budget of input and output.\<close>

definition ok :: "nat \<Rightarrow> nat \<Rightarrow> ('a \<Rightarrow> lzst \<Rightarrow> bool) \<Rightarrow> lzst \<Rightarrow> ('a \<times> lzst) option \<Rightarrow> bool" where
  "ok i n P s res \<longleftrightarrow> (\<exists>r s'. res = Some (r, s') \<and> P r s' \<and> adv i n s s')"

lemma ok_bind:
  assumes "ok i n P s m" and "\<And>r t. P r t \<Longrightarrow> adv i n s t \<Longrightarrow> lz_wf t \<Longrightarrow> ok j k Q t (g (r, t))" and "i + j \<le> i'" and "n + k \<le> n'"
  shows "ok i' n' Q s (m \<bind> g)"
proof -
  obtain r t where t: "m = Some (r, t)" "P r t" "adv i n s t" using assms(1) by (auto simp: ok_def)
  obtain r' u where "g (r, t) = Some (r', u)" "Q r' u" "adv j k t u"
    using assms(2)[OF t(2,3) adv_wf[OF t(3)]] by (auto simp: ok_def)
  then show ?thesis using t(1) adv_mono[OF adv_trans[OF t(3)] assms(3,4)] by (auto simp: ok_def)
qed

lemma ok_step: "adv 0 0 s t \<Longrightarrow> ok i n P t res \<Longrightarrow> ok i n P s res"
  using adv_trans[of 0 0 s t i n] by (auto simp: ok_def)

lemma ok_mono: "ok i n P s res \<Longrightarrow> i \<le> j \<Longrightarrow> n \<le> k \<Longrightarrow> (\<And>r t. P r t \<Longrightarrow> adv i n s t \<Longrightarrow> Q r t) \<Longrightarrow> ok j k Q s res"
  unfolding ok_def using adv_mono by blast

lemma ok_return: "lz_wf s \<Longrightarrow> P r s \<Longrightarrow> ok 0 0 P s (Some (r, s))"
  by (simp add: ok_def adv_refl)

text \<open>The result of a symbol: a state of the table, and output, unless there is an error.\<close>

definition sym_ok :: "nat \<Rightarrow> int \<Rightarrow> lzst \<Rightarrow> bool" where
  "sym_ok d st s \<longleftrightarrow> pz_error s \<noteq> 0 \<or> st \<in> {0..11} \<and> d < lz_dstptr s"

lemma dec_bit_ok: "lz_wf s \<Longrightarrow> i < tab_size t \<Longrightarrow> ok 1 0 (\<lambda>b _. b = 0 \<or> b = 1) s (dec_bit t i s)"
  using dec_bit_adv by (fastforce simp: ok_def)

lemma repeat_loop_adv:
  "lz_wf s \<Longrightarrow> \<exists>s'. repeat_loop rep n s = Some s' \<and> adv 0 n s s' \<and> (pz_error s' \<noteq> 0 \<or> lz_dstptr s' = lz_dstptr s + n)"
proof (induction n arbitrary: s)
  case 0
  then show ?case by (simp add: adv_refl)
next
  case (Suc n)
  obtain c s1 where s1: "peek_back rep s = Some (c, s1)" "adv 0 0 s s1" "lz_dstptr s1 = lz_dstptr s"
    using peek_back_adv[OF Suc.prems] by blast
  obtain s2 where s2: "put_byte c s1 = Some s2" "adv 0 1 s1 s2" "pz_error s2 \<noteq> 0 \<or> lz_dstptr s2 = lz_dstptr s1 + 1"
    using put_byte_adv[OF adv_wf[OF s1(2)]] by blast
  obtain s3 where s3: "repeat_loop rep n s2 = Some s3" "adv 0 n s2 s3" "pz_error s3 \<noteq> 0 \<or> lz_dstptr s3 = lz_dstptr s2 + n"
    using Suc.IH[OF adv_wf[OF s2(2)]] by blast
  have "adv 0 (Suc n) s s3" using adv_trans[OF adv_trans[OF s1(2) s2(2)] s3(2)] by simp
  then show ?case using s1(1,3) s2(1,3) s3(1,3) adv_sticky[OF s3(2)] by auto
qed

lemma repeat_from_dict_ok:
  assumes "lz_wf s" and "0 < unat n" and "st \<in> {0..11}"
  shows "ok 0 (unat n) (sym_ok (lz_dstptr s)) s (repeat_from_dict st rep n s)"
  using repeat_loop_adv[OF assms(1), of rep "unat n"] assms(2,3) by (auto simp: ok_def repeat_from_dict_def sym_ok_def)

lemma sym_ok_mono: "sym_ok d st s \<Longrightarrow> d' \<le> d \<Longrightarrow> sym_ok d' st s"
  by (auto simp: sym_ok_def)

lemma dst_mono: "adv i n s t \<Longrightarrow> lz_dstptr s \<le> lz_dstptr t"
  by (simp add: adv_def)

lemma literal_state: "st \<in> {0..11} \<Longrightarrow> (if st \<le> STATE_SHORTREP_LIT_LIT then STATE_LIT_LIT
    else if st \<le> STATE_LIT_SHORTREP then st - 3 else st - 6) \<in> {0..11}"
  by (auto simp: STATE_SHORTREP_LIT_LIT_def STATE_LIT_LIT_def STATE_LIT_SHORTREP_def)

lemma inflate_literal_ok:
  assumes "lz_wf s" and "st \<in> {0..11}"
  shows "ok 8 1 (sym_ok (lz_dstptr s)) s (inflate_literal st s)"
proof -
  obtain c0 s1 where s1: "peek_back 0 s = Some (c0, s1)" "adv 0 0 s s1"
    using peek_back_adv[OF assms(1)] by blast
  let ?l = "unat (drop_bit 5 c0)"
  have "unat c0 < 256" using unsigned_less[of c0, where ?'a = nat] by simp
  then have l: "?l < 8" by (simp add: drop_bit_eq_div unat_div)
  then have o: "0x300 * ?l + 768 \<le> tab_size Literal" by simp
  obtain mb s2 where s2: "peek_back (pz_rep s1 ! 0) s1 = Some (mb, s2)" "adv 0 0 s1 s2"
    using peek_back_adv[OF adv_wf[OF s1(2)]] by blast
  let ?get = "if is_lit st then dec_tree Literal (0x300 * ?l) 0x300 8 s1
    else do { (mb, s) \<leftarrow> peek_back (pz_rep s1 ! 0) s1; dec_match Literal (0x300 * ?l) 0x300 (ucast mb) s }"
  have "\<exists>r s'. ?get = Some (r, s') \<and> adv 8 0 s1 s'"
  proof (cases "is_lit st")
    case True
    then show ?thesis using dec_tree_adv[OF adv_wf[OF s1(2)] o, of 8] by auto
  next
    case False
    obtain r s3 where "dec_match Literal (0x300 * ?l) 768 (ucast mb) s2 = Some (r, s3)" "adv 8 0 s2 s3"
      using dec_match_adv[OF adv_wf[OF s2(2)] o] by blast
    then show ?thesis using False s2(1) adv_trans[OF s2(2), of 8 0 s3] by simp
  qed
  then obtain c s3 where s3: "?get = Some (c, s3)" "adv 8 0 s1 s3" by blast
  obtain s4 where s4: "put_byte (ucast c) s3 = Some s4" "adv 0 1 s3 s4" "pz_error s4 \<noteq> 0 \<or> lz_dstptr s4 = lz_dstptr s3 + 1"
    using put_byte_adv[OF adv_wf[OF s3(2)]] by blast
  have "adv 8 1 s s4" using adv_trans[OF adv_trans[OF s1(2) s3(2)] s4(2)] by simp
  moreover have "lz_dstptr s \<le> lz_dstptr s3" using dst_mono[OF s1(2)] dst_mono[OF s3(2)] by simp
  ultimately show ?thesis
    unfolding inflate_literal_def s1(1) bind.simps prod.case Let_def range_check_def if_P[OF l] s3(1)[unfolded prod.case] s4(1)
    using literal_state[OF assms(2)] s4(3) by (auto simp: ok_def sym_ok_def)
qed

text \<open>Distances: the models of every slot lie inside \<open>dispec\<close>, as the code's checks assert.\<close>

lemma slot_cases: "4 \<le> unat d \<Longrightarrow> unat d < 14 \<Longrightarrow> d \<in> {4, 5, 6, 7, 8, 9, 10, 11, 12, 13 :: u32}"
proof -
  assume "4 \<le> unat d" "unat d < 14"
  then have "unat d = 4 \<or> unat d = 5 \<or> unat d = 6 \<or> unat d = 7 \<or> unat d = 8 \<or> unat d = 9 \<or> unat d = 10 \<or>
      unat d = 11 \<or> unat d = 12 \<or> unat d = 13" by presburger
  then show ?thesis by (auto simp: word_unat_eq_iff)
qed

lemma slot_in_dispec:
  fixes d :: u32
  assumes "4 \<le> unat d" and "unat d < 14"
  defines "limit \<equiv> unat (drop_bit 1 d) - 1"
  defines "off \<equiv> push_bit limit (2 + (d AND 1)) - d"
  shows "unat off < 115" and "unat off + unat (115 - off) \<le> 115" and "2 ^ limit \<le> unat (115 - off)" and "limit \<le> 5"
proof -
  have "unat off < 115 \<and> unat off + unat (115 - off) \<le> 115 \<and> 2 ^ limit \<le> unat (115 - off) \<and> limit \<le> 5"
    using slot_cases[OF assms(1,2)] unfolding off_def limit_def by (elim insertE emptyE) simp_all
  then show "unat off < 115" "unat off + unat (115 - off) \<le> 115" "2 ^ limit \<le> unat (115 - off)" "limit \<le> 5" by auto
qed

lemma dec_distance_ok:
  assumes "lz_wf s" and "4 \<le> unat dislot" and "unat dislot < 64"
  shows "ok 30 0 (\<lambda>r t. case r of Inl st \<Rightarrow> pz_error t \<noteq> 0 | Inr _ \<Rightarrow> True) s (dec_distance len dislot s)"
proof (cases "unat dislot < 14")
  case True
  let ?limit = "unat (drop_bit 1 dislot) - 1"
  let ?rep = "push_bit ?limit (2 + (dislot AND 1))"
  note d = slot_in_dispec[OF assms(2) True]
  have lt: "dislot < 14" using True by (simp add: word_less_nat_alt)
  have "unat (?rep - dislot) + unat (115 - (?rep - dislot)) \<le> tab_size Dispec" using d(2) by simp
  from dec_rtree_adv[OF assms(1) this d(3)] d(4) obtain r t where
    r: "dec_rtree Dispec (unat (?rep - dislot)) (unat (115 - (?rep - dislot))) ?limit s = Some (r, t)" "adv ?limit 0 s t" by auto
  then show ?thesis
    unfolding dec_distance_def Let_def if_P[OF lt] range_check_def if_P[OF d(1)] prod.case r(1) bind.simps
    using adv_mono[OF r(2), of 30 0] d(4) by (simp add: ok_def)
next
  case False
  let ?limit = "unat (drop_bit 1 dislot) - 1"
  have lt: "\<not> dislot < 14" using False by (simp add: word_less_nat_alt)
  have "unat (drop_bit 1 dislot) < 32" using assms(3) by (simp add: drop_bit_eq_div unat_div)
  then have lim: "?limit - 4 \<le> 26" by linarith
  obtain r t where r: "dec_direct (?limit - 4) s = Some (r, t)" "adv (?limit - 4) 0 s t"
    unfolding dec_direct_def using dec_direct_loop_adv[OF assms(1)] by blast
  obtain q u where q: "dec_rtree Align 0 16 4 t = Some (q, u)" "adv 4 0 t u"
    using dec_rtree_adv[OF adv_wf[OF r(2)], of 0 16 Align 4] by auto
  have "adv (?limit - 4 + 4) 0 s u" using adv_trans[OF r(2) q(2)] by simp
  then have a: "adv 30 0 s u" by (rule adv_mono) (use lim in auto)
  moreover have "adv 30 0 s (lz_error e u)" if "e \<in> {1, 7}" for e
    using adv_trans[OF a adv_error[OF adv_wf[OF a], of e]] that by auto
  ultimately show ?thesis
    unfolding dec_distance_def Let_def if_not_P[OF lt] r(1) q(1) bind.simps prod.case state_error_def LZMA_RANGE_CHECK_def LZMA_STREAM_END_def
    by (auto simp: ok_def lz_error_def)
qed

lemma inflate_match_ok:
  assumes "lz_wf s" and "p < 4"
  shows "ok 46 273 (sym_ok (lz_dstptr s)) s (inflate_match st p s)"
proof -
  let ?r = "pz_rep s"
  let ?s = "s \<lparr> pz_rep := [?r ! 0, ?r ! 0, ?r ! 1, ?r ! 2] \<rparr>"
  have a0: "adv 0 0 s ?s" using assms(1) by simp
  obtain n s1 where s1: "dec_length Matchlen p ?s = Some (n, s1)" "unat n \<le> 271" "adv 10 0 ?s s1"
    using dec_length_adv[OF adv_wf[OF a0] assms(2)] by blast
  define dstate where "dstate = (if 2 + n - 2 < 4 - 1 then unat (2 + n - 2) else 4 - 1)"
  have ds: "64 * dstate + 64 \<le> tab_size Dislot" by (auto simp: dstate_def word_less_nat_alt)
  obtain d s2 where s2: "dec_tree Dislot (64 * dstate) 64 6 s1 = Some (d, s2)" "unat d < 64" "adv 6 0 s1 s2"
    using dec_tree_adv[OF adv_wf[OF s1(3)] ds, of 6] by auto
  have "ok 30 0 (\<lambda>r t. case r of Inl st \<Rightarrow> pz_error t \<noteq> 0 | Inr _ \<Rightarrow> True) s2
      (if d < 4 then Some (Inr d, s2) else dec_distance (2 + n) d s2)"
    using dec_distance_ok[OF adv_wf[OF s2(3)], of d "2 + n"] s2(2) adv_mono[OF adv_refl[OF adv_wf[OF s2(3)]], of 30 0]
    by (auto simp: ok_def word_less_nat_alt)
  then obtain r s3 where s3: "(if d < 4 then Some (Inr d, s2) else dec_distance (2 + n) d s2) = Some (r, s3)" "adv 30 0 s2 s3"
    "case r of Inl st \<Rightarrow> pz_error s3 \<noteq> 0 | Inr _ \<Rightarrow> True" by (auto simp: ok_def)
  have a3: "adv 46 0 s s3" using adv_trans[OF adv_trans[OF adv_trans[OF a0 s1(3)] s2(3)] s3(2)] by simp
  have len: "unat (2 + n) = 2 + unat n" using s1(2) by (simp add: unat_word_ariths)
  show ?thesis
  proof (cases r)
    case (Inl e)
    then show ?thesis
      unfolding inflate_match_def Let_def s1(1) bind.simps prod.case dstate_def[symmetric] s2(1) s3(1)
      using s3(3) adv_mono[OF a3, of 46 273] by (simp add: ok_def sym_ok_def)
  next
    case (Inr rep)
    let ?t = "s3 \<lparr> pz_rep := (pz_rep s3)[0 := rep] \<rparr>" and ?st = "if is_lit st then STATE_LIT_MATCH else STATE_NONLIT_MATCH"
    have t: "adv 0 0 s3 ?t" using adv_wf[OF s3(2)] by (simp add: lz_wf_def)
    have "ok 0 (unat (2 + n)) (sym_ok (lz_dstptr ?t)) ?t (repeat_from_dict ?st rep (2 + n) ?t)"
      by (rule repeat_from_dict_ok[OF adv_wf[OF t]]) (use len in \<open>auto simp: STATE_LIT_MATCH_def STATE_NONLIT_MATCH_def\<close>)
    then obtain st' u where u: "repeat_from_dict ?st rep (2 + n) ?t = Some (st', u)" "sym_ok (lz_dstptr ?t) st' u" "adv 0 (unat (2 + n)) ?t u"
      by (auto simp: ok_def)
    have "adv 46 273 s u" using adv_mono[OF adv_trans[OF adv_trans[OF a3 t] u(3)], of 46 273] len s1(2) by simp
    then show ?thesis
      unfolding inflate_match_def Let_def s1(1) bind.simps prod.case dstate_def[symmetric] s2(1) s3(1) Inr sum.case u(1)
      using sym_ok_mono[OF u(2)] dst_mono[OF adv_trans[OF a3 t]] by (simp add: ok_def)
  qed
qed

lemma inflate_shortrep_ok:
  assumes "lz_wf s"
  shows "ok 0 1 (sym_ok (lz_dstptr s)) s (inflate_shortrep st s)"
  unfolding inflate_shortrep_def Let_def using repeat_from_dict_ok[OF assms, of 1]
  by (auto simp: STATE_LIT_SHORTREP_def STATE_NONLIT_REP_def)

lemma inflate_longrep_ok:
  assumes "lz_wf s" and "p < 4"
  shows "ok 10 273 (sym_ok (lz_dstptr s)) s (inflate_longrep st p n s)"
proof -
  define rep where "rep = pz_rep s ! n"
  define r where "r = (let r = pz_rep s; r = (if n > 2 then r[3 := r ! 2] else r);
     r = (if n > 1 then r[2 := r ! 1] else r); r = (if n > 0 then r[1 := r ! 0] else r) in r[0 := rep])"
  let ?s = "s \<lparr> pz_rep := r \<rparr>" and ?st = "if is_lit st then STATE_LIT_LONGREP else STATE_NONLIT_REP"
  have "length r = 4" using assms(1) by (simp add: r_def Let_def lz_wf_def)
  then have a0: "adv 0 0 s ?s" using assms(1) by simp
  obtain k s1 where s1: "dec_length Replen p ?s = Some (k, s1)" "unat k \<le> 271" "adv 10 0 ?s s1"
    using dec_length_adv[OF adv_wf[OF a0] assms(2)] by blast
  have len: "unat (2 + k) = 2 + unat k" using s1(2) by (simp add: unat_word_ariths)
  have "ok 0 (unat (2 + k)) (sym_ok (lz_dstptr s1)) s1 (repeat_from_dict ?st rep (2 + k) s1)"
    by (rule repeat_from_dict_ok[OF adv_wf[OF s1(3)]]) (use len in \<open>auto simp: STATE_LIT_LONGREP_def STATE_NONLIT_REP_def\<close>)
  then obtain st' u where u: "repeat_from_dict ?st rep (2 + k) s1 = Some (st', u)" "sym_ok (lz_dstptr s1) st' u" "adv 0 (unat (2 + k)) s1 u"
    by (auto simp: ok_def)
  have a1: "adv 10 0 s s1" using adv_trans[OF a0 s1(3)] by simp
  have "adv 10 273 s u" using adv_mono[OF adv_trans[OF a1 u(3)], of 10 273] len s1(2) by simp
  moreover have "inflate_longrep st p n s = Some (st', u)"
    using s1(1) u(1) unfolding inflate_longrep_def r_def rep_def Let_def by simp
  ultimately show ?thesis using sym_ok_mono[OF u(2)] dst_mono[OF a1] by (simp add: ok_def)
qed

lemma ok_branch:
  assumes "lz_wf s" and "i < tab_size t" and "n + 1 \<le> m"
    and "\<And>u. lz_wf u \<Longrightarrow> ok n k (sym_ok (lz_dstptr u)) u (f u)" and "\<And>u. lz_wf u \<Longrightarrow> ok n k (sym_ok (lz_dstptr u)) u (g u)"
  shows "ok m k (sym_ok (lz_dstptr s)) s (do { (b, s) \<leftarrow> dec_bit t i s; if b = 0 then f s else g s })"
proof (rule ok_bind[OF dec_bit_ok[OF assms(1,2)]])
  fix b u assume u: "adv 1 0 s u" "lz_wf u"
  have "ok n k (sym_ok (lz_dstptr u)) u (if b = 0 then f u else g u)" using assms(4,5)[OF u(2)] by simp
  then show "ok n k (sym_ok (lz_dstptr s)) u (case (b, u) of (b, s) \<Rightarrow> if b = 0 then f s else g s)"
    using ok_mono[of n k _ u _ n k "sym_ok (lz_dstptr s)"] sym_ok_mono dst_mono[OF u(1)] by fastforce
qed (use assms(3) in auto)

lemma inflate_symbol_ok:
  assumes "lz_wf s" and "st < 12" and "p < 4"
  shows "ok 48 273 (sym_ok (lz_dstptr s)) s (inflate_symbol st p s)"
proof -
  have up: "ok i n P u res \<Longrightarrow> i \<le> j \<Longrightarrow> n \<le> 273 \<Longrightarrow> ok j 273 P u res" for i n j u res and P :: "int \<Rightarrow> lzst \<Rightarrow> bool"
    by (rule ok_mono) auto
  have leaf: "ok 47 273 (sym_ok (lz_dstptr u)) u (inflate_literal (int st) u)"
    "ok 46 273 (sym_ok (lz_dstptr u)) u (inflate_match (int st) p u)"
    "ok 44 273 (sym_ok (lz_dstptr u)) u (inflate_shortrep (int st) u)"
    "ok 44 273 (sym_ok (lz_dstptr u)) u (inflate_longrep (int st) p n u)"
    "ok 43 273 (sym_ok (lz_dstptr u)) u (inflate_longrep (int st) p n u)" if "lz_wf u" for u n
    using up[OF inflate_literal_ok[OF that]] inflate_match_ok[OF that assms(3)] up[OF inflate_shortrep_ok[OF that]]
      up[OF inflate_longrep_ok[OF that assms(3)]] assms(2) by simp_all
  show ?thesis
    unfolding inflate_symbol_def
    apply (rule ok_branch[OF assms(1), where n = 47])
       apply (use assms(2,3) in simp)
      apply simp
     apply (erule leaf)
    apply (rule ok_branch[where n = 46], assumption)
       apply (use assms(2) in simp)
      apply simp
     apply (erule leaf)
    apply (rule ok_branch[where n = 45], assumption)
       apply (use assms(2) in simp)
      apply simp
     apply (rule ok_branch[where n = 44], assumption)
        apply (use assms(2,3) in simp)
       apply simp
      apply (erule leaf)
     apply (erule leaf)
    apply (rule ok_branch[where n = 44], assumption)
       apply (use assms(2) in simp)
      apply simp
     apply (erule leaf)
    apply (rule ok_branch[where n = 43], assumption)
       apply (use assms(2) in simp)
      apply simp
     apply (erule leaf)
    apply (erule leaf)
    done
qed

section \<open>The loop\<close>

text \<open>What a call returns, from a state with no error or one of the decoder's own.\<close>

definition inflate_post :: "lzst \<Rightarrow> int \<Rightarrow> lzst \<Rightarrow> bool" where
  "inflate_post s ret s' \<longleftrightarrow>
     (ret = pz_error s' \<and> pz_error s' \<noteq> 0 \<or> ret = LZMA_NEED_INPUT \<and> lz_srchwm s < lz_srcptr s' \<or>
      ret = LZMA_NEED_OUTPUT \<and> lz_dsthwm s < lz_dstptr s') \<and>
     lz_srcptr s' \<le> max (lz_srcptr s) (lz_srchwm s) + 48 \<and> lz_dstptr s' \<le> max (lz_dstptr s) (lz_dsthwm s) + 273 \<and>
     (\<exists>i n. adv i n s s')"

lemma to_uint_small: "0 \<le> x \<Longrightarrow> x < 2 ^ 32 \<Longrightarrow> to_uint x = nat x"
  by (simp add: to_uint_def)

lemma inflate_loop_error: "pz_error s \<noteq> 0 \<Longrightarrow> inflate_loop s = Some (pz_error s, s)"
  by (subst inflate_loop.simps) simp

lemma inflate_loop_ends:
  "lz_wf s \<Longrightarrow> \<exists>ret s'. inflate_loop s = Some (ret, s') \<and> inflate_post s ret s'"
proof (induction "out_base s + length (out_mem s) - lz_dstptr s" arbitrary: s rule: less_induct)
  case less
  have self: "inflate_post s (pz_error t) t" if "adv 0 0 s t" "pz_error t \<noteq> 0" for t
    using that dst_mono[OF that(1)] by (auto simp: inflate_post_def adv_def)
  have p: "to_uint (pz_pos_state s) < 4" using less.prems by (auto simp: lz_wf_def to_uint_def)
  show ?case
  proof (cases "pz_error s \<noteq> 0")
    case True
    then show ?thesis using self[OF adv_refl[OF less.prems] True] inflate_loop_error by blast
  next
    case False
    show ?thesis
    proof (cases "to_uint (pz_state s) < 12")
      case bad: False
      let ?t = "lz_error LZMA_RANGE_CHECK s"
      have t: "pz_error ?t \<noteq> 0" "adv 0 0 s ?t"
        using adv_error[OF less.prems] by (simp_all add: lz_error_def LZMA_RANGE_CHECK_def)
      then show ?thesis using False bad inflate_loop_error[OF t(1)] self[OF t(2,1)]
        by (subst inflate_loop.simps) (simp add: range_check_def)
    next
      case True
      obtain st t where t: "inflate_symbol (to_uint (pz_state s)) (to_uint (pz_pos_state s)) s = Some (st, t)"
        "sym_ok (lz_dstptr s) st t" "adv 48 273 s t"
        using inflate_symbol_ok[OF less.prems True p] by (auto simp: ok_def)
      let ?t = "t \<lparr> pz_state := st \<rparr>"
      have a: "adv 48 273 s ?t" using adv_trans[OF t(3), of 0 0 ?t] adv_wf[OF t(3)] by simp
      have eq: "inflate_loop s = (if lz_srcptr ?t > lz_srchwm ?t then Some (LZMA_NEED_INPUT, ?t)
          else if lz_dstptr ?t > lz_dsthwm ?t then Some (LZMA_NEED_OUTPUT, ?t) else inflate_loop ?t)"
        using False True p t(1) by (subst inflate_loop.simps) (simp add: range_check_def Let_def)
      have same: "lz_srchwm ?t = lz_srchwm s" "lz_dsthwm ?t = lz_dsthwm s"
        using a by (auto simp: adv_def same_setup_def)
      show ?thesis
      proof (cases "lz_srchwm ?t < lz_srcptr ?t \<or> lz_dsthwm ?t < lz_dstptr ?t")
        case True
        then show ?thesis using eq a same by (auto simp: inflate_post_def adv_def intro: exI[of _ 48] exI[of _ 273])
      next
        case hwm: False
        have "\<exists>ret s'. inflate_loop ?t = Some (ret, s') \<and> inflate_post ?t ret s'"
        proof (cases "pz_error ?t \<noteq> 0")
          case True
          then have "inflate_post ?t (pz_error ?t) ?t" using adv_refl[OF adv_wf[OF a]] by (auto simp: inflate_post_def)
          then show ?thesis using inflate_loop_error[OF True] by blast
        next
          case False
          then have "lz_dstptr s < lz_dstptr ?t" "lz_dstptr ?t \<le> out_base s + length (out_mem s)"
            "out_base ?t + length (out_mem ?t) = out_base s + length (out_mem s)"
            using t(2) a by (auto simp: sym_ok_def adv_def same_setup_def lz_wf_def)
          then show ?thesis using less.hyps[of ?t] adv_wf[OF a] by simp
        qed
        then obtain ret u where u: "inflate_loop ?t = Some (ret, u)" "inflate_post ?t ret u" by blast
        have "inflate_post s ret u"
          using u(2) hwm same adv_trans[OF a] unfolding inflate_post_def by fastforce
        then show ?thesis using eq hwm u(1) by auto
      qed
    qed
  qed
qed

definition null_ptr :: "lzst \<Rightarrow> bool" where
  "null_ptr s \<longleftrightarrow> 0 \<in> {lz_srcbuf s, lz_srcptr s, lz_srcend s, lz_dstbuf s, lz_dstptr s, lz_dstend s}"

lemma check_buffers_adv:
  assumes "lz_wf s" and "\<not> null_ptr s"
  shows "\<exists>t. check_buffers s = Some t \<and> adv 4 0 s t"
proof -
  obtain b0 s0 where s0: "get_byte s = Some (b0, s0)" "adv 1 0 s s0" using get_byte_adv[OF assms(1)] by blast
  obtain b1 s1 where s1: "get_byte s0 = Some (b1, s1)" "adv 1 0 s0 s1" using get_byte_adv[OF adv_wf[OF s0(2)]] by blast
  obtain b2 s2 where s2: "get_byte s1 = Some (b2, s2)" "adv 1 0 s1 s2" using get_byte_adv[OF adv_wf[OF s1(2)]] by blast
  obtain b3 s3 where s3: "get_byte s2 = Some (b3, s3)" "adv 1 0 s2 s3" using get_byte_adv[OF adv_wf[OF s2(2)]] by blast
  have a: "adv 4 0 s s3" using adv_mono[OF adv_trans[OF adv_trans[OF adv_trans[OF s0(2) s1(2)] s2(2)] s3(2)], of 4 0] by simp
  have "adv 0 0 s3 (s3 \<lparr> pz_code := c, pz_state := st, pz_range := r \<rparr>)" for c st r
    using adv_wf[OF a] by (simp add: adv_def lz_wf_def same_setup_def err_step_def)
  then have a': "adv 4 0 s (s3 \<lparr> pz_code := c, pz_state := st, pz_range := r \<rparr>)" for c st r
    using adv_trans[OF a] by fastforce
  have "adv 4 0 s s" using adv_mono[OF adv_refl[OF assms(1)]] by simp
  then show ?thesis
    using a' s0(1) s1(1) s2(1) s3(1) assms(2) by (auto simp: check_buffers_def null_ptr_def)
qed

section \<open>Properties\<close>

lemma lzma_inflate_post:
  assumes "lz_wf s"
  obtains e where "lzma_inflate s = Some (e, lz_error e s)" "e \<in> {4, 5}" "null_ptr s"
  | ret s' t where "lzma_inflate s = Some (ret, s')" "adv 4 0 s t" "inflate_post t ret s'" "\<not> null_ptr s"
proof (cases "null_ptr s")
  case True
  have "\<exists>e. check_buffers s = Some (lz_error e s) \<and> e \<in> {4, 5}"
  proof (cases "lz_srcbuf s = 0 \<or> lz_srcptr s = 0 \<or> lz_srcend s = 0")
    case True
    then show ?thesis by (simp add: check_buffers_def LZMA_INPUT_OVER_def) blast
  next
    case False
    then show ?thesis using True by (auto simp: null_ptr_def check_buffers_def LZMA_OUTPUT_OVER_def intro: exI[of _ 4])
  qed
  then obtain e where e: "check_buffers s = Some (lz_error e s)" "e \<in> {4, 5}" by blast
  have "pz_error (lz_error e s) = e" by (simp add: lz_error_def)
  then have "lzma_inflate s = Some (e, lz_error e s)"
    using inflate_loop_error[of "lz_error e s"] e by (auto simp: lzma_inflate_def)
  then show ?thesis using that(1) e(2) True by blast
next
  case False
  obtain t where t: "check_buffers s = Some t" "adv 4 0 s t" using check_buffers_adv[OF assms False] by blast
  obtain ret s' where "inflate_loop t = Some (ret, s')" "inflate_post t ret s'"
    using inflate_loop_ends[OF adv_wf[OF t(2)]] by blast
  then show ?thesis using that(2) t False by (simp add: lzma_inflate_def)
qed

lemma adv_error_codes: "adv i n s t \<Longrightarrow> pz_error s \<in> {0, 1, 4, 5, 6, 7} \<Longrightarrow> pz_error t \<in> {0, 1, 4, 5, 6, 7}"
  by (auto simp: adv_def err_step_def)

text \<open>
  C20.  Decompression ends, on any input: \<open>lzma_inflate\<close> returns one of its codes after finitely many
  symbols, without an access outside its tables, the input or the output; it writes only from the old
  output pointer to the new one, and moves no other pointer of the caller than the two it advances.
\<close>

theorem lzma_inflate_ends:
  assumes "lz_wf s" and "pz_error s \<in> {0, 1, 4, 5, 6, 7}"
  shows "\<exists>ret s'. lzma_inflate s = Some (ret, s') \<and> ret \<in> {1..7} \<and> lz_wf s' \<and> same_setup s s' \<and>
    lz_srcptr s \<le> lz_srcptr s' \<and> lz_dstptr s \<le> lz_dstptr s' \<and>
    (\<forall>a. a < lz_dstptr s - out_base s \<or> lz_dstptr s' - out_base s \<le> a \<longrightarrow> out_mem s' ! a = out_mem s ! a)"
proof (rule lzma_inflate_post[OF assms(1)])
  fix e assume "lzma_inflate s = Some (e, lz_error e s)" "e \<in> {4, 5}"
  then show ?thesis using assms(1) by (auto simp: lz_error_def lz_wf_def same_setup_def)
next
  fix ret s' t assume t: "lzma_inflate s = Some (ret, s')" "adv 4 0 s t" "inflate_post t ret s'"
  obtain i n where "adv i n t s'" using t(3) by (auto simp: inflate_post_def)
  from adv_trans[OF t(2) this] have a: "adv (4 + i) (0 + n) s s'" .
  have "ret \<in> {1..7}"
    using t(3) adv_error_codes[OF a assms(2)] by (auto simp: inflate_post_def LZMA_NEED_INPUT_def LZMA_NEED_OUTPUT_def)
  then show ?thesis using t(1) a unfolding adv_def by blast
qed

text \<open>
  C21.  The high-water marks work as \<^verbatim>\<open>lib/lzma.h\<close> says: with both pointers not past their marks, and more
  than 52 bytes of input and 273 bytes of output after the marks, a call never fails with
  \<open>LZMA_INPUT_OVER\<close> or \<open>LZMA_OUTPUT_OVER\<close>, and it overshoots the marks by no more than that.
\<close>

theorem lzma_inflate_slack:
  assumes "lz_wf s" and "pz_error s = 0" and "\<not> null_ptr s"
    and "lz_srcptr s \<le> lz_srchwm s" and "lz_srchwm s + 52 < lz_srcend s"
    and "lz_dstptr s \<le> lz_dsthwm s" and "lz_dsthwm s + 273 < lz_dstend s"
  shows "\<exists>ret s'. lzma_inflate s = Some (ret, s') \<and> ret \<noteq> LZMA_INPUT_OVER \<and> ret \<noteq> LZMA_OUTPUT_OVER \<and>
    lz_srcptr s' \<le> lz_srchwm s + 52 \<and> lz_dstptr s' \<le> lz_dsthwm s + 273"
proof (rule lzma_inflate_post[OF assms(1)])
  fix ret s' t assume t: "lzma_inflate s = Some (ret, s')" "adv 4 0 s t" "inflate_post t ret s'"
  obtain i n where "adv i n t s'" using t(3) by (auto simp: inflate_post_def)
  from adv_trans[OF t(2) this] have "err_step s s'" by (simp add: adv_def)
  moreover have "lz_srcptr s' \<le> lz_srchwm s + 52" "lz_dstptr s' \<le> lz_dsthwm s + 273"
    using t(2,3) assms(4,6) by (auto simp: inflate_post_def adv_def same_setup_def)
  ultimately show ?thesis
    using t(1,3) assms(2,5,7)
    by (auto simp: err_step_def inflate_post_def LZMA_NEED_INPUT_def LZMA_NEED_OUTPUT_def LZMA_INPUT_OVER_def LZMA_OUTPUT_OVER_def)
qed (use assms(3) in simp)

end
