(* ===== verification/Lzma_Range.thy ===== *)
theory Lzma_Range
  imports Lzma_Safe
begin

text \<open>
  The range coder.  An encoder turns a list of decisions, bits coded with a model and direct bits, into
  a subinterval of the initial range: every decision narrows the interval, and when its size falls
  below \<open>2^24\<close> everything is scaled by 256, which makes room for one more byte of the stream.  A stream
  whose value lies in the final interval represents the decisions.  The main result is that the decoder
  of \<^verbatim>\<open>lib/lzma.c\<close> reads back every decision from such a stream.
\<close>

section \<open>Encoding decisions\<close>

datatype dcs = DBit tab nat bool | DDir bool

text \<open>The adaptation of a model, as the decoder does it.\<close>

definition adapt :: "bool \<Rightarrow> u32 \<Rightarrow> u32" where
  "adapt b p = (if b then p - drop_bit 5 p else p + drop_bit 5 (push_bit 11 1 - p))"

type_synonym models = "tab \<Rightarrow> u32 list"

text \<open>Offset and size of the subinterval of a decision, and the models after it.\<close>

fun narrow :: "dcs \<Rightarrow> nat \<Rightarrow> models \<Rightarrow> nat \<times> nat \<times> models" where
  "narrow (DBit t i b) r m =
     (let p = m t ! i; bound = (r div 2048) * unat p; m' = m(t := (m t)[i := adapt b p])
      in if b then (bound, r - bound, m') else (0, bound, m'))"
| "narrow (DDir b) r m = (if b then (r div 2, r div 2, m) else (0, r div 2, m))"

definition shift :: "nat \<Rightarrow> nat" where
  "shift r = (if r < 2 ^ 24 then 1 else 0)"

text \<open>The final interval, its start and size, and the number of bytes it is scaled by.\<close>

fun enc :: "dcs list \<Rightarrow> nat \<Rightarrow> models \<Rightarrow> nat \<times> nat \<times> nat" where
  "enc [] r m = (0, r, 0)"
| "enc (d # ds) r m =
     (case narrow d r m of (off, r1, m1) \<Rightarrow>
        case enc ds (r1 * 256 ^ shift r1) m1 of (l, w, k) \<Rightarrow>
          (off * 256 ^ (k + shift r1) + l, w, k + shift r1))"

text \<open>The value of a run of bytes, most significant first.\<close>

fun be_nat :: "byte list \<Rightarrow> nat" where
  "be_nat [] = 0"
| "be_nat (b # bs) = unat b * 256 ^ length bs + be_nat bs"

section \<open>Intervals\<close>

definition models_ok :: "models \<Rightarrow> bool" where
  "models_ok m \<longleftrightarrow> (\<forall>t. length (m t) = tab_size t \<and> (\<forall>p \<in> set (m t). 31 \<le> unat p \<and> unat p \<le> 2017))"

fun valid_dcs :: "dcs \<Rightarrow> bool" where
  "valid_dcs (DBit t i b) \<longleftrightarrow> i < tab_size t"
| "valid_dcs (DDir b) \<longleftrightarrow> True"

lemma be_nat_less: "be_nat bs < 256 ^ length bs"
proof (induction bs)
  case (Cons b bs)
  have "unat b \<le> 255" using unsigned_less[of b, where ?'a = nat] by simp
  then have "unat b * 256 ^ length bs \<le> 255 * 256 ^ length bs" by (rule mult_le_mono1)
  then show ?case using Cons.IH unfolding be_nat.simps list.size power_Suc add_Suc_right add_0_right by linarith
qed simp

lemma adapt_range:
  assumes "31 \<le> unat p" and "unat p \<le> 2017"
  shows "31 \<le> unat (adapt b p)" and "unat (adapt b p) \<le> 2017"
proof -
  have d: "unat (drop_bit 5 p) = unat p div 32" by (simp add: drop_bit_eq_div unat_div)
  have m: "unat (2048 - p) = 2048 - unat p" using assms(2) by (simp add: unat_sub word_le_nat_alt)
  then have e: "unat (drop_bit 5 (2048 - p)) = (2048 - unat p) div 32" by (simp add: drop_bit_eq_div unat_div)
  have "drop_bit 5 p \<le> p" using d by (simp add: word_le_nat_alt)
  then have 1: "unat (p - drop_bit 5 p) = unat p - unat p div 32" using d by (simp add: unat_sub)
  have 0: "unat (p + drop_bit 5 (2048 - p)) = unat p + (2048 - unat p) div 32"
    using assms(2) e by (simp add: unat_word_ariths)
  have step: "n div 32 + 31 \<le> n" if "31 \<le> n" for n :: nat
  proof (cases "n div 32 = 0")
    case False
    then show ?thesis using times_div_less_eq_dividend[of 32 n] by linarith
  qed (use that in simp)
  have "31 \<le> 2048 - unat p" using assms(2) by simp
  from step[OF assms(1)] step[OF this] assms have
    "31 \<le> unat p - unat p div 32" "unat p - unat p div 32 \<le> 2017" "31 \<le> unat p + (2048 - unat p) div 32"
    "unat p + (2048 - unat p) div 32 \<le> 2017" by linarith+
  then show "31 \<le> unat (adapt b p)" "unat (adapt b p) \<le> 2017"
    by (simp_all add: adapt_def 0 1)
qed

lemma models_ok_update:
  assumes "models_ok m" and "i < tab_size t"
  shows "models_ok (m(t := (m t)[i := adapt b (m t ! i)]))"
proof -
  have "m t ! i \<in> set (m t)" using assms by (simp add: models_ok_def)
  then have "31 \<le> unat (m t ! i)" "unat (m t ! i) \<le> 2017" using assms(1) by (auto simp: models_ok_def)
  note adapt_range[OF this, of b]
  then show ?thesis using assms unfolding models_ok_def
    by (auto dest!: set_update_subset_insert[THEN subsetD])
qed

lemma bound_range:
  assumes "2 ^ 24 \<le> r" and "r < 2 ^ 32" and "31 \<le> p" and "p \<le> (2017 :: nat)"
  shows "2 ^ 16 \<le> (r div 2048) * p" and "(r div 2048) * p + 2 ^ 16 \<le> r"
proof -
  define q where "q = r div 2048"
  have q: "8192 \<le> q" "q * 2048 \<le> r" using div_le_mono[OF assms(1), of 2048] by (simp_all add: q_def)
  have "8192 * 31 \<le> q * p" using q(1) assms(3) by (rule mult_le_mono)
  then show "2 ^ 16 \<le> (r div 2048) * p" by (simp add: q_def)
  have "q * p \<le> q * 2017" using assms(4) by (rule mult_le_mono2)
  then have "q * p + 65536 \<le> r" using q by linarith
  then show "(r div 2048) * p + 2 ^ 16 \<le> r" by (simp add: q_def)
qed

lemma narrow_ok:
  assumes "narrow d r m = (off, r1, m1)" and "valid_dcs d" and "models_ok m" and "2 ^ 24 \<le> r" and "r < 2 ^ 32"
  shows "models_ok m1" and "2 ^ 16 \<le> r1" and "off + r1 \<le> r"
proof -
  have "models_ok m1 \<and> 2 ^ 16 \<le> r1 \<and> off + r1 \<le> r"
  proof (cases d)
    case (DBit t i b)
    then have "m t ! i \<in> set (m t)" using assms(2,3) by (simp add: models_ok_def)
    then have "31 \<le> unat (m t ! i)" "unat (m t ! i) \<le> 2017" using assms(3) by (auto simp: models_ok_def)
    note bound_range[OF assms(4,5) this]
    then show ?thesis using DBit assms models_ok_update[of m i t b] by (auto simp: Let_def split: if_splits)
  next
    case (DDir b)
    then show ?thesis using assms by (auto split: if_splits)
  qed
  then show "models_ok m1" "2 ^ 16 \<le> r1" "off + r1 \<le> r" by auto
qed

lemma shift_range:
  assumes "2 ^ 16 \<le> r" and "r < 2 ^ 32"
  shows "2 ^ 24 \<le> r * 256 ^ shift r" and "r * 256 ^ shift r < 2 ^ 32"
  using assms by (auto simp: shift_def)

lemma enc_inside:
  "enc ds r m = (l, w, k) \<Longrightarrow> \<forall>d \<in> set ds. valid_dcs d \<Longrightarrow> models_ok m \<Longrightarrow> 2 ^ 24 \<le> r \<Longrightarrow> r < 2 ^ 32 \<Longrightarrow>
   0 < w \<and> l + w \<le> r * 256 ^ k"
proof (induction ds arbitrary: r m l w k)
  case (Cons d ds)
  obtain off r1 m1 where n: "narrow d r m = (off, r1, m1)" by (cases "narrow d r m") auto
  obtain l' w' k' where e: "enc ds (r1 * 256 ^ shift r1) m1 = (l', w', k')" by (metis prod_cases3)
  note o = narrow_ok[OF n _ Cons.prems(3-5)]
  have v: "valid_dcs d" "\<forall>d \<in> set ds. valid_dcs d" using Cons.prems(2) by auto
  have r1: "r1 < 2 ^ 32" using o(3)[OF v(1)] Cons.prems(5) by linarith
  have "0 < w' \<and> l' + w' \<le> r1 * 256 ^ shift r1 * 256 ^ k'"
    using Cons.IH[OF e v(2) o(1)[OF v(1)] shift_range[OF o(2)[OF v(1)] r1]] .
  moreover have "(off + r1) * 256 ^ (k' + shift r1) \<le> r * 256 ^ (k' + shift r1)"
    using o(3)[OF v(1)] by (rule mult_le_mono1)
  ultimately show ?case
    using Cons.prems(1) n e by (auto simp: power_add algebra_simps)
qed simp

section \<open>Decoding decisions\<close>

text \<open>The input still to come represents \<open>ds\<close>.\<close>

definition pending :: "lzst \<Rightarrow> byte list" where
  "pending s = drop (lz_srcptr s - in_base s) (take (lz_srcend s - in_base s) (in_mem s))"

definition in_interval :: "nat \<Rightarrow> byte list \<Rightarrow> nat \<times> nat \<times> nat \<Rightarrow> bool" where
  "in_interval c bs = (\<lambda>(l, w, k). k \<le> length bs \<and> l \<le> c * 256 ^ k + be_nat (take k bs) \<and> c * 256 ^ k + be_nat (take k bs) < l + w)"

definition feeds :: "dcs list \<Rightarrow> lzst \<Rightarrow> bool" where
  "feeds ds s \<longleftrightarrow> models_ok (pz_probs s) \<and> (\<forall>d \<in> set ds. valid_dcs d) \<and> 2 ^ 24 \<le> unat (pz_range s) \<and>
     in_interval (unat (pz_code s)) (pending s) (enc ds (unat (pz_range s)) (pz_probs s))"

text \<open>Steps that only read.\<close>

definition rdonly :: "lzst \<Rightarrow> lzst \<Rightarrow> bool" where
  "rdonly s s' \<longleftrightarrow> (\<exists>c r m p. s' = s \<lparr> pz_code := c, pz_range := r, pz_probs := m, lz_srcptr := p \<rparr>) \<and> lz_wf s'"

lemma rdonly_refl: "lz_wf s \<Longrightarrow> rdonly s s"
  unfolding rdonly_def by (intro conjI exI[of _ "pz_code s"] exI[of _ "pz_range s"] exI[of _ "pz_probs s"] exI[of _ "lz_srcptr s"]) simp_all

lemma rdonly_trans: "rdonly s t \<Longrightarrow> rdonly t u \<Longrightarrow> rdonly s u"
  unfolding rdonly_def by (elim conjE exE, intro conjI exI) (simp_all)

lemma narrowed:
  assumes "in_interval c bs (off * 256 ^ k + l, w, k)" and "l + w \<le> r * 256 ^ k"
  shows "off \<le> c" and "c < off + r" and "in_interval (c - off) bs (l, w, k)"
proof -
  let ?v = "be_nat (take k bs)"
  have a: "k \<le> length bs" "off * 256 ^ k + l \<le> c * 256 ^ k + ?v" "c * 256 ^ k + ?v < off * 256 ^ k + l + w"
    using assms(1) by (auto simp: in_interval_def)
  have v: "?v < 256 ^ k" using be_nat_less[of "take k bs"] a(1) by (simp add: min_absorb2)
  have "off * 256 ^ k < (c + 1) * 256 ^ k" using a(2) v by simp
  then show o: "off \<le> c" using mult_less_cancel2[of off "256 ^ k" "c + 1"] by simp
  have "c * 256 ^ k < (off + r) * 256 ^ k" using a(3) assms(2) by (simp add: algebra_simps)
  then show "c < off + r" by simp
  have "c * 256 ^ k = off * 256 ^ k + (c - off) * 256 ^ k" using o by (metis add_mult_distrib le_add_diff_inverse)
  then show "in_interval (c - off) bs (l, w, k)" using a by (simp add: in_interval_def)
qed

lemma in_interval_byte:
  assumes "in_interval c bs (l, w, Suc k)"
  shows "\<exists>b r. bs = b # r \<and> in_interval (c * 256 + unat b) r (l, w, k)"
proof (cases bs)
  case (Cons b r)
  then show ?thesis using assms by (auto simp: in_interval_def min_absorb2 algebra_simps)
qed (use assms in \<open>simp add: in_interval_def\<close>)

lemma get_byte_pending:
  assumes "lz_wf s" and "pending s = b # r"
  shows "get_byte s = Some (b, s \<lparr> lz_srcptr := lz_srcptr s + 1 \<rparr>)" and "pending (s \<lparr> lz_srcptr := lz_srcptr s + 1 \<rparr>) = r"
proof -
  let ?i = "lz_srcptr s - in_base s" and ?m = "take (lz_srcend s - in_base s) (in_mem s)"
  have b: "in_base s \<le> lz_srcptr s" using assms(1) by (simp add: lz_wf_def)
  have i: "?i < length ?m" using assms(2) unfolding pending_def by (metis drop_all list.distinct(1) not_le)
  then have "b = ?m ! ?i" "drop (Suc ?i) ?m = r"
    using assms(2) Cons_nth_drop_Suc[OF i] unfolding pending_def by auto
  moreover have "Suc (lz_srcptr s) - in_base s = Suc ?i" using b by simp
  moreover have "\<not> lz_srcend s \<le> lz_srcptr s" using i b by auto
  ultimately show "get_byte s = Some (b, s \<lparr> lz_srcptr := lz_srcptr s + 1 \<rparr>)" "pending (s \<lparr> lz_srcptr := lz_srcptr s + 1 \<rparr>) = r"
    using i b by (simp_all add: get_byte_def rd_def pending_def Let_def)
qed

lemma unat_shift8_or:
  assumes "unat c < 2 ^ 24"
  shows "unat (push_bit 8 c OR ucast (b :: byte) :: u32) = unat c * 256 + unat b"
proof -
  have "push_bit 8 c OR ucast b = push_bit 8 c + (ucast b :: u32)"
    by (rule disjunctive_add[symmetric]) (auto simp: bit_simps dest: bit_imp_le_length)
  moreover have "unat (push_bit 8 c) = unat c * 256"
    using assms by (simp add: push_bit_eq_mult unat_word_ariths)
  moreover have "unat b < 256" using unsigned_less[of b, where ?'a = nat] by simp
  ultimately show ?thesis using assms by (simp add: unat_word_ariths)
qed

text \<open>Normalisation brings in the byte that the scaled interval asks for.\<close>

lemma normalize_feeds:
  assumes "lz_wf s" and "models_ok (pz_probs s)" and "\<forall>d \<in> set ds. valid_dcs d"
    and r: "2 ^ 16 \<le> unat (pz_range s)" and c: "unat (pz_code s) < unat (pz_range s)"
    and e: "enc ds (unat (pz_range s) * 256 ^ shift (unat (pz_range s))) (pz_probs s) = (l, w, k)"
    and i: "in_interval (unat (pz_code s)) (pending s) (l, w, k + shift (unat (pz_range s)))"
  shows "\<exists>s'. normalize s = Some s' \<and> feeds ds s' \<and> rdonly s s'"
proof (cases "unat (pz_range s) < 2 ^ 24")
  case False
  then have "pz_range s > 0x00FFFFFF" by (simp add: word_less_nat_alt)
  then show ?thesis
    using assms False rdonly_refl[OF assms(1)] by (simp add: normalize_def feeds_def shift_def)
next
  case True
  then have gt: "\<not> pz_range s > 0x00FFFFFF" by (simp add: word_less_nat_alt)
  have sh: "shift (unat (pz_range s)) = 1" using True by (simp add: shift_def)
  let ?s = "s \<lparr> pz_range := push_bit 8 (pz_range s) \<rparr>"
  obtain b r' where b: "pending s = b # r'" "in_interval (unat (pz_code s) * 256 + unat b) r' (l, w, k)"
    using in_interval_byte[of "unat (pz_code s)" "pending s" l w k] i sh by auto
  have wf: "lz_wf ?s" "pending ?s = b # r'" using assms(1) b(1) by (simp_all add: lz_wf_def pending_def)
  let ?t = "?s \<lparr> lz_srcptr := lz_srcptr s + 1 \<rparr>"
  have g: "get_byte ?s = Some (b, ?t)" "pending ?t = r'" using get_byte_pending[OF wf] by simp_all
  let ?u = "?t \<lparr> pz_code := push_bit 8 (pz_code s) OR ucast b \<rparr>"
  have n: "normalize s = Some ?u" using gt g(1) by (simp add: normalize_def)
  have ra: "unat (push_bit 8 (pz_range s)) = unat (pz_range s) * 256"
    using True by (simp add: push_bit_eq_mult unat_word_ariths)
  have "unat (push_bit 8 (pz_code s) OR ucast b) = unat (pz_code s) * 256 + unat b"
    by (rule unat_shift8_or) (use c True in linarith)
  then have "feeds ds ?u"
    using assms(2,3) r b(2) e ra sh g(2) by (simp add: feeds_def pending_def)
  moreover have "lz_wf ?u" using normalize_adv[OF assms(1)] n adv_wf by fastforce
  then have "rdonly s ?u" unfolding rdonly_def
    by (intro conjI exI[of _ "push_bit 8 (pz_code s) OR ucast b"] exI[of _ "push_bit 8 (pz_range s)"] exI[of _ "pz_probs s"] exI[of _ "lz_srcptr s + 1"]) simp_all
  ultimately show ?thesis using n by blast
qed

lemma set_prob_fields [simp]:
  "pz_range (set_prob t i p s) = pz_range s" "pz_code (set_prob t i p s) = pz_code s"
  "pz_probs (set_prob t i p s) = (pz_probs s)(t := (pz_probs s t)[i := p])" "pending (set_prob t i p s) = pending s"
  by (simp_all add: set_prob_def pending_def)

lemma pending_fields [simp]:
  "pending (s \<lparr> pz_range := r \<rparr>) = pending s" "pending (s \<lparr> pz_range := r, pz_code := c \<rparr>) = pending s"
  "pending (s \<lparr> pz_code := c \<rparr>) = pending s"
  by (simp_all add: pending_def)

lemma unat_bound:
  assumes "unat p \<le> 2017"
  shows "unat (drop_bit 11 r * (p :: u32)) = (unat r div 2048) * unat p"
proof -
  have d: "unat (drop_bit 11 r) = unat r div 2048" by (simp add: drop_bit_eq_div unat_div)
  have "unat r div 2048 \<le> 2097151" using unsigned_less[of r, where ?'a = nat] by simp
  then have "(unat r div 2048) * unat p \<le> 2097151 * 2017" using assms by (rule mult_le_mono)
  then show ?thesis by (simp add: unat_word_ariths d)
qed

text \<open>A step of the decoder that picks the subinterval \<open>off\<close>, \<open>r1\<close> of a decision.\<close>

lemma pick_feeds:
  assumes wf: "lz_wf s" "feeds (d # ds) s" and n: "narrow d (unat (pz_range s)) (pz_probs s) = (off, r1, m1)"
  shows "off \<le> unat (pz_code s)" and "unat (pz_code s) < off + r1"
    and "lz_wf u \<Longrightarrow> unat (pz_range u) = r1 \<Longrightarrow> unat (pz_code u) = unat (pz_code s) - off \<Longrightarrow> pz_probs u = m1 \<Longrightarrow> pending u = pending s \<Longrightarrow>
      \<exists>s'. normalize u = Some s' \<and> feeds ds s' \<and> rdonly u s'"
proof -
  let ?r = "unat (pz_range s)" and ?c = "unat (pz_code s)"
  have v: "models_ok (pz_probs s)" "valid_dcs d" "\<forall>d \<in> set ds. valid_dcs d" "2 ^ 24 \<le> ?r"
    and i: "in_interval ?c (pending s) (enc (d # ds) ?r (pz_probs s))"
    using wf(2) by (auto simp: feeds_def)
  have r32: "?r < 2 ^ 32" using unsigned_less[of "pz_range s", where ?'a = nat] by simp
  note o = narrow_ok[OF n v(2,1,4) r32]
  have r1: "r1 < 2 ^ 32" using o(3) r32 by linarith
  obtain l w k where e: "enc ds (r1 * 256 ^ shift r1) m1 = (l, w, k)" by (metis prod_cases3)
  have "l + w \<le> r1 * 256 ^ shift r1 * 256 ^ k" using enc_inside[OF e v(3) o(1) shift_range[OF o(2) r1]] by simp
  then have lw: "l + w \<le> r1 * 256 ^ (k + shift r1)" by (simp add: power_add algebra_simps)
  have "in_interval ?c (pending s) (off * 256 ^ (k + shift r1) + l, w, k + shift r1)" using i n e by simp
  note p = narrowed[OF this lw]
  show "off \<le> ?c" "?c < off + r1" by (fact p)+
  show "\<exists>s'. normalize u = Some s' \<and> feeds ds s' \<and> rdonly u s'"
    if "lz_wf u" "unat (pz_range u) = r1" "unat (pz_code u) = ?c - off" "pz_probs u = m1" "pending u = pending s"
    by (rule normalize_feeds[OF that(1) _ v(3)]) (use that o p e in auto)
qed

lemma rdonly_step:
  "rdonly u v \<Longrightarrow> u = s \<lparr> pz_range := r, pz_code := c \<rparr> \<Longrightarrow> rdonly s v"
  "rdonly u v \<Longrightarrow> u = set_prob t i p (s \<lparr> pz_range := r, pz_code := c \<rparr>) \<Longrightarrow> rdonly s v"
  "rdonly u v \<Longrightarrow> u = set_prob t i p (s \<lparr> pz_range := r \<rparr>) \<Longrightarrow> rdonly s v"
  "rdonly u v \<Longrightarrow> u = s \<lparr> pz_range := r \<rparr> \<Longrightarrow> rdonly s v"
  unfolding rdonly_def set_prob_def by (elim conjE exE, intro conjI exI, simp_all)+

lemma dec_bit_feeds:
  assumes "lz_wf s" and "feeds (DBit t i b # ds) s"
  shows "\<exists>s'. dec_bit t i s = Some (of_bool b, s') \<and> feeds ds s' \<and> rdonly s s'"
proof -
  let ?p = "pz_probs s t ! i" and ?W = "drop_bit 11 (pz_range s) * (pz_probs s t ! i)" and ?c = "unat (pz_code s)"
  have i: "i < length (pz_probs s t)" and m: "models_ok (pz_probs s)" using assms(2) by (auto simp: feeds_def models_ok_def)
  have p: "31 \<le> unat ?p" "unat ?p \<le> 2017" using nth_mem[OF i] m unfolding models_ok_def by blast+
  have W: "unat ?W = (unat (pz_range s) div 2048) * unat ?p" by (rule unat_bound[OF p(2)])
  let ?m = "(pz_probs s)(t := (pz_probs s t)[i := adapt b ?p])"
  have n: "narrow (DBit t i b) (unat (pz_range s)) (pz_probs s) =
      (if b then unat ?W else 0, if b then unat (pz_range s) - unat ?W else unat ?W, ?m)"
    by (simp add: Let_def W)
  note pk = pick_feeds[OF assms n]
  show ?thesis
  proof (cases b)
    case False
    then have lt: "pz_code s < ?W" using pk(2) by (simp add: word_less_nat_alt)
    let ?u = "set_prob t i (?p + drop_bit 5 (push_bit 11 1 - ?p)) (s \<lparr> pz_range := ?W \<rparr>)"
    have "lz_wf ?u" using assms(1) by (simp add: lz_wf_def set_prob_def)
    from pk(3)[OF this] obtain s' where s': "normalize ?u = Some s'" "feeds ds s'" "rdonly ?u s'"
      using False by (auto simp: adapt_def)
    then show ?thesis using False lt i rdonly_step(3)[OF s'(3)] by (simp add: dec_bit_def Let_def)
  next
    case True
    then have le: "?W \<le> pz_code s" using pk(1) by (simp add: word_le_nat_alt)
    have "2 ^ 24 \<le> unat (pz_range s)" using assms(2) by (simp add: feeds_def)
    then have "unat ?W \<le> unat (pz_range s)"
      using bound_range(2)[OF _ _ p] unsigned_less[of "pz_range s", where ?'a = nat] W by fastforce
    then have r: "unat (pz_range s - ?W) = unat (pz_range s) - unat ?W" by (simp add: unat_sub word_le_nat_alt)
    let ?u = "set_prob t i (?p - drop_bit 5 ?p) (s \<lparr> pz_range := pz_range s - ?W, pz_code := pz_code s - ?W \<rparr>)"
    have "lz_wf ?u" using assms(1) by (simp add: lz_wf_def set_prob_def)
    from pk(3)[OF this] obtain s' where s': "normalize ?u = Some s'" "feeds ds s'" "rdonly ?u s'"
      using True r le by (auto simp: adapt_def unat_sub)
    then show ?thesis using True le i rdonly_step(2)[OF s'(3)] by (simp add: dec_bit_def Let_def not_less[symmetric])
  qed
qed

section \<open>Operations that read decisions\<close>

text \<open>On a stream that starts with \<open>ds\<close>, the operation returns \<open>r\<close> and leaves the rest of the stream.\<close>

definition decodes :: "dcs list \<Rightarrow> 'a \<Rightarrow> 'a lzop \<Rightarrow> bool" where
  "decodes ds r f \<longleftrightarrow> (\<forall>s es. lz_wf s \<longrightarrow> feeds (ds @ es) s \<longrightarrow> (\<exists>s'. f s = Some (r, s') \<and> rdonly s s' \<and> feeds es s'))"

lemma decodesD:
  assumes "decodes ds r f" and "lz_wf s" and "feeds (ds @ es) s"
  obtains s' where "f s = Some (r, s')" "rdonly s s'" "feeds es s'" "lz_wf s'"
  using assms unfolding decodes_def rdonly_def by blast

lemma decodes_return: "decodes [] r (\<lambda>s. Some (r, s))"
  by (simp add: decodes_def rdonly_refl)

lemma decodes_bind:
  assumes "decodes ds r f" and "decodes es q (g r)"
  shows "decodes (ds @ es) q (\<lambda>s. f s \<bind> (\<lambda>(r, s). g r s))"
  unfolding decodes_def
proof (intro allI impI)
  fix s fs assume s: "lz_wf s" "feeds ((ds @ es) @ fs) s"
  then have "feeds (ds @ es @ fs) s" by simp
  then obtain t where t: "f s = Some (r, t)" "rdonly s t" "feeds (es @ fs) t" "lz_wf t"
    using decodesD[OF assms(1) s(1)] by blast
  obtain u where "g r t = Some (q, u)" "rdonly t u" "feeds fs u" using decodesD[OF assms(2) t(4,3)] by blast
  then show "\<exists>s'. (f s \<bind> (\<lambda>(r, s). g r s)) = Some (q, s') \<and> rdonly s s' \<and> feeds fs s'"
    using t rdonly_trans by auto
qed

lemma decodes_map: "decodes ds r f \<Longrightarrow> decodes ds (h r) (\<lambda>s. f s \<bind> (\<lambda>(r, s). Some (h r, s)))"
  using decodes_bind[of ds r f "[]" "h r" "\<lambda>r s. Some (h r, s)"] by (simp add: decodes_return)

lemma decodes_bit: "decodes [DBit t i b] (of_bool b) (dec_bit t i)"
  unfolding decodes_def using dec_bit_feeds by fastforce

text \<open>Runs of bits, most significant first, appended to a word.\<close>

definition app_bit :: "u32 \<Rightarrow> bool \<Rightarrow> u32" where
  "app_bit a b = push_bit 1 a OR of_bool b"

fun tree_decs :: "tab \<Rightarrow> nat \<Rightarrow> bool list \<Rightarrow> u32 \<Rightarrow> dcs list" where
  "tree_decs t off [] ret = []"
| "tree_decs t off (b # bs) ret = DBit t (off + unat ret) b # tree_decs t off bs (app_bit ret b)"

lemma dec_tree_loop_decodes:
  "unat ret < 2 ^ j \<Longrightarrow> 2 ^ (j + length bs) \<le> 2 * bms \<Longrightarrow> j + length bs \<le> 31 \<Longrightarrow>
   decodes (tree_decs t off bs ret) (Some (foldl app_bit ret bs)) (dec_tree_loop t off bms (length bs) ret)"
proof (induction bs arbitrary: ret j)
  case Nil
  then show ?case using decodes_return by simp
next
  case (Cons b bs)
  have "(2 :: nat) ^ j \<le> 2 ^ (j + length bs)" by (rule power_increasing) auto
  moreover have "2 ^ (j + length bs) \<le> bms" using Cons.prems(2) by simp
  ultimately have lt: "unat ret < bms" using Cons.prems(1) by linarith
  have "(2 :: nat) ^ j \<le> 2 ^ 31" using Cons.prems(3) by (intro power_increasing) auto
  then have "unat (app_bit ret b) = 2 * unat ret + of_bool b"
    using unat_next_bit[of ret "of_bool b"] Cons.prems(1) by (simp add: app_bit_def)
  then have "unat (app_bit ret b) < 2 ^ Suc j" using Cons.prems(1) by (auto simp: of_bool_def)
  from Cons.IH[OF this] Cons.prems(2,3) have
    "decodes (tree_decs t off bs (app_bit ret b)) (Some (foldl app_bit (app_bit ret b) bs)) (dec_tree_loop t off bms (length bs) (app_bit ret b))" by simp
  then have "decodes ([DBit t (off + unat ret) b] @ tree_decs t off bs (app_bit ret b)) (Some (foldl app_bit (app_bit ret b) bs))
      (\<lambda>s. dec_bit t (off + unat ret) s \<bind> (\<lambda>(b, s). dec_tree_loop t off bms (length bs) (push_bit 1 ret OR b) s))"
    by (intro decodes_bind[OF decodes_bit]) (simp add: app_bit_def)
  moreover have "dec_tree_loop t off bms (length (b # bs)) ret =
      (\<lambda>s. dec_bit t (off + unat ret) s \<bind> (\<lambda>(b, s). dec_tree_loop t off bms (length bs) (push_bit 1 ret OR b) s))"
    using lt by (simp add: fun_eq_iff range_check_def)
  ultimately show ?case by simp
qed

text \<open>The \<open>n\<close> low bits of a number.\<close>

fun bits_of :: "nat \<Rightarrow> nat \<Rightarrow> bool list" where
  "bits_of 0 v = []"
| "bits_of (Suc n) v = odd (v div 2 ^ n) # bits_of n v"

lemma length_bits_of [simp]: "length (bits_of n v) = n"
  by (induction n) auto

lemma foldl_bits:
  "unat a < 2 ^ j \<Longrightarrow> j + n \<le> 32 \<Longrightarrow> unat (foldl app_bit a (bits_of n v)) = unat a * 2 ^ n + v mod 2 ^ n"
proof (induction n arbitrary: a j)
  case (Suc n)
  let ?b = "odd (v div 2 ^ n)"
  have "(2 :: nat) ^ j \<le> 2 ^ 31" using Suc.prems(2) by (intro power_increasing) auto
  then have u: "unat (app_bit a ?b) = 2 * unat a + of_bool ?b"
    using unat_next_bit[of a "of_bool ?b"] Suc.prems(1) by (simp add: app_bit_def)
  then have "unat (app_bit a ?b) < 2 ^ Suc j" using Suc.prems(1) by (auto simp: of_bool_def)
  from Suc.IH[OF this] Suc.prems(2) have "unat (foldl app_bit a (bits_of (Suc n) v)) = unat (app_bit a ?b) * 2 ^ n + v mod 2 ^ n"
    by simp
  moreover have "v mod 2 ^ Suc n = of_bool ?b * 2 ^ n + v mod 2 ^ n"
    using mod_mult2_eq[of v "2 ^ n" 2] by (auto simp: mod_2_eq_odd algebra_simps of_bool_def)
  ultimately show ?case using u by (simp add: algebra_simps)
qed simp

lemma word_of_unat: "unat w = v \<Longrightarrow> w = word_of_nat v"
  by (metis of_nat_unat ucast_id)

lemma foldl_tree:
  assumes "n < 31" and "v < 2 ^ n"
  shows "foldl app_bit 1 (bits_of n v) - push_bit n 1 = word_of_nat v"
proof -
  have u: "unat (foldl app_bit 1 (bits_of n v)) = 2 ^ n + v" using foldl_bits[of 1 1 n v] assms by simp
  have p: "unat (push_bit n (1 :: u32)) = 2 ^ n" by (rule unat_push_one) (use assms(1) in simp)
  then have "push_bit n 1 \<le> foldl app_bit 1 (bits_of n v)" using u by (simp add: word_le_nat_alt)
  then have "unat (foldl app_bit 1 (bits_of n v) - push_bit n 1) = v" using u p by (simp add: unat_sub)
  then show ?thesis by (rule word_of_unat)
qed

lemma dec_tree_decodes:
  assumes "v < 2 ^ n" and "2 ^ n \<le> bms" and "n < 31"
  shows "decodes (tree_decs t off (bits_of n v) 1) (word_of_nat v) (dec_tree t off bms n)"
proof -
  have "decodes (tree_decs t off (bits_of n v) 1) (Some (foldl app_bit 1 (bits_of n v))) (dec_tree_loop t off bms n 1)"
    using dec_tree_loop_decodes[of 1 1 "bits_of n v" bms t off] assms(2,3) by simp
  from decodes_map[OF this, of "\<lambda>ret. case ret of None \<Rightarrow> 0 | Some ret \<Rightarrow> ret - push_bit n 1"] show ?thesis
    using foldl_tree[OF assms(3,1)] by (simp add: dec_tree_def[abs_def])
qed

section \<open>Reversed trees, direct bits and matched literals\<close>

lemma bits_of_last: "bits_of (Suc n) v = bits_of n (v div 2) @ [odd v]"
  by (induction n) (simp_all add: div_mult2_eq[symmetric])

lemma app_bit_word: "push_bit 1 ret OR (sy AND 1) = app_bit ret (odd sy)" for sy :: u32
  by (cases "odd sy") (simp_all add: app_bit_def and_one_eq mod_2_eq_odd)

lemma rev_bits_foldl:
  "v < 2 ^ 32 \<Longrightarrow> rev_bits n (word_of_nat v) ret = foldl app_bit ret (rev (bits_of n v))"
proof (induction n arbitrary: v ret)
  case (Suc n)
  have "unat (word_of_nat v :: u32) = v" using Suc.prems by (simp add: unsigned_of_nat take_bit_nat_eq_self)
  then have "drop_bit 1 (word_of_nat v :: u32) = word_of_nat (v div 2)"
    by (intro word_of_unat) (simp add: drop_bit_eq_div unat_div)
  moreover have "odd (word_of_nat v :: u32) = odd v" by simp
  ultimately show ?case using Suc.IH[of "v div 2" "app_bit ret (odd v)"] Suc.prems
    by (simp only: rev_bits.simps app_bit_word bits_of_last rev_append rev.simps append_Nil append_Cons foldl_Cons)
qed simp

text \<open>The number a list of bits spells.\<close>

fun val_of :: "bool list \<Rightarrow> nat" where
  "val_of [] = 0"
| "val_of (b # bs) = of_bool b * 2 ^ length bs + val_of bs"

lemma val_of_less: "val_of bs < 2 ^ length bs"
  by (induction bs) (auto simp: of_bool_def)

lemma bits_of_mod: "bits_of n (c * 2 ^ n + v) = bits_of n v"
proof (induction n arbitrary: c)
  case (Suc n)
  have "c * 2 ^ Suc n + v = v + 2 * c * 2 ^ n" by (simp add: algebra_simps)
  then have "(c * 2 ^ Suc n + v) div 2 ^ n = 2 * c + v div 2 ^ n" by (metis div_mult_self1 power_not_zero zero_neq_numeral add.commute)
  then have "odd ((c * 2 ^ Suc n + v) div 2 ^ n) = odd (v div 2 ^ n)" by simp
  then show ?case using Suc.IH[of "2 * c"] by (simp add: algebra_simps)
qed simp

lemma bits_of_val: "bits_of (length bs) (val_of bs) = bs"
proof (induction bs)
  case (Cons b bs)
  have "(of_bool b * 2 ^ length bs + val_of bs) div 2 ^ length bs = of_bool b"
    using val_of_less[of bs] by (simp add: div_add1_eq)
  then show ?case using Cons.IH bits_of_mod[of "length bs" "of_bool b" "val_of bs"] by (cases b) simp_all
qed simp

definition rtree_decs :: "tab \<Rightarrow> nat \<Rightarrow> nat \<Rightarrow> nat \<Rightarrow> dcs list" where
  "rtree_decs t off n v = tree_decs t off (rev (bits_of n v)) 1"

lemma dec_rtree_decodes:
  assumes "v < 2 ^ n" and "2 ^ n \<le> bms" and "n < 31"
  shows "decodes (rtree_decs t off n v) (word_of_nat v) (dec_rtree t off bms n)"
proof -
  let ?u = "val_of (rev (bits_of n v))"
  have u: "?u < 2 ^ n" "bits_of n ?u = rev (bits_of n v)"
    using val_of_less[of "rev (bits_of n v)"] bits_of_val[of "rev (bits_of n v)"] by simp_all
  have "decodes (rtree_decs t off n v) (word_of_nat ?u) (dec_tree t off bms n)"
    using dec_tree_decodes[OF u(1) assms(2,3), of t off] u(2) by (simp add: rtree_decs_def)
  from decodes_map[OF this, of "\<lambda>sy. rev_bits n sy 0"] have
    "decodes (rtree_decs t off n v) (rev_bits n (word_of_nat ?u) 0) (dec_rtree t off bms n)"
    by (simp add: dec_rtree_def[abs_def])
  moreover have "(2 :: nat) ^ n \<le> 2 ^ 32" using assms(3) by (intro power_increasing) auto
  then have "rev_bits n (word_of_nat ?u) 0 = foldl app_bit 0 (bits_of n v)"
    using rev_bits_foldl[of ?u n 0] u by simp
  moreover have "unat (foldl app_bit 0 (bits_of n v)) = v" using foldl_bits[of 0 0 n v] assms by simp
  then have "foldl app_bit 0 (bits_of n v) = word_of_nat v" by (rule word_of_unat)
  ultimately show ?thesis by simp
qed

lemma dec_direct_loop_decodes: "decodes (map DDir bs) (foldl app_bit ret bs) (dec_direct_loop (length bs) ret)"
proof (induction bs arbitrary: ret)
  case Nil
  then show ?case using decodes_return by simp
next
  case (Cons b bs)
  show ?case
    unfolding decodes_def
  proof (intro allI impI)
    fix s es assume s: "lz_wf s" "feeds (map DDir (b # bs) @ es) s"
    let ?r = "drop_bit 1 (pz_range s)"
    have r: "unat ?r = unat (pz_range s) div 2" by (simp add: drop_bit_eq_div unat_div)
    have n: "narrow (DDir b) (unat (pz_range s)) (pz_probs s) = (if b then unat ?r else 0, unat ?r, pz_probs s)"
      using r by simp
    note pk = pick_feeds[OF s(1) s(2)[unfolded list.map append_Cons] n]
    define u where "u = (if b then s \<lparr> pz_range := ?r, pz_code := pz_code s - ?r \<rparr> else s \<lparr> pz_range := ?r \<rparr>)"
    have le: "b \<longleftrightarrow> ?r \<le> pz_code s" using pk(1,2) by (cases b) (simp_all add: word_le_nat_alt)
    have "lz_wf u" using s(1) by (simp add: u_def lz_wf_def)
    from pk(3)[OF this] obtain t where t: "normalize u = Some t" "feeds (map DDir bs @ es) t" "rdonly u t"
      using le by (auto simp: u_def unat_sub)
    have rt: "rdonly s t" using rdonly_step(1,4)[OF t(3)] unfolding u_def by (cases b) (metis (full_types))+
    have "lz_wf t" using rt by (simp add: rdonly_def)
    from decodesD[OF Cons.IH this t(2)] obtain v where
      v: "dec_direct_loop (length bs) (app_bit ret b) t = Some (foldl app_bit (app_bit ret b) bs, v)" "rdonly t v" "feeds es v" by blast
    have "dec_direct_loop (length (b # bs)) ret s = Some (foldl app_bit ret (b # bs), v)"
      using t(1) v(1) le by (cases b) (simp_all add: u_def app_bit_def Let_def)
    then show "\<exists>s'. dec_direct_loop (length (b # bs)) ret s = Some (foldl app_bit ret (b # bs), s') \<and> rdonly s s' \<and> feeds es s'"
      using rdonly_trans[OF rt v(2)] v(3) by blast
  qed
qed

definition direct_decs :: "nat \<Rightarrow> nat \<Rightarrow> dcs list" where
  "direct_decs n v = map DDir (bits_of n v)"

lemma dec_direct_decodes:
  assumes "v < 2 ^ n" and "n \<le> 32"
  shows "decodes (direct_decs n v) (word_of_nat v) (dec_direct n)"
proof -
  have "unat (foldl app_bit 0 (bits_of n v)) = v" using foldl_bits[of 0 0 n v] assms by simp
  then have "foldl app_bit 0 (bits_of n v) = word_of_nat v" by (rule word_of_unat)
  then show ?thesis using dec_direct_loop_decodes[of "bits_of n v" 0] by (simp add: direct_decs_def dec_direct_def)
qed

end
