(* ===== verification/Lzma_Code.thy ===== *)
theory Lzma_Code
  imports Lzma_Range
begin

text \<open>
  The symbols of LZMA as decisions: literals, with or without a byte to compare with, lengths, and
  distances.  For each of them, the code that reads it returns the number it was made from.
\<close>

section \<open>Matched literals\<close>

fun match_decs :: "tab \<Rightarrow> nat \<Rightarrow> u32 \<Rightarrow> bool list \<Rightarrow> u32 \<Rightarrow> dcs list" where
  "match_decs t off mb [] ret = []"
| "match_decs t off mb (b # bs) ret =
     (let m = drop_bit (length bs) mb AND 1
      in DBit t (off + unat (ret + push_bit 8 m + 0x100)) b #
         (if m = of_bool b then match_decs t off mb bs (app_bit ret b) else tree_decs t off bs (app_bit ret b)))"

text \<open>An index with \<open>j\<close> bits after its leading one.\<close>

lemma app_bit_index:
  assumes "2 ^ j \<le> unat ret" and "unat ret < 2 ^ Suc j" and "j < 30"
  shows "2 ^ Suc j \<le> unat (app_bit ret b)" and "unat (app_bit ret b) < 2 ^ Suc (Suc j)"
proof -
  have "(2 :: nat) ^ Suc j \<le> 2 ^ 31" using assms(3) by (intro power_increasing) auto
  then have "unat (app_bit ret b) = 2 * unat ret + of_bool b"
    using unat_next_bit[of ret "of_bool b"] assms(2) by (simp add: app_bit_def)
  then show "2 ^ Suc j \<le> unat (app_bit ret b)" "unat (app_bit ret b) < 2 ^ Suc (Suc j)"
    using assms(1,2) by (auto simp: of_bool_def)
qed

lemma dec_match_rest_decodes:
  "2 ^ j \<le> unat ret \<Longrightarrow> unat ret < 2 ^ Suc j \<Longrightarrow> j + length bs = 8 \<Longrightarrow>
   decodes (tree_decs t off bs ret) (foldl app_bit ret bs) (dec_match_rest t off 768 ret)"
proof (induction bs arbitrary: ret j)
  case Nil
  then have "\<not> ret < 0x100" by (simp add: word_less_nat_alt)
  then have "dec_match_rest t off 768 ret = (\<lambda>s. Some (ret, s))"
    by (subst dec_match_rest.simps[abs_def]) (simp add: fun_eq_iff)
  then show ?case using decodes_return by simp
next
  case (Cons b bs)
  have "(2 :: nat) ^ Suc j \<le> 2 ^ 8" using Cons.prems(3) by (intro power_increasing) auto
  then have l: "unat ret < 256" using Cons.prems(2) by simp
  have j: "j < 30" "Suc j + length bs = 8" using Cons.prems(3) by auto
  have "decodes (tree_decs t off bs (app_bit ret b)) (foldl app_bit (app_bit ret b) bs) (dec_match_rest t off 768 (app_bit ret b))"
    by (rule Cons.IH[OF app_bit_index[OF Cons.prems(1,2) j(1)] j(2)])
  then have "decodes ([DBit t (off + unat ret) b] @ tree_decs t off bs (app_bit ret b)) (foldl app_bit (app_bit ret b) bs)
      (\<lambda>s. dec_bit t (off + unat ret) s \<bind> (\<lambda>(b, s). dec_match_rest t off 768 (push_bit 1 ret OR b) s))"
    by (intro decodes_bind[OF decodes_bit]) (simp add: app_bit_def)
  moreover have "ret < 0x100" using l by (simp add: word_less_nat_alt)
  then have "dec_match_rest t off 768 ret =
      (\<lambda>s. dec_bit t (off + unat ret) s \<bind> (\<lambda>(b, s). dec_match_rest t off 768 (push_bit 1 ret OR b) s))"
    using l by (subst dec_match_rest.simps[abs_def]) (simp add: fun_eq_iff range_check_def)
  ultimately show ?case by simp
qed

lemma dec_match_loop_decodes:
  "2 ^ j \<le> unat ret \<Longrightarrow> unat ret < 2 ^ Suc j \<Longrightarrow> j + length bs = 8 \<Longrightarrow>
   decodes (match_decs t off mb bs ret) (foldl app_bit ret bs) (dec_match_loop t off 768 mb (length bs) ret)"
proof (induction bs arbitrary: ret j)
  case Nil
  then show ?case using decodes_return by simp
next
  case (Cons b bs)
  let ?m = "drop_bit (length bs) mb AND 1"
  let ?o = "ret + push_bit 8 ?m + 0x100"
  have "(2 :: nat) ^ Suc j \<le> 2 ^ 8" using Cons.prems(3) by (intro power_increasing) auto
  then have l: "unat ret < 256" using Cons.prems(2) by simp
  have o: "unat ?o < 768" using unat_match_index[OF l, of ?m] and_one_cases[of "drop_bit (length bs) mb"] l by auto
  have j: "j < 30" "Suc j + length bs = 8" using Cons.prems(3) by auto
  note ix = app_bit_index[OF Cons.prems(1,2) j(1), of b]
  define rest where "rest = (\<lambda>bb s. if ?m = bb then dec_match_loop t off 768 mb (length bs) (push_bit 1 ret OR bb) s
    else dec_match_rest t off 768 (push_bit 1 ret OR bb) s)"
  have "decodes (if ?m = of_bool b then match_decs t off mb bs (app_bit ret b) else tree_decs t off bs (app_bit ret b))
      (foldl app_bit (app_bit ret b) bs) (rest (of_bool b))"
  proof -
    have "rest (of_bool b) = (if ?m = of_bool b then dec_match_loop t off 768 mb (length bs) (app_bit ret b)
        else dec_match_rest t off 768 (app_bit ret b))" by (simp only: rest_def app_bit_def) (simp only: fun_eq_iff split: if_split, simp)
    then show ?thesis using Cons.IH[OF ix j(2)] dec_match_rest_decodes[OF ix j(2), of t off] by simp
  qed
  from decodes_bind[OF decodes_bit[of t "off + unat ?o" b], of _ _ rest, OF this]
  have "decodes (match_decs t off mb (b # bs) ret) (foldl app_bit ret (b # bs)) (\<lambda>s. dec_bit t (off + unat ?o) s \<bind> (\<lambda>(b, s). rest b s))"
    by (simp add: Let_def)
  moreover have "dec_match_loop t off 768 mb (length (b # bs)) ret = (\<lambda>s. dec_bit t (off + unat ?o) s \<bind> (\<lambda>(b, s). rest b s))"
    unfolding list.size add_Suc_right add_0_right dec_match_loop.simps[abs_def] Let_def range_check_def if_P[OF o] prod.case rest_def by simp
  ultimately show ?case by simp
qed

lemma byte_of_tree:
  assumes "v < 256"
  shows "foldl app_bit 1 (bits_of 8 v) AND 0xFF = word_of_nat v"
proof (rule word_of_unat)
  have "unat (foldl app_bit 1 (bits_of 8 v)) = 256 + v" using foldl_bits[of 1 1 8 v] assms by simp
  moreover have "x AND 0xFF = take_bit 8 x" for x :: u32 by (simp add: take_bit_eq_mask mask_eq_exp_minus_1)
  ultimately show "unat (foldl app_bit 1 (bits_of 8 v) AND 0xFF) = v"
    using assms by (simp add: take_bit_eq_mod unat_mod)
qed

lemma dec_match_decodes:
  assumes "v < 256"
  shows "decodes (match_decs t off mb (bits_of 8 v) 1) (word_of_nat v) (dec_match t off 768 mb)"
proof -
  have "decodes (match_decs t off mb (bits_of 8 v) 1) (foldl app_bit 1 (bits_of 8 v)) (dec_match_loop t off 768 mb 8 1)"
    using dec_match_loop_decodes[of 0 1 "bits_of 8 v" t off mb] by simp
  from decodes_map[OF this, of "\<lambda>ret. ret AND 0xFF"] show ?thesis
    using byte_of_tree[OF assms] by (simp add: dec_match_def[abs_def])
qed

section \<open>Lengths\<close>

definition length_decs :: "lenmodel \<Rightarrow> nat \<Rightarrow> nat \<Rightarrow> dcs list" where
  "length_decs lm p n =
     (if n < 8 then [DBit (Choice1 lm) 0 False] @ tree_decs (Low lm) (8 * p) (bits_of 3 n) 1
      else if n < 16 then [DBit (Choice1 lm) 0 True] @ [DBit (Choice2 lm) 0 False] @ tree_decs (Mid lm) (8 * p) (bits_of 3 (n - 8)) 1
      else [DBit (Choice1 lm) 0 True] @ [DBit (Choice2 lm) 0 True] @ tree_decs (High lm) 0 (bits_of 8 (n - 16)) 1)"

lemma word_of_nat_add_diff: "k \<le> n \<Longrightarrow> (word_of_nat k :: u32) + word_of_nat (n - k) = word_of_nat n"
  by (metis le_add_diff_inverse of_nat_add)

lemma dec_length_decodes:
  assumes "n \<le> 271"
  shows "decodes (length_decs lm p n) (word_of_nat n) (dec_length lm p)"
proof -
  let ?hi = "\<lambda>s. dec_tree (High lm) 0 256 8 s \<bind> (\<lambda>(n, s). Some (push_bit 3 1 + push_bit 3 1 + n, s))"
  let ?mid = "\<lambda>s. dec_tree (Mid lm) (8 * p) 8 3 s \<bind> (\<lambda>(n, s). Some (push_bit 3 1 + n, s))"
  let ?c2 = "\<lambda>s. dec_bit (Choice2 lm) 0 s \<bind> (\<lambda>(b, s). if b = 0 then ?mid s else ?hi s)"
  have eq: "dec_length lm p = (\<lambda>s. dec_bit (Choice1 lm) 0 s \<bind> (\<lambda>(b, s). if b = 0 then dec_tree (Low lm) (8 * p) 8 3 s else ?c2 s))"
    by (simp add: dec_length_def[abs_def])
  consider "n < 8" | "8 \<le> n" "n < 16" | "16 \<le> n" by linarith
  then show ?thesis
  proof cases
    case 1
    then show ?thesis unfolding eq length_decs_def if_P[OF 1]
      by (intro decodes_bind[OF decodes_bit]) (simp add: dec_tree_decodes)
  next
    case 2
    have "decodes (tree_decs (Mid lm) (8 * p) (bits_of 3 (n - 8)) 1) (push_bit 3 1 + word_of_nat (n - 8)) ?mid"
      by (rule decodes_map[OF dec_tree_decodes]) (use 2 in auto)
    moreover have "push_bit 3 1 + word_of_nat (n - 8) = (word_of_nat n :: u32)"
      using word_of_nat_add_diff[of 8 n] 2 by simp
    ultimately have m: "decodes (tree_decs (Mid lm) (8 * p) (bits_of 3 (n - 8)) 1) (word_of_nat n) ?mid" by simp
    have "decodes ([DBit (Choice2 lm) 0 False] @ tree_decs (Mid lm) (8 * p) (bits_of 3 (n - 8)) 1) (word_of_nat n) ?c2"
      by (intro decodes_bind[OF decodes_bit]) (use m in simp)
    then show ?thesis unfolding eq length_decs_def using 2
      by (simp only: if_False if_True not_less[symmetric]) (intro decodes_bind[OF decodes_bit], simp)
  next
    case 3
    have "decodes (tree_decs (High lm) 0 (bits_of 8 (n - 16)) 1) (push_bit 3 1 + push_bit 3 1 + word_of_nat (n - 16)) ?hi"
      by (rule decodes_map[OF dec_tree_decodes]) (use 3 assms in auto)
    moreover have "push_bit 3 1 + push_bit 3 1 + word_of_nat (n - 16) = (word_of_nat n :: u32)"
      using word_of_nat_add_diff[of 16 n] 3 by simp
    ultimately have m: "decodes (tree_decs (High lm) 0 (bits_of 8 (n - 16)) 1) (word_of_nat n) ?hi" by simp
    have "decodes ([DBit (Choice2 lm) 0 True] @ tree_decs (High lm) 0 (bits_of 8 (n - 16)) 1) (word_of_nat n) ?c2"
      by (intro decodes_bind[OF decodes_bit]) (use m in simp)
    moreover have "\<not> n < 8" "\<not> n < 16" using 3 by auto
    ultimately show ?thesis unfolding eq length_decs_def
      by (simp only: if_False) (intro decodes_bind[OF decodes_bit], simp)
  qed
qed

section \<open>Distances\<close>

fun log2 :: "nat \<Rightarrow> nat" where
  "log2 d = (if d < 2 then 0 else Suc (log2 (d div 2)))"

declare log2.simps [simp del]

lemma log2_bounds: "0 < d \<Longrightarrow> 2 ^ log2 d \<le> d \<and> d < 2 ^ Suc (log2 d)"
proof (induction d rule: log2.induct)
  case (1 d)
  show ?case
  proof (cases "d < 2")
    case True
    then show ?thesis using 1(2) by (subst (1 2) log2.simps) auto
  next
    case False
    then have "2 ^ log2 (d div 2) \<le> d div 2 \<and> d div 2 < 2 ^ Suc (log2 (d div 2))" using 1 by simp
    then show ?thesis using False by (subst (1 2) log2.simps) auto
  qed
qed

definition slot_of :: "nat \<Rightarrow> nat" where
  "slot_of d = (if d < 4 then d else 2 * log2 d + (d div 2 ^ (log2 d - 1)) mod 2)"

definition slot_limit :: "nat \<Rightarrow> nat" where
  "slot_limit slot = slot div 2 - 1"

definition slot_base :: "nat \<Rightarrow> nat" where
  "slot_base slot = (2 + slot mod 2) * 2 ^ slot_limit slot"

definition dist_decs :: "nat \<Rightarrow> dcs list" where
  "dist_decs d =
     (let slot = slot_of d; limit = slot_limit slot; base = slot_base slot; rest = d - base
      in if slot < 4 then []
         else if slot < 14 then rtree_decs Dispec (base - slot) limit rest
         else direct_decs (limit - 4) (rest div 16) @ rtree_decs Align 0 4 (rest mod 16))"

lemma slot_facts:
  assumes "4 \<le> d" and "d < 2 ^ 32"
  defines "slot \<equiv> slot_of d"
  shows "4 \<le> slot" and "slot < 64" and "slot_base slot \<le> d" and "d - slot_base slot < 2 ^ slot_limit slot"
    and "slot_limit slot \<le> 30"
proof -
  let ?n = "log2 d"
  have b: "2 ^ ?n \<le> d" "d < 2 ^ Suc ?n" using log2_bounds[of d] assms(1) by auto
  have n2: "2 \<le> ?n"
  proof (rule ccontr)
    assume "\<not> 2 \<le> ?n"
    then have "(2 :: nat) ^ Suc ?n \<le> 2 ^ 2" by (intro power_increasing) auto
    then show False using b(2) assms(1) by simp
  qed
  have n31: "?n \<le> 31"
  proof (rule ccontr)
    assume "\<not> ?n \<le> 31"
    then have "(2 :: nat) ^ 32 \<le> 2 ^ ?n" by (intro power_increasing) auto
    then show False using b(1) assms(2) by simp
  qed
  obtain m where m: "?n = Suc m" using n2 by (cases ?n) auto
  let ?q = "d div 2 ^ m"
  have q: "2 \<le> ?q" "?q < 4" using b m by (auto simp: less_eq_div_iff_mult_less_eq div_less_iff_less_mult)
  have slot: "slot = 2 * Suc m + ?q mod 2" using assms(1) m by (simp add: slot_def slot_of_def)
  have lim: "slot_limit slot = m" using slot by (simp add: slot_limit_def)
  have "2 + ?q mod 2 = ?q" proof -
    have "?q = 2 \<or> ?q = 3" using q by linarith
    then show ?thesis by (elim disjE) simp_all
  qed
  then have base: "slot_base slot = ?q * 2 ^ m" using slot lim by (simp add: slot_base_def)
  show "slot_base slot \<le> d" unfolding base by simp
  have "d - slot_base slot = d mod 2 ^ m" unfolding base by (simp add: minus_div_mult_eq_mod)
  then show "d - slot_base slot < 2 ^ slot_limit slot" unfolding lim by simp
  show "4 \<le> slot" "slot < 64" "slot_limit slot \<le> 30" using slot n2 n31 m lim by auto
qed

lemma or_low:
  assumes "unat (y :: u32) < 2 ^ k"
  shows "push_bit k x OR y = push_bit k x + y"
proof -
  have "take_bit k y = y" using assms by (simp add: word_unat_eq_iff unsigned_take_bit_eq take_bit_nat_eq_self)
  then have "bit y n \<Longrightarrow> n < k" for n by (metis bit_take_bit_iff)
  then have "\<not> bit (push_bit k x) n \<or> \<not> bit y n" for n by (auto simp: bit_simps not_less dest: leD)
  then show ?thesis by (intro disjunctive_add[symmetric]) blast
qed

lemma word_and_one: "(word_of_nat n :: u32) AND 1 = word_of_nat (n mod 2)"
  by (simp add: and_one_eq mod_2_eq_odd)

lemma base_word: "push_bit (slot_limit slot) (2 + ((word_of_nat slot :: u32) AND 1)) = word_of_nat (slot_base slot)"
  unfolding slot_base_def word_and_one push_bit_eq_mult by (simp add: distrib_right)

lemma unat_small: "n < 2 ^ 32 \<Longrightarrow> unat (word_of_nat n :: u32) = n"
  by (simp add: unsigned_of_nat take_bit_nat_eq_self)

lemma slot_limit_word: "slot < 64 \<Longrightarrow> unat (drop_bit 1 (word_of_nat slot :: u32)) - 1 = slot_limit slot"
  using unat_small[of slot] by (simp add: slot_limit_def drop_bit_eq_div unat_div)

text \<open>A long distance: direct bits and the low four bits.\<close>

lemma long_distance_word:
  assumes "4 \<le> limit" and "rest < 2 ^ limit" and "limit \<le> 30"
  shows "push_bit limit x OR push_bit 4 (word_of_nat (rest div 16)) OR word_of_nat (rest mod 16) = push_bit limit x + (word_of_nat rest :: u32)"
proof -
  let ?a = "push_bit limit x" and ?d = "push_bit 4 (word_of_nat (rest div 16)) :: u32" and ?y = "word_of_nat (rest mod 16) :: u32"
  have "(2 :: nat) ^ limit \<le> 2 ^ 30" using assms(3) by (rule power_increasing) simp
  then have rest: "rest < 2 ^ 30" using assms(2) by linarith
  have d: "?d = word_of_nat (rest div 16 * 16)" by (simp add: push_bit_eq_mult)
  have "unat ?d = rest div 16 * 16" unfolding d by (rule unat_small) (use rest times_div_less_eq_dividend[of 16 rest] in simp)
  then have ad: "?a OR ?d = ?a + ?d" using assms(2) by (intro or_low) linarith
  define z where "z = push_bit (limit - 4) x + word_of_nat (rest div 16)"
  have z: "?a + ?d = push_bit 4 z" using assms(1) by (simp add: z_def push_bit_add)
  have "unat ?y < 2 ^ 4" using unat_small[of "rest mod 16"] by simp
  from or_low[OF this, of z] have "(?a OR ?d) OR ?y = ?a + ?d + ?y" unfolding ad z .
  then have "?a OR ?d OR ?y = ?a + ?d + ?y" by (simp only: or.assoc)
  also have "?d + ?y = word_of_nat (rest div 16 * 16 + rest mod 16)" unfolding d by (simp only: of_nat_add)
  then have "?a + ?d + ?y = ?a + word_of_nat rest" by (simp only: add.assoc div_mult_mod_eq)
  finally show ?thesis .
qed

lemma long_distance_decodes:
  assumes "4 \<le> d" and "d < 2 ^ 32" and "14 \<le> slot_of d"
  defines "limit \<equiv> slot_limit (slot_of d)"
  shows "decodes (dist_decs d) (word_of_nat d) (\<lambda>s. do { (dbits, s) \<leftarrow> dec_direct (limit - 4) s; (rtree, s) \<leftarrow> dec_rtree Align 0 16 4 s;
    Some (word_of_nat (slot_base (slot_of d)) OR push_bit 4 dbits OR rtree, s) })"
proof -
  note f = slot_facts[OF assms(1,2)]
  let ?rest = "d - slot_base (slot_of d)"
  have lim: "6 \<le> limit" using assms(3) by (simp add: limit_def slot_limit_def)
  have rest: "?rest < 2 ^ limit" using f(4) by (simp add: limit_def)
  have "?rest div 16 < 2 ^ (limit - 4)"
    using rest lim power_add[of "2 :: nat" "limit - 4" 4] by (simp add: div_less_iff_less_mult)
  then have a: "decodes (direct_decs (limit - 4) (?rest div 16)) (word_of_nat (?rest div 16)) (dec_direct (limit - 4))"
    by (rule dec_direct_decodes) (use f(5) in \<open>simp add: limit_def\<close>)
  have b: "decodes (rtree_decs Align 0 4 (?rest mod 16)) (word_of_nat (?rest mod 16)) (dec_rtree Align 0 16 4)"
    by (rule dec_rtree_decodes) auto
  have w: "word_of_nat (slot_base (slot_of d)) OR push_bit 4 (word_of_nat (?rest div 16)) OR word_of_nat (?rest mod 16) = (word_of_nat d :: u32)"
    using long_distance_word[of limit ?rest "2 + (word_of_nat (slot_of d) AND 1)"] lim rest f(3,5) base_word[of "slot_of d"]
      word_of_nat_add_diff[of "slot_base (slot_of d)" d] by (simp add: limit_def)
  have "decodes (direct_decs (limit - 4) (?rest div 16) @ rtree_decs Align 0 4 (?rest mod 16)) (word_of_nat d) (\<lambda>s. do {
    (dbits, s) \<leftarrow> dec_direct (limit - 4) s; (rtree, s) \<leftarrow> dec_rtree Align 0 16 4 s;
    Some (word_of_nat (slot_base (slot_of d)) OR push_bit 4 dbits OR rtree, s) })"
    unfolding w[symmetric] by (intro decodes_bind[OF a] decodes_map[OF b])
  then show ?thesis using assms(3) by (simp add: dist_decs_def Let_def limit_def)
qed

lemma short_distance_word:
  assumes "4 \<le> slot" and "slot < 14"
  shows "slot \<le> slot_base slot" and "slot_base slot < 115 + slot" and "2 ^ slot_limit slot \<le> 115 - (slot_base slot - slot)"
proof -
  have "slot = 4 \<or> slot = 5 \<or> slot = 6 \<or> slot = 7 \<or> slot = 8 \<or> slot = 9 \<or> slot = 10 \<or> slot = 11 \<or> slot = 12 \<or> slot = 13"
    using assms by presburger
  then have "slot \<le> slot_base slot \<and> slot_base slot < 115 + slot \<and> 2 ^ slot_limit slot \<le> 115 - (slot_base slot - slot)"
    unfolding slot_base_def slot_limit_def by (elim disjE) simp_all
  then show "slot \<le> slot_base slot" "slot_base slot < 115 + slot" "2 ^ slot_limit slot \<le> 115 - (slot_base slot - slot)" by auto
qed

text \<open>The end of \<open>dec_distance\<close> for long distances.\<close>

definition dist_end :: "u32 \<Rightarrow> u32 \<Rightarrow> (int + u32) lzop" where
  "dist_end len rep s = (if rep = 0xFFFFFFFF then
       (case state_error (if len \<noteq> 2 then LZMA_RANGE_CHECK else LZMA_STREAM_END) s of (st, s) \<Rightarrow> Some (Inl st, s))
     else Some (Inr rep, s))"

definition long_distance :: "nat \<Rightarrow> u32 lzop" where
  "long_distance slot s = do { (dbits, s) \<leftarrow> dec_direct (slot_limit slot - 4) s; (rtree, s) \<leftarrow> dec_rtree Align 0 16 4 s;
     Some (word_of_nat (slot_base slot) OR push_bit 4 dbits OR rtree, s) }"

lemma dec_distance_long:
  assumes "14 \<le> slot" and "slot < 64"
  shows "dec_distance len (word_of_nat slot) s = long_distance slot s \<bind> (\<lambda>(rep, s). dist_end len rep s)"
proof -
  have "unat (word_of_nat slot :: u32) = slot" by (rule unat_small) (use assms(2) in simp)
  then have lt: "\<not> (word_of_nat slot :: u32) < 14" using assms(1) by (simp add: word_less_nat_alt)
  show ?thesis
  proof (cases "dec_direct (slot_limit slot - 4) s")
    case (Some bt)
    show ?thesis
      unfolding dec_distance_def long_distance_def slot_limit_word[OF assms(2)] base_word Let_def if_not_P[OF lt] dist_end_def Some bind.simps
      by (cases bt; cases "dec_rtree Align 0 16 4 (snd bt)") auto
  qed (simp only: dec_distance_def long_distance_def slot_limit_word[OF assms(2)] base_word Let_def if_not_P[OF lt] bind.simps)
qed

lemma dec_distance_decodes:
  assumes "4 \<le> d" and "d < 2 ^ 32 - 1"
  shows "decodes (dist_decs d) (Inr (word_of_nat d)) (dec_distance len (word_of_nat (slot_of d)))"
proof -
  let ?slot = "slot_of d" and ?base = "slot_base (slot_of d)" and ?limit = "slot_limit (slot_of d)"
  let ?w = "word_of_nat ?slot :: u32"
  have d32: "d < 2 ^ 32" using assms(2) by simp
  note f = slot_facts[OF assms(1) d32]
  have u: "unat ?w = ?slot" by (rule unat_small) (use f(2) in simp)
  have add: "word_of_nat ?base + word_of_nat (d - ?base) = (word_of_nat d :: u32)" by (rule word_of_nat_add_diff[OF f(3)])
  show ?thesis
  proof (cases "?slot < 14")
    case True
    note s = short_distance_word[OF f(1) True]
    have lt: "?w < 14" using True u by (simp add: word_less_nat_alt)
    have off: "word_of_nat ?base - ?w = (word_of_nat (?base - ?slot) :: u32)" using s(1) by (simp add: of_nat_diff)
    have uo: "unat (word_of_nat (?base - ?slot) :: u32) = ?base - ?slot" by (rule unat_small) (use s(2) in simp)
    have "?base - ?slot \<le> 115" using s(2) by linarith
    then have "(115 :: u32) - word_of_nat (?base - ?slot) = word_of_nat (115 - (?base - ?slot))" by (simp add: of_nat_diff)
    moreover have "unat (word_of_nat (115 - (?base - ?slot)) :: u32) = 115 - (?base - ?slot)" by (rule unat_small) simp
    ultimately have ub: "unat ((115 :: u32) - word_of_nat (?base - ?slot)) = 115 - (?base - ?slot)" by simp
    have in_r: "?base - ?slot < 115" using s(2) by linarith
    have "decodes (rtree_decs Dispec (?base - ?slot) ?limit (d - ?base)) (word_of_nat (d - ?base))
        (dec_rtree Dispec (?base - ?slot) (115 - (?base - ?slot)) ?limit)"
      by (rule dec_rtree_decodes[OF f(4) s(3)]) (use f(5) in simp)
    from decodes_map[OF this, of "\<lambda>tree. Inr (word_of_nat ?base + tree) :: int + u32"]
    have "decodes (rtree_decs Dispec (?base - ?slot) ?limit (d - ?base)) (Inr (word_of_nat d) :: int + u32)
        (\<lambda>s. dec_rtree Dispec (?base - ?slot) (115 - (?base - ?slot)) ?limit s \<bind> (\<lambda>(tree, s). Some (Inr (word_of_nat ?base + tree), s)))"
      unfolding add .
    moreover have "dec_distance len ?w = (\<lambda>s. dec_rtree Dispec (?base - ?slot) (115 - (?base - ?slot)) ?limit s \<bind>
        (\<lambda>(tree, s). Some (Inr (word_of_nat ?base + tree), s)))"
      unfolding dec_distance_def[abs_def] slot_limit_word[OF f(2)] base_word Let_def if_P[OF lt] off uo ub range_check_def if_P[OF in_r] prod.case by simp
    ultimately show ?thesis using True f(1) by (simp add: dist_decs_def Let_def)
  next
    case False
    have ne: "(word_of_nat d :: u32) \<noteq> 0xFFFFFFFF" using unat_small[OF d32] assms(2) by (auto simp: word_unat_eq_iff)
    then have "dist_end len (word_of_nat d) = (\<lambda>s. Some (Inr (word_of_nat d), s))" by (simp add: dist_end_def fun_eq_iff)
    then have kd: "decodes [] (Inr (word_of_nat d)) (dist_end len (word_of_nat d))" using decodes_return by simp
    have "decodes (dist_decs d) (word_of_nat d) (long_distance ?slot)"
      unfolding long_distance_def[abs_def] by (rule long_distance_decodes[OF assms(1) d32]) (use False in simp)
    from decodes_bind[OF this, of _ _ "dist_end len", OF kd]
    have "decodes (dist_decs d) (Inr (word_of_nat d)) (\<lambda>s. long_distance ?slot s \<bind> (\<lambda>(r, s). dist_end len r s))" by simp
    moreover have "dec_distance len ?w = (\<lambda>s. long_distance ?slot s \<bind> (\<lambda>(r, s). dist_end len r s))"
      using dec_distance_long[of ?slot len] False f(2) by (intro ext) simp
    ultimately show ?thesis by simp
  qed
qed

end
