(* ===== verification/Lzma_Decode.thy ===== *)
theory Lzma_Decode
  imports Lzma_Code
begin

text \<open>
  The decoder as the inverse of an encoder.  A compressed text is a list of tokens, literals and copies
  from the text so far; the machine \<open>lzc\<close> says what text a list of tokens stands for and which
  decisions encode it.  The result is that \<open>lzma_inflate\<close> restores the text from the stream of any valid
  list of tokens.
\<close>

section \<open>Tokens\<close>

datatype token = Lit byte | Match nat nat | Short | Rep nat nat

record lzc =
  c_st :: nat
  c_pos :: nat
  c_rep :: "u32 list"
  c_hist :: "byte list"

definition behind :: "byte list \<Rightarrow> nat \<Rightarrow> byte" where
  "behind h d = h ! (length h - Suc d)"

fun lz_copy :: "nat \<Rightarrow> nat \<Rightarrow> byte list \<Rightarrow> byte list" where
  "lz_copy d 0 h = h"
| "lz_copy d (Suc n) h = lz_copy d n (h @ [behind h d])"

definition lit_next :: "nat \<Rightarrow> nat" where
  "lit_next st = (if st \<le> 3 then 0 else if st \<le> 9 then st - 3 else st - 6)"

definition move_rep :: "nat \<Rightarrow> u32 list \<Rightarrow> u32 list" where
  "move_rep n r = r ! n # take n r @ drop (Suc n) r"

fun token_next :: "lzc \<Rightarrow> token \<Rightarrow> lzc" where
  "token_next c (Lit x) = c \<lparr> c_st := lit_next (c_st c), c_pos := (c_pos c + 1) mod 4, c_hist := c_hist c @ [x] \<rparr>"
| "token_next c (Match len d) = c \<lparr> c_st := (if c_st c < 7 then 7 else 10), c_pos := (c_pos c + len) mod 4,
     c_rep := word_of_nat d # take 3 (c_rep c), c_hist := lz_copy d len (c_hist c) \<rparr>"
| "token_next c Short = c \<lparr> c_st := (if c_st c < 7 then 9 else 11), c_pos := (c_pos c + 1) mod 4,
     c_hist := lz_copy (unat (c_rep c ! 0)) 1 (c_hist c) \<rparr>"
| "token_next c (Rep n len) = c \<lparr> c_st := (if c_st c < 7 then 8 else 11), c_pos := (c_pos c + len) mod 4,
     c_rep := move_rep n (c_rep c), c_hist := lz_copy (unat (c_rep c ! n)) len (c_hist c) \<rparr>"

fun token_ok :: "lzc \<Rightarrow> token \<Rightarrow> bool" where
  "token_ok c (Lit x) \<longleftrightarrow> True"
| "token_ok c (Match len d) \<longleftrightarrow> 2 \<le> len \<and> len \<le> 273 \<and> d < length (c_hist c) \<and> d < 2 ^ 32 - 1"
| "token_ok c Short \<longleftrightarrow> unat (c_rep c ! 0) < length (c_hist c)"
| "token_ok c (Rep n len) \<longleftrightarrow> n < 4 \<and> 2 \<le> len \<and> len \<le> 273 \<and> unat (c_rep c ! n) < length (c_hist c)"

fun tokens_ok :: "lzc \<Rightarrow> token list \<Rightarrow> bool" where
  "tokens_ok c [] \<longleftrightarrow> True"
| "tokens_ok c (t # ts) \<longleftrightarrow> token_ok c t \<and> tokens_ok (token_next c t) ts"

text \<open>The text after a list of tokens.\<close>

definition expand :: "lzc \<Rightarrow> token list \<Rightarrow> byte list" where
  "expand c ts = c_hist (foldl token_next c ts)"

section \<open>Decisions of a token\<close>

definition lit_off :: "lzc \<Rightarrow> nat" where
  "lit_off c = 0x300 * unat (drop_bit 5 (if c_hist c = [] then 0 else last (c_hist c)))"

definition lit_decs :: "lzc \<Rightarrow> byte \<Rightarrow> dcs list" where
  "lit_decs c x =
     (if c_st c < 7 then tree_decs Literal (lit_off c) (bits_of 8 (unat x)) 1
      else match_decs Literal (lit_off c) (ucast (behind (c_hist c) (unat (c_rep c ! 0)))) (bits_of 8 (unat x)) 1)"

definition match_len_decs :: "lzc \<Rightarrow> nat \<Rightarrow> nat \<Rightarrow> dcs list" where
  "match_len_decs c len d = length_decs Matchlen (c_pos c) (len - 2) @
     tree_decs Dislot (64 * min (len - 2) 3) (bits_of 6 (slot_of d)) 1 @ dist_decs d"

fun token_decs :: "lzc \<Rightarrow> token \<Rightarrow> dcs list" where
  "token_decs c (Lit x) = DBit Bit1 (4 * c_st c + c_pos c) False # lit_decs c x"
| "token_decs c (Match len d) = DBit Bit1 (4 * c_st c + c_pos c) True # DBit Bit2 (c_st c) False # match_len_decs c len d"
| "token_decs c Short = [DBit Bit1 (4 * c_st c + c_pos c) True, DBit Bit2 (c_st c) True, DBit Bit3 (c_st c) False,
     DBit Shrt (4 * c_st c + c_pos c) False]"
| "token_decs c (Rep n len) = [DBit Bit1 (4 * c_st c + c_pos c) True, DBit Bit2 (c_st c) True] @
     (if n = 0 then [DBit Bit3 (c_st c) False, DBit Shrt (4 * c_st c + c_pos c) True]
      else if n = 1 then [DBit Bit3 (c_st c) True, DBit Bit4 (c_st c) False]
      else [DBit Bit3 (c_st c) True, DBit Bit4 (c_st c) True, DBit Bit5 (c_st c) (n \<noteq> 2)]) @
     length_decs Replen (c_pos c) (len - 2)"

definition end_decs :: "lzc \<Rightarrow> dcs list" where
  "end_decs c = DBit Bit1 (4 * c_st c + c_pos c) True # DBit Bit2 (c_st c) False # match_len_decs c 2 (2 ^ 32 - 1)"

fun tokens_decs :: "lzc \<Rightarrow> token list \<Rightarrow> dcs list" where
  "tokens_decs c [] = end_decs c"
| "tokens_decs c (t # ts) = token_decs c t @ tokens_decs (token_next c t) ts"

section \<open>The decoder's view of the text\<close>

definition hist :: "lzst \<Rightarrow> byte list" where
  "hist s = drop (lz_dstbuf s - out_base s) (take (lz_dstptr s - out_base s) (out_mem s))"

definition sync :: "lzc \<Rightarrow> lzst \<Rightarrow> bool" where
  "sync c s \<longleftrightarrow> lz_wf s \<and> pz_error s = 0 \<and> pz_pos_state s = int (c_pos c) \<and> c_pos c < 4 \<and> pz_rep s = c_rep c \<and> hist s = c_hist c"

definition c_ok :: "lzc \<Rightarrow> bool" where
  "c_ok c \<longleftrightarrow> c_st c < 12 \<and> c_pos c < 4 \<and> length (c_rep c) = 4 \<and> (c_st c < 7 \<or> unat (c_rep c ! 0) < length (c_hist c))"

lemma length_hist: "lz_wf s \<Longrightarrow> length (hist s) = lz_dstptr s - lz_dstbuf s"
  by (auto simp: hist_def lz_wf_def)

lemma rdonly_same:
  assumes "rdonly s t"
  shows "lz_wf t" and "hist t = hist s" and "pz_rep t = pz_rep s" and "pz_error t = pz_error s" and "pz_pos_state t = pz_pos_state s"
    and "lz_dstptr t = lz_dstptr s" and "lz_dstend t = lz_dstend s"
  using assms by (auto simp: rdonly_def hist_def)

lemma sync_rdonly: "sync c s \<Longrightarrow> rdonly s t \<Longrightarrow> sync c t"
  by (simp add: sync_def rdonly_same)

lemma feeds_same:
  "pz_probs t = pz_probs s \<Longrightarrow> pz_range t = pz_range s \<Longrightarrow> pz_code t = pz_code s \<Longrightarrow> pending t = pending s \<Longrightarrow> feeds ds t = feeds ds s"
  by (simp add: feeds_def)

lemma length_lz_copy [simp]: "length (lz_copy d n h) = length h + n"
  by (induction d n h rule: lz_copy.induct) auto

lemma peek_back_hist:
  assumes "lz_wf s" and "unat i < length (hist s)"
  shows "peek_back i s = Some (behind (hist s) (unat i), s)"
proof -
  let ?p = "lz_dstptr s" and ?b = "lz_dstbuf s" and ?o = "out_base s"
  have l: "length (hist s) = ?p - ?b" by (rule length_hist[OF assms(1)])
  have o: "?o \<le> ?b" "?b \<le> ?p" "?p \<le> ?o + length (out_mem s)" using assms(1) by (auto simp: lz_wf_def)
  let ?a = "int ?p - uint i - 1"
  have u: "uint i = int (unat i)" by (rule uint_nat)
  have a: "?a = int (?p - Suc (unat i))" using u assms(2) l o(2) by linarith
  have "\<not> (?a < int ?b \<or> ?a \<ge> int ?p)" "\<not> ?a < int ?o" using u assms(2) l o by linarith+
  moreover have "nat ?a - ?o < length (out_mem s)" using u assms(2) l o by linarith
  moreover have "out_mem s ! (nat ?a - ?o) = behind (hist s) (unat i)"
  proof -
    have na: "nat ?a = ?p - Suc (unat i)" using a by (metis nat_int)
    have ix: "(?b - ?o) + (length (hist s) - Suc (unat i)) = ?p - Suc (unat i) - ?o" "?p - Suc (unat i) - ?o < ?p - ?o"
      using assms(2) l o by linarith+
    have "?b - ?o \<le> length (take (?p - ?o) (out_mem s))" using o by simp
    then have "hist s ! k = out_mem s ! ((?b - ?o) + k)" if "(?b - ?o) + k < ?p - ?o" for k
      using that by (simp add: hist_def)
    then show ?thesis unfolding behind_def na using ix by metis
  qed
  ultimately show ?thesis unfolding peek_back_def Let_def by (simp add: rd_def)
qed

lemma peek_back_zero:
  assumes "lz_wf s"
  shows "peek_back 0 s = Some (if hist s = [] then 0 else last (hist s), s)"
proof (cases "hist s = []")
  case True
  then have "lz_dstptr s \<le> lz_dstbuf s" using length_hist[OF assms] by simp
  then show ?thesis using True by (simp add: peek_back_def Let_def)
next
  case False
  then show ?thesis using peek_back_hist[OF assms, of 0] by (simp add: behind_def last_conv_nth)
qed

text \<open>Writing text leaves the stream alone.\<close>

definition wrote :: "nat \<Rightarrow> byte list \<Rightarrow> lzst \<Rightarrow> lzst \<Rightarrow> bool" where
  "wrote n h s t \<longleftrightarrow> lz_wf t \<and> hist t = h \<and> pz_rep t = pz_rep s \<and> pz_error t = pz_error s \<and>
     pz_pos_state t = (pz_pos_state s + int n) mod 4 \<and> lz_dstptr t = lz_dstptr s + n \<and> lz_dstend t = lz_dstend s \<and>
     (\<forall>ds. feeds ds t = feeds ds s)"

lemma and_3_mod: "(x :: int) AND 3 = x mod 4"
  using take_bit_eq_mask[of 2 x] by (simp add: take_bit_eq_mod mask_eq_exp_minus_1)

lemma put_byte_wrote:
  assumes "lz_wf s" and "lz_dstptr s < lz_dstend s"
  shows "\<exists>t. put_byte x s = Some t \<and> wrote 1 (hist s @ [x]) s t"
proof -
  let ?p = "lz_dstptr s - out_base s" and ?b = "lz_dstbuf s - out_base s"
  have o: "out_base s \<le> lz_dstbuf s" "lz_dstbuf s \<le> lz_dstptr s" "?p < length (out_mem s)"
    using assms by (auto simp: lz_wf_def)
  let ?t = "s \<lparr> pz_pos_state := (pz_pos_state s + 1) AND 3, out_mem := (out_mem s)[?p := x], lz_dstptr := lz_dstptr s + 1 \<rparr>"
  have t: "put_byte x s = Some ?t" using assms(2) o by (simp add: put_byte_def Let_def wr_def)
  have "lz_wf ?t" using put_byte_adv[OF assms(1), of x] t by (auto simp: adv_def)
  moreover have "Suc (lz_dstptr s) - out_base s = Suc ?p" using o by simp
  then have "hist ?t = hist s @ [x]" using o by (simp add: hist_def)
  moreover have "feeds ds ?t = feeds ds s" for ds by (rule feeds_same) (simp_all add: pending_def)
  ultimately show ?thesis using t by (simp add: wrote_def and_3_mod)
qed

lemma repeat_loop_wrote:
  "lz_wf s \<Longrightarrow> unat rep < length (hist s) \<Longrightarrow> lz_dstptr s + n \<le> lz_dstend s \<Longrightarrow>
   \<exists>t. repeat_loop rep n s = Some t \<and> wrote n (lz_copy (unat rep) n (hist s)) s t"
proof (induction n arbitrary: s)
  case 0
  then have "pz_pos_state s mod 4 = pz_pos_state s" by (auto simp: lz_wf_def)
  then show ?case using 0 by (simp add: wrote_def)
next
  case (Suc n)
  obtain t where t: "put_byte (behind (hist s) (unat rep)) s = Some t" "wrote 1 (hist s @ [behind (hist s) (unat rep)]) s t"
    using put_byte_wrote[OF Suc.prems(1)] Suc.prems(3) by auto
  then have "lz_wf t" "unat rep < length (hist t)" "lz_dstptr t + n \<le> lz_dstend t"
    using Suc.prems by (auto simp: wrote_def)
  from Suc.IH[OF this] obtain u where u: "repeat_loop rep n t = Some u" "wrote n (lz_copy (unat rep) n (hist t)) t u" by blast
  have "wrote (Suc n) (lz_copy (unat rep) (Suc n) (hist s)) s u"
    using t(2) u(2) by (auto simp: wrote_def mod_simps algebra_simps)
  then show ?case using peek_back_hist[OF Suc.prems(1,2)] t(1) u(1) by simp
qed

section \<open>One symbol\<close>

text \<open>The result \<open>r\<close> of an operation continues the machine \<open>c\<close> with the stream \<open>es\<close>.\<close>

definition goes_on :: "lzc \<Rightarrow> dcs list \<Rightarrow> (int \<times> lzst) option \<Rightarrow> bool" where
  "goes_on c es r \<longleftrightarrow> (\<exists>t. r = Some (int (c_st c), t) \<and> sync c t \<and> feeds es t)"

lemma goes_onI: "r = Some (st, t) \<Longrightarrow> st = int (c_st c) \<Longrightarrow> sync c t \<Longrightarrow> feeds es t \<Longrightarrow> goes_on c es r"
  by (auto simp: goes_on_def)

lemma sync_wrote:
  assumes "sync c s" and "wrote n h s t" and "c' = c \<lparr> c_st := st, c_pos := (c_pos c + n) mod 4, c_hist := h \<rparr>"
  shows "sync c' t"
  using assms by (auto simp: sync_def wrote_def zmod_int)

lemma is_lit_iff: "is_lit (int st) \<longleftrightarrow> st < 7"
  by (auto simp: is_lit_def STATE_SHORTREP_LIT_def)

lemma inflate_literal_step:
  assumes "sync c s" and "c_ok c" and "feeds (lit_decs c x @ es) s" and "lz_dstptr s < lz_dstend s"
  shows "goes_on (token_next c (Lit x)) es (inflate_literal (int (c_st c)) s)"
proof -
  let ?st = "c_st c" and ?c0 = "if c_hist c = [] then 0 else last (c_hist c)"
  have wf: "lz_wf s" "hist s = c_hist c" "pz_rep s = c_rep c" using assms(1) by (auto simp: sync_def)
  have p0: "peek_back 0 s = Some (?c0, s)" using peek_back_zero[OF wf(1)] wf(2) by simp
  have "unat ?c0 < 256" using unsigned_less[of ?c0, where ?'a = nat] by simp
  then have l: "unat (drop_bit 5 ?c0) < 8" by (simp add: drop_bit_eq_div unat_div)
  have x: "unat x < 2 ^ 8" "unat x < 256" using unsigned_less[of x, where ?'a = nat] by auto
  let ?get = "if is_lit (int ?st) then dec_tree Literal (lit_off c) 0x300 8 s
    else do { (mb, s) \<leftarrow> peek_back (pz_rep s ! 0) s; dec_match Literal (lit_off c) 0x300 (ucast mb) s }"
  have "\<exists>t. ?get = Some (word_of_nat (unat x), t) \<and> rdonly s t \<and> feeds es t"
  proof (cases "?st < 7")
    case True
    have "decodes (tree_decs Literal (lit_off c) (bits_of 8 (unat x)) 1) (word_of_nat (unat x)) (dec_tree Literal (lit_off c) 0x300 8)"
      by (rule dec_tree_decodes[OF x(1)]) auto
    from decodesD[OF this wf(1)] assms(3) True show ?thesis by (simp add: lit_decs_def is_lit_iff) blast
  next
    case False
    then have "unat (pz_rep s ! 0) < length (hist s)" using assms(2) wf by (simp add: c_ok_def)
    note pk = peek_back_hist[OF wf(1) this]
    have "decodes (match_decs Literal (lit_off c) (ucast (behind (c_hist c) (unat (c_rep c ! 0)))) (bits_of 8 (unat x)) 1) (word_of_nat (unat x))
        (dec_match Literal (lit_off c) 768 (ucast (behind (c_hist c) (unat (c_rep c ! 0)))))" by (rule dec_match_decodes[OF x(2)])
    from decodesD[OF this wf(1)] assms(3) False show ?thesis using pk wf by (simp add: lit_decs_def is_lit_iff) blast
  qed
  then obtain t where t: "?get = Some (word_of_nat (unat x), t)" "rdonly s t" "feeds es t" by blast
  have ux: "ucast (word_of_nat (unat x) :: u32) = x" unfolding of_nat_unat by (rule bit_word_eqI) (auto simp: bit_simps)
  note st = rdonly_same[OF t(2)]
  obtain u where u: "put_byte x t = Some u" "wrote 1 (hist t @ [x]) t u"
    using put_byte_wrote[OF st(1), of x] st assms(4) by auto
  have "sync (token_next c (Lit x)) u"
    by (rule sync_wrote[OF sync_rdonly[OF assms(1) t(2)] u(2)]) (use st wf in simp)
  moreover have "feeds es u" using t(3) u(2) by (simp add: wrote_def)
  moreover have "inflate_literal (int ?st) s = Some (if int ?st \<le> STATE_SHORTREP_LIT_LIT then STATE_LIT_LIT
      else if int ?st \<le> STATE_LIT_SHORTREP then int ?st - 3 else int ?st - 6, u)"
    unfolding inflate_literal_def p0 bind.simps prod.case Let_def range_check_def if_P[OF l] lit_off_def[symmetric] t(1)[unfolded prod.case] ux u(1) by simp
  ultimately show ?thesis
    by (intro goes_onI) (auto simp: lit_next_def STATE_SHORTREP_LIT_LIT_def STATE_LIT_LIT_def STATE_LIT_SHORTREP_def)
qed

lemma repeat_step:
  assumes "sync c s" and "unat rep < length (c_hist c)" and "lz_dstptr s + n \<le> lz_dstend s" and "feeds es s" and "n < 2 ^ 32"
    and "st = int st'" and "c' = c \<lparr> c_st := st', c_pos := (c_pos c + n) mod 4, c_hist := lz_copy (unat rep) n (c_hist c) \<rparr>"
  shows "goes_on c' es (repeat_from_dict st rep (word_of_nat n) s)"
proof -
  have wf: "lz_wf s" "hist s = c_hist c" using assms(1) by (auto simp: sync_def)
  obtain t where t: "repeat_loop rep n s = Some t" "wrote n (lz_copy (unat rep) n (hist s)) s t"
    using repeat_loop_wrote[OF wf(1)] wf(2) assms(2,3) by auto
  have "sync c' t" by (rule sync_wrote[OF assms(1) t(2)]) (use assms(7) wf in simp)
  moreover have "feeds es t" using assms(4) t(2) by (simp add: wrote_def)
  ultimately show ?thesis using t(1) assms(6,7) by (intro goes_onI) (simp_all add: repeat_from_dict_def unat_small[OF assms(5)])
qed

lemma slot_small: "d < 2 ^ 32 \<Longrightarrow> slot_of d < 64"
  using slot_facts(2)[of d] by (cases "d < 4") (auto simp: slot_of_def)

lemma dstate_min:
  assumes "n \<le> 271"
  shows "(if 2 + (word_of_nat n :: u32) - 2 < 4 - 1 then unat (2 + (word_of_nat n :: u32) - 2) else 4 - 1) = min n 3"
  using unat_small[of n] assms by (simp add: word_less_nat_alt)

lemma match_head:
  assumes "lz_wf s" and "feeds (match_len_decs c len d @ es) s" and "2 \<le> len" and "len \<le> 273" and "d < 2 ^ 32"
  obtains s1 s2 where "dec_length Matchlen (c_pos c) s = Some (word_of_nat (len - 2), s1)"
    "dec_tree Dislot (64 * min (len - 2) 3) 64 6 s1 = Some (word_of_nat (slot_of d), s2)" "rdonly s s2" "feeds (dist_decs d @ es) s2"
proof -
  have len: "len - 2 \<le> 271" using assms(4) by simp
  have f: "feeds (length_decs Matchlen (c_pos c) (len - 2) @ tree_decs Dislot (64 * min (len - 2) 3) (bits_of 6 (slot_of d)) 1 @ dist_decs d @ es) s"
    using assms(2) by (simp add: match_len_decs_def)
  obtain s1 where s1: "dec_length Matchlen (c_pos c) s = Some (word_of_nat (len - 2), s1)" "rdonly s s1" "lz_wf s1"
    "feeds (tree_decs Dislot (64 * min (len - 2) 3) (bits_of 6 (slot_of d)) 1 @ dist_decs d @ es) s1"
    using decodesD[OF dec_length_decodes[OF len] assms(1) f] by blast
  have "decodes (tree_decs Dislot (64 * min (len - 2) 3) (bits_of 6 (slot_of d)) 1) (word_of_nat (slot_of d)) (dec_tree Dislot (64 * min (len - 2) 3) 64 6)"
    by (rule dec_tree_decodes) (use slot_small[OF assms(5)] in auto)
  from decodesD[OF this s1(3,4)] obtain s2 where
    "dec_tree Dislot (64 * min (len - 2) 3) 64 6 s1 = Some (word_of_nat (slot_of d), s2)" "rdonly s1 s2" "feeds (dist_decs d @ es) s2" by blast
  then show ?thesis using that s1(1) rdonly_trans[OF s1(2)] by blast
qed

lemma distance_step:
  assumes "lz_wf s" and "feeds (dist_decs d @ es) s" and "d < 2 ^ 32 - 1"
  obtains t where "(if (word_of_nat (slot_of d) :: u32) < 4 then Some (Inr (word_of_nat (slot_of d)), s)
      else dec_distance len (word_of_nat (slot_of d)) s) = Some (Inr (word_of_nat d), t)" "rdonly s t" "feeds es t"
proof (cases "d < 4")
  case True
  then have "slot_of d = d" "dist_decs d = []" by (simp_all add: slot_of_def dist_decs_def)
  moreover have "(word_of_nat d :: u32) < 4" using True unat_small[of d] by (simp add: word_less_nat_alt)
  ultimately show ?thesis using that[of s] assms(1,2) rdonly_refl by simp
next
  case False
  then have "4 \<le> slot_of d" using slot_facts(1)[of d] assms(3) by simp
  then have "\<not> (word_of_nat (slot_of d) :: u32) < 4"
    using unat_small[of "slot_of d"] slot_small[of d] assms(3) by (simp add: word_less_nat_alt)
  then show ?thesis using that decodesD[OF dec_distance_decodes assms(1,2)] False assms(3) by (metis not_less)
qed

lemma rep_update:
  assumes "sync c s"
  shows "sync (c \<lparr> c_rep := r \<rparr>) (s \<lparr> pz_rep := r \<rparr>) \<longleftrightarrow> length r = 4" and "feeds ds (s \<lparr> pz_rep := r \<rparr>) = feeds ds s"
    and "lz_dstptr (s \<lparr> pz_rep := r \<rparr>) = lz_dstptr s"
proof -
  show "sync (c \<lparr> c_rep := r \<rparr>) (s \<lparr> pz_rep := r \<rparr>) \<longleftrightarrow> length r = 4" using assms by (auto simp: sync_def lz_wf_def hist_def)
  show "feeds ds (s \<lparr> pz_rep := r \<rparr>) = feeds ds s" by (rule feeds_same) (simp_all add: pending_def)
qed simp

lemma inflate_match_step:
  assumes "sync c s" and "token_ok c (Match len d)" and "feeds (match_len_decs c len d @ es) s" and "lz_dstptr s + len \<le> lz_dstend s"
  shows "goes_on (token_next c (Match len d)) es (inflate_match (int (c_st c)) (c_pos c) s)"
proof -
  let ?r = "c_rep c"
  have ok: "2 \<le> len" "len \<le> 273" "d < length (c_hist c)" "d < 2 ^ 32 - 1" using assms(2) by auto
  have r4: "length ?r = 4" "pz_rep s = ?r" using assms(1) by (auto simp: sync_def lz_wf_def)
  define s0 where "s0 = s \<lparr> pz_rep := [?r ! 0, ?r ! 0, ?r ! 1, ?r ! 2] \<rparr>"
  have c0: "sync (c \<lparr> c_rep := [?r ! 0, ?r ! 0, ?r ! 1, ?r ! 2] \<rparr>) s0" "feeds (match_len_decs c len d @ es) s0"
    using rep_update[OF assms(1)] assms(3) by (simp_all add: s0_def)
  have wf0: "lz_wf s0" using c0(1) by (simp add: sync_def)
  obtain s1 s2 where s2: "dec_length Matchlen (c_pos c) s0 = Some (word_of_nat (len - 2), s1)"
    "dec_tree Dislot (64 * min (len - 2) 3) 64 6 s1 = Some (word_of_nat (slot_of d), s2)" "rdonly s0 s2" "feeds (dist_decs d @ es) s2"
    by (rule match_head[OF wf0 c0(2) ok(1,2)]) (use ok(4) in auto)
  obtain s3 where s3: "(if (word_of_nat (slot_of d) :: u32) < 4 then Some (Inr (word_of_nat (slot_of d)), s2)
      else dec_distance (2 + word_of_nat (len - 2)) (word_of_nat (slot_of d)) s2) = Some (Inr (word_of_nat d), s3)" "rdonly s2 s3" "feeds es s3"
    by (rule distance_step[OF rdonly_same(1)[OF s2(3)] s2(4) ok(4)])
  have r: "rdonly s0 s3" by (rule rdonly_trans[OF s2(3) s3(2)])
  let ?c = "c \<lparr> c_rep := word_of_nat d # take 3 ?r \<rparr>"
  define s4 where "s4 = s3 \<lparr> pz_rep := (pz_rep s3)[0 := word_of_nat d] \<rparr>"
  have r3: "pz_rep s3 = [?r ! 0, ?r ! 0, ?r ! 1, ?r ! 2]" using rdonly_same(3)[OF r] by (simp add: s0_def)
  have tk: "take 3 ?r = [?r ! 0, ?r ! 1, ?r ! 2]" using r4(1) by (auto simp: length_Suc_conv eval_nat_numeral)
  have s4: "sync ?c s4" "feeds es s4" "lz_dstptr s4 = lz_dstptr s" "lz_dstend s4 = lz_dstend s"
    using rep_update[OF sync_rdonly[OF c0(1) r], where r = "word_of_nat d # take 3 ?r"] s3(3) rdonly_same(6,7)[OF r]
    by (simp_all add: s4_def r3 tk s0_def)
  have ud: "unat (word_of_nat d :: u32) = d" by (rule unat_small) (use ok(4) in simp)
  have len: "2 + word_of_nat (len - 2) = (word_of_nat len :: u32)" using word_of_nat_add_diff[of 2 len] ok(1) by simp
  have "goes_on (token_next c (Match len d)) es (repeat_from_dict (if is_lit (int (c_st c)) then STATE_LIT_MATCH else STATE_NONLIT_MATCH) (word_of_nat d) (word_of_nat len) s4)"
    by (rule repeat_step[OF s4(1) _ _ s4(2), where st' = "if c_st c < 7 then 7 else 10"])
      (use ok s4 assms(4) ud in \<open>auto simp: is_lit_iff STATE_LIT_MATCH_def STATE_NONLIT_MATCH_def\<close>)
  moreover have "len - 2 \<le> 271" using ok(2) by simp
  ultimately show ?thesis
    unfolding inflate_match_def Let_def r4(2) s0_def[symmetric] s2(1) bind.simps prod.case dstate_min[OF \<open>len - 2 \<le> 271\<close>] s2(2) s3(1) sum.case
    by (simp add: len s4_def)
qed

lemma end_slot: "14 \<le> slot_of (2 ^ 32 - 1)"
proof (rule ccontr)
  let ?d = "2 ^ 32 - 1 :: nat"
  assume *: "\<not> 14 \<le> slot_of ?d"
  have f: "4 \<le> slot_of ?d" "slot_base (slot_of ?d) \<le> ?d" "?d - slot_base (slot_of ?d) < 2 ^ slot_limit (slot_of ?d)"
    using slot_facts[of ?d] by simp_all
  note s = short_distance_word[OF f(1)]
  have "slot_limit (slot_of ?d) \<le> 5" using * by (simp add: slot_limit_def)
  then have "(2 :: nat) ^ slot_limit (slot_of ?d) \<le> 2 ^ 5" by (rule power_increasing) simp
  then show False using f(3) s(2) * by simp
qed

lemma end_distance:
  assumes "lz_wf s" and "feeds (dist_decs (2 ^ 32 - 1) @ es) s"
  obtains t where "dec_distance 2 (word_of_nat (slot_of (2 ^ 32 - 1))) s = Some (Inl STATE_INVALID, lz_error LZMA_STREAM_END t)" "rdonly s t"
proof -
  let ?d = "2 ^ 32 - 1 :: nat"
  have "decodes (dist_decs ?d) (word_of_nat ?d) (long_distance (slot_of ?d))"
    unfolding long_distance_def[abs_def] by (rule long_distance_decodes[OF _ _ end_slot]) simp_all
  from decodesD[OF this assms] obtain t where t: "long_distance (slot_of ?d) s = Some (word_of_nat ?d, t)" "rdonly s t" by blast
  have "(word_of_nat ?d :: u32) = 0xFFFFFFFF" by simp
  then have "dec_distance 2 (word_of_nat (slot_of ?d)) s = Some (Inl STATE_INVALID, lz_error LZMA_STREAM_END t)"
    using t(1) dec_distance_long[OF end_slot slot_small] by (simp add: dist_end_def state_error_def)
  then show ?thesis using that t(2) by blast
qed

lemma inflate_match_end:
  assumes "sync c s" and "feeds (match_len_decs c 2 (2 ^ 32 - 1) @ es) s"
  shows "\<exists>t. inflate_match (int (c_st c)) (c_pos c) s = Some (STATE_INVALID, t) \<and> pz_error t = LZMA_STREAM_END \<and> hist t = c_hist c"
proof -
  let ?r = "c_rep c" and ?d = "2 ^ 32 - 1 :: nat"
  have r4: "pz_rep s = ?r" using assms(1) by (simp add: sync_def)
  define s0 where "s0 = s \<lparr> pz_rep := [?r ! 0, ?r ! 0, ?r ! 1, ?r ! 2] \<rparr>"
  have c0: "sync (c \<lparr> c_rep := [?r ! 0, ?r ! 0, ?r ! 1, ?r ! 2] \<rparr>) s0" "feeds (match_len_decs c 2 ?d @ es) s0"
    using rep_update[OF assms(1)] assms(2) by (simp_all add: s0_def)
  have wf0: "lz_wf s0" "hist s0 = c_hist c" using c0(1) by (simp_all add: sync_def)
  obtain s1 s2 where s2: "dec_length Matchlen (c_pos c) s0 = Some (word_of_nat (2 - 2), s1)"
    "dec_tree Dislot (64 * min (2 - 2) 3) 64 6 s1 = Some (word_of_nat (slot_of ?d), s2)" "rdonly s0 s2" "feeds (dist_decs ?d @ es) s2"
    by (rule match_head[OF wf0(1) c0(2)]) auto
  obtain t where t: "dec_distance 2 (word_of_nat (slot_of ?d)) s2 = Some (Inl STATE_INVALID, lz_error LZMA_STREAM_END t)" "rdonly s2 t"
    by (rule end_distance[OF rdonly_same(1)[OF s2(3)] s2(4)])
  have "\<not> (word_of_nat (slot_of ?d) :: u32) < 4"
    using unat_small[of "slot_of ?d"] slot_small[of ?d] end_slot by (simp add: word_less_nat_alt)
  then have "inflate_match (int (c_st c)) (c_pos c) s = Some (STATE_INVALID, lz_error LZMA_STREAM_END t)"
    using s2(1,2) t(1) unfolding inflate_match_def Let_def r4 s0_def[symmetric] by simp
  moreover have "hist t = c_hist c" using rdonly_same(2)[OF rdonly_trans[OF s2(3) t(2)]] wf0(2) by simp
  ultimately show ?thesis by (simp add: lz_error_def hist_def)
qed

lemma inflate_shortrep_step:
  assumes "sync c s" and "token_ok c Short" and "feeds es s" and "lz_dstptr s < lz_dstend s"
  shows "goes_on (token_next c Short) es (inflate_shortrep (int (c_st c)) s)"
proof -
  have "pz_rep s = c_rep c" using assms(1) by (simp add: sync_def)
  then show ?thesis
    using repeat_step[OF assms(1), of "c_rep c ! 0" 1 es _ "if c_st c < 7 then 9 else 11"] assms(2-4)
    by (auto simp: inflate_shortrep_def is_lit_iff STATE_LIT_SHORTREP_def STATE_NONLIT_REP_def)
qed

lemma move_rep_code:
  assumes "length r = 4" and "n < 4"
  shows "(let r' = r; r' = (if n > 2 then r'[3 := r' ! 2] else r'); r' = (if n > 1 then r'[2 := r' ! 1] else r');
    r' = (if n > 0 then r'[1 := r' ! 0] else r') in r'[0 := r ! n]) = move_rep n r"
proof -
  obtain a b c d where "r = [a, b, c, d]" using assms(1) by (auto simp: length_Suc_conv eval_nat_numeral)
  moreover have "n = 0 \<or> n = 1 \<or> n = 2 \<or> n = 3" using assms(2) by auto
  ultimately show ?thesis by (auto simp: move_rep_def Let_def)
qed

lemma inflate_longrep_step:
  assumes "sync c s" and "token_ok c (Rep n len)" and "feeds (length_decs Replen (c_pos c) (len - 2) @ es) s" and "lz_dstptr s + len \<le> lz_dstend s"
  shows "goes_on (token_next c (Rep n len)) es (inflate_longrep (int (c_st c)) (c_pos c) n s)"
proof -
  let ?r = "c_rep c"
  have ok: "n < 4" "2 \<le> len" "len \<le> 273" "unat (?r ! n) < length (c_hist c)" using assms(2) by auto
  have r4: "length ?r = 4" "pz_rep s = ?r" using assms(1) by (auto simp: sync_def lz_wf_def)
  let ?s = "s \<lparr> pz_rep := move_rep n ?r \<rparr>" and ?c = "c \<lparr> c_rep := move_rep n ?r \<rparr>"
  have "length (move_rep n ?r) = 4" using r4(1) ok(1) by (simp add: move_rep_def)
  then have s0: "sync ?c ?s" "feeds (length_decs Replen (c_pos c) (len - 2) @ es) ?s"
    using rep_update[OF assms(1)] assms(3) by simp_all
  have "len - 2 \<le> 271" using ok(3) by simp
  from decodesD[OF dec_length_decodes[OF this] _ s0(2)] s0(1) obtain t where
    t: "dec_length Replen (c_pos c) ?s = Some (word_of_nat (len - 2), t)" "rdonly ?s t" "feeds es t" by (auto simp: sync_def)
  have len: "2 + word_of_nat (len - 2) = (word_of_nat len :: u32)" using word_of_nat_add_diff[of 2 len] ok(2) by simp
  have "goes_on (token_next c (Rep n len)) es (repeat_from_dict (if is_lit (int (c_st c)) then STATE_LIT_LONGREP else STATE_NONLIT_REP) (?r ! n) (word_of_nat len) t)"
    by (rule repeat_step[OF sync_rdonly[OF s0(1) t(2)] _ _ t(3), where st' = "if c_st c < 7 then 8 else 11"])
      (use ok rdonly_same(6,7)[OF t(2)] assms(4) in \<open>auto simp: is_lit_iff STATE_LIT_LONGREP_def STATE_NONLIT_REP_def\<close>)
  moreover have "inflate_longrep (int (c_st c)) (c_pos c) n s = repeat_from_dict (if is_lit (int (c_st c)) then STATE_LIT_LONGREP else STATE_NONLIT_REP) (?r ! n) (word_of_nat len) t"
    using move_rep_code[OF r4(1) ok(1)] t(1) unfolding inflate_longrep_def r4(2) Let_def by (simp add: len)
  ultimately show ?thesis by simp
qed

text \<open>A machine in step with the decoder, with room for the text of the next machine.\<close>

definition fits :: "lzc \<Rightarrow> lzc \<Rightarrow> lzst \<Rightarrow> bool" where
  "fits c c' s \<longleftrightarrow> sync c s \<and> lz_dstptr s + length (c_hist c') \<le> lz_dstend s + length (c_hist c)"

lemma goes_branch:
  assumes "fits c c' s" and "feeds (DBit t i b # ds) s"
    and "\<And>u. fits c c' u \<Longrightarrow> feeds ds u \<Longrightarrow> goes_on c' es (if b then g u else f u)"
  shows "goes_on c' es (do { (b, s) \<leftarrow> dec_bit t i s; if b = 0 then f s else g s })"
proof -
  have s: "sync c s" "lz_wf s" using assms(1) by (auto simp: fits_def sync_def)
  obtain u where u: "dec_bit t i s = Some (of_bool b, u)" "feeds ds u" "rdonly s u" using dec_bit_feeds[OF s(2) assms(2)] by blast
  have "fits c c' u" using assms(1) sync_rdonly[OF s(1) u(3)] rdonly_same(6,7)[OF u(3)] by (simp add: fits_def)
  from assms(3)[OF this u(2)] show ?thesis using u(1) by (cases b) simp_all
qed

lemma token_step:
  assumes at: "fits c (token_next c tok) s" and "c_ok c" and "token_ok c tok" and "feeds (token_decs c tok @ es) s"
  shows "goes_on (token_next c tok) es (inflate_symbol (c_st c) (c_pos c) s)"
proof (cases tok)
  case (Lit x)
  then have "feeds (DBit Bit1 (4 * c_st c + c_pos c) False # lit_decs c x @ es) s" using assms(4) by simp
  from goes_branch[OF at this] inflate_literal_step[OF _ assms(2), of _ x es] show ?thesis
    unfolding inflate_symbol_def Lit fits_def by simp
next
  case tok: (Match len d)
  then have "feeds (DBit Bit1 (4 * c_st c + c_pos c) True # DBit Bit2 (c_st c) False # match_len_decs c len d @ es) s" using assms(4) by simp
  note 1 = goes_branch[OF at this]
  have leaf: "goes_on (token_next c tok) es (inflate_match (int (c_st c)) (c_pos c) u)"
    if "fits c (token_next c tok) u" "feeds (match_len_decs c len d @ es) u" for u
    using inflate_match_step[of c u len d es] that assms(3) tok by (simp add: fits_def)
  show ?thesis
    unfolding inflate_symbol_def
    by (rule 1, simp only: if_True, erule goes_branch, assumption, simp only: if_False, erule leaf, assumption)
next
  case tok: Short
  then have "feeds (DBit Bit1 (4 * c_st c + c_pos c) True # DBit Bit2 (c_st c) True # DBit Bit3 (c_st c) False #
      DBit Shrt (4 * c_st c + c_pos c) False # es) s" using assms(4) by simp
  note 1 = goes_branch[OF at this]
  have leaf: "goes_on (token_next c tok) es (inflate_shortrep (int (c_st c)) u)" if "fits c (token_next c tok) u" "feeds es u" for u
    using inflate_shortrep_step[of c u es] that assms(3) tok by (simp add: fits_def)
  show ?thesis
    unfolding inflate_symbol_def
    by (rule 1, simp only: if_True, erule goes_branch, assumption, simp only: if_True, erule goes_branch, assumption,
        simp only: if_False, erule goes_branch, assumption, simp only: if_False, erule leaf, assumption)
next
  case tok: (Rep n len)
  let ?p = "if n = 0 then [DBit Bit3 (c_st c) False, DBit Shrt (4 * c_st c + c_pos c) True]
      else if n = 1 then [DBit Bit3 (c_st c) True, DBit Bit4 (c_st c) False]
      else [DBit Bit3 (c_st c) True, DBit Bit4 (c_st c) True, DBit Bit5 (c_st c) (n \<noteq> 2)]"
  have "feeds (DBit Bit1 (4 * c_st c + c_pos c) True # DBit Bit2 (c_st c) True # ?p @ length_decs Replen (c_pos c) (len - 2) @ es) s"
    using assms(4) tok by simp
  note 1 = goes_branch[OF at this]
  have rep: "goes_on (token_next c tok) es (inflate_longrep (int (c_st c)) (c_pos c) n u)"
    if "fits c (token_next c tok) u" "feeds (length_decs Replen (c_pos c) (len - 2) @ es) u" for u
    using inflate_longrep_step[of c u n len es] that assms(3) tok by (simp add: fits_def)
  have "goes_on (token_next c tok) es (do {
      (b, s) \<leftarrow> dec_bit Bit3 (c_st c) u;
      if b = 0 then do {
        (b, s) \<leftarrow> dec_bit Shrt (4 * c_st c + c_pos c) s;
        if b = 0 then inflate_shortrep (int (c_st c)) s else inflate_longrep (int (c_st c)) (c_pos c) 0 s }
      else do {
        (b, s) \<leftarrow> dec_bit Bit4 (c_st c) s;
        if b = 0 then inflate_longrep (int (c_st c)) (c_pos c) 1 s
        else do {
          (b, s) \<leftarrow> dec_bit Bit5 (c_st c) s;
          if b = 0 then inflate_longrep (int (c_st c)) (c_pos c) 2 s else inflate_longrep (int (c_st c)) (c_pos c) 3 s } } })"
    if u: "fits c (token_next c tok) u" "feeds (?p @ length_decs Replen (c_pos c) (len - 2) @ es) u" for u
  proof -
    consider "n = 0" | "n = 1" | "n = 2" | "n = 3" using assms(3) tok by fastforce
    then show ?thesis
    proof cases
      case 1
      then have f: "feeds (DBit Bit3 (c_st c) False # DBit Shrt (4 * c_st c + c_pos c) True # length_decs Replen (c_pos c) (len - 2) @ es) u"
        using u(2) by simp
      show ?thesis
        by (rule goes_branch[OF u(1) f], simp only: if_False, erule goes_branch, assumption, simp only: if_True, erule rep[unfolded 1], assumption)
    next
      case 2
      then have f: "feeds (DBit Bit3 (c_st c) True # DBit Bit4 (c_st c) False # length_decs Replen (c_pos c) (len - 2) @ es) u"
        using u(2) by simp
      show ?thesis
        by (rule goes_branch[OF u(1) f], simp only: if_True, erule goes_branch, assumption, simp only: if_False, erule rep[unfolded 2], assumption)
    next
      case 3
      then have f: "feeds (DBit Bit3 (c_st c) True # DBit Bit4 (c_st c) True # DBit Bit5 (c_st c) False # length_decs Replen (c_pos c) (len - 2) @ es) u"
        using u(2) by simp
      show ?thesis
        by (rule goes_branch[OF u(1) f], simp only: if_True, erule goes_branch, assumption, simp only: if_True, erule goes_branch, assumption,
          simp only: if_False, erule rep[unfolded 3], assumption)
    next
      case 4
      then have f: "feeds (DBit Bit3 (c_st c) True # DBit Bit4 (c_st c) True # DBit Bit5 (c_st c) True # length_decs Replen (c_pos c) (len - 2) @ es) u"
        using u(2) by simp
      show ?thesis
        by (rule goes_branch[OF u(1) f], simp only: if_True, erule goes_branch, assumption, simp only: if_True, erule goes_branch, assumption,
          simp only: if_True, erule rep[unfolded 4], assumption)
    qed
  qed
  then show ?thesis
    unfolding inflate_symbol_def
    by - (rule 1, simp only: if_True, erule goes_branch, assumption, simp only: if_True)
qed

lemma end_step:
  assumes "sync c s" and "feeds (end_decs c) s"
  shows "\<exists>t. inflate_symbol (c_st c) (c_pos c) s = Some (STATE_INVALID, t) \<and> pz_error t = LZMA_STREAM_END \<and> hist t = c_hist c"
proof -
  have s: "lz_wf s" using assms(1) by (simp add: sync_def)
  have f: "feeds (DBit Bit1 (4 * c_st c + c_pos c) True # DBit Bit2 (c_st c) False # match_len_decs c 2 (2 ^ 32 - 1)) s"
    using assms(2) by (simp add: end_decs_def)
  obtain s1 where s1: "dec_bit Bit1 (4 * c_st c + c_pos c) s = Some (of_bool True, s1)" "rdonly s s1"
    "feeds (DBit Bit2 (c_st c) False # match_len_decs c 2 (2 ^ 32 - 1)) s1"
    using dec_bit_feeds[OF s f] by blast
  obtain s2 where s2: "dec_bit Bit2 (c_st c) s1 = Some (of_bool False, s2)" "rdonly s1 s2" "feeds (match_len_decs c 2 (2 ^ 32 - 1) @ []) s2"
    using dec_bit_feeds[OF rdonly_same(1)[OF s1(2)] s1(3)] by auto
  have "sync c s2" by (rule sync_rdonly[OF sync_rdonly[OF assms(1) s1(2)] s2(2)])
  from inflate_match_end[OF this s2(3)] show ?thesis using s1(1) s2(1) by (simp add: inflate_symbol_def)
qed

section \<open>The whole stream\<close>

lemma c_ok_next: "c_ok c \<Longrightarrow> token_ok c tok \<Longrightarrow> c_ok (token_next c tok)"
  by (cases tok) (auto simp: c_ok_def lit_next_def move_rep_def unat_small)

lemma hist_grows: "length (c_hist c) \<le> length (c_hist (token_next c tok))"
  by (cases tok) auto

lemma expand_grows: "length (c_hist c) \<le> length (expand c ts)"
proof (induction ts arbitrary: c)
  case (Cons tok ts)
  then show ?case using hist_grows[of c tok] le_trans by (fastforce simp: expand_def)
qed (simp add: expand_def)

text \<open>The marks are at the ends of the buffers.\<close>

definition whole :: "lzst \<Rightarrow> bool" where
  "whole s \<longleftrightarrow> lz_srcptr s \<le> lz_srcend s \<and> lz_srcend s \<le> lz_srchwm s \<and> lz_dstptr s \<le> lz_dstend s \<and> lz_dstend s \<le> lz_dsthwm s"

lemma whole_adv: "whole s \<Longrightarrow> adv i n s t \<Longrightarrow> whole t"
  by (auto simp: whole_def adv_def same_setup_def)

lemma inflate_loop_round:
  assumes "lz_wf s" and "whole s" and "pz_error s = 0" and "pz_state s = int st" and "st < 12" and "pz_pos_state s = int p" and "p < 4"
    and "inflate_symbol st p s = Some (r, t)"
  shows "inflate_loop s = inflate_loop (t \<lparr> pz_state := r \<rparr>)" and "adv 48 273 s (t \<lparr> pz_state := r \<rparr>)"
proof -
  have a: "adv 48 273 s t" using inflate_symbol_ok[OF assms(1,5,7)] assms(8) by (auto simp: ok_def)
  show "adv 48 273 s (t \<lparr> pz_state := r \<rparr>)" using adv_trans[OF a, of 0 0 "t \<lparr> pz_state := r \<rparr>"] adv_wf[OF a] by simp
  have "to_uint (pz_state s) = st" "to_uint (pz_pos_state s) = p" using assms(4-7) by (simp_all add: to_uint_small)
  moreover have "\<not> lz_srchwm t < lz_srcptr t" "\<not> lz_dsthwm t < lz_dstptr t" using whole_adv[OF assms(2) a] by (auto simp: whole_def)
  ultimately show "inflate_loop s = inflate_loop (t \<lparr> pz_state := r \<rparr>)"
    using assms(3,5,7,8) by (subst inflate_loop.simps) (simp add: range_check_def Let_def)
qed

lemma sync_state: "sync c (s \<lparr> pz_state := x \<rparr>) = sync c s" "feeds ds (s \<lparr> pz_state := x \<rparr>) = feeds ds s"
  by (auto simp: sync_def lz_wf_def hist_def intro!: feeds_same) (simp_all add: feeds_def pending_def)

lemma inflate_tokens:
  "tokens_ok c ts \<Longrightarrow> c_ok c \<Longrightarrow> sync c s \<Longrightarrow> pz_state s = int (c_st c) \<Longrightarrow> whole s \<Longrightarrow> feeds (tokens_decs c ts) s \<Longrightarrow>
   lz_dstbuf s + length (expand c ts) \<le> lz_dstend s \<Longrightarrow>
   \<exists>t. inflate_loop s = Some (LZMA_STREAM_END, t) \<and> hist t = expand c ts"
proof (induction ts arbitrary: c s)
  case Nil
  have s: "lz_wf s" "pz_error s = 0" "pz_pos_state s = int (c_pos c)" "c_pos c < 4" "c_st c < 12"
    using Nil.prems(2,3) by (auto simp: sync_def c_ok_def)
  obtain t where t: "inflate_symbol (c_st c) (c_pos c) s = Some (STATE_INVALID, t)" "pz_error t = LZMA_STREAM_END" "hist t = c_hist c"
    using end_step[OF Nil.prems(3)] Nil.prems(6) by auto
  have "inflate_loop s = inflate_loop (t \<lparr> pz_state := STATE_INVALID \<rparr>)"
    by (rule inflate_loop_round(1)[OF s(1) Nil.prems(5) s(2) Nil.prems(4) s(5,3,4) t(1)])
  also have "\<dots> = Some (LZMA_STREAM_END, t \<lparr> pz_state := STATE_INVALID \<rparr>)"
    using inflate_loop_error[of "t \<lparr> pz_state := STATE_INVALID \<rparr>"] t(2) by (simp add: LZMA_STREAM_END_def)
  finally show ?case using t(3) by (simp add: hist_def expand_def)
next
  case (Cons tok ts)
  let ?c = "token_next c tok"
  have s: "lz_wf s" "pz_error s = 0" "pz_pos_state s = int (c_pos c)" "c_pos c < 4" "c_st c < 12" "hist s = c_hist c"
    using Cons.prems(2,3) by (auto simp: sync_def c_ok_def)
  have ok: "token_ok c tok" "tokens_ok ?c ts" "expand c (tok # ts) = expand ?c ts" using Cons.prems(1) by (auto simp: expand_def)
  have "lz_dstptr s = lz_dstbuf s + length (c_hist c)" using length_hist[OF s(1)] s(1,6) by (auto simp: lz_wf_def)
  then have at: "fits c ?c s" using Cons.prems(3,7) expand_grows[of ?c ts] ok(3) by (simp add: fits_def)
  have f: "feeds (token_decs c tok @ tokens_decs ?c ts) s" using Cons.prems(6) by simp
  obtain t where t: "inflate_symbol (c_st c) (c_pos c) s = Some (int (c_st ?c), t)" "sync ?c t" "feeds (tokens_decs ?c ts) t"
    using token_step[OF at Cons.prems(2) ok(1) f] by (auto simp: goes_on_def)
  let ?t = "t \<lparr> pz_state := int (c_st ?c) \<rparr>"
  note r = inflate_loop_round[OF s(1) Cons.prems(5) s(2) Cons.prems(4) s(5,3,4) t(1)]
  have "lz_dstbuf ?t + length (expand ?c ts) \<le> lz_dstend ?t"
    using Cons.prems(7) ok(3) r(2) by (simp add: adv_def same_setup_def)
  from Cons.IH[OF ok(2) c_ok_next[OF Cons.prems(2) ok(1)] _ _ whole_adv[OF Cons.prems(5) r(2)] _ this] show ?case
    using t(2,3) r(1) ok(3) by (simp add: sync_state)
qed

end
