(* ===== verification/Lzma_Props.thy ===== *)
theory Lzma_Props
  imports Lzma_Decode
begin

text \<open>
  The stream of a list of tokens, and the theorem that \<open>lzma_create\<close> and \<open>lzma_inflate\<close> restore the text
  from it; then the concrete instances of the properties of the decoder.
\<close>

section \<open>The encoder's decisions are valid\<close>

lemma tree_decs_valid:
  "unat ret < 2 ^ j \<Longrightarrow> 2 ^ (j + length bs) \<le> 2 * n \<Longrightarrow> off + n \<le> tab_size t \<Longrightarrow> j + length bs \<le> 31 \<Longrightarrow>
   \<forall>d \<in> set (tree_decs t off bs ret). valid_dcs d"
proof (induction bs arbitrary: ret j)
  case (Cons b bs)
  have "(2 :: nat) ^ j \<le> 2 ^ (j + length bs)" "(2 :: nat) ^ j \<le> 2 ^ 31"
    using Cons.prems(4) by (intro power_increasing; simp)+
  moreover have "2 ^ (j + length bs) \<le> n" using Cons.prems(2) by simp
  ultimately have lt: "unat ret < n" "unat ret < 2 ^ 31" using Cons.prems(1) by linarith+
  then have "unat (app_bit ret b) = 2 * unat ret + of_bool b"
    using unat_next_bit[of ret "of_bool b"] by (simp add: app_bit_def)
  then have "unat (app_bit ret b) < 2 ^ Suc j" using Cons.prems(1) by (auto simp: of_bool_def)
  from Cons.IH[OF this] Cons.prems(2-4) show ?case using lt by simp
qed simp

lemma match_decs_valid:
  "2 ^ j \<le> unat ret \<Longrightarrow> unat ret < 2 ^ Suc j \<Longrightarrow> j + length bs = 8 \<Longrightarrow> off + 768 \<le> tab_size t \<Longrightarrow>
   \<forall>d \<in> set (match_decs t off mb bs ret). valid_dcs d"
proof (induction bs arbitrary: ret j)
  case (Cons b bs)
  let ?m = "drop_bit (length bs) mb AND 1"
  have "(2 :: nat) ^ Suc j \<le> 2 ^ 8" using Cons.prems(3) by (intro power_increasing) auto
  then have l: "unat ret < 256" using Cons.prems(2) by simp
  have o: "unat (ret + push_bit 8 ?m + 0x100) < 768"
    using unat_match_index[OF l, of ?m] and_one_cases[of "drop_bit (length bs) mb"] l by auto
  have j: "j < 30" "Suc j + length bs = 8" using Cons.prems(3) by auto
  note ix = app_bit_index[OF Cons.prems(1,2) j(1), of b]
  have "\<forall>d \<in> set (tree_decs t off bs (app_bit ret b)). valid_dcs d"
    by (rule tree_decs_valid[OF ix(2), of bs 768]) (use j(2) Cons.prems(4) in auto)
  then show ?case using Cons.IH[OF ix j(2) Cons.prems(4)] o Cons.prems(4)
    by (simp only: match_decs.simps Let_def list.set ball_simps valid_dcs.simps split: if_split) linarith
qed simp

lemma length_decs_valid: "p < 4 \<Longrightarrow> n \<le> 271 \<Longrightarrow> \<forall>d \<in> set (length_decs lm p n). valid_dcs d"
  using tree_decs_valid[of 1 1 "bits_of 3 n" 8 "8 * p" "Low lm"] tree_decs_valid[of 1 1 "bits_of 3 (n - 8)" 8 "8 * p" "Mid lm"]
    tree_decs_valid[of 1 1 "bits_of 8 (n - 16)" 256 0 "High lm"]
  by (auto simp: length_decs_def)

lemma rtree_decs_valid: "2 ^ n \<le> k \<Longrightarrow> off + k \<le> tab_size t \<Longrightarrow> n < 31 \<Longrightarrow> \<forall>d \<in> set (rtree_decs t off n v). valid_dcs d"
  using tree_decs_valid[of 1 1 "rev (bits_of n v)" k off t] by (simp add: rtree_decs_def)

lemma dist_decs_valid:
  assumes "d < 2 ^ 32"
  shows "\<forall>e \<in> set (dist_decs d). valid_dcs e"
proof (cases "d < 4")
  case True
  then show ?thesis by (simp add: dist_decs_def slot_of_def)
next
  case False
  then have f: "4 \<le> slot_of d" "slot_limit (slot_of d) \<le> 30" using slot_facts[of d] assms by auto
  show ?thesis
  proof (cases "slot_of d < 14")
    case True
    note s = short_distance_word[OF f(1) True]
    have "\<forall>e \<in> set (rtree_decs Dispec (slot_base (slot_of d) - slot_of d) (slot_limit (slot_of d)) (d - slot_base (slot_of d))). valid_dcs e"
      by (rule rtree_decs_valid[OF s(3)]) (use s f(2) in auto)
    then show ?thesis using True f(1) by (simp add: dist_decs_def Let_def)
  next
    case False
    have "\<forall>e \<in> set (direct_decs n v). valid_dcs e" for n v by (auto simp: direct_decs_def)
    then show ?thesis using False f(1) rtree_decs_valid[of 4 16 0 Align] by (auto simp: dist_decs_def Let_def)
  qed
qed

lemma match_len_decs_valid:
  assumes "c_pos c < 4" and "len \<le> 273" and "d < 2 ^ 32"
  shows "\<forall>e \<in> set (match_len_decs c len d). valid_dcs e"
proof -
  have "\<forall>e \<in> set (tree_decs Dislot (64 * min (len - 2) 3) (bits_of 6 (slot_of d)) 1). valid_dcs e"
    by (rule tree_decs_valid[of _ 1 _ 64]) auto
  then show ?thesis using length_decs_valid[OF assms(1), of "len - 2"] dist_decs_valid[OF assms(3)] assms(2)
    by (auto simp: match_len_decs_def)
qed

lemma lit_decs_valid: "\<forall>e \<in> set (lit_decs c x). valid_dcs e"
proof -
  let ?c0 = "if c_hist c = [] then 0 else last (c_hist c)"
  have "unat ?c0 < 256" using unsigned_less[of ?c0, where ?'a = nat] by simp
  then have "unat (drop_bit 5 ?c0) < 8" by (simp add: drop_bit_eq_div unat_div)
  then have o: "lit_off c + 768 \<le> tab_size Literal" by (simp add: lit_off_def)
  show ?thesis
    using tree_decs_valid[of 1 1 "bits_of 8 (unat x)" 256 "lit_off c" Literal] match_decs_valid[of 0 1 "bits_of 8 (unat x)" "lit_off c" Literal] o
    by (simp add: lit_decs_def)
qed

lemma token_decs_valid:
  assumes "c_ok c" and "token_ok c tok"
  shows "\<forall>e \<in> set (token_decs c tok). valid_dcs e"
proof (cases tok)
  case (Lit x)
  then show ?thesis using lit_decs_valid[of c x] assms(1) by (auto simp: c_ok_def)
next
  case (Match len d)
  then show ?thesis using match_len_decs_valid[of c len d] assms by (auto simp: c_ok_def)
next
  case Short
  then show ?thesis using assms(1) by (auto simp: c_ok_def)
next
  case (Rep n len)
  then have "\<forall>e \<in> set (length_decs Replen (c_pos c) (len - 2)). valid_dcs e"
    using assms by (intro length_decs_valid) (auto simp: c_ok_def)
  then show ?thesis using Rep assms(1) by (auto simp: c_ok_def)
qed

lemma tokens_decs_valid: "c_ok c \<Longrightarrow> tokens_ok c ts \<Longrightarrow> \<forall>e \<in> set (tokens_decs c ts). valid_dcs e"
proof (induction ts arbitrary: c)
  case Nil
  then show ?case using match_len_decs_valid[of c 2 "2 ^ 32 - 1"] by (auto simp: end_decs_def c_ok_def)
next
  case (Cons tok ts)
  then show ?case using token_decs_valid[of c tok] c_ok_next[of c tok] by auto
qed

section \<open>The stream of a list of tokens\<close>

definition init_models :: models where
  "init_models t = replicate (tab_size t) (push_bit 10 1)"

definition c_init :: lzc where
  "c_init = \<lparr> c_st = 0, c_pos = 0, c_rep = replicate 4 0, c_hist = [] \<rparr>"

text \<open>The \<open>n\<close> low bytes of a number, most significant first.\<close>

fun nat_bytes :: "nat \<Rightarrow> nat \<Rightarrow> byte list" where
  "nat_bytes 0 v = []"
| "nat_bytes (Suc n) v = word_of_nat (v div 256 ^ n) # nat_bytes n v"

text \<open>Any number of the final interval will do; this is the first.\<close>

definition lzma_encode :: "token list \<Rightarrow> byte list" where
  "lzma_encode ts = (case enc (tokens_decs c_init ts) (2 ^ 32 - 1) init_models of (l, w, k) \<Rightarrow> nat_bytes (4 + k) l)"

lemma length_nat_bytes [simp]: "length (nat_bytes n v) = n"
  by (induction n) auto

lemma be_nat_bytes: "be_nat (nat_bytes n v) = v mod 256 ^ n"
proof (induction n)
  case (Suc n)
  have "unat (word_of_nat (v div 256 ^ n) :: byte) = v div 256 ^ n mod 256"
    by (simp add: unsigned_of_nat take_bit_eq_mod)
  then show ?case using Suc.IH mod_mult2_eq[of v "256 ^ n" 256] by (simp add: ac_simps)
qed simp

lemma init_private_models: "pz_probs (init_private s) = init_models"
proof
  fix t
  show "pz_probs (init_private s) t = init_models t"
    unfolding init_private_def init_lenmodel_def init_probs_def init_models_def Let_def
    by (cases t) (simp_all split: lenmodel.split, (metis lenmodel.exhaust)+)
qed

lemma models_ok_init: "models_ok init_models"
  by (simp add: models_ok_def init_models_def)

lemma c_ok_init: "c_ok c_init"
  by (simp add: c_ok_def c_init_def)

section \<open>Starting the decoder\<close>

text \<open>What the caller does between the two calls: the whole input and the whole output at once.\<close>

definition set_buffers :: "nat \<Rightarrow> mem \<Rightarrow> nat \<Rightarrow> mem \<Rightarrow> lzst \<Rightarrow> lzst" where
  "set_buffers a src b dst s = s \<lparr>
     lz_srcbuf := a, lz_srcptr := a, lz_srchwm := a + length src, lz_srcend := a + length src, in_base := a, in_mem := src,
     lz_dstbuf := b, lz_dstptr := b, lz_dsthwm := b + length dst, lz_dstend := b + length dst, out_base := b, out_mem := dst \<rparr>"

lemma set_buffers_facts:
  fixes a b :: nat and src dst :: mem
  assumes "lzma_create z len = Some s"
  defines "s1 \<equiv> set_buffers a src b dst s"
  shows "lz_wf s1" and "whole s1" and "pending s1 = src" and "hist s1 = []" and "pz_error s1 = 0" and "pz_state s1 = STATE_INITIAL"
    and "pz_pos_state s1 = 0" and "pz_rep s1 = replicate 4 0" and "pz_probs s1 = init_models"
    and "lz_dstbuf s1 = b" and "lz_dstend s1 = b + length dst"
proof -
  have s: "s = init_private (z \<lparr> lz_srcbuf := 0 \<rparr>)" using assms(1) by (simp add: lzma_create_def split: if_splits)
  have p: "pz_probs s = init_models" unfolding s by (rule init_private_models)
  have f: "pz_error s = 0" "pz_state s = STATE_INITIAL" "pz_pos_state s = 0" "pz_rep s = replicate 4 0"
    unfolding s by (simp_all add: init_private_def)
  show "lz_wf s1" "whole s1" "pending s1 = src" "hist s1 = []" "pz_error s1 = 0" "pz_state s1 = STATE_INITIAL"
    "pz_pos_state s1 = 0" "pz_rep s1 = replicate 4 0" "pz_probs s1 = init_models" "lz_dstbuf s1 = b" "lz_dstend s1 = b + length dst"
    using p f unfolding s1_def
    by (simp_all add: set_buffers_def lz_wf_def whole_def pending_def hist_def init_models_def)
qed

lemma code_of_bytes:
  "unat (fold (\<lambda>b code. push_bit 8 code OR ucast b) [b0, b1, b2, b3] (0 :: u32)) = be_nat [b0, b1, b2, b3]"
proof -
  have b: "unat b < 256" for b :: byte using unsigned_less[of b, where ?'a = nat] by simp
  have 1: "unat (push_bit 8 0 OR ucast b0 :: u32) = unat b0" using unat_shift8_or[of 0 b0] by simp
  have 2: "unat (push_bit 8 (push_bit 8 0 OR ucast b0) OR ucast b1 :: u32) = unat b0 * 256 + unat b1"
    using unat_shift8_or[of "push_bit 8 0 OR ucast b0" b1] b[of b0] unfolding 1 by simp
  have 3: "unat (push_bit 8 (push_bit 8 (push_bit 8 0 OR ucast b0) OR ucast b1) OR ucast b2 :: u32) = (unat b0 * 256 + unat b1) * 256 + unat b2"
    using unat_shift8_or[of "push_bit 8 (push_bit 8 0 OR ucast b0) OR ucast b1" b2] b[of b0] b[of b1] unfolding 2 by simp
  show ?thesis
    using unat_shift8_or[of "push_bit 8 (push_bit 8 (push_bit 8 0 OR ucast b0) OR ucast b1) OR ucast b2" b3] b[of b0] b[of b1] b[of b2]
    unfolding 3 fold.simps comp_apply id_apply by simp
qed

lemma be_nat_append: "be_nat (xs @ ys) = be_nat xs * 256 ^ length ys + be_nat ys"
  by (induction xs) (simp_all add: power_add algebra_simps)

text \<open>The first call loads four bytes, which puts the code into the encoder's interval.\<close>

lemma check_buffers_loads:
  assumes "lz_wf s" and "\<not> null_ptr s" and "pz_state s = STATE_INITIAL" and "pending s = b0 # b1 # b2 # b3 # r"
  shows "\<exists>t. check_buffers s = Some t \<and> unat (pz_code t) = be_nat [b0, b1, b2, b3] \<and> pending t = r \<and>
    t = s \<lparr> lz_srcptr := lz_srcptr s + 4, pz_code := pz_code t, pz_state := STATE_LIT_LIT, pz_range := 0xFFFFFFFF \<rparr>"
proof -
  have wf: "lz_wf (s \<lparr> lz_srcptr := lz_srcptr s + n \<rparr>)" for n using assms(1) by (simp add: lz_wf_def)
  let ?s = "\<lambda>n. s \<lparr> lz_srcptr := lz_srcptr s + n \<rparr>"
  have g: "get_byte (?s n) = Some (b, ?s (Suc n)) \<and> pending (?s (Suc n)) = q" if "pending (?s n) = b # q" for n b q
    using get_byte_pending[OF wf that] by simp
  have s0: "pending (?s 0) = b0 # b1 # b2 # b3 # r" "?s 0 = s" using assms(4) by simp_all
  note g0 = g[OF s0(1)]
  note g1 = g[OF conjunct2[OF g0]]
  note g2 = g[OF conjunct2[OF g1]]
  note g3 = g[OF conjunct2[OF g2]]
  have null: "\<not> (lz_srcbuf s = 0 \<or> lz_srcptr s = 0 \<or> lz_srcend s = 0)" "\<not> (lz_dstbuf s = 0 \<or> lz_dstptr s = 0 \<or> lz_dstend s = 0)"
    using assms(2) by (auto simp: null_ptr_def)
  let ?c = "fold (\<lambda>b code. push_bit 8 code OR ucast b) [b0, b1, b2, b3] (0 :: u32)"
  let ?t = "?s 4 \<lparr> pz_code := ?c, pz_state := STATE_LIT_LIT, pz_range := 0xFFFFFFFF \<rparr>"
  have "check_buffers s = Some ?t"
    unfolding check_buffers_def if_not_P[OF null(1)] if_not_P[OF null(2)] using assms(3) g0 g1 g2 g3 s0(2)
    by (simp add: Let_def numeral_eq_Suc)
  moreover have "pending ?t = r" using g3 by (simp add: pending_def numeral_eq_Suc)
  moreover have "unat (pz_code ?t) = be_nat [b0, b1, b2, b3]" using code_of_bytes[of b0 b1 b2 b3] by simp
  ultimately show ?thesis by (intro exI[of _ ?t]) simp
qed

lemma lzma_encode_split:
  assumes "enc (tokens_decs c_init ts) (2 ^ 32 - 1) init_models = (l, w, k)" and "tokens_ok c_init ts"
  obtains b0 b1 b2 b3 r where "lzma_encode ts = b0 # b1 # b2 # b3 # r" and "length r = k"
    and "be_nat [b0, b1, b2, b3] * 256 ^ k + be_nat r = l" and "0 < w"
proof -
  have e: "lzma_encode ts = nat_bytes (4 + k) l" using assms(1) by (simp add: lzma_encode_def)
  have "0 < w \<and> l + w \<le> (2 ^ 32 - 1) * 256 ^ k"
    by (rule enc_inside[OF assms(1) tokens_decs_valid[OF c_ok_init assms(2)] models_ok_init]) simp_all
  then have w: "0 < w" "l < 2 ^ 32 * 256 ^ k" by (auto simp: algebra_simps)
  have four: "4 + k = Suc (Suc (Suc (Suc k)))" by simp
  from w have l: "be_nat (lzma_encode ts) = l" unfolding e be_nat_bytes by (simp add: power_add)
  obtain b0 b1 b2 b3 r where r: "lzma_encode ts = b0 # b1 # b2 # b3 # r"
    unfolding e four nat_bytes.simps by blast
  moreover have "length (lzma_encode ts) = 4 + k" unfolding e by simp
  ultimately have "length r = k" by simp
  moreover have "lzma_encode ts = [b0, b1, b2, b3] @ r" using r by simp
  then have "be_nat [b0, b1, b2, b3] * 256 ^ length r + be_nat r = l" using l be_nat_append by metis
  ultimately show ?thesis using that r w(1) by metis
qed

section \<open>Properties\<close>

text \<open>
  C19.  Decompression inverts compression: from the stream of any valid list of tokens, literals and
  copies of every kind, followed by any other bytes, a fresh decoder restores exactly the text the
  tokens stand for, at the start of the output, and reports the end of the stream.
\<close>

theorem lzma_roundtrip:
  assumes "lzma_create z len = Some s" and "0 < a" and "0 < b" and "tokens_ok c_init ts"
    and "length (expand c_init ts) \<le> length dst"
  shows "\<exists>s'. lzma_inflate (set_buffers a (lzma_encode ts @ rest) b dst s) = Some (LZMA_STREAM_END, s') \<and>
    lz_dstptr s' = b + length (expand c_init ts) \<and> take (length (expand c_init ts)) (out_mem s') = expand c_init ts"
proof -
  obtain l w k where e: "enc (tokens_decs c_init ts) (2 ^ 32 - 1) init_models = (l, w, k)" by (metis prod_cases3)
  obtain b0 b1 b2 b3 r where r: "lzma_encode ts = b0 # b1 # b2 # b3 # r" "length r = k"
    "be_nat [b0, b1, b2, b3] * 256 ^ k + be_nat r = l" "0 < w" by (rule lzma_encode_split[OF e assms(4)])
  define s1 where "s1 = set_buffers a (lzma_encode ts @ rest) b dst s"
  note f = set_buffers_facts[OF assms(1), of a "lzma_encode ts @ rest" b dst, folded s1_def]
  have "\<not> null_ptr s1" using assms(2,3) by (simp add: null_ptr_def s1_def set_buffers_def)
  then obtain t where t: "check_buffers s1 = Some t" "unat (pz_code t) = be_nat [b0, b1, b2, b3]" "pending t = r @ rest"
    "t = s1 \<lparr> lz_srcptr := lz_srcptr s1 + 4, pz_code := pz_code t, pz_state := STATE_LIT_LIT, pz_range := 0xFFFFFFFF \<rparr>"
    using check_buffers_loads[OF f(1) _ f(6), of b0 b1 b2 b3 "r @ rest"] f(3) r(1) by auto
  have ad: "adv 4 0 s1 t" using check_buffers_adv[OF f(1) \<open>\<not> null_ptr s1\<close>] t(1) by auto
  have same: "hist t = hist s1" "pz_error t = 0" "pz_state t = 0" "pz_pos_state t = 0" "pz_rep t = replicate 4 0" "pz_probs t = init_models"
    "pz_range t = 0xFFFFFFFF" "lz_dstbuf t = b" "lz_dstend t = b + length dst"
    using f(5-11) by (subst t(4), simp add: hist_def STATE_LIT_LIT_def)+
  have sy: "sync c_init t" using adv_wf[OF ad] same f(4) by (simp add: sync_def c_init_def)
  have "feeds (tokens_decs c_init ts) t"
    using tokens_decs_valid[OF c_ok_init assms(4)] models_ok_init same(6,7) t(2,3) e r(2-4)
    by (simp add: feeds_def in_interval_def)
  from inflate_tokens[OF assms(4) c_ok_init sy _ whole_adv[OF f(2) ad] this] obtain u where
    u: "inflate_loop t = Some (LZMA_STREAM_END, u)" "hist u = expand c_init ts"
    using same(3,8,9) assms(5) by (auto simp: c_init_def)
  obtain i n where au: "adv i n t u" using inflate_loop_ends[OF adv_wf[OF ad]] u(1) by (auto simp: inflate_post_def)
  then have "lz_wf u" "lz_dstbuf u = b" "out_base u = b"
    using same(8) ad unfolding adv_def same_setup_def by (auto simp: s1_def set_buffers_def)
  then have "lz_dstptr u = b + length (expand c_init ts)" "take (length (expand c_init ts)) (out_mem u) = expand c_init ts"
    using u(2) length_hist[of u] by (auto simp: hist_def lz_wf_def)
  then show ?thesis using t(1) u(1) by (simp add: lzma_inflate_def s1_def)
qed

definition lz_blank :: lzst where
  "lz_blank = \<lparr> lz_srcbuf = 0, lz_srcptr = 0, lz_srchwm = 0, lz_srcend = 0, lz_dstbuf = 0, lz_dstptr = 0, lz_dsthwm = 0, lz_dstend = 0,
     pz_state = 0, pz_pos_state = 0, pz_error = 0, pz_code = 0, pz_range = 0, pz_rep = [], pz_probs = (\<lambda>_. []),
     in_base = 0, in_mem = [], out_base = 0, out_mem = [] \<rparr>"

definition demo_tokens :: "token list" where
  "demo_tokens = [Lit 1, Lit 2, Match 3 1, Short, Lit 7, Rep 0 2, Lit 9]"

lemma lz_copy_numeral: "lz_copy d (numeral n) h = lz_copy d (pred_numeral n) (h @ [behind h d])"
  by (simp add: numeral_eq_Suc)

lemma demo_text: "tokens_ok c_init demo_tokens" "expand c_init demo_tokens = [1, 2, 1, 2, 1, 2, 7, 2, 7, 9]"
  unfolding demo_tokens_def c_init_def
  by (simp_all add: expand_def behind_def lit_next_def move_rep_def lz_copy_numeral)

lemma demo_create: "lzma_create lz_blank 30000 = Some (init_private (lz_blank \<lparr> lz_srcbuf := 0 \<rparr>))"
  by (simp add: lzma_create_def private_size_def)

theorem lzma_roundtrip_witness:
  "\<exists>s s'. lzma_create lz_blank 30000 = Some s \<and>
     lzma_inflate (set_buffers 16 (lzma_encode demo_tokens @ [5]) 4096 (replicate 12 0) s) = Some (LZMA_STREAM_END, s') \<and>
     lz_dstptr s' = 4106 \<and> take 10 (out_mem s') = [1, 2, 1, 2, 1, 2, 7, 2, 7, 9]"
  using lzma_roundtrip[OF demo_create _ _ demo_text(1), of 16 4096 "replicate 12 0" "[5]"] demo_create
  unfolding demo_text(2) by (simp add: eval_nat_numeral)

text \<open>A decoder with 200 bytes of input and 1000 of output, the marks well before the ends.\<close>

definition demo_state :: lzst where
  "demo_state = (set_buffers 16 (replicate 200 5) 4096 (replicate 1000 0) (init_private (lz_blank \<lparr> lz_srcbuf := 0 \<rparr>)))
     \<lparr> lz_srchwm := 100, lz_dsthwm := 4196 \<rparr>"

lemma demo_state_ok: "lz_wf demo_state" "pz_error demo_state = 0" "\<not> null_ptr demo_state"
  using set_buffers_facts(1,5)[OF demo_create, of 16 "replicate 200 5" 4096 "replicate 1000 0"]
  by (simp_all add: demo_state_def lz_wf_def null_ptr_def) (simp_all add: set_buffers_def)

lemma demo_state_marks:
  "lz_srcptr demo_state = 16" "lz_srchwm demo_state = 100" "lz_srcend demo_state = 216"
  "lz_dstptr demo_state = 4096" "lz_dsthwm demo_state = 4196" "lz_dstend demo_state = 5096"
  by (simp_all add: demo_state_def set_buffers_def)

theorem lzma_inflate_ends_witness:
  "lz_wf demo_state \<and> (\<exists>ret s'. lzma_inflate demo_state = Some (ret, s') \<and> ret \<in> {1..7} \<and> lz_wf s' \<and> lz_srcptr demo_state \<le> lz_srcptr s')"
  using lzma_inflate_ends[of demo_state] demo_state_ok by auto

theorem lzma_inflate_slack_witness:
  "\<exists>ret s'. lzma_inflate demo_state = Some (ret, s') \<and> ret \<noteq> LZMA_INPUT_OVER \<and> ret \<noteq> LZMA_OUTPUT_OVER \<and>
     lz_srcptr s' \<le> 152 \<and> lz_dstptr s' \<le> 4469"
  using lzma_inflate_slack[OF demo_state_ok] unfolding demo_state_marks by simp

end
