(* ===== verification/Outcome.thy ===== *)
theory Outcome
  imports Prelude
begin

text \<open>
  Outcomes of the parts of a program that may end it: the result, a call of \<open>fail\<close> with its message, an \<open>_exit\<close> with its code (each
  with the state the program ends in), or undefined behaviour.  \<open>safe m Q\<close> says that \<open>m\<close> is defined, and that \<open>Q\<close> holds of its
  result if it has one; its rules follow the constructs an operation is composed of.
\<close>

datatype ('s, 'a) outcome = Done 'a | Fail string 's | Exit int 's | Undef

fun andthen :: "('s, 'a) outcome \<Rightarrow> ('a \<Rightarrow> ('s, 'b) outcome) \<Rightarrow> ('s, 'b) outcome" where
  "andthen (Done a) f = f a"
| "andthen (Fail m s) f = Fail m s"
| "andthen (Exit c s) f = Exit c s"
| "andthen Undef f = Undef"

definition defined :: "'a option \<Rightarrow> ('s, 'a) outcome" where
  "defined r = (case r of None \<Rightarrow> Undef | Some a \<Rightarrow> Done a)"

fun safe :: "('s, 'a) outcome \<Rightarrow> ('a \<Rightarrow> bool) \<Rightarrow> bool" where
  "safe (Done a) Q = Q a"
| "safe Undef Q = False"
| "safe (Fail m s) Q = True"
| "safe (Exit c s) Q = True"

named_theorems safety "rules of safe"

lemma defined_simps [simp]: "defined (Some a) = Done a" "defined None = Undef"
  by (simp_all add: defined_def)

lemma andthen_assoc: "andthen (andthen m f) g = andthen m (\<lambda>a. andthen (f a) g)"
  by (cases m) simp_all

lemma andthen_Done_iff: "andthen m f = Done b \<longleftrightarrow> (\<exists>a. m = Done a \<and> f a = Done b)"
  by (cases m) simp_all

lemma safe_andthen [safety]: "safe m Q \<Longrightarrow> (\<And>a. Q a \<Longrightarrow> safe (f a) R) \<Longrightarrow> safe (andthen m f) R"
  by (cases m) simp_all

lemma safe_mono: "safe m Q \<Longrightarrow> (\<And>a. Q a \<Longrightarrow> R a) \<Longrightarrow> safe m R"
  by (cases m) simp_all

lemma safe_if: "(b \<Longrightarrow> safe m Q) \<Longrightarrow> (\<not> b \<Longrightarrow> safe n Q) \<Longrightarrow> safe (if b then m else n) Q"
  by simp

lemma safe_defined: "r = Some a \<Longrightarrow> Q a \<Longrightarrow> safe (defined r) Q"
  by simp

lemma safe_Done: "safe m Q \<Longrightarrow> m = Done a \<Longrightarrow> Q a"
  by simp

lemma safe_not_Undef: "safe m Q \<Longrightarrow> m \<noteq> Undef"
  by auto

end
