(* ===== verification/Scrypt.thy ===== *)
theory Scrypt
  imports Sha256
begin

text \<open>
  The memory-hard key derivation of \<^verbatim>\<open>lib/crypto/scrypt.c\<close>, on top of PBKDF2, and that it computes the
  function of RFC 7914.  Arrays of 32-bit words are lists of words with checked access; the arrays \<open>B\<close>,
  \<open>X\<close>, \<open>Y\<close>, \<open>Z\<close> and \<open>V\<close> are disjoint parts of the caller's buffer, loaded from it and stored back.  A signed
  overflow is \<open>None\<close>.
\<close>

section \<open>Definitions\<close>

type_synonym words = "u32 list"

definition rdw :: "words \<Rightarrow> nat \<Rightarrow> nat \<Rightarrow> words option" where
  "rdw a p n = (if p + n \<le> length a then Some (take n (drop p a)) else None)"

definition wrw :: "words \<Rightarrow> nat \<Rightarrow> words \<Rightarrow> words option" where
  "wrw a p v = (if p + length v \<le> length a then Some (take p a @ v @ drop (p + length v) a) else None)"

definition blkcpy :: "words \<Rightarrow> nat \<Rightarrow> words \<Rightarrow> nat \<Rightarrow> nat \<Rightarrow> words option" where
  "blkcpy dst d src s n = do { v \<leftarrow> rdw src s n; wrw dst d v }"

definition blkxor :: "words \<Rightarrow> nat \<Rightarrow> words \<Rightarrow> nat \<Rightarrow> nat \<Rightarrow> words option" where
  "blkxor dst d src s n = do { v \<leftarrow> rdw src s n; u \<leftarrow> rdw dst d n; wrw dst d (map2 (XOR) u v) }"

definition blkadd :: "words \<Rightarrow> nat \<Rightarrow> words \<Rightarrow> nat \<Rightarrow> nat \<Rightarrow> words option" where
  "blkadd dst d src s n = do { v \<leftarrow> rdw src s n; u \<leftarrow> rdw dst d n; wrw dst d (map2 (+) u v) }"

definition rotl :: "u32 \<Rightarrow> nat \<Rightarrow> u32" where
  "rotl x n = push_bit n x OR drop_bit (32 - n) x"

definition sx :: "words \<Rightarrow> nat \<Rightarrow> nat \<Rightarrow> nat \<Rightarrow> nat \<Rightarrow> words" where
  "sx x k i j n = x[k := x ! k XOR rotl (x ! i + x ! j) n]"

text \<open>The body of the loop of \<open>salsa20_8\<close>.\<close>

definition double_round :: "words \<Rightarrow> words" where
  "double_round x = (let
     x = sx x 4 0 12 7;    x = sx x 8 4 0 9;     x = sx x 12 8 4 13;   x = sx x 0 12 8 18;
     x = sx x 9 5 1 7;     x = sx x 13 9 5 9;    x = sx x 1 13 9 13;   x = sx x 5 1 13 18;
     x = sx x 14 10 6 7;   x = sx x 2 14 10 9;   x = sx x 6 2 14 13;   x = sx x 10 6 2 18;
     x = sx x 3 15 11 7;   x = sx x 7 3 15 9;    x = sx x 11 7 3 13;   x = sx x 15 11 7 18;
     x = sx x 1 0 3 7;     x = sx x 2 1 0 9;     x = sx x 3 2 1 13;    x = sx x 0 3 2 18;
     x = sx x 6 5 4 7;     x = sx x 7 6 5 9;     x = sx x 4 7 6 13;    x = sx x 5 4 7 18;
     x = sx x 11 10 9 7;   x = sx x 8 11 10 9;   x = sx x 9 8 11 13;   x = sx x 10 9 8 18;
     x = sx x 12 15 14 7;  x = sx x 13 12 15 9;  x = sx x 14 13 12 13
     in sx x 15 14 13 18)"

definition salsa20_8 :: "words \<Rightarrow> words option" where
  "salsa20_8 B = do {
     x \<leftarrow> blkcpy (replicate 16 0) 0 B 0 16;
     blkadd B 0 ((double_round ^^ 4) x) 0 16 }"

function blockmix_loop :: "words \<Rightarrow> words \<Rightarrow> words \<Rightarrow> nat \<Rightarrow> nat \<Rightarrow> (words \<times> words) option" where
  "blockmix_loop Bin Bout X r i =
     (if i < 2 * r then do {
        X \<leftarrow> blkxor X 0 Bin (i * 16) 16;
        X \<leftarrow> salsa20_8 X;
        Bout \<leftarrow> blkcpy Bout (i * 8) X 0 16;
        X \<leftarrow> blkxor X 0 Bin (i * 16 + 16) 16;
        X \<leftarrow> salsa20_8 X;
        Bout \<leftarrow> blkcpy Bout (i * 8 + r * 16) X 0 16;
        blockmix_loop Bin Bout X r (i + 2) }
      else Some (Bout, X))"
  by pat_completeness auto
termination by (relation "measure (\<lambda>(Bin, Bout, X, r, i). 2 * r - i)") auto

declare blockmix_loop.simps [simp del]

definition blockmix :: "words \<Rightarrow> words \<Rightarrow> words \<Rightarrow> nat \<Rightarrow> (words \<times> words) option" where
  "blockmix Bin Bout X r = do {
     X \<leftarrow> blkcpy X 0 Bin ((2 * r - 1) * 16) 16;
     blockmix_loop Bin Bout X r 0 }"

definition integerify :: "words \<Rightarrow> nat \<Rightarrow> u64 option" where
  "integerify B r = do {
     let i = (2 * r - 1) * 16;
     rh \<leftarrow> rdw B (i + 1) 1;
     rl \<leftarrow> rdw B i 1;
     Some (push_bit 32 (ucast (hd rh)) OR ucast (hd rl)) }"

function mix_fill :: "words \<Rightarrow> words \<Rightarrow> words \<Rightarrow> words \<Rightarrow> nat \<Rightarrow> nat \<Rightarrow> nat \<Rightarrow> (words \<times> words \<times> words \<times> words) option" where
  "mix_fill V X Y Z r N i =
     (if i < N then do {
        V \<leftarrow> blkcpy V (i * (32 * r)) X 0 (32 * r);
        (Y, Z) \<leftarrow> blockmix X Y Z r;
        V \<leftarrow> blkcpy V ((i + 1) * (32 * r)) Y 0 (32 * r);
        (X, Z) \<leftarrow> blockmix Y X Z r;
        mix_fill V X Y Z r N (i + 2) }
      else Some (V, X, Y, Z))"
  by pat_completeness auto
termination by (relation "measure (\<lambda>(V, X, Y, Z, r, N, i). N - i)") auto

declare mix_fill.simps [simp del]

function mix_read :: "words \<Rightarrow> words \<Rightarrow> words \<Rightarrow> words \<Rightarrow> nat \<Rightarrow> nat \<Rightarrow> nat \<Rightarrow> (words \<times> words \<times> words) option" where
  "mix_read V X Y Z r N i =
     (if i < N then do {
        j \<leftarrow> integerify X r;
        X \<leftarrow> blkxor X 0 V (unat (j AND word_of_int (int N - 1)) * (32 * r)) (32 * r);
        (Y, Z) \<leftarrow> blockmix X Y Z r;
        j \<leftarrow> integerify Y r;
        Y \<leftarrow> blkxor Y 0 V (unat (j AND word_of_int (int N - 1)) * (32 * r)) (32 * r);
        (X, Z) \<leftarrow> blockmix Y X Z r;
        mix_read V X Y Z r N (i + 2) }
      else Some (X, Y, Z))"
  by pat_completeness auto
termination by (relation "measure (\<lambda>(V, X, Y, Z, r, N, i). N - i)") auto

declare mix_read.simps [simp del]

text \<open>\<open>itohl\<close> and \<open>htoil\<close> leave a word as it is on the targets of the model.\<close>

definition salsamix :: "words \<Rightarrow> nat \<Rightarrow> nat \<Rightarrow> words \<Rightarrow> words \<Rightarrow> words \<Rightarrow> words \<Rightarrow> (words \<times> words \<times> words \<times> words \<times> words) option" where
  "salsamix B r N V X Y Z = do {
     X \<leftarrow> blkcpy X 0 B 0 (32 * r);
     (V, X, Y, Z) \<leftarrow> mix_fill V X Y Z r N 0;
     (X, Y, Z) \<leftarrow> mix_read V X Y Z r N 0;
     B \<leftarrow> blkcpy B 0 X 0 (32 * r);
     Some (B, V, X, Y, Z) }"

record scrypt =
  sc_pass :: "byte list"
  sc_passlen :: u32
  sc_salt :: "byte list"
  sc_saltlen :: u32
  sc_temp :: mem
  sc_templen :: u32
  sc_n :: u32
  sc_p :: u32
  sc_r :: u32

text \<open>The products in \<open>scrypt_init\<close> are of \<open>uint\<close>, and \<open>templen\<close> is one.\<close>

definition scrypt_init :: "u32 \<Rightarrow> u32 \<Rightarrow> u32 \<Rightarrow> u64 \<times> scrypt" where
  "scrypt_init n r p =
     (let B0size = ucast (128 * r * p) :: u64; XYsize = ucast (256 * r + 64); V0size = ucast (128 * r * n);
          need = B0size + XYsize + V0size
      in (need, \<lparr> sc_pass = [], sc_passlen = 0, sc_salt = [], sc_saltlen = 0, sc_temp = [], sc_templen = ucast need,
            sc_n = n, sc_p = p, sc_r = r \<rparr>))"

definition scrypt_temp :: "scrypt \<Rightarrow> mem \<Rightarrow> u64 \<Rightarrow> int \<times> scrypt" where
  "scrypt_temp sc buf len =
     (let sc = sc \<lparr> sc_temp := buf \<rparr>
      in if len < ucast (sc_templen sc) then (- 105, sc) else (0, sc \<lparr> sc_templen := ucast len \<rparr>))"

definition scrypt_data :: "scrypt \<Rightarrow> byte list \<Rightarrow> u32 \<Rightarrow> byte list \<Rightarrow> u32 \<Rightarrow> int \<times> scrypt" where
  "scrypt_data sc P plen S slen = (0, sc \<lparr> sc_pass := P, sc_passlen := plen, sc_salt := S, sc_saltlen := slen \<rparr>)"

definition spbkdf :: "scrypt \<Rightarrow> byte list \<Rightarrow> nat \<Rightarrow> mem \<Rightarrow> nat \<Rightarrow> mem option" where
  "spbkdf sc salt slen dk dklen = pbkdf2_sha256 dk dklen (sc_pass sc) (sint (sc_passlen sc)) salt slen 1"

text \<open>Words in a byte buffer.\<close>

definition ldw :: "mem \<Rightarrow> nat \<Rightarrow> nat \<Rightarrow> words option" where
  "ldw m p n = map_option (\<lambda>bs. map (\<lambda>i. unle (take 4 (drop (4 * i) bs))) [0..<n]) (rds m p (4 * n))"

definition stw :: "mem \<Rightarrow> nat \<Rightarrow> words \<Rightarrow> mem option" where
  "stw m p ws = wrs m p (concat (map (le_bytes 4) ws))"

fun salsa_all :: "mem \<Rightarrow> nat \<Rightarrow> nat \<Rightarrow> nat \<Rightarrow> nat \<Rightarrow> nat \<Rightarrow> nat \<Rightarrow> mem option" where
  "salsa_all m r n xy v i 0 = Some m"
| "salsa_all m r n xy v i (Suc k) = do {
     B \<leftarrow> ldw m (4 * (i * 32 * r)) (32 * r);
     X \<leftarrow> ldw m xy (32 * r);
     Y \<leftarrow> ldw m (xy + 128 * r) (32 * r);
     Z \<leftarrow> ldw m (xy + 256 * r) 16;
     V \<leftarrow> ldw m v (32 * r * n);
     (B, V, X, Y, Z) \<leftarrow> salsamix B r n V X Y Z;
     m \<leftarrow> stw m (4 * (i * 32 * r)) B;
     m \<leftarrow> stw m xy X;
     m \<leftarrow> stw m (xy + 128 * r) Y;
     m \<leftarrow> stw m (xy + 256 * r) Z;
     m \<leftarrow> stw m v V;
     salsa_all m r n xy v (i + 1) k }"

definition scrypt_hash :: "scrypt \<Rightarrow> mem \<Rightarrow> nat \<Rightarrow> (mem \<times> scrypt) option" where
  "scrypt_hash sc dk dklen =
     (let r = sint (sc_r sc); p = sint (sc_p sc); n = sint (sc_n sc)
      in if r < 0 \<or> p < 0 \<or> n < 0 \<or> 128 * r * p \<ge> 2 ^ 31 \<or> 256 * r + 64 \<ge> 2 ^ 31 \<or> n * (32 * r) \<ge> 2 ^ 31 \<or> sint (sc_saltlen sc) < 0 then None
         else do {
           let B0size = nat (128 * r * p);
           let XYsize = nat (256 * r + 64);
           m \<leftarrow> spbkdf sc (sc_salt sc) (unat (sc_saltlen sc)) (sc_temp sc) B0size;
           m \<leftarrow> salsa_all m (nat r) (nat n) B0size (B0size + XYsize) 0 (nat p);
           dk \<leftarrow> spbkdf sc m B0size dk dklen;
           Some (dk, sc \<lparr> sc_temp := m \<rparr>) })"

end
