(* ===== verification/Keyfile.thy ===== *)
theory Keyfile
  imports Outcome Scrypt Aes128 Parse Util
begin

text \<open>
  The keyfile tools of \<^verbatim>\<open>src/dcrypt\<close>: \<^verbatim>\<open>keytool.c\<close>, which reads, writes, unwraps and hashes, and \<^verbatim>\<open>dektool.c\<close>, the
  command that creates keyfiles, adds keys and changes passphrases.

  A keyfile is 8 bytes of salt and the AES key wrap of 8 bytes of fixed pattern and the keys; the key of the wrap is derived from
  the passphrase and the salt by scrypt.  System calls are the fields of a parameter \<open>'w dsys\<close> on a world \<open>'w\<close>.  The
  outcome of an operation is its result, a call of \<open>fail\<close> with its message, an \<open>_exit\<close> with its code (each with the state the program
  ends in), or undefined behaviour: an access outside of an object, a signed overflow or the use of an uninitialised variable.
\<close>

section \<open>Data\<close>

definition SCRYPT_N :: u32 where "SCRYPT_N = 2 ^ 15"
definition SCRYPT_R :: u32 where "SCRYPT_R = 8"
definition SCRYPT_P :: u32 where "SCRYPT_P = 1"
definition KEYSIZE :: nat where "KEYSIZE = 32"
definition HDRSIZE :: nat where "HDRSIZE = 16"
definition SALTLEN :: nat where "SALTLEN = 8"

definition O_RDONLY :: int where "O_RDONLY = 0"
definition O_WRONLY :: int where "O_WRONLY = 1"
definition O_CREAT :: int where "O_CREAT = 0x40"
definition O_EXCL :: int where "O_EXCL = 0x80"
definition O_TRUNC :: int where "O_TRUNC = 0x200"
definition ECHO :: u32 where "ECHO = 8"
definition ECHONL :: u32 where "ECHONL = 0x40"

record termios =
  iflag :: u32
  oflag :: u32
  cflag :: u32
  lflag :: u32
  tcc :: "byte list"

record keyfile =
  kf_len :: int
  kf_kek :: mem
  kf_buf :: mem

text \<open>
  System calls.  \<open>sys_read\<close> and \<open>sys_getrandom\<close> give the result and the bytes stored; \<open>sys_fstat\<close> the result, the size and the
  device number; \<open>sys_mmap\<close> an error or the memory; \<open>dm_ioctl\<close> the result and the request as the kernel leaves it.
\<close>

record 'w dsys =
  sys_write :: "'w writesys"
  sys_read :: "int \<Rightarrow> nat \<Rightarrow> 'w \<Rightarrow> (int \<times> byte list) \<times> 'w"
  sys_open :: "byte list option \<Rightarrow> int \<Rightarrow> int \<Rightarrow> 'w \<Rightarrow> int \<times> 'w"
  sys_close :: "int \<Rightarrow> 'w \<Rightarrow> 'w"
  sys_fstat :: "int \<Rightarrow> 'w \<Rightarrow> (int \<times> int \<times> u64) \<times> 'w"
  sys_stat :: "byte list option \<Rightarrow> 'w \<Rightarrow> int \<times> 'w"
  sys_mmap :: "u64 \<Rightarrow> 'w \<Rightarrow> (int + mem) \<times> 'w"
  sys_getrandom :: "nat \<Rightarrow> 'w \<Rightarrow> (int \<times> byte list) \<times> 'w"
  tcgets :: "'w \<Rightarrow> (int \<times> termios) \<times> 'w"
  tcsets :: "termios \<Rightarrow> 'w \<Rightarrow> int \<times> 'w"
  winsize :: "'w \<Rightarrow> (int \<times> u16 \<times> u16) \<times> 'w"
  blkgetsize :: "int \<Rightarrow> 'w \<Rightarrow> (int \<times> u64) \<times> 'w"
  dm_ioctl :: "int \<Rightarrow> int \<Rightarrow> mem \<Rightarrow> 'w \<Rightarrow> (int \<times> mem) \<times> 'w"
  sys_unlink :: "byte list \<Rightarrow> 'w \<Rightarrow> 'w"
  sys_symlink :: "byte list \<Rightarrow> byte list \<Rightarrow> 'w \<Rightarrow> int \<times> 'w"
  sys_sigread :: "int \<Rightarrow> 'w \<Rightarrow> (int \<times> int) \<times> 'w"
  sys_ppoll :: "(int \<times> int) option \<Rightarrow> 'w \<Rightarrow> (int \<times> bool \<times> bool \<times> (int \<times> int)) \<times> 'w"
  sys_signalfd :: "'w \<Rightarrow> int \<times> 'w"
  sys_sigprocmask :: "'w \<Rightarrow> int \<times> 'w"

section \<open>keytool.c\<close>

definition testpad :: "byte list" where
  "testpad = replicate 8 0xA6"

text \<open>The saved settings and the flag are \<open>None\<close> while \<open>ask\<close> has not initialised them.\<close>

definition clear_echo :: "'w dsys \<Rightarrow> 'w \<Rightarrow> (termios option \<times> bool option) \<times> 'w" where
  "clear_echo sys w =
     (let ((r, ts), w) = tcgets sys w
      in if r < 0 then ((None, None), w)
         else let (r, w) = tcsets sys (ts \<lparr> lflag := (lflag ts AND NOT ECHO) OR ECHONL \<rparr>) w
              in if r < 0 then ((Some ts, None), w) else ((Some ts, Some True), w))"

definition reset_echo :: "'w dsys \<Rightarrow> termios option \<Rightarrow> bool option \<Rightarrow> 'w \<Rightarrow> ('w, 'w) outcome" where
  "reset_echo sys ts flag w =
     (case flag of
        None \<Rightarrow> Undef
      | Some False \<Rightarrow> Done w
      | Some True \<Rightarrow> (case ts of None \<Rightarrow> Undef | Some t \<Rightarrow> Done (snd (tcsets sys t w))))"

definition ask :: "'w dsys \<Rightarrow> string \<Rightarrow> mem \<Rightarrow> nat \<Rightarrow> 'w \<Rightarrow> ('w, mem \<times> nat \<times> 'w) outcome" where
  "ask sys tag buf len w =
     (let (_, w) = sys_write sys 1 (bstr tag) w;
          ((ts, noecho), w) = clear_echo sys w;
          ((rd, data), w) = sys_read sys 0 len w
      in andthen (reset_echo sys ts noecho w) (\<lambda>w.
         if rd < 0 then Fail ''read'' w
         else if rd \<ge> int len then Fail ''passphrase too long'' w
         else andthen (defined (wrs buf 0 data)) (\<lambda>buf.
         let rd = nat rd in
         andthen (if rd \<noteq> 0 then defined (map_option (\<lambda>c. if c = 10 then rd - 1 else rd) (Prelude.rd buf (rd - 1))) else Done rd) (\<lambda>rd.
         if rd = 0 then Fail ''empty passphrase'' w
         else andthen (defined (wr buf rd 0)) (\<lambda>buf. Done (buf, rd, w))))))"

definition kt_scrypt :: "'w dsys \<Rightarrow> mem \<Rightarrow> nat \<Rightarrow> mem \<Rightarrow> u32 \<Rightarrow> mem \<Rightarrow> u32 \<Rightarrow> 'w \<Rightarrow> ('w, mem \<times> 'w) outcome" where
  "kt_scrypt sys D dlen P plen S slen w =
     (let (size, sc) = scrypt_init SCRYPT_N SCRYPT_R SCRYPT_P;
          (mm, w) = sys_mmap sys size w
      in case mm of
           Inl e \<Rightarrow> Fail ''mmap'' w
         | Inr buf \<Rightarrow>
             let (_, sc) = scrypt_temp sc buf size;
                 (_, sc) = scrypt_data sc P plen S slen
             in andthen (defined (scrypt_hash sc D dlen)) (\<lambda>(D, sc). Done (D, w)))"

definition hash_passphrase :: "'w dsys \<Rightarrow> keyfile \<Rightarrow> mem \<Rightarrow> nat \<Rightarrow> 'w \<Rightarrow> ('w, keyfile \<times> 'w) outcome" where
  "hash_passphrase sys kf phrase phrlen w =
     andthen (kt_scrypt sys (kf_kek kf) 16 phrase (of_nat phrlen) (kf_buf kf) (of_nat SALTLEN) w) (\<lambda>(kek, w).
     Done (kf \<lparr> kf_kek := kek \<rparr>, w))"

text \<open>A function on the part of an object that starts at offset \<open>k\<close>.\<close>

definition at_off :: "nat \<Rightarrow> (mem \<Rightarrow> mem option) \<Rightarrow> mem \<Rightarrow> mem option" where
  "at_off k f m = (if k \<le> length m then map_option (\<lambda>t. take k m @ t) (f (drop k m)) else None)"

text \<open>\<open>sizeof(phrase)\<close> is the size of the pointer.\<close>

definition unwrap_keyfile :: "'w dsys \<Rightarrow> keyfile \<Rightarrow> mem \<Rightarrow> nat \<Rightarrow> 'w \<Rightarrow> ('w, keyfile \<times> mem \<times> 'w) outcome" where
  "unwrap_keyfile sys kf phrase phrlen w =
     andthen (hash_passphrase sys kf phrase phrlen w) (\<lambda>(kf, w).
     andthen (defined (memzero phrase 0 8)) (\<lambda>phrase.
     let wraplen = kf_len kf - int SALTLEN in
     if wraplen < 0 then Undef
     else andthen (defined (at_off SALTLEN (\<lambda>b. aes128_unwrap (kf_kek kf) b (nat wraplen)) (kf_buf kf))) (\<lambda>buf.
     andthen (defined (memcmp (drop SALTLEN buf) testpad 8)) (\<lambda>d.
     if d \<noteq> 0 then Fail ''incorrect passphrase'' w
     else Done (kf \<lparr> kf_buf := buf \<rparr>, phrase, w)))))"

definition copy_valid_iv :: "keyfile \<Rightarrow> ('w, keyfile) outcome" where
  "copy_valid_iv kf = andthen (defined (wrs (kf_buf kf) SALTLEN testpad)) (\<lambda>b. Done (kf \<lparr> kf_buf := b \<rparr>))"

definition mem_off_cmp :: "nat \<Rightarrow> int \<Rightarrow> int" where
  "mem_off_cmp msz fsz = (if fsz < 0 then 1 else if int msz < fsz then - 1 else if int msz > fsz then 1 else 0)"

definition read_keyfile :: "'w dsys \<Rightarrow> keyfile \<Rightarrow> byte list option \<Rightarrow> 'w \<Rightarrow> ('w, keyfile \<times> 'w) outcome" where
  "read_keyfile sys kf name w =
     (let (fd, w) = sys_open sys name O_RDONLY 0 w in
      if fd < 0 then Fail ''open'' w
      else let ((r, sz, _), w) = sys_fstat sys fd w in
      if r < 0 then Fail ''stat'' w
      else if mem_off_cmp 1024 sz < 0 then Fail ''keyfile too large'' w
      else let ((ret, data), w) = sys_read sys fd (nat sz) w in
      if ret < 0 then Fail ''read'' w
      else andthen (defined (wrs (kf_buf kf) 0 data)) (\<lambda>b.
      if ret < sz then Fail ''incomplete read'' w
      else if ret mod 32 \<noteq> 16 then Fail ''invalid keyfile'' w
      else Done (kf \<lparr> kf_buf := b, kf_len := sz \<rparr>, w)))"

definition write_keyfile :: "'w dsys \<Rightarrow> keyfile \<Rightarrow> byte list option \<Rightarrow> int \<Rightarrow> 'w \<Rightarrow> ('w, keyfile \<times> 'w) outcome" where
  "write_keyfile sys kf name flags w =
     (if kf_len kf - int SALTLEN < 0 then Undef
      else andthen (defined (at_off SALTLEN (\<lambda>b. aes128_wrap (kf_kek kf) b (nat (kf_len kf - int SALTLEN))) (kf_buf kf))) (\<lambda>buf.
      let (fd, w) = sys_open sys name (O_WRONLY OR flags) 0x180 w in
      if fd < 0 then Fail '''' w
      else andthen (defined (rds buf 0 (nat (kf_len kf)))) (\<lambda>data.
      let (r, w) = writeall (sys_write sys) fd data w in
      if r < 0 then Fail ''write'' w
      else let w = sys_close sys fd w in
      andthen (defined (memzero buf 0 1024)) (\<lambda>buf. Done (kf \<lparr> kf_buf := buf \<rparr>, w)))))"

definition key_end :: "int \<Rightarrow> ('s, int) outcome" where
  "key_end idx = (let n = int HDRSIZE + int KEYSIZE * idx in if n \<ge> 2 ^ 31 then Undef else Done n)"

definition get_key_by_idx :: "keyfile \<Rightarrow> int \<Rightarrow> 'w \<Rightarrow> ('w, nat) outcome" where
  "get_key_by_idx kf idx w =
     (if idx \<le> 0 then Fail ''non-positive key index'' w
      else andthen (key_end idx) (\<lambda>n.
      if n > kf_len kf then Fail ''key index out of range'' w
      else Done (HDRSIZE + KEYSIZE * (nat idx - 1))))"

definition is_valid_key_idx :: "keyfile \<Rightarrow> int \<Rightarrow> ('w, bool) outcome" where
  "is_valid_key_idx kf idx = (if idx \<le> 0 then Done False else andthen (key_end idx) (\<lambda>n. Done (\<not> n > kf_len kf)))"

section \<open>dektool.c\<close>

record dektop =
  t_opts :: int
  t_argi :: nat
  t_argv :: "byte list list"
  t_kf :: keyfile

definition no_other_options :: "dektop \<Rightarrow> 'w \<Rightarrow> ('w, unit) outcome" where
  "no_other_options ctx w =
     (if t_argi ctx < length (t_argv ctx) then Fail ''too many arguments'' w
      else if t_opts ctx \<noteq> 0 then Fail ''bad options'' w else Done ())"

definition shift_arg :: "dektop \<Rightarrow> byte list option \<times> dektop" where
  "shift_arg ctx =
     (if t_argi ctx < length (t_argv ctx) then (Some (t_argv ctx ! t_argi ctx), ctx \<lparr> t_argi := t_argi ctx + 1 \<rparr>)
      else (None, ctx))"

definition shift_uint :: "dektop \<Rightarrow> 'w \<Rightarrow> ('w, int \<times> dektop) outcome" where
  "shift_uint ctx w =
     (let (a, ctx) = shift_arg ctx
      in case a of
           None \<Rightarrow> Fail ''too few arguments'' w
         | Some a \<Rightarrow>
             andthen (defined (parseint a)) (\<lambda>r.
             case r of
               None \<Rightarrow> Fail ''integer argument required:'' w
             | Some (p, val) \<Rightarrow>
                 andthen (defined (rd p 0)) (\<lambda>c.
                 if c \<noteq> 0 then Fail ''integer argument required:'' w
                 else if sint val \<le> 0 then Fail ''positive integer required:'' w
                 else Done (sint val, ctx))))"

definition count_args :: "dektop \<Rightarrow> int" where
  "count_args ctx = int (length (t_argv ctx)) - int (t_argi ctx)"

definition init_args :: "byte list list \<Rightarrow> dektop \<Rightarrow> dektop" where
  "init_args argv ctx = ctx \<lparr> t_argi := 1, t_argv := argv \<rparr>"

definition message :: "'w dsys \<Rightarrow> string \<Rightarrow> byte list option \<Rightarrow> 'w \<Rightarrow> ('w, 'w) outcome" where
  "message sys msg arg w =
     andthen (case arg of None \<Rightarrow> Done 0 | Some a \<Rightarrow> defined (strlen a)) (\<lambda>arglen.
     let sz = length msg + arglen + 5; e = sz - 1 in
     andthen (defined (fseq (fmtstr (Some (bstr msg @ [0])))
         (case arg of None \<Rightarrow> fnop | Some a \<Rightarrow> fseq (fmtstr (Some (bstr '' '' @ [0]))) (fmtstr (Some a))) (replicate sz 0) 0 e)) (\<lambda>(buf, p).
     andthen (defined (wr buf p 10)) (\<lambda>buf. Done (snd (sys_write sys 1 (take (p + 1) buf) w)))))"

definition prep_passphrase :: "'w dsys \<Rightarrow> mem \<Rightarrow> dektop \<Rightarrow> 'w \<Rightarrow> ('w, dektop \<times> 'w) outcome" where
  "prep_passphrase sys stk ctx w =
     andthen (ask sys ''Passphrase: '' stk 80 w) (\<lambda>(phrase, phrlen, w).
     andthen (ask sys ''    repeat: '' stk 80 w) (\<lambda>(rep, replen, w).
     andthen (if phrlen \<noteq> replen then Done True else andthen (defined (strcmp (Some phrase) (Some rep))) (\<lambda>d. Done (d \<noteq> 0))) (\<lambda>differ.
     if differ then Fail ''phrases do not match'' w
     else andthen (hash_passphrase sys (t_kf ctx) phrase phrlen w) (\<lambda>(kf, w).
     Done (ctx \<lparr> t_kf := kf \<rparr>, w)))))"

definition load_keyfile :: "'w dsys \<Rightarrow> mem \<Rightarrow> keyfile \<Rightarrow> byte list option \<Rightarrow> 'w \<Rightarrow> ('w, keyfile \<times> 'w) outcome" where
  "load_keyfile sys stk kf name w =
     andthen (read_keyfile sys kf name w) (\<lambda>(kf, w).
     andthen (ask sys ''Passphrase: '' stk 80 w) (\<lambda>(phrase, phrlen, w).
     andthen (unwrap_keyfile sys kf phrase phrlen w) (\<lambda>(kf, phrase, w).
     Done (kf, w))))"

definition read_random :: "'w dsys \<Rightarrow> mem \<Rightarrow> nat \<Rightarrow> nat \<Rightarrow> 'w \<Rightarrow> ('w, mem \<times> 'w) outcome" where
  "read_random sys m p n w =
     (let ((ret, data), w) = sys_getrandom sys n w
      in if ret < 0 then Fail ''getrandom'' w else andthen (defined (wrs m p data)) (\<lambda>m. Done (m, w)))"

definition fill_key_data :: "'w dsys \<Rightarrow> keyfile \<Rightarrow> nat \<Rightarrow> 'w \<Rightarrow> ('w, keyfile \<times> 'w) outcome" where
  "fill_key_data sys kf tot w =
     andthen (read_random sys (kf_buf kf) 0 tot w) (\<lambda>(b, w).
     andthen (copy_valid_iv (kf \<lparr> kf_buf := b \<rparr>)) (\<lambda>kf.
     Done (kf \<lparr> kf_len := int tot \<rparr>, w)))"

text \<open>The comparison is of \<open>uint\<close>.\<close>

definition append_key_data :: "'w dsys \<Rightarrow> keyfile \<Rightarrow> u32 \<Rightarrow> 'w \<Rightarrow> ('w, keyfile \<times> 'w) outcome" where
  "append_key_data sys kf need w =
     (if word_of_int (kf_len kf) + need > 1024 then Fail ''not enough space in keyfile'' w
      else andthen (read_random sys (kf_buf kf) (nat (kf_len kf)) (unat need) w) (\<lambda>(b, w).
      Done (kf \<lparr> kf_buf := b, kf_len := sint (word_of_int (kf_len kf) + need :: u32) \<rparr>, w)))"

definition check_not_exists :: "'w dsys \<Rightarrow> byte list option \<Rightarrow> 'w \<Rightarrow> ('w, 'w) outcome" where
  "check_not_exists sys name w = (let (r, w) = sys_stat sys name w in if r \<ge> 0 then Fail '''' w else Done w)"

definition create_keyfile :: "'w dsys \<Rightarrow> mem \<Rightarrow> dektop \<Rightarrow> byte list option \<Rightarrow> int \<Rightarrow> int \<Rightarrow> 'w \<Rightarrow> ('w, dektop \<times> 'w) outcome" where
  "create_keyfile sys stk ctx name count mode w =
     andthen (key_end count) (\<lambda>tot.
     if tot > 1024 then Fail ''keyring size too large'' w
     else andthen (message sys ''Creating new keyfile:'' name w) (\<lambda>w.
     andthen (fill_key_data sys (t_kf ctx) (nat tot) w) (\<lambda>(kf, w).
     andthen (prep_passphrase sys stk (ctx \<lparr> t_kf := kf \<rparr>) w) (\<lambda>(ctx, w).
     andthen (write_keyfile sys (t_kf ctx) name (O_CREAT OR mode) w) (\<lambda>(kf, w).
     Done (ctx \<lparr> t_kf := kf \<rparr>, w))))))"

definition opt_count :: "dektop \<Rightarrow> 'w \<Rightarrow> ('w, int \<times> dektop) outcome" where
  "opt_count ctx w = (if count_args ctx \<noteq> 0 then shift_uint ctx w else Done (1, ctx))"

definition cmd_create :: "'w dsys \<Rightarrow> mem \<Rightarrow> dektop \<Rightarrow> 'w \<Rightarrow> ('w, dektop \<times> 'w) outcome" where
  "cmd_create sys stk ctx w =
     (let (name, ctx) = shift_arg ctx in
      andthen (opt_count ctx w) (\<lambda>(count, ctx).
      andthen (no_other_options ctx w) (\<lambda>_.
      andthen (check_not_exists sys name w) (\<lambda>w.
      create_keyfile sys stk ctx name count O_EXCL w))))"

definition cmd_crover :: "'w dsys \<Rightarrow> mem \<Rightarrow> dektop \<Rightarrow> 'w \<Rightarrow> ('w, dektop \<times> 'w) outcome" where
  "cmd_crover sys stk ctx w =
     (let (name, ctx) = shift_arg ctx in
      andthen (opt_count ctx w) (\<lambda>(count, ctx).
      andthen (no_other_options ctx w) (\<lambda>_.
      create_keyfile sys stk ctx name count O_TRUNC w)))"

definition cmd_addkey :: "'w dsys \<Rightarrow> mem \<Rightarrow> dektop \<Rightarrow> 'w \<Rightarrow> ('w, dektop \<times> 'w) outcome" where
  "cmd_addkey sys stk ctx w =
     (let (name, ctx) = shift_arg ctx in
      andthen (shift_uint ctx w) (\<lambda>(count, ctx).
      andthen (no_other_options ctx w) (\<lambda>_.
      andthen (message sys ''Adding keys to'' name w) (\<lambda>w.
      andthen (load_keyfile sys stk (t_kf ctx) name w) (\<lambda>(kf, w).
      if count * int KEYSIZE \<ge> 2 ^ 31 then Undef
      else andthen (append_key_data sys kf (word_of_int (count * int KEYSIZE)) w) (\<lambda>(kf, w).
      andthen (write_keyfile sys kf name 0 w) (\<lambda>(kf, w).
      Done (ctx \<lparr> t_kf := kf \<rparr>, w))))))))"

definition cmd_pcheck :: "'w dsys \<Rightarrow> mem \<Rightarrow> dektop \<Rightarrow> 'w \<Rightarrow> ('w, dektop \<times> 'w) outcome" where
  "cmd_pcheck sys stk ctx w =
     (let (name, ctx) = shift_arg ctx in
      andthen (no_other_options ctx w) (\<lambda>_.
      andthen (message sys ''Testing passphrase for'' name w) (\<lambda>w.
      andthen (load_keyfile sys stk (t_kf ctx) name w) (\<lambda>(kf, w).
      andthen (message sys ''Success, passphrase is likely correct'' None w) (\<lambda>w.
      Done (ctx \<lparr> t_kf := kf \<rparr>, w))))))"

fun dump_keys :: "keyfile \<Rightarrow> int list \<Rightarrow> mem \<Rightarrow> nat \<Rightarrow> nat \<Rightarrow> 'w \<Rightarrow> ('w, mem \<times> nat) outcome" where
  "dump_keys kf [] m p e w = Done (m, p)"
| "dump_keys kf (i # is) m p e w =
     andthen (get_key_by_idx kf i w) (\<lambda>k.
     andthen (defined (rds (kf_buf kf) k KEYSIZE)) (\<lambda>key.
     andthen (defined (fseq (fmtbytes key) (fmtstr (Some [10, 0])) m p e)) (\<lambda>(m, p).
     dump_keys kf is m p e w)))"

definition cmd_dump :: "'w dsys \<Rightarrow> mem \<Rightarrow> dektop \<Rightarrow> 'w \<Rightarrow> ('w, dektop \<times> 'w) outcome" where
  "cmd_dump sys stk ctx w =
     (let (name, ctx) = shift_arg ctx in
      andthen (if count_args ctx \<noteq> 0 then shift_uint ctx w else Done (0, ctx)) (\<lambda>(kidx, ctx).
      andthen (no_other_options ctx w) (\<lambda>_.
      andthen (load_keyfile sys stk (t_kf ctx) name w) (\<lambda>(kf, w).
      let count = (if kidx \<noteq> 0 then 1 else (kf_len kf - int HDRSIZE) div int KEYSIZE);
          len = nat (count * (2 * int KEYSIZE + 1)) in
      andthen (dump_keys kf (if kidx \<noteq> 0 then [kidx] else [1..count]) (replicate (len + 1) 0) 0 len w) (\<lambda>(m, p).
      andthen (defined (wr m p 0)) (\<lambda>m.
      Done (ctx \<lparr> t_kf := kf \<rparr>, snd (writeall (sys_write sys) 1 (take p m) w))))))))"

definition cmd_repass :: "'w dsys \<Rightarrow> mem \<Rightarrow> dektop \<Rightarrow> 'w \<Rightarrow> ('w, dektop \<times> 'w) outcome" where
  "cmd_repass sys stk ctx w =
     (let (name, ctx) = shift_arg ctx in
      andthen (no_other_options ctx w) (\<lambda>_.
      andthen (message sys ''Changing passphrase for'' name w) (\<lambda>w.
      andthen (message sys ''Type current passphrase to unwrap the key'' None w) (\<lambda>w.
      andthen (load_keyfile sys stk (t_kf ctx) name w) (\<lambda>(kf, w).
      andthen (message sys ''Key unwrapped, type the new passphrase now'' None w) (\<lambda>w.
      andthen (prep_passphrase sys stk (ctx \<lparr> t_kf := kf \<rparr>) w) (\<lambda>(ctx, w).
      andthen (write_keyfile sys (t_kf ctx) name 0 w) (\<lambda>(kf, w).
      andthen (message sys ''Success, passphrase changed'' None w) (\<lambda>w.
      Done (ctx \<lparr> t_kf := kf \<rparr>, w))))))))))"

definition dek_commands :: "(string \<times> ('w dsys \<Rightarrow> mem \<Rightarrow> dektop \<Rightarrow> 'w \<Rightarrow> ('w, dektop \<times> 'w) outcome)) list" where
  "dek_commands = [(''create'', cmd_create), (''crover'', cmd_crover), (''add'', cmd_addkey), (''test'', cmd_pcheck),
     (''dump'', cmd_dump), (''repass'', cmd_repass)]"

fun dek_dispatch :: "(string \<times> ('w dsys \<Rightarrow> mem \<Rightarrow> dektop \<Rightarrow> 'w \<Rightarrow> ('w, dektop \<times> 'w) outcome)) list \<Rightarrow> 'w dsys \<Rightarrow> mem \<Rightarrow> byte list \<Rightarrow> dektop \<Rightarrow> 'w \<Rightarrow> ('w, dektop \<times> 'w) outcome" where
  "dek_dispatch [] sys stk cmd ctx w = Fail ''unknown command'' w"
| "dek_dispatch ((name, f) # cc) sys stk cmd ctx w =
     andthen (defined (strcmp (Some (bstr name @ [0])) (Some cmd))) (\<lambda>d.
     if d = 0 then f sys stk ctx w else dek_dispatch cc sys stk cmd ctx w)"

definition dek_main :: "'w dsys \<Rightarrow> mem \<Rightarrow> keyfile \<Rightarrow> byte list list \<Rightarrow> 'w \<Rightarrow> ('w, dektop \<times> 'w) outcome" where
  "dek_main sys stk keyfile argv w =
     (let ctx = init_args argv \<lparr> t_opts = 0, t_argi = 0, t_argv = [], t_kf = keyfile \<rparr>;
          (cmd, ctx) = shift_arg ctx
      in case cmd of None \<Rightarrow> Fail ''no command specified'' w | Some c \<Rightarrow> dek_dispatch dek_commands sys stk c ctx w)"

end
