(* ===== verification/Passblk.thy ===== *)
theory Passblk
  imports Keyfile
begin

text \<open>
  The passphrase prompt of \<^verbatim>\<open>src/dcrypt\<close> (\<^verbatim>\<open>passblk.c\<close>, \<^verbatim>\<open>passblk_keyfile.c\<close>, \<^verbatim>\<open>passblk_mapper.c\<close>, \<^verbatim>\<open>passblk_input.c\<close>): it
  asks for the passphrase of a keyfile, unwraps the keys with it and sets up the decryption of the partitions.

  The state is one record, \<open>'w pblk\<close>: the fields of \<open>struct top\<close> and the world the system calls act on.  The screen is drawn
  by the formatters of the library into buffers on the stack.
\<close>

section \<open>Data\<close>

definition NUMKEYS :: nat where "NUMKEYS = 16"
definition MAXPASS :: nat where "MAXPASS = 128"
definition MAXFILE :: nat where "MAXFILE = 528"
definition FILEBUF :: nat where "FILEBUF = 544"

definition ST_INPUT :: int where "ST_INPUT = 0"
definition ST_INVALID :: int where "ST_INVALID = 1"
definition ST_HASHING :: int where "ST_HASHING = 2"

definition IS_REG :: int where "IS_REG = 0"
definition IS_ESC :: int where "IS_ESC = 1"
definition IS_CSI :: int where "IS_CSI = 2"

definition DM_VERSION_MAJOR :: u32 where "DM_VERSION_MAJOR = 4"
definition DM_EXISTS_FLAG :: u32 where "DM_EXISTS_FLAG = 4"

text \<open>The device mapper requests, by the number that distinguishes them.\<close>

definition DM_VERSION :: int where "DM_VERSION = 0"
definition DM_DEV_CREATE :: int where "DM_DEV_CREATE = 3"
definition DM_DEV_SUSPEND :: int where "DM_DEV_SUSPEND = 6"
definition DM_TABLE_LOAD :: int where "DM_TABLE_LOAD = 9"

record part =
  pt_keyidx :: int
  pt_label :: "byte list"
  pt_size :: u64
  pt_rdev :: u64
  pt_dmidx :: u32

record 'w pblk =
  b_sigfd :: int
  b_mapfd :: int
  b_rows :: int
  b_cols :: int
  b_tio :: termios
  b_termactive :: bool
  b_pass :: mem
  b_plen :: int
  b_showpass :: bool
  b_needwait :: bool
  b_state :: int
  b_keyst :: int
  b_incol :: int
  b_inrow :: int
  b_inlen :: int
  b_psptr :: int
  b_ts :: "int \<times> int"
  b_sc :: Scrypt.scrypt
  b_nparts :: nat
  b_parts :: "part list"
  b_nkeys :: int
  b_keyfile :: "byte list"
  b_keysize :: nat
  b_keydata :: mem
  b_keycopy :: mem
  b_w :: 'w

type_synonym 'w pop = "'w pblk \<Rightarrow> ('w pblk, 'w pblk) outcome"

text \<open>A system call that gives a value, as an operation on the state.\<close>

definition psys :: "('w \<Rightarrow> 'r \<times> 'w) \<Rightarrow> 'w pblk \<Rightarrow> 'r \<times> 'w pblk" where
  "psys f s = (let (r, w) = f (b_w s) in (r, s \<lparr> b_w := w \<rparr>))"

section \<open>passblk_input.c\<close>

definition CSI :: "byte list" where
  "CSI = [27, ch CHR ''['']"

definition fcsi :: "string \<Rightarrow> fmt" where
  "fcsi t = fmtstr (Some (CSI @ bstr t @ [0]))"

definition outputb :: "'w dsys \<Rightarrow> byte list \<Rightarrow> 'w pblk \<Rightarrow> 'w pblk" where
  "outputb sys t s = snd (psys (writeall (sys_write sys) 1 t) s)"

text \<open>\<open>FMTBUF\<close>, the formatter, \<open>FMTEND\<close> and \<open>output\<close>.\<close>

definition draw :: "'w dsys \<Rightarrow> nat \<Rightarrow> fmt \<Rightarrow> 'w pop" where
  "draw sys len f s =
     andthen (defined (f (replicate (len + 1) 0) 0 len)) (\<lambda>(m, p).
     andthen (defined (wr m p 0)) (\<lambda>m. Done (outputb sys (take p m) s)))"

definition IGNPAR :: u32 where "IGNPAR = 4"
definition ICRNL :: u32 where "ICRNL = 0x100"
definition IXON :: u32 where "IXON = 0x400"
definition IMAXBEL :: u32 where "IMAXBEL = 0x2000"
definition IUTF8 :: u32 where "IUTF8 = 0x4000"
definition OPOST :: u32 where "OPOST = 1"
definition ONLCR :: u32 where "ONLCR = 4"
definition ICANON :: u32 where "ICANON = 2"

definition apply_termio_flags :: "'w dsys \<Rightarrow> 'w pop" where
  "apply_termio_flags sys s =
     (let ((r, ts), s) = psys (tcgets sys) s in
      if r < 0 then Fail ''ioctl'' s
      else let s = s \<lparr> b_tio := ts \<rparr>;
               ts = ts \<lparr> iflag := (iflag ts OR IUTF8) AND NOT (IGNPAR OR ICRNL OR IXON OR IMAXBEL),
                         oflag := oflag ts AND NOT (OPOST OR ONLCR), lflag := lflag ts AND NOT (ICANON OR ECHO) \<rparr>;
               (r, s) = psys (tcsets sys ts) s in
      if r < 0 then Fail ''ioctl'' s else Done (s \<lparr> b_termactive := True \<rparr>))"

definition reset_termio_flags :: "'w dsys \<Rightarrow> 'w pop" where
  "reset_termio_flags sys s =
     (if \<not> b_termactive s then Done s
      else let (r, s) = psys (tcsets sys (b_tio s)) s in if r < 0 then Fail ''ioctl'' s else Done s)"

definition update_box_position :: "'w pblk \<Rightarrow> 'w pblk" where
  "update_box_position s =
     (let rows = b_rows s; cols = b_cols s; inlen = (if cols \<ge> 60 then 40 else cols - 20)
      in s \<lparr> b_inlen := inlen, b_incol := cols div 2 - inlen div 2, b_inrow := rows div 2 \<rparr>)"

definition fint :: "int \<Rightarrow> fmt" where
  "fint n = fmtint (word_of_int n)"

definition fmt_move :: "int \<Rightarrow> int \<Rightarrow> fmt" where
  "fmt_move r c = fseq (fcsi '''') (fseq (fint r) (fseq (fmtchar (ch CHR '';'')) (fseq (fint c) (fmtchar (ch CHR ''H'')))))"

primrec frep :: "nat \<Rightarrow> fmt \<Rightarrow> fmt" where
  "frep 0 f = fnop"
| "frep (Suc n) f = fseq f (frep n f)"

definition fmt_repeat :: "byte list \<Rightarrow> int \<Rightarrow> fmt" where
  "fmt_repeat str n = frep (nat n) (fmtstr (Some (str @ [0])))"

definition fmt_park_cursor :: "'w pblk \<Rightarrow> fmt" where
  "fmt_park_cursor s = fmt_move (b_rows s) 1"

definition fmt_box_color :: "'w pblk \<Rightarrow> fmt" where
  "fmt_box_color s =
     (if b_state s = ST_INVALID then fcsi ''0;1;31m'' else if b_state s = ST_HASHING then fcsi ''0;1;30m'' else fcsi ''0;1;37m'')"

definition fmt_inp_color :: "'w pblk \<Rightarrow> fmt" where
  "fmt_inp_color s =
     (if b_state s = ST_HASHING then fcsi ''0;1;30m'' else if b_state s = ST_INVALID then fcsi ''0;31m'' else fcsi ''0;37m'')"

definition fmt_color_reset :: fmt where
  "fmt_color_reset = fcsi ''0m''"

definition fmt_box_line :: "byte list \<Rightarrow> byte list \<Rightarrow> byte list \<Rightarrow> int \<Rightarrow> int \<Rightarrow> int \<Rightarrow> fmt" where
  "fmt_box_line a b c r col w =
     fseq (fmt_move r col) (fseq (fmtstr (Some (a @ [0]))) (fseq (fmt_repeat b w) (fmtstr (Some (c @ [0])))))"

definition fmt_box_top :: "int \<Rightarrow> int \<Rightarrow> int \<Rightarrow> fmt" where
  "fmt_box_top = fmt_box_line [0xE2, 0x94, 0x8C] [0xE2, 0x94, 0x80] [0xE2, 0x94, 0x90]"

definition fmt_box_pad :: "int \<Rightarrow> int \<Rightarrow> int \<Rightarrow> fmt" where
  "fmt_box_pad = fmt_box_line [0xE2, 0x94, 0x82] [32] [0xE2, 0x94, 0x82]"

definition fmt_box_bot :: "int \<Rightarrow> int \<Rightarrow> int \<Rightarrow> fmt" where
  "fmt_box_bot = fmt_box_line [0xE2, 0x94, 0x94] [0xE2, 0x94, 0x80] [0xE2, 0x94, 0x98]"

text \<open>The argument of \<open>fmtstrn\<close> is a \<open>size_t\<close>; a pointer outside of \<open>pass\<close> is undefined.\<close>

definition fmt_box_input :: "'w pblk \<Rightarrow> fmt" where
  "fmt_box_input s =
     (let inlen = b_inlen s; psptr = b_psptr s; abclen = b_plen s - psptr; padlen = inlen - abclen;
          abclen = (if abclen > inlen then inlen else abclen)
      in fseq (fmt_move (b_inrow s) (b_incol s))
         (fseq (if b_showpass s
                then (if psptr < 0 \<or> psptr > int MAXPASS then (\<lambda>m p e. None) else fmtstrn (Some (drop (nat psptr) (b_pass s))) (unat (word_of_int abclen :: u64)))
                else fmt_repeat [ch CHR ''*''] abclen)
           (fmt_repeat [ch CHR ''_''] padlen)))"

definition fmt_draw_dialog :: "'w pblk \<Rightarrow> fmt" where
  "fmt_draw_dialog s =
     (let c = b_incol s - 3; r = b_inrow s - 2; w = b_inlen s + 4
      in fseq (fmt_box_color s) (fseq (fmt_box_top r c w) (fseq (fmt_box_pad (r + 1) c w) (fseq (fmt_box_pad (r + 2) c w)
         (fseq (fmt_box_pad (r + 3) c w) (fseq (fmt_box_bot (r + 4) c w) (fseq (fmt_inp_color s) (fseq (fmt_box_input s) fmt_color_reset))))))))"

definition redraw_dialog :: "'w dsys \<Rightarrow> int \<Rightarrow> 'w pop" where
  "redraw_dialog sys st s =
     (let s = s \<lparr> b_state := st \<rparr> in draw sys 1024 (fseq (fmt_draw_dialog s) (fmt_park_cursor s)) s)"

definition redraw_input :: "'w dsys \<Rightarrow> 'w pop" where
  "redraw_input sys s =
     draw sys 512 (fseq (fmt_inp_color s) (fseq (fmt_box_input s) (fseq fmt_color_reset (fmt_park_cursor s)))) s"

definition refresh_screen :: "'w dsys \<Rightarrow> 'w pop" where
  "refresh_screen sys s = draw sys 1024 (fseq (fmt_draw_dialog s) (fmt_park_cursor s)) s"

definition fmt_scroll_area :: "int \<Rightarrow> int \<Rightarrow> fmt" where
  "fmt_scroll_area fr to =
     fseq (fcsi '''') (fseq (fint fr) (fseq (fmtstr (Some (bstr '';'' @ [0]))) (fseq (fint to) (fmtstr (Some (bstr ''r'' @ [0]))))))"

definition clear_screen_init :: "'w dsys \<Rightarrow> 'w pop" where
  "clear_screen_init sys s =
     draw sys 256 (fseq (fcsi ''2J'') (fseq (fcsi ''?25l'') (fseq (fmt_scroll_area (b_inrow s + 3) (b_rows s)) (fmt_park_cursor s)))) s"

definition clear_screen_fini :: "'w dsys \<Rightarrow> 'w pop" where
  "clear_screen_fini sys s =
     draw sys 256 (fseq (fcsi ''2J'') (fseq (fcsi ''?25h'') (fseq (fmt_scroll_area 1 (b_rows s)) (fmt_park_cursor s)))) s"

definition terminate_input :: "'w dsys \<Rightarrow> 'w pop" where
  "terminate_input sys s = andthen (clear_screen_fini sys s) (reset_termio_flags sys)"

definition quit :: "'w dsys \<Rightarrow> string \<Rightarrow> 'w pop" where
  "quit sys msg s = andthen (terminate_input sys s) (\<lambda>s. Fail msg s)"

definition update_term_size :: "'w dsys \<Rightarrow> 'w pop" where
  "update_term_size sys s =
     (let ((r, row, col), s) = psys (winsize sys) s in
      if r < 0 then quit sys ''ioctl'' s
      else if row \<le> 0 \<or> col \<le> 0 then quit sys ''terminal does not report window size'' s
      else if row < 10 \<or> col < 40 then quit sys ''terminal window is too small'' s
      else Done (update_box_position (s \<lparr> b_cols := uint col, b_rows := uint row \<rparr>)))"

definition start_terminal :: "'w dsys \<Rightarrow> 'w pop" where
  "start_terminal sys s =
     andthen (apply_termio_flags sys s) (\<lambda>s.
     andthen (update_term_size sys s) (\<lambda>s.
     andthen (clear_screen_init sys s) (refresh_screen sys)))"

definition show_add_char :: "'w dsys \<Rightarrow> byte \<Rightarrow> 'w pop" where
  "show_add_char sys c s =
     (let coff = b_plen s - b_psptr s; c = (if \<not> b_showpass s then ch CHR ''*'' else c)
      in draw sys 100 (fseq (fmt_move (b_inrow s) (b_incol s + coff - 1)) (fseq (fmt_inp_color s) (fseq (fmtchar c)
           (fseq fmt_color_reset (fmt_park_cursor s))))) s)"

definition show_del_char :: "'w dsys \<Rightarrow> 'w pop" where
  "show_del_char sys s =
     (let coff = b_plen s - b_psptr s
      in draw sys 100 (fseq (fmt_move (b_inrow s) (b_incol s + coff)) (fseq (fmt_inp_color s) (fseq (fmtchar (ch CHR ''_''))
           (fseq fmt_color_reset (fmt_park_cursor s))))) s)"

definition adjust_input_ptr :: "'w pblk \<Rightarrow> bool \<times> 'w pblk" where
  "adjust_input_ptr s =
     (let inlen = b_inlen s; psptr = b_psptr s; plen = b_plen s; right = plen - psptr
      in if right \<ge> inlen then (True, s \<lparr> b_psptr := psptr + 10 \<rparr>)
         else if psptr > 0 \<and> plen < inlen then (True, s \<lparr> b_psptr := 0 \<rparr>)
         else if psptr > 0 \<and> right < inlen div 2 then (True, s \<lparr> b_psptr := (if psptr < 10 then 0 else psptr - 10) \<rparr>)
         else (False, s))"

definition add_char :: "'w dsys \<Rightarrow> byte \<Rightarrow> 'w pop" where
  "add_char sys c s =
     (let i = b_plen s in
      if i \<ge> int MAXPASS then Done s
      else if i < 0 then Undef
      else andthen (defined (wr (b_pass s) (nat i) c)) (\<lambda>pass.
      let (moved, s) = adjust_input_ptr (s \<lparr> b_pass := pass, b_plen := i + 1 \<rparr>)
      in if moved then redraw_input sys s else show_add_char sys c s))"

definition del_char :: "'w dsys \<Rightarrow> 'w pop" where
  "del_char sys s =
     (let i = b_plen s in
      if i \<le> 0 then Done s
      else let (moved, s) = adjust_input_ptr (s \<lparr> b_plen := i - 1 \<rparr>)
           in if moved then redraw_input sys s else show_del_char sys s)"

definition set_timer :: "int \<Rightarrow> 'w pblk \<Rightarrow> 'w pblk" where
  "set_timer sec s = s \<lparr> b_needwait := True, b_ts := (sec, 0) \<rparr>"

section \<open>passblk_keyfile.c\<close>

definition load_key_data :: "'w dsys \<Rightarrow> byte list \<Rightarrow> 'w pop" where
  "load_key_data sys name s =
     (let (fd, s) = psys (sys_open sys (Some name) O_RDONLY 0) s in
      if fd < 0 then Fail '''' s
      else let ((rd, data), s) = psys (sys_read sys fd FILEBUF) s in
      if rd < 0 then Fail '''' s
      else andthen (defined (wrs (b_keydata s) 0 data)) (\<lambda>m.
      let s = s \<lparr> b_keydata := m \<rparr> in
      if rd > int MAXFILE then Fail '''' s
      else if rd < int HDRSIZE then Fail '''' s
      else if (rd - int HDRSIZE) mod int KEYSIZE \<noteq> 0 then Fail '''' s
      else Done (s \<lparr> b_nkeys := (rd - int HDRSIZE) div int KEYSIZE, b_keysize := nat rd, b_keyfile := name \<rparr>)))"

definition alloc_scrypt :: "'w dsys \<Rightarrow> 'w pop" where
  "alloc_scrypt sys s =
     (let (size, sc) = scrypt_init SCRYPT_N SCRYPT_R SCRYPT_P;
          (mm, s) = psys (sys_mmap sys size) (s \<lparr> b_sc := sc \<rparr>)
      in case mm of
           Inl e \<Rightarrow> Fail ''mmap'' s
         | Inr buf \<Rightarrow>
             let s = s \<lparr> b_sc := snd (scrypt_temp sc buf size) \<rparr> in
             andthen (defined (Option.bind (rds (b_keydata s) 0 (b_keysize s)) (wrs (b_keycopy s) 0))) (\<lambda>c.
             Done (s \<lparr> b_keycopy := c \<rparr>)))"

text \<open>The result is 0 when the keys are unwrapped.\<close>

definition unwrap_keydata :: "'w pblk \<Rightarrow> ('w pblk, int \<times> 'w pblk) outcome" where
  "unwrap_keydata s =
     (let size = int (b_keysize s); sc = snd (scrypt_data (b_sc s) (b_pass s) (word_of_int (b_plen s)) (b_keydata s) (of_nat SALTLEN)) in
      andthen (defined (scrypt_hash sc (replicate 16 0) 16)) (\<lambda>(kek, sc).
      let wraplen = size - int SALTLEN in
      if wraplen < 0 then Undef
      else andthen (defined (at_off SALTLEN (\<lambda>b. aes128_unwrap kek b (nat wraplen)) (b_keydata s))) (\<lambda>data.
      andthen (defined (memcmp (drop SALTLEN data) testpad 8)) (\<lambda>ret.
      andthen (if ret \<noteq> 0 then defined (Option.bind (rds (b_keycopy s) 0 (b_keysize s)) (wrs data 0)) else Done data) (\<lambda>data.
      Done (ret, s \<lparr> b_sc := sc, b_keydata := data \<rparr>))))))"

section \<open>passblk_mapper.c\<close>

text \<open>\<open>struct dm_ioctl\<close> has 312 bytes: the name is at 48, the device at 40.  \<open>struct dm_target_spec\<close> has 40.\<close>

definition dm_request :: "u32 \<Rightarrow> u32 \<Rightarrow> u32 \<Rightarrow> u32 \<Rightarrow> mem" where
  "dm_request data_size data_start target_count flags =
     le_bytes 4 DM_VERSION_MAJOR @ le_bytes 4 (0 :: u32) @ le_bytes 4 (0 :: u32) @ le_bytes 4 data_size @ le_bytes 4 data_start @
     le_bytes 4 target_count @ le_bytes 4 (0 :: u32) @ le_bytes 4 flags @ le_bytes 4 (0 :: u32) @ le_bytes 4 (0 :: u32) @
     le_bytes 8 (0 :: u64) @ replicate 264 0"

definition init_mapper :: "'w dsys \<Rightarrow> 'w pop" where
  "init_mapper sys s =
     (let (fd, s) = psys (sys_open sys (Some (bstr ''/dev/mapper/control'' @ [0])) O_RDONLY 0) s in
      if fd < 0 then Fail '''' s
      else let ((r, dmi), s) = psys (dm_ioctl sys fd DM_VERSION (dm_request 312 0 0 0)) s in
      if r < 0 then Fail ''ioctl'' s
      else andthen (defined (rd32 dmi 0)) (\<lambda>v.
      if v \<noteq> DM_VERSION_MAJOR then Fail ''unsupported dm version'' s
      else Done (s \<lparr> b_mapfd := fd \<rparr>)))"

definition putstr :: "mem \<Rightarrow> nat \<Rightarrow> byte list \<Rightarrow> nat \<Rightarrow> mem option" where
  "putstr m p src len = do { t \<leftarrow> rds src 0 len; m \<leftarrow> wrs m p t; wr m (p + len) 0 }"

definition minor :: "u64 \<Rightarrow> u64" where
  "minor dev = (dev AND 0xFF) OR (drop_bit 12 dev AND 0xFFFFFF00)"

definition major :: "u64 \<Rightarrow> u64" where
  "major dev = (drop_bit 8 dev AND 0xFFF) OR (drop_bit 32 dev AND 0xFFFFF000)"

definition dm_create :: "'w dsys \<Rightarrow> nat \<Rightarrow> 'w pop" where
  "dm_create sys i s =
     (let pt = b_parts s ! i in
      andthen (defined (strlen (pt_label pt))) (\<lambda>nlen.
      if nlen > 127 then Fail '''' s
      else andthen (defined (putstr (dm_request 312 0 0 0) 48 (pt_label pt) nlen)) (\<lambda>dmi.
      let ((r, dmi), s) = psys (dm_ioctl sys (b_mapfd s) DM_DEV_CREATE dmi) s in
      if r < 0 then Fail ''ioctl'' s
      else andthen (defined (rd64 dmi 40)) (\<lambda>dev.
      Done (s \<lparr> b_parts := (b_parts s)[i := pt \<lparr> pt_dmidx := ucast (minor dev) \<rparr>] \<rparr>)))))"

definition dm_single :: "'w dsys \<Rightarrow> part \<Rightarrow> byte list \<Rightarrow> byte list \<Rightarrow> 'w pop" where
  "dm_single sys pt targ opts s =
     andthen (defined (strlen (pt_label pt))) (\<lambda>nlen.
     andthen (defined (strlen targ)) (\<lambda>tlen.
     andthen (defined (strlen opts)) (\<lambda>olen.
     let reqlen = 312 + 40 + olen + 1;
         dts = le_bytes 8 (0 :: u64) @ le_bytes 8 (pt_size pt div 512) @ replicate 24 0;
         req = dm_request (of_nat reqlen) 312 1 0 @ dts @ replicate (olen + 1) 0 in
     if nlen > 127 then Fail '''' s
     else if tlen > 15 then Fail '''' s
     else andthen (defined (do { r \<leftarrow> putstr req 48 (pt_label pt) nlen; r \<leftarrow> putstr r (312 + 24) targ tlen; putstr r (312 + 40) opts olen })) (\<lambda>req.
     let ((r, _), s) = psys (dm_ioctl sys (b_mapfd s) DM_TABLE_LOAD req) s in
     if r < 0 then Fail ''ioctl DM_TABLE_LOAD'' s else Done s))))"

definition dm_crypt :: "'w dsys \<Rightarrow> nat \<Rightarrow> 'w pop" where
  "dm_crypt sys i s =
     (let pt = b_parts s ! i in
      if pt_keyidx pt < 0 then Undef
      else andthen (defined (rds (b_keydata s) (HDRSIZE + KEYSIZE * nat (pt_keyidx pt)) KEYSIZE)) (\<lambda>key.
      andthen (defined (fseq (fmtstr (Some (bstr ''aes-xts-plain64'' @ [0]))) (fseq (fmtstr (Some (bstr '' '' @ [0]))) (fseq (fmtbytes key)
         (fseq (fmtstr (Some (bstr '' 0 '' @ [0]))) (fseq (fmtlong (major (pt_rdev pt))) (fseq (fmtstr (Some (bstr '':'' @ [0])))
         (fseq (fmtlong (minor (pt_rdev pt))) (fmtstr (Some (bstr '' 0 1 allow_discards'' @ [0]))))))))) (replicate 257 0) 0 256)) (\<lambda>(m, p).
      andthen (defined (wr m p 0)) (\<lambda>m.
      dm_single sys pt (bstr ''crypt'' @ [0]) m s))))"

definition dm_resume :: "'w dsys \<Rightarrow> nat \<Rightarrow> 'w pop" where
  "dm_resume sys i s =
     (let pt = b_parts s ! i in
      andthen (defined (strlen (pt_label pt))) (\<lambda>nlen.
      if nlen > 127 then Fail '''' s
      else andthen (defined (putstr (dm_request 312 0 0 DM_EXISTS_FLAG) 48 (pt_label pt) nlen)) (\<lambda>dmi.
      let ((r, _), s) = psys (dm_ioctl sys (b_mapfd s) DM_DEV_SUSPEND dmi) s in
      if r < 0 then Fail ''ioctl DM_DEV_SUSPEND'' s else Done s)))"

definition fmt_path :: "nat \<Rightarrow> fmt \<Rightarrow> ('s, byte list) outcome" where
  "fmt_path len f = andthen (defined (f (replicate (len + 1) 0) 0 len)) (\<lambda>(m, p). defined (wr m p 0))"

definition redo_symlink :: "'w dsys \<Rightarrow> nat \<Rightarrow> 'w pop" where
  "redo_symlink sys i s =
     (let pt = b_parts s ! i in
      andthen (fmt_path 200 (fseq (fmtstr (Some (bstr ''/dev/mapper/'' @ [0]))) (fmtstr (Some (pt_label pt))))) (\<lambda>link.
      andthen (fmt_path 200 (fseq (fmtstr (Some (bstr ''../dm-'' @ [0]))) (fmtint (pt_dmidx pt)))) (\<lambda>targ.
      let (_, s) = psys (\<lambda>w. ((), sys_unlink sys link w)) s;
          (r, s) = psys (sys_symlink sys targ link) s in
      if r < 0 then Fail '''' s else Done s)))"

fun decrypt_loop :: "'w dsys \<Rightarrow> nat list \<Rightarrow> 'w pop" where
  "decrypt_loop sys [] s = Done s"
| "decrypt_loop sys (i # is) s =
     andthen (dm_create sys i s) (\<lambda>s.
     andthen (dm_crypt sys i s) (\<lambda>s.
     andthen (dm_resume sys i s) (\<lambda>s.
     andthen (redo_symlink sys i s) (decrypt_loop sys is))))"

definition decrypt_parts :: "'w dsys \<Rightarrow> 'w pop" where
  "decrypt_parts sys s = decrypt_loop sys [0..<b_nparts s] s"

section \<open>Input\<close>

definition enter_pass :: "'w dsys \<Rightarrow> 'w pop" where
  "enter_pass sys s =
     (if b_plen s = 0 then Done s
      else andthen (redraw_dialog sys ST_HASHING (s \<lparr> b_showpass := False \<rparr>)) (\<lambda>s.
      andthen (unwrap_keydata s) (\<lambda>(ret, s).
      if ret = 0 then
        andthen (terminate_input sys s) (\<lambda>s.
        andthen (decrypt_parts sys s) (\<lambda>s. Exit 0 s))
      else andthen (defined (memzero (b_pass s) 0 MAXPASS)) (\<lambda>pass.
        andthen (redraw_dialog sys ST_INVALID (s \<lparr> b_pass := pass \<rparr>)) (\<lambda>s.
        Done (set_timer 1 s))))))"

definition toggle_showpass :: "'w dsys \<Rightarrow> 'w pop" where
  "toggle_showpass sys s = redraw_input sys (s \<lparr> b_showpass := \<not> b_showpass s \<rparr>)"

definition clear_input :: "'w dsys \<Rightarrow> 'w pop" where
  "clear_input sys s = redraw_input sys (s \<lparr> b_plen := 0, b_psptr := 0 \<rparr>)"

definition reset_input :: "'w dsys \<Rightarrow> 'w pop" where
  "reset_input sys s = redraw_dialog sys ST_INPUT (s \<lparr> b_plen := 0, b_psptr := 0 \<rparr>)"

definition handle_reg_key :: "'w dsys \<Rightarrow> byte \<Rightarrow> 'w pop" where
  "handle_reg_key sys c s =
     (if b_state s \<noteq> ST_INPUT then Done s
      else if c \<ge> 0x20 \<and> c < 0x7F then add_char sys c s
      else if c = 0x7F then del_char sys s
      else if c = 0x0C then refresh_screen sys s
      else if c = 0x0D then enter_pass sys s
      else if c = 0x08 then del_char sys s
      else if c = 0x09 then toggle_showpass sys s
      else if c = 0x15 then clear_input sys s
      else Done s)"

definition handle_inchr :: "'w dsys \<Rightarrow> byte \<Rightarrow> 'w pop" where
  "handle_inchr sys c s =
     (if b_keyst s = IS_REG then
        (if c = 0x1B then Done (s \<lparr> b_keyst := IS_ESC \<rparr>) else handle_reg_key sys c s)
      else if b_keyst s = IS_ESC then
        (if c = ch CHR ''['' then Done (s \<lparr> b_keyst := IS_CSI \<rparr>) else Done (s \<lparr> b_keyst := IS_REG \<rparr>))
      else if b_keyst s = IS_CSI then
        (if c \<ge> ch CHR ''0'' \<and> c \<le> ch CHR ''9'' then Done s
         else if c = ch CHR '';'' then Done s
         else Done (s \<lparr> b_keyst := IS_REG \<rparr>))
      else Done (s \<lparr> b_keyst := IS_REG \<rparr>))"

fun input_loop :: "'w dsys \<Rightarrow> byte list \<Rightarrow> 'w pop" where
  "input_loop sys [] s = Done s"
| "input_loop sys (c # cs) s = andthen (handle_inchr sys c s) (input_loop sys cs)"

definition handle_input :: "'w dsys \<Rightarrow> byte list \<Rightarrow> 'w pop" where
  "handle_input sys buf s =
     andthen (if b_state s = ST_INVALID then reset_input sys s else Done s) (input_loop sys buf)"

definition handle_user_end :: "'w dsys \<Rightarrow> 'w pop" where
  "handle_user_end sys s = andthen (terminate_input sys s) (\<lambda>s. Exit 0xFF s)"

definition handle_sigwinch :: "'w dsys \<Rightarrow> 'w pop" where
  "handle_sigwinch sys s =
     andthen (update_term_size sys s) (\<lambda>s.
     draw sys 1024 (fseq (fmt_move 1 1) (fseq (fcsi ''J'') (fseq (fmt_draw_dialog s) (fmt_park_cursor s)))) s)"

definition handle_timeout :: "'w dsys \<Rightarrow> 'w pop" where
  "handle_timeout sys s = (if b_state s \<noteq> ST_INVALID then Done s else reset_input sys s)"

section \<open>passblk.c\<close>

definition PSIGINT :: int where "PSIGINT = 2"
definition PSIGTERM :: int where "PSIGTERM = 15"
definition SIGWINCH :: int where "SIGWINCH = 28"

definition pb_check_signal :: "'w dsys \<Rightarrow> 'w pop" where
  "pb_check_signal sys s =
     (let ((ret, sig), s) = psys (sys_sigread sys (b_sigfd s)) s in
      if ret < 0 then quit sys ''read'' s
      else if ret = 0 then quit sys ''signalfd EOF'' s
      else andthen (if sig = PSIGINT then handle_user_end sys s else Done s) (\<lambda>s.
      andthen (if sig = PSIGTERM then handle_user_end sys s else Done s) (\<lambda>s.
      if sig = SIGWINCH then handle_sigwinch sys s else Done s)))"

definition check_input :: "'w dsys \<Rightarrow> 'w pop" where
  "check_input sys s =
     (let ((ret, data), s) = psys (sys_read sys 0 64) s in
      if ret < 0 then quit sys ''read'' s
      else if ret = 0 then handle_user_end sys s
      else andthen (defined (wrs (replicate 64 0) 0 data)) (\<lambda>buf.
      andthen (defined (rds buf 0 (nat ret))) (\<lambda>t. handle_input sys t s)))"

text \<open>The arguments from the third on; \<open>n\<close> counts the partitions, \<open>ki\<close> is the key of the next one.\<close>

fun parse_labels :: "byte list list \<Rightarrow> nat \<Rightarrow> int \<Rightarrow> 'w pop" where
  "parse_labels [] n ki s = Done (s \<lparr> b_nparts := n \<rparr>)"
| "parse_labels (arg # args) n ki s =
     andthen (defined (do { a \<leftarrow> rd arg 0; (if a = ch CHR ''-'' then map_option (\<lambda>b. b = 0) (rd arg 1) else Some False) })) (\<lambda>skip.
     if skip then (if ki + 1 \<ge> 2 ^ 31 then Undef else parse_labels args n (ki + 1) s)
     else andthen (defined (parseint arg)) (\<lambda>r.
     andthen (case r of
         None \<Rightarrow> Done (arg, ki)
       | Some (sep, v) \<Rightarrow>
           andthen (defined (rd sep 0)) (\<lambda>c.
           if c \<noteq> ch CHR '':'' then Done (arg, ki)
           else if sint v < 0 then Fail ''non-positive key index'' s
           else if sint v = 0 then Fail ''key indexes are 1-based'' s
           else Done (drop 1 sep, sint v - 1))) (\<lambda>(arg, ki).
     if ki > int NUMKEYS then Fail ''key index out of range:'' s
     else if n > NUMKEYS then Fail ''too many partitions'' s
     else if n \<ge> length (b_parts s) then Undef
     else parse_labels args (n + 1) ki (s \<lparr> b_parts := (b_parts s)[n := (b_parts s ! n) \<lparr> pt_keyidx := ki, pt_label := arg \<rparr>] \<rparr>))))"

definition parse_part_labels :: "byte list list \<Rightarrow> 'w pop" where
  "parse_part_labels argv s = parse_labels (drop 2 argv) 0 0 s"

definition stat_part_node :: "'w dsys \<Rightarrow> nat \<Rightarrow> 'w pop" where
  "stat_part_node sys i s =
     (let pt = b_parts s ! i in
      andthen (fmt_path 100 (fseq (fmtstr (Some (bstr ''/dev/mapper/'' @ [0]))) (fmtstr (Some (pt_label pt))))) (\<lambda>path.
      let (fd, s) = psys (sys_open sys (Some path) O_RDONLY 0) s in
      if fd < 0 then Fail '''' s
      else let ((r, _, rdev), s) = psys (sys_fstat sys fd) s in
      if r < 0 then Fail '''' s
      else let ((r, size), s) = psys (blkgetsize sys fd) s in
      if r \<noteq> 0 then Fail ''ioctl BLKGETSIZE64'' s
      else Done (s \<lparr> b_parts := (b_parts s)[i := pt \<lparr> pt_size := size, pt_rdev := rdev \<rparr>] \<rparr>)))"

fun validate_loop :: "'w dsys \<Rightarrow> nat list \<Rightarrow> 'w pop" where
  "validate_loop sys [] s = Done s"
| "validate_loop sys (i # is) s =
     (if pt_keyidx (b_parts s ! i) \<ge> b_nkeys s then Fail ''no key in keyfile for'' s
      else andthen (stat_part_node sys i s) (validate_loop sys is))"

definition validate_parts :: "'w dsys \<Rightarrow> 'w pop" where
  "validate_parts sys s = validate_loop sys [0..<b_nparts s] s"

definition setup_args :: "'w dsys \<Rightarrow> byte list list \<Rightarrow> 'w pop" where
  "setup_args sys argv s =
     (if length argv < 3 then Fail ''too few arguments'' s
      else andthen (parse_part_labels argv s) (\<lambda>s.
      andthen (load_key_data sys (argv ! 1) s) (validate_parts sys)))"

definition open_sigfd :: "'w dsys \<Rightarrow> 'w pop" where
  "open_sigfd sys s =
     (let (fd, s) = psys (sys_signalfd sys) s in
      if fd < 0 then Fail ''signalfd'' s
      else let (r, s) = psys (sys_sigprocmask sys) s in
      if r < 0 then Fail ''sigprocmask'' s else Done (s \<lparr> b_sigfd := fd \<rparr>))"

text \<open>The kernel stores the time that remains back into the timeout it is given.\<close>

definition pb_poll :: "'w dsys \<Rightarrow> 'w pop" where
  "pb_poll sys s =
     (let ((ret, inp, sig, ts), s) = psys (sys_ppoll sys (if b_needwait s then Some (b_ts s) else None)) s;
          s = (if b_needwait s then s \<lparr> b_ts := ts \<rparr> else s) in
      if ret < 0 then quit sys ''ppoll'' s
      else andthen (if ret = 0 then handle_timeout sys s else Done s) (\<lambda>s.
      andthen (if inp then check_input sys s else Done s) (\<lambda>s.
      if sig then pb_check_signal sys s else Done s)))"

definition zero_part :: part where
  "zero_part = \<lparr> pt_keyidx = 0, pt_label = [], pt_size = 0, pt_rdev = 0, pt_dmidx = 0 \<rparr>"

definition zero_sc :: Scrypt.scrypt where
  "zero_sc = \<lparr> sc_pass = [], sc_passlen = 0, sc_salt = [], sc_saltlen = 0, sc_temp = [], sc_templen = 0, sc_n = 0, sc_p = 0, sc_r = 0 \<rparr>"

definition zero_top :: "'w \<Rightarrow> 'w pblk" where
  "zero_top w = \<lparr> b_sigfd = 0, b_mapfd = 0, b_rows = 0, b_cols = 0, b_tio = \<lparr> iflag = 0, oflag = 0, cflag = 0, lflag = 0, tcc = [] \<rparr>,
     b_termactive = False, b_pass = replicate MAXPASS 0, b_plen = 0, b_showpass = False, b_needwait = False, b_state = ST_INPUT, b_keyst = IS_REG,
     b_incol = 0, b_inrow = 0, b_inlen = 0, b_psptr = 0, b_ts = (0, 0), b_sc = zero_sc, b_nparts = 0, b_parts = replicate NUMKEYS zero_part,
     b_nkeys = 0, b_keyfile = [], b_keysize = 0, b_keydata = replicate FILEBUF 0, b_keycopy = replicate FILEBUF 0, b_w = w \<rparr>"

text \<open>\<open>main\<close> up to the endless loop of \<open>poll\<close>.\<close>

definition pb_start :: "'w dsys \<Rightarrow> byte list list \<Rightarrow> 'w \<Rightarrow> ('w pblk, 'w pblk) outcome" where
  "pb_start sys argv w =
     andthen (setup_args sys argv (zero_top w)) (\<lambda>s.
     andthen (open_sigfd sys s) (\<lambda>s.
     andthen (alloc_scrypt sys s) (\<lambda>s.
     andthen (init_mapper sys s) (start_terminal sys))))"

inductive pb_reach :: "'w dsys \<Rightarrow> byte list list \<Rightarrow> 'w \<Rightarrow> 'w pblk \<Rightarrow> bool" for sys argv w where
  start: "pb_start sys argv w = Done s \<Longrightarrow> pb_reach sys argv w s"
| step: "pb_reach sys argv w s \<Longrightarrow> pb_poll sys s = Done s' \<Longrightarrow> pb_reach sys argv w s'"

end
