(* ===== verification/Scrypt_Props.thy ===== *)
theory Scrypt_Props
  imports Scrypt
begin

text \<open>The function of RFC 7914, and that \<open>scrypt_hash\<close> computes it.\<close>

section \<open>Specification\<close>

fun quarterround :: "u32 \<times> u32 \<times> u32 \<times> u32 \<Rightarrow> u32 \<times> u32 \<times> u32 \<times> u32" where
  "quarterround (y0, y1, y2, y3) =
     (let z1 = y1 XOR rotl (y0 + y3) 7; z2 = y2 XOR rotl (z1 + y0) 9; z3 = y3 XOR rotl (z2 + z1) 13; z0 = y0 XOR rotl (z3 + z2) 18
      in (z0, z1, z2, z3))"

fun columnround :: "words \<Rightarrow> words" where
  "columnround [x0, x1, x2, x3, x4, x5, x6, x7, x8, x9, x10, x11, x12, x13, x14, x15] =
     (case (quarterround (x0, x4, x8, x12), quarterround (x5, x9, x13, x1), quarterround (x10, x14, x2, x6), quarterround (x15, x3, x7, x11)) of
       ((y0, y4, y8, y12), (y5, y9, y13, y1), (y10, y14, y2, y6), (y15, y3, y7, y11)) \<Rightarrow>
         [y0, y1, y2, y3, y4, y5, y6, y7, y8, y9, y10, y11, y12, y13, y14, y15])"
| "columnround _ = []"

fun rowround :: "words \<Rightarrow> words" where
  "rowround [y0, y1, y2, y3, y4, y5, y6, y7, y8, y9, y10, y11, y12, y13, y14, y15] =
     (case (quarterround (y0, y1, y2, y3), quarterround (y5, y6, y7, y4), quarterround (y10, y11, y8, y9), quarterround (y15, y12, y13, y14)) of
       ((z0, z1, z2, z3), (z5, z6, z7, z4), (z10, z11, z8, z9), (z15, z12, z13, z14)) \<Rightarrow>
         [z0, z1, z2, z3, z4, z5, z6, z7, z8, z9, z10, z11, z12, z13, z14, z15])"
| "rowround _ = []"

definition salsa_spec :: "words \<Rightarrow> words" where
  "salsa_spec B = map2 (+) B (((rowround \<circ> columnround) ^^ 4) B)"

definition xorw :: "words \<Rightarrow> words \<Rightarrow> words" where
  "xorw a b = map2 (XOR) a b"

definition blk :: "words \<Rightarrow> nat \<Rightarrow> words" where
  "blk B i = take 16 (drop (16 * i) B)"

fun bm_y :: "nat \<Rightarrow> words \<Rightarrow> nat \<Rightarrow> words" where
  "bm_y r B 0 = salsa_spec (xorw (blk B (2 * r - 1)) (blk B 0))"
| "bm_y r B (Suc i) = salsa_spec (xorw (bm_y r B i) (blk B (Suc i)))"

definition blockmix_spec :: "nat \<Rightarrow> words \<Rightarrow> words" where
  "blockmix_spec r B = concat (map (\<lambda>i. bm_y r B (2 * i)) [0..<r]) @ concat (map (\<lambda>i. bm_y r B (2 * i + 1)) [0..<r])"

fun words_nat :: "words \<Rightarrow> nat" where
  "words_nat [] = 0"
| "words_nat (w # ws) = unat w + 2 ^ 32 * words_nat ws"

definition integerify_spec :: "nat \<Rightarrow> words \<Rightarrow> nat" where
  "integerify_spec r B = words_nat (blk B (2 * r - 1))"

definition rm_V :: "nat \<Rightarrow> words \<Rightarrow> nat \<Rightarrow> words" where
  "rm_V r B i = (blockmix_spec r ^^ i) B"

fun rm_X :: "nat \<Rightarrow> nat \<Rightarrow> words \<Rightarrow> nat \<Rightarrow> words" where
  "rm_X r N B 0 = rm_V r B N"
| "rm_X r N B (Suc i) = blockmix_spec r (xorw (rm_X r N B i) (rm_V r B (integerify_spec r (rm_X r N B i) mod N)))"

definition romix_spec :: "nat \<Rightarrow> nat \<Rightarrow> words \<Rightarrow> words" where
  "romix_spec r N B = rm_X r N B N"

definition words_of :: "byte list \<Rightarrow> words" where
  "words_of bs = map (\<lambda>i. unle (take 4 (drop (4 * i) bs))) [0..<length bs div 4]"

definition bytes_of :: "words \<Rightarrow> byte list" where
  "bytes_of ws = concat (map (le_bytes 4) ws)"

definition romix_bytes :: "nat \<Rightarrow> nat \<Rightarrow> byte list \<Rightarrow> byte list" where
  "romix_bytes r N bs = bytes_of (romix_spec r N (words_of bs))"

definition prf256 :: "byte list \<Rightarrow> byte list \<Rightarrow> byte list" where
  "prf256 k = hmac_spec sha256_spec (if length k \<le> 64 then k else sha256_spec k)"

definition scrypt_with :: "(byte list \<Rightarrow> byte list \<Rightarrow> byte list) \<Rightarrow> byte list \<Rightarrow> byte list \<Rightarrow> nat \<Rightarrow> nat \<Rightarrow> nat \<Rightarrow> nat \<Rightarrow> byte list" where
  "scrypt_with prf P S N r p len =
     (let B = pbkdf2_spec prf 32 (128 * r * p) P S 1;
          B' = concat (map (\<lambda>i. romix_bytes r N (take (128 * r) (drop (128 * r * i) B))) [0..<p])
      in pbkdf2_spec prf 32 len P B' 1)"

definition scrypt_spec :: "byte list \<Rightarrow> byte list \<Rightarrow> nat \<Rightarrow> nat \<Rightarrow> nat \<Rightarrow> nat \<Rightarrow> byte list" where
  "scrypt_spec = scrypt_with prf256"

text \<open>The code cuts a longer passphrase instead of hashing it.\<close>

definition prf_cut :: "byte list \<Rightarrow> byte list \<Rightarrow> byte list" where
  "prf_cut k = hmac_spec sha256_spec (take 64 k)"

section \<open>Salsa20\<close>

lemma list16:
  assumes "length x = 16"
  obtains x0 x1 x2 x3 x4 x5 x6 x7 x8 x9 x10 x11 x12 x13 x14 x15 where
    "x = [x0, x1, x2, x3, x4, x5, x6, x7, x8, x9, x10, x11, x12, x13, x14, x15]"
  using assms by (auto simp: length_Suc_conv numeral_eq_Suc)

definition qr :: "nat \<Rightarrow> nat \<Rightarrow> nat \<Rightarrow> nat \<Rightarrow> words \<Rightarrow> words" where
  "qr a b c d x = sx (sx (sx (sx x b a d 7) c b a 9) d c b 13) a d c 18"

lemma double_round_qr:
  "double_round x = qr 15 12 13 14 (qr 10 11 8 9 (qr 5 6 7 4 (qr 0 1 2 3
     (qr 15 3 7 11 (qr 10 14 2 6 (qr 5 9 13 1 (qr 0 4 8 12 x)))))))"
  unfolding double_round_def qr_def Let_def ..

lemma length_qr [simp]: "length (qr a b c d x) = length x"
  by (simp add: qr_def sx_def)

lemma qr_spec:
  assumes "a < length x" "b < length x" "c < length x" "d < length x" "distinct [a, b, c, d]"
    and "quarterround (x ! a, x ! b, x ! c, x ! d) = (z0, z1, z2, z3)"
  shows "qr a b c d x = x[b := z1, c := z2, d := z3, a := z0]"
  using assms by (auto simp: qr_def sx_def Let_def nth_list_update)

lemma columnround_qr:
  assumes "length x = 16"
  shows "qr 15 3 7 11 (qr 10 14 2 6 (qr 5 9 13 1 (qr 0 4 8 12 x))) = columnround x"
proof -
  obtain x0 x1 x2 x3 x4 x5 x6 x7 x8 x9 x10 x11 x12 x13 x14 x15 where
    x: "x = [x0, x1, x2, x3, x4, x5, x6, x7, x8, x9, x10, x11, x12, x13, x14, x15]" by (rule list16[OF assms])
  obtain y0 y4 y8 y12 where a: "quarterround (x0, x4, x8, x12) = (y0, y4, y8, y12)" by (metis prod_cases4)
  obtain y5 y9 y13 y1 where b: "quarterround (x5, x9, x13, x1) = (y5, y9, y13, y1)" by (metis prod_cases4)
  obtain y10 y14 y2 y6 where c: "quarterround (x10, x14, x2, x6) = (y10, y14, y2, y6)" by (metis prod_cases4)
  obtain y15 y3 y7 y11 where d: "quarterround (x15, x3, x7, x11) = (y15, y3, y7, y11)" by (metis prod_cases4)
  have 1: "qr 0 4 8 12 x = [y0, x1, x2, x3, y4, x5, x6, x7, y8, x9, x10, x11, y12, x13, x14, x15]"
    unfolding x by (subst qr_spec[where ?z0.0 = y0 and ?z1.0 = y4 and ?z2.0 = y8 and ?z3.0 = y12]) (simp_all add: a del: quarterround.simps)
  have 2: "qr 5 9 13 1 \<dots> = [y0, y1, x2, x3, y4, y5, x6, x7, y8, y9, x10, x11, y12, y13, x14, x15]"
    by (subst qr_spec[where ?z0.0 = y5 and ?z1.0 = y9 and ?z2.0 = y13 and ?z3.0 = y1]) (simp_all add: b del: quarterround.simps)
  have 3: "qr 10 14 2 6 \<dots> = [y0, y1, y2, x3, y4, y5, y6, x7, y8, y9, y10, x11, y12, y13, y14, x15]"
    by (subst qr_spec[where ?z0.0 = y10 and ?z1.0 = y14 and ?z2.0 = y2 and ?z3.0 = y6]) (simp_all add: c del: quarterround.simps)
  have 4: "qr 15 3 7 11 \<dots> = [y0, y1, y2, y3, y4, y5, y6, y7, y8, y9, y10, y11, y12, y13, y14, y15]"
    by (subst qr_spec[where ?z0.0 = y15 and ?z1.0 = y3 and ?z2.0 = y7 and ?z3.0 = y11]) (simp_all add: d del: quarterround.simps)
  show ?thesis unfolding 1 2 3 4 by (simp add: x a b c d del: quarterround.simps)
qed

lemma rowround_qr:
  assumes "length x = 16"
  shows "qr 15 12 13 14 (qr 10 11 8 9 (qr 5 6 7 4 (qr 0 1 2 3 x))) = rowround x"
proof -
  obtain x0 x1 x2 x3 x4 x5 x6 x7 x8 x9 x10 x11 x12 x13 x14 x15 where
    x: "x = [x0, x1, x2, x3, x4, x5, x6, x7, x8, x9, x10, x11, x12, x13, x14, x15]" by (rule list16[OF assms])
  obtain y0 y1 y2 y3 where a: "quarterround (x0, x1, x2, x3) = (y0, y1, y2, y3)" by (metis prod_cases4)
  obtain y5 y6 y7 y4 where b: "quarterround (x5, x6, x7, x4) = (y5, y6, y7, y4)" by (metis prod_cases4)
  obtain y10 y11 y8 y9 where c: "quarterround (x10, x11, x8, x9) = (y10, y11, y8, y9)" by (metis prod_cases4)
  obtain y15 y12 y13 y14 where d: "quarterround (x15, x12, x13, x14) = (y15, y12, y13, y14)" by (metis prod_cases4)
  have 1: "qr 0 1 2 3 x = [y0, y1, y2, y3, x4, x5, x6, x7, x8, x9, x10, x11, x12, x13, x14, x15]"
    unfolding x by (subst qr_spec[where ?z0.0 = y0 and ?z1.0 = y1 and ?z2.0 = y2 and ?z3.0 = y3]) (simp_all add: a del: quarterround.simps)
  have 2: "qr 5 6 7 4 \<dots> = [y0, y1, y2, y3, y4, y5, y6, y7, x8, x9, x10, x11, x12, x13, x14, x15]"
    by (subst qr_spec[where ?z0.0 = y5 and ?z1.0 = y6 and ?z2.0 = y7 and ?z3.0 = y4]) (simp_all add: b del: quarterround.simps)
  have 3: "qr 10 11 8 9 \<dots> = [y0, y1, y2, y3, y4, y5, y6, y7, y8, y9, y10, y11, x12, x13, x14, x15]"
    by (subst qr_spec[where ?z0.0 = y10 and ?z1.0 = y11 and ?z2.0 = y8 and ?z3.0 = y9]) (simp_all add: c del: quarterround.simps)
  have 4: "qr 15 12 13 14 \<dots> = [y0, y1, y2, y3, y4, y5, y6, y7, y8, y9, y10, y11, y12, y13, y14, y15]"
    by (subst qr_spec[where ?z0.0 = y15 and ?z1.0 = y12 and ?z2.0 = y13 and ?z3.0 = y14]) (simp_all add: d del: quarterround.simps)
  show ?thesis unfolding 1 2 3 4 by (simp add: x a b c d del: quarterround.simps)
qed

lemma double_round_spec: "length x = 16 \<Longrightarrow> double_round x = rowround (columnround x) \<and> length (rowround (columnround x)) = 16"
  unfolding double_round_qr using columnround_qr[of x] rowround_qr[of "columnround x"]
  by (metis length_qr)

lemma double_rounds_spec: "length x = 16 \<Longrightarrow> (double_round ^^ n) x = ((rowround \<circ> columnround) ^^ n) x \<and> length (((rowround \<circ> columnround) ^^ n) x) = 16"
proof (induction n)
  case (Suc n)
  then show ?case using double_round_spec[of "((rowround \<circ> columnround) ^^ n) x"] by (simp add: comp_def)
qed simp

lemma salsa20_8_spec:
  assumes "length B = 16"
  shows "salsa20_8 B = Some (salsa_spec B)" and "length (salsa_spec B) = 16"
proof -
  note d = double_rounds_spec[OF assms, of 4]
  show "salsa20_8 B = Some (salsa_spec B)" "length (salsa_spec B) = 16"
    using assms d by (simp_all add: salsa20_8_def salsa_spec_def blkcpy_def blkadd_def rdw_def wrw_def)
qed

section \<open>Block mixing\<close>

lemma rdw_append: "length a = p \<Longrightarrow> length b = n \<Longrightarrow> rdw (a @ b @ c) p n = Some b"
  by (auto simp: rdw_def)

lemma wrw_append: "length a = p \<Longrightarrow> length b = length v \<Longrightarrow> wrw (a @ b @ c) p v = Some (a @ v @ c)"
  by (auto simp: wrw_def)

lemma rdw_blk: "16 * Suc i \<le> length B \<Longrightarrow> rdw B (i * 16) 16 = Some (blk B i)"
  by (simp add: rdw_def blk_def mult.commute)

lemma length_blk: "16 * Suc i \<le> length B \<Longrightarrow> length (blk B i) = 16"
  by (simp add: blk_def)

lemma length_bm_y: "16 * Suc i \<le> length B \<Longrightarrow> 0 < r \<Longrightarrow> length B = 32 * r \<Longrightarrow> length (bm_y r B i) = 16"
proof (induction i)
  case 0
  then show ?case using length_blk[of 0 B] length_blk[of "2 * r - 1" B] salsa20_8_spec(2)[of "xorw (blk B (2 * r - 1)) (blk B 0)"]
    by (simp add: xorw_def)
next
  case (Suc i)
  then show ?case using length_blk[of "Suc i" B] salsa20_8_spec(2)[of "xorw (bm_y r B i) (blk B (Suc i))"] by (simp add: xorw_def)
qed

text \<open>One half of a round: the next block into \<open>X\<close>.\<close>

lemma mix_half:
  assumes "length X = 16" and "16 * Suc i \<le> length B"
  shows "blkxor X 0 B (i * 16) 16 = Some (xorw X (blk B i))" and "salsa20_8 (xorw X (blk B i)) = Some (salsa_spec (xorw X (blk B i)))"
    and "length (salsa_spec (xorw X (blk B i))) = 16"
proof -
  have l: "length (blk B i) = 16" by (rule length_blk[OF assms(2)])
  then have x: "length (xorw X (blk B i)) = 16" using assms(1) by (simp add: xorw_def)
  show "blkxor X 0 B (i * 16) 16 = Some (xorw X (blk B i))"
    using rdw_blk[OF assms(2)] assms(1) l by (simp add: blkxor_def rdw_def[of X] wrw_def xorw_def)
  show "salsa20_8 (xorw X (blk B i)) = Some (salsa_spec (xorw X (blk B i)))" "length (salsa_spec (xorw X (blk B i))) = 16"
    by (rule salsa20_8_spec[OF x])+
qed

lemma split16:
  assumes "length A = 16 * Suc n"
  obtains A1 A2 where "A = A1 @ A2" and "length A1 = 16" and "length A2 = 16 * n"
  using assms that[of "take 16 A" "drop 16 A"] by simp

definition bm_evens :: "nat \<Rightarrow> words \<Rightarrow> nat \<Rightarrow> words" where
  "bm_evens r B k = concat (map (\<lambda>i. bm_y r B (2 * i)) [0..<k])"

definition bm_odds :: "nat \<Rightarrow> words \<Rightarrow> nat \<Rightarrow> words" where
  "bm_odds r B k = concat (map (\<lambda>i. bm_y r B (2 * i + 1)) [0..<k])"

lemma bm_Suc: "bm_evens r B (Suc k) = bm_evens r B k @ bm_y r B (2 * k)" "bm_odds r B (Suc k) = bm_odds r B k @ bm_y r B (2 * k + 1)"
  by (simp_all add: bm_evens_def bm_odds_def)

lemma length_bm_lists:
  assumes "length B = 32 * r" and "k \<le> r"
  shows "length (bm_evens r B k) = 16 * k" and "length (bm_odds r B k) = 16 * k"
  using assms(2)
proof (induction k)
  case (Suc k)
  { case 1 then show ?case using Suc length_bm_y[of "2 * k" B r] assms(1) by (simp add: bm_Suc) }
  { case 2 then show ?case using Suc length_bm_y[of "2 * k + 1" B r] assms(1) by (simp add: bm_Suc) }
qed (simp_all add: bm_evens_def bm_odds_def)

lemma blockmix_loop_spec:
  assumes B: "length B = 32 * r" and r: "0 < r"
  shows "k \<le> r \<Longrightarrow> length A = 16 * (r - k) \<Longrightarrow> length C = 16 * (r - k) \<Longrightarrow> X = (if k = 0 then blk B (2 * r - 1) else bm_y r B (2 * k - 1)) \<Longrightarrow>
    \<exists>Z. blockmix_loop B (bm_evens r B k @ A @ bm_odds r B k @ C) X r (2 * k) = Some (blockmix_spec r B, Z) \<and> length Z = 16"
proof (induction "r - k" arbitrary: k A C X)
  case 0
  then have k: "k = r" "A = []" "C = []" by auto
  then have "length X = 16" using 0 length_bm_y[of "2 * r - 1" B r] B r by simp
  then show ?case using k by (subst blockmix_loop.simps) (simp add: blockmix_spec_def bm_evens_def bm_odds_def)
next
  case (Suc n)
  then have k: "k < r" "r - k = Suc n" "n = r - Suc k" by auto
  have X: "length X = 16" using Suc.prems(4) length_blk[of "2 * r - 1" B] length_bm_y[of "2 * k - 1" B r] B r k(1) by auto
  have i: "16 * Suc (2 * k) \<le> length B" "16 * Suc (2 * k + 1) \<le> length B" using B k(1) by auto
  note h1 = mix_half[OF X i(1)]
  have y0: "salsa_spec (xorw X (blk B (2 * k))) = bm_y r B (2 * k)"
    using Suc.prems(4) by (cases k) auto
  note h1 = h1(1,2) h1(3)[unfolded y0]
  note h2 = mix_half[OF h1(3) i(2)]
  have y1: "salsa_spec (xorw (bm_y r B (2 * k)) (blk B (2 * k + 1))) = bm_y r B (2 * k + 1)" by simp
  obtain A1 A2 where A: "A = A1 @ A2" "length A1 = 16" "length A2 = 16 * n" using split16[of A n] Suc.prems(2) k(2) by auto
  obtain C1 C2 where C: "C = C1 @ C2" "length C1 = 16" "length C2 = 16 * n" using split16[of C n] Suc.prems(3) k(2) by auto
  note l = length_bm_lists[OF B, of k]
  have w1: "blkcpy (bm_evens r B k @ A @ bm_odds r B k @ C) (2 * k * 8) (bm_y r B (2 * k)) 0 16 =
      Some (bm_evens r B (Suc k) @ A2 @ bm_odds r B k @ C)"
    using wrw_append[of "bm_evens r B k" "2 * k * 8" A1 "bm_y r B (2 * k)" "A2 @ bm_odds r B k @ C"] h1(3) A l(1) k(1)
    by (simp add: blkcpy_def rdw_def bm_Suc)
  have w2: "blkcpy (bm_evens r B (Suc k) @ A2 @ bm_odds r B k @ C) (2 * k * 8 + r * 16) (bm_y r B (2 * k + 1)) 0 16 =
      Some (bm_evens r B (Suc k) @ A2 @ bm_odds r B (Suc k) @ C2)"
    using wrw_append[of "bm_evens r B (Suc k) @ A2 @ bm_odds r B k" "2 * k * 8 + r * 16" C1 "bm_y r B (2 * k + 1)" C2] h2(3)[unfolded y1]
      A(3) C l k length_bm_lists(1)[OF B, of "Suc k"] by (simp add: blkcpy_def rdw_def bm_Suc)
  have "\<exists>Z. blockmix_loop B (bm_evens r B (Suc k) @ A2 @ bm_odds r B (Suc k) @ C2) (bm_y r B (2 * k + 1)) r (2 * Suc k) = Some (blockmix_spec r B, Z) \<and> length Z = 16"
    by (rule Suc.hyps(1)) (use k A(3) C(3) in auto)
  moreover have "blockmix_loop B (bm_evens r B k @ A @ bm_odds r B k @ C) X r (2 * k) =
      blockmix_loop B (bm_evens r B (Suc k) @ A2 @ bm_odds r B (Suc k) @ C2) (bm_y r B (2 * k + 1)) r (2 * Suc k)"
    using k(1) h1(1,2) y0 h2(1,2) y1 w1 w2 by (subst blockmix_loop.simps) (simp add: algebra_simps)
  ultimately show ?case by simp
qed

lemma blockmix_ok:
  assumes "length B = 32 * r" and "0 < r" and "length Y = 32 * r" and "length Z = 16"
  shows "\<exists>Z'. blockmix B Y Z r = Some (blockmix_spec r B, Z') \<and> length Z' = 16" and "length (blockmix_spec r B) = 32 * r"
proof -
  have l: "16 * Suc (2 * r - 1) \<le> length B" using assms(1,2) by simp
  have c: "blkcpy Z 0 B ((2 * r - 1) * 16) 16 = Some (blk B (2 * r - 1))"
    using rdw_blk[OF l] length_blk[OF l] assms(4) by (simp add: blkcpy_def wrw_def)
  have "\<exists>Z'. blockmix_loop B (bm_evens r B 0 @ take (16 * r) Y @ bm_odds r B 0 @ drop (16 * r) Y) (blk B (2 * r - 1)) r (2 * 0) =
      Some (blockmix_spec r B, Z') \<and> length Z' = 16"
    by (rule blockmix_loop_spec[OF assms(1,2)]) (use assms in auto)
  then show "\<exists>Z'. blockmix B Y Z r = Some (blockmix_spec r B, Z') \<and> length Z' = 16"
    using c by (simp add: blockmix_def bm_evens_def bm_odds_def)
  show "length (blockmix_spec r B) = 32 * r"
    using length_bm_lists[OF assms(1), of r] by (simp add: blockmix_spec_def bm_evens_def bm_odds_def)
qed

section \<open>Sequential mixing\<close>

lemma length_rm_V: "length B = 32 * r \<Longrightarrow> 0 < r \<Longrightarrow> length (rm_V r B i) = 32 * r"
  by (induction i) (simp_all add: rm_V_def blockmix_ok(2)[of _ r "replicate (32 * r) 0" "replicate 16 0"])

lemma rm_V_Suc: "rm_V r B (Suc i) = blockmix_spec r (rm_V r B i)"
  by (simp add: rm_V_def)

definition rm_Vs :: "nat \<Rightarrow> words \<Rightarrow> nat \<Rightarrow> words" where
  "rm_Vs r B k = concat (map (rm_V r B) [0..<k])"

lemma rm_Vs_Suc: "rm_Vs r B (Suc k) = rm_Vs r B k @ rm_V r B k"
  by (simp add: rm_Vs_def)

lemma length_rm_Vs: "length B = 32 * r \<Longrightarrow> 0 < r \<Longrightarrow> length (rm_Vs r B k) = 32 * r * k"
  by (induction k) (simp_all add: rm_Vs_Suc length_rm_V, simp add: rm_Vs_def)

lemma rdw_rm_Vs:
  assumes "length B = 32 * r" and "0 < r" and "j < N"
  shows "rdw (rm_Vs r B N) (j * (32 * r)) (32 * r) = Some (rm_V r B j)"
proof -
  have "[0..<N] = [0..<j] @ j # [Suc j..<N]" using assms(3) using upt_add_eq_append[of 0 j "N - j"] upt_conv_Cons[of j N] by simp
  then have "rm_Vs r B N = rm_Vs r B j @ rm_V r B j @ concat (map (rm_V r B) [Suc j..<N])" by (simp add: rm_Vs_def)
  then show ?thesis using rdw_append[of "rm_Vs r B j" "j * (32 * r)" "rm_V r B j" "32 * r"] length_rm_Vs[OF assms(1,2)] length_rm_V[OF assms(1,2)]
    by (simp add: ac_simps)
qed

lemma store_V:
  assumes "length B = 32 * r" and "0 < r" and "length R = 32 * r * Suc n"
  obtains R' where "blkcpy (rm_Vs r B k @ R) (k * (32 * r)) (rm_V r B k) 0 (32 * r) = Some (rm_Vs r B (Suc k) @ R')" and "length R' = 32 * r * n"
proof -
  let ?v = "rm_V r B k"
  have "R = take (32 * r) R @ drop (32 * r) R" by simp
  moreover have "length (take (32 * r) R) = 32 * r" using assms(3) by simp
  ultimately have "wrw (rm_Vs r B k @ R) (k * (32 * r)) ?v = Some (rm_Vs r B k @ ?v @ drop (32 * r) R)"
    using wrw_append[of "rm_Vs r B k" "k * (32 * r)" "take (32 * r) R" ?v "drop (32 * r) R"] length_rm_Vs[OF assms(1,2), of k] length_rm_V[OF assms(1,2), of k]
    by (simp add: ac_simps)
  then show ?thesis using that[of "drop (32 * r) R"] length_rm_V[OF assms(1,2), of k] assms(3) by (simp add: blkcpy_def rdw_def rm_Vs_Suc)
qed

lemma mix_fill_spec:
  assumes B: "length B = 32 * r" and r: "0 < r"
  shows "k \<le> M \<Longrightarrow> length R = 32 * r * (2 * (M - k)) \<Longrightarrow> length Y = 32 * r \<Longrightarrow> length Z = 16 \<Longrightarrow>
    \<exists>Y' Z'. mix_fill (rm_Vs r B (2 * k) @ R) (rm_V r B (2 * k)) Y Z r (2 * M) (2 * k) = Some (rm_Vs r B (2 * M), rm_V r B (2 * M), Y', Z') \<and>
      length Y' = 32 * r \<and> length Z' = 16"
proof (induction "M - k" arbitrary: k R Y Z)
  case 0
  then show ?case by (subst mix_fill.simps) simp
next
  case (Suc n)
  then have k: "k < M" "M - k = Suc n" "n = M - Suc k" by auto
  have "length R = 32 * r * Suc (2 * n + 1)" using Suc.prems(2) k(2) by simp
  then obtain R1 where R1: "blkcpy (rm_Vs r B (2 * k) @ R) (2 * k * (32 * r)) (rm_V r B (2 * k)) 0 (32 * r) = Some (rm_Vs r B (Suc (2 * k)) @ R1)"
    "length R1 = 32 * r * (2 * n + 1)" by (rule store_V[OF B r])
  have "length R1 = 32 * r * Suc (2 * n)" using R1(2) by simp
  then obtain R2 where R2: "blkcpy (rm_Vs r B (Suc (2 * k)) @ R1) (Suc (2 * k) * (32 * r)) (rm_V r B (Suc (2 * k))) 0 (32 * r) = Some (rm_Vs r B (Suc (Suc (2 * k))) @ R2)"
    "length R2 = 32 * r * (2 * n)" by (rule store_V[OF B r])
  have lv: "length (rm_V r B j) = 32 * r" for j by (rule length_rm_V[OF B r])
  obtain Z1 where Z1: "blockmix (rm_V r B (2 * k)) Y Z r = Some (rm_V r B (Suc (2 * k)), Z1)" "length Z1 = 16"
    using blockmix_ok(1)[OF lv r Suc.prems(3,4)] by (auto simp: rm_V_Suc)
  obtain Z2 where Z2: "blockmix (rm_V r B (Suc (2 * k))) (rm_V r B (2 * k)) Z1 r = Some (rm_V r B (Suc (Suc (2 * k))), Z2)" "length Z2 = 16"
    using blockmix_ok(1)[OF lv r lv Z1(2), of "Suc (2 * k)" "2 * k"] unfolding rm_V_Suc[of r B "Suc (2 * k)"] by blast
  have "mix_fill (rm_Vs r B (2 * k) @ R) (rm_V r B (2 * k)) Y Z r (2 * M) (2 * k) =
      mix_fill (rm_Vs r B (2 * Suc k) @ R2) (rm_V r B (2 * Suc k)) (rm_V r B (Suc (2 * k))) Z2 r (2 * M) (2 * Suc k)"
    using k(1) R1(1) R2(1) Z1(1) Z2(1) by (subst mix_fill.simps) simp
  moreover have "\<exists>Y' Z'. mix_fill (rm_Vs r B (2 * Suc k) @ R2) (rm_V r B (2 * Suc k)) (rm_V r B (Suc (2 * k))) Z2 r (2 * M) (2 * Suc k) =
      Some (rm_Vs r B (2 * M), rm_V r B (2 * M), Y', Z') \<and> length Y' = 32 * r \<and> length Z' = 16"
    by (rule Suc.hyps(1)) (use k R2(2) lv Z2(2) in auto)
  ultimately show ?case by simp
qed

lemma integerify_mod:
  assumes "length X = 32 * r" and "0 < r" and "e \<le> 32"
  obtains w where "integerify X r = Some w" and "unat (w AND word_of_int (int (2 ^ e) - 1)) = integerify_spec r X mod 2 ^ e"
proof -
  have l: "16 * Suc (2 * r - 1) \<le> length X" using assms(1,2) by simp
  obtain w0 w1 ws where b: "blk X (2 * r - 1) = w0 # w1 # ws"
    using length_blk[OF l] by (cases "blk X (2 * r - 1)"; cases "tl (blk X (2 * r - 1))") auto
  define i where "i = (2 * r - 1) * 16"
  have i: "i + 16 = length X" using assms(1,2) by (simp add: i_def)
  have d: "take 16 (drop i X) = w0 # w1 # ws" using b by (simp add: blk_def i_def mult.commute)
  have n: "X ! i = w0" "X ! (i + 1) = w1"
    using arg_cong[OF d, of "\<lambda>l. l ! 0"] arg_cong[OF d, of "\<lambda>l. l ! 1"] i by simp_all
  have "rdw X i 1 = Some [w0]" "rdw X (i + 1) 1 = Some [w1]"
    using n i by (simp_all add: rdw_def take_Suc_conv_app_nth hd_drop_conv_nth take_Suc)
  then have 1: "integerify X r = Some (push_bit 32 (ucast w1) OR ucast w0)" unfolding integerify_def i_def[symmetric] Let_def by simp
  have m: "word_of_int (int (2 ^ e) - 1) = (mask e :: u64)" by (simp add: mask_eq_exp_minus_1)
  have "take_bit e (push_bit 32 (ucast w1) OR ucast w0 :: u64) = take_bit e (ucast w0)"
    by (rule bit_word_eqI) (use assms(3) in \<open>auto simp: bit_simps\<close>)
  then have "unat ((push_bit 32 (ucast w1) OR ucast w0) AND mask e :: u64) = take_bit e (unat w0)"
    by (simp add: take_bit_eq_mask[symmetric] unsigned_take_bit_eq)
  moreover have "(2 :: nat) ^ e dvd 2 ^ 32" using assms(3) by (rule le_imp_power_dvd)
  then have "(2 :: nat) ^ e dvd 2 ^ 32 * words_nat (w1 # ws)" by (rule dvd_mult2)
  then have "integerify_spec r X mod 2 ^ e = unat w0 mod 2 ^ e"
    unfolding integerify_spec_def b words_nat.simps(2)[of w0] by (metis add.commute mod_add_self2 dvd_def mod_mult_self2)
  ultimately show ?thesis using that[OF 1] m by (simp add: take_bit_eq_mod)
qed

lemma length_xorw: "length a = n \<Longrightarrow> length b = n \<Longrightarrow> length (xorw a b) = n"
  by (simp add: xorw_def)

lemma length_rm_X: "length B = 32 * r \<Longrightarrow> 0 < r \<Longrightarrow> length (rm_X r N B i) = 32 * r"
  using length_rm_V[of B r] by (induction i) (simp_all add: length_xorw blockmix_ok(2)[of _ r "replicate (32 * r) 0" "replicate 16 0"])

text \<open>One step of the second loop, from \<open>X\<close> to \<open>Y\<close>.\<close>

lemma mix_read_half:
  assumes B: "length B = 32 * r" and r: "0 < r" and e: "e \<le> 32" and "length Y = 32 * r" and "length Z = 16"
  defines "N \<equiv> 2 ^ e"
  obtains w X' Z' where "integerify (rm_X r N B i) r = Some w"
    and "blkxor (rm_X r N B i) 0 (rm_Vs r B N) (unat (w AND word_of_int (int N - 1)) * (32 * r)) (32 * r) = Some X'"
    and "blockmix X' Y Z r = Some (rm_X r N B (Suc i), Z')" and "length X' = 32 * r" and "length Z' = 16"
proof -
  let ?X = "rm_X r N B i"
  have lX: "length ?X = 32 * r" by (rule length_rm_X[OF B r])
  obtain w where w: "integerify ?X r = Some w" "unat (w AND word_of_int (int N - 1)) = integerify_spec r ?X mod N"
    using integerify_mod[OF lX r e] unfolding N_def by blast
  let ?j = "integerify_spec r ?X mod N"
  have j: "?j < N" by (simp add: N_def)
  let ?T = "xorw ?X (rm_V r B ?j)"
  have lT: "length ?T = 32 * r" by (rule length_xorw[OF lX length_rm_V[OF B r]])
  have x: "blkxor ?X 0 (rm_Vs r B N) (?j * (32 * r)) (32 * r) = Some ?T"
    using rdw_rm_Vs[OF B r j] lX lT by (simp add: blkxor_def rdw_def[of ?X] wrw_def xorw_def)
  obtain Z' where z: "blockmix ?T Y Z r = Some (rm_X r N B (Suc i), Z')" "length Z' = 16"
    using blockmix_ok(1)[OF lT r assms(4,5)] by auto
  show ?thesis by (rule that[OF w(1) _ z(1) lT z(2)]) (use x w(2) in simp)
qed

lemma mix_read_spec:
  assumes B: "length B = 32 * r" and r: "0 < r" and e: "e \<le> 32" and N: "N = 2 ^ e" "N = 2 * M"
  shows "k \<le> M \<Longrightarrow> length Y = 32 * r \<Longrightarrow> length Z = 16 \<Longrightarrow>
    \<exists>Y' Z'. mix_read (rm_Vs r B N) (rm_X r N B (2 * k)) Y Z r N (2 * k) = Some (romix_spec r N B, Y', Z') \<and> length Y' = 32 * r \<and> length Z' = 16"
proof (induction "M - k" arbitrary: k Y Z)
  case 0
  then show ?case using N(2) by (subst mix_read.simps) (simp add: romix_spec_def)
next
  case (Suc n)
  then have k: "k < M" "n = M - Suc k" by auto
  obtain w X' Z1 where 1: "integerify (rm_X r N B (2 * k)) r = Some w"
    "blkxor (rm_X r N B (2 * k)) 0 (rm_Vs r B N) (unat (w AND word_of_int (int N - 1)) * (32 * r)) (32 * r) = Some X'"
    "blockmix X' Y Z r = Some (rm_X r N B (Suc (2 * k)), Z1)" "length X' = 32 * r" "length Z1 = 16"
    unfolding N(1) by (rule mix_read_half[OF B r e Suc.prems(2,3)])
  obtain w' Y' Z2 where 2: "integerify (rm_X r N B (Suc (2 * k))) r = Some w'"
    "blkxor (rm_X r N B (Suc (2 * k))) 0 (rm_Vs r B N) (unat (w' AND word_of_int (int N - 1)) * (32 * r)) (32 * r) = Some Y'"
    "blockmix Y' X' Z1 r = Some (rm_X r N B (Suc (Suc (2 * k))), Z2)" "length Y' = 32 * r" "length Z2 = 16"
    unfolding N(1) by (rule mix_read_half[OF B r e 1(4,5)])
  have "2 * k < N" using k(1) N(2) by simp
  then have "mix_read (rm_Vs r B N) (rm_X r N B (2 * k)) Y Z r N (2 * k) = mix_read (rm_Vs r B N) (rm_X r N B (2 * Suc k)) Y' Z2 r N (2 * Suc k)"
    using 1(1-3) 2(1-3) by (subst mix_read.simps) (simp del: rm_X.simps)
  moreover have "\<exists>Y'' Z'. mix_read (rm_Vs r B N) (rm_X r N B (2 * Suc k)) Y' Z2 r N (2 * Suc k) = Some (romix_spec r N B, Y'', Z') \<and> length Y'' = 32 * r \<and> length Z' = 16"
    by (rule Suc.hyps(1)) (use k 2(4,5) in auto)
  ultimately show ?case by simp
qed

lemma length_romix: "length B = 32 * r \<Longrightarrow> 0 < r \<Longrightarrow> length (romix_spec r N B) = 32 * r"
  by (simp add: romix_spec_def length_rm_X)

lemma salsamix_ok:
  assumes "length B = 32 * r" and "0 < r" and "0 < e" and "e \<le> 32" and "N = 2 ^ e"
    and "length V = 32 * r * N" and "length X = 32 * r" and "length Y = 32 * r" and "length Z = 16"
  shows "\<exists>V' X' Y' Z'. salsamix B r N V X Y Z = Some (romix_spec r N B, V', X', Y', Z') \<and> length V' = 32 * r * N \<and> length X' = 32 * r \<and>
    length Y' = 32 * r \<and> length Z' = 16"
proof -
  obtain M where M: "N = 2 * M" using assms(3,5) by (cases e) auto
  have c: "blkcpy X 0 B 0 (32 * r) = Some B" using assms(1,7) by (simp add: blkcpy_def rdw_def wrw_def)
  have "\<exists>Y' Z'. mix_fill (rm_Vs r B (2 * 0) @ V) (rm_V r B (2 * 0)) Y Z r (2 * M) (2 * 0) = Some (rm_Vs r B (2 * M), rm_V r B (2 * M), Y', Z') \<and>
      length Y' = 32 * r \<and> length Z' = 16"
    by (rule mix_fill_spec[OF assms(1,2)]) (use assms(6,8,9) M in auto)
  then obtain Y1 Z1 where f: "mix_fill V B Y Z r N 0 = Some (rm_Vs r B N, rm_V r B N, Y1, Z1)" "length Y1 = 32 * r" "length Z1 = 16"
    using M by (auto simp: rm_Vs_def rm_V_def)
  have "\<exists>Y' Z'. mix_read (rm_Vs r B N) (rm_X r N B (2 * 0)) Y1 Z1 r N (2 * 0) = Some (romix_spec r N B, Y', Z') \<and> length Y' = 32 * r \<and> length Z' = 16"
    by (rule mix_read_spec[OF assms(1,2,4,5) M]) (use f(2,3) in auto)
  then obtain Y2 Z2 where g: "mix_read (rm_Vs r B N) (rm_V r B N) Y1 Z1 r N 0 = Some (romix_spec r N B, Y2, Z2)" "length Y2 = 32 * r" "length Z2 = 16" by auto
  have "blkcpy B 0 (romix_spec r N B) 0 (32 * r) = Some (romix_spec r N B)"
    using assms(1) length_romix[OF assms(1,2)] by (simp add: blkcpy_def rdw_def wrw_def)
  then have "salsamix B r N V X Y Z = Some (romix_spec r N B, rm_Vs r B N, romix_spec r N B, Y2, Z2)"
    using c f(1) g(1) by (simp add: salsamix_def)
  then show ?thesis using length_rm_Vs[OF assms(1,2)] length_romix[OF assms(1,2)] g(2,3) by simp
qed

section \<open>The blocks of the buffer\<close>

lemma ldw_append: "length a = p \<Longrightarrow> length b = 4 * n \<Longrightarrow> ldw (a @ b @ c) p n = Some (words_of b)"
  by (simp add: ldw_def words_of_def rds_append)

lemma length_words_of [simp]: "length (words_of b) = length b div 4"
  by (simp add: words_of_def)

lemma length_bytes_of [simp]: "length (bytes_of ws) = 4 * length ws"
  by (induction ws) (simp_all add: bytes_of_def)

lemma stw_append: "length a = p \<Longrightarrow> length b = 4 * length ws \<Longrightarrow> stw (a @ b @ c) p ws = Some (a @ bytes_of ws @ c)"
  using wrs_append[of a p b "bytes_of ws" c] by (simp add: stw_def bytes_of_def[symmetric])

lemma salsa_step:
  assumes r: "0 < r" and e: "0 < e" "e \<le> 32" "N = 2 ^ e" and D: "length D = 128 * r * i" and b: "length b = 128 * r"
    and xy: "length (D @ b @ R) = xy" and X: "length X = 128 * r" and Y: "length Y = 128 * r" and Z: "length Z = 64" and V: "length V = 128 * r * N"
    and v: "v = xy + (256 * r + 64)"
  obtains X' Y' Z' V' where
    "salsa_all (D @ b @ R @ X @ Y @ Z @ V @ T) r N xy v i (Suc k) = salsa_all (D @ romix_bytes r N b @ R @ X' @ Y' @ Z' @ V' @ T) r N xy v (i + 1) k"
    and "length X' = 128 * r" and "length Y' = 128 * r" and "length Z' = 64" and "length V' = 128 * r * N"
proof -
  let ?B = "words_of b"
  have lB: "length ?B = 32 * r" using b by simp
  obtain V' X' Y' Z' where s: "salsamix ?B r N (words_of V) (words_of X) (words_of Y) (words_of Z) = Some (romix_spec r N ?B, V', X', Y', Z')"
    and l: "length V' = 32 * r * N" "length X' = 32 * r" "length Y' = 32 * r" "length Z' = 16"
    using salsamix_ok[OF lB r e, of "words_of V" "words_of X" "words_of Y" "words_of Z"] X Y Z V by auto
  let ?b = "bytes_of (romix_spec r N ?B)"
  have lb: "length ?b = 128 * r" using length_romix[OF lB r, of N] by simp
  have xy': "length (D @ ?b @ R) = xy" using xy lb b by simp
  have p: "4 * (i * 32 * r) = length D" "128 * (i * r) = length D" using D by (simp_all add: ac_simps)
  have ld: "ldw (D @ b @ R @ X @ Y @ Z @ V @ T) (length D) (32 * r) = Some ?B"
    "ldw (D @ b @ R @ X @ Y @ Z @ V @ T) xy (32 * r) = Some (words_of X)"
    "ldw (D @ b @ R @ X @ Y @ Z @ V @ T) (xy + 128 * r) (32 * r) = Some (words_of Y)"
    "ldw (D @ b @ R @ X @ Y @ Z @ V @ T) (xy + 256 * r) 16 = Some (words_of Z)"
    "ldw (D @ b @ R @ X @ Y @ Z @ V @ T) v (32 * r * N) = Some (words_of V)"
    using ldw_append[of D "length D" b "32 * r" "R @ X @ Y @ Z @ V @ T"] ldw_append[of "D @ b @ R" xy X "32 * r" "Y @ Z @ V @ T"]
      ldw_append[of "D @ b @ R @ X" "xy + 128 * r" Y "32 * r" "Z @ V @ T"] ldw_append[of "D @ b @ R @ X @ Y" "xy + 256 * r" Z 16 "V @ T"]
      ldw_append[of "D @ b @ R @ X @ Y @ Z" v V "32 * r * N" T] b xy X Y Z V v by simp_all
  have st: "stw (D @ b @ R @ X @ Y @ Z @ V @ T) (length D) (romix_spec r N ?B) = Some (D @ ?b @ R @ X @ Y @ Z @ V @ T)"
    "stw (D @ ?b @ R @ X @ Y @ Z @ V @ T) xy X' = Some (D @ ?b @ R @ bytes_of X' @ Y @ Z @ V @ T)"
    "stw (D @ ?b @ R @ bytes_of X' @ Y @ Z @ V @ T) (xy + 128 * r) Y' = Some (D @ ?b @ R @ bytes_of X' @ bytes_of Y' @ Z @ V @ T)"
    "stw (D @ ?b @ R @ bytes_of X' @ bytes_of Y' @ Z @ V @ T) (xy + 256 * r) Z' = Some (D @ ?b @ R @ bytes_of X' @ bytes_of Y' @ bytes_of Z' @ V @ T)"
    "stw (D @ ?b @ R @ bytes_of X' @ bytes_of Y' @ bytes_of Z' @ V @ T) v V' = Some (D @ ?b @ R @ bytes_of X' @ bytes_of Y' @ bytes_of Z' @ bytes_of V' @ T)"
    using stw_append[of D "length D" b "romix_spec r N ?B" "R @ X @ Y @ Z @ V @ T"] stw_append[of "D @ ?b @ R" xy X X' "Y @ Z @ V @ T"]
      stw_append[of "D @ ?b @ R @ bytes_of X'" "xy + 128 * r" Y Y' "Z @ V @ T"] stw_append[of "D @ ?b @ R @ bytes_of X' @ bytes_of Y'" "xy + 256 * r" Z Z' "V @ T"]
      stw_append[of "D @ ?b @ R @ bytes_of X' @ bytes_of Y' @ bytes_of Z'" v V V' T] b xy' X Y Z V v l length_romix[OF lB r, of N] by simp_all
  show ?thesis by (rule that[of "bytes_of X'" "bytes_of Y'" "bytes_of Z'" "bytes_of V'"]) (simp_all add: p(2) ld st s l romix_bytes_def)
qed

lemma length_romix_bytes: "length b = 128 * r \<Longrightarrow> 0 < r \<Longrightarrow> length (romix_bytes r N b) = 128 * r"
  by (simp add: romix_bytes_def length_romix)

lemma salsa_all_ok:
  assumes r: "0 < r" and e: "0 < e" "e \<le> 32" "N = 2 ^ e" and v: "v = xy + (256 * r + 64)"
  shows "length D = 128 * r * i \<Longrightarrow> length B = 128 * r * k \<Longrightarrow> length (D @ B) = xy \<Longrightarrow> length W = 256 * r + 64 + 128 * r * N \<Longrightarrow>
    \<exists>W'. salsa_all (D @ B @ W @ T) r N xy v i k =
      Some (D @ concat (map (\<lambda>j. romix_bytes r N (take (128 * r) (drop (128 * r * j) B))) [0..<k]) @ W' @ T) \<and> length W' = length W"
proof (induction k arbitrary: D B W i)
  case (Suc k)
  define b R where "b = take (128 * r) B" and "R = drop (128 * r) B"
  have B: "B = b @ R" "length b = 128 * r" "length R = 128 * r * k" using Suc.prems(2) by (simp_all add: b_def R_def)
  define X Y Z V where "X = take (128 * r) W" and "Y = take (128 * r) (drop (128 * r) W)" and "Z = take 64 (drop (256 * r) W)" and "V = drop (256 * r + 64) W"
  have W: "W = X @ Y @ Z @ V"
    using append_take_drop_id[of "128 * r" W] append_take_drop_id[of "128 * r" "drop (128 * r) W"] append_take_drop_id[of 64 "drop (256 * r) W"]
    by (simp add: X_def Y_def Z_def V_def add.commute)
  have lW: "length X = 128 * r" "length Y = 128 * r" "length Z = 64" "length V = 128 * r * N"
    using Suc.prems(4) by (simp_all add: X_def Y_def Z_def V_def)
  have xy: "length (D @ b @ R) = xy" using Suc.prems(3) B(1) by simp
  obtain X' Y' Z' V' where s: "salsa_all (D @ b @ R @ X @ Y @ Z @ V @ T) r N xy v i (Suc k) =
      salsa_all (D @ romix_bytes r N b @ R @ X' @ Y' @ Z' @ V' @ T) r N xy v (i + 1) k"
    and l: "length X' = 128 * r" "length Y' = 128 * r" "length Z' = 64" "length V' = 128 * r * N"
    by (rule salsa_step[OF r e Suc.prems(1) B(2) xy lW v])
  let ?b = "romix_bytes r N b"
  have lb: "length ?b = 128 * r" by (rule length_romix_bytes[OF B(2) r])
  have "\<exists>W'. salsa_all ((D @ ?b) @ R @ (X' @ Y' @ Z' @ V') @ T) r N xy v (i + 1) k =
      Some ((D @ ?b) @ concat (map (\<lambda>j. romix_bytes r N (take (128 * r) (drop (128 * r * j) R))) [0..<k]) @ W' @ T) \<and> length W' = length (X' @ Y' @ Z' @ V')"
    by (rule Suc.IH) (use Suc.prems(1) xy lb l B(2,3) in simp_all)
  then obtain W' where W': "salsa_all (D @ B @ W @ T) r N xy v i (Suc k) =
      Some (D @ ?b @ concat (map (\<lambda>j. romix_bytes r N (take (128 * r) (drop (128 * r * j) R))) [0..<k]) @ W' @ T)" "length W' = length W"
    using s l lW by (auto simp: B(1) W)
  have "map (\<lambda>j. romix_bytes r N (take (128 * r) (drop (128 * r * j) B))) [0..<Suc k] =
      ?b # map (\<lambda>j. romix_bytes r N (take (128 * r) (drop (128 * r * j) R))) [0..<k]"
    using B(2) by (simp add: B(1) map_upt_Suc del: upt_Suc)
  then show ?case using W' by auto
qed simp

section \<open>The derived key\<close>

lemma pb_T_cong: "mac P = mac' P \<Longrightarrow> pb_T mac P S i k = pb_T mac' P S i k"
proof -
  assume a: "mac P = mac' P"
  have u: "pb_U mac P S i j = pb_U mac' P S i j" for j by (induction j) (simp_all add: a)
  show ?thesis by (induction k) (simp_all add: u del: pb_U.simps)
qed

lemma scrypt_spec_cut:
  assumes "length P \<le> 64"
  shows "scrypt_with prf_cut P S N r p len = scrypt_spec P S N r p len"
proof -
  have "pbkdf2_spec prf_cut 32 n P T 1 = pbkdf2_spec prf256 32 n P T 1" for n T
    unfolding pbkdf2_spec_def using assms by (subst pb_T_cong[of prf_cut P prf256]) (simp_all add: prf256_def prf_cut_def)
  then show ?thesis by (simp add: scrypt_spec_def scrypt_with_def)
qed

lemma pbkdf2_cut:
  assumes "len \<le> length psk"
  shows "pbkdf2_sha256 psk len (P @ x) (int (length P)) (S @ s) (length S) 1 = Some (pbkdf2_spec prf_cut 32 len P S 1 @ drop len psk)"
proof -
  have f: "prf_cut = (\<lambda>k. hmac_spec (\<lambda>m. sha256_spec m) (take 64 k))" by (simp add: fun_eq_iff prf_cut_def)
  show ?thesis unfolding f pbkdf2_sha256_def hmac_sha256_def sha256_spec_digest using sh256.pbkdf2_hmac_ok[OF assms, of P x S s 1] by simp
qed

lemma length_pbkdf2_cut: "length (pbkdf2_spec prf_cut 32 len P S 1) = len"
proof -
  have "length (prf_cut k m) = 32" for k m using sh256.mac.mac_size[of k m] by (simp add: sha256_spec_digest prf_cut_def)
  then have "length (pb_T prf_cut P S i 0) = 32" for i by (rule length_pb_T)
  then have "length (concat (map (\<lambda>i. pb_T prf_cut P S i 0) [1..<len div 32 + 2])) = 32 * (len div 32 + 2 - 1)" by (rule take_concat_blocks)
  moreover have "len \<le> 32 * (len div 32 + 2 - 1)" by presburger
  ultimately show ?thesis by (simp only: pbkdf2_spec_def length_take diff_self_eq_0 min.absorb2)
qed

lemma length_scrypt_with: "length (scrypt_with prf_cut P S N r p len) = len"
  by (simp only: scrypt_with_def Let_def length_pbkdf2_cut)

lemma sint_of_nat32: "n < 2 ^ 31 \<Longrightarrow> sint (of_nat n :: u32) = int n"
  by (simp add: signed_of_nat signed_take_bit_int_eq_self)

lemma int_lt31: "n < 2 ^ 31 \<Longrightarrow> int n < 2 ^ 31"
  by simp

lemma spbkdf_ok:
  assumes "length P < 2 ^ 31" and "len \<le> length psk" and "sc_pass sc = P @ x" and "sc_passlen sc = of_nat (length P)"
  shows "spbkdf sc (S @ s) (length S) psk len = Some (pbkdf2_spec prf_cut 32 len P S 1 @ drop len psk)"
  using pbkdf2_cut[OF assms(2)] sint_of_nat32[OF assms(1)] assms(3,4) by (simp add: spbkdf_def)

text \<open>The buffer is big enough for \<open>scrypt_hash\<close>.\<close>

lemma scrypt_hash_ok:
  assumes r: "0 < r" and e: "0 < e" "N = 2 ^ e" and b: "128 * r * p < 2 ^ 31" "256 * r + 64 < 2 ^ 31" "N * (32 * r) < 2 ^ 31"
    and P: "length P < 2 ^ 31" "sc_pass sc = P @ x" "sc_passlen sc = of_nat (length P)"
    and S: "length S < 2 ^ 31" "sc_salt sc = S @ s" "sc_saltlen sc = of_nat (length S)"
    and n: "sc_r sc = of_nat r" "sc_p sc = of_nat p" "sc_n sc = of_nat N"
    and m: "128 * r * p + (256 * r + 64) + 128 * r * N \<le> length (sc_temp sc)" and dk: "dklen \<le> length dk"
  shows "\<exists>m. scrypt_hash sc dk dklen = Some (scrypt_with prf_cut P S N r p dklen @ drop dklen dk, sc \<lparr> sc_temp := m \<rparr>) \<and> length m = length (sc_temp sc)"
proof -
  have sm: "r < 2 ^ 31" "p < 2 ^ 31" "N < 2 ^ 31"
    using b r by (auto intro: le_less_trans[of p "128 * r * p"] le_less_trans[of N "N * (32 * r)"])
  note si = sint_of_nat32[OF sm(1)] sint_of_nat32[OF sm(2)] sint_of_nat32[OF sm(3)] sint_of_nat32[OF S(1)]
  have "2 ^ e < (2 :: nat) ^ 31" using sm(3) e(2) by simp
  then have e32: "e \<le> 32" using power_less_imp_less_exp[of "2 :: nat" e 31] by simp
  have i: "int (128 * r * p) = 128 * int r * int p" "int (256 * r + 64) = 256 * int r + 64" "int (N * (32 * r)) = int N * (32 * int r)" by simp_all
  have g: "\<not> (sint (sc_r sc) < 0 \<or> sint (sc_p sc) < 0 \<or> sint (sc_n sc) < 0 \<or> 128 * sint (sc_r sc) * sint (sc_p sc) \<ge> 2 ^ 31 \<or>
      256 * sint (sc_r sc) + 64 \<ge> 2 ^ 31 \<or> sint (sc_n sc) * (32 * sint (sc_r sc)) \<ge> 2 ^ 31 \<or> sint (sc_saltlen sc) < 0)"
    unfolding n S(3) si i[symmetric] using b[THEN int_lt31] by (simp only: de_Morgan_disj not_less not_le of_nat_0_le_iff simp_thms)
  have nn: "nat (128 * sint (sc_r sc) * sint (sc_p sc)) = 128 * r * p" "nat (256 * sint (sc_r sc) + 64) = 256 * r + 64"
    "nat (sint (sc_r sc)) = r" "nat (sint (sc_p sc)) = p" "nat (sint (sc_n sc)) = N"
    unfolding n si i[symmetric] by (simp_all only: nat_int)
  have sl: "unat (sc_saltlen sc) = length S" using S(1,3) by (simp add: unsigned_of_nat take_bit_nat_eq_self)
  let ?B = "pbkdf2_spec prf_cut 32 (128 * r * p) P S 1"
  let ?B' = "concat (map (\<lambda>i. romix_bytes r N (take (128 * r) (drop (128 * r * i) ?B))) [0..<p])"
  have lB: "length ?B = 128 * r * p" by (rule length_pbkdf2_cut)
  define W T where "W = take (256 * r + 64 + 128 * r * N) (drop (128 * r * p) (sc_temp sc))"
    and "T = drop (256 * r + 64 + 128 * r * N) (drop (128 * r * p) (sc_temp sc))"
  have WT: "drop (128 * r * p) (sc_temp sc) = W @ T" by (simp only: W_def T_def append_take_drop_id)
  have lW: "length W = 256 * r + 64 + 128 * r * N" using m by (simp add: W_def)
  have 1: "spbkdf sc (sc_salt sc) (unat (sc_saltlen sc)) (sc_temp sc) (128 * r * p) = Some (?B @ W @ T)"
    unfolding sl S(2) WT[symmetric] by (rule spbkdf_ok[OF P(1) _ P(2,3)]) (use m in linarith)
  have "\<exists>W'. salsa_all ([] @ ?B @ W @ T) r N (128 * r * p) (128 * r * p + (256 * r + 64)) 0 p = Some ([] @ ?B' @ W' @ T) \<and> length W' = length W"
    by (rule salsa_all_ok[OF r e(1) e32 e(2) refl]) (use lB lW in simp_all)
  then obtain W' where 2: "salsa_all (?B @ W @ T) r N (128 * r * p) (128 * r * p + (256 * r + 64)) 0 p = Some (?B' @ W' @ T)" and lW': "length W' = length W" by auto
  have "length (take (128 * r) (drop (128 * r * i) ?B)) = 128 * r" if "i < p" for i
  proof -
    have "Suc i \<le> p" using that by simp
    then have "128 * r * Suc i \<le> 128 * r * p" by (rule mult_le_mono2)
    then show ?thesis using lB by simp
  qed
  then have "map length (map (\<lambda>i. romix_bytes r N (take (128 * r) (drop (128 * r * i) ?B))) [0..<p]) = map (\<lambda>i. 128 * r) [0..<p]"
    using length_romix_bytes[OF _ r] by simp
  then have lB': "length ?B' = 128 * r * p" by (simp only: length_concat) (simp add: sum_list_triv)
  have 3: "spbkdf sc (?B' @ W' @ T) (128 * r * p) dk dklen = Some (pbkdf2_spec prf_cut 32 dklen P ?B' 1 @ drop dklen dk)"
    using spbkdf_ok[OF P(1) dk P(2,3), of ?B' "W' @ T"] lB' by simp
  have "length (?B' @ W' @ T) = length (sc_temp sc)"
    using arg_cong[OF WT, of length] lB' lW' m by simp
  then show ?thesis unfolding scrypt_hash_def Let_def if_not_P[OF g] nn 1 2 3 bind.simps scrypt_with_def by blast
qed

text \<open>
  The words of the program: what \<open>scrypt_init\<close> asks for is what the three regions of the buffer take, when the products do not wrap.
\<close>

lemma unat_of_nat64: "k < 2 ^ 64 \<Longrightarrow> unat (of_nat k :: u64) = k"
  by (simp add: unsigned_of_nat take_bit_nat_eq_self)

lemma scrypt_init_need:
  assumes "128 * r * p + (256 * r + 64) + 128 * r * N < 2 ^ 32"
  defines "sc \<equiv> scrypt_init (of_nat N) (of_nat r) (of_nat p)"
  shows "unat (fst sc) = 128 * r * p + (256 * r + 64) + 128 * r * N"
    and "unat (sc_templen (snd sc)) = unat (fst sc)"
proof -
  have w: "128 * of_nat r * of_nat p = (of_nat (128 * r * p) :: u32)" "256 * of_nat r + 64 = (of_nat (256 * r + 64) :: u32)"
    "128 * of_nat r * of_nat N = (of_nat (128 * r * N) :: u32)" by simp_all
  have u: "(ucast (of_nat k :: u32) :: u64) = of_nat k" if "k < 2 ^ 32" for k :: nat
    using that by (simp add: unsigned_of_nat take_bit_nat_eq_self)
  have "fst sc = of_nat (128 * r * p) + of_nat (256 * r + 64) + of_nat (128 * r * N)"
    unfolding sc_def scrypt_init_def Let_def fst_conv w by (subst u, use assms(1) in linarith)+ (rule refl)
  then have f: "fst sc = of_nat (128 * r * p + (256 * r + 64) + 128 * r * N)" by (simp only: of_nat_add)
  then show 1: "unat (fst sc) = 128 * r * p + (256 * r + 64) + 128 * r * N" unfolding f using unat_of_nat64[OF less_trans[OF assms(1)]] by simp
  have "sc_templen (snd sc) = ucast (fst sc)" by (simp add: sc_def scrypt_init_def Let_def)
  then have "unat (sc_templen (snd sc)) = take_bit 32 (unat (fst sc))" by (simp add: unsigned_ucast_eq)
  then show "unat (sc_templen (snd sc)) = unat (fst sc)" using 1 assms(1) by (simp only: 1 take_bit_nat_eq_self)
qed



end
