(* ===== verification/Keyfile_Props.thy ===== *)
theory Keyfile_Props
  imports Keyfile Scrypt_Props
begin

text \<open>
  What a keyfile holds, and that the tools that write one and read one agree on it.  \<open>sealed P salt body\<close> is the keyfile of
  the passphrase \<open>P\<close>: the salt, then \<open>body\<close> wrapped under the key derived from both.
\<close>

section \<open>Sealing\<close>

definition kek_of :: "byte list \<Rightarrow> byte list \<Rightarrow> byte list" where
  "kek_of P salt = scrypt_with prf_cut P salt (2 ^ 15) 8 1 16"

definition sealed :: "byte list \<Rightarrow> byte list \<Rightarrow> byte list \<Rightarrow> byte list" where
  "sealed P salt body = salt @ the (aes128_wrap (kek_of P salt) body (length body))"

lemma length_kek_of [simp]: "length (kek_of P salt) = 16"
  by (simp only: kek_of_def length_scrypt_with)

lemma sealedE:
  assumes "8 \<le> length body"
  obtains W where "sealed P salt body = salt @ W" and "length W = length body"
    and "\<forall>r. aes128_wrap (kek_of P salt) (body @ r) (length body) = Some (W @ r)"
    and "\<forall>r. aes128_unwrap (kek_of P salt) (W @ r) (length body) = Some (body @ r)"
proof -
  obtain W where W: "aes128_wrap (kek_of P salt) body (length body) = Some W" "length W = length body"
    "aes128_unwrap (kek_of P salt) W (length body) = Some body" using unwrap_wrap[OF assms order_refl] by blast
  show ?thesis by (rule that[of W]) (use W aes128_wrap_more[OF W(1)] aes128_unwrap_more[OF W(3)] in \<open>simp_all add: sealed_def\<close>)
qed

lemma length_sealed: "8 \<le> length body \<Longrightarrow> length (sealed P salt body) = length salt + length body"
  by (erule sealedE[of body P salt]) simp

definition NEED :: nat where "NEED = 33557568"

lemma scrypt_init_dcrypt:
  obtains sc where "scrypt_init SCRYPT_N SCRYPT_R SCRYPT_P = (of_nat NEED, sc)" and "sc_n sc = SCRYPT_N" and "sc_r sc = SCRYPT_R"
    and "sc_p sc = SCRYPT_P" and "sc_templen sc = of_nat NEED"
  by (simp add: scrypt_init_def SCRYPT_N_def SCRYPT_R_def SCRYPT_P_def NEED_def Let_def)

definition sc_ready :: "Scrypt.scrypt \<Rightarrow> bool" where
  "sc_ready sc \<longleftrightarrow> sc_n sc = SCRYPT_N \<and> sc_r sc = SCRYPT_R \<and> sc_p sc = SCRYPT_P \<and> NEED \<le> length (sc_temp sc)"

lemma scrypt_run:
  assumes "sc_ready sc" and "length P < 2 ^ 31" and "length salt = 8" and "16 \<le> length dk"
  shows "\<exists>m. scrypt_hash (snd (scrypt_data sc (P @ x) (of_nat (length P)) (salt @ s) 8)) dk 16 =
      Some (kek_of P salt @ drop 16 dk, sc \<lparr> sc_pass := P @ x, sc_passlen := of_nat (length P), sc_salt := salt @ s, sc_saltlen := 8, sc_temp := m \<rparr>) \<and>
    length m = length (sc_temp sc)"
proof -
  let ?sc = "snd (scrypt_data sc (P @ x) (of_nat (length P)) (salt @ s) 8)"
  have "\<exists>m. scrypt_hash ?sc dk 16 = Some (scrypt_with prf_cut P salt (2 ^ 15) 8 1 16 @ drop 16 dk, ?sc \<lparr> sc_temp := m \<rparr>) \<and>
      length m = length (sc_temp ?sc)"
    by (rule scrypt_hash_ok[of 8 15 "2 ^ 15" 1])
      (use assms in \<open>simp_all add: scrypt_data_def sc_ready_def SCRYPT_N_def SCRYPT_R_def SCRYPT_P_def NEED_def\<close>)
  then show ?thesis by (simp add: kek_of_def scrypt_data_def)
qed

text \<open>The memory the kernel maps has the size asked for.\<close>

definition mmap_ok :: "'w dsys \<Rightarrow> bool" where
  "mmap_ok sys \<longleftrightarrow> (\<forall>n w buf w'. sys_mmap sys n w = (Inr buf, w') \<longrightarrow> length buf = unat n)"

lemma mmap_need:
  assumes "mmap_ok sys" and "sys_mmap sys (of_nat NEED) w = (Inr buf, w')"
  shows "length buf = NEED"
proof -
  have "length buf = unat (of_nat NEED :: u64)" using assms unfolding mmap_ok_def by blast
  then show ?thesis by (simp add: NEED_def)
qed

lemma scrypt_temp_ready:
  assumes "scrypt_init SCRYPT_N SCRYPT_R SCRYPT_P = (of_nat NEED, sc)" and "length buf = NEED"
  shows "sc_ready (snd (scrypt_temp sc buf (of_nat NEED)))"
  using assms by (auto simp: scrypt_init_def scrypt_temp_def sc_ready_def Let_def)

section \<open>Hashing and unwrapping\<close>

lemma kt_scrypt_ok:
  assumes "mmap_ok sys" and "sys_mmap sys (of_nat NEED) w = (Inr buf, w')" and "length P < 2 ^ 31" and "length salt = 8" and "length dk = 16"
  shows "kt_scrypt sys dk 16 (P @ x) (of_nat (length P)) (salt @ s) 8 w = Done (kek_of P salt, w')"
proof -
  obtain sc where sc: "scrypt_init SCRYPT_N SCRYPT_R SCRYPT_P = (of_nat NEED, sc)" by (rule scrypt_init_dcrypt)
  obtain r1 sc1 where sc1: "scrypt_temp sc buf (of_nat NEED) = (r1, sc1)" by fastforce
  obtain r2 sc2 where sc2: "scrypt_data sc1 (P @ x) (of_nat (length P)) (salt @ s) 8 = (r2, sc2)" by fastforce
  have "sc_ready sc1" using scrypt_temp_ready[OF sc mmap_need[OF assms(1,2)]] sc1 by simp
  then obtain m where "scrypt_hash sc2 dk 16 = Some (kek_of P salt, sc1 \<lparr> sc_pass := P @ x, sc_passlen := of_nat (length P), sc_salt := salt @ s, sc_saltlen := 8, sc_temp := m \<rparr>)"
    using scrypt_run[of sc1 P salt dk x s] assms(3-5) sc2 by auto
  then show ?thesis by (simp add: kt_scrypt_def sc assms(2) sc1 sc2)
qed

lemma hash_passphrase_ok:
  assumes "mmap_ok sys" and "sys_mmap sys (of_nat NEED) w = (Inr buf, w')" and "length P < 2 ^ 31" and "length salt = 8" and "length (kf_kek kf) = 16"
    and "kf_buf kf = salt @ s"
  shows "hash_passphrase sys kf (P @ x) (length P) w = Done (kf \<lparr> kf_kek := kek_of P salt \<rparr>, w')"
  using kt_scrypt_ok[OF assms(1-5), of x s] assms(6) by (simp add: hash_passphrase_def SALTLEN_def)

lemma at_off_append: "f t = Some t' \<Longrightarrow> length a = k \<Longrightarrow> at_off k f (a @ t) = Some (a @ t')"
  by (auto simp: at_off_def)

lemma unwrap_keyfile_ok:
  assumes mm: "mmap_ok sys" "sys_mmap sys (of_nat NEED) w = (Inr buf, w')" and P: "length P < 2 ^ 31" "8 \<le> length (P @ x)" and "length salt = 8"
    and "length (kf_kek kf) = 16" and b: "kf_buf kf = sealed P salt (testpad @ keys) @ r" and l: "kf_len kf = int (length (sealed P salt (testpad @ keys)))"
  shows "\<exists>ph. unwrap_keyfile sys kf (P @ x) (length P) w =
    Done (kf \<lparr> kf_kek := kek_of P salt, kf_buf := salt @ testpad @ keys @ r \<rparr>, ph, w')"
proof -
  have "8 \<le> length (testpad @ keys)" by (simp add: testpad_def)
  then obtain W where W: "sealed P salt (testpad @ keys) = salt @ W" "length W = length (testpad @ keys)"
    "aes128_unwrap (kek_of P salt) (W @ r) (length (testpad @ keys)) = Some (testpad @ keys @ r)" by (rule sealedE) auto
  obtain ph where ph: "memzero (P @ x) 0 8 = Some ph" using memset_wrs[of 0 8 "P @ x" 0] wrs_fits[of 0 "replicate 8 0" "P @ x"] P(2)
    by (auto simp: memzero_memset)
  have h: "hash_passphrase sys kf (P @ x) (length P) w = Done (kf \<lparr> kf_kek := kek_of P salt \<rparr>, w')"
    by (rule hash_passphrase_ok[OF mm P(1) assms(5,6)]) (use b W(1) in simp)
  have wl: "kf_len kf - int SALTLEN = int (length (testpad @ keys))" using l W(1,2) assms(5) by (simp add: SALTLEN_def)
  have a: "at_off SALTLEN (\<lambda>b. aes128_unwrap (kek_of P salt) b (length (testpad @ keys))) (kf_buf kf) = Some (salt @ testpad @ keys @ r)"
    unfolding b W(1) append_assoc by (rule at_off_append) (use W(3) assms(5) in \<open>simp_all add: SALTLEN_def\<close>)
  have m: "memcmp (drop SALTLEN (salt @ testpad @ keys @ r)) testpad 8 = Some 0"
    by (rule memcmp_same) (simp_all add: assms(5) SALTLEN_def testpad_def)
  have nn: "\<not> int (length (testpad @ keys)) < 0" by simp
  have kl: "kf_len (kf \<lparr> kf_kek := k \<rparr>) = kf_len kf" "kf_buf (kf \<lparr> kf_kek := k \<rparr>) = kf_buf kf" "kf_kek (kf \<lparr> kf_kek := k \<rparr>) = k" for k by simp_all
  have "unwrap_keyfile sys kf (P @ x) (length P) w = Done (kf \<lparr> kf_kek := kek_of P salt, kf_buf := salt @ testpad @ keys @ r \<rparr>, ph, w')"
    unfolding unwrap_keyfile_def h andthen.simps prod.case ph defined_simps Let_def kl wl if_not_P[OF nn] nat_int a m
    by simp
  then show ?thesis by blast
qed

section \<open>Writing\<close>

lemma write_keyfile_ok:
  assumes op: "sys_open sys name (O_WRONLY OR flags) 0x180 w = (fd, w1)" "0 \<le> fd" and wo: "writes_ok (sys_write sys) fd out"
    and cl: "\<And>w. out (sys_close sys fd w) = out w" and "length salt = 8" and k: "kf_kek kf = kek_of P salt"
    and b: "kf_buf kf = salt @ testpad @ keys @ r" and l: "kf_len kf = int (16 + length keys)" and "length (kf_buf kf) = 1024"
  shows "\<exists>kf' w'. write_keyfile sys kf name flags w = Done (kf', w') \<and> out w' = out w1 @ sealed P salt (testpad @ keys)"
proof -
  have lt: "length testpad = 8" by (simp add: testpad_def)
  then have "8 \<le> length (testpad @ keys)" by simp
  then obtain W where W: "sealed P salt (testpad @ keys) = salt @ W" "length W = length (testpad @ keys)"
    "aes128_wrap (kek_of P salt) ((testpad @ keys) @ r) (length (testpad @ keys)) = Some (W @ r)" by (rule sealedE) auto
  have wl: "kf_len kf - int SALTLEN = int (length (testpad @ keys))" using l lt by (simp add: SALTLEN_def)
  have nn: "\<not> int (length (testpad @ keys)) < 0" by simp
  have a: "at_off SALTLEN (\<lambda>b. aes128_wrap (kf_kek kf) b (length (testpad @ keys))) (kf_buf kf) = Some (salt @ W @ r)"
    unfolding b k by (rule at_off_append) (use W(3) assms(5) in \<open>simp_all add: SALTLEN_def\<close>)
  have rd: "rds (salt @ W @ r) 0 (nat (kf_len kf)) = Some (salt @ W)" using W(2) l lt assms(5) by (simp add: rds_def)
  obtain q w2 where w2: "writeall (sys_write sys) fd (salt @ W) w1 = (q, w2)" "out w2 = out w1 @ salt @ W" "0 \<le> q" by (rule writeall_out[OF wo])
  have "length (salt @ W @ r) = 1024" using assms(9) b W(2) by simp
  then obtain z where z: "memzero (salt @ W @ r) 0 1024 = Some z"
    using memset_wrs[of 0 1024 "salt @ W @ r" 0] wrs_fits[of 0 "replicate 1024 0" "salt @ W @ r"] by (auto simp: memzero_memset)
  have "write_keyfile sys kf name flags w = Done (kf \<lparr> kf_buf := z \<rparr>, sys_close sys fd w2)"
    unfolding write_keyfile_def wl if_not_P[OF nn] nat_int a defined_simps andthen.simps Let_def op(1) prod.case rd w2(1) z
    using op(2) w2(3) by simp
  then show ?thesis using w2(2) cl W(1) by simp
qed

section \<open>Creating a keyfile\<close>

text \<open>
  What \<open>dektool\<close> meets when nothing fails: a terminal where the user types \<open>P\<close> each time, random bytes \<open>rnd n\<close>, memory, and a file
  \<open>fd\<close> whose contents \<open>out\<close> only grow by the writes to it.
\<close>

text \<open>A system on which every call fails, to be completed where a concrete one is needed.\<close>

definition nosys :: "'w dsys" where
  "nosys = \<lparr> sys_write = (\<lambda>_ _ w. (- 9, w)), sys_read = (\<lambda>_ _ w. ((- 9, []), w)), sys_open = (\<lambda>_ _ _ w. (- 2, w)), sys_close = (\<lambda>_ w. w),
     sys_fstat = (\<lambda>_ w. ((- 9, 0, 0), w)), sys_stat = (\<lambda>_ w. (- 2, w)), sys_mmap = (\<lambda>_ w. (Inl (- 12), w)), sys_getrandom = (\<lambda>_ w. ((- 38, []), w)),
     tcgets = (\<lambda>w. ((- 25, \<lparr> iflag = 0, oflag = 0, cflag = 0, lflag = 0, tcc = [] \<rparr>), w)), tcsets = (\<lambda>_ w. (- 25, w)), winsize = (\<lambda>w. ((- 25, 0, 0), w)),
     blkgetsize = (\<lambda>_ w. ((- 25, 0), w)), dm_ioctl = (\<lambda>_ _ m w. ((- 25, m), w)), sys_unlink = (\<lambda>_ w. w), sys_symlink = (\<lambda>_ _ w. (- 2, w)),
     sys_sigread = (\<lambda>_ w. ((- 9, 0), w)), sys_ppoll = (\<lambda>_ w. ((- 22, False, False, (0, 0)), w)), sys_signalfd = (\<lambda>w. (- 22, w)), sys_sigprocmask = (\<lambda>w. (- 22, w)) \<rparr>"

definition dek_env :: "'w dsys \<Rightarrow> byte list \<Rightarrow> (nat \<Rightarrow> byte list) \<Rightarrow> int \<Rightarrow> ('w \<Rightarrow> byte list) \<Rightarrow> bool" where
  "dek_env sys P rnd fd out \<longleftrightarrow> mmap_ok sys \<and> 0 \<le> fd \<and> writes_ok (sys_write sys) fd out \<and>
     (\<forall>t w. out (snd (sys_write sys 1 t w)) = out w) \<and>
     (\<forall>w. 0 \<le> fst (fst (tcgets sys w)) \<and> out (snd (tcgets sys w)) = out w) \<and>
     (\<forall>t w. 0 \<le> fst (tcsets sys t w) \<and> out (snd (tcsets sys t w)) = out w) \<and>
     (\<forall>w. fst (sys_read sys 0 80 w) = (int (length P) + 1, P @ [10]) \<and> out (snd (sys_read sys 0 80 w)) = out w) \<and>
     (\<forall>n w. fst (sys_getrandom sys n w) = (int n, rnd n) \<and> length (rnd n) = n \<and> out (snd (sys_getrandom sys n w)) = out w) \<and>
     (\<forall>n w. (\<exists>buf. fst (sys_mmap sys n w) = Inr buf) \<and> out (snd (sys_mmap sys n w)) = out w) \<and>
     (\<forall>f fl md w. fst (sys_open sys f fl md w) = fd \<and> out (snd (sys_open sys f fl md w)) = out w) \<and>
     (\<forall>w. out (sys_close sys fd w) = out w)"

lemma ask_ok:
  assumes "dek_env sys P rnd fd out" and "P \<noteq> []" and "length P < 79" and "length stk = 80"
  shows "\<exists>x w'. ask sys tag stk 80 w = Done (P @ 0 # x, length P, w') \<and> out w' = out w \<and> length (P @ 0 # x) = 80"
proof -
  note e = assms(1)[unfolded dek_env_def]
  define w1 where "w1 = snd (sys_write sys 1 (bstr tag) w)"
  obtain r ts w2 where g: "tcgets sys w1 = ((r, ts), w2)" by (metis prod.collapse)
  obtain r' w3 where t: "tcsets sys (ts \<lparr> lflag := (lflag ts AND NOT ECHO) OR ECHONL \<rparr>) w2 = (r', w3)" by fastforce
  obtain w4 where rd: "sys_read sys 0 80 w3 = ((int (length P) + 1, P @ [10]), w4)" using e by (metis prod.collapse)
  obtain r'' w5 where t': "tcsets sys ts w4 = (r'', w5)" by fastforce
  have nn: "0 \<le> r" "0 \<le> r'" using e g t by (metis fst_conv)+
  have o: "out w5 = out w" using e g t rd t' w1_def by (metis snd_conv)
  have w: "wrs stk 0 (P @ [10]) = Some (P @ 10 # drop (Suc (length P)) stk)" using assms(3,4) by (simp add: wrs_def)
  have wr: "wr (P @ 10 # drop (Suc (length P)) stk) (length P) 0 = Some (P @ 0 # drop (Suc (length P)) stk)" by (rule wr_snoc)
  have c: "clear_echo sys w1 = ((Some ts, Some True), w3)" using g t nn by (simp add: clear_echo_def)
  have n: "nat (int (length P) + 1) = Suc (length P)" and r10: "Prelude.rd (P @ 10 # drop (Suc (length P)) stk) (length P) = Some 10" by simp_all
  obtain r0 where w0: "sys_write sys 1 (bstr tag) w = (r0, w1)" by (metis prod.collapse w1_def)
  have "ask sys tag stk 80 w = Done (P @ 0 # drop (Suc (length P)) stk, length P, w5)"
    using assms(2,3) by (simp add: ask_def w0 c rd reset_echo_def t' w n wr r10)
  then show ?thesis using o assms(3,4) by auto
qed

lemma prep_passphrase_ok:
  assumes env: "dek_env sys P rnd fd out" and "P \<noteq> []" and "length P < 79" and "0 \<notin> set P" and "length stk = 80"
    and "length (kf_kek (t_kf ctx)) = 16" and "kf_buf (t_kf ctx) = salt @ r" and "length salt = 8"
  shows "\<exists>w'. prep_passphrase sys stk ctx w = Done (ctx \<lparr> t_kf := t_kf ctx \<lparr> kf_kek := kek_of P salt \<rparr> \<rparr>, w') \<and> out w' = out w"
proof -
  obtain x w1 where 1: "ask sys ''Passphrase: '' stk 80 w = Done (P @ 0 # x, length P, w1)" "out w1 = out w" using ask_ok[OF env assms(2,3,5)] by blast
  obtain y w2 where 2: "ask sys ''    repeat: '' stk 80 w1 = Done (P @ 0 # y, length P, w2)" "out w2 = out w1" using ask_ok[OF env assms(2,3,5)] by blast
  obtain buf w3 where 3: "sys_mmap sys (of_nat NEED) w2 = (Inr buf, w3)" "out w3 = out w2" using env unfolding dek_env_def by (metis prod.collapse)
  have "strcmp (Some (P @ 0 # x)) (Some (P @ 0 # y)) = Some 0"
    using strcmp_loop_lex[of "P @ 0 # x" P "P @ 0 # y" P] assms(4) by (auto simp: strcmp_def)
  moreover have "hash_passphrase sys (t_kf ctx) (P @ 0 # x) (length P) w2 = Done (t_kf ctx \<lparr> kf_kek := kek_of P salt \<rparr>, w3)"
    by (rule hash_passphrase_ok[OF _ 3(1) _ assms(8,6,7)]) (use env assms(3) in \<open>simp_all add: dek_env_def\<close>)
  ultimately show ?thesis using 1 2 3(2) by (simp add: prep_passphrase_def)
qed

lemma message_ok:
  assumes env: "dek_env sys P rnd fd out" and "0 \<notin> set (bstr msg)" and "0 \<notin> set nm"
  shows "\<exists>w'. message sys msg (Some (nm @ [0])) w = Done w' \<and> out w' = out w"
proof -
  have f: "strict_formatter (fmtstr (Some (bstr msg @ [0]))) (bstr msg)" "strict_formatter (fmtstr (Some (bstr '' '' @ [0]))) (bstr '' '')"
    "strict_formatter (fmtstr (Some (nm @ [0]))) nm"
    by (rule fmtstr_strict, use assms(2,3) in \<open>simp add: bstr_def ch_def\<close>)+
  let ?sz = "length msg + length nm + 5"
  let ?f = "fseq (fmtstr (Some (bstr msg @ [0]))) (fseq (fmtstr (Some (bstr '' '' @ [0]))) (fmtstr (Some (nm @ [0]))))"
  have "strict_formatter ?f (bstr msg @ bstr '' '' @ nm)" by (intro fseq_strict f)
  then obtain m p where m: "?f (replicate ?sz 0) 0 (?sz - 1) = Some (m, p)" "p \<le> ?sz - 1" "length m = ?sz"
    using strict_formatter.strict[of ?f _ 0 "?sz - 1" "replicate ?sz 0"] by auto
  then have "wr m p 10 = Some (m[p := 10])" by (simp add: wr_def)
  then show ?thesis using m(1) env assms(3) by (simp add: message_def strlen_cstr dek_env_def)
qed

lemma fill_key_data_ok:
  assumes env: "dek_env sys P rnd fd out" and "16 \<le> n" and "n \<le> 1024" and "length (kf_buf kf) = 1024"
  shows "\<exists>r w'. fill_key_data sys kf n w = Done (kf \<lparr> kf_buf := take 8 (rnd n) @ testpad @ drop 16 (rnd n) @ r, kf_len := int n \<rparr>, w') \<and>
    out w' = out w \<and> length (take 8 (rnd n) @ testpad @ drop 16 (rnd n) @ r) = 1024"
proof -
  have l: "length (rnd n) = n" using env by (simp add: dek_env_def)
  obtain w' where g: "sys_getrandom sys n w = ((int n, rnd n), w')" "out w' = out w" using env unfolding dek_env_def by (metis prod.collapse)
  have 1: "wrs (kf_buf kf) 0 (rnd n) = Some (rnd n @ drop n (kf_buf kf))" using l assms(3,4) by (simp add: wrs_def)
  have s: "rnd n @ t = take 8 (rnd n) @ take 8 (drop 8 (rnd n)) @ drop 16 (rnd n) @ t" for t
    using append_take_drop_id[of 8 "rnd n"] append_take_drop_id[of 8 "drop 8 (rnd n)"] by (metis append_assoc drop_drop numeral_Bit0)
  have 2: "wrs (rnd n @ drop n (kf_buf kf)) SALTLEN testpad = Some (take 8 (rnd n) @ testpad @ drop 16 (rnd n) @ drop n (kf_buf kf))"
    unfolding s using wrs_append[of "take 8 (rnd n)" SALTLEN "take 8 (drop 8 (rnd n))" testpad "drop 16 (rnd n) @ drop n (kf_buf kf)"] l assms(2)
    by (simp add: SALTLEN_def testpad_def)
  show ?thesis using g 1 2 l assms(2-4) by (auto simp: fill_key_data_def read_random_def copy_valid_iv_def testpad_def)
qed

lemma create_keyfile_ok:
  assumes env: "dek_env sys P rnd fd out" and P: "P \<noteq> []" "length P < 79" "0 \<notin> set P" and "length stk = 80" and "0 \<notin> set nm"
    and kf: "length (kf_kek (t_kf ctx)) = 16" "length (kf_buf (t_kf ctx)) = 1024" and n: "0 \<le> count" "count \<le> 31"
  defines "R \<equiv> rnd (16 + 32 * nat count)"
  shows "\<exists>ctx' w'. create_keyfile sys stk ctx (Some (nm @ [0])) count mode w = Done (ctx', w') \<and> out w' = out w @ sealed P (take 8 R) (testpad @ drop 16 R)"
proof -
  let ?n = "16 + 32 * nat count"
  have t: "key_end count = Done (int ?n)" using n by (simp add: key_end_def HDRSIZE_def KEYSIZE_def)
  have lR: "length R = ?n" using env by (simp add: dek_env_def R_def)
  have bn: "16 \<le> ?n" "?n \<le> 1024" using n by auto
  obtain w1 where 1: "message sys ''Creating new keyfile:'' (Some (nm @ [0])) w = Done w1" "out w1 = out w"
    using message_ok[OF env _ assms(6), of "''Creating new keyfile:''" w] by (auto simp: bstr_def ch_def)
  obtain r w2 where 2: "fill_key_data sys (t_kf ctx) ?n w1 = Done (t_kf ctx \<lparr> kf_buf := take 8 R @ testpad @ drop 16 R @ r, kf_len := int ?n \<rparr>, w2)"
    "out w2 = out w1" "length (take 8 R @ testpad @ drop 16 R @ r) = 1024"
    using fill_key_data_ok[OF env bn kf(2), of w1] unfolding R_def by blast
  let ?kf = "t_kf ctx \<lparr> kf_buf := take 8 R @ testpad @ drop 16 R @ r, kf_len := int ?n \<rparr>"
  obtain w3 where 3: "prep_passphrase sys stk (ctx \<lparr> t_kf := ?kf \<rparr>) w2 = Done (ctx \<lparr> t_kf := ?kf \<lparr> kf_kek := kek_of P (take 8 R) \<rparr> \<rparr>, w3)" "out w3 = out w2"
    using prep_passphrase_ok[OF env P assms(5), of "ctx \<lparr> t_kf := ?kf \<rparr>" "take 8 R"] kf(1) lR by auto
  obtain w4 where 4: "sys_open sys (Some (nm @ [0])) (O_WRONLY OR (O_CREAT OR mode)) 0x180 w3 = (fd, w4)" "out w4 = out w3"
    using env unfolding dek_env_def by (metis prod.collapse)
  let ?kf' = "?kf \<lparr> kf_kek := kek_of P (take 8 R) \<rparr>"
  have "\<exists>kf' w'. write_keyfile sys ?kf' (Some (nm @ [0])) (O_CREAT OR mode) w3 = Done (kf', w') \<and> out w' = out w4 @ sealed P (take 8 R) (testpad @ drop 16 R)"
    by (rule write_keyfile_ok[OF 4(1)]) (use env lR 2(3) in \<open>simp_all add: dek_env_def\<close>)
  then obtain kf' w5 where 5: "write_keyfile sys ?kf' (Some (nm @ [0])) (O_CREAT OR mode) w3 = Done (kf', w5)" "out w5 = out w4 @ sealed P (take 8 R) (testpad @ drop 16 R)" by blast
  have le: "\<not> int ?n > 1024" using n by simp
  show ?thesis unfolding create_keyfile_def t andthen.simps if_not_P[OF le] 1(1) nat_int 2(1) prod.case 3(1)
    using 5 4(2) 3(2) 2(2) 1(2) by simp
qed

end
