(* ===== verification/Passblk_Inv.thy ===== *)
theory Passblk_Inv
  imports Passblk Keyfile_Props
begin

text \<open>
  The invariant of the passphrase prompt, and that every operation is defined and keeps it: the passphrase stays in its buffer, the
  window shown of it inside the passphrase, and the wrapped keys are as they were read.
\<close>

section \<open>Drawing\<close>

definition isfmt :: "fmt \<Rightarrow> bool" where
  "isfmt f \<longleftrightarrow> (\<exists>t. formatter f t)"

named_theorems isfmts "the formatters of the screen"

lemma isfmt_strict: "strict_formatter f t \<Longrightarrow> isfmt f"
  using strict_formatter.is_formatter by (auto simp: isfmt_def)

lemma isfmt_fseq [isfmts]: "isfmt f \<Longrightarrow> isfmt g \<Longrightarrow> isfmt (fseq f g)"
  unfolding isfmt_def using fseq_formatter by blast

lemma isfmt_fnop [isfmts]: "isfmt fnop"
  by (rule isfmt_strict) (rule fnop.strict_formatter_axioms)

lemma isfmt_fmtchar [isfmts]: "isfmt (fmtchar c)"
  by (rule isfmt_strict) (rule fmtchar.strict_formatter_axioms)

lemma isfmt_fmtbytes [isfmts]: "isfmt (fmtbytes b)"
  by (rule isfmt_strict) (rule fmtbytes_strict)

lemma isfmt_fmtstr: "cstr s = Some t \<Longrightarrow> isfmt (fmtstr (Some s))"
  by (metis cstr_SomeD fmtstr_strict isfmt_strict)

lemma isfmt_lit [isfmts]: "0 \<notin> set s \<Longrightarrow> isfmt (fmtstr (Some (s @ [0])))"
  by (rule isfmt_fmtstr[of _ s]) simp

lemma isfmt_fmtint [isfmts]: "isfmt (fmtint n)"
proof (cases "sint n < 0")
  case True
  then show ?thesis using fmtint64_neg[of "signed (- n)"] by (auto simp: isfmt_def fmti32_def[abs_def])
next
  case False
  then show ?thesis using isfmt_strict[OF fmtint64_strict[of "signed n"]] by (simp add: fmti32_def[abs_def])
qed

lemma isfmt_fmtlong [isfmts]: "isfmt (fmtlong n)"
  using fmti64.formatter_axioms by (auto simp: isfmt_def)

lemma isfmt_frep: "isfmt f \<Longrightarrow> isfmt (frep n f)"
  by (induction n) (auto intro: isfmts)

lemma isfmt_fmtstrn: "n \<le> length s \<Longrightarrow> isfmt (fmtstrn (Some s) n)"
proof -
  assume n: "n \<le> length s"
  let ?t = "takeWhile (\<lambda>c. c \<noteq> 0) (take n s)"
  have "s = ?t @ dropWhile (\<lambda>c. c \<noteq> 0) (take n s) @ drop n s" by (metis append_assoc append_take_drop_id takeWhile_dropWhile_id)
  then have "strict_formatter (fmtraw s (int (length ?t))) ?t" by (intro fmtraw_strict) blast
  then have "strict_formatter (fmtstrn (Some s) n) ?t"
    using strnlen_loop_field[OF n] by (simp add: fmtstrn_def[abs_def] strnlen_def)
  then show ?thesis by (rule isfmt_strict)
qed

lemma isfmt_if [isfmts]: "(b \<Longrightarrow> isfmt f) \<Longrightarrow> (\<not> b \<Longrightarrow> isfmt g) \<Longrightarrow> isfmt (if b then f else g)"
  by simp

lemma isfmt_fcsi [isfmts]: "0 \<notin> set (bstr t) \<Longrightarrow> isfmt (fcsi t)"
  using isfmt_lit[of "CSI @ bstr t"] by (simp add: fcsi_def CSI_def ch_def)

lemma isfmt_fint [isfmts]: "isfmt (fint n)"
  by (simp add: fint_def isfmts)

lemma isfmt_move [isfmts]: "isfmt (fmt_move r c)"
  unfolding fmt_move_def by (intro isfmts) (simp add: bstr_def)

lemma isfmt_repeat [isfmts]: "0 \<notin> set str \<Longrightarrow> isfmt (fmt_repeat str n)"
  unfolding fmt_repeat_def by (intro isfmt_frep isfmts)

lemma isfmt_parts [isfmts]: "isfmt (fmt_park_cursor s)" "isfmt (fmt_box_color s)" "isfmt (fmt_inp_color s)" "isfmt fmt_color_reset" "isfmt (fmt_scroll_area a b)"
  unfolding fmt_park_cursor_def fmt_box_color_def fmt_inp_color_def fmt_color_reset_def fmt_scroll_area_def
  by (intro isfmts; simp add: bstr_def ch_def)+

lemma isfmt_box [isfmts]: "isfmt (fmt_box_top r c w)" "isfmt (fmt_box_pad r c w)" "isfmt (fmt_box_bot r c w)"
  unfolding fmt_box_top_def fmt_box_pad_def fmt_box_bot_def fmt_box_line_def by (intro isfmts; simp)+

text \<open>The passphrase buffer and the window on it: when the start of the passphrase is scrolled out, at least ten characters are shown.\<close>

definition pass_ok :: "'w pblk \<Rightarrow> bool" where
  "pass_ok s \<longleftrightarrow> length (b_pass s) = MAXPASS \<and> 0 \<le> b_plen s \<and> b_plen s \<le> int MAXPASS \<and> 20 \<le> b_inlen s \<and> b_inlen s \<le> 40 \<and>
     0 \<le> b_psptr s \<and> (b_psptr s = 0 \<or> b_psptr s + 10 \<le> b_plen s)"

lemma isfmt_box_input [isfmts]:
  assumes p: "pass_ok s"
  shows "isfmt (fmt_box_input s)"
proof -
  define n where "n = (if b_plen s - b_psptr s > b_inlen s then b_inlen s else b_plen s - b_psptr s)"
  have r: "\<not> (b_psptr s < 0 \<or> b_psptr s > int MAXPASS)" and n: "0 \<le> n" "n \<le> int MAXPASS - b_psptr s" using p by (auto simp: pass_ok_def n_def)
  have "unat (word_of_int n :: u64) = nat n" using n p by (intro unat_word_of_int_nonneg) (auto simp: pass_ok_def MAXPASS_def)
  then have "isfmt (fmtstrn (Some (drop (nat (b_psptr s)) (b_pass s))) (unat (word_of_int n :: u64)))"
    using p n by (intro isfmt_fmtstrn) (auto simp: pass_ok_def)
  then show ?thesis unfolding fmt_box_input_def Let_def n_def[symmetric] if_not_P[OF r] by (intro isfmts) (auto simp: ch_def)
qed

lemma isfmt_dialog [isfmts]: "pass_ok s \<Longrightarrow> isfmt (fmt_draw_dialog s)"
  unfolding fmt_draw_dialog_def Let_def by (intro isfmts)

text \<open>Drawing changes the world only.\<close>

lemma outputb_w: "outputb sys t s = s \<lparr> b_w := snd (writeall (sys_write sys) 1 t (b_w s)) \<rparr>"
  by (simp add: outputb_def psys_def case_prod_beta)

lemma draw_ok:
  assumes "isfmt f"
  shows "\<exists>w. draw sys len f s = Done (s \<lparr> b_w := w \<rparr>)"
proof -
  obtain t where t: "formatter f t" using assms by (auto simp: isfmt_def)
  obtain m p where m: "f (replicate (len + 1) 0) 0 len = Some (m, p)" using formatter.clips[OF t, of 0 len "replicate (len + 1) 0"] by auto
  have "p < length m" using formatter.frame[OF t _ _ m] by simp
  then have "draw sys len f s = Done (outputb sys (take p (m[p := 0])) s)"
    unfolding draw_def m defined_simps andthen.simps prod.case by (simp add: wr_def)
  then show ?thesis unfolding outputb_w by blast
qed

lemma redraws:
  assumes "pass_ok s"
  shows "\<exists>w. redraw_input sys s = Done (s \<lparr> b_w := w \<rparr>)" and "\<exists>w. refresh_screen sys s = Done (s \<lparr> b_w := w \<rparr>)"
    and "\<exists>w. redraw_dialog sys st s = Done (s \<lparr> b_state := st, b_w := w \<rparr>)"
proof -
  have p: "pass_ok (s \<lparr> b_state := st \<rparr>)" using assms by (simp add: pass_ok_def)
  show "\<exists>w. redraw_input sys s = Done (s \<lparr> b_w := w \<rparr>)" "\<exists>w. refresh_screen sys s = Done (s \<lparr> b_w := w \<rparr>)"
    unfolding redraw_input_def refresh_screen_def by (intro draw_ok isfmts assms)+
  show "\<exists>w. redraw_dialog sys st s = Done (s \<lparr> b_state := st, b_w := w \<rparr>)"
    unfolding redraw_dialog_def Let_def by (intro draw_ok isfmts p)
qed

lemma screens:
  "\<exists>w. clear_screen_init sys s = Done (s \<lparr> b_w := w \<rparr>)" "\<exists>w. clear_screen_fini sys s = Done (s \<lparr> b_w := w \<rparr>)"
  "\<exists>w. show_add_char sys c s = Done (s \<lparr> b_w := w \<rparr>)" "\<exists>w. show_del_char sys s = Done (s \<lparr> b_w := w \<rparr>)"
  unfolding clear_screen_init_def clear_screen_fini_def show_add_char_def show_del_char_def Let_def
  by (intro draw_ok isfmts; simp add: bstr_def ch_def)+

section \<open>The invariant\<close>

text \<open>The keys as they were read from the file \<open>F\<close>, in the working buffer and in the copy.\<close>

definition key_sizes :: "'w pblk \<Rightarrow> bool" where
  "key_sizes s \<longleftrightarrow> length (b_keydata s) = FILEBUF \<and> length (b_keycopy s) = FILEBUF \<and> HDRSIZE \<le> b_keysize s \<and> b_keysize s \<le> MAXFILE \<and>
     b_nkeys s = (int (b_keysize s) - int HDRSIZE) div int KEYSIZE \<and> sc_ready (b_sc s)"

definition keys_intact :: "byte list \<Rightarrow> 'w pblk \<Rightarrow> bool" where
  "keys_intact F s \<longleftrightarrow> length F = b_keysize s \<and> take (b_keysize s) (b_keydata s) = F \<and> take (b_keysize s) (b_keycopy s) = F"

definition part_ok :: "int \<Rightarrow> part \<Rightarrow> bool" where
  "part_ok nkeys pt \<longleftrightarrow> (\<exists>l. cstr (pt_label pt) = Some l) \<and> 0 \<le> pt_keyidx pt \<and> pt_keyidx pt < nkeys"

definition parts_ok :: "'w pblk \<Rightarrow> bool" where
  "parts_ok s \<longleftrightarrow> length (b_parts s) = NUMKEYS \<and> b_nparts s \<le> NUMKEYS \<and> (\<forall>i < b_nparts s. part_ok (b_nkeys s) (b_parts s ! i))"

definition pb_inv :: "byte list \<Rightarrow> 'w pblk \<Rightarrow> bool" where
  "pb_inv F s \<longleftrightarrow> pass_ok s \<and> key_sizes s \<and> keys_intact F s \<and> parts_ok s \<and> (b_state s = ST_INPUT \<or> b_state s = ST_INVALID)"

lemmas pb_defs = pb_inv_def pass_ok_def key_sizes_def keys_intact_def parts_ok_def

lemma key_sizes_upd [simp]:
  "key_sizes (s \<lparr> b_pass := x0 \<rparr>) = key_sizes s"
  "key_sizes (s \<lparr> b_plen := x1 \<rparr>) = key_sizes s"
  "key_sizes (s \<lparr> b_psptr := x2 \<rparr>) = key_sizes s"
  "key_sizes (s \<lparr> b_state := x3 \<rparr>) = key_sizes s"
  "key_sizes (s \<lparr> b_w := x4 \<rparr>) = key_sizes s"
  "key_sizes (s \<lparr> b_showpass := x5 \<rparr>) = key_sizes s"
  "key_sizes (s \<lparr> b_keyst := x6 \<rparr>) = key_sizes s"
  "key_sizes (s \<lparr> b_needwait := x7 \<rparr>) = key_sizes s"
  "key_sizes (s \<lparr> b_ts := x8 \<rparr>) = key_sizes s"
  "key_sizes (s \<lparr> b_rows := x9 \<rparr>) = key_sizes s"
  "key_sizes (s \<lparr> b_cols := x10 \<rparr>) = key_sizes s"
  "key_sizes (s \<lparr> b_inlen := x11 \<rparr>) = key_sizes s"
  "key_sizes (s \<lparr> b_incol := x12 \<rparr>) = key_sizes s"
  "key_sizes (s \<lparr> b_inrow := x13 \<rparr>) = key_sizes s"
  "key_sizes (s \<lparr> b_sigfd := x14 \<rparr>) = key_sizes s"
  "key_sizes (s \<lparr> b_mapfd := x15 \<rparr>) = key_sizes s"
  "key_sizes (s \<lparr> b_tio := x16 \<rparr>) = key_sizes s"
  "key_sizes (s \<lparr> b_termactive := x17 \<rparr>) = key_sizes s"
  by (simp_all add: key_sizes_def)

lemma keys_intact_upd [simp]:
  "keys_intact F (s \<lparr> b_pass := x0 \<rparr>) = keys_intact F s"
  "keys_intact F (s \<lparr> b_plen := x1 \<rparr>) = keys_intact F s"
  "keys_intact F (s \<lparr> b_psptr := x2 \<rparr>) = keys_intact F s"
  "keys_intact F (s \<lparr> b_state := x3 \<rparr>) = keys_intact F s"
  "keys_intact F (s \<lparr> b_w := x4 \<rparr>) = keys_intact F s"
  "keys_intact F (s \<lparr> b_showpass := x5 \<rparr>) = keys_intact F s"
  "keys_intact F (s \<lparr> b_keyst := x6 \<rparr>) = keys_intact F s"
  "keys_intact F (s \<lparr> b_needwait := x7 \<rparr>) = keys_intact F s"
  "keys_intact F (s \<lparr> b_ts := x8 \<rparr>) = keys_intact F s"
  "keys_intact F (s \<lparr> b_rows := x9 \<rparr>) = keys_intact F s"
  "keys_intact F (s \<lparr> b_cols := x10 \<rparr>) = keys_intact F s"
  "keys_intact F (s \<lparr> b_inlen := x11 \<rparr>) = keys_intact F s"
  "keys_intact F (s \<lparr> b_incol := x12 \<rparr>) = keys_intact F s"
  "keys_intact F (s \<lparr> b_inrow := x13 \<rparr>) = keys_intact F s"
  "keys_intact F (s \<lparr> b_sigfd := x14 \<rparr>) = keys_intact F s"
  "keys_intact F (s \<lparr> b_mapfd := x15 \<rparr>) = keys_intact F s"
  "keys_intact F (s \<lparr> b_tio := x16 \<rparr>) = keys_intact F s"
  "keys_intact F (s \<lparr> b_termactive := x17 \<rparr>) = keys_intact F s"
  by (simp_all add: keys_intact_def)

lemma parts_ok_upd [simp]:
  "parts_ok (s \<lparr> b_pass := x0 \<rparr>) = parts_ok s"
  "parts_ok (s \<lparr> b_plen := x1 \<rparr>) = parts_ok s"
  "parts_ok (s \<lparr> b_psptr := x2 \<rparr>) = parts_ok s"
  "parts_ok (s \<lparr> b_state := x3 \<rparr>) = parts_ok s"
  "parts_ok (s \<lparr> b_w := x4 \<rparr>) = parts_ok s"
  "parts_ok (s \<lparr> b_showpass := x5 \<rparr>) = parts_ok s"
  "parts_ok (s \<lparr> b_keyst := x6 \<rparr>) = parts_ok s"
  "parts_ok (s \<lparr> b_needwait := x7 \<rparr>) = parts_ok s"
  "parts_ok (s \<lparr> b_ts := x8 \<rparr>) = parts_ok s"
  "parts_ok (s \<lparr> b_rows := x9 \<rparr>) = parts_ok s"
  "parts_ok (s \<lparr> b_cols := x10 \<rparr>) = parts_ok s"
  "parts_ok (s \<lparr> b_inlen := x11 \<rparr>) = parts_ok s"
  "parts_ok (s \<lparr> b_incol := x12 \<rparr>) = parts_ok s"
  "parts_ok (s \<lparr> b_inrow := x13 \<rparr>) = parts_ok s"
  "parts_ok (s \<lparr> b_sigfd := x14 \<rparr>) = parts_ok s"
  "parts_ok (s \<lparr> b_mapfd := x15 \<rparr>) = parts_ok s"
  "parts_ok (s \<lparr> b_tio := x16 \<rparr>) = parts_ok s"
  "parts_ok (s \<lparr> b_termactive := x17 \<rparr>) = parts_ok s"
  "parts_ok (s \<lparr> b_sc := x18 \<rparr>) = parts_ok s"
  "parts_ok (s \<lparr> b_keydata := x19 \<rparr>) = parts_ok s"
  "parts_ok (s \<lparr> b_keycopy := x20 \<rparr>) = parts_ok s"
  by (simp_all add: parts_ok_def)

lemma pass_ok_upd [simp]:
  "pass_ok (s \<lparr> b_state := x0 \<rparr>) = pass_ok s"
  "pass_ok (s \<lparr> b_w := x1 \<rparr>) = pass_ok s"
  "pass_ok (s \<lparr> b_showpass := x2 \<rparr>) = pass_ok s"
  "pass_ok (s \<lparr> b_keyst := x3 \<rparr>) = pass_ok s"
  "pass_ok (s \<lparr> b_needwait := x4 \<rparr>) = pass_ok s"
  "pass_ok (s \<lparr> b_ts := x5 \<rparr>) = pass_ok s"
  "pass_ok (s \<lparr> b_rows := x6 \<rparr>) = pass_ok s"
  "pass_ok (s \<lparr> b_cols := x7 \<rparr>) = pass_ok s"
  "pass_ok (s \<lparr> b_incol := x8 \<rparr>) = pass_ok s"
  "pass_ok (s \<lparr> b_inrow := x9 \<rparr>) = pass_ok s"
  "pass_ok (s \<lparr> b_sigfd := x10 \<rparr>) = pass_ok s"
  "pass_ok (s \<lparr> b_mapfd := x11 \<rparr>) = pass_ok s"
  "pass_ok (s \<lparr> b_tio := x12 \<rparr>) = pass_ok s"
  "pass_ok (s \<lparr> b_termactive := x13 \<rparr>) = pass_ok s"
  "pass_ok (s \<lparr> b_sc := x14 \<rparr>) = pass_ok s"
  "pass_ok (s \<lparr> b_keydata := x15 \<rparr>) = pass_ok s"
  by (simp_all add: pass_ok_def)

lemma pb_inv_w [simp]: "pb_inv F (s \<lparr> b_w := w \<rparr>) = pb_inv F s"
  by (simp add: pb_inv_def)

lemma pb_inv_pass: "pb_inv F s \<Longrightarrow> pass_ok s"
  by (simp add: pb_inv_def)

section \<open>Editing\<close>

lemma safe_ex: "\<exists>a. m = Done a \<and> Q a \<Longrightarrow> safe m Q"
  by auto

lemma redraw_safe:
  assumes "pb_inv F s"
  shows "safe (redraw_input sys s) (pb_inv F)" "safe (refresh_screen sys s) (pb_inv F)" "safe (show_add_char sys c s) (pb_inv F)" "safe (show_del_char sys s) (pb_inv F)"
  using redraws(1,2)[OF pb_inv_pass[OF assms], of sys] screens(3)[of sys c s] screens(4)[of sys s] assms
  by (metis pb_inv_w safe.simps(1))+

lemma pb_inv_edit:
  "pb_inv F s \<Longrightarrow> length p = MAXPASS \<Longrightarrow> 0 \<le> n \<Longrightarrow> n \<le> int MAXPASS \<Longrightarrow> 0 \<le> q \<Longrightarrow> q = 0 \<or> q + 10 \<le> n \<Longrightarrow>
   pb_inv F (s \<lparr> b_pass := p, b_plen := n, b_psptr := q \<rparr>)"
  by (simp add: pb_inv_def pass_ok_def)

lemma adjust_cases:
  assumes "20 \<le> b_inlen s" and "0 \<le> b_psptr s" and "b_psptr s = 0 \<or> b_psptr s + 9 \<le> b_plen s" and "0 \<le> b_plen s"
  obtains b q where "adjust_input_ptr s = (b, s \<lparr> b_psptr := q \<rparr>)" and "0 \<le> q" and "q = 0 \<or> q + 10 \<le> b_plen s"
proof -
  let ?r = "b_plen s - b_psptr s"
  have h: "10 \<le> b_inlen s div 2" using assms(1) by linarith
  consider (1) "?r \<ge> b_inlen s" | (2) "\<not> ?r \<ge> b_inlen s" "b_psptr s > 0" "b_plen s < b_inlen s"
    | (3) "\<not> ?r \<ge> b_inlen s" "\<not> (b_psptr s > 0 \<and> b_plen s < b_inlen s)" "b_psptr s > 0" "?r < b_inlen s div 2"
    | (4) "\<not> ?r \<ge> b_inlen s" "\<not> (b_psptr s > 0 \<and> b_plen s < b_inlen s)" "\<not> (b_psptr s > 0 \<and> ?r < b_inlen s div 2)" by linarith
  then show ?thesis
  proof cases
    case 1
    show ?thesis by (rule that[of True "b_psptr s + 10"]) (use 1 assms in \<open>simp_all add: adjust_input_ptr_def Let_def\<close>)
  next
    case 2
    show ?thesis by (rule that[of True 0]) (use 2 in \<open>simp_all add: adjust_input_ptr_def Let_def\<close>)
  next
    case 3
    show ?thesis by (rule that[of True "if b_psptr s < 10 then 0 else b_psptr s - 10"]) (use 3 assms in \<open>auto simp: adjust_input_ptr_def Let_def\<close>)
  next
    case 4
    show ?thesis by (rule that[of False "b_psptr s"]) (use 4 assms h in \<open>auto simp: adjust_input_ptr_def Let_def\<close>)
  qed
qed

lemma add_char_safe: "pb_inv F s \<Longrightarrow> safe (add_char sys c s) (pb_inv F)"
proof (cases "b_plen s \<ge> int MAXPASS")
  case False
  assume a: "pb_inv F s"
  let ?i = "b_plen s" and ?p = "(b_pass s)[nat (b_plen s) := c]"
  have i: "0 \<le> ?i" and l: "length (b_pass s) = MAXPASS" and o: "20 \<le> b_inlen s" "0 \<le> b_psptr s" "b_psptr s = 0 \<or> b_psptr s + 10 \<le> ?i" using a by (auto simp: pb_defs)
  have w: "wr (b_pass s) (nat ?i) c = Some ?p" using False i l by (simp add: wr_def)
  let ?s = "s \<lparr> b_pass := ?p, b_plen := ?i + 1 \<rparr>"
  obtain b q where q: "adjust_input_ptr ?s = (b, ?s \<lparr> b_psptr := q \<rparr>)" "0 \<le> q" "q = 0 \<or> q + 10 \<le> b_plen ?s"
    by (rule adjust_cases[of ?s]) (use i o in auto)
  have "pb_inv F (?s \<lparr> b_psptr := q \<rparr>)" by (rule pb_inv_edit[OF a]) (use q(2,3) i l False in auto)
  from redraw_safe(1,3)[OF this, of sys] show ?thesis unfolding add_char_def Let_def w defined_simps andthen.simps q(1) prod.case using False i by simp
qed (simp add: add_char_def)

lemma del_char_safe: "pb_inv F s \<Longrightarrow> safe (del_char sys s) (pb_inv F)"
proof (cases "b_plen s \<le> 0")
  case False
  assume a: "pb_inv F s"
  let ?s = "s \<lparr> b_plen := b_plen s - 1 \<rparr>"
  have o: "20 \<le> b_inlen s" "0 \<le> b_psptr s" "b_psptr s = 0 \<or> b_psptr s + 10 \<le> b_plen s" "b_plen s \<le> int MAXPASS" "length (b_pass s) = MAXPASS" using a by (auto simp: pb_defs)
  obtain b q where q: "adjust_input_ptr ?s = (b, ?s \<lparr> b_psptr := q \<rparr>)" "0 \<le> q" "q = 0 \<or> q + 10 \<le> b_plen ?s"
    by (rule adjust_cases[of ?s]) (use o False in auto)
  have "pb_inv F (s \<lparr> b_pass := b_pass s, b_plen := b_plen s - 1, b_psptr := q \<rparr>)" by (rule pb_inv_edit[OF a]) (use q(2,3) o False in auto)
  then have "pb_inv F (?s \<lparr> b_psptr := q \<rparr>)" by simp
  from redraw_safe(1,4)[OF this, of sys] show ?thesis unfolding del_char_def Let_def q(1) prod.case using False by simp
qed (simp add: del_char_def)

lemma input_resets:
  assumes "pb_inv F s"
  shows "safe (toggle_showpass sys s) (pb_inv F)" "safe (clear_input sys s) (pb_inv F)"
    "\<exists>w. reset_input sys s = Done (s \<lparr> b_plen := 0, b_psptr := 0, b_state := ST_INPUT, b_w := w \<rparr>)"
    "pb_inv F (s \<lparr> b_plen := 0, b_psptr := 0, b_state := ST_INPUT, b_w := w \<rparr>)"
proof -
  have i: "pb_inv F (s \<lparr> b_showpass := \<not> b_showpass s \<rparr>)" "pb_inv F (s \<lparr> b_plen := 0, b_psptr := 0 \<rparr>)" using assms by (simp_all add: pb_inv_def pass_ok_def[of "b_psptr_update _ _"]) (simp add: pass_ok_def)
  show "safe (toggle_showpass sys s) (pb_inv F)" "safe (clear_input sys s) (pb_inv F)"
    using redraw_safe(1) i by (auto simp: toggle_showpass_def clear_input_def)
  show "\<exists>w. reset_input sys s = Done (s \<lparr> b_plen := 0, b_psptr := 0, b_state := ST_INPUT, b_w := w \<rparr>)"
    unfolding reset_input_def using redraws(3)[OF pb_inv_pass[OF i(2)], of sys ST_INPUT] by simp
  show "pb_inv F (s \<lparr> b_plen := 0, b_psptr := 0, b_state := ST_INPUT, b_w := w \<rparr>)" using assms by (auto simp: pb_defs)
qed

section \<open>Unwrapping\<close>

lemma memzero_ok: "p + n \<le> length m \<Longrightarrow> \<exists>m'. memzero m p n = Some m' \<and> length m' = length m"
  using memset_wrs[of p n m 0] wrs_fits[of p "replicate n 0" m] by (auto simp: memzero_memset)

text \<open>One attempt: the keys are unwrapped or as they were before.\<close>

lemma unwrap_keydata_cases:
  assumes pass: "pass_ok s" and ks: "key_sizes s" and ki: "keys_intact F s"
  obtains ret sc data where "unwrap_keydata s = Done (ret, s \<lparr> b_sc := sc, b_keydata := data \<rparr>)" and "sc_ready sc" and "length data = FILEBUF"
    and "ret = 0 \<or> take (b_keysize s) data = F" and "take SALTLEN data = take SALTLEN (b_keydata s)"
    and "\<exists>d. aes128_unwrap (kek_of (take (nat (b_plen s)) (b_pass s)) (take SALTLEN F)) (drop SALTLEN (b_keydata s)) (b_keysize s - SALTLEN) = Some d \<and>
      (ret = 0 \<longleftrightarrow> take 8 d = testpad) \<and> (ret = 0 \<longrightarrow> data = take SALTLEN (b_keydata s) @ d)"
proof -
  note d = pass[unfolded pass_ok_def] ks[unfolded key_sizes_def] ki[unfolded keys_intact_def]
  let ?P = "take (nat (b_plen s)) (b_pass s)" and ?k = "b_keydata s" and ?S = "take SALTLEN F"
  have P: "length ?P < 2 ^ 31" "?P @ drop (nat (b_plen s)) (b_pass s) = b_pass s" "of_nat (length ?P) = (word_of_int (b_plen s) :: u32)"
    using d by (auto simp: MAXPASS_def)
  have S: "length ?S = 8" "?S @ drop 8 ?k = ?k" "take 8 ?k = ?S"
    using d append_take_drop_id[of 8 ?k] by (auto simp: SALTLEN_def HDRSIZE_def MAXFILE_def FILEBUF_def)
  obtain m where m: "scrypt_hash (snd (scrypt_data (b_sc s) (b_pass s) (word_of_int (b_plen s)) ?k 8)) (replicate 16 0) 16 =
      Some (kek_of ?P ?S, b_sc s \<lparr> sc_pass := b_pass s, sc_passlen := word_of_int (b_plen s), sc_salt := ?k, sc_saltlen := 8, sc_temp := m \<rparr>)"
      "length m = length (sc_temp (b_sc s))"
    using scrypt_run[of "b_sc s" ?P ?S "replicate 16 0" "drop (nat (b_plen s)) (b_pass s)" "drop 8 ?k"] d P S by auto
  let ?sc = "b_sc s \<lparr> sc_pass := b_pass s, sc_passlen := word_of_int (b_plen s), sc_salt := ?k, sc_saltlen := 8, sc_temp := m \<rparr>"
  have sc: "sc_ready ?sc" using d m(2) by (simp add: sc_ready_def)
  have sz: "SALTLEN \<le> b_keysize s" "8 \<le> b_keysize s - SALTLEN" "b_keysize s - SALTLEN \<le> length (drop SALTLEN ?k)" "8 \<le> length (drop SALTLEN ?k)" "SALTLEN \<le> length ?k"
    "b_keysize s \<le> length ?k"
    using d by (auto simp: SALTLEN_def HDRSIZE_def MAXFILE_def FILEBUF_def)
  obtain t where t: "aes128_unwrap (kek_of ?P ?S) (drop SALTLEN ?k) (b_keysize s - SALTLEN) = Some t" "length t = length (drop SALTLEN ?k)"
    using aes128_unwrap_total[OF sz(2,3)] by blast
  have wl: "int (b_keysize s) - int SALTLEN = int (b_keysize s - SALTLEN)" "\<not> int (b_keysize s - SALTLEN) < 0" using sz(1) by auto
  let ?d = "take SALTLEN ?k @ t"
  have a: "at_off SALTLEN (\<lambda>b. aes128_unwrap (kek_of ?P ?S) b (b_keysize s - SALTLEN)) ?k = Some ?d" using t sz(5) by (simp add: at_off_def)
  have dr: "drop SALTLEN ?d = t" "length ?d = FILEBUF" using sz(5) t(2) d by auto
  obtain ret where ret: "memcmp t testpad 8 = Some ret" "ret = 0 \<longleftrightarrow> take 8 t = testpad"
    using memcmp_zero_iff[of 8 t testpad] t(2) sz(4) by (auto simp: testpad_def)
  have sl: "(of_nat SALTLEN :: u32) = 8" by (simp add: SALTLEN_def)
  have run: "unwrap_keydata s = andthen (if ret \<noteq> 0 then defined (Option.bind (rds (b_keycopy s) 0 (b_keysize s)) (wrs ?d 0)) else Done ?d)
      (\<lambda>data. Done (ret, s \<lparr> b_sc := ?sc, b_keydata := data \<rparr>))"
    unfolding unwrap_keydata_def Let_def sl m(1) defined_simps andthen.simps prod.case wl(1) if_not_P[OF wl(2)] nat_int a dr(1) ret(1) by simp
  show ?thesis
  proof (cases "ret = 0")
    case True
    show ?thesis by (rule that[of 0 ?d ?sc]) (use True run sc dr ret t(1) sz(5) in auto)
  next
    case False
    have r: "rds (b_keycopy s) 0 (b_keysize s) = Some F" using d by (auto simp: rds_def MAXFILE_def FILEBUF_def)
    have w: "wrs ?d 0 F = Some (F @ drop (length F) ?d)" using d dr(2) sz(6) by (simp add: wrs_def)
    have F: "take SALTLEN (F @ drop (length F) ?d) = take SALTLEN ?k" using S(3) d sz(1) by (simp add: SALTLEN_def)
    show ?thesis by (rule that[of ret "F @ drop (length F) ?d" ?sc]) (use False run r w sc F ret t(1) d dr(2) sz(6) in auto)
  qed
qed

section \<open>The device mapper\<close>

text \<open>
  What the program relies on of the kernel: mapped memory and read data have the size they are said to have, and a device mapper
  request comes back in its buffer.
\<close>

definition pb_env :: "'w dsys \<Rightarrow> bool" where
  "pb_env sys \<longleftrightarrow> mmap_ok sys \<and>
     (\<forall>fd n w r d w'. sys_read sys fd n w = ((r, d), w') \<longrightarrow> 0 \<le> r \<longrightarrow> int (length d) = r \<and> length d \<le> n) \<and>
     (\<forall>fd q m w r m' w'. dm_ioctl sys fd q m w = ((r, m'), w') \<longrightarrow> length m' = length m)"

lemma read_len: "pb_env sys \<Longrightarrow> sys_read sys fd n w = ((r, d), w') \<Longrightarrow> 0 \<le> r \<Longrightarrow> int (length d) = r \<and> length d \<le> n"
  unfolding pb_env_def by blast

lemma psys_eq: "psys f s = (fst (f (b_w s)), s \<lparr> b_w := snd (f (b_w s)) \<rparr>)"
  by (simp add: psys_def case_prod_beta)

lemma length_dm_request [simp]: "length (dm_request a b c d) = 312"
  by (simp add: dm_request_def)

lemma putstr_ok:
  assumes "len \<le> length src" and "p + len + 1 \<le> length m"
  shows "\<exists>m'. putstr m p src len = Some m' \<and> length m' = length m"
proof -
  have r: "rds src 0 len = Some (take len src)" using assms(1) by (simp add: rds_def)
  obtain m1 where "wrs m p (take len src) = Some m1" "length m1 = length m" using wrs_fits[of p "take len src" m] assms by auto
  then show ?thesis using r assms(2) by (simp add: putstr_def wr_def)
qed

lemma cstr_strlen: "cstr l = Some t \<Longrightarrow> strlen l = Some (length t) \<and> length t \<le> length l"
  by (auto simp: strlen_cstr dest: cstr_SomeD)

lemma part_label:
  assumes "parts_ok s" and "i < b_nparts s"
  obtains t where "strlen (pt_label (b_parts s ! i)) = Some (length t)" and "length t \<le> length (pt_label (b_parts s ! i))" and "cstr (pt_label (b_parts s ! i)) = Some t"
  using assms cstr_strlen by (fastforce simp: parts_ok_def part_ok_def)

text \<open>What the steps for one partition leave alone.\<close>

definition same_keys :: "'w pblk \<Rightarrow> 'w pblk \<Rightarrow> bool" where
  "same_keys s s' \<longleftrightarrow> parts_ok s' \<and> b_keydata s' = b_keydata s \<and> b_nparts s' = b_nparts s \<and> b_nkeys s' = b_nkeys s"

lemma same_keys_w: "parts_ok s \<Longrightarrow> same_keys s (s \<lparr> b_w := w \<rparr>)"
  by (simp add: same_keys_def)

lemma parts_ok_update:
  assumes "parts_ok s" and "i < b_nparts s" and "pt_label p = pt_label (b_parts s ! i)" and "pt_keyidx p = pt_keyidx (b_parts s ! i)"
  shows "parts_ok (s \<lparr> b_parts := (b_parts s)[i := p] \<rparr>)"
  using assms by (auto simp: parts_ok_def part_ok_def nth_list_update)

lemma dm_create_safe:
  assumes env: "pb_env sys" and ok: "parts_ok s" "i < b_nparts s"
  shows "safe (dm_create sys i s) (same_keys s)"
proof -
  obtain t where t: "strlen (pt_label (b_parts s ! i)) = Some (length t)" "length t \<le> length (pt_label (b_parts s ! i))"
    "cstr (pt_label (b_parts s ! i)) = Some t" by (rule part_label[OF ok])
  show ?thesis
  proof (cases "length t > 127")
    case False
    obtain q where q: "putstr (dm_request 312 0 0 0) 48 (pt_label (b_parts s ! i)) (length t) = Some q" "length q = 312"
      using putstr_ok[OF t(2), of 48 "dm_request 312 0 0 0"] False by auto
    obtain r m w where m: "dm_ioctl sys (b_mapfd s) DM_DEV_CREATE q (b_w s) = ((r, m), w)" by (metis prod.collapse)
    have "length m = 312" using env m q(2) unfolding pb_env_def by metis
    then have "\<exists>dev. rd64 m 40 = Some dev" by (simp add: rd64_def rds_def)
    then obtain dev where dev: "rd64 m 40 = Some dev" by blast
    have "same_keys s (s \<lparr> b_w := w, b_parts := (b_parts s)[i := (b_parts s ! i) \<lparr> pt_dmidx := d \<rparr>] \<rparr>)" for d
      using parts_ok_update[of "s \<lparr> b_w := w \<rparr>" i "(b_parts s ! i) \<lparr> pt_dmidx := d \<rparr>"] ok by (simp add: same_keys_def)
    then show ?thesis unfolding dm_create_def Let_def t(1) defined_simps andthen.simps if_not_P[OF False] q(1) psys_eq m prod.case fst_conv snd_conv
      by (simp add: dev)
  qed (simp add: dm_create_def t(1))
qed

lemma dm_resume_safe:
  assumes ok: "parts_ok s" "i < b_nparts s"
  shows "safe (dm_resume sys i s) (same_keys s)"
proof -
  obtain t where t: "strlen (pt_label (b_parts s ! i)) = Some (length t)" "length t \<le> length (pt_label (b_parts s ! i))"
    "cstr (pt_label (b_parts s ! i)) = Some t" by (rule part_label[OF ok])
  show ?thesis
  proof (cases "length t > 127")
    case False
    obtain q where q: "putstr (dm_request 312 0 0 DM_EXISTS_FLAG) 48 (pt_label (b_parts s ! i)) (length t) = Some q"
      using putstr_ok[OF t(2), of 48 "dm_request 312 0 0 DM_EXISTS_FLAG"] False by auto
    show ?thesis unfolding dm_resume_def Let_def t(1) defined_simps andthen.simps if_not_P[OF False] q psys_eq
      by (simp add: case_prod_beta same_keys_w[OF ok(1)])
  qed (simp add: dm_resume_def t(1))
qed

text \<open>A string put into the zeroes of a request.\<close>

lemma putstr_zeroes:
  assumes "cstr src = Some l" and "length a = p" and "length l < n"
  shows "putstr (a @ replicate n 0 @ c) p src (length l) = Some (a @ (l @ replicate (n - length l) 0) @ c)"
proof -
  obtain r where r: "src = l @ 0 # r" by (rule cstrE[OF assms(1)])
  obtain k where k: "n = length l + Suc k" using assms(3) less_imp_Suc_add by (metis add_Suc_right)
  have "drop (p + length l) (a @ replicate (length l + Suc k) 0 @ c) = 0 # replicate k 0 @ c" unfolding replicate_add using assms(2) by simp
  then show ?thesis unfolding r k using assms(2) by (simp add: putstr_def rds_def wrs_def wr_def list_update_append del: drop_append)
qed

text \<open>The request that loads a table of one target for the device \<open>name\<close>: the kernel's \<open>struct dm_ioctl\<close>, \<open>struct dm_target_spec\<close> and parameters.\<close>

definition load_request :: "byte list \<Rightarrow> byte list \<Rightarrow> u64 \<Rightarrow> byte list \<Rightarrow> byte list" where
  "load_request name target sectors params =
     take 48 (dm_request (of_nat (353 + length params)) 312 1 0) @ (name @ replicate (264 - length name) 0) @
     le_bytes 8 (0 :: u64) @ le_bytes 8 sectors @ replicate 8 0 @ (target @ replicate (16 - length target) 0) @ params @ [0]"

lemma dm_request_split: "dm_request a b c d = take 48 (dm_request a b c d) @ replicate 264 0"
  by (simp add: dm_request_def)

lemma put_load_request:
  assumes "cstr nm = Some l" and "cstr targ = Some a" and "cstr opts = Some o'" and "length l \<le> 127" and "length a \<le> 15"
  shows "do { r \<leftarrow> putstr (dm_request (of_nat (312 + 40 + length o' + 1)) 312 1 0 @ (le_bytes 8 (0 :: u64) @ le_bytes 8 sectors @ replicate 24 0) @ replicate (length o' + 1) 0) 48 nm (length l);
     r \<leftarrow> putstr r (312 + 24) targ (length a); putstr r (312 + 40) opts (length o') } = Some (load_request l a sectors o')"
proof -
  let ?h = "take 48 (dm_request (of_nat (353 + length o')) 312 1 0)"
  let ?nm = "l @ replicate (264 - length l) 0"
  let ?d = "le_bytes 8 (0 :: u64) @ le_bytes 8 sectors @ replicate 8 0"
  let ?tp = "a @ replicate (16 - length a) 0"
  have h: "length ?h = 48" by (simp add: dm_request_def)
  have d: "length (?h @ ?nm @ ?d) = 336" using h assms(4) by simp
  have e: "length (?h @ ?nm @ ?d @ ?tp) = 352" using d assms(5) by simp
  have 1: "putstr (?h @ replicate 264 0 @ ?d @ replicate 16 0 @ replicate (length o' + 1) 0) 48 nm (length l) =
      Some (?h @ ?nm @ ?d @ replicate 16 0 @ replicate (length o' + 1) 0)"
    by (rule putstr_zeroes[OF assms(1) h]) (use assms(4) in simp)
  have 2: "putstr (?h @ ?nm @ ?d @ replicate 16 0 @ replicate (length o' + 1) 0) 336 targ (length a) = Some (?h @ ?nm @ ?d @ ?tp @ replicate (length o' + 1) 0)"
    using putstr_zeroes[OF assms(2) d, of 16 "replicate (length o' + 1) 0"] assms(5) by simp
  have 3: "putstr (?h @ ?nm @ ?d @ ?tp @ replicate (length o' + 1) 0) 352 opts (length o') = Some (load_request l a sectors o')"
    using putstr_zeroes[OF assms(3) e, of "length o' + 1" "[]"] by (simp add: load_request_def)
  have z: "replicate 24 (0 :: byte) = replicate 8 0 @ replicate 16 0" by (simp flip: replicate_add)
  have q: "dm_request (of_nat (312 + 40 + length o' + 1)) 312 1 0 @ (le_bytes 8 (0 :: u64) @ le_bytes 8 sectors @ replicate 24 0) @ replicate (length o' + 1) 0 =
      ?h @ replicate 264 0 @ ?d @ replicate 16 0 @ replicate (length o' + 1) 0"
    by (subst dm_request_split) (simp add: z del: of_nat_add of_nat_Suc replicate.simps replicate_Suc)
  show ?thesis unfolding q using 1 2 3 by simp
qed

text \<open>The requests that carry nothing but a name.\<close>

definition name_request :: "u32 \<Rightarrow> byte list \<Rightarrow> byte list" where
  "name_request flags name = take 48 (dm_request 312 0 0 flags) @ name @ replicate (264 - length name) 0"

lemma put_name_request: "cstr nm = Some l \<Longrightarrow> length l \<le> 127 \<Longrightarrow> putstr (dm_request 312 0 0 flags) 48 nm (length l) = Some (name_request flags l)"
  using putstr_zeroes[of nm l "take 48 (dm_request 312 0 0 flags)" 48 264 "[]"] by (subst dm_request_split) (simp add: name_request_def dm_request_def)

lemma dm_single_eq:
  assumes "cstr (pt_label pt) = Some l" and "cstr targ = Some a" and "cstr opts = Some o'" and "length l \<le> 127" and "length a \<le> 15"
  shows "dm_single sys pt targ opts s =
    (let ((r, _), s) = psys (dm_ioctl sys (b_mapfd s) DM_TABLE_LOAD (load_request l a (pt_size pt div 512) o')) s in
     if r < 0 then Fail ''ioctl DM_TABLE_LOAD'' s else Done s)"
proof -
  note n = cstr_strlen[OF assms(1)] cstr_strlen[OF assms(2)] cstr_strlen[OF assms(3)]
  show ?thesis unfolding dm_single_def n[THEN conjunct1] defined_simps andthen.simps Let_def put_load_request[OF assms] using assms(4,5) by simp
qed

lemma dm_single_safe:
  assumes "parts_ok s" and "cstr (pt_label pt) = Some l" and "cstr targ = Some a" and "cstr opts = Some o'"
  shows "safe (dm_single sys pt targ opts s) (same_keys s)"
proof (cases "length l \<le> 127 \<and> length a \<le> 15")
  case True
  then show ?thesis by (subst dm_single_eq[OF assms(2-4)]) (simp_all add: psys_eq case_prod_beta same_keys_w[OF assms(1)])
qed (use cstr_strlen[OF assms(2)] cstr_strlen[OF assms(3)] cstr_strlen[OF assms(4)] in \<open>auto simp: dm_single_def Let_def\<close>)

text \<open>The line of the mapping table for one partition.\<close>

definition table_line :: "byte list \<Rightarrow> u64 \<Rightarrow> byte list" where
  "table_line key rdev = bstr ''aes-xts-plain64 '' @ concat (map hex2 key) @ bstr '' 0 '' @ dec (unat (major rdev)) @ bstr '':'' @ dec (unat (minor rdev)) @
     bstr '' 0 1 allow_discards''"

lemma numlen_le: "n < 10 ^ k \<Longrightarrow> 0 < k \<Longrightarrow> numlen 10 n \<le> k"
proof (induction k arbitrary: n)
  case (Suc k)
  show ?case
  proof (cases "n < 10")
    case False
    then have "0 < k" using Suc.prems(1) by (cases k) auto
    moreover have "n div 10 < 10 ^ k" using Suc.prems(1) by (simp add: less_mult_imp_div_less mult.commute)
    ultimately have "numlen 10 (n div 10) \<le> k" using Suc.IH by blast
    then show ?thesis using False by (subst numlen.simps) simp
  qed (subst numlen.simps, simp)
qed simp

lemma dev_number:
  fixes x :: u64
  assumes "take_bit 32 x = x"
  shows "sdec (sint x) = dec (unat x)" and "length (dec (unat x)) \<le> 10"
proof -
  have u: "unat x < 2 ^ 32" using assms by (metis take_bit_nat_less_exp unsigned_take_bit_eq)
  have "int (unat x) < int (2 ^ 32)" using u by (simp only: of_nat_less_iff)
  then have "uint x < 2 ^ 63" and "- (2 ^ 63) \<le> uint x" using order_trans[of "- (2 ^ 63)" 0 "uint x"] by simp_all
  then have "sint x = int (unat x)" using signed_take_bit_int_eq_self[of 63 "uint x"] by (simp add: sint_uint)
  then show "sdec (sint x) = dec (unat x)" unfolding sdec_def by (simp only: of_nat_less_0_iff if_False nat_int)
  show "length (dec (unat x)) \<le> 10" using u numlen_le[of "unat x" 10] by (simp add: dec_def)
qed

lemma dev_bits: "take_bit 32 (major d) = major d" "take_bit 32 (minor d) = minor d"
proof -
  have m: "(0xFFF :: u64) = mask 12" "(0xFFFFF000 :: u64) = push_bit 12 (mask 20)" "(0xFF :: u64) = mask 8" "(0xFFFFFF00 :: u64) = push_bit 8 (mask 24)"
    by (simp_all add: mask_eq_exp_minus_1 push_bit_eq_mult)
  show "take_bit 32 (major d) = major d" "take_bit 32 (minor d) = minor d" unfolding major_def minor_def m by (rule bit_word_eqI; auto simp: bit_simps)+
qed

definition table_fmt :: "byte list \<Rightarrow> u64 \<Rightarrow> fmt" where
  "table_fmt key rdev = fseq (fmtstr (Some (bstr ''aes-xts-plain64'' @ [0]))) (fseq (fmtstr (Some (bstr '' '' @ [0]))) (fseq (fmtbytes key)
     (fseq (fmtstr (Some (bstr '' 0 '' @ [0]))) (fseq (fmtlong (major rdev)) (fseq (fmtstr (Some (bstr '':'' @ [0])))
     (fseq (fmtlong (minor rdev)) (fmtstr (Some (bstr '' 0 1 allow_discards'' @ [0])))))))))"

lemma table_formatter: "formatter (table_fmt key rdev) (table_line key rdev)"
proof -
  have l: "formatter (fmtstr (Some (bstr t @ [0]))) (bstr t)" if "0 \<notin> set (bstr t)" for t
    using strict_formatter.is_formatter[OF fmtstr_strict[OF that]] .
  have n: "formatter (fmtlong (major rdev)) (dec (unat (major rdev)))" "formatter (fmtlong (minor rdev)) (dec (unat (minor rdev)))"
    using fmti64.formatter_axioms[of "major rdev"] fmti64.formatter_axioms[of "minor rdev"] dev_number(1)[OF dev_bits(1)] dev_number(1)[OF dev_bits(2)] by simp_all
  have "formatter (table_fmt key rdev) (bstr ''aes-xts-plain64'' @ bstr '' '' @ concat (map hex2 key) @ bstr '' 0 '' @ dec (unat (major rdev)) @ bstr '':'' @
      dec (unat (minor rdev)) @ bstr '' 0 1 allow_discards'')"
    unfolding table_fmt_def by (intro fseq_formatter l n strict_formatter.is_formatter[OF fmtbytes_strict]) (simp_all add: bstr_def ch_def)
  then show ?thesis by (simp add: table_line_def bstr_def)
qed

lemma length_table_line: "length key = KEYSIZE \<Longrightarrow> length (table_line key rdev) \<le> 200"
proof -
  assume k: "length key = KEYSIZE"
  have "length (concat (map hex2 key)) = 64" using k by (simp add: length_concat comp_def hex2_def KEYSIZE_def sum_list_triv)
  then show ?thesis using dev_number(2)[OF dev_bits(1)[of rdev]] dev_number(2)[OF dev_bits(2)[of rdev]] by (simp add: table_line_def bstr_def)
qed

lemma hexdig_no0: "d < 16 \<Longrightarrow> hexdig d \<noteq> 0"
  using less_16_cases[of d] by (auto simp: hexdig_def bstr_def ch_def)

lemma dec_no0: "0 \<notin> set (dec n)"
proof -
  have "0 \<notin> set (digs 10 k n)" for k by (induction k arbitrary: n) auto
  then show ?thesis by (simp add: dec_def)
qed

lemma table_line_no0: "0 \<notin> set (table_line key rdev)"
proof -
  have "unat (x :: byte) div 16 < 16" for x using unsigned_less[of x, where ?'a = nat] by simp
  then have "0 \<notin> set (hex2 x)" for x using hexdig_no0[of "unat x div 16"] hexdig_no0[of "unat x mod 16"] by (auto simp: hex2_def)
  then show ?thesis using dec_no0 by (auto simp: table_line_def bstr_def ch_def)
qed

text \<open>\<open>dm_crypt\<close> loads the table line of the key the partition names.\<close>

lemma dm_crypt_eq:
  assumes ok: "parts_ok s" "i < b_nparts s" and k: "length (b_keydata s) = FILEBUF" "b_nkeys s \<le> int NUMKEYS"
  defines "pt \<equiv> b_parts s ! i"
  shows "\<exists>r. dm_crypt sys i s = dm_single sys pt (bstr ''crypt'' @ [0])
    (table_line (take KEYSIZE (drop (HDRSIZE + KEYSIZE * nat (pt_keyidx pt)) (b_keydata s))) (pt_rdev pt) @ 0 # r) s"
proof -
  have i: "0 \<le> pt_keyidx pt" "pt_keyidx pt < 16" using ok k(2) by (auto simp: parts_ok_def part_ok_def pt_def NUMKEYS_def)
  let ?key = "take KEYSIZE (drop (HDRSIZE + KEYSIZE * nat (pt_keyidx pt)) (b_keydata s))"
  have b: "HDRSIZE + KEYSIZE * nat (pt_keyidx pt) + KEYSIZE \<le> length (b_keydata s)" using i k(1) by (simp add: HDRSIZE_def KEYSIZE_def FILEBUF_def)
  have rd: "rds (b_keydata s) (HDRSIZE + KEYSIZE * nat (pt_keyidx pt)) KEYSIZE = Some ?key" and lk: "length ?key = KEYSIZE" using b by (auto simp: rds_def)
  let ?t = "table_line ?key (pt_rdev pt)"
  have lt: "length ?t \<le> 200" by (rule length_table_line[OF lk])
  have e: "0 + length ?t \<le> 256" "(256 :: nat) < length (replicate 257 (0 :: byte))" "(0 :: nat) \<le> 256" using lt by (simp_all only: length_replicate)
  note f = table_formatter[of ?key "pt_rdev pt"]
  obtain m where m: "table_fmt ?key (pt_rdev pt) (replicate 257 0) 0 256 = Some (m, 0 + length ?t)" "take (length ?t) (drop 0 m) = ?t"
    by (rule formatter.writes[OF f e(1,2)])
  have lm: "length m = 257" using formatter.frame(1)[OF f e(3,2) m(1)] by (simp only: length_replicate)
  have "m[length ?t := 0] = ?t @ 0 # drop (Suc (length ?t)) m" using m(2) lm lt by (simp add: upd_conv_take_nth_drop)
  then have w: "wr m (0 + length ?t) 0 = Some (?t @ 0 # drop (Suc (length ?t)) m)" using lm lt by (simp add: wr_def)
  have "dm_crypt sys i s = dm_single sys pt (bstr ''crypt'' @ [0]) (?t @ 0 # drop (Suc (length ?t)) m) s"
    unfolding dm_crypt_def Let_def pt_def[symmetric] rd defined_simps andthen.simps m(1)[unfolded table_fmt_def] prod.case w using i(1) by (simp only: not_less[symmetric] if_False)
  then show ?thesis by blast
qed

lemma dm_crypt_safe:
  assumes ok: "parts_ok s" "i < b_nparts s" and k: "length (b_keydata s) = FILEBUF" "b_nkeys s \<le> int NUMKEYS"
  shows "safe (dm_crypt sys i s) (same_keys s)"
proof -
  let ?pt = "b_parts s ! i"
  let ?t = "table_line (take KEYSIZE (drop (HDRSIZE + KEYSIZE * nat (pt_keyidx ?pt)) (b_keydata s))) (pt_rdev ?pt)"
  obtain l where l: "cstr (pt_label ?pt) = Some l" by (rule part_label[OF ok])
  obtain r where r: "dm_crypt sys i s = dm_single sys ?pt (bstr ''crypt'' @ [0]) (?t @ 0 # r) s" using dm_crypt_eq[OF ok k] by blast
  have "cstr (bstr ''crypt'' @ [0]) = Some (bstr ''crypt'')" by (simp add: bstr_def ch_def)
  then show ?thesis unfolding r by (rule dm_single_safe[OF ok(1) l]) (rule cstr_append[OF table_line_no0])
qed

lemma fmt_path_ok:
  assumes "isfmt f"
  shows "\<exists>t. fmt_path len f = Done t"
proof -
  obtain t where t: "formatter f t" using assms by (auto simp: isfmt_def)
  obtain m p where m: "f (replicate (len + 1) 0) 0 len = Some (m, p)" using formatter.clips[OF t, of 0 len "replicate (len + 1) 0"] by auto
  have "p < length m" using formatter.frame[OF t _ _ m] by simp
  then show ?thesis unfolding fmt_path_def m defined_simps andthen.simps prod.case by (simp add: wr_def)
qed

lemma isfmt_mapper_path: "cstr l = Some t \<Longrightarrow> isfmt (fseq (fmtstr (Some (bstr ''/dev/mapper/'' @ [0]))) (fmtstr (Some l)))"
  by (intro isfmts isfmt_fmtstr) (simp_all add: bstr_def ch_def)

lemma redo_symlink_safe:
  assumes ok: "parts_ok s" "i < b_nparts s"
  shows "safe (redo_symlink sys i s) (same_keys s)"
proof -
  obtain l where l: "cstr (pt_label (b_parts s ! i)) = Some l" by (rule part_label[OF ok])
  obtain a where a: "fmt_path 200 (fseq (fmtstr (Some (bstr ''/dev/mapper/'' @ [0]))) (fmtstr (Some (pt_label (b_parts s ! i))))) = (Done a :: ('a pblk, _) outcome)"
    using fmt_path_ok[OF isfmt_mapper_path[OF l]] by blast
  have "isfmt (fseq (fmtstr (Some (bstr ''../dm-'' @ [0]))) (fmtint (pt_dmidx (b_parts s ! i))))" by (intro isfmts) (simp add: bstr_def ch_def)
  then obtain b where b: "fmt_path 200 (fseq (fmtstr (Some (bstr ''../dm-'' @ [0]))) (fmtint (pt_dmidx (b_parts s ! i)))) = (Done b :: ('a pblk, _) outcome)"
    using fmt_path_ok by blast
  show ?thesis unfolding redo_symlink_def Let_def a b andthen.simps psys_eq by (simp add: case_prod_beta same_keys_w[OF ok(1)])
qed

lemma decrypt_loop_safe:
  assumes env: "pb_env sys"
  shows "parts_ok s \<Longrightarrow> \<forall>i \<in> set is. i < b_nparts s \<Longrightarrow> length (b_keydata s) = FILEBUF \<Longrightarrow> b_nkeys s \<le> int NUMKEYS \<Longrightarrow>
    safe (decrypt_loop sys is s) (\<lambda>_. True)"
proof (induction "is" arbitrary: s)
  case (Cons i "is")
  have ok: "parts_ok s'" "i < b_nparts s'" "length (b_keydata s') = FILEBUF" "b_nkeys s' \<le> int NUMKEYS" "\<forall>i \<in> set is. i < b_nparts s'"
    if "same_keys s s'" for s' using Cons.prems that by (auto simp: same_keys_def)
  have tr: "same_keys s s''" if "same_keys s s'" "same_keys s' s''" for s' s'' using that by (auto simp: same_keys_def)
  show ?case unfolding decrypt_loop.simps
  proof (intro safe_andthen)
    show "safe (dm_create sys i s) (same_keys s)" by (rule dm_create_safe[OF env]) (use Cons.prems in auto)
    show "safe (dm_crypt sys i s') (same_keys s)" if "same_keys s s'" for s' by (rule safe_mono[OF dm_crypt_safe[OF ok(1-4)[OF that]]]) (rule tr[OF that])
    show "safe (dm_resume sys i s') (same_keys s)" if "same_keys s s'" for s' by (rule safe_mono[OF dm_resume_safe[OF ok(1,2)[OF that]]]) (rule tr[OF that])
    show "safe (redo_symlink sys i s') (same_keys s)" if "same_keys s s'" for s' by (rule safe_mono[OF redo_symlink_safe[OF ok(1,2)[OF that]]]) (rule tr[OF that])
    show "safe (decrypt_loop sys is s') (\<lambda>_. True)" if "same_keys s s'" for s' by (rule Cons.IH[OF ok(1)[OF that] ok(5)[OF that] ok(3,4)[OF that]])
  qed
qed simp

lemma decrypt_parts_safe:
  "pb_env sys \<Longrightarrow> parts_ok s \<Longrightarrow> length (b_keydata s) = FILEBUF \<Longrightarrow> b_nkeys s \<le> int NUMKEYS \<Longrightarrow> safe (decrypt_parts sys s) (\<lambda>_. True)"
  unfolding decrypt_parts_def by (rule decrypt_loop_safe) auto

section \<open>Input\<close>

lemma key_sizes_nkeys: "key_sizes s \<Longrightarrow> b_nkeys s \<le> int NUMKEYS"
  by (auto simp: key_sizes_def MAXFILE_def HDRSIZE_def KEYSIZE_def NUMKEYS_def)

definition wchg :: "'w pblk \<Rightarrow> 'w pblk \<Rightarrow> bool" where
  "wchg s s' \<longleftrightarrow> (\<exists>w. s' = s \<lparr> b_w := w \<rparr>)"

lemma wchg_upd [simp]: "wchg s (s \<lparr> b_w := w \<rparr>)"
  unfolding wchg_def by blast

lemma terminate_input_ok: "safe (terminate_input sys s) (wchg s)"
proof -
  obtain w where w: "clear_screen_fini sys s = Done (s \<lparr> b_w := w \<rparr>)" by (rule exE[OF screens(2)[of sys s]])
  have "safe (reset_termio_flags sys (s \<lparr> b_w := w \<rparr>)) (wchg s)" by (simp add: reset_termio_flags_def psys_eq)
  then show ?thesis unfolding terminate_input_def w by simp
qed

lemma quit_safe: "safe (quit sys msg s) Q"
  unfolding quit_def by (rule safe_andthen[OF terminate_input_ok]) simp

lemma user_end_safe: "safe (handle_user_end sys s) Q"
  unfolding handle_user_end_def by (rule safe_andthen[OF terminate_input_ok]) simp

lemma enter_pass_safe:
  assumes env: "pb_env sys" and inv: "pb_inv F s"
  shows "safe (enter_pass sys s) (pb_inv F)"
proof (cases "b_plen s = 0")
  case False
  note p = inv[unfolded pb_inv_def]
  obtain w where w: "redraw_dialog sys ST_HASHING (s \<lparr> b_showpass := False \<rparr>) = Done (s \<lparr> b_showpass := False, b_state := ST_HASHING, b_w := w \<rparr>)"
    by (rule exE[OF redraws(3)[of "s \<lparr> b_showpass := False \<rparr>" sys ST_HASHING]]) (use p in simp_all)
  let ?s = "s \<lparr> b_showpass := False, b_state := ST_HASHING, b_w := w \<rparr>"
  obtain ret sc data where u: "unwrap_keydata ?s = Done (ret, ?s \<lparr> b_sc := sc, b_keydata := data \<rparr>)" "sc_ready sc" "length data = FILEBUF"
    "ret = 0 \<or> take (b_keysize ?s) data = F" by (rule unwrap_keydata_cases[of ?s F]) (use p in simp_all)
  let ?t = "?s \<lparr> b_sc := sc, b_keydata := data \<rparr>"
  have parts: "parts_ok ?t" "length (b_keydata ?t) = FILEBUF" "b_nkeys ?t \<le> int NUMKEYS" using p u(3) key_sizes_nkeys[of s] by simp_all
  show ?thesis
  proof (cases "ret = 0")
    case True
    have "safe (andthen (terminate_input sys ?t) (\<lambda>s. andthen (decrypt_parts sys s) (\<lambda>s. Exit 0 s))) (pb_inv F)"
    proof (rule safe_andthen[OF terminate_input_ok])
      fix a assume "wchg ?t a"
      then obtain w' where a: "a = ?t \<lparr> b_w := w' \<rparr>" unfolding wchg_def by blast
      have "safe (decrypt_parts sys a) (\<lambda>_. True)" unfolding a by (rule decrypt_parts_safe[OF env]) (use parts in simp_all)
      then show "safe (andthen (decrypt_parts sys a) (\<lambda>s. Exit 0 s)) (pb_inv F)" by (rule safe_andthen) simp
    qed
    then show ?thesis using False True w u(1) by (simp add: enter_pass_def)
  next
    case ne: False
    obtain z where z: "memzero (b_pass s) 0 MAXPASS = Some z" "length z = MAXPASS" using memzero_ok[of 0 MAXPASS "b_pass s"] p by (auto simp: pass_ok_def)
    have pk: "pass_ok (?t \<lparr> b_pass := z \<rparr>)" using p z(2) by (simp add: pass_ok_def)
    obtain w' where w': "redraw_dialog sys ST_INVALID (?t \<lparr> b_pass := z \<rparr>) = Done (?t \<lparr> b_pass := z, b_state := ST_INVALID, b_w := w' \<rparr>)"
      by (rule exE[OF redraws(3)[OF pk, of sys ST_INVALID]])
    have "pb_inv F (set_timer 1 (?t \<lparr> b_pass := z, b_state := ST_INVALID, b_w := w' \<rparr>))"
      using p z(2) u ne by (simp add: pb_inv_def set_timer_def pass_ok_def[of "b_pass_update _ _"] key_sizes_def keys_intact_def) (simp add: pass_ok_def)
    then show ?thesis using False ne w u(1) z(1) w' by (simp add: enter_pass_def)
  qed
qed (simp add: enter_pass_def inv)

lemma handle_reg_key_safe: "pb_env sys \<Longrightarrow> pb_inv F s \<Longrightarrow> safe (handle_reg_key sys c s) (pb_inv F)"
  unfolding handle_reg_key_def by (simp add: add_char_safe del_char_safe redraw_safe(2) enter_pass_safe input_resets(1,2))

lemma pb_inv_keyst [simp]: "pb_inv F (s \<lparr> b_keyst := k \<rparr>) = pb_inv F s"
  by (simp add: pb_inv_def)

lemma handle_inchr_safe: "pb_env sys \<Longrightarrow> pb_inv F s \<Longrightarrow> safe (handle_inchr sys c s) (pb_inv F)"
  unfolding handle_inchr_def by (simp add: handle_reg_key_safe)

lemma input_loop_safe: "pb_env sys \<Longrightarrow> pb_inv F s \<Longrightarrow> safe (input_loop sys cs s) (pb_inv F)"
proof (induction cs arbitrary: s)
  case (Cons c cs)
  show ?case unfolding input_loop.simps by (rule safe_andthen[OF handle_inchr_safe[OF Cons.prems]]) (rule Cons.IH[OF Cons.prems(1)])
qed simp

lemma reset_input_safe: "pb_inv F s \<Longrightarrow> safe (reset_input sys s) (pb_inv F)"
proof -
  assume a: "pb_inv F s"
  obtain w where "reset_input sys s = Done (s \<lparr> b_plen := 0, b_psptr := 0, b_state := ST_INPUT, b_w := w \<rparr>)" by (rule exE[OF input_resets(3)[OF a, of sys]])
  then show ?thesis using input_resets(4)[OF a, of w] by simp
qed

lemma handle_input_safe: "pb_env sys \<Longrightarrow> pb_inv F s \<Longrightarrow> safe (handle_input sys buf s) (pb_inv F)"
  unfolding handle_input_def by (rule safe_andthen[of _ "pb_inv F"]) (simp_all add: reset_input_safe input_loop_safe)

lemma handle_timeout_safe: "pb_inv F s \<Longrightarrow> safe (handle_timeout sys s) (pb_inv F)"
  unfolding handle_timeout_def by (simp add: reset_input_safe)

section \<open>The terminal\<close>

text \<open>The state the size of the terminal is stored in, whatever was there before.\<close>

definition box_inv :: "byte list \<Rightarrow> 'w pblk \<Rightarrow> bool" where
  "box_inv F s \<longleftrightarrow> pb_inv F (s \<lparr> b_inlen := 40 \<rparr>)"

lemma box_inv_w [simp]: "box_inv F (s \<lparr> b_w := w \<rparr>) = box_inv F s"
  by (simp add: box_inv_def pb_inv_def pass_ok_def)

lemma pb_inv_box: "pb_inv F s \<Longrightarrow> box_inv F s"
  by (simp add: box_inv_def pb_inv_def pass_ok_def)

lemma box_inv_size: "box_inv F s \<Longrightarrow> 20 \<le> n \<Longrightarrow> n \<le> 40 \<Longrightarrow> pb_inv F (s \<lparr> b_cols := c, b_rows := r, b_inlen := n, b_incol := i, b_inrow := j \<rparr>)"
  by (simp add: box_inv_def pb_inv_def pass_ok_def)

lemma update_term_size_safe: "box_inv F s \<Longrightarrow> safe (update_term_size sys s) (pb_inv F)"
proof -
  assume a: "box_inv F s"
  obtain r row col w where g: "winsize sys (b_w s) = ((r, row, col), w)" by (metis prod.collapse)
  have "pb_inv F (update_box_position (s \<lparr> b_w := w, b_cols := uint col, b_rows := uint row \<rparr>))" if "\<not> (row < 10 \<or> col < 40)"
  proof -
    have "40 \<le> uint col" using that by (simp add: word_less_def)
    then show ?thesis unfolding update_box_position_def Let_def by (simp add: box_inv_size[of F "s \<lparr> b_w := w \<rparr>", simplified, OF a])
  qed
  then show ?thesis unfolding update_term_size_def psys_eq g fst_conv snd_conv Let_def prod.case by (simp add: quit_safe del: not_less)
qed

lemma handle_sigwinch_safe: "pb_inv F s \<Longrightarrow> safe (handle_sigwinch sys s) (pb_inv F)"
  unfolding handle_sigwinch_def
proof (rule safe_andthen[OF update_term_size_safe[OF pb_inv_box]])
  fix a :: "'a pblk" assume a: "pb_inv F a"
  have f: "isfmt (fseq (fmt_move 1 1) (fseq (fcsi ''J'') (fseq (fmt_draw_dialog a) (fmt_park_cursor a))))"
    by (intro isfmts pb_inv_pass[OF a]) (simp add: bstr_def ch_def)
  obtain w where "draw sys 1024 (fseq (fmt_move 1 1) (fseq (fcsi ''J'') (fseq (fmt_draw_dialog a) (fmt_park_cursor a)))) a = Done (a \<lparr> b_w := w \<rparr>)"
    by (rule exE[OF draw_ok[OF f, of sys 1024 a]])
  then show "safe (draw sys 1024 (fseq (fmt_move 1 1) (fseq (fcsi ''J'') (fseq (fmt_draw_dialog a) (fmt_park_cursor a)))) a) (pb_inv F)" using a by simp
qed

section \<open>Events\<close>

lemma pb_check_signal_safe: "pb_inv F s \<Longrightarrow> safe (pb_check_signal sys s) (pb_inv F)"
proof -
  assume a: "pb_inv F s"
  obtain r sig w where g: "sys_sigread sys (b_sigfd s) (b_w s) = ((r, sig), w)" by (metis prod.collapse)
  have "safe (andthen (if sig = PSIGINT then handle_user_end sys (s \<lparr> b_w := w \<rparr>) else Done (s \<lparr> b_w := w \<rparr>)) (\<lambda>s.
      andthen (if sig = PSIGTERM then handle_user_end sys s else Done s) (\<lambda>s. if sig = SIGWINCH then handle_sigwinch sys s else Done s))) (pb_inv F)"
    by (intro safe_andthen[of _ "pb_inv F"]) (simp_all add: a user_end_safe handle_sigwinch_safe)
  then show ?thesis unfolding pb_check_signal_def psys_eq g fst_conv snd_conv Let_def prod.case by (simp add: quit_safe)
qed

lemma check_input_safe: "pb_env sys \<Longrightarrow> pb_inv F s \<Longrightarrow> safe (check_input sys s) (pb_inv F)"
proof -
  assume env: "pb_env sys" and a: "pb_inv F s"
  obtain r d w where g: "sys_read sys 0 64 (b_w s) = ((r, d), w)" by (metis prod.collapse)
  show ?thesis
  proof (cases "r \<le> 0")
    case True
    then show ?thesis unfolding check_input_def psys_eq g fst_conv snd_conv Let_def prod.case by (auto simp: quit_safe user_end_safe)
  next
    case False
    then have d: "int (length d) = r" "length d \<le> 64" using read_len[OF env g] by auto
    have 1: "wrs (replicate 64 0) 0 d = Some (d @ drop (length d) (replicate 64 0))" using d(2) by (simp add: wrs_def)
    have 2: "rds (d @ drop (length d) (replicate 64 0)) 0 (nat r) = Some d" using d by (auto simp: rds_def)
    show ?thesis unfolding check_input_def psys_eq g fst_conv snd_conv Let_def prod.case 1 defined_simps andthen.simps 2
      using False handle_input_safe[OF env, of F "s \<lparr> b_w := w \<rparr>" d] a by simp
  qed
qed

lemma pb_poll_safe: "pb_env sys \<Longrightarrow> pb_inv F s \<Longrightarrow> safe (pb_poll sys s) (pb_inv F)"
proof -
  assume env: "pb_env sys" and a: "pb_inv F s"
  obtain r i g t w where p: "sys_ppoll sys (if b_needwait s then Some (b_ts s) else None) (b_w s) = ((r, i, g, t), w)" by (metis prod.collapse)
  let ?s = "if b_needwait s then s \<lparr> b_w := w, b_ts := t \<rparr> else s \<lparr> b_w := w \<rparr>"
  have s: "pb_inv F ?s" using a by (simp add: pb_inv_def)
  have e: "(if b_needwait (s \<lparr> b_w := w \<rparr>) then s \<lparr> b_w := w, b_ts := t \<rparr> else s \<lparr> b_w := w \<rparr>) = ?s" by simp
  have "safe (andthen (if r = 0 then handle_timeout sys ?s else Done ?s) (\<lambda>s. andthen (if i then check_input sys s else Done s)
      (\<lambda>s. if g then pb_check_signal sys s else Done s))) (pb_inv F)"
    using s by (intro safe_andthen[of _ "pb_inv F"]) (simp_all add: handle_timeout_safe check_input_safe[OF env] pb_check_signal_safe)
  then show ?thesis unfolding pb_poll_def psys_eq p fst_conv snd_conv Let_def prod.case e by (simp add: quit_safe)
qed

end
