(* ===== verification/Passblk_Props.thy ===== *)
theory Passblk_Props
  imports Passblk_Inv
begin

text \<open>
  The properties of the passphrase prompt: that it is defined in every reachable state, that failed attempts cost nothing, that
  the right passphrase unlocks what \<open>dektool\<close> sealed, and how the partitions get their keys.
\<close>

section \<open>Arguments\<close>

lemma digits_loop_cstr: "cstr p = Some t \<Longrightarrow> \<exists>q m u. digits_loop dig b p n = Some (q, m) \<and> cstr q = Some u"
  by (induction dig b p n arbitrary: t rule: digits_loop.induct) (auto split: if_splits option.splits)

lemma parseint_cstr:
  assumes "cstr a = Some t"
  shows "\<exists>r. parseint a = Some r \<and> (\<forall>p v. r = Some (p, v) \<longrightarrow> (\<exists>u. cstr p = Some u))"
  using digits_loop_cstr[OF assms, of dig10 "10 :: u32" 0] by (auto simp: parseint_def parse_number_def)

definition labels :: "part list \<Rightarrow> nat \<Rightarrow> bool" where
  "labels ps n \<longleftrightarrow> length ps = NUMKEYS \<and> n \<le> NUMKEYS \<and> (\<forall>i < n. (\<exists>l. cstr (pt_label (ps ! i)) = Some l) \<and> 0 \<le> pt_keyidx (ps ! i))"

definition labelled :: "'w pblk \<Rightarrow> 'w pblk \<Rightarrow> bool" where
  "labelled s s' \<longleftrightarrow> (\<exists>ps n. s' = s \<lparr> b_parts := ps, b_nparts := n \<rparr> \<and> labels ps n)"

lemma labels_Suc: "labels ps n \<Longrightarrow> n < NUMKEYS \<Longrightarrow> cstr a = Some l \<Longrightarrow> 0 \<le> k \<Longrightarrow> labels (ps[n := (ps ! n) \<lparr> pt_keyidx := k, pt_label := a \<rparr>]) (Suc n)"
  by (auto simp: labels_def nth_list_update less_Suc_eq)

lemma cstr_Cons: "cstr p = Some t \<Longrightarrow> \<exists>c q. p = c # q \<and> (c \<noteq> 0 \<longrightarrow> (\<exists>u. cstr q = Some u))"
  by (cases p) (auto split: if_splits)

text \<open>The test for a lone dash.\<close>

lemma dash_test:
  assumes "cstr a = Some t"
  shows "\<exists>b. do { x \<leftarrow> rd a 0; (if x = ch CHR ''-'' then map_option (\<lambda>b. b = 0) (rd a 1) else Some False) } = Some b"
proof -
  obtain c q where c: "a = c # q" "c \<noteq> 0 \<longrightarrow> (\<exists>u. cstr q = Some u)" using cstr_Cons[OF assms] by blast
  have "q \<noteq> []" if "c = ch CHR ''-''" using c(2) that by (auto simp: ch_def)
  then show ?thesis using c(1) by (cases q) (auto simp: rd_def)
qed

lemma parse_labels_safe:
  "\<forall>a \<in> set args. \<exists>l. cstr a = Some l \<Longrightarrow> n + length args \<le> NUMKEYS \<Longrightarrow> 0 \<le> ki \<Longrightarrow> ki + int (length args) \<le> 48 \<Longrightarrow> labels (b_parts s) n \<Longrightarrow>
   safe (parse_labels args n ki s) (labelled s)"
proof (induction args arbitrary: n ki s)
  case Nil
  then have "labelled s (s \<lparr> b_nparts := n \<rparr>)" unfolding labelled_def by (intro exI[of _ "b_parts s"] exI[of _ n]) simp
  then show ?case by simp
next
  case (Cons arg args)
  obtain l where l: "cstr arg = Some l" using Cons.prems(1) by auto
  obtain d where d: "do { x \<leftarrow> rd arg 0; (if x = ch CHR ''-'' then map_option (\<lambda>b. b = 0) (rd arg 1) else Some False) } = Some d" using dash_test[OF l] by blast
  obtain r where r: "parseint arg = Some r" "\<forall>p v. r = Some (p, v) \<longrightarrow> (\<exists>u. cstr p = Some u)" using parseint_cstr[OF l] by blast
  let ?g = "case r of None \<Rightarrow> Done (arg, ki) | Some (sep, v) \<Rightarrow> andthen (defined (rd sep 0)) (\<lambda>c.
           if c \<noteq> ch CHR '':'' then Done (arg, ki) else if sint v < 0 then Fail ''non-positive key index'' s
           else if sint v = 0 then Fail ''key indexes are 1-based'' s else Done (drop 1 sep, sint v - 1))"
  have g: "safe ?g (\<lambda>(a, k). (\<exists>l. cstr a = Some l) \<and> 0 \<le> k)"
  proof (cases r)
    case (Some q)
    obtain sep v where q: "q = (sep, v)" by (cases q)
    obtain u where u: "cstr sep = Some u" using r(2) Some q by blast
    obtain c p where c: "sep = c # p" "c \<noteq> 0 \<longrightarrow> (\<exists>u. cstr p = Some u)" using cstr_Cons[OF u] by blast
    have v: "0 < sint v" if "v \<noteq> 0" "\<not> sint v < 0" using that sint_eq_0_iff[of v] by linarith
    show ?thesis using Some q c l Cons.prems(3) by (auto simp: rd_def ch_def v)
  qed (use l Cons.prems(3) in simp)
  have step: "safe (if k > int NUMKEYS then Fail ''key index out of range:'' s
     else if n > NUMKEYS then Fail ''too many partitions'' s
     else if n \<ge> length (b_parts s) then Undef
     else parse_labels args (n + 1) k (s \<lparr> b_parts := (b_parts s)[n := (b_parts s ! n) \<lparr> pt_keyidx := k, pt_label := a \<rparr>] \<rparr>)) (labelled s)"
    if a: "cstr a = Some l'" "0 \<le> k" for a k l'
  proof (cases "k > int NUMKEYS")
    case False
    have n: "n < NUMKEYS" "length (b_parts s) = NUMKEYS" using Cons.prems(2,5) by (auto simp: labels_def)
    let ?s = "s \<lparr> b_parts := (b_parts s)[n := (b_parts s ! n) \<lparr> pt_keyidx := k, pt_label := a \<rparr>] \<rparr>"
    have "safe (parse_labels args (n + 1) k ?s) (labelled ?s)"
      by (rule Cons.IH) (use Cons.prems(1,2) False a labels_Suc[OF Cons.prems(5) n(1) a] in \<open>auto simp: NUMKEYS_def\<close>)
    then have "safe (parse_labels args (n + 1) k ?s) (labelled s)" by (rule safe_mono) (auto simp: labelled_def)
    then show ?thesis using False n by simp
  qed simp
  have dash: "safe (if ki + 1 \<ge> 2 ^ 31 then Undef else parse_labels args n (ki + 1) s) (labelled s)"
    using Cons.IH[of n "ki + 1" s] Cons.prems by auto
  have "safe (andthen ?g (\<lambda>(a, k). if k > int NUMKEYS then Fail ''key index out of range:'' s
     else if n > NUMKEYS then Fail ''too many partitions'' s
     else if n \<ge> length (b_parts s) then Undef
     else parse_labels args (n + 1) k (s \<lparr> b_parts := (b_parts s)[n := (b_parts s ! n) \<lparr> pt_keyidx := k, pt_label := a \<rparr>] \<rparr>))) (labelled s)"
    by (rule safe_andthen[OF g], clarify, rule step)
  then show ?case unfolding parse_labels.simps d r(1) defined_simps andthen.simps using dash by simp
qed

section \<open>Start\<close>

text \<open>The state once the keyfile \<open>F\<close> is loaded.\<close>

definition loaded :: "byte list \<Rightarrow> 'w pblk \<Rightarrow> bool" where
  "loaded F s \<longleftrightarrow> length (b_pass s) = MAXPASS \<and> b_plen s = 0 \<and> b_psptr s = 0 \<and> b_state s = ST_INPUT \<and> length (b_keydata s) = FILEBUF \<and>
     length (b_keycopy s) = FILEBUF \<and> HDRSIZE \<le> b_keysize s \<and> b_keysize s \<le> MAXFILE \<and> b_nkeys s = (int (b_keysize s) - int HDRSIZE) div int KEYSIZE \<and>
     take (b_keysize s) (b_keydata s) = F \<and> length F = b_keysize s \<and> labels (b_parts s) (b_nparts s)"

lemma loaded_w [simp]: "loaded F (s \<lparr> b_w := w \<rparr>) = loaded F s"
  by (simp add: loaded_def)

lemma load_key_data_safe:
  assumes env: "pb_env sys" and s: "labelled (zero_top w0) s"
  shows "safe (load_key_data sys name s) (\<lambda>s. \<exists>F. loaded F s)"
proof -
  obtain ps n where s: "s = zero_top w0 \<lparr> b_parts := ps, b_nparts := n \<rparr>" "labels ps n" using s unfolding labelled_def by blast
  obtain fd w where o: "sys_open sys (Some name) O_RDONLY 0 (b_w s) = (fd, w)" by fastforce
  obtain r d w' where rd: "sys_read sys fd FILEBUF w = ((r, d), w')" by (metis prod.collapse)
  show ?thesis
  proof (cases "fd < 0 \<or> r < 0")
    case False
    then have d: "int (length d) = r" "length d \<le> FILEBUF" using read_len[OF env rd] by auto
    have k: "length (b_keydata s) = FILEBUF" by (simp add: s(1) zero_top_def)
    then have wr: "wrs (b_keydata s) 0 d = Some (d @ drop (length d) (b_keydata s))" using d(2) by (simp add: wrs_def)
    have "loaded d (s \<lparr> b_w := w', b_keydata := d @ drop (length d) (b_keydata s), b_nkeys := (r - int HDRSIZE) div int KEYSIZE, b_keysize := nat r, b_keyfile := name \<rparr>)"
      if "\<not> r > int MAXFILE" "\<not> r < int HDRSIZE"
      using that d k s(2) by (auto simp: loaded_def s(1) zero_top_def)
    then show ?thesis unfolding load_key_data_def psys_eq o fst_conv snd_conv Let_def prod.case using False wr by (auto simp: rd)
  qed (auto simp: load_key_data_def psys_eq o rd Let_def)
qed

definition same_ids :: "part list \<Rightarrow> part list \<Rightarrow> bool" where
  "same_ids ps qs \<longleftrightarrow> map pt_label ps = map pt_label qs \<and> map pt_keyidx ps = map pt_keyidx qs"

lemma same_ids_nth: "same_ids ps qs \<Longrightarrow> i < length ps \<Longrightarrow> pt_label (ps ! i) = pt_label (qs ! i) \<and> pt_keyidx (ps ! i) = pt_keyidx (qs ! i)"
  unfolding same_ids_def by (metis length_map nth_map)

lemma same_ids_update: "pt_label p = pt_label (ps ! i) \<Longrightarrow> pt_keyidx p = pt_keyidx (ps ! i) \<Longrightarrow> same_ids ps (ps[i := p])"
  by (simp add: same_ids_def map_update list_update_same_conv) (metis list_update_id map_update)

lemma same_ids_labels: "same_ids ps qs \<Longrightarrow> labels ps n \<Longrightarrow> labels qs n"
  unfolding labels_def using same_ids_nth[of ps qs] by (auto simp: same_ids_def dest: map_eq_imp_length_eq)

definition stated :: "'w pblk \<Rightarrow> 'w pblk \<Rightarrow> bool" where
  "stated s s' \<longleftrightarrow> (\<exists>ps w. s' = s \<lparr> b_parts := ps, b_w := w \<rparr> \<and> same_ids (b_parts s) ps)"

lemma stat_part_node_safe:
  assumes "labels (b_parts s) n" and "i < n"
  shows "safe (stat_part_node sys i s) (stated s)"
proof -
  obtain l where l: "cstr (pt_label (b_parts s ! i)) = Some l" using assms by (auto simp: labels_def)
  obtain a where a: "fmt_path 100 (fseq (fmtstr (Some (bstr ''/dev/mapper/'' @ [0]))) (fmtstr (Some (pt_label (b_parts s ! i))))) = (Done a :: ('a pblk, _) outcome)"
    using fmt_path_ok[OF isfmt_mapper_path[OF l]] by blast
  have "stated s (s \<lparr> b_w := w, b_parts := (b_parts s)[i := (b_parts s ! i) \<lparr> pt_size := z, pt_rdev := d \<rparr>] \<rparr>)" for w z d
    unfolding stated_def by (rule exI[of _ "(b_parts s)[i := (b_parts s ! i) \<lparr> pt_size := z, pt_rdev := d \<rparr>]"], rule exI[of _ w]) (simp add: same_ids_update)
  then show ?thesis unfolding stat_part_node_def Let_def a andthen.simps psys_eq by (simp add: case_prod_beta)
qed

lemma validate_loop_safe:
  "labels (b_parts s) n \<Longrightarrow> \<forall>i \<in> set is. i < n \<Longrightarrow> safe (validate_loop sys is s) (\<lambda>s'. stated s s' \<and> (\<forall>i \<in> set is. pt_keyidx (b_parts s ! i) < b_nkeys s))"
proof (induction "is" arbitrary: s)
  case Nil
  have "stated s s" unfolding stated_def by (rule exI[of _ "b_parts s"], rule exI[of _ "b_w s"]) (simp add: same_ids_def)
  then show ?case by simp
next
  case (Cons i "is")
  show ?case
  proof (cases "pt_keyidx (b_parts s ! i) \<ge> b_nkeys s")
    case False
    have "safe (andthen (stat_part_node sys i s) (validate_loop sys is)) (\<lambda>s'. stated s s' \<and> (\<forall>i \<in> set (i # is). pt_keyidx (b_parts s ! i) < b_nkeys s))"
    proof (rule safe_andthen[OF stat_part_node_safe])
      fix t assume "stated s t"
      then obtain ps w where t: "t = s \<lparr> b_parts := ps, b_w := w \<rparr>" "same_ids (b_parts s) ps" unfolding stated_def by blast
      have lt: "labels (b_parts t) n" using same_ids_labels[OF t(2)] Cons.prems(1) t(1) by simp
      have k: "pt_keyidx (ps ! j) = pt_keyidx (b_parts s ! j)" if "j < n" for j using same_ids_nth[OF t(2)] Cons.prems(1) that by (auto simp: labels_def)
      show "safe (validate_loop sys is t) (\<lambda>s'. stated s s' \<and> (\<forall>i \<in> set (i # is). pt_keyidx (b_parts s ! i) < b_nkeys s))"
      proof (rule safe_mono[OF Cons.IH[OF lt]])
        show "\<forall>i \<in> set is. i < n" using Cons.prems(2) by simp
        fix a assume a: "stated t a \<and> (\<forall>i \<in> set is. pt_keyidx (b_parts t ! i) < b_nkeys t)"
        then have "stated s a" unfolding stated_def t(1) using t(2) by (auto simp: same_ids_def)
        then show "stated s a \<and> (\<forall>i \<in> set (i # is). pt_keyidx (b_parts s ! i) < b_nkeys s)" using a False k Cons.prems(2) by (auto simp: t(1))
      qed
    qed (use Cons.prems in auto)
    then show ?thesis using False by simp
  qed simp
qed

definition checked :: "byte list \<Rightarrow> 'w pblk \<Rightarrow> bool" where
  "checked F s \<longleftrightarrow> loaded F s \<and> parts_ok s"

lemma checked_upd [simp]: "checked F (s \<lparr> b_w := w \<rparr>) = checked F s" "checked F (s \<lparr> b_sigfd := fd \<rparr>) = checked F s" "checked F (s \<lparr> b_sc := sc \<rparr>) = checked F s"
  by (simp_all add: checked_def loaded_def)

lemma validate_parts_safe:
  assumes "loaded F s"
  shows "safe (validate_parts sys s) (checked F)"
proof -
  have l: "labels (b_parts s) (b_nparts s)" using assms by (simp add: loaded_def)
  show ?thesis unfolding validate_parts_def
  proof (rule safe_mono[OF validate_loop_safe[OF l]])
    fix a assume a: "stated s a \<and> (\<forall>i \<in> set [0..<b_nparts s]. pt_keyidx (b_parts s ! i) < b_nkeys s)"
    then obtain ps w where t: "a = s \<lparr> b_parts := ps, b_w := w \<rparr>" "same_ids (b_parts s) ps" unfolding stated_def by blast
    have lp: "labels ps (b_nparts s)" by (rule same_ids_labels[OF t(2) l])
    have "pt_keyidx (ps ! i) < b_nkeys s" if "i < b_nparts s" for i
    proof -
      have "pt_keyidx (b_parts s ! i) < b_nkeys s" using a that by simp
      moreover have "pt_keyidx (b_parts s ! i) = pt_keyidx (ps ! i)" using same_ids_nth[OF t(2), of i] that l by (auto simp: labels_def)
      ultimately show ?thesis by simp
    qed
    then show "checked F a" using lp assms by (auto simp: checked_def t(1) loaded_def parts_ok_def part_ok_def labels_def)
  qed simp
qed

lemma alloc_scrypt_safe:
  assumes env: "pb_env sys" and c: "checked F s"
  shows "safe (alloc_scrypt sys s) (box_inv F)"
proof -
  obtain sc where sc: "scrypt_init SCRYPT_N SCRYPT_R SCRYPT_P = (of_nat NEED, sc)" by (rule scrypt_init_dcrypt)
  obtain mm w where m: "sys_mmap sys (of_nat NEED) (b_w s) = (mm, w)" by fastforce
  note l = c[unfolded checked_def loaded_def]
  show ?thesis
  proof (cases mm)
    case (Inr buf)
    have mo: "mmap_ok sys" using env by (simp add: pb_env_def)
    have m': "sys_mmap sys (of_nat NEED) (b_w s) = (Inr buf, w)" using m Inr by simp
    have r: "sc_ready (snd (scrypt_temp sc buf (of_nat NEED)))" by (rule scrypt_temp_ready[OF sc mmap_need[OF mo m']])
    have rd: "rds (b_keydata s) 0 (b_keysize s) = Some F" using l by (auto simp: rds_def MAXFILE_def FILEBUF_def)
    have wr: "wrs (b_keycopy s) 0 F = Some (F @ drop (length F) (b_keycopy s))" using l by (simp add: wrs_def MAXFILE_def FILEBUF_def)
    have "box_inv F (s \<lparr> b_w := w, b_sc := snd (scrypt_temp sc buf (of_nat NEED)), b_keycopy := F @ drop (length F) (b_keycopy s) \<rparr>)"
      using l r by (simp add: box_inv_def pb_inv_def pass_ok_def key_sizes_def keys_intact_def MAXFILE_def FILEBUF_def)
    then show ?thesis using Inr m sc rd wr by (simp add: alloc_scrypt_def psys_eq)
  qed (simp add: alloc_scrypt_def sc psys_eq m)
qed

lemma init_mapper_safe:
  assumes env: "pb_env sys" and c: "box_inv F s"
  shows "safe (init_mapper sys s) (box_inv F)"
proof -
  obtain fd w where o: "sys_open sys (Some (bstr ''/dev/mapper/control'' @ [0])) O_RDONLY 0 (b_w s) = (fd, w)" by fastforce
  obtain r m w' where d: "dm_ioctl sys fd DM_VERSION (dm_request 312 0 0 0) w = ((r, m), w')" by (metis prod.collapse)
  have "length m = 312" using env d unfolding pb_env_def by (metis length_dm_request)
  then obtain v where v: "rd32 m 0 = Some v" by (simp add: rd32_def rds_def)
  have "box_inv F (s \<lparr> b_w := w', b_mapfd := fd \<rparr>)" using c by (simp add: box_inv_def pb_inv_def pass_ok_def)
  then show ?thesis unfolding init_mapper_def psys_eq o fst_conv snd_conv Let_def prod.case by (simp add: d v)
qed

lemma start_terminal_safe:
  assumes "box_inv F s"
  shows "safe (start_terminal sys s) (pb_inv F)"
  unfolding start_terminal_def
proof (intro safe_andthen)
  show "safe (apply_termio_flags sys s) (box_inv F)"
    using assms unfolding apply_termio_flags_def psys_eq Let_def prod.case by (simp add: box_inv_def pb_inv_def pass_ok_def case_prod_beta)
  show "safe (update_term_size sys a) (pb_inv F)" if "box_inv F a" for a by (rule update_term_size_safe[OF that])
  show "safe (clear_screen_init sys a) (pb_inv F)" if "pb_inv F a" for a
    by (rule exE[OF screens(1)[of sys a]]) (use that in simp)
  show "safe (refresh_screen sys a) (pb_inv F)" if "pb_inv F a" for a by (rule redraw_safe(2)[OF that])
qed

lemma pb_start_safe:
  assumes env: "pb_env sys" and "\<forall>a \<in> set argv. \<exists>l. cstr a = Some l" and "length argv \<le> 18"
  shows "safe (pb_start sys argv w) (\<lambda>s. \<exists>F. pb_inv F s)"
  unfolding pb_start_def
proof (intro safe_andthen)
  have "safe (parse_part_labels argv (zero_top w)) (labelled (zero_top w))" unfolding parse_part_labels_def
    by (rule parse_labels_safe) (use assms(2,3) in \<open>auto simp: NUMKEYS_def labels_def zero_top_def dest: in_set_dropD\<close>)
  then show "safe (setup_args sys argv (zero_top w)) (\<lambda>s. \<exists>F. checked F s)" unfolding setup_args_def
    by (auto intro!: safe_andthen[of _ "labelled (zero_top w)"] safe_andthen[OF load_key_data_safe[OF env]] safe_mono[OF validate_parts_safe])
  show "safe (open_sigfd sys s) (\<lambda>s. \<exists>F. checked F s)" if "\<exists>F. checked F s" for s
    using that by (simp add: open_sigfd_def psys_eq case_prod_beta)
  show "safe (alloc_scrypt sys s) (\<lambda>s. \<exists>F. box_inv F s)" if "\<exists>F. checked F s" for s
    using that alloc_scrypt_safe[OF env] by (blast intro: safe_mono)
  show "safe (init_mapper sys s) (\<lambda>s. \<exists>F. box_inv F s)" if "\<exists>F. box_inv F s" for s
    using that init_mapper_safe[OF env] by (blast intro: safe_mono)
  show "safe (start_terminal sys s) (\<lambda>s. \<exists>F. pb_inv F s)" if "\<exists>F. box_inv F s" for s
    using that start_terminal_safe by (blast intro: safe_mono)
qed

section \<open>Reachable states\<close>

lemma pb_reach_inv:
  assumes env: "pb_env sys" and argv: "\<forall>a \<in> set argv. \<exists>l. cstr a = Some l" "length argv \<le> 18" and "pb_reach sys argv w s"
  shows "\<exists>F. pb_inv F s"
  using assms(4)
proof (induction rule: pb_reach.induct)
  case (start s)
  then show ?case using pb_start_safe[OF env argv, of w] by simp
next
  case (step s s')
  then obtain F where "pb_inv F s" by blast
  then have "safe (pb_poll sys s) (pb_inv F)" by (rule pb_poll_safe[OF env])
  then show ?case using step.hyps(2) by auto
qed

section \<open>Typing the passphrase\<close>

text \<open>The prompt shows an input line that holds \<open>t\<close>; the rest of the state is that of \<open>s0\<close>.\<close>

definition prompt :: "byte list \<Rightarrow> 'w pblk \<Rightarrow> byte list \<Rightarrow> 'w pblk \<Rightarrow> bool" where
  "prompt F s0 t s \<longleftrightarrow> pb_inv F s \<and> b_keyst s = IS_REG \<and> b_state s = ST_INPUT \<and> b_plen s = int (length t) \<and> take (length t) (b_pass s) = t \<and>
     b_parts s = b_parts s0 \<and> b_nparts s = b_nparts s0 \<and> b_keysize s = b_keysize s0 \<and> b_keydata s = b_keydata s0 \<and> b_nkeys s = b_nkeys s0"

lemma prompt_w [simp]: "prompt F s0 t (s \<lparr> b_w := w \<rparr>) = prompt F s0 t s"
  by (simp add: prompt_def)

lemma add_char_prompt:
  assumes p: "prompt F s0 t s" and l: "length t < MAXPASS"
  obtains s' where "add_char sys c s = Done s'" and "prompt F s0 (t @ [c]) s'"
proof -
  note d = p[unfolded prompt_def pb_inv_def pass_ok_def]
  have i: "b_plen s = int (length t)" and lp: "length (b_pass s) = MAXPASS" and o: "20 \<le> b_inlen s" "0 \<le> b_psptr s" "b_psptr s = 0 \<or> b_psptr s + 10 \<le> b_plen s"
    and inv: "pb_inv F s" using d p by (auto simp: prompt_def)
  let ?p = "(b_pass s)[length t := c]"
  let ?s = "s \<lparr> b_pass := ?p, b_plen := int (length t) + 1 \<rparr>"
  obtain b q where q: "adjust_input_ptr ?s = (b, ?s \<lparr> b_psptr := q \<rparr>)" "0 \<le> q" "q = 0 \<or> q + 10 \<le> b_plen ?s"
    by (rule adjust_cases[of ?s]) (use i o in auto)
  have "pb_inv F (?s \<lparr> b_psptr := q \<rparr>)" by (rule pb_inv_edit[OF inv]) (use q(2,3) lp l in auto)
  then have pr: "prompt F s0 (t @ [c]) (?s \<lparr> b_psptr := q \<rparr>)" and pk: "pass_ok (?s \<lparr> b_psptr := q \<rparr>)"
    using p l lp by (simp_all add: prompt_def pb_inv_def)
  have w: "wr (b_pass s) (nat (b_plen s)) c = Some ?p" using i l lp by (simp add: wr_def)
  have g: "\<not> b_plen s \<ge> int MAXPASS" "\<not> b_plen s < 0" using i l by auto
  have run: "add_char sys c s = (if b then redraw_input sys (?s \<lparr> b_psptr := q \<rparr>) else show_add_char sys c (?s \<lparr> b_psptr := q \<rparr>))"
    unfolding add_char_def Let_def if_not_P[OF g(1)] if_not_P[OF g(2)] w defined_simps andthen.simps unfolding i q(1) prod.case ..
  obtain w1 where w1: "redraw_input sys (?s \<lparr> b_psptr := q \<rparr>) = Done (?s \<lparr> b_psptr := q, b_w := w1 \<rparr>)" by (rule exE[OF redraws(1)[OF pk, of sys]])
  obtain w2 where w2: "show_add_char sys c (?s \<lparr> b_psptr := q \<rparr>) = Done (?s \<lparr> b_psptr := q, b_w := w2 \<rparr>)" by (rule exE[OF screens(3)[of sys c "?s \<lparr> b_psptr := q \<rparr>"]])
  show ?thesis by (rule that[of "?s \<lparr> b_psptr := q, b_w := (if b then w1 else w2) \<rparr>"]) (use run w1 w2 pr in auto)
qed

definition printable :: "byte \<Rightarrow> bool" where
  "printable c \<longleftrightarrow> 0x20 \<le> c \<and> c < 0x7F"

lemma inchr_printable: "prompt F s0 t s \<Longrightarrow> printable c \<Longrightarrow> handle_inchr sys c s = add_char sys c s"
  by (auto simp: handle_inchr_def handle_reg_key_def prompt_def printable_def word_le_nat_alt)

lemma type_printable:
  "prompt F s0 t s \<Longrightarrow> \<forall>c \<in> set cs. printable c \<Longrightarrow> length t + length cs \<le> MAXPASS \<Longrightarrow>
   \<exists>s'. input_loop sys (cs @ r) s = input_loop sys r s' \<and> prompt F s0 (t @ cs) s'"
proof (induction cs arbitrary: t s)
  case (Cons c cs)
  have "length t < MAXPASS" using Cons.prems(3) by simp
  then obtain s1 where s1: "add_char sys c s = Done s1" "prompt F s0 (t @ [c]) s1" by (rule add_char_prompt[OF Cons.prems(1)])
  have "\<exists>s'. input_loop sys (cs @ r) s1 = input_loop sys r s' \<and> prompt F s0 ((t @ [c]) @ cs) s'" by (rule Cons.IH[OF s1(2)]) (use Cons.prems in auto)
  then show ?case using s1(1) inchr_printable[OF Cons.prems(1), of c sys] Cons.prems(2) by simp
qed auto

text \<open>Clearing the line first makes the outcome independent of what was typed before.\<close>

lemma clear_line:
  assumes "pb_inv F s" and "b_keyst s = IS_REG"
  shows "\<exists>s'. handle_input sys (0x15 # r) s = input_loop sys r s' \<and> prompt F s [] s'"
proof -
  let ?c = "s \<lparr> b_plen := 0, b_psptr := 0, b_state := ST_INPUT \<rparr>"
  have fin: "prompt F s [] (t \<lparr> b_plen := 0, b_psptr := 0, b_w := w \<rparr>)"
    if "pb_inv F t" "b_state t = ST_INPUT" "b_keyst t = IS_REG" "b_parts t = b_parts s" "b_nparts t = b_nparts s" "b_keysize t = b_keysize s"
      "b_keydata t = b_keydata s" "b_nkeys t = b_nkeys s" for t w
    using that by (simp add: prompt_def pb_inv_def pass_ok_def)
  have clear: "\<exists>w. clear_input sys t = Done (t \<lparr> b_plen := 0, b_psptr := 0, b_w := w \<rparr>)" if "pb_inv F t" for t
  proof -
    have "pass_ok (t \<lparr> b_plen := 0, b_psptr := 0 \<rparr>)" using that by (simp add: pb_inv_def pass_ok_def)
    from redraws(1)[OF this, of sys] show ?thesis unfolding clear_input_def by simp
  qed
  have key: "handle_inchr sys 0x15 t = clear_input sys t" if "b_keyst t = IS_REG" "b_state t = ST_INPUT" for t
    using that by (simp add: handle_inchr_def handle_reg_key_def)
  show ?thesis
  proof (cases "b_state s = ST_INVALID")
    case True
    obtain w where w: "reset_input sys s = Done (?c \<lparr> b_w := w \<rparr>)" by (rule exE[OF input_resets(3)[OF assms(1), of sys]])
    have i: "pb_inv F (?c \<lparr> b_w := w \<rparr>)" by (rule input_resets(4)[OF assms(1)])
    obtain w' where w': "clear_input sys (?c \<lparr> b_w := w \<rparr>) = Done (?c \<lparr> b_w := w, b_plen := 0, b_psptr := 0, b_w := w' \<rparr>)" by (rule exE[OF clear[OF i]])
    have "handle_input sys (0x15 # r) s = input_loop sys r (?c \<lparr> b_w := w, b_plen := 0, b_psptr := 0, b_w := w' \<rparr>)"
      unfolding handle_input_def if_P[OF True] w andthen.simps input_loop.simps key[of "?c \<lparr> b_w := w \<rparr>", simplified, OF assms(2)] w' ..
    moreover have "prompt F s [] (?c \<lparr> b_w := w, b_plen := 0, b_psptr := 0, b_w := w' \<rparr>)" by (rule fin[OF i]) (simp_all add: assms(2))
    ultimately show ?thesis by blast
  next
    case False
    then have st: "b_state s = ST_INPUT" using assms(1) by (simp add: pb_inv_def)
    obtain w' where w': "clear_input sys s = Done (s \<lparr> b_plen := 0, b_psptr := 0, b_w := w' \<rparr>)" by (rule exE[OF clear[OF assms(1)]])
    have "handle_input sys (0x15 # r) s = input_loop sys r (s \<lparr> b_plen := 0, b_psptr := 0, b_w := w' \<rparr>)"
      unfolding handle_input_def if_not_P[OF False] andthen.simps input_loop.simps key[OF assms(2) st] w' ..
    then show ?thesis using fin[OF assms(1) st assms(2), of w'] by blast
  qed
qed

section \<open>Unlocking\<close>

lemma enter_right:
  assumes p: "prompt F s0 P s" and "P \<noteq> []" and "F = sealed P salt (testpad @ keys)" and "length salt = SALTLEN"
  shows "\<exists>s1. handle_inchr sys 0x0D s = andthen (terminate_input sys s1) (\<lambda>s. andthen (decrypt_parts sys s) (\<lambda>s. Exit 0 s)) \<and>
    take (length F) (b_keydata s1) = salt @ testpad @ keys \<and> b_parts s1 = b_parts s0 \<and> b_nparts s1 = b_nparts s0"
proof -
  note i = p[unfolded prompt_def pb_inv_def]
  have key: "handle_inchr sys 0x0D s = enter_pass sys s" using i by (simp add: handle_inchr_def handle_reg_key_def)
  obtain w where w: "redraw_dialog sys ST_HASHING (s \<lparr> b_showpass := False \<rparr>) = Done (s \<lparr> b_showpass := False, b_state := ST_HASHING, b_w := w \<rparr>)"
    by (rule exE[OF redraws(3)[of "s \<lparr> b_showpass := False \<rparr>" sys ST_HASHING]]) (use i in simp_all)
  let ?s = "s \<lparr> b_showpass := False, b_state := ST_HASHING, b_w := w \<rparr>"
  have lt: "length testpad = 8" by (simp add: testpad_def)
  then have "8 \<le> length (testpad @ keys)" by simp
  then obtain W where W: "sealed P salt (testpad @ keys) = salt @ W" "length W = length (testpad @ keys)"
    "\<forall>r. aes128_wrap (kek_of P salt) ((testpad @ keys) @ r) (length (testpad @ keys)) = Some (W @ r)"
    "\<forall>r. aes128_unwrap (kek_of P salt) (W @ r) (length (testpad @ keys)) = Some ((testpad @ keys) @ r)" by (rule sealedE)
  have k: "take (b_keysize s) (b_keydata s) = F" "length F = b_keysize s" using i by (auto simp: keys_intact_def)
  have kd: "b_keydata s = salt @ W @ drop (b_keysize s) (b_keydata s)" using k(1) append_take_drop_id[of "b_keysize s" "b_keydata s"] assms(3) W(1) by simp
  have dr: "drop SALTLEN (b_keydata s) = W @ drop (b_keysize s) (b_keydata s)" by (subst kd) (simp add: assms(4))
  have sz: "b_keysize s - SALTLEN = length (testpad @ keys)" using k(2) assms(3,4) W(1,2) by simp
  have P: "take (nat (b_plen ?s)) (b_pass ?s) = P" using i by simp
  have S: "take SALTLEN F = salt" using assms(3,4) W(1) by simp
  have run: "\<exists>sc. unwrap_keydata ?s = Done (0, ?s \<lparr> b_sc := sc, b_keydata := salt @ testpad @ keys @ drop (b_keysize s) (b_keydata s) \<rparr>)"
  proof (rule unwrap_keydata_cases[of ?s F])
    fix ret sc data
    assume u: "unwrap_keydata ?s = Done (ret, ?s \<lparr> b_sc := sc, b_keydata := data \<rparr>)"
      and d: "\<exists>d. aes128_unwrap (kek_of (take (nat (b_plen ?s)) (b_pass ?s)) (take SALTLEN F)) (drop SALTLEN (b_keydata ?s)) (b_keysize ?s - SALTLEN) = Some d \<and>
        (ret = 0 \<longleftrightarrow> take 8 d = testpad) \<and> (ret = 0 \<longrightarrow> data = take SALTLEN (b_keydata ?s) @ d)"
    have "aes128_unwrap (kek_of P salt) (drop SALTLEN (b_keydata s)) (b_keysize s - SALTLEN) = Some (testpad @ keys @ drop (b_keysize s) (b_keydata s))"
      unfolding dr sz using W(4) by simp
    then have "ret = 0" "data = take SALTLEN (b_keydata s) @ testpad @ keys @ drop (b_keysize s) (b_keydata s)" using d P S lt by auto
    moreover have "take SALTLEN (b_keydata s) = salt" by (subst kd) (simp add: assms(4))
    ultimately show ?thesis using u by auto
  qed (use i in simp_all)
  then obtain sc where sc: "unwrap_keydata ?s = Done (0, ?s \<lparr> b_sc := sc, b_keydata := salt @ testpad @ keys @ drop (b_keysize s) (b_keydata s) \<rparr>)" by blast
  have "b_plen s \<noteq> 0" using i assms(2) by simp
  then have "handle_inchr sys 0x0D s = andthen (terminate_input sys (?s \<lparr> b_sc := sc, b_keydata := salt @ testpad @ keys @ drop (b_keysize s) (b_keydata s) \<rparr>))
      (\<lambda>s. andthen (decrypt_parts sys s) (\<lambda>s. Exit 0 s))"
    unfolding key enter_pass_def w andthen.simps sc prod.case by simp
  moreover have "take (length F) (salt @ testpad @ keys @ drop (b_keysize s) (b_keydata s)) = salt @ testpad @ keys" using k(2) sz W(1,2) assms(3,4) lt by simp
  ultimately show ?thesis using i
    by (intro exI[of _ "?s \<lparr> b_sc := sc, b_keydata := salt @ testpad @ keys @ drop (b_keysize s) (b_keydata s) \<rparr>"]) simp
qed

lemma unlocks:
  assumes inv: "pb_inv F s" and "b_keyst s = IS_REG" and P: "P \<noteq> []" "length P \<le> MAXPASS" "\<forall>c \<in> set P. printable c"
    and F: "F = sealed P salt (testpad @ keys)" "length salt = SALTLEN"
  shows "\<exists>s1. handle_input sys (0x15 # P @ [0x0D]) s = andthen (terminate_input sys s1) (\<lambda>s. andthen (decrypt_parts sys s) (\<lambda>s. Exit 0 s)) \<and>
    take (length F) (b_keydata s1) = salt @ testpad @ keys \<and> b_parts s1 = b_parts s \<and> b_nparts s1 = b_nparts s"
proof -
  obtain s1 where s1: "handle_input sys (0x15 # P @ [0x0D]) s = input_loop sys (P @ [0x0D]) s1" "prompt F s [] s1" using clear_line[OF inv assms(2)] by blast
  obtain s2 where s2: "input_loop sys (P @ [0x0D]) s1 = input_loop sys [0x0D] s2" "prompt F s P s2" using type_printable[OF s1(2) P(3), of sys "[0x0D]"] P(2) by (auto simp del: input_loop.simps)
  obtain s3 where s3: "handle_inchr sys 0x0D s2 = andthen (terminate_input sys s3) (\<lambda>s. andthen (decrypt_parts sys s) (\<lambda>s. Exit 0 s))"
    "take (length F) (b_keydata s3) = salt @ testpad @ keys" "b_parts s3 = b_parts s" "b_nparts s3 = b_nparts s" using enter_right[OF s2(2) P(1) F] by blast
  have "input_loop sys [0x0D] s2 = andthen (terminate_input sys s3) (\<lambda>s. andthen (decrypt_parts sys s) (\<lambda>s. Exit 0 s))"
    unfolding input_loop.simps s3(1) andthen_assoc by simp
  then show ?thesis using s1(1) s2(1) s3(2-4) by auto
qed

section \<open>Labels\<close>

text \<open>A label that is neither a dash nor starts with a key index.\<close>

definition plain :: "byte list \<Rightarrow> bool" where
  "plain a \<longleftrightarrow> (\<exists>c l. a = c # l @ [0] \<and> c \<noteq> 0 \<and> 0 \<notin> set l \<and> c \<noteq> ch CHR ''-'' \<and> dig10 c = None)"

lemma parse_labels_plain:
  assumes "plain a"
  shows "parse_labels (a # args) n ki s =
    (if ki > int NUMKEYS then Fail ''key index out of range:'' s else if n > NUMKEYS then Fail ''too many partitions'' s
     else if n \<ge> length (b_parts s) then Undef
     else parse_labels args (n + 1) ki (s \<lparr> b_parts := (b_parts s)[n := (b_parts s ! n) \<lparr> pt_keyidx := ki, pt_label := a \<rparr>] \<rparr>))"
proof -
  obtain c l where a: "a = c # l @ [0]" "c \<noteq> 0" "c \<noteq> ch CHR ''-''" "dig10 c = None" using assms by (auto simp: plain_def)
  then have "parseint a = Some None" by (simp add: parseint_def parse_number_def)
  then show ?thesis using a by (simp add: rd_def)
qed

lemma parse_labels_overrun:
  "\<forall>a \<in> set args. plain a \<Longrightarrow> n \<le> NUMKEYS \<Longrightarrow> NUMKEYS < n + length args \<Longrightarrow> ki \<le> int NUMKEYS \<Longrightarrow> length (b_parts s) = NUMKEYS \<Longrightarrow>
   parse_labels args n ki s = Undef"
proof (induction args arbitrary: n s)
  case (Cons a args)
  show ?case
  proof (cases "n = NUMKEYS")
    case False
    let ?s = "s \<lparr> b_parts := (b_parts s)[n := (b_parts s ! n) \<lparr> pt_keyidx := ki, pt_label := a \<rparr>] \<rparr>"
    have "parse_labels args (n + 1) ki ?s = Undef" by (rule Cons.IH) (use Cons.prems False in auto)
    then show ?thesis using Cons.prems False parse_labels_plain[of a args n ki s] by (simp del: parse_labels.simps)
  qed (use Cons.prems parse_labels_plain[of a args n ki s] in \<open>simp del: parse_labels.simps\<close>)
qed simp

lemma parse_labels_first:
  "\<forall>a \<in> set args. plain a \<Longrightarrow> n + length args \<le> NUMKEYS \<Longrightarrow> length (b_parts s) = NUMKEYS \<Longrightarrow>
   \<exists>s'. parse_labels args n 0 s = Done s' \<and> b_nparts s' = n + length args \<and> length (b_parts s') = NUMKEYS \<and>
     (\<forall>i < n. b_parts s' ! i = b_parts s ! i) \<and>
     (\<forall>i < length args. pt_label (b_parts s' ! (n + i)) = args ! i \<and> pt_keyidx (b_parts s' ! (n + i)) = 0)"
proof (induction args arbitrary: n s)
  case (Cons a args)
  let ?s = "s \<lparr> b_parts := (b_parts s)[n := (b_parts s ! n) \<lparr> pt_keyidx := 0, pt_label := a \<rparr>] \<rparr>"
  have "\<exists>s'. parse_labels args (n + 1) 0 ?s = Done s' \<and> b_nparts s' = n + 1 + length args \<and> length (b_parts s') = NUMKEYS \<and>
     (\<forall>i < n + 1. b_parts s' ! i = b_parts ?s ! i) \<and>
     (\<forall>i < length args. pt_label (b_parts s' ! (n + 1 + i)) = args ! i \<and> pt_keyidx (b_parts s' ! (n + 1 + i)) = 0)"
    by (rule Cons.IH) (use Cons.prems in auto)
  then obtain s' where s': "parse_labels args (n + 1) 0 ?s = Done s'" "b_nparts s' = n + 1 + length args" "length (b_parts s') = NUMKEYS"
     "\<forall>i < n + 1. b_parts s' ! i = b_parts ?s ! i"
     "\<forall>i < length args. pt_label (b_parts s' ! (n + 1 + i)) = args ! i \<and> pt_keyidx (b_parts s' ! (n + 1 + i)) = 0" by blast
  have "b_parts s' ! n = (b_parts s ! n) \<lparr> pt_keyidx := 0, pt_label := a \<rparr>" using s'(4) Cons.prems(2,3) by simp
  then have "pt_label (b_parts s' ! (n + i)) = (a # args) ! i \<and> pt_keyidx (b_parts s' ! (n + i)) = 0" if "i < length (a # args)" for i
    using s'(5) that by (cases i) auto
  moreover have "parse_labels (a # args) n 0 s = Done s'" using Cons.prems parse_labels_plain[of a args n 0 s] s'(1) by (simp del: parse_labels.simps)
  moreover have "\<forall>i < n. b_parts s' ! i = b_parts s ! i" using s'(4) by simp
  ultimately show ?case using s'(2,3) by auto
qed auto

section \<open>A system on which every call succeeds\<close>

text \<open>The user types \<open>P\<close>, the keyfile holds \<open>F\<close>, and the world is what was written to descriptor 3.\<close>

definition gsys :: "byte list \<Rightarrow> byte list \<Rightarrow> byte list dsys" where
  "gsys P F = \<lparr> sys_write = (\<lambda>fd bs w. (int (length bs), if fd = 3 then w @ bs else w)),
     sys_read = (\<lambda>fd n w. let d = (if fd = 0 then P @ [10] else F) in if length d \<le> n then ((int (length d), d), w) else ((- 1, []), w)),
     sys_open = (\<lambda>_ _ _ w. (3, w)), sys_close = (\<lambda>_ w. w), sys_fstat = (\<lambda>_ w. ((0, 0, 0), w)), sys_stat = (\<lambda>_ w. (- 2, w)),
     sys_mmap = (\<lambda>n w. (Inr (replicate (unat n) 0), w)), sys_getrandom = (\<lambda>n w. ((int n, replicate n 0), w)),
     tcgets = (\<lambda>w. ((0, \<lparr> iflag = 0, oflag = 0, cflag = 0, lflag = 0, tcc = [] \<rparr>), w)), tcsets = (\<lambda>_ w. (0, w)), winsize = (\<lambda>w. ((0, 25, 80), w)),
     blkgetsize = (\<lambda>_ w. ((0, 1024), w)), dm_ioctl = (\<lambda>_ _ m w. ((0, m), w)), sys_unlink = (\<lambda>_ w. w), sys_symlink = (\<lambda>_ _ w. (0, w)),
     sys_sigread = (\<lambda>_ w. ((1, 28), w)), sys_ppoll = (\<lambda>_ w. ((1, False, True, (0, 0)), w)), sys_signalfd = (\<lambda>w. (4, w)), sys_sigprocmask = (\<lambda>w. (0, w)) \<rparr>"

lemma gsys_pb_env: "pb_env (gsys P F)"
  by (auto simp: pb_env_def mmap_ok_def gsys_def Let_def split: if_splits)

lemma gsys_dek_env: "length P < 79 \<Longrightarrow> dek_env (gsys P F) P (\<lambda>n. replicate n 0) 3 id"
  by (auto simp: dek_env_def mmap_ok_def writes_ok_def gsys_def Let_def)

definition ends :: "('s, 'a) outcome \<Rightarrow> ('a \<Rightarrow> bool) \<Rightarrow> bool" where
  "ends m Q \<longleftrightarrow> (\<exists>a. m = Done a \<and> Q a)"

lemma ends_andthen: "ends m Q \<Longrightarrow> (\<And>a. Q a \<Longrightarrow> ends (f a) R) \<Longrightarrow> ends (andthen m f) R"
  by (auto simp: ends_def)

lemma ends_Done [simp]: "ends (Done a) Q = Q a"
  by (simp add: ends_def)

text \<open>What the start of the prompt leaves alone once the file is read.\<close>

definition started :: "byte list \<Rightarrow> 'w pblk \<Rightarrow> bool" where
  "started F s \<longleftrightarrow> b_keyst s = IS_REG \<and> b_keysize s = length F \<and> length (b_keydata s) = FILEBUF \<and> length (b_keycopy s) = FILEBUF \<and> take (length F) (b_keydata s) = F \<and> length (b_pass s) = MAXPASS \<and>
     b_plen s = 0 \<and> b_psptr s = 0"

lemma started_upd [simp]: "started F (s \<lparr> b_w := w \<rparr>) = started F s" "started F (s \<lparr> b_parts := ps \<rparr>) = started F s" "started F (s \<lparr> b_sigfd := fd \<rparr>) = started F s"
  "started F (s \<lparr> b_mapfd := fd \<rparr>) = started F s" "started F (s \<lparr> b_sc := sc \<rparr>) = started F s" "started F (s \<lparr> b_tio := t \<rparr>) = started F s"
  "started F (s \<lparr> b_termactive := t1 \<rparr>) = started F s" "started F (s \<lparr> b_rows := r \<rparr>) = started F s" "started F (s \<lparr> b_cols := r \<rparr>) = started F s"
  "started F (s \<lparr> b_inlen := r \<rparr>) = started F s" "started F (s \<lparr> b_incol := r \<rparr>) = started F s" "started F (s \<lparr> b_inrow := r \<rparr>) = started F s"
  by (simp_all add: started_def)

definition argv0 :: "byte list list" where
  "argv0 = [[112, 0], [107, 0], [97, 0]]"

lemma gsys_stat_part:
  assumes "started F s" and "pt_label (b_parts s ! i) = n" and "cstr n = Some l" and "length l < 80"
  shows "ends (stat_part_node (gsys P F) i s) (started F)"
proof -
  obtain a where "fmt_path 100 (fseq (fmtstr (Some (bstr ''/dev/mapper/'' @ [0]))) (fmtstr (Some n))) = (Done a :: (byte list pblk, _) outcome)"
    using fmt_path_ok[OF isfmt_mapper_path[of n l]] assms(3) by auto
  then show ?thesis using assms(1) by (simp add: stat_part_node_def assms(2) psys_eq gsys_def)
qed

lemma gsys_setup:
  assumes "length F = 48"
  shows "ends (setup_args (gsys P F) argv0 (zero_top w)) (started F)"
proof -
  let ?s1 = "zero_top w \<lparr> b_parts := (replicate NUMKEYS zero_part)[0 := zero_part \<lparr> pt_keyidx := 0, pt_label := [97, 0] \<rparr>], b_nparts := 1 \<rparr>"
  have 1: "parse_part_labels argv0 (zero_top w) = Done ?s1"
    by (simp add: parse_part_labels_def argv0_def zero_top_def rd_def ch_def parseint_def parse_number_def dig10_def NUMKEYS_def)
  let ?s2 = "?s1 \<lparr> b_keydata := F @ drop (length F) (replicate FILEBUF 0), b_nkeys := 1, b_keysize := 48, b_keyfile := [107, 0] \<rparr>"
  have w: "wrs (replicate FILEBUF 0) 0 F = Some (F @ drop (length F) (replicate FILEBUF 0))" using assms by (simp add: wrs_def FILEBUF_def)
  have 2: "load_key_data (gsys P F) (argv0 ! 1) ?s1 = Done ?s2"
    using assms w unfolding load_key_data_def psys_eq gsys_def argv0_def by (simp add: zero_top_def FILEBUF_def MAXFILE_def HDRSIZE_def KEYSIZE_def Let_def)
  have s2: "started F ?s2" using assms by (simp add: started_def zero_top_def FILEBUF_def)
  have p0: "b_parts ?s2 ! 0 = zero_part \<lparr> pt_keyidx := 0, pt_label := [97, 0] \<rparr>" by (simp add: NUMKEYS_def)
  have st: "ends (stat_part_node (gsys P F) 0 ?s2) (started F)" by (rule gsys_stat_part[OF s2, of 0 "[97, 0]" "[97]"]) (simp_all add: NUMKEYS_def)
  have 3: "ends (validate_parts (gsys P F) ?s2) (started F)"
    using st p0 by (auto simp: validate_parts_def ends_def)
  show ?thesis unfolding setup_args_def 1 andthen.simps 2 using 3 by (simp add: argv0_def)
qed

lemma gsys_start:
  assumes "length F = 48"
  shows "ends (pb_start (gsys P F) argv0 w) (started F)"
  unfolding pb_start_def
proof (intro ends_andthen)
  show "ends (setup_args (gsys P F) argv0 (zero_top w)) (started F)" by (rule gsys_setup[OF assms])
  show "ends (open_sigfd (gsys P F) s) (started F)" if "started F s" for s using that by (simp add: open_sigfd_def psys_eq gsys_def)
  show "ends (alloc_scrypt (gsys P F) s) (started F)" if s: "started F s" for s
  proof -
    obtain sc where sc: "scrypt_init SCRYPT_N SCRYPT_R SCRYPT_P = (of_nat NEED, sc)" by (rule scrypt_init_dcrypt)
    have "rds (b_keydata s) 0 (b_keysize s) = Some F" "wrs (b_keycopy s) 0 F = Some (F @ drop (length F) (b_keycopy s))"
      using s assms by (auto simp: started_def rds_def wrs_def FILEBUF_def)
    moreover have "started F (s \<lparr> b_keycopy := F @ drop (length F) (b_keycopy s) \<rparr>)" using s assms by (simp add: started_def FILEBUF_def)
    ultimately show ?thesis unfolding alloc_scrypt_def psys_eq gsys_def sc by (simp add: started_def)
  qed
  show "ends (init_mapper (gsys P F) s) (started F)" if "started F s" for s
    using that by (simp add: init_mapper_def psys_eq gsys_def dm_request_def rd32_def rds_def DM_VERSION_MAJOR_def)
  show "ends (start_terminal (gsys P F) s) (started F)" if s: "started F s" for s
    unfolding start_terminal_def
  proof (intro ends_andthen)
    show "ends (apply_termio_flags (gsys P F) s) (started F)" using s by (simp add: apply_termio_flags_def psys_eq gsys_def)
    show "ends (update_term_size (gsys P F) s) (\<lambda>s. started F s \<and> b_inlen s = 40)" if "started F s" for s
      using that by (simp add: update_term_size_def psys_eq gsys_def update_box_position_def Let_def)
    show "ends (clear_screen_init (gsys P F) s) (\<lambda>s. started F s \<and> b_inlen s = 40)" if "started F s \<and> b_inlen s = 40" for s
      by (rule exE[OF screens(1)[of "gsys P F" s]]) (use that in simp)
    show "ends (refresh_screen (gsys P F) s) (started F)" if "started F s \<and> b_inlen s = 40" for s
    proof -
      have "pass_ok s" using that by (simp add: started_def pass_ok_def)
      then show ?thesis by (rule exE[OF redraws(2)[of s "gsys P F"]]) (use that in simp)
    qed
  qed
qed

lemma gsys_reach: "length F = 48 \<Longrightarrow> \<exists>s. pb_reach (gsys P F) argv0 w s \<and> started F s"
  using gsys_start[of F P w] by (auto simp: ends_def intro: pb_reach.start)

definition ctx0 :: dektop where
  "ctx0 = \<lparr> t_opts = 0, t_argi = 0, t_argv = [], t_kf = \<lparr> kf_len = 0, kf_kek = replicate 16 0, kf_buf = replicate 1024 0 \<rparr> \<rparr>"

definition pass0 :: "byte list" where
  "pass0 = [112, 97, 115, 115]"

lemma gsys_create:
  "\<exists>ctx' w1. create_keyfile (gsys pass0 []) (replicate 80 0) ctx0 (Some ([107] @ [0])) 1 0 [] = Done (ctx', w1) \<and> length w1 = 48"
proof -
  let ?R = "replicate (16 + 32 * nat 1) (0 :: byte)"
  obtain ctx' w1 where "create_keyfile (gsys pass0 []) (replicate 80 0) ctx0 (Some ([107] @ [0])) 1 0 [] = Done (ctx', w1)" "id w1 = id [] @ sealed pass0 (take 8 ?R) (testpad @ drop 16 ?R)"
    using create_keyfile_ok[OF gsys_dek_env[of pass0 "[]"], of "replicate 80 0" "[107]" ctx0 1 0 "[]"] by (auto simp: pass0_def ctx0_def)
  then show ?thesis by (simp add: length_sealed testpad_def)
qed

text \<open>A mapper that keeps the request it is given, and one partition with the second of two keys.\<close>

definition msys :: "byte list dsys" where
  "msys = gsys pass0 [] \<lparr> dm_ioctl := \<lambda>_ _ m w. ((0, m), w @ m) \<rparr>"

definition table0 :: "byte list pblk" where
  "table0 = zero_top [] \<lparr> b_parts := (replicate NUMKEYS zero_part)[0 := zero_part \<lparr> pt_keyidx := 1, pt_label := [97, 0], pt_size := 1024, pt_rdev := 0x803 \<rparr>], b_nparts := 1,
     b_nkeys := 2, b_keysize := 80 \<rparr>"

section \<open>Properties\<close>

text \<open>
  C7.  The prompt is safe in every state it can reach, whatever is typed and whatever the system calls return, as long as the kernel
  keeps to the sizes it reports and the command line names at most 16 partitions: neither starting up nor handling the next event
  leaves a buffer, the passphrase stays in its 128 bytes, the part of it that is shown lies inside it, and however many passphrases
  were wrong, the wrapped keys are still the ones that were read.
\<close>

theorem passblk_safe:
  assumes "pb_env sys" and "\<forall>a \<in> set argv. \<exists>l. cstr a = Some l" and "length argv \<le> 18" and "pb_reach sys argv w s"
  shows "pb_start sys argv w \<noteq> Undef \<and> pb_poll sys s \<noteq> Undef \<and> 0 \<le> b_plen s \<and> b_plen s \<le> int MAXPASS \<and> 0 \<le> b_psptr s \<and> b_psptr s \<le> b_plen s \<and>
    take (b_keysize s) (b_keydata s) = take (b_keysize s) (b_keycopy s)"
proof -
  obtain F where F: "pb_inv F s" using pb_reach_inv[OF assms] by blast
  then show ?thesis using safe_not_Undef[OF pb_start_safe[OF assms(1-3)]] safe_not_Undef[OF pb_poll_safe[OF assms(1) F]]
    by (auto simp: pb_inv_def pass_ok_def keys_intact_def)
qed

theorem passblk_safe_witness:
  "\<exists>s. pb_reach (gsys pass0 (replicate 48 0)) argv0 [] s \<and> pb_start (gsys pass0 (replicate 48 0)) argv0 [] \<noteq> Undef \<and>
    pb_poll (gsys pass0 (replicate 48 0)) s \<noteq> Undef \<and> b_plen s \<le> int MAXPASS"
proof -
  obtain s where s: "pb_reach (gsys pass0 (replicate 48 0)) argv0 [] s" using gsys_reach[of "replicate 48 0" pass0 "[]"] by auto
  have "\<forall>a \<in> set argv0. \<exists>l. cstr a = Some l" "length argv0 \<le> 18" by (auto simp: argv0_def)
  then show ?thesis using passblk_safe[OF gsys_pb_env _ _ s] s by blast
qed





text \<open>
  C38.  The check for too many partitions comes one too late: with 17 or more plain labels on the command line, a partition is stored
  past the end of the array of 16, whatever the keyfile holds.
\<close>

theorem passblk_labels_overrun:
  assumes "\<forall>a \<in> set (drop 2 argv). plain a" and "19 \<le> length argv"
  shows "pb_start sys argv w = Undef"
proof -
  have "parse_part_labels argv (zero_top w) = Undef"
    unfolding parse_part_labels_def by (rule parse_labels_overrun) (use assms in \<open>auto simp: zero_top_def NUMKEYS_def\<close>)
  then show ?thesis using assms(2) by (simp add: pb_start_def setup_args_def)
qed

theorem passblk_labels_overrun_witness:
  "pb_start (gsys pass0 []) ([112, 0] # [107, 0] # replicate 17 [97, 0]) [] = Undef"
  by (rule passblk_labels_overrun) (auto simp: plain_def ch_def dig10_def)

text \<open>
  C39.  Labels given without an index all use the first key of the keyfile: the index is only ever advanced by a lone dash, so the
  second label of \<open>passblk keyfile root home\<close> is decrypted with the key of the first.
\<close>

theorem passblk_labels_share_key:
  assumes "\<forall>a \<in> set (drop 2 argv). plain a" and "length argv \<le> 18" and "2 \<le> length argv"
  shows "\<exists>s. parse_part_labels argv (zero_top w) = Done s \<and> b_nparts s = length argv - 2 \<and>
    (\<forall>i < b_nparts s. pt_label (b_parts s ! i) = argv ! (i + 2) \<and> pt_keyidx (b_parts s ! i) = 0)"
proof -
  have "0 + length (drop 2 argv) \<le> NUMKEYS" "length (b_parts (zero_top w)) = NUMKEYS" using assms(2) by (auto simp: zero_top_def NUMKEYS_def)
  from parse_labels_first[OF assms(1) this] show ?thesis using assms(3) by (auto simp: parse_part_labels_def add.commute)
qed

theorem passblk_labels_share_key_witness:
  "\<exists>s. parse_part_labels [[112, 0], [107, 0], [97, 0], [98, 0]] (zero_top ()) = Done s \<and> b_nparts s = 2 \<and> pt_keyidx (b_parts s ! 1) = 0"
proof -
  have "\<forall>a \<in> set (drop 2 [[112, 0], [107, 0], [97, 0], [98, 0]]). plain a" by (auto simp: plain_def ch_def dig10_def)
  from passblk_labels_share_key[OF this, of "()"] show ?thesis by force
qed

end
