(* ===== verification/Deitool.thy ===== *)
theory Deitool
  imports Keyfile
begin

text \<open>
  The disk image encryption tool \<^verbatim>\<open>src/dcrypt/deitool.c\<close>: XTS over AES-128, sector by sector, in one process or in one per CPU.

  The state of a process is \<open>deitop\<close> (its \<open>struct top\<close>) and the two sector buffers.  After a fork the children run in any order: a
  child is the state of its loop, and the relation \<open>mstep\<close> lets the parent or any child make its next system call.  The descriptors and
  the files behind them are in the world that the system calls act on.
\<close>

section \<open>Data\<close>

definition OPT_d :: u32 where "OPT_d = 1"
definition OPT_s :: u32 where "OPT_s = 2"

record deitop =
  dt_argi :: nat
  dt_argv :: "byte list list"
  dt_opts :: u32
  dt_ifd :: int
  dt_ofd :: int
  dt_iname :: "byte list"
  dt_oname :: "byte list"
  dt_K1 :: aes128
  dt_K2 :: aes128
  dt_ncpus :: int
  dt_size :: u64

text \<open>
  The system calls besides those of \<open>dsys\<close>.  \<open>x_fork\<close> gives what the parent sees, \<open>x_waitpid\<close> only whether the call fails: which child
  it returns is up to the order in which they end.
\<close>

record 'w xsys =
  x_sys :: "'w dsys"
  x_pread :: "int \<Rightarrow> nat \<Rightarrow> u64 \<Rightarrow> 'w \<Rightarrow> (int \<times> byte list) \<times> 'w"
  x_pwrite :: "int \<Rightarrow> byte list \<Rightarrow> u64 \<Rightarrow> 'w \<Rightarrow> int \<times> 'w"
  x_ftruncate :: "int \<Rightarrow> int \<Rightarrow> 'w \<Rightarrow> int \<times> 'w"
  x_fork :: "'w \<Rightarrow> int \<times> 'w"
  x_waitpid :: "'w \<Rightarrow> int \<times> 'w"
  x_getaffinity :: "'w \<Rightarrow> (int \<times> u64 list) \<times> 'w"

type_synonym aesfn = "aes128 \<Rightarrow> byte list \<Rightarrow> aes128 \<times> byte list"
type_synonym cryptf = "deitop \<Rightarrow> mem \<Rightarrow> mem \<Rightarrow> u64 \<Rightarrow> (deitop \<times> mem) option"

section \<open>XTS\<close>

primrec store_sector :: "nat \<Rightarrow> u64 \<Rightarrow> byte list" where
  "store_sector 0 S = []"
| "store_sector (Suc n) S = ucast (S AND 0xFF) # store_sector n (drop_bit 8 S)"

definition prep_tweak :: "aes128 \<Rightarrow> u64 \<Rightarrow> aes128 \<times> byte list" where
  "prep_tweak A S = aes128_encrypt A (store_sector 16 S)"

text \<open>The loop over the bytes of the tweak, with the carry.\<close>

fun tweak_loop :: "byte list \<Rightarrow> byte \<Rightarrow> byte list \<times> byte" where
  "tweak_loop [] c = ([], c)"
| "tweak_loop (ti # T) c =
     (let (T, c') = tweak_loop T (drop_bit 7 ti AND 1) in ((push_bit 1 ti + c) # T, c'))"

definition next_tweak :: "byte list \<Rightarrow> byte list" where
  "next_tweak T = (let (T, c) = tweak_loop T 0 in if c \<noteq> 0 then T[0 := T ! 0 XOR 0x87] else T)"

text \<open>\<open>blk_xor\<close> stores at \<open>xo\<close> of \<open>x\<close> the sum of the block at \<open>ao\<close> of \<open>a\<close> and \<open>b\<close>, four bytes at a time.\<close>

definition xor_word :: "nat \<Rightarrow> mem \<Rightarrow> nat \<Rightarrow> mem \<Rightarrow> nat \<Rightarrow> mem \<Rightarrow> mem option" where
  "xor_word k x xo a ao b = do { u \<leftarrow> rd32 a (ao + 4 * k); v \<leftarrow> rd32 b (4 * k); wr32 x (xo + 4 * k) (u XOR v) }"

definition blk_xor :: "mem \<Rightarrow> nat \<Rightarrow> mem \<Rightarrow> nat \<Rightarrow> mem \<Rightarrow> mem option" where
  "blk_xor x xo a ao b = do {
     x \<leftarrow> xor_word 0 x xo a ao b; x \<leftarrow> xor_word 1 x xo a ao b; x \<leftarrow> xor_word 2 x xo a ao b; xor_word 3 x xo a ao b }"

definition xts_step :: "aesfn \<Rightarrow> mem \<Rightarrow> nat \<Rightarrow> aes128 \<times> byte list \<times> mem \<times> mem \<Rightarrow> (aes128 \<times> byte list \<times> mem \<times> mem) option" where
  "xts_step cr rp i = (\<lambda>(K1, T, x, wp). do {
     x \<leftarrow> blk_xor x 0 rp i T;
     let (K1, x) = cr K1 x;
     wp \<leftarrow> blk_xor wp i x 0 T;
     Some (K1, next_tweak T, x, wp) })"

definition aesxts :: "aesfn \<Rightarrow> cryptf" where
  "aesxts cr ctx rp wp S = (let (K2, T) = prep_tweak (dt_K2 ctx) S in do {
     (K1, T, x, wp) \<leftarrow> steps (xts_step cr rp) (map ((*) 16) [0..<32]) (dt_K1 ctx, T, replicate 16 0, wp);
     Some (ctx \<lparr> dt_K1 := K1, dt_K2 := K2 \<rparr>, wp) })"

definition aesxts_encrypt :: cryptf where
  "aesxts_encrypt ctx rp wp S = aesxts aes128_encrypt ctx rp wp S"

definition aesxts_decrypt :: cryptf where
  "aesxts_decrypt ctx rp wp S = aesxts aes128_decrypt ctx rp wp S"

section \<open>One process\<close>

record 'w pipe =
  p_ctx :: deitop
  p_ibuf :: mem
  p_obuf :: mem
  p_w :: 'w

text \<open>The loop reads to the end of the file: it may not end, which is \<open>None\<close>.\<close>

partial_function (option) single_loop :: "'w xsys \<Rightarrow> cryptf \<Rightarrow> u64 \<Rightarrow> 'w pipe \<Rightarrow> ('w, 'w pipe) outcome option" where
  "single_loop sys fn S p =
     (let ctx = p_ctx p; ((rd, data), w) = sys_read (x_sys sys) (dt_ifd ctx) 512 (p_w p) in
      if \<not> rd > 0 then Some (Done (p \<lparr> p_w := w \<rparr>))
      else case wrs (p_ibuf p) 0 data of None \<Rightarrow> Some Undef | Some ibuf \<Rightarrow>
      if rd < 512 then Some (Fail ''incomplete read'' w)
      else case fn ctx ibuf (p_obuf p) S of None \<Rightarrow> Some Undef | Some (ctx', obuf) \<Rightarrow>
      let (wr, w) = writeall (sys_write (x_sys sys)) (dt_ofd ctx) (take 512 obuf) w in
      if wr < 0 then Some (Fail ''write'' w)
      else single_loop sys fn (S + 1) \<lparr> p_ctx = ctx', p_ibuf = ibuf, p_obuf = obuf, p_w = w \<rparr>)"

definition pipe_data_single :: "'w xsys \<Rightarrow> cryptf \<Rightarrow> 'w pipe \<Rightarrow> ('w, 'w pipe) outcome option" where
  "pipe_data_single sys fn p = single_loop sys fn 0 p"

section \<open>One process per CPU\<close>

text \<open>A child is at the head of its loop, about to write the sector it has read, ended with a status, or waited for.\<close>

datatype kstate = KHead | KWrite | KEnded int | KReaped

record kid =
  k_ctx :: deitop
  k_ibuf :: mem
  k_obuf :: mem
  k_off :: u64
  k_S :: u64
  k_st :: kstate

text \<open>\<open>pipe_data_child\<close>: its state at the start, and each part of its loop up to the next system call.\<close>

definition pipe_data_child :: "deitop \<Rightarrow> mem \<Rightarrow> mem \<Rightarrow> int \<Rightarrow> kid" where
  "pipe_data_child ctx ibuf obuf i =
     \<lparr> k_ctx = ctx, k_ibuf = ibuf, k_obuf = obuf, k_off = word_of_int (i * 512), k_S = word_of_int i, k_st = KHead \<rparr>"

definition kid_read :: "'w xsys \<Rightarrow> cryptf \<Rightarrow> kid \<Rightarrow> 'w \<Rightarrow> (kid \<times> 'w) option" where
  "kid_read sys fn k w =
     (if \<not> k_off k < dt_size (k_ctx k) then Some (k \<lparr> k_st := KEnded 0 \<rparr>, w)
      else let ((rd, data), w) = x_pread sys (dt_ifd (k_ctx k)) 512 (k_off k) w in
      if rd < 0 then Some (k \<lparr> k_st := KEnded 0xFF \<rparr>, w)
      else do {
        ibuf \<leftarrow> wrs (k_ibuf k) 0 data;
        if rd < 512 then Some (k \<lparr> k_ibuf := ibuf, k_st := KEnded 0xFF \<rparr>, w)
        else do {
          (ctx, obuf) \<leftarrow> fn (k_ctx k) ibuf (k_obuf k) (k_S k);
          Some (k \<lparr> k_ctx := ctx, k_ibuf := ibuf, k_obuf := obuf, k_st := KWrite \<rparr>, w) } })"

definition kid_write :: "'w xsys \<Rightarrow> int \<Rightarrow> kid \<Rightarrow> 'w \<Rightarrow> (kid \<times> 'w) option" where
  "kid_write sys n k w =
     (let (wr, w) = x_pwrite sys (dt_ofd (k_ctx k)) (take 512 (k_obuf k)) (k_off k) w in
      if wr < 0 then Some (k \<lparr> k_st := KEnded 0xFF \<rparr>, w)
      else Some (k \<lparr> k_S := k_S k + word_of_int n, k_off := k_off k + word_of_int (n * 512), k_st := KHead \<rparr>, w))"

definition kid_step :: "'w xsys \<Rightarrow> cryptf \<Rightarrow> int \<Rightarrow> kid \<Rightarrow> 'w \<Rightarrow> (kid \<times> 'w) option" where
  "kid_step sys fn n k w = (case k_st k of KHead \<Rightarrow> kid_read sys fn k w | KWrite \<Rightarrow> kid_write sys n k w | _ \<Rightarrow> None)"

text \<open>
  \<open>pipe_data_multi\<close>: the parent's variables \<open>i\<close>, \<open>nc\<close> and \<open>failed\<close>, the number of children it has waited for, the children in the order
  of their forks, and the value the process ends with (0 is a return to \<open>main\<close>).
\<close>

record 'w multi =
  m_ctx :: deitop
  m_ibuf :: mem
  m_obuf :: mem
  m_i :: int
  m_nc :: nat
  m_failed :: bool
  m_got :: nat
  m_kids :: "kid list"
  m_end :: "int option"
  m_w :: 'w

definition fork_step :: "'w xsys \<Rightarrow> 'w multi \<Rightarrow> 'w multi" where
  "fork_step sys m =
     (let (pid, w) = x_fork sys (m_w m) in
      if pid < 0 then m \<lparr> m_i := m_i m + 1, m_failed := True, m_w := w \<rparr>
      else m \<lparr> m_i := m_i m + 1, m_nc := m_nc m + 1, m_kids := m_kids m @ [pipe_data_child (m_ctx m) (m_ibuf m) (m_obuf m) (m_i m)], m_w := w \<rparr>)"

text \<open>\<open>j\<close> is the child that \<open>waitpid\<close> returns; the call blocks until one has ended.\<close>

definition wait_step :: "'w xsys \<Rightarrow> nat \<Rightarrow> 'w multi \<Rightarrow> 'w multi option" where
  "wait_step sys j m =
     (if j < length (m_kids m) then
        (case k_st (m_kids m ! j) of
           KEnded status \<Rightarrow>
             let (ret, w) = x_waitpid sys (m_w m) in
             if ret < 0 then Some (m \<lparr> m_end := Some 0xFF, m_w := w \<rparr>)
             else Some (m \<lparr> m_kids := (m_kids m)[j := (m_kids m ! j) \<lparr> k_st := KReaped \<rparr>],
                m_failed := (m_failed m \<or> status \<noteq> 0), m_got := m_got m + 1, m_w := w \<rparr>)
         | _ \<Rightarrow> None)
      else None)"

definition parent_step :: "'w xsys \<Rightarrow> nat \<Rightarrow> 'w multi \<Rightarrow> 'w multi option" where
  "parent_step sys j m =
     (if m_end m \<noteq> None then None
      else if m_i m < dt_ncpus (m_ctx m) then Some (fork_step sys m)
      else if m_got m < m_nc m then wait_step sys j m
      else Some (m \<lparr> m_end := Some (if m_failed m then 0xFF else 0) \<rparr>))"

inductive mstep :: "'w xsys \<Rightarrow> cryptf \<Rightarrow> 'w multi \<Rightarrow> 'w multi \<Rightarrow> bool" for sys fn where
  parent: "parent_step sys j m = Some m' \<Longrightarrow> mstep sys fn m m'"
| child: "j < length (m_kids m) \<Longrightarrow> kid_step sys fn (dt_ncpus (m_ctx m)) (m_kids m ! j) (m_w m) = Some (k, w) \<Longrightarrow>
    mstep sys fn m (m \<lparr> m_kids := (m_kids m)[j := k], m_w := w \<rparr>)"

definition pipe_data_multi :: "'w pipe \<Rightarrow> 'w multi" where
  "pipe_data_multi p = \<lparr> m_ctx = p_ctx p, m_ibuf = p_ibuf p, m_obuf = p_obuf p, m_i = 0, m_nc = 0, m_failed = False, m_got = 0, m_kids = [],
     m_end = None, m_w = p_w p \<rparr>"

section \<open>Start\<close>

definition guess_num_cpus :: "'w xsys \<Rightarrow> 'w \<Rightarrow> int \<times> 'w" where
  "guess_num_cpus sys w =
     (let ((ret, bits), w) = x_getaffinity sys w in
      if ret < 0 then (1, w)
      else (int (length (filter (\<lambda>(v, b). v AND push_bit b 1 \<noteq> 0) [(v, b). v \<leftarrow> bits, b \<leftarrow> [0..<64]])), w))"

definition dei_zero :: deitop where
  "dei_zero = \<lparr> dt_argi = 0, dt_argv = [], dt_opts = 0, dt_ifd = 0, dt_ofd = 0, dt_iname = [], dt_oname = [], dt_K1 = aes_zero, dt_K2 = aes_zero,
     dt_ncpus = 0, dt_size = 0 \<rparr>"

definition init_context :: "'w xsys \<Rightarrow> byte list list \<Rightarrow> 'w \<Rightarrow> ('w, deitop \<times> 'w) outcome" where
  "init_context sys argv w =
     andthen (if 1 < length argv then
        andthen (defined (rd (argv ! 1) 0)) (\<lambda>c.
        if c = ch CHR ''-'' then
          andthen (defined (argbits (bstr ''ds'' @ [0]) (drop 1 (argv ! 1)))) (\<lambda>r.
          case r of Inl a \<Rightarrow> Fail ''unknown option'' w | Inr opts \<Rightarrow> Done (2, opts))
        else Done (1, 0))
      else Done (1, 0)) (\<lambda>(i, opts).
     let ctx = dei_zero \<lparr> dt_argi := i, dt_argv := argv, dt_opts := opts \<rparr> in
     if opts AND OPT_s \<noteq> 0 then Done (ctx \<lparr> dt_ncpus := 1 \<rparr>, w)
     else let (n, w) = guess_num_cpus sys w in Done (ctx \<lparr> dt_ncpus := n \<rparr>, w))"

text \<open>\<open>stk\<close> is what the stack of \<open>load_keyfile\<close> holds.\<close>

definition set_files :: "'w xsys \<Rightarrow> mem \<Rightarrow> keyfile \<Rightarrow> deitop \<Rightarrow> byte list \<Rightarrow> byte list \<Rightarrow> byte list \<Rightarrow> int \<Rightarrow> 'w \<Rightarrow> ('w, deitop \<times> 'w) outcome" where
  "set_files sys stk kf ctx iname oname keyf kidx w =
     (let (fd, w) = sys_open (x_sys sys) (Some iname) O_RDONLY 0 w in
      if fd < 0 then Fail '''' w
      else let ((ret, size, _), w) = sys_fstat (x_sys sys) fd w in
      if ret < 0 then Fail ''stat'' w
      else if size mod 512 \<noteq> 0 then Fail ''size is not in 512-blocks'' w
      else let ctx = ctx \<lparr> dt_ifd := fd, dt_iname := iname, dt_size := word_of_int size \<rparr> in
      andthen (load_keyfile (x_sys sys) stk kf (Some keyf) w) (\<lambda>(kf, w).
      let (fd, w) = sys_open (x_sys sys) (Some oname) (O_WRONLY OR O_CREAT OR O_TRUNC) 0x1B6 w in
      if fd < 0 then Fail '''' w
      else let ctx = ctx \<lparr> dt_ofd := fd, dt_oname := oname \<rparr>;
               (ret, w) = (if dt_ncpus ctx \<le> 1 then (0, w) else x_ftruncate sys fd size w) in
      if ret < 0 then Fail ''truncate'' w
      else andthen (get_key_by_idx kf kidx w) (\<lambda>p.
      andthen (defined (rds (kf_buf kf) p 32)) (\<lambda>key.
      Done (ctx \<lparr> dt_K1 := aes128_init (dt_K1 ctx) (take 16 key), dt_K2 := aes128_init (dt_K2 ctx) (drop 16 key) \<rparr>, w)))))"

definition dei_shift_arg :: "deitop \<Rightarrow> byte list option \<times> deitop" where
  "dei_shift_arg ctx =
     (if dt_argi ctx \<ge> length (dt_argv ctx) then (None, ctx) else (Some (dt_argv ctx ! dt_argi ctx), ctx \<lparr> dt_argi := dt_argi ctx + 1 \<rparr>))"

definition shift_req :: "deitop \<Rightarrow> 'w \<Rightarrow> ('w, byte list \<times> deitop) outcome" where
  "shift_req ctx w =
     (if dt_argi ctx \<ge> length (dt_argv ctx) then Fail ''too few arguments'' w
      else Done (dt_argv ctx ! dt_argi ctx, ctx \<lparr> dt_argi := dt_argi ctx + 1 \<rparr>))"

definition maybe_shift_int :: "deitop \<Rightarrow> int \<Rightarrow> 'w \<Rightarrow> ('w, int \<times> deitop) outcome" where
  "maybe_shift_int ctx dflt w =
     (case dei_shift_arg ctx of
        (None, ctx) \<Rightarrow> Done (dflt, ctx)
      | (Some arg, ctx) \<Rightarrow>
          andthen (defined (parseint arg)) (\<lambda>r.
          case r of
            None \<Rightarrow> Fail ''integer required:'' w
          | Some (p, v) \<Rightarrow> andthen (defined (rd p 0)) (\<lambda>c. if c \<noteq> 0 then Fail ''integer required:'' w else Done (sint v, ctx))))"

text \<open>\<open>main\<close> up to \<open>pipe_data\<close>: the state that loop starts in, and the cipher.\<close>

definition dei_main :: "'w xsys \<Rightarrow> mem \<Rightarrow> keyfile \<Rightarrow> byte list list \<Rightarrow> 'w \<Rightarrow> ('w, 'w pipe \<times> cryptf) outcome" where
  "dei_main sys stk kf argv w =
     andthen (init_context sys argv w) (\<lambda>(ctx, w).
     andthen (shift_req ctx w) (\<lambda>(iname, ctx).
     andthen (shift_req ctx w) (\<lambda>(oname, ctx).
     andthen (shift_req ctx w) (\<lambda>(keyf, ctx).
     andthen (maybe_shift_int ctx 1 w) (\<lambda>(kidx, ctx).
     andthen (set_files sys stk kf ctx iname oname keyf kidx w) (\<lambda>(ctx, w).
     Done (\<lparr> p_ctx = ctx, p_ibuf = replicate 512 0, p_obuf = replicate 512 0, p_w = w \<rparr>,
       if dt_opts ctx AND OPT_d \<noteq> 0 then aesxts_decrypt else aesxts_encrypt)))))))"

text \<open>How \<open>pipe_data\<close> can end: the exit code of the process, and the world it leaves.\<close>

inductive pipe_data :: "'w xsys \<Rightarrow> cryptf \<Rightarrow> 'w pipe \<Rightarrow> int \<Rightarrow> 'w \<Rightarrow> bool" for sys fn p where
  multi: "dt_ncpus (p_ctx p) > 1 \<Longrightarrow> (mstep sys fn)\<^sup>*\<^sup>* (pipe_data_multi p) m \<Longrightarrow> m_end m = Some c \<Longrightarrow> pipe_data sys fn p c (m_w m)"
| single: "\<not> dt_ncpus (p_ctx p) > 1 \<Longrightarrow> pipe_data_single sys fn p = Some (Done p') \<Longrightarrow> pipe_data sys fn p 0 (p_w p')"
| single_fail: "\<not> dt_ncpus (p_ctx p) > 1 \<Longrightarrow> pipe_data_single sys fn p = Some (Fail msg w) \<Longrightarrow> pipe_data sys fn p 0xFF w"

end
