(* ===== verification/Deitool_Xts.thy ===== *)
theory Deitool_Xts
  imports Deitool
begin

text \<open>
  The cipher of \<^verbatim>\<open>deitool.c\<close> is XTS as the standard defines it: block \<open>i\<close> of a sector is whitened, before and after AES, with the
  encrypted sector number times the \<open>i\<close>-th power of the generator of the field with \<open>2\<^sup>1\<^sup>2\<^sup>8\<close> elements.
\<close>

section \<open>Reference definition\<close>

definition xorb :: "byte list \<Rightarrow> byte list \<Rightarrow> byte list" where
  "xorb a b = map2 (XOR) a b"

definition gf_double :: "128 word \<Rightarrow> 128 word" where
  "gf_double t = push_bit 1 t XOR (if bit t 127 then 0x87 else 0)"

fun xts :: "(byte list \<Rightarrow> byte list) \<Rightarrow> 128 word \<Rightarrow> byte list list \<Rightarrow> byte list list" where
  "xts E t [] = []"
| "xts E t (b # bs) = xorb (E (xorb b (le_bytes 16 t))) (le_bytes 16 t) # xts E (gf_double t) bs"

definition block :: "byte list \<Rightarrow> nat \<Rightarrow> byte list" where
  "block d i = take 16 (drop (16 * i) d)"

definition xts_sector :: "(byte list \<Rightarrow> byte list) \<Rightarrow> (byte list \<Rightarrow> byte list) \<Rightarrow> u64 \<Rightarrow> byte list \<Rightarrow> byte list" where
  "xts_sector E1 E2 S d = concat (xts E1 (unle (E2 (le_bytes 16 (ucast S :: 128 word)))) (map (block d) [0..<32]))"

section \<open>Tweaks\<close>

lemma length_xorb [simp]: "length (xorb a b) = min (length a) (length b)"
  by (simp add: xorb_def)

lemma xorb_cancel [simp]: "length a = length b \<Longrightarrow> xorb (xorb a b) b = a"
  by (rule nth_equalityI) (auto simp: xorb_def xor.assoc)

lemma store_sector_bits: "k < n \<Longrightarrow> j < 8 \<Longrightarrow> bit (store_sector n S ! k) j = bit S (8 * k + j)"
proof (induction n arbitrary: k S)
  case (Suc n)
  have "(0xFF :: u64) = mask 8" by (simp add: mask_eq_exp_minus_1)
  then have m: "bit (0xFF :: u64) j" if "j < 8" for j using that by (simp only: bit_mask_iff possible_bit_word) simp
  show ?case using Suc m by (cases k) (auto simp: bit_simps add.assoc)
qed simp

lemma length_store_sector [simp]: "length (store_sector n S) = n"
  by (induction n arbitrary: S) auto

lemma store_sector_eq: "store_sector 16 S = le_bytes 16 (ucast S :: 128 word)"
proof (rule nth_equalityI)
  fix i assume i: "i < length (store_sector 16 S)"
  show "store_sector 16 S ! i = le_bytes 16 (ucast S :: 128 word) ! i"
  proof (rule bit_word_eqI)
    fix j assume j: "j < LENGTH(8)"
    have "i < 16" "j < 8" using i j by auto
    then show "bit (store_sector 16 S ! i) j = bit (le_bytes 16 (ucast S :: 128 word) ! i) j"
      by (simp add: store_sector_bits le_nth_bit bit_simps)
  qed
qed simp

text \<open>The carry of the loop is the top bit of the byte before.\<close>

lemma double_bit: "bit (push_bit 1 (t :: 'a::len word)) j \<longleftrightarrow> 1 \<le> j \<and> j < LENGTH('a) \<and> bit t (j - 1)"
  by (simp only: bit_push_bit_iff possible_bit_word)

lemma push_carry: "c = 0 \<or> c = 1 \<Longrightarrow> j < 8 \<Longrightarrow> bit (push_bit 1 t + c :: byte) j = (if j = 0 then c = 1 else bit t (j - 1))"
proof -
  assume c: "c = 0 \<or> c = 1" and j: "j < 8"
  have "push_bit 1 t + c = push_bit 1 t OR c" using c by (intro disjunctive_add) (auto simp: double_bit bit_1_iff simp del: push_bit_Suc One_nat_def)
  then show ?thesis using c j by (auto simp: bit_or_iff double_bit bit_1_iff simp del: push_bit_Suc One_nat_def)
qed

lemma carry_out: "drop_bit 7 (t :: byte) AND 1 = (if bit t 7 then 1 else 0)"
  by (rule bit_word_eqI) (auto simp: bit_simps dest: bit_imp_le_length intro: Nat.gr0I)

lemma tweak_loop_bits:
  "c = 0 \<or> c = 1 \<Longrightarrow> tweak_loop T c = (T', c') \<Longrightarrow>
   length T' = length T \<and> c' = (if T = [] then c else if bit (last T) 7 then 1 else 0) \<and>
   (\<forall>k < length T. \<forall>j < 8. bit (T' ! k) j = (if j = 0 then (if k = 0 then c = 1 else bit (T ! (k - 1)) 7) else bit (T ! k) (j - 1)))"
proof (induction T arbitrary: c T' c')
  case (Cons t T)
  let ?d = "drop_bit 7 t AND 1"
  obtain R where R: "tweak_loop T ?d = (R, c')" "T' = (push_bit 1 t + c) # R" using Cons.prems(2) by (auto split: prod.splits)
  have d: "?d = 0 \<or> ?d = 1" by (simp add: carry_out)
  note ih = Cons.IH[OF d R(1)]
  have "bit (T' ! k) j = (if j = 0 then (if k = 0 then c = 1 else bit ((t # T) ! (k - 1)) 7) else bit ((t # T) ! k) (j - 1))"
    if "k < Suc (length T)" "j < 8" for k j
  proof (cases k)
    case 0
    then show ?thesis using push_carry[OF Cons.prems(1) that(2), of t] R(2) by simp
  next
    case (Suc k')
    then have "bit (R ! k') j = (if j = 0 then (if k' = 0 then ?d = 1 else bit (T ! (k' - 1)) 7) else bit (T ! k') (j - 1))" using ih that by simp
    then show ?thesis using Suc R(2) by (cases k') (auto simp: carry_out)
  qed
  then show ?case using ih R(2) by (auto simp: carry_out)
qed simp

lemma next_tweak_eq: "next_tweak (le_bytes 16 t) = le_bytes 16 (gf_double t)"
proof -
  obtain T c where T: "tweak_loop (le_bytes 16 t) 0 = (T, c)" by fastforce
  note b = tweak_loop_bits[OF disjI1[OF refl] T]
  have lt: "length T = 16" using b by simp
  have l15: "last (le_bytes 16 t) = le_bytes 16 t ! 15" by (subst last_conv_nth) (auto simp: le_length dest: arg_cong[of _ _ length])
  have c: "c = (if bit t 127 then 1 else 0)" using b l15 le_nth_bit[of 15 16 7 t] by (auto dest: arg_cong[of _ _ length])
  have tb: "bit (T ! k) j = bit (push_bit 1 t) (8 * k + j)" if "k < 16" "j < 8" for k j
    using b that le_nth_bit[of k 16 "j - 1" t] le_nth_bit[of "k - 1" 16 7 t]
    by (cases k) (auto simp: double_bit add.commute simp del: push_bit_Suc One_nat_def)
  show ?thesis
  proof (rule nth_equalityI)
    show "length (next_tweak (le_bytes 16 t)) = length (le_bytes 16 (gf_double t))" using T lt by (simp add: next_tweak_def)
    fix k assume "k < length (next_tweak (le_bytes 16 t))"
    then have k: "k < 16" using T lt by (simp add: next_tweak_def split: if_splits)
    show "next_tweak (le_bytes 16 t) ! k = le_bytes 16 (gf_double t) ! k"
    proof (rule bit_word_eqI)
      fix j assume "j < LENGTH(8)"
      then have j: "j < 8" by simp
      have w: "bit (0x87 :: 128 word) (8 * k + j) = (k = 0 \<and> bit (0x87 :: byte) j)"
      proof (cases k)
        case (Suc k')
        have "\<not> bit (0x87 :: 128 word) i" if "8 \<le> i" for i using that by (auto simp: bit_numeral_rec numeral_eq_Suc bit_simps elim!: less_SucE)
        then show ?thesis using Suc by simp
      next
        case 0
        have "(0x87 :: 128 word) = ucast (0x87 :: byte)" by simp
        then show ?thesis using 0 j by (simp only: bit_ucast_iff) simp
      qed
      show "bit (next_tweak (le_bytes 16 t) ! k) j = bit (le_bytes 16 (gf_double t) ! k) j"
        using T lt c k j tb[OF k j] w by (auto simp: next_tweak_def gf_double_def le_nth_bit bit_xor_iff nth_list_update simp del: push_bit_Suc One_nat_def)
    qed
  qed
qed

section \<open>Blocks\<close>

lemma le_xor4: "length a = 4 \<Longrightarrow> length b = 4 \<Longrightarrow> le_bytes 4 (unle a XOR unle b :: u32) = xorb a b"
proof (rule nth_equalityI)
  assume l: "length a = 4" "length b = 4"
  fix i assume "i < length (le_bytes 4 (unle a XOR unle b :: u32))"
  then show "le_bytes 4 (unle a XOR unle b :: u32) ! i = xorb a b ! i"
    using l by (intro bit_word_eqI) (auto simp: le_nth_bit unle_bits bit_xor_iff xorb_def)
qed simp

lemma xor_word_at:
  assumes "length b = 16" and "ao + 16 \<le> length a" and "length p = xo + 4 * k" and "k < 4" and "length q = 4"
  shows "xor_word k (p @ q @ r) xo a ao b = Some (p @ xorb (take 4 (drop (ao + 4 * k) a)) (take 4 (drop (4 * k) b)) @ r)"
  using assms le_xor4[of "take 4 (drop (ao + 4 * k) a)" "take 4 (drop (4 * k) b)"]
  by (simp add: xor_word_def rd32_def wr32_def rds_def wrs_def)

lemma xorb_append: "length a = length c \<Longrightarrow> xorb (a @ b) (c @ d) = xorb a c @ xorb b d"
  by (simp add: xorb_def)

lemma split4: "length b = 16 \<Longrightarrow> b = take 4 (drop 0 b) @ take 4 (drop 4 b) @ take 4 (drop 8 b) @ take 4 (drop 12 b)"
  by (simp add: take_add[symmetric, where i = 4] flip: append_assoc) (simp add: list_eq_iff_nth_eq nth_append)

lemma blk_xor_at:
  assumes "length b = 16" and "ao + 16 \<le> length a" and "length p = xo" and "length q = 16"
  shows "blk_xor (p @ q @ r) xo a ao b = Some (p @ xorb (take 16 (drop ao a)) b @ r)"
proof -
  let ?a = "\<lambda>k. take 4 (drop (ao + 4 * k) a)" and ?b = "\<lambda>k. take 4 (drop (4 * k) b)"
  define X where "X k = xorb (?a k) (?b k)" for k
  have lx: "length (X 0) = 4" "length (X 1) = 4" "length (X 2) = 4" using assms by (simp_all add: X_def)
  obtain q0 q1 q2 q3 where q: "q = q0 @ q1 @ q2 @ q3" and lq: "length q0 = 4" "length q1 = 4" "length q2 = 4" "length q3 = 4"
  proof
    show "q = take 4 (drop 0 q) @ take 4 (drop 4 q) @ take 4 (drop 8 q) @ take 4 (drop 12 q)" by (rule split4[OF assms(4)])
  qed (simp_all add: assms(4))
  have w: "length p' = xo + 4 * k \<Longrightarrow> k < 4 \<Longrightarrow> length q' = 4 \<Longrightarrow> xor_word k (p' @ q' @ r') xo a ao b = Some (p' @ X k @ r')" for p' k q' r'
    unfolding X_def by (rule xor_word_at[OF assms(1,2)])
  have "xor_word 0 (p @ q0 @ q1 @ q2 @ q3 @ r) xo a ao b = Some (p @ X 0 @ q1 @ q2 @ q3 @ r)" using w[of p 0 q0] lq assms(3) by simp
  moreover have "xor_word 1 (p @ X 0 @ q1 @ q2 @ q3 @ r) xo a ao b = Some (p @ X 0 @ X 1 @ q2 @ q3 @ r)" using w[of "p @ X 0" 1 q1] lq lx assms(3) by simp
  moreover have "xor_word 2 (p @ X 0 @ X 1 @ q2 @ q3 @ r) xo a ao b = Some (p @ X 0 @ X 1 @ X 2 @ q3 @ r)" using w[of "p @ X 0 @ X 1" 2 q2] lq lx assms(3) by simp
  moreover have "xor_word 3 (p @ X 0 @ X 1 @ X 2 @ q3 @ r) xo a ao b = Some (p @ X 0 @ X 1 @ X 2 @ X 3 @ r)" using w[of "p @ X 0 @ X 1 @ X 2" 3 q3] lq lx assms(3) by simp
  ultimately have "blk_xor (p @ q @ r) xo a ao b = Some (p @ X 0 @ X 1 @ X 2 @ X 3 @ r)" by (simp only: blk_xor_def q append_assoc Option.bind.simps)
  moreover have "xorb (take 16 (drop ao a)) b = X 0 @ X 1 @ X 2 @ X 3"
  proof -
    have "take 16 (drop ao a) = ?a 0 @ ?a 1 @ ?a 2 @ ?a 3" using split4[of "take 16 (drop ao a)"] assms(2) by (simp add: add.commute drop_take)
    moreover have "b = ?b 0 @ ?b 1 @ ?b 2 @ ?b 3" using split4[OF assms(1)] by simp
    ultimately have "xorb (take 16 (drop ao a)) b = xorb (?a 0 @ ?a 1 @ ?a 2 @ ?a 3) (?b 0 @ ?b 1 @ ?b 2 @ ?b 3)" by (rule arg_cong2)
    then show ?thesis using assms(1,2) by (simp only: X_def xorb_append length_take length_drop)
  qed
  ultimately show ?thesis by simp
qed

section \<open>Sectors\<close>

text \<open>What \<open>aesxts\<close> needs of the block operation it is given: the result depends on the round keys only, and those do not change.\<close>

locale aes_op =
  fixes cr :: aesfn and E :: "u32 list \<Rightarrow> byte list \<Rightarrow> byte list"
  assumes result: "snd (cr K b) = E (ae_W K) b"
    and same_key: "ae_W (fst (cr K b)) = ae_W K"
    and length_E: "length b = 16 \<Longrightarrow> length (E W b) = 16"
begin

lemma xts_step_at:
  assumes "length rp = 512" and "length wp = 512" and "length x = 16" and "i < 32"
  shows "xts_step cr rp (16 * i) (K, le_bytes 16 t, x, wp) =
    (let y = E (ae_W K) (xorb (block rp i) (le_bytes 16 t)) in
     Some (fst (cr K (xorb (block rp i) (le_bytes 16 t))), le_bytes 16 (gf_double t), y, take (16 * i) wp @ xorb y (le_bytes 16 t) @ drop (16 * i + 16) wp))"
proof -
  let ?b = "xorb (block rp i) (le_bytes 16 t)"
  let ?y = "E (ae_W K) ?b"
  have lb: "length ?b = 16" using assms(1,4) by (simp add: block_def)
  then have ly: "length ?y = 16" by (rule length_E)
  have 1: "blk_xor x 0 rp (16 * i) (le_bytes 16 t) = Some ?b"
    using blk_xor_at[of "le_bytes 16 t" "16 * i" rp "[]" 0 x "[]"] assms by (simp add: block_def)
  have w: "wp = take (16 * i) wp @ take 16 (drop (16 * i) wp) @ drop (16 * i + 16) wp" by (metis append_take_drop_id drop_drop add.commute)
  have "blk_xor (take (16 * i) wp @ take 16 (drop (16 * i) wp) @ drop (16 * i + 16) wp) (16 * i) ?y 0 (le_bytes 16 t) =
      Some (take (16 * i) wp @ xorb ?y (le_bytes 16 t) @ drop (16 * i + 16) wp)"
    using blk_xor_at[of "le_bytes 16 t" 0 ?y "take (16 * i) wp" "16 * i" "take 16 (drop (16 * i) wp)"] assms ly by simp
  then have 2: "blk_xor wp (16 * i) ?y 0 (le_bytes 16 t) = Some (take (16 * i) wp @ xorb ?y (le_bytes 16 t) @ drop (16 * i + 16) wp)"
    by (simp only: w[symmetric])
  have 3: "cr K ?b = (fst (cr K ?b), ?y)" by (simp add: prod_eq_iff result)
  show ?thesis unfolding xts_step_def prod.case 1 Option.bind.simps by (subst 3) (simp only: Let_def prod.case 2 Option.bind.simps next_tweak_eq)
qed

lemma xts_steps:
  "length rp = 512 \<Longrightarrow> length wp = 512 \<Longrightarrow> length x = 16 \<Longrightarrow> j \<le> 32 \<Longrightarrow>
   \<exists>K' T' x'. steps (xts_step cr rp) (map ((*) 16) [j..<32]) (K, le_bytes 16 t, x, wp) =
      Some (K', T', x', take (16 * j) wp @ concat (xts (E (ae_W K)) t (map (block rp) [j..<32]))) \<and> ae_W K' = ae_W K"
proof (induction "32 - j" arbitrary: j K t x wp)
  case (Suc d)
  let ?b = "xorb (block rp j) (le_bytes 16 t)"
  let ?y = "E (ae_W K) ?b"
  let ?wp = "take (16 * j) wp @ xorb ?y (le_bytes 16 t) @ drop (16 * j + 16) wp"
  have j: "j < 32" using Suc.hyps(2) by simp
  have ly: "length ?y = 16" using Suc.prems(1) j by (intro length_E) (simp add: block_def)
  have s: "xts_step cr rp (16 * j) (K, le_bytes 16 t, x, wp) = Some (fst (cr K ?b), le_bytes 16 (gf_double t), ?y, ?wp)"
    using xts_step_at[OF Suc.prems(1-3) j] by (simp add: Let_def)
  have dd: "d = 32 - Suc j" using Suc.hyps(2) by simp
  have lw: "length ?wp = 512" using Suc.prems(2) j ly by simp
  obtain K' T' x' where K': "steps (xts_step cr rp) (map ((*) 16) [Suc j..<32]) (fst (cr K ?b), le_bytes 16 (gf_double t), ?y, ?wp) =
      Some (K', T', x', take (16 * Suc j) ?wp @ concat (xts (E (ae_W (fst (cr K ?b)))) (gf_double t) (map (block rp) [Suc j..<32])))"
      "ae_W K' = ae_W (fst (cr K ?b))"
    using Suc.hyps(1)[OF dd Suc.prems(1) lw ly Suc_leI[OF j]] by blast
  have "take (16 * Suc j) ?wp = take (16 * j) wp @ xorb ?y (le_bytes 16 t)" using Suc.prems(2) j ly by simp
  then show ?case using K' s j by (simp add: upt_rec[of j] same_key)
qed simp

lemma aesxts_eq:
  assumes "length rp = 512" and "length wp = 512"
  shows "\<exists>K1 K2. aesxts cr ctx rp wp S =
      Some (ctx \<lparr> dt_K1 := K1, dt_K2 := K2 \<rparr>, xts_sector (E (ae_W (dt_K1 ctx))) (\<lambda>b. snd (aes128_encrypt (dt_K2 ctx) b)) S rp) \<and>
    ae_W K1 = ae_W (dt_K1 ctx) \<and> ae_W K2 = ae_W (dt_K2 ctx)"
proof -
  let ?T = "snd (aes128_encrypt (dt_K2 ctx) (le_bytes 16 (ucast S :: 128 word)))"
  have "length ?T = 16" by (rule aes.enc_length) simp
  then have T: "?T = le_bytes 16 (unle ?T :: 128 word)" using le_unle[of ?T, where 'a = 128] by simp
  have p: "prep_tweak (dt_K2 ctx) S = (fst (aes128_encrypt (dt_K2 ctx) (store_sector 16 S)), le_bytes 16 (unle ?T :: 128 word))"
    using T by (simp add: prep_tweak_def store_sector_eq prod_eq_iff)
  obtain K' T' x' where "steps (xts_step cr rp) (map ((*) 16) [0..<32]) (dt_K1 ctx, le_bytes 16 (unle ?T :: 128 word), replicate 16 0, wp) =
      Some (K', T', x', concat (xts (E (ae_W (dt_K1 ctx))) (unle ?T) (map (block rp) [0..<32])))" "ae_W K' = ae_W (dt_K1 ctx)"
    using xts_steps[OF assms, of "replicate 16 0" 0 "dt_K1 ctx" "unle ?T"] by auto
  then show ?thesis using aes.enc_key[of "dt_K2 ctx" "store_sector 16 S"] by (auto simp: aesxts_def p xts_sector_def simp del: upt_rec_numeral)
qed

end

definition aesE :: "u32 list \<Rightarrow> byte list \<Rightarrow> byte list" where
  "aesE W b = snd (aes128_encrypt \<lparr> ae_W = W, ae_S = [] \<rparr> b)"

definition aesD :: "u32 list \<Rightarrow> byte list \<Rightarrow> byte list" where
  "aesD W b = snd (aes128_decrypt \<lparr> ae_W = W, ae_S = [] \<rparr> b)"

interpretation xenc: aes_op aes128_encrypt aesE
  by unfold_locales (auto simp: aesE_def aes128_encrypt_def Let_def)

interpretation xdec: aes_op aes128_decrypt aesD
  by unfold_locales (auto simp: aesD_def aes128_decrypt_def Let_def)

lemma aesD_aesE: "length b = 16 \<Longrightarrow> aesD W (aesE W b) = b"
  using aes.dec_enc[of "\<lparr> ae_W = W, ae_S = [] \<rparr>" "\<lparr> ae_W = W, ae_S = [] \<rparr>" b] by (simp add: aesD_def aesE_def)

section \<open>The inverse\<close>

lemma xts_inverse:
  "\<forall>b \<in> set bs. length b = 16 \<Longrightarrow> (\<And>b. length b = 16 \<Longrightarrow> D (E b) = b) \<Longrightarrow> (\<And>b. length b = 16 \<Longrightarrow> length (E b) = 16) \<Longrightarrow>
   xts D t (xts E t bs) = bs"
  by (induction bs arbitrary: t) auto

lemma xts_lengths: "(\<And>b. length b = 16 \<Longrightarrow> length (E b) = 16) \<Longrightarrow> \<forall>b \<in> set bs. length b = 16 \<Longrightarrow> \<forall>b \<in> set (xts E t bs). length b = 16"
  by (induction bs arbitrary: t) auto

lemma length_xts [simp]: "length (xts E t bs) = length bs"
  by (induction bs arbitrary: t) auto

lemma block_concat: "\<forall>b \<in> set bs. length b = 16 \<Longrightarrow> map (block (concat bs)) [0..<length bs] = bs"
proof (induction bs)
  case (Cons b bs)
  have "block (b @ concat bs) (Suc i) = block (concat bs) i" for i using Cons.prems by (simp add: block_def)
  then have "map (block (b @ concat bs)) (map Suc [0..<length bs]) = bs" using Cons by (simp add: comp_def)
  moreover have "block (b @ concat bs) 0 = b" using Cons.prems by (simp add: block_def)
  ultimately show ?case by (simp add: upt_conv_Cons flip: map_Suc_upt del: upt_Suc)
qed simp

lemma concat_block: "length d = 16 * n \<Longrightarrow> concat (map (block d) [0..<n]) = d"
proof (induction n arbitrary: d)
  case (Suc n)
  have "map (block (take (16 * n) d)) [0..<n] = map (block d) [0..<n]" by (auto simp: block_def drop_take min_def)
  then have "concat (map (block d) [0..<n]) = take (16 * n) d" using Suc.IH[of "take (16 * n) d"] Suc.prems by (simp del: map_eq_conv)
  moreover have "block d n = drop (16 * n) d" using Suc.prems by (simp add: block_def)
  ultimately show ?case by simp
qed simp

lemma length_block: "length d = 512 \<Longrightarrow> i < 32 \<Longrightarrow> length (block d i) = 16"
  by (simp add: block_def)

lemma length_concat16: "\<forall>b \<in> set bs. length b = 16 \<Longrightarrow> length (concat bs) = 16 * length bs"
  by (induction bs) auto

lemma length_xts_sector:
  assumes E: "\<And>b. length b = 16 \<Longrightarrow> length (E b) = 16" and d: "length d = 512"
  shows "length (xts_sector E E2 S d) = 512"
proof -
  have "\<forall>b \<in> set (map (block d) [0..<32]). length b = 16" using length_block[OF d] by auto
  from length_concat16[OF xts_lengths[OF E this]] show ?thesis by (simp add: xts_sector_def del: upt_rec_numeral)
qed

lemma xts_sector_inverse:
  assumes D: "\<And>b. length b = 16 \<Longrightarrow> D (E b) = b" and E: "\<And>b. length b = 16 \<Longrightarrow> length (E b) = 16" and d: "length d = 512"
  shows "xts_sector D E2 S (xts_sector E E2 S d) = d"
proof -
  let ?t = "unle (E2 (le_bytes 16 (ucast S :: 128 word))) :: 128 word"
  let ?bs = "map (block d) [0..<32]"
  have l: "\<forall>b \<in> set ?bs. length b = 16" using length_block[OF d] by auto
  have "map (block (concat (xts E ?t ?bs))) [0..<32] = xts E ?t ?bs"
    using block_concat[of "xts E ?t ?bs"] xts_lengths[of E ?bs, OF E l] by (simp del: upt_rec_numeral)
  then show ?thesis using xts_inverse[of ?bs D E ?t, OF l D E] concat_block[of d 32] d by (simp add: xts_sector_def del: upt_rec_numeral)
qed

text \<open>A sector as \<open>deitool\<close> encrypts it, or decrypts it if \<open>d\<close>, with the round keys \<open>W1\<close> of the data and \<open>W2\<close> of the tweaks.\<close>

definition dei_sector :: "bool \<Rightarrow> u32 list \<Rightarrow> u32 list \<Rightarrow> u64 \<Rightarrow> byte list \<Rightarrow> byte list" where
  "dei_sector d W1 W2 = xts_sector (if d then aesD W1 else aesE W1) (aesE W2)"

definition dei_fn :: "bool \<Rightarrow> cryptf" where
  "dei_fn d = (if d then aesxts_decrypt else aesxts_encrypt)"

lemma length_dei_sector [simp]: "length s = 512 \<Longrightarrow> length (dei_sector d W1 W2 S s) = 512"
  by (auto simp: dei_sector_def intro!: length_xts_sector xenc.length_E xdec.length_E)

lemma dei_sector_inverse: "length s = 512 \<Longrightarrow> dei_sector True W1 W2 S (dei_sector False W1 W2 S s) = s"
  by (auto simp: dei_sector_def intro!: xts_sector_inverse aesD_aesE xenc.length_E)

lemma dei_fn_eq:
  assumes "length rp = 512" and "length wp = 512"
  shows "\<exists>K1 K2. dei_fn d ctx rp wp S = Some (ctx \<lparr> dt_K1 := K1, dt_K2 := K2 \<rparr>, dei_sector d (ae_W (dt_K1 ctx)) (ae_W (dt_K2 ctx)) S rp) \<and>
    ae_W K1 = ae_W (dt_K1 ctx) \<and> ae_W K2 = ae_W (dt_K2 ctx)"
proof -
  have "(\<lambda>b. snd (aes128_encrypt (dt_K2 ctx) b)) = aesE (ae_W (dt_K2 ctx))" by (rule ext) (rule xenc.result)
  then show ?thesis using xenc.aesxts_eq[OF assms, of ctx S] xdec.aesxts_eq[OF assms, of ctx S]
    by (cases d) (simp_all add: dei_fn_def dei_sector_def aesxts_encrypt_def aesxts_decrypt_def)
qed

end
