(* ===== verification/Deitool_Multi.thy ===== *)
theory Deitool_Multi
  imports Deitool_Xts
begin

text \<open>
  The processes of \<^verbatim>\<open>deitool.c\<close>.  Child \<open>j\<close> of \<open>n\<close> handles the sectors congruent to \<open>j\<close>; the invariant \<open>good\<close> says how far each has come,
  and a step of one child leaves alone what the others have written.
\<close>

section \<open>Sectors of a file\<close>

definition sec :: "byte list \<Rightarrow> nat \<Rightarrow> byte list" where
  "sec c q = take 512 (drop (512 * q) c)"

text \<open>What becomes of sector \<open>q\<close> of a file, and of all of it.\<close>

definition img :: "bool \<Rightarrow> deitop \<Rightarrow> byte list \<Rightarrow> nat \<Rightarrow> byte list" where
  "img d ctx inp q = dei_sector d (ae_W (dt_K1 ctx)) (ae_W (dt_K2 ctx)) (of_nat q) (sec inp q)"

definition dei_image :: "bool \<Rightarrow> deitop \<Rightarrow> byte list \<Rightarrow> byte list" where
  "dei_image d ctx inp = concat (map (img d ctx inp) [0..<length inp div 512])"

lemma length_sec [simp]: "512 * q + 512 \<le> length c \<Longrightarrow> length (sec c q) = 512"
  by (simp add: sec_def)

lemma sec_fits: "(q :: nat) < n div 512 \<longleftrightarrow> 512 * q + 512 \<le> n"
  by (simp add: less_eq_div_iff_mult_less_eq ac_simps flip: Suc_le_eq)

lemma sec_whole: "(n :: nat) mod 512 = 0 \<Longrightarrow> 512 * q < n \<Longrightarrow> 512 * q + 512 \<le> n"
  by (auto simp: dvd_eq_mod_eq_0[symmetric] elim!: dvdE)

lemma sec_put:
  assumes "length bs = 512" and "512 * q + 512 \<le> length c"
  shows "sec (take (512 * q) c @ bs @ drop (512 * q + 512) c) r = (if r = q then bs else sec c r)"
proof -
  consider "r < q" | "r = q" | "q < r" by arith
  then show ?thesis
  proof cases
    case 1
    then have "512 * r + 512 \<le> 512 * q" by simp
    then show ?thesis using 1 assms by (simp add: sec_def drop_take min_def)
  next
    case 3
    then obtain m where m: "512 * r = m + (512 * q + 512)" by (metis add.commute le_add_diff_inverse mult_Suc_right mult_le_mono2 Suc_leI add.left_commute)
    have "drop (512 * q + 512) (take (512 * q) c @ bs @ drop (512 * q + 512) c) = drop (512 * q + 512) c" using assms by simp
    then have "drop (512 * r) (take (512 * q) c @ bs @ drop (512 * q + 512) c) = drop (512 * r) c" unfolding m by (simp only: drop_drop[symmetric])
    then show ?thesis using 3 by (simp add: sec_def)
  qed (use assms in \<open>simp add: sec_def\<close>)
qed

lemma concat_sec: "length c = 512 * n \<Longrightarrow> concat (map (sec c) [0..<n]) = c"
proof (induction n arbitrary: c)
  case (Suc n)
  have "map (sec (take (512 * n) c)) [0..<n] = map (sec c) [0..<n]" by (auto simp: sec_def drop_take min_def)
  then have "concat (map (sec c) [0..<n]) = take (512 * n) c" using Suc.IH[of "take (512 * n) c"] Suc.prems by (simp del: map_eq_conv)
  moreover have "sec c n = drop (512 * n) c" using Suc.prems by (simp add: sec_def)
  ultimately show ?case by simp
qed simp

lemma sec_concat: "\<forall>b \<in> set bs. length b = 512 \<Longrightarrow> q < length bs \<Longrightarrow> sec (concat bs) q = bs ! q"
proof (induction bs arbitrary: q)
  case (Cons b bs)
  then show ?case by (cases q) (auto simp: sec_def)
qed simp

lemma length_concat512: "\<forall>b \<in> set bs. length b = 512 \<Longrightarrow> length (concat bs) = 512 * length bs"
  by (induction bs) auto

section \<open>What the system calls promise\<close>

text \<open>
  \<open>cont\<close> is the content of the output file and \<open>inp\<close> that of the input.  A read of a whole sector gives its bytes, a write that does not
  fail stores all of its bytes at the offset, one that fails stores none, and nothing else changes the output.
\<close>

definition pfiles :: "'w xsys \<Rightarrow> int \<Rightarrow> int \<Rightarrow> byte list \<Rightarrow> ('w \<Rightarrow> byte list) \<Rightarrow> bool" where
  "pfiles sys ifd ofd inp cont \<longleftrightarrow>
     (\<forall>off w. let ((rd, data), w') = x_pread sys ifd 512 off w in
        cont w' = cont w \<and> length data \<le> 512 \<and> (512 \<le> rd \<longrightarrow> unat off + 512 \<le> length inp \<and> data = take 512 (drop (unat off) inp))) \<and>
     (\<forall>bs off w. length bs = 512 \<longrightarrow> unat off + 512 \<le> length (cont w) \<longrightarrow> (let (wr, w') = x_pwrite sys ofd bs off w in
        cont w' = (if wr < 0 then cont w else take (unat off) (cont w) @ bs @ drop (unat off + 512) (cont w)))) \<and>
     (\<forall>w. cont (snd (x_fork sys w)) = cont w) \<and> (\<forall>w. cont (snd (x_waitpid sys w)) = cont w)"

text \<open>No call fails.\<close>

definition pworks :: "'w xsys \<Rightarrow> int \<Rightarrow> int \<Rightarrow> byte list \<Rightarrow> ('w \<Rightarrow> byte list) \<Rightarrow> bool" where
  "pworks sys ifd ofd inp cont \<longleftrightarrow>
     (\<forall>off w. unat off + 512 \<le> length inp \<longrightarrow> fst (fst (x_pread sys ifd 512 off w)) = 512) \<and>
     (\<forall>bs off w. length bs = 512 \<longrightarrow> unat off + 512 \<le> length (cont w) \<longrightarrow> 0 \<le> fst (x_pwrite sys ofd bs off w)) \<and>
     (\<forall>w. 0 \<le> fst (x_fork sys w)) \<and> (\<forall>w. 0 \<le> fst (x_waitpid sys w))"

text \<open>A job for several processes: the image in whole sectors, the output of the same size, at most as many CPUs as a \<open>cpuset\<close> has bits.\<close>

definition dei_job :: "'w xsys \<Rightarrow> 'w pipe \<Rightarrow> byte list \<Rightarrow> ('w \<Rightarrow> byte list) \<Rightarrow> bool" where
  "dei_job sys p inp cont \<longleftrightarrow> pfiles sys (dt_ifd (p_ctx p)) (dt_ofd (p_ctx p)) inp cont \<and> length inp mod 512 = 0 \<and> length inp < 2 ^ 63 \<and>
     unat (dt_size (p_ctx p)) = length inp \<and> 1 < dt_ncpus (p_ctx p) \<and> dt_ncpus (p_ctx p) \<le> 1024 \<and> length (cont (p_w p)) = length inp \<and>
     length (p_ibuf p) = 512 \<and> length (p_obuf p) = 512"

section \<open>Children\<close>

definition same_job :: "deitop \<Rightarrow> deitop \<Rightarrow> bool" where
  "same_job c0 c \<longleftrightarrow> dt_ifd c = dt_ifd c0 \<and> dt_ofd c = dt_ofd c0 \<and> dt_size c = dt_size c0 \<and> ae_W (dt_K1 c) = ae_W (dt_K1 c0) \<and> ae_W (dt_K2 c) = ae_W (dt_K2 c0)"

text \<open>Child \<open>j\<close> is at sector \<open>q\<close>: those before it are in the file \<open>c\<close>.\<close>

definition at_sector :: "bool \<Rightarrow> deitop \<Rightarrow> byte list \<Rightarrow> nat \<Rightarrow> nat \<Rightarrow> byte list \<Rightarrow> kid \<Rightarrow> nat \<Rightarrow> bool" where
  "at_sector d c0 inp n j c k q \<longleftrightarrow> same_job c0 (k_ctx k) \<and> length (k_ibuf k) = 512 \<and> length (k_obuf k) = 512 \<and>
     q mod n = j \<and> unat (k_S k) = q \<and> unat (k_off k) = 512 * q \<and> q < length inp div 512 + n \<and>
     (\<forall>r < length inp div 512. r < q \<longrightarrow> r mod n = j \<longrightarrow> sec c r = img d c0 inp r) \<and>
     (case k_st k of KHead \<Rightarrow> True | KWrite \<Rightarrow> q < length inp div 512 \<and> k_obuf k = img d c0 inp q
      | KEnded st \<Rightarrow> st = 0 \<and> length inp div 512 \<le> q | KReaped \<Rightarrow> length inp div 512 \<le> q)"

definition kid_ok :: "bool \<Rightarrow> deitop \<Rightarrow> byte list \<Rightarrow> nat \<Rightarrow> nat \<Rightarrow> byte list \<Rightarrow> kid \<Rightarrow> bool" where
  "kid_ok d c0 inp n j c k \<longleftrightarrow> at_sector d c0 inp n j c k (unat (k_S k))"

definition kid_bad :: "kid \<Rightarrow> bool" where
  "kid_bad k \<longleftrightarrow> (\<exists>st. k_st k = KEnded st \<and> st \<noteq> 0)"

lemma kid_frame:
  assumes "kid_ok d c0 inp n j c k" and "\<And>r. r < length inp div 512 \<Longrightarrow> r mod n = j \<Longrightarrow> sec c' r = sec c r"
  shows "kid_ok d c0 inp n j c' k"
  using assms by (simp add: kid_ok_def at_sector_def)

lemma next_of_class:
  assumes "r < q + n" and "r mod n = q mod n" and "0 < (n :: nat)"
  shows "r < q \<or> r = q"
proof (rule ccontr)
  assume "\<not> (r < q \<or> r = q)"
  then have "0 < r - q" "r - q < n" using assms(1) by auto
  moreover have "n dvd r - q" using assms(2) \<open>\<not> _\<close> by (intro mod_eq_dvd_iff_nat[THEN iffD1]) auto
  ultimately show False by (meson nat_dvd_not_less)
qed

text \<open>One step of a child.\<close>

lemma kid_read_ok:
  assumes env: "pfiles sys (dt_ifd c0) (dt_ofd c0) inp cont" and size: "unat (dt_size c0) = length inp" "length inp mod 512 = 0"
    and k: "kid_ok d c0 inp n j (cont w) k" "k_st k = KHead" and s: "kid_read sys (dei_fn d) k w = Some (k', w')"
  shows "cont w' = cont w \<and> (kid_bad k' \<or> kid_ok d c0 inp n j (cont w') k' \<and> k_S k' = k_S k \<and> (k_st k' = KEnded 0 \<or> k_st k' = KWrite))"
proof -
  let ?q = "unat (k_S k)"
  have q: "at_sector d c0 inp n j (cont w) k ?q" using k(1) by (simp add: kid_ok_def)
  have j: "same_job c0 (k_ctx k)" using q by (simp add: at_sector_def)
  show ?thesis
  proof (cases "k_off k < dt_size (k_ctx k)")
    case False
    then have "length inp \<le> 512 * ?q" using q size(1) by (simp add: at_sector_def same_job_def word_less_nat_alt)
    then have "length inp div 512 \<le> ?q" by simp
    then show ?thesis using False s q by (auto simp: kid_read_def kid_ok_def at_sector_def)
  next
    case True
    obtain rd data w1 where r: "x_pread sys (dt_ifd c0) 512 (k_off k) w = ((rd, data), w1)" by (metis surj_pair)
    have e: "cont w1 = cont w" "length data \<le> 512" "512 \<le> rd \<Longrightarrow> unat (k_off k) + 512 \<le> length inp \<and> data = take 512 (drop (unat (k_off k)) inp)"
      using env[unfolded pfiles_def, THEN conjunct1, rule_format, of "k_off k" w] by (simp_all add: r)
    have r': "x_pread sys (dt_ifd (k_ctx k)) 512 (k_off k) w = ((rd, data), w1)" using r j by (simp add: same_job_def)
    note s' = s[unfolded kid_read_def, simplified True r', simplified]
    show ?thesis
    proof (cases "rd < 512")
      case True
      then show ?thesis using s' e(1) by (auto simp: kid_bad_def split: if_splits bind_splits)
    next
      case False
      then have off: "512 * ?q + 512 \<le> length inp" "data = sec inp ?q" using e(3) q by (auto simp: at_sector_def sec_def)
      have li: "length (k_ibuf k) = 512" "length (k_obuf k) = 512" using q by (simp_all add: at_sector_def)
      have ib: "wrs (k_ibuf k) 0 data = Some data" using li off by (simp add: wrs_def)
      obtain K1 K2 where fn: "dei_fn d (k_ctx k) data (k_obuf k) (k_S k) =
          Some (k_ctx k \<lparr> dt_K1 := K1, dt_K2 := K2 \<rparr>, dei_sector d (ae_W (dt_K1 (k_ctx k))) (ae_W (dt_K2 (k_ctx k))) (k_S k) data)"
          "ae_W K1 = ae_W (dt_K1 (k_ctx k))" "ae_W K2 = ae_W (dt_K2 (k_ctx k))"
        using dei_fn_eq[of data "k_obuf k" d "k_ctx k" "k_S k"] off li by auto
      have "of_nat ?q = k_S k" by simp
      then have im: "dei_sector d (ae_W (dt_K1 (k_ctx k))) (ae_W (dt_K2 (k_ctx k))) (k_S k) data = img d c0 inp ?q" using j off(2) by (simp add: img_def same_job_def)
      have k': "k' = k \<lparr> k_ctx := k_ctx k \<lparr> dt_K1 := K1, dt_K2 := K2 \<rparr>, k_ibuf := data, k_obuf := img d c0 inp ?q, k_st := KWrite \<rparr>" "w' = w1"
        using s' False ib fn(1) im by auto
      have "length (img d c0 inp ?q) = 512" using off(1) by (simp add: img_def)
      moreover have "?q < length inp div 512" using off(1) by (simp only: sec_fits)
      ultimately have "kid_ok d c0 inp n j (cont w) k'" using q off fn(2,3) by (simp add: k'(1) kid_ok_def at_sector_def same_job_def)
      then show ?thesis using e(1) k' by simp
    qed
  qed
qed

lemma kid_write_ok:
  assumes env: "pfiles sys (dt_ifd c0) (dt_ofd c0) inp cont" and len: "length inp < 2 ^ 63" "length (cont w) = length inp" "length inp mod 512 = 0"
    and n: "0 < n" "n \<le> 1024"
    and k: "kid_ok d c0 inp n j (cont w) k" "k_st k = KWrite" and s: "kid_write sys (int n) k w = Some (k', w')"
  shows "length (cont w') = length inp \<and> (\<forall>r < length inp div 512. r mod n \<noteq> j \<longrightarrow> sec (cont w') r = sec (cont w) r) \<and>
    (kid_bad k' \<or> kid_ok d c0 inp n j (cont w') k' \<and> unat (k_S k') = unat (k_S k) + n \<and> k_st k' = KHead)"
proof -
  let ?q = "unat (k_S k)"
  have q: "at_sector d c0 inp n j (cont w) k ?q" using k(1) by (simp add: kid_ok_def)
  have lo: "length (k_obuf k) = 512" using q by (simp add: at_sector_def)
  have qN: "?q < length inp div 512" and ob: "k_obuf k = img d c0 inp ?q" and off: "unat (k_off k) = 512 * ?q" and j: "same_job c0 (k_ctx k)" "?q mod n = j"
    using q k(2) by (simp_all add: at_sector_def)
  have b: "512 * ?q + 512 \<le> length inp" using qN by (simp only: sec_fits)
  obtain r w1 where w: "x_pwrite sys (dt_ofd c0) (k_obuf k) (k_off k) w = (r, w1)" by fastforce
  have c: "cont w1 = (if r < 0 then cont w else take (512 * ?q) (cont w) @ k_obuf k @ drop (512 * ?q + 512) (cont w))"
    using env[unfolded pfiles_def, THEN conjunct2, THEN conjunct1, rule_format, of "k_obuf k" "k_off k" w] w lo off b len(2) by simp
  have w': "x_pwrite sys (dt_ofd (k_ctx k)) (take 512 (k_obuf k)) (k_off k) w = (r, w1)" using w j(1) lo by (simp add: same_job_def)
  show ?thesis
  proof (cases "r < 0")
    case True
    then show ?thesis using s w' c len(2) by (auto simp: kid_write_def kid_bad_def)
  next
    case False
    have k': "k' = k \<lparr> k_S := k_S k + word_of_int (int n), k_off := k_off k + word_of_int (int n * 512), k_st := KHead \<rparr>" "w' = w1"
      using s w' False by (auto simp: kid_write_def)
    have sc: "sec (cont w') r = (if r = ?q then img d c0 inp ?q else sec (cont w) r)" for r
      using sec_put[of "k_obuf k" ?q "cont w" r] c False k'(2) ob lo b len(2) by simp
    have lc: "length (cont w') = length inp" using c False k'(2) b len(2) lo by simp
    have uS: "unat (k_S k + word_of_int (int n)) = ?q + n"
      using qN n len(1) by (subst unat_add_lem[THEN iffD1]) (simp_all add: take_bit_nat_eq_self unsigned_of_nat)
    have uo: "unat (k_off k + word_of_int (int n * 512)) = 512 * (?q + n)"
    proof -
      have "(word_of_int (int n * 512) :: u64) = of_nat (n * 512)" by simp
      then have "unat (word_of_int (int n * 512) :: u64) = 512 * n" using n by (simp only: unsigned_of_nat) (simp add: take_bit_nat_eq_self)
      then show ?thesis using off b len(1) n by (subst unat_add_lem[THEN iffD1]) simp_all
    qed
    have "sec (cont w') r = img d c0 inp r" if "r < length inp div 512" "r < ?q + n" "r mod n = j" for r
    proof -
      have "r < ?q \<or> r = ?q" by (rule next_of_class[OF that(2)]) (use that j(2) n in auto)
      then show ?thesis using sc q that by (auto simp: at_sector_def)
    qed
    moreover have "(?q + n) mod n = j" using j(2) by simp
    ultimately have "kid_ok d c0 inp n j (cont w') k'"
      using q uS uo qN by (simp add: k'(1) kid_ok_def at_sector_def)
    moreover have "\<forall>r < length inp div 512. r mod n \<noteq> j \<longrightarrow> sec (cont w') r = sec (cont w) r" using sc j(2) by auto
    ultimately show ?thesis using lc uS k'(1) by simp
  qed
qed

lemma kid_step_moves:
  "kid_step sys fn n k w = Some (k', w') \<Longrightarrow> (k_st k = KHead \<or> k_st k = KWrite) \<and> k_st k' \<noteq> KReaped"
  by (auto simp: kid_step_def kid_read_def kid_write_def Let_def split: kstate.splits prod.splits if_splits bind_splits)

lemma kid_step_ok:
  assumes env: "pfiles sys (dt_ifd c0) (dt_ofd c0) inp cont" and size: "unat (dt_size c0) = length inp" "length inp mod 512 = 0" "length inp < 2 ^ 63"
    and w: "length (cont w) = length inp" and n: "0 < n" "n \<le> 1024"
    and k: "kid_ok d c0 inp n j (cont w) k" and s: "kid_step sys (dei_fn d) (int n) k w = Some (k', w')"
  shows "length (cont w') = length inp" and "\<forall>r < length inp div 512. r mod n \<noteq> j \<longrightarrow> sec (cont w') r = sec (cont w) r"
    and "kid_bad k' \<or> kid_ok d c0 inp n j (cont w') k' \<and> (k_st k = KHead \<and> k_S k' = k_S k \<and> (k_st k' = KEnded 0 \<or> k_st k' = KWrite) \<or>
      k_st k = KWrite \<and> unat (k_S k') = unat (k_S k) + n \<and> k_st k' = KHead)"
proof -
  consider "k_st k = KHead" | "k_st k = KWrite" using kid_step_moves[OF s] by blast
  then have *: "length (cont w') = length inp \<and> (\<forall>r < length inp div 512. r mod n \<noteq> j \<longrightarrow> sec (cont w') r = sec (cont w) r) \<and>
    (kid_bad k' \<or> kid_ok d c0 inp n j (cont w') k' \<and> (k_st k = KHead \<and> k_S k' = k_S k \<and> (k_st k' = KEnded 0 \<or> k_st k' = KWrite) \<or>
      k_st k = KWrite \<and> unat (k_S k') = unat (k_S k) + n \<and> k_st k' = KHead))"
  proof cases
    case 1
    then have "kid_read sys (dei_fn d) k w = Some (k', w')" using s by (simp add: kid_step_def)
    from kid_read_ok[OF env size(1,2) k 1 this] show ?thesis using 1 w by auto
  next
    case 2
    then have "kid_write sys (int n) k w = Some (k', w')" using s by (simp add: kid_step_def)
    from kid_write_ok[OF env size(3) w size(2) n k 2 this] show ?thesis using 2 by simp
  qed
  show "length (cont w') = length inp" "\<forall>r < length inp div 512. r mod n \<noteq> j \<longrightarrow> sec (cont w') r = sec (cont w) r"
    "kid_bad k' \<or> kid_ok d c0 inp n j (cont w') k' \<and> (k_st k = KHead \<and> k_S k' = k_S k \<and> (k_st k' = KEnded 0 \<or> k_st k' = KWrite) \<or>
      k_st k = KWrite \<and> unat (k_S k') = unat (k_S k) + n \<and> k_st k' = KHead)"
    using * by blast+
qed

text \<open>When no call fails, a child that has not ended can go on, and does not end with an error.\<close>

lemma kid_works:
  assumes env: "pfiles sys (dt_ifd c0) (dt_ofd c0) inp cont" and wk: "pworks sys (dt_ifd c0) (dt_ofd c0) inp cont"
    and size: "unat (dt_size c0) = length inp" "length inp mod 512 = 0" and w: "length (cont w) = length inp"
    and k: "kid_ok d c0 inp n j (cont w) k" "k_st k = KHead \<or> k_st k = KWrite"
  shows "\<exists>k' w'. kid_step sys (dei_fn d) (int n) k w = Some (k', w') \<and> \<not> kid_bad k'"
proof -
  let ?q = "unat (k_S k)"
  have q: "at_sector d c0 inp n j (cont w) k ?q" using k(1) by (simp add: kid_ok_def)
  have li: "length (k_ibuf k) = 512" "length (k_obuf k) = 512" "unat (k_off k) = 512 * ?q" and j: "same_job c0 (k_ctx k)" using q by (simp_all add: at_sector_def)
  show ?thesis
  proof (cases "k_st k")
    case KHead
    show ?thesis
    proof (cases "k_off k < dt_size (k_ctx k)")
      case False
      then show ?thesis using KHead by (simp add: kid_step_def kid_read_def kid_bad_def)
    next
      case True
      then have "512 * ?q < length inp" using li(3) size(1) j by (simp add: same_job_def word_less_nat_alt)
      then have b: "512 * ?q + 512 \<le> length inp" by (rule sec_whole[OF size(2)])
      obtain rd data w1 where r: "x_pread sys (dt_ifd c0) 512 (k_off k) w = ((rd, data), w1)" by (metis surj_pair)
      have rd: "rd = 512" using wk r b li(3) unfolding pworks_def by (metis fst_conv)
      have "data = sec inp ?q" using env[unfolded pfiles_def, THEN conjunct1, rule_format, of "k_off k" w] r rd li(3) by (simp add: sec_def)
      then have ld: "length data = 512" using b by simp
      obtain r1 where "dei_fn d (k_ctx k) data (k_obuf k) (k_S k) = Some r1" using dei_fn_eq[OF ld li(2)] by blast
      moreover have "wrs (k_ibuf k) 0 data = Some data" using ld li(1) by (simp add: wrs_def)
      moreover have "x_pread sys (dt_ifd (k_ctx k)) 512 (k_off k) w = ((rd, data), w1)" using r j by (simp add: same_job_def)
      ultimately show ?thesis using KHead True rd by (cases r1) (simp add: kid_step_def kid_read_def kid_bad_def)
    qed
  next
    case KWrite
    then have "?q < length inp div 512" using q by (simp add: at_sector_def)
    then have b: "512 * ?q + 512 \<le> length inp" by (simp only: sec_fits)
    obtain r w1 where r: "x_pwrite sys (dt_ofd c0) (k_obuf k) (k_off k) w = (r, w1)" by fastforce
    have "0 \<le> fst (x_pwrite sys (dt_ofd c0) (k_obuf k) (k_off k) w)"
      using wk[unfolded pworks_def, THEN conjunct2, THEN conjunct1, rule_format, of "k_obuf k" "k_off k" w] li b w by simp
    moreover have "x_pwrite sys (dt_ofd (k_ctx k)) (take 512 (k_obuf k)) (k_off k) w = (r, w1)" using r li j by (simp add: same_job_def)
    ultimately show ?thesis using KWrite r by (simp add: kid_step_def kid_write_def kid_bad_def)
  qed (use k(2) in auto)
qed

section \<open>All processes\<close>

definition good :: "bool \<Rightarrow> deitop \<Rightarrow> byte list \<Rightarrow> ('w \<Rightarrow> byte list) \<Rightarrow> 'w multi \<Rightarrow> bool" where
  "good d c0 inp cont m \<longleftrightarrow> int (length (m_kids m)) = m_i m \<and> length (cont (m_w m)) = length inp \<and>
     (\<forall>j < length (m_kids m). kid_ok d c0 inp (nat (dt_ncpus c0)) j (cont (m_w m)) (m_kids m ! j))"

definition spoilt :: "'w multi \<Rightarrow> bool" where
  "spoilt m \<longleftrightarrow> m_failed m \<or> (\<exists>k \<in> set (m_kids m). kid_bad k)"

definition minv :: "bool \<Rightarrow> deitop \<Rightarrow> byte list \<Rightarrow> ('w \<Rightarrow> byte list) \<Rightarrow> 'w multi \<Rightarrow> bool" where
  "minv d c0 inp cont m \<longleftrightarrow> m_ctx m = c0 \<and> length (m_ibuf m) = 512 \<and> length (m_obuf m) = 512 \<and> 0 \<le> m_i m \<and> m_i m \<le> dt_ncpus c0 \<and>
     length (m_kids m) = m_nc m \<and> m_got m = length (filter (\<lambda>k. k_st k = KReaped) (m_kids m)) \<and> (spoilt m \<or> good d c0 inp cont m) \<and>
     (m_end m = Some 0 \<longrightarrow> \<not> m_failed m \<and> m_i m = dt_ncpus c0 \<and> (\<forall>k \<in> set (m_kids m). k_st k = KReaped))"

lemma length_filter_update:
  "j < length xs \<Longrightarrow> length (filter P (xs[j := x])) + (if P (xs ! j) then 1 else 0) = length (filter P xs) + (if P x then 1 else 0)"
proof (induction xs arbitrary: j)
  case (Cons y xs)
  then show ?case using Cons.IH[of "j - 1"] by (cases j) auto
qed simp

lemma all_reaped: "length xs \<le> length (filter P xs) \<Longrightarrow> \<forall>x \<in> set xs. P x"
  by (metis length_filter_less linorder_not_le)

lemma set_update_other: "x \<in> set xs \<Longrightarrow> j < length xs \<Longrightarrow> x \<noteq> xs ! j \<Longrightarrow> x \<in> set (xs[j := y])"
  by (metis in_set_conv_nth length_list_update nth_list_update_neq)

lemma child_inv:
  assumes env: "pfiles sys (dt_ifd c0) (dt_ofd c0) inp cont" and size: "unat (dt_size c0) = length inp" "length inp mod 512 = 0" "length inp < 2 ^ 63"
    and n: "0 < dt_ncpus c0" "dt_ncpus c0 \<le> 1024"
    and m: "minv d c0 inp cont m" and j: "j < length (m_kids m)" and s: "kid_step sys (dei_fn d) (dt_ncpus (m_ctx m)) (m_kids m ! j) (m_w m) = Some (k, w)"
  shows "minv d c0 inp cont (m \<lparr> m_kids := (m_kids m)[j := k], m_w := w \<rparr>)"
proof -
  let ?m = "m \<lparr> m_kids := (m_kids m)[j := k], m_w := w \<rparr>" and ?n = "nat (dt_ncpus c0)"
  note mv = kid_step_moves[OF s]
  have in': "m_kids m ! j \<in> set (m_kids m)" using j by simp
  have kk: "k \<in> set ((m_kids m)[j := k])" using j by (rule set_update_memI)
  have got: "length (filter (\<lambda>k. k_st k = KReaped) ((m_kids m)[j := k])) = length (filter (\<lambda>k. k_st k = KReaped) (m_kids m))"
    using length_filter_update[OF j, of "\<lambda>k. k_st k = KReaped" k] mv by auto
  have nb: "\<not> kid_bad (m_kids m ! j)" using mv by (auto simp: kid_bad_def)
  have "spoilt ?m \<or> good d c0 inp cont ?m"
  proof (cases "spoilt m")
    case True
    then show ?thesis using nb set_update_other[OF _ j] by (auto simp: spoilt_def)
  next
    case False
    then have g: "good d c0 inp cont m" using m by (simp add: minv_def)
    have nn: "0 < ?n" "?n \<le> 1024" using n by auto
    have s': "kid_step sys (dei_fn d) (int ?n) (m_kids m ! j) (m_w m) = Some (k, w)" using s m n by (simp add: minv_def)
    have wl: "length (cont (m_w m)) = length inp" and ko: "kid_ok d c0 inp ?n j (cont (m_w m)) (m_kids m ! j)" using g j by (auto simp: good_def)
    note st = kid_step_ok[OF env size wl nn ko s']
    show ?thesis
    proof (cases "kid_bad k")
      case True
      then show ?thesis using kk by (auto simp: spoilt_def)
    next
      case False
      have "kid_ok d c0 inp ?n i (cont w) ((m_kids m)[j := k] ! i)" if i: "i < length (m_kids m)" for i
      proof (cases "i = j")
        case True
        then show ?thesis using st(3) False j by simp
      next
        case ij: False
        have "kid_ok d c0 inp ?n i (cont (m_w m)) (m_kids m ! i)" using g i by (simp add: good_def)
        then have "kid_ok d c0 inp ?n i (cont w) (m_kids m ! i)" by (rule kid_frame) (use st(2) ij in auto)
        then show ?thesis using ij by simp
      qed
      then show ?thesis using g st(1) by (simp add: good_def)
    qed
  qed
  moreover have "m_end m \<noteq> Some 0" using m mv in' by (auto simp: minv_def)
  ultimately show ?thesis using m got by (simp add: minv_def)
qed

lemma new_kid:
  assumes "0 \<le> i" and "nat i < n" and "n \<le> 1024" and "length ib = 512" and "length ob = 512"
  shows "kid_ok d c0 inp n (nat i) c (pipe_data_child c0 ib ob i)" and "unat (k_S (pipe_data_child c0 ib ob i)) = nat i"
proof -
  obtain q where q: "i = int q" using assms(1) nonneg_int_cases by blast
  have S: "unat (word_of_int i :: u64) = q" using q assms(2,3) by (simp add: unsigned_of_nat take_bit_nat_eq_self)
  have "(word_of_int (i * 512) :: u64) = of_nat (q * 512)" using q by simp
  then have "unat (word_of_int (i * 512) :: u64) = 512 * q" using q assms(2,3) by (simp only: unsigned_of_nat) (simp add: take_bit_nat_eq_self)
  then show "kid_ok d c0 inp n (nat i) c (pipe_data_child c0 ib ob i)" "unat (k_S (pipe_data_child c0 ib ob i)) = nat i"
    using S q assms by (auto simp: kid_ok_def at_sector_def pipe_data_child_def same_job_def dest: mod_less)
qed

lemma fork_inv:
  assumes env: "pfiles sys (dt_ifd c0) (dt_ofd c0) inp cont" and n: "dt_ncpus c0 \<le> 1024"
    and m: "minv d c0 inp cont m" and i: "m_i m < dt_ncpus c0" "m_end m = None"
  shows "minv d c0 inp cont (fork_step sys m)" and "0 \<le> fst (x_fork sys (m_w m)) \<Longrightarrow> good d c0 inp cont m \<Longrightarrow> good d c0 inp cont (fork_step sys m)"
proof -
  obtain pid w where f: "x_fork sys (m_w m) = (pid, w)" by fastforce
  have c: "cont w = cont (m_w m)" using env f unfolding pfiles_def by (metis snd_conv)
  let ?k = "pipe_data_child (m_ctx m) (m_ibuf m) (m_obuf m) (m_i m)"
  have k: "kid_ok d c0 inp (nat (dt_ncpus c0)) (nat (m_i m)) (cont w) ?k" using m i n new_kid(1)[of "m_i m" "nat (dt_ncpus c0)" "m_ibuf m" "m_obuf m"] by (simp add: minv_def)
  have st: "k_st ?k \<noteq> KReaped" by (simp add: pipe_data_child_def)
  have g: "good d c0 inp cont (fork_step sys m)" if "good d c0 inp cont m" "0 \<le> pid"
  proof -
    have "nat (m_i m) = length (m_kids m)" using that(1) by (auto simp: good_def)
    then show ?thesis using f c k that by (auto simp: good_def fork_step_def nth_append less_Suc_eq)
  qed
  have sp: "spoilt m \<Longrightarrow> spoilt (fork_step sys m)" by (auto simp: spoilt_def fork_step_def f)
  have bad: "pid < 0 \<Longrightarrow> spoilt (fork_step sys m)" by (simp add: spoilt_def fork_step_def f)
  show "0 \<le> fst (x_fork sys (m_w m)) \<Longrightarrow> good d c0 inp cont m \<Longrightarrow> good d c0 inp cont (fork_step sys m)" using g f by simp
  have "spoilt (fork_step sys m) \<or> good d c0 inp cont (fork_step sys m)" using m g sp bad by (force simp: minv_def)
  then show "minv d c0 inp cont (fork_step sys m)" using m i st by (auto simp: minv_def fork_step_def f)
qed

lemma wait_inv:
  assumes env: "pfiles sys (dt_ifd c0) (dt_ofd c0) inp cont" and m: "minv d c0 inp cont m" and e: "m_end m = None" and s: "wait_step sys j m = Some m'"
  shows "minv d c0 inp cont m'" and "0 \<le> fst (x_waitpid sys (m_w m)) \<Longrightarrow> \<not> spoilt m \<Longrightarrow> good d c0 inp cont m' \<and> \<not> spoilt m' \<and> m_end m' = None"
proof -
  obtain r w where f: "x_waitpid sys (m_w m) = (r, w)" by fastforce
  have c: "cont w = cont (m_w m)" using env f unfolding pfiles_def by (metis snd_conv)
  obtain st where j: "j < length (m_kids m)" and st: "k_st (m_kids m ! j) = KEnded st" using s by (auto simp: wait_step_def split: if_splits kstate.splits)
  let ?k = "(m_kids m ! j) \<lparr> k_st := KReaped \<rparr>"
  let ?m = "m \<lparr> m_kids := (m_kids m)[j := ?k], m_failed := (m_failed m \<or> st \<noteq> 0), m_got := m_got m + 1, m_w := w \<rparr>"
  have m': "m' = (if r < 0 then m \<lparr> m_end := Some 0xFF, m_w := w \<rparr> else ?m)" using s j st f by (auto simp: wait_step_def split: if_splits)
  have g: "good d c0 inp cont ?m" if "good d c0 inp cont m"
  proof -
    have "kid_ok d c0 inp (nat (dt_ncpus c0)) j (cont (m_w m)) (m_kids m ! j)" using that j by (simp add: good_def)
    then have "kid_ok d c0 inp (nat (dt_ncpus c0)) j (cont (m_w m)) ?k" using st by (simp add: kid_ok_def at_sector_def)
    then show ?thesis using that c j by (auto simp: good_def nth_list_update)
  qed
  have sp: "spoilt ?m" if "spoilt m"
  proof (cases "st = 0")
    case True
    then have "\<not> kid_bad (m_kids m ! j)" using st by (simp add: kid_bad_def)
    then show ?thesis using that set_update_other[OF _ j] by (auto simp: spoilt_def)
  qed (simp add: spoilt_def)
  have got: "length (filter (\<lambda>k. k_st k = KReaped) ((m_kids m)[j := ?k])) = m_got m + 1"
    using length_filter_update[OF j, of "\<lambda>k. k_st k = KReaped" ?k] st m by (simp add: minv_def)
  have "good d c0 inp cont m \<Longrightarrow> good d c0 inp cont (m \<lparr> m_end := Some 0xFF, m_w := w \<rparr>)" using c by (simp add: good_def)
  moreover have "spoilt m \<Longrightarrow> spoilt (m \<lparr> m_end := Some 0xFF, m_w := w \<rparr>)" by (simp add: spoilt_def)
  ultimately show "minv d c0 inp cont m'" using m m' g sp got e by (auto simp: minv_def)
  show "good d c0 inp cont m' \<and> \<not> spoilt m' \<and> m_end m' = None" if "0 \<le> fst (x_waitpid sys (m_w m))" "\<not> spoilt m"
  proof -
    have "st = 0" using that(2) st j nth_mem[OF j] by (auto simp: spoilt_def kid_bad_def)
    moreover have "\<not> kid_bad ?k" by (simp add: kid_bad_def)
    ultimately have "\<not> spoilt ?m" using that(2) set_update_subset_insert[of "m_kids m" j ?k] by (auto simp: spoilt_def)
    then show ?thesis using m' that f g m e by (simp add: minv_def)
  qed
qed

lemma parent_cases:
  assumes "parent_step sys j m = Some m'"
  obtains (fork) "m_end m = None" and "m_i m < dt_ncpus (m_ctx m)" and "m' = fork_step sys m"
  | (wait) "m_end m = None" and "\<not> m_i m < dt_ncpus (m_ctx m)" and "m_got m < m_nc m" and "wait_step sys j m = Some m'"
  | (finish) "m_end m = None" and "\<not> m_i m < dt_ncpus (m_ctx m)" and "\<not> m_got m < m_nc m" and "m' = m \<lparr> m_end := Some (if m_failed m then 0xFF else 0) \<rparr>"
  using assms by (auto simp: parent_step_def split: if_splits)

lemma mstep_inv:
  assumes env: "pfiles sys (dt_ifd c0) (dt_ofd c0) inp cont" and size: "unat (dt_size c0) = length inp" "length inp mod 512 = 0" "length inp < 2 ^ 63"
    and n: "0 < dt_ncpus c0" "dt_ncpus c0 \<le> 1024" and s: "mstep sys (dei_fn d) m m'" and m: "minv d c0 inp cont m"
  shows "minv d c0 inp cont m'"
  using s
proof cases
  case (parent j)
  have c: "m_ctx m = c0" using m by (simp add: minv_def)
  show ?thesis
    using parent
  proof (cases rule: parent_cases)
    case fork
    then show ?thesis using fork_inv(1)[OF env n(2) m] c by simp
  next
    case wait
    then show ?thesis using wait_inv(1)[OF env m] by simp
  next
    case finish
    have "\<forall>k \<in> set (m_kids m). k_st k = KReaped" using m finish(3) by (intro all_reaped) (simp add: minv_def)
    moreover have "good d c0 inp cont m \<Longrightarrow> good d c0 inp cont m'" "spoilt m \<Longrightarrow> spoilt m'" using finish(4) by (simp_all add: good_def spoilt_def)
    ultimately show ?thesis using m finish c by (auto simp: minv_def)
  qed
next
  case (child j k w)
  then show ?thesis using child_inv[OF env size n m child(2)] by simp
qed

lemma multi_start: "dei_job sys p inp cont \<Longrightarrow> minv d (p_ctx p) inp cont (pipe_data_multi p) \<and> good d (p_ctx p) inp cont (pipe_data_multi p) \<and> \<not> spoilt (pipe_data_multi p)"
  by (simp add: dei_job_def minv_def good_def spoilt_def pipe_data_multi_def)

lemma multi_inv:
  assumes job: "dei_job sys p inp cont" and r: "(mstep sys (dei_fn d))\<^sup>*\<^sup>* (pipe_data_multi p) m"
  shows "minv d (p_ctx p) inp cont m"
  using r
proof (induction rule: rtranclp_induct)
  case base
  then show ?case using multi_start[OF job] by blast
next
  case (step m m')
  show ?case by (rule mstep_inv[OF _ _ _ _ _ _ step(2,3)]) (use job in \<open>auto simp: dei_job_def\<close>)
qed

text \<open>When every child has been waited for, each sector has been written by one of them.\<close>

lemma image_done:
  assumes job: "dei_job sys p inp cont" and m: "minv d (p_ctx p) inp cont m" "m_end m = Some 0"
  shows "cont (m_w m) = dei_image d (p_ctx p) inp"
proof -
  let ?N = "length inp div 512" and ?n = "nat (dt_ncpus (p_ctx p))"
  have re: "\<forall>k \<in> set (m_kids m). k_st k = KReaped" "\<not> m_failed m" "m_i m = dt_ncpus (p_ctx p)" using m by (auto simp: minv_def)
  then have "\<not> spoilt m" by (auto simp: spoilt_def kid_bad_def)
  then have g: "good d (p_ctx p) inp cont m" using m(1) by (simp add: minv_def)
  then have len: "length (m_kids m) = ?n" "length (cont (m_w m)) = length inp" using re(3) by (auto simp: good_def)
  have n0: "0 < ?n" using job by (simp add: dei_job_def)
  have "sec (cont (m_w m)) q = img d (p_ctx p) inp q" if "q < ?N" for q
  proof -
    have j: "q mod ?n < length (m_kids m)" using n0 len(1) by simp
    then have "kid_ok d (p_ctx p) inp ?n (q mod ?n) (cont (m_w m)) (m_kids m ! (q mod ?n))" "k_st (m_kids m ! (q mod ?n)) = KReaped" using g re(1) by (auto simp: good_def)
    then show ?thesis using that by (auto simp: kid_ok_def at_sector_def)
  qed
  then have "concat (map (sec (cont (m_w m))) [0..<?N]) = dei_image d (p_ctx p) inp"
    unfolding dei_image_def by (intro arg_cong[of _ _ concat] map_cong) simp_all
  moreover have "length inp = 512 * ?N" using job by (simp add: dei_job_def mult_div_mod_eq[symmetric] minus_mod_eq_mult_div[symmetric])
  ultimately show ?thesis using concat_sec[of "cont (m_w m)" ?N] len(2) by simp
qed

section \<open>Every run ends\<close>

definition kmu :: "nat \<Rightarrow> kid \<Rightarrow> nat" where
  "kmu B k = (case k_st k of KHead \<Rightarrow> 2 * (B - unat (k_S k)) + 2 | KWrite \<Rightarrow> 2 * (B - unat (k_S k)) + 1 | KEnded _ \<Rightarrow> 1 | KReaped \<Rightarrow> 0)"

definition mmu :: "nat \<Rightarrow> 'w multi \<Rightarrow> nat" where
  "mmu B m = (if m_end m = None then 1 else 0) + nat (dt_ncpus (m_ctx m) - m_i m) * (2 * B + 3) + sum_list (map (kmu B) (m_kids m))"

lemma sum_update_less: "j < length xs \<Longrightarrow> f x < (f (xs ! j) :: nat) \<Longrightarrow> sum_list (map f (xs[j := x])) < sum_list (map f xs)"
proof (induction xs arbitrary: j)
  case (Cons y xs)
  then show ?case using Cons.IH[of "j - 1"] by (cases j) auto
qed simp

definition alive :: "bool \<Rightarrow> deitop \<Rightarrow> byte list \<Rightarrow> ('w \<Rightarrow> byte list) \<Rightarrow> 'w multi \<Rightarrow> bool" where
  "alive d c0 inp cont m \<longleftrightarrow> minv d c0 inp cont m \<and> good d c0 inp cont m \<and> \<not> spoilt m \<and> (m_end m = None \<or> m_end m = Some 0)"

lemma alive_step:
  assumes env: "pfiles sys (dt_ifd c0) (dt_ofd c0) inp cont" and wk: "pworks sys (dt_ifd c0) (dt_ofd c0) inp cont"
    and size: "unat (dt_size c0) = length inp" "length inp mod 512 = 0" "length inp < 2 ^ 63"
    and n: "1 < dt_ncpus c0" "dt_ncpus c0 \<le> 1024" and s: "mstep sys (dei_fn d) m m'" and m: "alive d c0 inp cont m"
  shows "alive d c0 inp cont m' \<and> mmu (length inp div 512 + nat (dt_ncpus c0)) m' < mmu (length inp div 512 + nat (dt_ncpus c0)) m"
proof -
  let ?n = "nat (dt_ncpus c0)" and ?B = "length inp div 512 + nat (dt_ncpus c0)"
  have mi: "minv d c0 inp cont m" and g: "good d c0 inp cont m" and sp: "\<not> spoilt m" using m by (auto simp: alive_def)
  have mi': "minv d c0 inp cont m'" by (rule mstep_inv[OF env size _ n(2) s mi]) (use n in simp)
  have c: "m_ctx m = c0" using mi by (simp add: minv_def)
  show ?thesis
    using s
  proof cases
    case (parent j)
    show ?thesis
      using parent
    proof (cases rule: parent_cases)
      case fork
      obtain pid w where f: "x_fork sys (m_w m) = (pid, w)" by fastforce
      have p: "0 \<le> pid" using wk f unfolding pworks_def by (metis fst_conv)
      let ?k = "pipe_data_child (m_ctx m) (m_ibuf m) (m_obuf m) (m_i m)"
      have m'': "m' = m \<lparr> m_i := m_i m + 1, m_nc := m_nc m + 1, m_kids := m_kids m @ [?k], m_w := w \<rparr>" using fork(3) f p by (simp add: fork_step_def)
      have "kmu ?B ?k \<le> 2 * ?B + 2" by (simp add: kmu_def pipe_data_child_def)
      moreover have "nat (dt_ncpus c0 - m_i m) = Suc (nat (dt_ncpus c0 - (m_i m + 1)))" using fork(2) c by simp
      ultimately have "mmu ?B m' < mmu ?B m" by (simp add: mmu_def m'' c)
      moreover have "good d c0 inp cont m'" using fork_inv(2)[OF env n(2) mi fork(2)[unfolded c] fork(1)] f p g fork(3) by simp
      moreover have "\<not> spoilt m'" using sp by (auto simp: m'' spoilt_def kid_bad_def pipe_data_child_def)
      ultimately show ?thesis using mi' fork(1) by (simp add: alive_def m'')
    next
      case wait
      have "0 \<le> fst (x_waitpid sys (m_w m))" using wk by (simp add: pworks_def)
      note w = wait_inv(2)[OF env mi wait(1,4) this sp]
      obtain st where j: "j < length (m_kids m)" "k_st (m_kids m ! j) = KEnded st" using wait(4) by (auto simp: wait_step_def split: if_splits kstate.splits)
      let ?k = "(m_kids m ! j) \<lparr> k_st := KReaped \<rparr>"
      have m'': "m_kids m' = (m_kids m)[j := ?k]" "m_i m' = m_i m" "m_ctx m' = m_ctx m" using wait(1,4) j w by (auto simp: wait_step_def Let_def split: if_splits prod.splits)
      have "sum_list (map (kmu ?B) (m_kids m')) < sum_list (map (kmu ?B) (m_kids m))"
        unfolding m''(1) by (rule sum_update_less[OF j(1)]) (simp add: kmu_def j(2))
      then show ?thesis using w mi' m'' wait(1) by (simp add: alive_def mmu_def)
    next
      case finish
      have "\<not> m_failed m" using sp by (simp add: spoilt_def)
      then show ?thesis using finish g sp mi' by (simp add: alive_def mmu_def good_def spoilt_def)
    qed
  next
    case (child j k w)
    let ?k = "m_kids m ! j"
    have nn: "0 < ?n" "?n \<le> 1024" using n by auto
    have s': "kid_step sys (dei_fn d) (int ?n) ?k (m_w m) = Some (k, w)" using child(3) c n by simp
    have wl: "length (cont (m_w m)) = length inp" and ko: "kid_ok d c0 inp ?n j (cont (m_w m)) ?k" using g child(2) by (auto simp: good_def)
    have nb: "\<not> kid_bad k" using kid_works[OF env wk size(1,2) wl ko] kid_step_moves[OF s'] s' by auto
    then have k: "kid_ok d c0 inp ?n j (cont w) k" "k_st ?k = KHead \<and> k_S k = k_S ?k \<and> (k_st k = KEnded 0 \<or> k_st k = KWrite) \<or>
      k_st ?k = KWrite \<and> unat (k_S k) = unat (k_S ?k) + ?n \<and> k_st k = KHead" using kid_step_ok(3)[OF env size wl nn ko s'] by auto
    have q: "k_st ?k = KWrite \<Longrightarrow> unat (k_S ?k) < length inp div 512" using ko by (simp add: kid_ok_def at_sector_def)
    have "kmu ?B k < kmu ?B ?k" using k(2) q n by (auto simp: kmu_def)
    then have "sum_list (map (kmu ?B) ((m_kids m)[j := k])) < sum_list (map (kmu ?B) (m_kids m))" by (rule sum_update_less[OF child(2)])
    then have "mmu ?B m' < mmu ?B m" by (simp add: mmu_def child(1))
    moreover have ns: "\<not> spoilt m'" using sp nb set_update_subset_insert[of "m_kids m" j k] by (auto simp: child(1) spoilt_def)
    moreover have "good d c0 inp cont m'" using mi' ns by (simp add: minv_def)
    ultimately show ?thesis using mi' m child(1) by (simp add: alive_def)
  qed
qed

lemma alive_progress:
  assumes env: "pfiles sys (dt_ifd c0) (dt_ofd c0) inp cont" and wk: "pworks sys (dt_ifd c0) (dt_ofd c0) inp cont"
    and size: "unat (dt_size c0) = length inp" "length inp mod 512 = 0" and n: "0 < dt_ncpus c0" and m: "alive d c0 inp cont m" and e: "m_end m = None"
  shows "\<exists>m'. mstep sys (dei_fn d) m m'"
proof (cases "m_i m < dt_ncpus (m_ctx m) \<or> \<not> m_got m < m_nc m")
  case True
  then have "\<exists>m'. parent_step sys 0 m = Some m'" using e by (auto simp: parent_step_def)
  then show ?thesis by (auto intro: mstep.parent)
next
  case False
  have mi: "minv d c0 inp cont m" and g: "good d c0 inp cont m" using m by (auto simp: alive_def)
  have c: "m_ctx m = c0" using mi by (simp add: minv_def)
  have "\<exists>k \<in> set (m_kids m). k_st k \<noteq> KReaped" 
  proof (rule ccontr)
    assume "\<not> ?thesis"
    then have "filter (\<lambda>k. k_st k = KReaped) (m_kids m) = m_kids m" by (intro filter_True) blast
    then show False using False mi by (simp add: minv_def)
  qed
  then obtain j where j: "j < length (m_kids m)" "k_st (m_kids m ! j) \<noteq> KReaped" by (auto simp: in_set_conv_nth)
  show ?thesis
  proof (cases "k_st (m_kids m ! j)")
    case (KEnded st)
    then have "\<exists>m'. parent_step sys j m = Some m'" using False e j by (auto simp: parent_step_def wait_step_def Let_def split: prod.splits)
    then show ?thesis by (auto intro: mstep.parent)
  next
    case KReaped
    then show ?thesis using j by simp
  qed (use kid_works[OF env wk size, of "m_w m" d "nat (dt_ncpus c0)" j "m_kids m ! j"] g j c n in \<open>fastforce simp: good_def intro: mstep.child\<close>)+
qed

end
