(* ===== verification/Deitool_Props.thy ===== *)
theory Deitool_Props
  imports Deitool_Multi Keyfile_Props
begin

text \<open>
  What \<^verbatim>\<open>deitool.c\<close> writes: the image of every sector in its place, in one process or in several; that it ends; and that decryption
  restores the file.
\<close>

section \<open>One process\<close>

lemma writeall_loop_keeps: "(\<And>bs w. v (snd (sw fd bs w)) = v w) \<Longrightarrow> v (snd (writeall_loop sw fd bs got w)) = v w"
proof (induction bs arbitrary: got w rule: measure_induct_rule[of length])
  case (less bs)
  obtain g w1 where s: "sw fd bs w = (g, w1)" by fastforce
  have w1: "v w1 = v w" using less.prems[of bs w] s by simp
  show ?case
  proof (cases "bs = [] \<or> g \<le> 0")
    case True
    then show ?thesis using s w1 by (subst writeall_loop.simps) (auto simp: EPIPE_def Let_def)
  next
    case False
    then have "v (snd (writeall_loop sw fd (drop (nat g) bs) g w1)) = v w1" by (intro less.IH less.prems) auto
    then show ?thesis using s w1 False by (subst writeall_loop.simps) (auto simp: Let_def)
  qed
qed

lemma writeall_keeps: "(\<And>bs w. v (snd (sw fd bs w)) = v w) \<Longrightarrow> v (snd (writeall sw fd bs w)) = v w"
  by (simp add: writeall_def writeall_loop_keeps)

text \<open>
  Input and output as streams: reads give the bytes at the position \<open>pos\<close> of the input, up to its end, and writes append to the output.
\<close>

definition sfiles :: "'w xsys \<Rightarrow> int \<Rightarrow> int \<Rightarrow> byte list \<Rightarrow> ('w \<Rightarrow> nat) \<Rightarrow> ('w \<Rightarrow> byte list) \<Rightarrow> bool" where
  "sfiles sys ifd ofd inp pos cont \<longleftrightarrow>
     (\<forall>w. let ((rd, data), w') = sys_read (x_sys sys) ifd 512 w in
        data = take 512 (drop (pos w) inp) \<and> rd = int (length data) \<and> pos w' = pos w + length data \<and> cont w' = cont w) \<and>
     writes_ok (sys_write (x_sys sys)) ofd cont \<and> (\<forall>bs w. pos (snd (sys_write (x_sys sys) ofd bs w)) = pos w)"

definition dei_stream :: "'w xsys \<Rightarrow> 'w pipe \<Rightarrow> byte list \<Rightarrow> ('w \<Rightarrow> nat) \<Rightarrow> ('w \<Rightarrow> byte list) \<Rightarrow> bool" where
  "dei_stream sys p inp pos cont \<longleftrightarrow> sfiles sys (dt_ifd (p_ctx p)) (dt_ofd (p_ctx p)) inp pos cont \<and> length inp mod 512 = 0 \<and>
     pos (p_w p) = 0 \<and> cont (p_w p) = [] \<and> length (p_ibuf p) = 512 \<and> length (p_obuf p) = 512"

lemma single_loop_image:
  assumes env: "sfiles sys (dt_ifd c0) (dt_ofd c0) inp pos cont" and N: "length inp = 512 * N"
  shows "q \<le> N \<Longrightarrow> same_job c0 (p_ctx p) \<Longrightarrow> length (p_ibuf p) = 512 \<Longrightarrow> length (p_obuf p) = 512 \<Longrightarrow> pos (p_w p) = 512 * q \<Longrightarrow>
    \<exists>p'. single_loop sys (dei_fn d) (of_nat q) p = Some (Done p') \<and> cont (p_w p') = cont (p_w p) @ concat (map (img d c0 inp) [q..<N])"
proof (induction "N - q" arbitrary: q p)
  case 0
  obtain rd data w where r: "sys_read (x_sys sys) (dt_ifd (p_ctx p)) 512 (p_w p) = ((rd, data), w)" by (metis surj_pair)
  have "dt_ifd (p_ctx p) = dt_ifd c0" using 0 by (simp add: same_job_def)
  then have "data = [] \<and> rd = 0 \<and> cont w = cont (p_w p)"
    using env[unfolded sfiles_def, THEN conjunct1, rule_format, of "p_w p"] r 0 N by simp
  then show ?case using r 0 by (subst single_loop.simps) simp
next
  case (Suc x)
  obtain rd data w where r: "sys_read (x_sys sys) (dt_ifd (p_ctx p)) 512 (p_w p) = ((rd, data), w)" by (metis surj_pair)
  have fds: "dt_ifd (p_ctx p) = dt_ifd c0" "dt_ofd (p_ctx p) = dt_ofd c0" using Suc.prems(2) by (auto simp: same_job_def)
  have b: "512 * q + 512 \<le> length inp" using Suc.hyps(2) N by simp
  then have e: "data = sec inp q" "length data = 512" "rd = 512" "pos w = 512 * Suc q" "cont w = cont (p_w p)"
    using env[unfolded sfiles_def, THEN conjunct1, rule_format, of "p_w p"] r fds Suc.prems(5) by (simp_all add: sec_def)
  obtain K1 K2 where fn: "dei_fn d (p_ctx p) data (p_obuf p) (of_nat q) =
      Some (p_ctx p \<lparr> dt_K1 := K1, dt_K2 := K2 \<rparr>, dei_sector d (ae_W (dt_K1 (p_ctx p))) (ae_W (dt_K2 (p_ctx p))) (of_nat q) data)"
      "ae_W K1 = ae_W (dt_K1 (p_ctx p))" "ae_W K2 = ae_W (dt_K2 (p_ctx p))"
    using dei_fn_eq[OF e(2) Suc.prems(4), of d "p_ctx p" "of_nat q"] by auto
  have im: "dei_sector d (ae_W (dt_K1 (p_ctx p))) (ae_W (dt_K2 (p_ctx p))) (of_nat q) data = img d c0 inp q" using Suc.prems(2) e(1) by (simp add: img_def same_job_def)
  have li: "length (img d c0 inp q) = 512" using b by (simp add: img_def)
  obtain wr w2 where wr: "writeall (sys_write (x_sys sys)) (dt_ofd c0) (img d c0 inp q) w = (wr, w2)" "cont w2 = cont w @ img d c0 inp q" "0 \<le> wr"
    using writeall_out[of "sys_write (x_sys sys)" "dt_ofd c0" cont "img d c0 inp q" w] env by (auto simp: sfiles_def)
  have "pos w2 = pos w" using writeall_keeps[of pos "sys_write (x_sys sys)" "dt_ofd c0" "img d c0 inp q" w] env wr(1) by (simp add: sfiles_def)
  let ?p = "\<lparr> p_ctx = p_ctx p \<lparr> dt_K1 := K1, dt_K2 := K2 \<rparr>, p_ibuf = data, p_obuf = img d c0 inp q, p_w = w2 \<rparr>"
  have "\<exists>p'. single_loop sys (dei_fn d) (of_nat (Suc q)) ?p = Some (Done p') \<and> cont (p_w p') = cont (p_w ?p) @ concat (map (img d c0 inp) [Suc q..<N])"
    by (rule Suc.hyps(1)) (use Suc.hyps(2) Suc.prems(2) fn(2,3) e(2,4) li \<open>pos w2 = pos w\<close> in \<open>auto simp: same_job_def\<close>)
  then obtain p' where p': "single_loop sys (dei_fn d) (of_nat q + 1) ?p = Some (Done p')" "cont (p_w p') = cont w2 @ concat (map (img d c0 inp) [Suc q..<N])"
    by (auto simp: add.commute)
  have "single_loop sys (dei_fn d) (of_nat q) p = Some (Done p')"
    using Suc.prems(3) e(2,3) fn(1) wr(1,3) p'(1) li by (subst single_loop.simps) (simp add: r fds(2) im wrs_def)
  moreover have "[q..<N] = q # [Suc q..<N]" using Suc.hyps(2) by (simp add: upt_conv_Cons)
  ultimately show ?case using p'(2) wr(2) e(5) by auto
qed

lemma single_image:
  assumes "dei_stream sys p inp pos cont"
  shows "\<exists>p'. pipe_data_single sys (dei_fn d) p = Some (Done p') \<and> cont (p_w p') = dei_image d (p_ctx p) inp"
proof -
  let ?N = "length inp div 512"
  have "sfiles sys (dt_ifd (p_ctx p)) (dt_ofd (p_ctx p)) inp pos cont" "length inp = 512 * ?N"
    using assms by (auto simp: dei_stream_def mult_div_mod_eq[symmetric] minus_mod_eq_mult_div[symmetric])
  from single_loop_image[OF this, of 0 p d] show ?thesis using assms by (simp add: dei_stream_def pipe_data_single_def same_job_def dei_image_def)
qed

section \<open>Both\<close>

text \<open>The input \<open>inp\<close> and the output, whichever way \<open>pipe_data\<close> takes.\<close>

definition dei_run :: "'w xsys \<Rightarrow> 'w pipe \<Rightarrow> byte list \<Rightarrow> ('w \<Rightarrow> nat) \<Rightarrow> ('w \<Rightarrow> byte list) \<Rightarrow> bool" where
  "dei_run sys p inp pos cont \<longleftrightarrow> (if 1 < dt_ncpus (p_ctx p) then dei_job sys p inp cont else dei_stream sys p inp pos cont)"

lemma pipe_image:
  assumes run: "dei_run sys p inp pos cont" and e: "pipe_data sys (dei_fn d) p 0 w"
  shows "cont w = dei_image d (p_ctx p) inp"
  using e
proof cases
  case (multi m)
  then have job: "dei_job sys p inp cont" using run by (simp add: dei_run_def)
  show ?thesis using image_done[OF job multi_inv[OF job multi(3)]] multi by simp
next
  case (single p')
  then show ?thesis using run single_image[of sys p inp pos cont d] by (auto simp: dei_run_def)
qed simp

lemma multi_runs:
  assumes job: "dei_job sys p inp cont" and wk: "pworks sys (dt_ifd (p_ctx p)) (dt_ofd (p_ctx p)) inp cont"
    and r: "(mstep sys (dei_fn d) ^^ k) (pipe_data_multi p) m"
  defines "B \<equiv> length inp div 512 + nat (dt_ncpus (p_ctx p))"
  shows "alive d (p_ctx p) inp cont m \<and> k + mmu B m \<le> mmu B (pipe_data_multi p)"
  using r
proof (induction k arbitrary: m)
  case 0
  then show ?case using multi_start[OF job] by (auto simp: alive_def pipe_data_multi_def)
next
  case (Suc k)
  then obtain m1 where m1: "(mstep sys (dei_fn d) ^^ k) (pipe_data_multi p) m1" "mstep sys (dei_fn d) m1 m" by auto
  note ih = Suc.IH[OF m1(1)]
  have "alive d (p_ctx p) inp cont m \<and> mmu B m < mmu B m1"
    unfolding B_def by (rule alive_step[OF _ wk _ _ _ _ _ m1(2)]) (use job ih in \<open>auto simp: dei_job_def\<close>)
  then show ?case using ih by simp
qed

lemma multi_completes:
  assumes job: "dei_job sys p inp cont" and wk: "pworks sys (dt_ifd (p_ctx p)) (dt_ofd (p_ctx p)) inp cont"
  shows "\<exists>m. (mstep sys (dei_fn d))\<^sup>*\<^sup>* (pipe_data_multi p) m \<and> m_end m = Some 0"
proof -
  let ?B = "length inp div 512 + nat (dt_ncpus (p_ctx p))"
  have "\<exists>m'. (mstep sys (dei_fn d))\<^sup>*\<^sup>* m m' \<and> m_end m' = Some 0" if "alive d (p_ctx p) inp cont m" for m
    using that
  proof (induction m rule: measure_induct_rule[of "mmu ?B"])
    case (less m)
    have j: "pfiles sys (dt_ifd (p_ctx p)) (dt_ofd (p_ctx p)) inp cont" "unat (dt_size (p_ctx p)) = length inp" "length inp mod 512 = 0" "length inp < 2 ^ 63"
      "1 < dt_ncpus (p_ctx p)" "dt_ncpus (p_ctx p) \<le> 1024" using job by (auto simp: dei_job_def)
    then have n0: "0 < dt_ncpus (p_ctx p)" by simp
    show ?case
    proof (cases "m_end m = None")
      case True
      then obtain m1 where m1: "mstep sys (dei_fn d) m m1" using alive_progress[OF j(1) wk j(2,3) n0 less.prems] by blast
      have a: "alive d (p_ctx p) inp cont m1" "mmu ?B m1 < mmu ?B m" using alive_step[OF j(1) wk j(2-6) m1 less.prems] by blast+
      show ?thesis using less.IH[OF a(2,1)] m1 by (meson converse_rtranclp_into_rtranclp)
    qed (use less.prems in \<open>auto simp: alive_def\<close>)
  qed
  then show ?thesis using multi_start[OF job] by (simp add: alive_def pipe_data_multi_def)
qed

lemma image_inverse:
  assumes "length inp mod 512 = 0" and "ae_W (dt_K1 c') = ae_W (dt_K1 c)" and "ae_W (dt_K2 c') = ae_W (dt_K2 c)"
  shows "dei_image True c' (dei_image False c inp) = inp" and "length (dei_image False c inp) = length inp"
proof -
  let ?N = "length inp div 512" and ?e = "img False c inp"
  have N: "length inp = 512 * ?N" using assms(1) by (simp add: mult_div_mod_eq[symmetric] minus_mod_eq_mult_div[symmetric])
  have le: "\<forall>b \<in> set (map ?e [0..<?N]). length b = 512" using N by (auto simp: img_def sec_fits)
  have i: "dei_image False c inp = concat (map ?e [0..<?N])" by (simp add: dei_image_def)
  show l: "length (dei_image False c inp) = length inp" using length_concat512[OF le] N by (simp add: i)
  have s: "sec (dei_image False c inp) q = ?e q" if "q < ?N" for q using sec_concat[OF le, of q] that by (simp add: i)
  have "img True c' (dei_image False c inp) q = sec inp q" if "q < ?N" for q
    using that by (simp add: s img_def assms(2,3) dei_sector_inverse sec_fits)
  then have "dei_image True c' (dei_image False c inp) = concat (map (sec inp) [0..<?N])"
    unfolding dei_image_def[of True] l by (intro arg_cong[of _ _ concat] map_cong) simp_all
  then show "dei_image True c' (dei_image False c inp) = inp" using concat_sec[OF N] by simp
qed

section \<open>Start\<close>

text \<open>What \<open>main\<close> hands to \<open>pipe_data\<close>: whole sectors, buffers of one sector, and the cipher the options ask for.\<close>

lemma dvd_unat_of_int: "(512 :: int) dvd s \<Longrightarrow> unat (word_of_int s :: u64) mod 512 = 0"
proof -
  assume "512 dvd s"
  moreover have "int (unat (word_of_int s :: u64)) = s mod 2 ^ 64" by (simp add: unsigned_of_int take_bit_eq_mod)
  moreover have "(512 :: int) dvd 2 ^ 64" by simp
  ultimately have "int 512 dvd int (unat (word_of_int s :: u64))" by (simp add: dvd_mod)
  then show ?thesis by (metis dvd_imp_mod_0 int_dvd_int_iff)
qed

lemma dei_main_start:
  assumes "dei_main sys stk kf argv w = Done (p, fn)"
  shows "fn = dei_fn (dt_opts (p_ctx p) AND OPT_d \<noteq> 0)" and "length (p_ibuf p) = 512" and "length (p_obuf p) = 512" and "unat (dt_size (p_ctx p)) mod 512 = 0"
proof -
  obtain ctx0 w0 iname oname keyf kidx ctx w1 where s: "set_files sys stk kf ctx0 iname oname keyf kidx w0 = Done (ctx, w1)"
    and p: "p = \<lparr> p_ctx = ctx, p_ibuf = replicate 512 0, p_obuf = replicate 512 0, p_w = w1 \<rparr>" "fn = (if dt_opts ctx AND OPT_d \<noteq> 0 then aesxts_decrypt else aesxts_encrypt)"
    using assms by (auto simp: dei_main_def andthen_Done_iff)
  have "unat (dt_size ctx) mod 512 = 0"
    using s by (auto simp: set_files_def andthen_Done_iff Let_def dvd_unat_of_int case_prod_beta split: if_splits)
  then show "fn = dei_fn (dt_opts (p_ctx p) AND OPT_d \<noteq> 0)" "length (p_ibuf p) = 512" "length (p_obuf p) = 512" "unat (dt_size (p_ctx p)) mod 512 = 0"
    by (simp_all add: p dei_fn_def)
qed

section \<open>A system with two files\<close>

text \<open>The world is the position in the input \<open>F\<close> and the output written so far.\<close>

definition fsys :: "byte list \<Rightarrow> (nat \<times> byte list) xsys" where
  "fsys F = \<lparr> x_sys = nosys \<lparr> sys_write := (\<lambda>_ bs (p, c). (int (length bs), (p, c @ bs))),
       sys_read := (\<lambda>_ n (p, c). let d = take n (drop p F) in ((int (length d), d), (p + length d, c))) \<rparr>,
     x_pread = (\<lambda>_ n off w. let d = take n (drop (unat off) F) in ((int (length d), d), w)),
     x_pwrite = (\<lambda>_ bs off (p, c). (int (length bs), (p, take (unat off) c @ bs @ drop (unat off + length bs) c))),
     x_ftruncate = (\<lambda>_ n (p, c). (0, (p, take (nat n) (c @ replicate (nat n) 0)))), x_fork = (\<lambda>w. (7, w)), x_waitpid = (\<lambda>w. (7, w)),
     x_getaffinity = (\<lambda>w. ((16, [3]), w)) \<rparr>"

definition fjob :: "int \<Rightarrow> byte list \<Rightarrow> (nat \<times> byte list) pipe" where
  "fjob n F = \<lparr> p_ctx = dei_zero \<lparr> dt_ncpus := n, dt_size := of_nat (length F) \<rparr>, p_ibuf = replicate 512 0, p_obuf = replicate 512 0,
     p_w = (0, if n > 1 then replicate (length F) 0 else []) \<rparr>"

lemma fjob_run: "length F mod 512 = 0 \<Longrightarrow> length F < 2 ^ 63 \<Longrightarrow> n \<le> 1024 \<Longrightarrow> dei_run (fsys F) (fjob n F) F fst snd"
  by (auto simp: dei_run_def dei_job_def dei_stream_def pfiles_def sfiles_def writes_ok_def fsys_def fjob_def Let_def unsigned_of_nat take_bit_nat_eq_self)

lemma fjob_works: "pworks (fsys F) a b F snd"
  by (auto simp: pworks_def fsys_def Let_def)

lemma fjob_ends:
  assumes "length F mod 512 = 0" and "length F < 2 ^ 63" and "n \<le> 1024"
  shows "\<exists>w. pipe_data (fsys F) (dei_fn d) (fjob n F) 0 w"
proof (cases "1 < n")
  case True
  then have c: "1 < dt_ncpus (p_ctx (fjob n F))" by (simp add: fjob_def)
  then have "dei_job (fsys F) (fjob n F) F snd" using fjob_run[OF assms] by (simp add: dei_run_def)
  from multi_completes[OF this fjob_works] show ?thesis using pipe_data.multi[OF c] by blast
next
  case False
  then have c: "\<not> 1 < dt_ncpus (p_ctx (fjob n F))" by (simp add: fjob_def)
  then have "dei_stream (fsys F) (fjob n F) F fst snd" using fjob_run[OF assms] by (simp add: dei_run_def)
  from single_image[OF this] show ?thesis using pipe_data.single[OF c] by blast
qed

section \<open>Properties\<close>

text \<open>
  C13.  The cipher of \<open>deitool\<close> is XTS-AES-128: encrypting the 512 bytes at \<open>rp\<close> as sector \<open>S\<close> leaves in the output buffer the 32 blocks of the
  reference definition, with the data key, the tweak key, and the tweak doubled in the field with \<open>2\<^sup>1\<^sup>2\<^sup>8\<close> elements from block to block;
  decrypting is the same with the inverse cipher.  Neither touches memory outside the buffers.
\<close>

theorem aesxts_correct:
  assumes "length rp = 512" and "length wp = 512"
  shows "(\<exists>ctx'. aesxts_encrypt ctx rp wp S = Some (ctx', xts_sector (\<lambda>b. snd (aes128_encrypt (dt_K1 ctx) b)) (\<lambda>b. snd (aes128_encrypt (dt_K2 ctx) b)) S rp)) \<and>
    (\<exists>ctx'. aesxts_decrypt ctx rp wp S = Some (ctx', xts_sector (\<lambda>b. snd (aes128_decrypt (dt_K1 ctx) b)) (\<lambda>b. snd (aes128_encrypt (dt_K2 ctx) b)) S rp))"
proof -
  have "(\<lambda>b. snd (aes128_encrypt (dt_K1 ctx) b)) = aesE (ae_W (dt_K1 ctx))" "(\<lambda>b. snd (aes128_decrypt (dt_K1 ctx) b)) = aesD (ae_W (dt_K1 ctx))"
    by (rule ext, rule xenc.result, rule ext, rule xdec.result)
  then show ?thesis using xenc.aesxts_eq[OF assms, of ctx S] xdec.aesxts_eq[OF assms, of ctx S] by (auto simp: aesxts_encrypt_def aesxts_decrypt_def)
qed

theorem aesxts_correct_witness:
  "\<exists>ctx'. aesxts_encrypt dei_zero (replicate 512 1) (replicate 512 0) 5 =
    Some (ctx', xts_sector (\<lambda>b. snd (aes128_encrypt aes_zero b)) (\<lambda>b. snd (aes128_encrypt aes_zero b)) 5 (replicate 512 1))"
  using aesxts_correct[of "replicate 512 1" "replicate 512 0" dei_zero 5] by (simp add: dei_zero_def)



text \<open>
  C11.  With several processes and system calls that work, every run of \<open>deitool\<close> ends, whatever the order: the number of steps is bounded, as long as the
  parent has not ended some process can go on, and the parent only ever ends by returning success.
\<close>

theorem pipe_data_multi_ends:
  assumes "dei_job sys p inp cont" and "pworks sys (dt_ifd (p_ctx p)) (dt_ofd (p_ctx p)) inp cont" and "(mstep sys (dei_fn d) ^^ k) (pipe_data_multi p) m"
  shows "k \<le> 1 + nat (dt_ncpus (p_ctx p)) * (2 * (length inp div 512 + nat (dt_ncpus (p_ctx p))) + 3) \<and>
    (m_end m = None \<longrightarrow> (\<exists>m'. mstep sys (dei_fn d) m m')) \<and> (m_end m \<noteq> None \<longrightarrow> m_end m = Some 0)"
proof -
  note r = multi_runs[OF assms]
  have "mmu (length inp div 512 + nat (dt_ncpus (p_ctx p))) (pipe_data_multi p) = 1 + nat (dt_ncpus (p_ctx p)) * (2 * (length inp div 512 + nat (dt_ncpus (p_ctx p))) + 3)"
    by (simp add: mmu_def pipe_data_multi_def)
  moreover have "\<exists>m'. mstep sys (dei_fn d) m m'" if "m_end m = None"
    by (rule alive_progress[OF _ assms(2) _ _ _ _ that]) (use assms(1) r in \<open>auto simp: dei_job_def\<close>)
  ultimately show ?thesis using r by (auto simp: alive_def)
qed

theorem pipe_data_multi_ends_witness:
  "\<exists>m'. mstep (fsys (replicate 1024 1)) (dei_fn False) (pipe_data_multi (fjob 2 (replicate 1024 1))) m'"
proof -
  let ?F = "replicate 1024 (1 :: byte)"
  have "dei_job (fsys ?F) (fjob 2 ?F) ?F snd" using fjob_run[of ?F 2] by (simp add: dei_run_def fjob_def)
  from pipe_data_multi_ends[OF this fjob_works, of 0 False "pipe_data_multi (fjob 2 ?F)"] show ?thesis by (simp add: pipe_data_multi_def)
qed

text \<open>
  C12.  Decryption restores the file: when \<open>deitool\<close> has encrypted \<open>inp\<close>, and its output is decrypted with the same keys, then what is written is \<open>inp\<close>,
  whatever the number of processes of either run.
\<close>

theorem deitool_roundtrip:
  assumes "dei_run sys p inp pos cont" and "pipe_data sys aesxts_encrypt p 0 w" and "dei_run sys' p' (cont w) pos' cont'" and "pipe_data sys' aesxts_decrypt p' 0 w'"
    and "ae_W (dt_K1 (p_ctx p')) = ae_W (dt_K1 (p_ctx p))" and "ae_W (dt_K2 (p_ctx p')) = ae_W (dt_K2 (p_ctx p))"
  shows "cont' w' = inp"
proof -
  have m: "length inp mod 512 = 0" using assms(1) by (auto simp: dei_run_def dei_job_def dei_stream_def split: if_splits)
  have "cont w = dei_image False (p_ctx p) inp" using pipe_image[OF assms(1), of False w] assms(2) by (simp add: dei_fn_def)
  moreover have "cont' w' = dei_image True (p_ctx p') (cont w)" using pipe_image[OF assms(3), of True w'] assms(4) by (simp add: dei_fn_def)
  ultimately show ?thesis using image_inverse(1)[OF m assms(5,6)] by simp
qed

theorem deitool_roundtrip_witness:
  "\<exists>w w'. pipe_data (fsys (replicate 1024 1)) aesxts_encrypt (fjob 3 (replicate 1024 1)) 0 w \<and>
     pipe_data (fsys (snd w)) aesxts_decrypt (fjob 1 (snd w)) 0 w' \<and> snd w' = replicate 1024 1"
proof -
  let ?F = "replicate 1024 (1 :: byte)"
  have r: "dei_run (fsys ?F) (fjob 3 ?F) ?F fst snd" by (rule fjob_run) simp_all
  obtain w where w: "pipe_data (fsys ?F) aesxts_encrypt (fjob 3 ?F) 0 w" using fjob_ends[of ?F 3 False] by (auto simp: dei_fn_def)
  have "snd w = dei_image False (p_ctx (fjob 3 ?F)) ?F" using pipe_image[OF r, of False w] w by (simp add: dei_fn_def)
  then have l: "length (snd w) = 1024" using image_inverse(2)[of ?F "p_ctx (fjob 3 ?F)" "p_ctx (fjob 3 ?F)"] by simp
  have r': "dei_run (fsys (snd w)) (fjob 1 (snd w)) (snd w) fst snd" by (rule fjob_run) (simp_all add: l)
  obtain w' where w': "pipe_data (fsys (snd w)) aesxts_decrypt (fjob 1 (snd w)) 0 w'" using fjob_ends[of "snd w" 1 True] l by (auto simp: dei_fn_def)
  have "snd w' = ?F" by (rule deitool_roundtrip[OF r w r' w']) (simp_all add: fjob_def)
  then show ?thesis using w w' by blast
qed

end
