(* ===== verification/Dmcrypt.thy ===== *)
theory Dmcrypt
  imports Passblk_Inv
begin

text \<open>
  \<^verbatim>\<open>src/dcrypt/dmcrypt.c\<close>: it sets up and removes encrypted block devices from the command line.  The functions that \<open>passblk_mapper.c\<close> has
  too differ in how they report errors: here they return a code, and \<open>setup_devices\<close> takes back what it has set up.  The descriptor of the
  device mapper and the keyfile, global variables in the source, are arguments; the functions thread the world.
\<close>

section \<open>Model\<close>

definition EINVAL :: int where "EINVAL = 22"
definition ENAMETOOLONG :: int where "ENAMETOOLONG = 36"
definition DM_DEV_REMOVE :: int where "DM_DEV_REMOVE = 4"
definition DMC_OPT_d :: u32 where "DMC_OPT_d = 1"
definition DMC_OPT_f :: u32 where "DMC_OPT_f = 2"

record device =
  dv_name :: "byte list"
  dv_base :: "byte list"
  dv_rdev :: u64
  dv_mdev :: u64
  dv_size :: u64
  dv_key :: nat
  dv_fd :: int

definition dmc_error :: "int \<Rightarrow> int" where
  "dmc_error err = (if err \<noteq> 0 then err else - EINVAL)"

definition query_dev_inode :: "'w dsys \<Rightarrow> device \<Rightarrow> 'w \<Rightarrow> ('w, device \<times> 'w) outcome" where
  "query_dev_inode sys dev w =
     andthen (defined (strlen (dv_base dev))) (\<lambda>blen.
     andthen (defined (fseq (fmtstr (Some (bstr ''/dev/'' @ [0]))) (fmtstr (Some (dv_base dev))) (replicate (5 + blen + 2) 0) 0 (5 + blen + 1))) (\<lambda>(m, p).
     andthen (defined (wr m p 0)) (\<lambda>path.
     let (fd, w) = sys_open sys (Some path) O_RDONLY 0 w in
     if fd < 0 then Fail ''open'' w
     else let ((ret, _, rdev), w) = sys_fstat sys fd w in
     if ret < 0 then Fail ''stat'' w
     else let ((ret, sz), w) = blkgetsize sys fd w in
     if ret \<noteq> 0 then Fail ''ioctl BLKGETSIZE64'' w
     else Done (dev \<lparr> dv_size := sz, dv_rdev := rdev, dv_mdev := 0, dv_fd := fd \<rparr>, w))))"

definition dm_open_control :: "'w dsys \<Rightarrow> 'w \<Rightarrow> ('w, int \<times> 'w) outcome" where
  "dm_open_control sys w =
     (let (fd, w) = sys_open sys (Some (bstr ''/dev/mapper/control'' @ [0])) O_RDONLY 0 w in
      if fd < 0 then Fail ''open'' w
      else let ((ret, dmi), w) = dm_ioctl sys fd DM_VERSION (dm_request 312 0 0 0) w in
      if ret < 0 then Fail ''ioctl'' w
      else andthen (defined (rd32 dmi 0)) (\<lambda>v.
      if v \<noteq> DM_VERSION_MAJOR then Fail ''unsupported dm version'' w else Done (fd, w)))"

definition dmc_create :: "'w dsys \<Rightarrow> int \<Rightarrow> device \<Rightarrow> 'w \<Rightarrow> ('w, int \<times> device \<times> 'w) outcome" where
  "dmc_create sys dmfd dev w =
     andthen (defined (strlen (dv_name dev))) (\<lambda>nlen.
     if nlen > 127 then Done (dmc_error ENAMETOOLONG, dev, w)
     else andthen (defined (putstr (dm_request 312 0 0 0) 48 (dv_name dev) nlen)) (\<lambda>dmi.
     let ((ret, dmi), w) = dm_ioctl sys dmfd DM_DEV_CREATE dmi w in
     if ret < 0 then Done (dmc_error ret, dev, w)
     else andthen (defined (rd64 dmi 40)) (\<lambda>mdev. Done (0, dev \<lparr> dv_mdev := mdev \<rparr>, w))))"

definition dmc_single :: "'w dsys \<Rightarrow> int \<Rightarrow> byte list \<Rightarrow> u64 \<Rightarrow> byte list \<Rightarrow> byte list \<Rightarrow> 'w \<Rightarrow> ('w, int \<times> 'w) outcome" where
  "dmc_single sys dmfd name sz targ opts w =
     andthen (defined (strlen name)) (\<lambda>nlen.
     andthen (defined (strlen targ)) (\<lambda>tlen.
     andthen (defined (strlen opts)) (\<lambda>olen.
     let reqlen = 312 + 40 + olen + 1;
         dts = le_bytes 8 (0 :: u64) @ le_bytes 8 (sz div 512) @ replicate 24 0;
         req = dm_request (of_nat reqlen) 312 1 0 @ dts @ replicate (olen + 1) 0 in
     if nlen > 127 then Done (dmc_error (- ENAMETOOLONG), w)
     else if tlen > 15 then Done (dmc_error (- ENAMETOOLONG), w)
     else andthen (defined (do { r \<leftarrow> putstr req 48 name nlen; r \<leftarrow> putstr r (312 + 24) targ tlen; putstr r (312 + 40) opts olen })) (\<lambda>req.
     let ((ret, _), w) = dm_ioctl sys dmfd DM_TABLE_LOAD req w in Done (ret, w)))))"

definition dmc_crypt :: "'w dsys \<Rightarrow> int \<Rightarrow> device \<Rightarrow> byte list \<Rightarrow> byte list \<Rightarrow> 'w \<Rightarrow> ('w, int \<times> 'w) outcome" where
  "dmc_crypt sys dmfd dev cipher key w =
     andthen (defined (strlen cipher)) (\<lambda>ciphlen.
     let len = ciphlen + 2 * length key + 50 in
     andthen (defined (fseq (fmtstr (Some cipher)) (fseq (fmtstr (Some (bstr '' '' @ [0]))) (fseq (fmtbytes key)
        (fseq (fmtstr (Some (bstr '' 0 '' @ [0]))) (fseq (fmtlong (major (dv_rdev dev))) (fseq (fmtstr (Some (bstr '':'' @ [0])))
        (fseq (fmtlong (minor (dv_rdev dev))) (fmtstr (Some (bstr '' 0 1 allow_discards'' @ [0]))))))))) (replicate (len + 1) 0) 0 len)) (\<lambda>(m, p).
     andthen (defined (wr m p 0)) (\<lambda>m.
     dmc_single sys dmfd (dv_name dev) (dv_size dev) (bstr ''crypt'' @ [0]) m w)))"

definition dm_suspend :: "'w dsys \<Rightarrow> int \<Rightarrow> byte list \<Rightarrow> u32 \<Rightarrow> 'w \<Rightarrow> ('w, int \<times> 'w) outcome" where
  "dm_suspend sys dmfd name flags w =
     andthen (defined (strlen name)) (\<lambda>nlen.
     if nlen > 127 then Done (dmc_error (- ENAMETOOLONG), w)
     else andthen (defined (putstr (dm_request 312 0 0 flags) 48 name nlen)) (\<lambda>dmi.
     let ((ret, _), w) = dm_ioctl sys dmfd DM_DEV_SUSPEND dmi w in Done (ret, w)))"

definition dm_remove :: "'w dsys \<Rightarrow> int \<Rightarrow> byte list \<Rightarrow> 'w \<Rightarrow> ('w, 'w) outcome" where
  "dm_remove sys dmfd name w =
     andthen (defined (strlen name)) (\<lambda>nlen.
     if nlen > 127 then Fail '''' w
     else andthen (defined (putstr (dm_request 312 0 0 0) 48 name nlen)) (\<lambda>dmi.
     let ((ret, _), w) = dm_ioctl sys dmfd DM_DEV_REMOVE dmi w in
     if ret < 0 then Fail ''ioctl'' w else Done w))"

definition create_dm_crypt :: "'w dsys \<Rightarrow> int \<Rightarrow> keyfile \<Rightarrow> device \<Rightarrow> 'w \<Rightarrow> ('w, int \<times> device \<times> 'w) outcome" where
  "create_dm_crypt sys dmfd kf dev w =
     andthen (dmc_create sys dmfd dev w) (\<lambda>(_, dev, w).
     andthen (defined (rds (kf_buf kf) (dv_key dev) KEYSIZE)) (\<lambda>key.
     andthen (dmc_crypt sys dmfd dev (bstr ''aes-xts-plain64'' @ [0]) key w) (\<lambda>(ret, w).
     andthen (if ret \<noteq> 0 then Done (ret, w) else dm_suspend sys dmfd (dv_name dev) 0 w) (\<lambda>(ret, w).
     andthen (if ret < 0 then dm_remove sys dmfd (dv_name dev) w else Done w) (\<lambda>w.
     Done (ret, dev, w))))))"

definition remove_dm_crypt :: "'w dsys \<Rightarrow> int \<Rightarrow> byte list \<Rightarrow> u32 \<Rightarrow> 'w \<Rightarrow> ('w, 'w) outcome" where
  "remove_dm_crypt sys dmfd name opts w =
     andthen (if opts AND DMC_OPT_f \<noteq> 0 then
        andthen (dmc_single sys dmfd name 512 (bstr ''error'' @ [0]) [0] w) (\<lambda>(_, w).
        andthen (dm_suspend sys dmfd name 0 w) (\<lambda>(_, w). Done w))
      else Done w) (dm_remove sys dmfd name)"

fun remove_devices :: "'w dsys \<Rightarrow> int \<Rightarrow> byte list list \<Rightarrow> u32 \<Rightarrow> 'w \<Rightarrow> ('w, 'w) outcome" where
  "remove_devices sys dmfd [] opts w = Done w"
| "remove_devices sys dmfd (name # names) opts w = andthen (remove_dm_crypt sys dmfd name opts w) (remove_devices sys dmfd names opts)"

text \<open>\<open>[index:]name[:base]\<close>; the colon after the name is overwritten with the end of the string.\<close>

definition prepare_device :: "'w dsys \<Rightarrow> keyfile \<Rightarrow> device \<Rightarrow> byte list \<Rightarrow> int \<Rightarrow> 'w \<Rightarrow> ('w, device \<times> int \<times> 'w) outcome" where
  "prepare_device sys kf dev arg ki w =
     andthen (defined (parseint arg)) (\<lambda>r.
     andthen (case r of
         None \<Rightarrow> Done (arg, ki)
       | Some (p, k) \<Rightarrow> andthen (defined (rd p 0)) (\<lambda>c. if c = ch CHR '':'' then Done (drop 1 p, sint k) else Done (arg, ki))) (\<lambda>(arg, ki).
     andthen (defined (strcbrk arg (ch CHR '':''))) (\<lambda>p.
     andthen (defined (rd p 0)) (\<lambda>c.
     let (name, base) = (if c = ch CHR '':'' then (arg[length arg - length p := 0], drop 1 p) else (arg, arg)) in
     andthen (is_valid_key_idx kf ki) (\<lambda>ok.
     if \<not> ok then Fail ''invalid key index for'' w
     else andthen (get_key_by_idx kf ki w) (\<lambda>key.
     andthen (query_dev_inode sys (dev \<lparr> dv_base := base, dv_name := name, dv_key := key \<rparr>) w) (\<lambda>(dev, w).
     Done (dev, ki, w))))))))"

definition zero_device :: device where
  "zero_device = \<lparr> dv_name = [], dv_base = [], dv_rdev = 0, dv_mdev = 0, dv_size = 0, dv_key = 0, dv_fd = 0 \<rparr>"

fun prepare_devices :: "'w dsys \<Rightarrow> keyfile \<Rightarrow> byte list list \<Rightarrow> int \<Rightarrow> 'w \<Rightarrow> ('w, device list \<times> 'w) outcome" where
  "prepare_devices sys kf [] ki w = Done ([], w)"
| "prepare_devices sys kf (req # reqs) ki w =
     andthen (prepare_device sys kf zero_device req ki w) (\<lambda>(dev, ki, w).
     andthen (prepare_devices sys kf reqs ki w) (\<lambda>(devs, w). Done (dev # devs, w)))"

text \<open>The loop that sets the devices up: the last result, and how many there were before the one that failed.\<close>

fun create_devices :: "'w dsys \<Rightarrow> int \<Rightarrow> keyfile \<Rightarrow> device list \<Rightarrow> int \<Rightarrow> nat \<Rightarrow> 'w \<Rightarrow> ('w, int \<times> nat \<times> 'w) outcome" where
  "create_devices sys dmfd kf [] ret i w = Done (ret, i, w)"
| "create_devices sys dmfd kf (dev # devs) ret i w =
     andthen (create_dm_crypt sys dmfd kf dev w) (\<lambda>(ret, _, w).
     if ret < 0 then Done (ret, i, w) else create_devices sys dmfd kf devs ret (i + 1) w)"

definition finish_devices :: "'w dsys \<Rightarrow> int \<Rightarrow> keyfile \<Rightarrow> device list \<Rightarrow> u32 \<Rightarrow> 'w \<Rightarrow> ('w, 'w) outcome" where
  "finish_devices sys dmfd kf devs opts w =
     andthen (create_devices sys dmfd kf devs 0 0 w) (\<lambda>(ret, i, w).
     if ret = 0 then Done w else remove_devices sys dmfd (map dv_name (rev (take i devs))) opts w)"

definition setup_devices :: "'w dsys \<Rightarrow> int \<Rightarrow> keyfile \<Rightarrow> byte list list \<Rightarrow> u32 \<Rightarrow> 'w \<Rightarrow> ('w, 'w) outcome" where
  "setup_devices sys dmfd kf reqs opts w =
     andthen (prepare_devices sys kf reqs 1 w) (\<lambda>(devs, w). finish_devices sys dmfd kf devs opts w)"

definition dmc_main :: "'w dsys \<Rightarrow> mem \<Rightarrow> keyfile \<Rightarrow> byte list list \<Rightarrow> 'w \<Rightarrow> ('w, 'w) outcome" where
  "dmc_main sys stk kf argv w =
     andthen (if 1 < length argv then
        andthen (defined (rd (argv ! 1) 0)) (\<lambda>c.
        if c = ch CHR ''-'' then
          andthen (defined (argbits (bstr ''df'' @ [0]) (drop 1 (argv ! 1)))) (\<lambda>r.
          case r of Inl a \<Rightarrow> Fail ''unknown option'' w | Inr opts \<Rightarrow> Done (2, opts))
        else Done (1, 0))
      else Done (1, 0)) (\<lambda>(i, opts).
     if i \<ge> length argv then Fail ''too few arguments'' w
     else andthen (dm_open_control sys w) (\<lambda>(dmfd, w).
     if opts AND DMC_OPT_d \<noteq> 0 then remove_devices sys dmfd (drop i argv) opts w
     else andthen (load_keyfile sys stk kf (Some (argv ! i)) w) (\<lambda>(kf, w).
       setup_devices sys dmfd kf (drop (i + 1) argv) opts w)))"

section \<open>Requests\<close>

lemma dmc_single_eq:
  assumes "cstr name = Some l" and "cstr targ = Some a" and "cstr opts = Some o'" and "length l \<le> 127" and "length a \<le> 15"
  shows "dmc_single sys dmfd name sz targ opts w =
    (let ((r, _), w) = dm_ioctl sys dmfd DM_TABLE_LOAD (load_request l a (sz div 512) o') w in Done (r, w))"
proof -
  note n = cstr_strlen[OF assms(1)] cstr_strlen[OF assms(2)] cstr_strlen[OF assms(3)]
  show ?thesis unfolding dmc_single_def n[THEN conjunct1] defined_simps andthen.simps Let_def put_load_request[OF assms] using assms(4,5) by simp
qed

lemma table_fits: "length key = KEYSIZE \<Longrightarrow> length (table_line key rdev) \<le> 129"
proof -
  assume k: "length key = KEYSIZE"
  have "length (concat (map hex2 key)) = 64" using k by (simp add: length_concat comp_def hex2_def KEYSIZE_def sum_list_triv)
  then show ?thesis using dev_number(2)[OF dev_bits(1)[of rdev]] dev_number(2)[OF dev_bits(2)[of rdev]] by (simp add: table_line_def bstr_def)
qed

text \<open>\<open>dmcrypt\<close> loads the same table as \<open>passblk\<close>: its buffer is large enough for every device.\<close>

lemma dmc_crypt_eq:
  assumes k: "length key = KEYSIZE" and l: "cstr (dv_name dev) = Some l" "length l \<le> 127"
  shows "dmc_crypt sys dmfd dev (bstr ''aes-xts-plain64'' @ [0]) key w =
    (let ((r, _), w) = dm_ioctl sys dmfd DM_TABLE_LOAD (load_request l (bstr ''crypt'') (dv_size dev div 512) (table_line key (dv_rdev dev))) w in Done (r, w))"
proof -
  let ?t = "table_line key (dv_rdev dev)"
  have lt: "length ?t \<le> 129" by (rule table_fits[OF k])
  have e: "0 + length ?t \<le> 129" "(129 :: nat) < length (replicate 130 (0 :: byte))" "(0 :: nat) \<le> 129" using lt by (simp_all only: length_replicate)
  note f = table_formatter[of key "dv_rdev dev"]
  obtain m where m: "table_fmt key (dv_rdev dev) (replicate 130 0) 0 129 = Some (m, 0 + length ?t)" "take (length ?t) (drop 0 m) = ?t"
    by (rule formatter.writes[OF f e(1,2)])
  have lm: "length m = 130" using formatter.frame(1)[OF f e(3,2) m(1)] by (simp only: length_replicate)
  have "m[length ?t := 0] = ?t @ 0 # drop (Suc (length ?t)) m" using m(2) lm lt by (simp add: upd_conv_take_nth_drop)
  then have wr: "wr m (0 + length ?t) 0 = Some (?t @ 0 # drop (Suc (length ?t)) m)" using lm lt by (simp add: wr_def)
  have c: "strlen (bstr ''aes-xts-plain64'' @ [0]) = Some 15" by (simp add: bstr_def ch_def strlen_cstr)
  have z: "15 + 2 * length key + 50 = 129" "(129 :: nat) + 1 = 130" using k by (simp_all add: KEYSIZE_def)
  have d: "dmc_crypt sys dmfd dev (bstr ''aes-xts-plain64'' @ [0]) key w =
      dmc_single sys dmfd (dv_name dev) (dv_size dev) (bstr ''crypt'' @ [0]) (?t @ 0 # drop (Suc (length ?t)) m) w"
    unfolding dmc_crypt_def Let_def c z defined_simps andthen.simps m(1)[unfolded table_fmt_def] prod.case wr ..
  have ct: "cstr (bstr ''crypt'' @ [0]) = Some (bstr ''crypt'')" "length (bstr ''crypt'') \<le> 15" by (simp_all add: bstr_def ch_def)
  show ?thesis unfolding d by (rule dmc_single_eq[OF l(1) ct(1) cstr_append[OF table_line_no0] l(2) ct(2)])
qed

lemma cstr_field: "0 \<notin> set l \<Longrightarrow> length l < n \<Longrightarrow> cstr (l @ replicate (n - length l) 0 @ r) = Some l"
  by (cases "n - length l") auto

lemma cstr_requests:
  assumes "0 \<notin> set l" and "length l \<le> 127"
  shows "cstr (drop 48 (name_request flags l)) = Some l" and "cstr (drop 48 (load_request l a sectors ps)) = Some l"
  using cstr_field[OF assms(1), of 264] cstr_field[OF assms(1), of 264 "[]"] assms(2) by (simp_all add: name_request_def load_request_def dm_request_def)

section \<open>Devices\<close>

text \<open>
  What the device mapper promises, \<open>devs\<close> being the names of the devices there are: a device with a new name can be created, one that exists
  can be removed, and loading a table or resuming a device, which may fail, changes neither.
\<close>

definition mapper_ok :: "'w dsys \<Rightarrow> int \<Rightarrow> ('w \<Rightarrow> byte list set) \<Rightarrow> bool" where
  "mapper_ok sys dmfd devs \<longleftrightarrow> (\<forall>req w l. cstr (drop 48 req) = Some l \<longrightarrow>
     (l \<notin> devs w \<longrightarrow> (\<exists>dmi w'. dm_ioctl sys dmfd DM_DEV_CREATE req w = ((0, dmi), w') \<and> 48 \<le> length dmi \<and> devs w' = insert l (devs w))) \<and>
     (l \<in> devs w \<longrightarrow> (\<exists>dmi w'. dm_ioctl sys dmfd DM_DEV_REMOVE req w = ((0, dmi), w') \<and> devs w' = devs w - {l})) \<and>
     (\<exists>r dmi w'. dm_ioctl sys dmfd DM_TABLE_LOAD req w = ((r, dmi), w') \<and> r \<le> 0 \<and> devs w' = devs w) \<and>
     (\<exists>r dmi w'. dm_ioctl sys dmfd DM_DEV_SUSPEND req w = ((r, dmi), w') \<and> r \<le> 0 \<and> devs w' = devs w))"

text \<open>Tables can be loaded and devices resumed.\<close>

definition mapper_loads :: "'w dsys \<Rightarrow> int \<Rightarrow> bool" where
  "mapper_loads sys dmfd \<longleftrightarrow> (\<forall>req w. fst (fst (dm_ioctl sys dmfd DM_TABLE_LOAD req w)) = 0 \<and> fst (fst (dm_ioctl sys dmfd DM_DEV_SUSPEND req w)) = 0)"

definition label_ok :: "byte list \<Rightarrow> byte list \<Rightarrow> bool" where
  "label_ok name l \<longleftrightarrow> cstr name = Some l \<and> length l \<le> 127"

definition dev_ok :: "keyfile \<Rightarrow> device \<Rightarrow> byte list \<Rightarrow> bool" where
  "dev_ok kf dev l \<longleftrightarrow> label_ok (dv_name dev) l \<and> dv_key dev + KEYSIZE \<le> length (kf_buf kf)"

lemma label_facts: "label_ok name l \<Longrightarrow> 0 \<notin> set l \<and> strlen name = Some (length l) \<and> length l \<le> 127"
  using cstr_SomeD[of name l] cstr_strlen[of name l] by (auto simp: label_ok_def)

lemma dm_remove_ok:
  assumes "mapper_ok sys dmfd devs" and "label_ok name l" and "l \<in> devs w"
  shows "\<exists>w'. dm_remove sys dmfd name w = Done w' \<and> devs w' = devs w - {l}"
proof -
  note f = label_facts[OF assms(2)]
  have "putstr (dm_request 312 0 0 0) 48 name (length l) = Some (name_request 0 l)" using assms(2) by (intro put_name_request) (auto simp: label_ok_def)
  moreover obtain dmi w' where "dm_ioctl sys dmfd DM_DEV_REMOVE (name_request 0 l) w = ((0, dmi), w')" "devs w' = devs w - {l}"
    using assms(1,3) cstr_requests(1)[of l 0] f unfolding mapper_ok_def by blast
  ultimately show ?thesis using f by (simp add: dm_remove_def)
qed

lemma dm_suspend_ok:
  assumes "mapper_ok sys dmfd devs" and "label_ok name l"
  shows "\<exists>r w'. dm_suspend sys dmfd name flags w = Done (r, w') \<and> r \<le> 0 \<and> devs w' = devs w \<and> (mapper_loads sys dmfd \<longrightarrow> r = 0)"
proof -
  note f = label_facts[OF assms(2)]
  have "putstr (dm_request 312 0 0 flags) 48 name (length l) = Some (name_request flags l)" using assms(2) by (intro put_name_request) (auto simp: label_ok_def)
  moreover obtain r dmi w' where "dm_ioctl sys dmfd DM_DEV_SUSPEND (name_request flags l) w = ((r, dmi), w')" "r \<le> 0" "devs w' = devs w"
    using assms(1) cstr_requests(1)[of l flags] f unfolding mapper_ok_def by blast
  moreover have "mapper_loads sys dmfd \<Longrightarrow> fst (fst (dm_ioctl sys dmfd DM_DEV_SUSPEND (name_request flags l) w)) = 0" by (simp add: mapper_loads_def)
  ultimately show ?thesis using f by (simp add: dm_suspend_def)
qed

lemma load_ok:
  assumes "mapper_ok sys dmfd devs" and "label_ok name l"
  shows "\<exists>r dmi w'. dm_ioctl sys dmfd DM_TABLE_LOAD (load_request l a sectors ps) w = ((r, dmi), w') \<and> r \<le> 0 \<and> devs w' = devs w \<and> (mapper_loads sys dmfd \<longrightarrow> r = 0)"
proof -
  note f = label_facts[OF assms(2)]
  obtain r dmi w' where "dm_ioctl sys dmfd DM_TABLE_LOAD (load_request l a sectors ps) w = ((r, dmi), w')" "r \<le> 0" "devs w' = devs w"
    using assms(1) cstr_requests(2)[of l a sectors ps] f unfolding mapper_ok_def by blast
  moreover have "mapper_loads sys dmfd \<Longrightarrow> fst (fst (dm_ioctl sys dmfd DM_TABLE_LOAD (load_request l a sectors ps) w)) = 0" by (simp add: mapper_loads_def)
  ultimately show ?thesis by simp
qed

lemma remove_dm_crypt_ok:
  assumes "mapper_ok sys dmfd devs" and "label_ok name l" and "l \<in> devs w"
  shows "\<exists>w'. remove_dm_crypt sys dmfd name opts w = Done w' \<and> devs w' = devs w - {l}"
proof -
  have t: "cstr (bstr ''error'' @ [0]) = Some (bstr ''error'')" "length (bstr ''error'') \<le> 15" "cstr [0] = Some []" by (simp_all add: bstr_def ch_def)
  have l: "cstr name = Some l" "length l \<le> 127" using assms(2) by (auto simp: label_ok_def)
  obtain r dmi w1 where 1: "dm_ioctl sys dmfd DM_TABLE_LOAD (load_request l (bstr ''error'') (512 div 512) []) w = ((r, dmi), w1)" "devs w1 = devs w"
    using load_ok[OF assms(1,2)] by blast
  have s: "dmc_single sys dmfd name 512 (bstr ''error'' @ [0]) [0] w = Done (r, w1)" using dmc_single_eq[OF l(1) t(1,3) l(2) t(2), of sys dmfd 512 w] 1 by simp
  obtain r2 w2 where 2: "dm_suspend sys dmfd name 0 w1 = Done (r2, w2)" "devs w2 = devs w1" using dm_suspend_ok[OF assms(1,2)] by blast
  show ?thesis
  proof (cases "opts AND DMC_OPT_f \<noteq> 0")
    case True
    then show ?thesis using dm_remove_ok[OF assms(1,2), of w2] assms(3) 1 2 s by (simp add: remove_dm_crypt_def)
  next
    case False
    then show ?thesis using dm_remove_ok[OF assms] by (simp add: remove_dm_crypt_def)
  qed
qed

lemma remove_devices_ok:
  "mapper_ok sys dmfd devs \<Longrightarrow> list_all2 label_ok names ls \<Longrightarrow> distinct ls \<Longrightarrow> set ls \<subseteq> devs w \<Longrightarrow>
   \<exists>w'. remove_devices sys dmfd names opts w = Done w' \<and> devs w' = devs w - set ls"
proof (induction names arbitrary: ls w)
  case (Cons name names)
  then obtain l ls' where ls: "ls = l # ls'" "label_ok name l" "list_all2 label_ok names ls'" by (auto simp: list_all2_Cons1)
  obtain w1 where w1: "remove_dm_crypt sys dmfd name opts w = Done w1" "devs w1 = devs w - {l}" using remove_dm_crypt_ok[OF Cons.prems(1) ls(2), of w opts] Cons.prems(4) ls(1) by auto
  have "set ls' \<subseteq> devs w1" using Cons.prems(3,4) ls(1) w1(2) by auto
  from Cons.IH[OF Cons.prems(1) ls(3) _ this] show ?case using Cons.prems(3) ls(1) w1 by auto
qed simp

lemma create_dm_crypt_ok:
  assumes "mapper_ok sys dmfd devs" and "dev_ok kf dev l" and "l \<notin> devs w"
  shows "\<exists>r dev' w'. create_dm_crypt sys dmfd kf dev w = Done (r, dev', w') \<and> (r = 0 \<and> devs w' = insert l (devs w) \<or> r < 0 \<and> devs w' = devs w) \<and>
    (mapper_loads sys dmfd \<longrightarrow> r = 0)"
proof -
  have lo: "label_ok (dv_name dev) l" and k: "dv_key dev + KEYSIZE \<le> length (kf_buf kf)" using assms(2) by (auto simp: dev_ok_def)
  note f = label_facts[OF lo]
  have l: "cstr (dv_name dev) = Some l" "length l \<le> 127" using lo by (auto simp: label_ok_def)
  have p: "putstr (dm_request 312 0 0 0) 48 (dv_name dev) (length l) = Some (name_request 0 l)" by (rule put_name_request[OF l])
  obtain dmi w1 where 1: "dm_ioctl sys dmfd DM_DEV_CREATE (name_request 0 l) w = ((0, dmi), w1)" "48 \<le> length dmi" "devs w1 = insert l (devs w)"
    using assms(1,3) cstr_requests(1)[of l 0] f unfolding mapper_ok_def by blast
  obtain md where md: "rd64 dmi 40 = Some md" using 1(2) by (auto simp: rd64_def rds_def)
  let ?dev = "dev \<lparr> dv_mdev := md \<rparr>"
  have c: "dmc_create sys dmfd dev w = Done (0, ?dev, w1)" using f p 1(1) md by (simp add: dmc_create_def)
  let ?key = "take KEYSIZE (drop (dv_key dev) (kf_buf kf))"
  have key: "rds (kf_buf kf) (dv_key ?dev) KEYSIZE = Some ?key" and lk: "length ?key = KEYSIZE" using k by (auto simp: rds_def)
  obtain r dmi2 w2 where 2: "dm_ioctl sys dmfd DM_TABLE_LOAD (load_request l (bstr ''crypt'') (dv_size ?dev div 512) (table_line ?key (dv_rdev ?dev))) w1 = ((r, dmi2), w2)"
      "r \<le> 0" "devs w2 = devs w1" "mapper_loads sys dmfd \<longrightarrow> r = 0"
    using load_ok[OF assms(1) lo] by blast
  have d: "dmc_crypt sys dmfd ?dev (bstr ''aes-xts-plain64'' @ [0]) ?key w1 = Done (r, w2)" using dmc_crypt_eq[OF lk, of ?dev l sys dmfd w1] l 2(1) by simp
  obtain r3 w3 where 3: "dm_suspend sys dmfd (dv_name dev) 0 w2 = Done (r3, w3)" "r3 \<le> 0" "devs w3 = devs w2" "mapper_loads sys dmfd \<longrightarrow> r3 = 0" using dm_suspend_ok[OF assms(1) lo] by blast
  let ?r = "if r = 0 then r3 else r" and ?w = "if r = 0 then w3 else w2"
  have e: "create_dm_crypt sys dmfd kf dev w = andthen (if ?r < 0 then dm_remove sys dmfd (dv_name dev) ?w else Done ?w) (\<lambda>w. Done (?r, ?dev, w))"
    unfolding create_dm_crypt_def c andthen.simps prod.case key defined_simps d using 3(1) by simp
  have dw: "devs ?w = insert l (devs w)" using 1(3) 2(3) 3(3) by simp
  show ?thesis
  proof (cases "?r < 0")
    case True
    obtain w4 where "dm_remove sys dmfd (dv_name dev) ?w = Done w4" "devs w4 = devs ?w - {l}" using dm_remove_ok[OF assms(1) lo, of ?w] dw by auto
    then show ?thesis using True e dw assms(3) 2(4) 3(4) by auto
  next
    case False
    then have "?r = 0" using 2(2) 3(2) by (auto split: if_splits)
    then show ?thesis using e dw 2(4) 3(4) by (simp only:) simp
  qed
qed

lemma create_devices_ok:
  "mapper_ok sys dmfd devs \<Longrightarrow> list_all2 (dev_ok kf) ds ls \<Longrightarrow> distinct ls \<Longrightarrow> set ls \<inter> devs w = {} \<Longrightarrow>
   \<exists>r i' w'. create_devices sys dmfd kf ds 0 i w = Done (r, i + i', w') \<and>
     (r = 0 \<and> devs w' = devs w \<union> set ls \<or> r < 0 \<and> i' < length ds \<and> devs w' = devs w \<union> set (take i' ls)) \<and> (mapper_loads sys dmfd \<longrightarrow> r = 0)"
proof (induction ds arbitrary: ls i w)
  case (Cons dev ds)
  then obtain l ls' where ls: "ls = l # ls'" "dev_ok kf dev l" "list_all2 (dev_ok kf) ds ls'" by (auto simp: list_all2_Cons1)
  obtain r dev' w1 where 1: "create_dm_crypt sys dmfd kf dev w = Done (r, dev', w1)" "r = 0 \<and> devs w1 = insert l (devs w) \<or> r < 0 \<and> devs w1 = devs w" "mapper_loads sys dmfd \<longrightarrow> r = 0"
    using create_dm_crypt_ok[OF Cons.prems(1) ls(2), of w] Cons.prems(4) ls(1) by auto
  show ?case
  proof (cases "r < 0")
    case True
    then show ?thesis using 1 by (auto intro!: exI[of _ 0])
  next
    case False
    then have r: "r = 0" "devs w1 = insert l (devs w)" using 1(2) by auto
    have "distinct ls'" "set ls' \<inter> devs w1 = {}" using Cons.prems(3,4) ls(1) r(2) by auto
    from Cons.IH[OF Cons.prems(1) ls(3) this, of "i + 1"] obtain r2 i' w2 where 2: "create_devices sys dmfd kf ds 0 (i + 1) w1 = Done (r2, i + 1 + i', w2)"
        "r2 = 0 \<and> devs w2 = devs w1 \<union> set ls' \<or> r2 < 0 \<and> i' < length ds \<and> devs w2 = devs w1 \<union> set (take i' ls')" "mapper_loads sys dmfd \<longrightarrow> r2 = 0" by blast
    have "create_devices sys dmfd kf (dev # ds) 0 i w = Done (r2, i + Suc i', w2)" using 1(1) 2(1) r(1) by simp
    moreover have "r2 = 0 \<and> devs w2 = devs w \<union> set ls \<or> r2 < 0 \<and> Suc i' < length (dev # ds) \<and> devs w2 = devs w \<union> set (take (Suc i') ls)" using 2(2) r(2) ls(1) by auto
    ultimately show ?thesis using 2(3) by blast
  qed
qed auto

text \<open>A mapper that knows its devices by name, and two devices to set up.\<close>

definition mapsys :: "byte list set dsys" where
  "mapsys = nosys \<lparr> dm_ioctl := \<lambda>_ cmd req w.
     if cmd = DM_DEV_CREATE then (case cstr (drop 48 req) of None \<Rightarrow> ((- 22, req), w) | Some l \<Rightarrow> if l \<in> w then ((- 16, req), w) else ((0, req), insert l w))
     else if cmd = DM_DEV_REMOVE then (case cstr (drop 48 req) of None \<Rightarrow> ((- 22, req), w) | Some l \<Rightarrow> if l \<in> w then ((0, req), w - {l}) else ((- 6, req), w))
     else ((0, req), w) \<rparr>"

definition keys0 :: keyfile where
  "keys0 = \<lparr> kf_len = 48, kf_kek = replicate 16 0, kf_buf = replicate 1024 0 \<rparr>"

definition dev0 :: "byte \<Rightarrow> device" where
  "dev0 c = zero_device \<lparr> dv_name := [c, 0], dv_key := 16, dv_size := 1024 \<rparr>"

lemma mapsys_ok: "mapper_ok mapsys dmfd id"
proof -
  have "48 \<le> length req" if "cstr (drop 48 req) = Some l" for req l using cstr_SomeD[OF that] by (cases "length req < 48") auto
  then show ?thesis by (auto simp: mapper_ok_def mapsys_def DM_DEV_CREATE_def DM_DEV_REMOVE_def DM_TABLE_LOAD_def DM_DEV_SUSPEND_def)
qed

section \<open>Properties\<close>



end
