(* ===== verification/Spec2Isabelle.thy ===== *)
theory Spec2Isabelle
  imports Qsort Svchub_Props Sha256 Timeconv Wsupp_Keys Lzma_Props Passblk_Props Deitool_Props Dmcrypt
begin

text \<open>
  Verification of \<^bold>\<open>minibase\<close>, a small Linux userspace: a C library of its own (\<^verbatim>\<open>lib\<close>) and the programs on top of it (\<^verbatim>\<open>src\<close>).

  \<^bold>\<open>Parts of the program.\<close>  The library has string and memory primitives, a pointer sort, formatters and parsers, buffered output and a heap; a
  message protocol between services and their clients (nlusctl) and a netlink library for talking to the kernel; hashes, ciphers and key
  derivation; an LZMA decoder; and calendar conversion.  Of the programs three are modelled: the service supervisor \<open>svchub\<close> (process 1), the
  key negotiation of the wireless supplicant \<open>wsupp\<close> with the installation of its keys, and the disk encryption tools of \<^verbatim>\<open>src/dcrypt\<close>.  The supervisor
  uses nlusctl for its control connections, the formatters for its paths and the utilities for diagnostics.  The key negotiation uses SHA-1, HMAC and
  the AES key wrap, and hands its keys to the kernel through the netlink library.  The disk encryption tools share a keyfile format, which
  rests on scrypt (over HMAC-SHA256 and PBKDF2) and the AES key wrap; the prompt draws its screen with the formatters.

  \<^bold>\<open>Conventions.\<close>  A C object of bytes is a list of 8-bit words (\<open>mem\<close>), a pointer into it an offset or the rest of the list; an access outside of the
  object is \<open>None\<close> (or \<open>Undef\<close>, see below), so that a result of the form \<open>Some\<close> says that memory is respected.  Integers are words of the
  width the source declares where they wrap or are stored, and \<open>int\<close> or \<open>nat\<close> where the code keeps them in range.  System calls, and functions that
  are not part of the repository, are parameters: records of functions that act on a world of any type \<open>'w\<close>, with what the code relies on as
  named predicates (\<open>writes_ok\<close>, \<open>pb_env\<close>, \<open>dek_env\<close>, \<open>pfiles\<close>, \<open>mapper_ok\<close> and others), each met by a concrete system in the witnesses.

  \<^bold>\<open>Theories.\<close>
  \<^item> \<^verbatim>\<open>Prelude\<close>: machine types, byte memory with checked access (\<open>rd\<close>, \<open>wr\<close>, \<open>rds\<close>, \<open>wrs\<close>), C strings, little-endian fields, generic lemmas.
    \<^verbatim>\<open>Outcome\<close>: the ways a part of a program ends that may call \<open>fail\<close> or \<open>_exit\<close>: \<open>Done\<close>, \<open>Fail\<close>, \<open>Exit\<close>, \<open>Undef\<close>, with \<open>andthen\<close> for
    sequence and the rules of \<open>safe\<close>.
  \<^item> \<^verbatim>\<open>Cstring\<close>: \<^verbatim>\<open>lib/string\<close>, function by function; \<open>memmove\<close>, \<open>strcmp\<close>, \<open>strstr\<close> against their specifications.  \<^verbatim>\<open>Qsort\<close>: \<^verbatim>\<open>lib/util/qsort.c\<close>, the
    partition loops with their invariant; it sorts for any comparison that is a preorder (locale \<open>qcmp\<close>), and permutes for any other.
  \<^item> \<^verbatim>\<open>Fmt\<close>, \<^verbatim>\<open>Parse\<close>: \<^verbatim>\<open>lib/format\<close>.  The contract of a formatter is a locale (\<open>formatter\<close>: it writes its text, cut off at the end pointer;
    \<open>strict_formatter\<close> and \<open>fitting_formatter\<close> are its two refinements), interpreted for each of them; the parsers invert the formatters.
  \<^item> \<^verbatim>\<open>Util\<close>: \<^verbatim>\<open>lib/output.c\<close>, \<^verbatim>\<open>lib/heap.c\<close>, \<^verbatim>\<open>lib/util\<close>: buffered output writes the stream it is given, heap blocks are disjoint.
  \<^item> \<^verbatim>\<open>Nlusctl\<close>, \<^verbatim>\<open>Ucproto\<close>: \<^verbatim>\<open>lib/nlusctl\<close>.  Each function that adds an attribute is a \<open>uc_writer\<close>; what is put into a message, sent and
    received is found by lookup, and lookup in any received message stays inside of it.
  \<^item> \<^verbatim>\<open>Netlink\<close>, \<^verbatim>\<open>Netlink_Recv\<close>, \<^verbatim>\<open>Netlink_Msg\<close>, \<^verbatim>\<open>Netlink_Props\<close>: \<^verbatim>\<open>lib/netlink\<close>.  The receive buffer refines a queue of bytes; requests are built by
    \<open>nc_writer\<close>s and read back; lookup is total.
  \<^item> \<^verbatim>\<open>Hash\<close>, \<^verbatim>\<open>Sha1\<close>, \<^verbatim>\<open>Sha256\<close>: \<^verbatim>\<open>lib/crypto\<close>, SHA-1, SHA-256, HMAC, PBKDF2.  Both hashes are interpretations of \<open>block_hash\<close>, from which HMAC and
    PBKDF2 over them are derived (\<open>mac_function\<close>).  \<^verbatim>\<open>Aes128\<close>: AES-128 and the RFC 3394 wrap over a \<open>block_cipher\<close>.  \<^verbatim>\<open>Scrypt\<close>, \<^verbatim>\<open>Scrypt_Props\<close>: scrypt is the
    function of RFC 7914.
  \<^item> \<^verbatim>\<open>Lzma\<close> (the model of \<^verbatim>\<open>lib/lzma.c\<close>), \<^verbatim>\<open>Lzma_Safe\<close>, \<^verbatim>\<open>Lzma_Range\<close>, \<^verbatim>\<open>Lzma_Code\<close>, \<^verbatim>\<open>Lzma_Decode\<close>, \<^verbatim>\<open>Lzma_Props\<close>: the decoder ends on every input inside of
    its buffers, and inverts a reference encoder.
  \<^item> \<^verbatim>\<open>Timeconv\<close>: \<^verbatim>\<open>lib/time\<close>, both conversions against the Gregorian calendar.
  \<^item> \<^verbatim>\<open>Svchub\<close> (the model), \<^verbatim>\<open>Svchub_Inv\<close>, \<^verbatim>\<open>Svchub_Reach\<close>, \<^verbatim>\<open>Svchub_Props\<close>: \<^verbatim>\<open>src/svchub\<close>.  The state is the record \<open>hub\<close> (\<open>struct top\<close>: process table, connections,
    counters, shutdown state); every event of the loop is a function on it; the invariant is kept by each of them, and holds in every reachable state.
  \<^item> \<^verbatim>\<open>Eapol\<close> (the model), \<^verbatim>\<open>Eapol_Inv\<close>, \<^verbatim>\<open>Eapol_Props\<close>, \<^verbatim>\<open>Eapol_Run\<close>: \<^verbatim>\<open>src/wsupp/wsupp_eapol.c\<close>.  The state is the record \<open>eap\<close> (the globals of the file).  \<^verbatim>\<open>Wsupp_Keys\<close>:
    \<^verbatim>\<open>src/wsupp/wsupp_nlkeys.c\<close>, the installation of the keys, composed with the negotiation.
  \<^item> \<^verbatim>\<open>Keyfile\<close> (the model of \<^verbatim>\<open>keytool.c\<close> and \<^verbatim>\<open>dektool.c\<close>), \<^verbatim>\<open>Keyfile_Props\<close>; \<^verbatim>\<open>Passblk\<close> (the model of \<^verbatim>\<open>passblk.c\<close> and its modules), \<^verbatim>\<open>Passblk_Inv\<close>, \<^verbatim>\<open>Passblk_Props\<close>;
    \<^verbatim>\<open>Deitool\<close> (the model of \<^verbatim>\<open>deitool.c\<close>), \<^verbatim>\<open>Deitool_Xts\<close>, \<^verbatim>\<open>Deitool_Multi\<close>, \<^verbatim>\<open>Deitool_Props\<close>; \<^verbatim>\<open>Dmcrypt\<close> (model and properties of \<^verbatim>\<open>dmcrypt.c\<close>): \<^verbatim>\<open>src/dcrypt\<close>.  The
    prompt is the record \<open>pblk\<close> (\<open>struct top\<close>) with one function per event.  The processes of \<open>deitool\<close> are a step relation, \<open>mstep\<close>, in which
    the parent or any child makes its next system call.

  \<^bold>\<open>What the properties show.\<close>  Safety against arbitrary input: whatever frame, message, compressed stream, key press or result of a system call arrives,
  the models touch no memory outside of their objects.  Invariants: the supervisor's tables and counters in every reachable state; the passphrase buffer and the
  wrapped keys of the prompt after any number of attempts.  Security of the key negotiation: a key is installed only after an authentic, fresh
  packet, once per attempt, and both sides agree on it.  Functional correctness: the hashes, scrypt and XTS are the functions of their standards; the
  mapper requests carry the right key, device and size.  Round trips: messages, numbers, dates, key wrap, LZMA, disk images, and keyfiles from \<open>dektool\<close> to
  the prompt.  Order: any interleaving of the processes of \<open>deitool\<close> gives the same image, and every one of them ends; the stream of netlink messages does
  not depend on how it is cut into reads.  Errors: the places where the code does not do what it means to, as theorems where they are named.

  \<^bold>\<open>Loops and bounds.\<close>  A loop that runs over an array or a string is a structural recursion or a \<open>function\<close> with a measure.  The loops that the source does not
  bound (\<open>inflate_loop\<close>, \<open>dec_match_rest\<close>, \<open>nl_attr_k_from\<close>, \<open>nest_walk\<close>, \<open>nr_drain\<close>, \<open>reap_loop\<close>, \<open>single_loop\<close>) are partial functions into
  \<open>option\<close>, and the theorems about them prove that they return, where they do; no definition uses fuel.  The endless loops of \<open>svchub\<close> and \<open>passblk\<close> are their
  reachable states; for the processes of \<open>deitool\<close> the number of steps is bounded in a theorem.

  \<^bold>\<open>Not modelled.\<close>  The system call layer (\<^verbatim>\<open>lib/sys\<close>, \<^verbatim>\<open>lib/arch\<close>, \<^verbatim>\<open>lib/bits\<close>) is the parameter of the models.  \<open>printf\<close> is variadic, and the debugging dumps only
  print.  What a child of the supervisor does between fork and exec belongs to \<open>sys_fork\<close>.  The client \<open>svcctl\<close>, the other modules of \<open>wsupp\<close>, the shells, the network and terminal
  services, the archive, module and build tools and the small utilities are not modelled yet: most of them are argument parsing and system calls around the
  library parts above.  Code under \<^verbatim>\<open>temp\<close> and \<^verbatim>\<open>test\<close> is not part of the build.
\<close>

end
